(* ===== verification/Prelude.thy ===== *)
theory Prelude
  imports Main "HOL-Library.AList" "HOL-Library.Multiset"
begin

text \<open>
  Shared vocabulary of the development: Python exceptions as values, results as sums,
  interval arithmetic used by the arenas and the tensor shards, and a small interface
  for components whose operations keep an invariant.  Exception messages are not
  modelled; the class of the exception is.
\<close>

section \<open>Exceptions and results\<close>

datatype exn =
    ValueError
  | RuntimeError
  | TypeError
  | KeyError
  | IndexError
  | OSError
  | InterruptedError
  | BufferError
  | CacheBusy
  | AttributeError
  | StructError
  | FileExistsError
  | NotImplementedError
  | OverflowError
  | ZeroDivisionError
  | StopIteration

type_synonym 'a res = "exn + 'a"

named_theorems res_simps \<open>unfolding rules for results\<close>

definition bind_res :: "'a res \<Rightarrow> ('a \<Rightarrow> 'b res) \<Rightarrow> 'b res" where
  "bind_res r f = (case r of Inl e \<Rightarrow> Inl e | Inr x \<Rightarrow> f x)"

lemma bind_res_simps [simp, res_simps]:
  "bind_res (Inl e) f = Inl e"
  "bind_res (Inr x) f = f x"
  by (simp_all add: bind_res_def)

lemma bind_res_Inr [res_simps]:
  "bind_res r f = Inr y \<longleftrightarrow> (\<exists>x. r = Inr x \<and> f x = Inr y)"
  by (cases r) auto

lemma bind_res_Inl [res_simps]:
  "bind_res r f = Inl e \<longleftrightarrow> r = Inl e \<or> (\<exists>x. r = Inr x \<and> f x = Inl e)"
  by (cases r) auto

lemma bind_res_cong [fundef_cong]:
  "r = r' \<Longrightarrow> (\<And>x. r' = Inr x \<Longrightarrow> f x = f' x) \<Longrightarrow> bind_res r f = bind_res r' f'"
  by (cases r') auto

definition is_ok :: "'a res \<Rightarrow> bool" where
  "is_ok r = (case r of Inl _ \<Rightarrow> False | Inr _ \<Rightarrow> True)"

lemma is_ok_simps [simp, res_simps]:
  "\<not> is_ok (Inl e)"
  "is_ok (Inr x)"
  by (simp_all add: is_ok_def)

lemma is_ok_iff: "is_ok r \<longleftrightarrow> (\<exists>x. r = Inr x)"
  by (cases r) auto

text \<open>A loop over a list that stops at the first exception.\<close>

fun map_res :: "('a \<Rightarrow> 'b res) \<Rightarrow> 'a list \<Rightarrow> 'b list res" where
  "map_res f [] = Inr []"
| "map_res f (x # xs) =
     bind_res (f x) (\<lambda>y. bind_res (map_res f xs) (\<lambda>ys. Inr (y # ys)))"

fun fold_res :: "('s \<Rightarrow> 'a \<Rightarrow> 's res) \<Rightarrow> 's \<Rightarrow> 'a list \<Rightarrow> 's res" where
  "fold_res f s [] = Inr s"
| "fold_res f s (x # xs) = bind_res (f s x) (\<lambda>s'. fold_res f s' xs)"

lemma map_res_Inr_iff:
  "map_res f xs = Inr ys \<longleftrightarrow> list_all2 (\<lambda>x y. f x = Inr y) xs ys"
  by (induction xs arbitrary: ys) (auto simp: bind_res_Inr list_all2_Cons1)

lemma fold_res_append [simp]:
  "fold_res f s (xs @ ys) = bind_res (fold_res f s xs) (\<lambda>s'. fold_res f s' ys)"
  by (induction xs arbitrary: s) (auto simp: bind_res_def split: sum.splits)

lemma fold_res_invariant:
  assumes "fold_res f s xs = Inr s'"
    and "P s"
    and "\<And>s x t. x \<in> set xs \<Longrightarrow> P s \<Longrightarrow> f s x = Inr t \<Longrightarrow> P t"
  shows "P s'"
  using assms
proof (induction xs arbitrary: s)
  case (Cons x xs)
  from Cons.prems(1) obtain t where t: "f s x = Inr t" "fold_res f t xs = Inr s'"
    by (auto simp: bind_res_Inr)
  show ?case
    by (rule Cons.IH [OF t(2)]) (use Cons.prems t in auto)
qed auto

text \<open>A fold whose steps never fail does not fail.\<close>

lemma fold_res_total:
  assumes "P s" and "\<And>s x. x \<in> set xs \<Longrightarrow> P s \<Longrightarrow> \<exists>t. f s x = Inr t \<and> P t"
  shows "\<exists>s'. fold_res f s xs = Inr s' \<and> P s'"
  using assms
proof (induction xs arbitrary: s)
  case (Cons x xs)
  obtain t where t: "f s x = Inr t" "P t" using Cons.prems by (meson list.set_intros(1))
  show ?case using Cons.IH [OF t(2)] Cons.prems(2) t(1) by (simp add: bind_res_Inr)
qed simp

section \<open>Invariants of components with operations\<close>

text \<open>
  A component is a state, a list of operations that return a new state or raise, and an
  invariant.  An operation that raises may still have changed the state (Python objects
  are mutated in place), so the step returns the state in both cases, with the outcome
  beside it.
\<close>

fun run_ops :: "('s \<Rightarrow> 'e \<Rightarrow> 's \<times> 'r) \<Rightarrow> 's \<Rightarrow> 'e list \<Rightarrow> 's" where
  "run_ops step s [] = s"
| "run_ops step s (e # es) = run_ops step (fst (step s e)) es"

fun runs_ok :: "('s \<Rightarrow> 'e \<Rightarrow> 's \<times> 'r) \<Rightarrow> ('s \<Rightarrow> 'e \<Rightarrow> bool) \<Rightarrow> 's \<Rightarrow> 'e list \<Rightarrow> bool" where
  "runs_ok step enabled s [] = True"
| "runs_ok step enabled s (e # es) = (enabled s e \<and> runs_ok step enabled (fst (step s e)) es)"

locale component =
  fixes step :: "'s \<Rightarrow> 'e \<Rightarrow> 's \<times> 'r"
    and inv :: "'s \<Rightarrow> bool"
    and enabled :: "'s \<Rightarrow> 'e \<Rightarrow> bool"
  assumes step_inv: "inv s \<Longrightarrow> enabled s e \<Longrightarrow> inv (fst (step s e))"
begin

lemma run_inv: "inv s \<Longrightarrow> runs_ok step enabled s es \<Longrightarrow> inv (run_ops step s es)"
  by (induction es arbitrary: s) (auto intro: step_inv)

lemma run_inv_total: "inv s \<Longrightarrow> (\<And>s e. enabled s e) \<Longrightarrow> inv (run_ops step s es)"
  by (induction es arbitrary: s) (auto intro: step_inv)

end

section \<open>Half-open intervals\<close>

text \<open>An extent is an offset with a length; it covers the half-open interval.\<close>

type_synonym extent = "int \<times> int"

definition ext_set :: "extent \<Rightarrow> int set" where
  "ext_set e = {fst e ..< fst e + snd e}"

definition ext_disj :: "extent \<Rightarrow> extent \<Rightarrow> bool" where
  "ext_disj a b \<longleftrightarrow> fst a + snd a \<le> fst b \<or> fst b + snd b \<le> fst a"

lemma ext_set_Pair [simp]: "ext_set (a, n) = {a..<a + n}"
  by (simp add: ext_set_def)

lemma ext_disj_Int: "ext_disj a b \<Longrightarrow> ext_set a \<inter> ext_set b = {}"
  by (auto simp: ext_disj_def ext_set_def)

lemma ext_disj_sym: "ext_disj a b \<longleftrightarrow> ext_disj b a"
  by (auto simp: ext_disj_def)

text \<open>A list of lengths laid end to end: the offset of piece \<open>i\<close>.\<close>

definition offset_of :: "nat list \<Rightarrow> nat \<Rightarrow> nat" where
  "offset_of ls i = sum_list (take i ls)"

lemma offset_of_Suc: "i < length ls \<Longrightarrow> offset_of ls (Suc i) = offset_of ls i + ls ! i"
  by (simp add: offset_of_def take_Suc_conv_app_nth)

lemma offset_of_mono: "i \<le> j \<Longrightarrow> offset_of ls i \<le> offset_of ls j"
proof -
  assume "i \<le> j"
  then obtain k where "j = i + k" by (auto simp: le_iff_add)
  then show ?thesis by (simp add: offset_of_def take_add)
qed

lemma offset_of_bound: "i < length ls \<Longrightarrow> offset_of ls i + ls ! i \<le> sum_list ls"
  using offset_of_mono [of "Suc i" "length ls" ls]
  by (simp add: offset_of_Suc) (simp add: offset_of_def)

section \<open>Lists\<close>

lemma distinct_map_filter_key: "distinct (map f xs) \<Longrightarrow> distinct (map f (filter P xs))"
  by (induction xs) auto

lemma sum_list_filter_split:
  "sum_list (map f xs) =
     sum_list (map f (filter P xs)) + sum_list (map f (filter (\<lambda>x. \<not> P x) xs))"
  for f :: "'a \<Rightarrow> nat"
  by (induction xs) auto

lemma upt_split: "a \<le> b \<Longrightarrow> b \<le> c \<Longrightarrow> [a..<b] @ [b..<c] = [a..<c]"
  by (metis le_iff_add upt_add_eq_append)

text \<open>In a list sorted by a key, the elements of one key are a segment.\<close>

lemma sorted_segment:
  "sorted (map k xs) \<Longrightarrow>
    take (length (filter (\<lambda>x. k x = v) xs)) (drop (length (filter (\<lambda>x. k x < v) xs)) xs) = filter (\<lambda>x. k x = v) xs"
  for k :: "'a \<Rightarrow> 'b :: linorder"
proof (induction xs)
  case (Cons x xs)
  then have le: "\<forall>y \<in> set xs. k x \<le> k y" and IH: "take (length (filter (\<lambda>x. k x = v) xs)) (drop (length (filter (\<lambda>x. k x < v) xs)) xs) =
    filter (\<lambda>x. k x = v) xs" by simp_all
  show ?case
  proof (cases "k x < v")
    case False
    then have "filter (\<lambda>y. k y < v) xs = []" using le by (auto simp: filter_empty_conv not_less intro: order_trans)
    moreover have "filter (\<lambda>y. k y = v) xs = []" if "k x \<noteq> v" using le False that by (auto simp: filter_empty_conv)
    ultimately show ?thesis using False IH by auto
  qed (use IH in simp)
qed simp

lemma map_res_map: "map_res f (map g xs) = map_res (\<lambda>x. f (g x)) xs"
  by (induction xs) auto

lemma map_res_total: "(\<And>x. x \<in> set xs \<Longrightarrow> \<exists>y. f x = Inr y) \<Longrightarrow> \<exists>ys. map_res f xs = Inr ys"
proof (induction xs)
  case (Cons x xs)
  obtain y where "f x = Inr y" using Cons.prems [of x] by auto
  then show ?case using Cons by auto
qed simp

lemma map_res_cong [fundef_cong]:
  "xs = ys \<Longrightarrow> (\<And>x. x \<in> set ys \<Longrightarrow> f x = g x) \<Longrightarrow> map_res f xs = map_res g ys"
  by (induction xs arbitrary: ys) auto

section \<open>Indexed assignment\<close>

text \<open>\<open>xs[offsets] = values\<close>\<close>

definition scatter :: "'a list \<Rightarrow> (nat \<times> 'a) list \<Rightarrow> 'a list" where
  "scatter xs ps = fold (\<lambda>(i, v) xs. xs[i := v]) ps xs"

lemma scatter_length [simp]: "length (scatter xs ps) = length xs"
  by (induction ps arbitrary: xs) (auto simp: scatter_def)

lemma scatter_Cons: "scatter xs ((i, v) # ps) = scatter (xs[i := v]) ps"
  by (simp add: scatter_def)

lemma scatter_Nil [simp]: "scatter xs [] = xs"
  by (simp add: scatter_def)

lemma scatter_other: "i \<notin> fst ` set ps \<Longrightarrow> scatter xs ps ! i = xs ! i"
  by (induction ps arbitrary: xs) (auto simp: scatter_Cons)

lemma scatter_at:
  assumes "distinct (map fst ps)" "(i, v) \<in> set ps" "i < length xs"
  shows "scatter xs ps ! i = v"
  using assms
proof (induction ps arbitrary: xs)
  case (Cons p ps)
  obtain j w where p: "p = (j, w)" by force
  show ?case
  proof (cases "(i, v) = p")
    case True
    then have "i \<notin> fst ` set ps" using Cons.prems(1) p by force
    then show ?thesis using True Cons.prems(3) p by (simp add: scatter_Cons scatter_other)
  next
    case False
    then show ?thesis using Cons p by (auto simp: scatter_Cons)
  qed
qed simp

text \<open>Reading what was scattered, for a list of distinct offsets.\<close>

lemma scatter_reads:
  assumes "distinct os" "length os = length vs" "\<forall>o' \<in> set os. o' < length xs"
  shows "map ((!) (scatter xs (zip os vs))) os = vs"
proof (rule nth_equalityI)
  fix i assume "i < length (map ((!) (scatter xs (zip os vs))) os)"
  then have i: "i < length os" by simp
  have "(os ! i, vs ! i) \<in> set (zip os vs)" using i assms(2) by (auto simp: set_zip)
  then show "map ((!) (scatter xs (zip os vs))) os ! i = vs ! i"
    using assms i by (simp add: scatter_at)
qed (use assms in simp)

lemma scatter_append: "scatter xs (ps @ qs) = scatter (scatter xs ps) qs"
  by (simp add: scatter_def)

end
