(* ===== verification/Ordered_Dict.thy ===== *)
theory Ordered_Dict
  imports Prelude
begin

text \<open>
  Python's \<open>OrderedDict\<close>, which the expert cache, the asynchronous expert store and the
  Engram row cache use as an LRU list, a staging list and an LRU list: an association
  list with distinct keys in insertion order.  Assignment to a present key keeps its
  position, to an absent key appends; \<open>move_to_end\<close> makes the key the last;
  \<open>popitem(last=False)\<close> removes the first.  The locale states what the clients rely on,
  with the capacity argument of a bounded cache proved once from the laws.
\<close>

type_synonym ('k, 'v) odict = "('k \<times> 'v) list"

definition od_keys :: "('k, 'v) odict \<Rightarrow> 'k list" where
  "od_keys d = map fst d"

definition od_ok :: "('k, 'v) odict \<Rightarrow> bool" where
  "od_ok d = distinct (od_keys d)"

definition od_get :: "('k, 'v) odict \<Rightarrow> 'k \<Rightarrow> 'v option" where
  "od_get d k = map_of d k"

definition od_set :: "'k \<Rightarrow> 'v \<Rightarrow> ('k, 'v) odict \<Rightarrow> ('k, 'v) odict" where
  "od_set k v d = AList.update k v d"

definition od_del :: "'k \<Rightarrow> ('k, 'v) odict \<Rightarrow> ('k, 'v) odict" where
  "od_del k d = AList.delete k d"

definition od_move_end :: "'k \<Rightarrow> ('k, 'v) odict \<Rightarrow> ('k, 'v) odict" where
  "od_move_end k d = (case map_of d k of None \<Rightarrow> d | Some v \<Rightarrow> AList.delete k d @ [(k, v)])"

definition od_pop_first :: "('k, 'v) odict \<Rightarrow> ('k, 'v) odict" where
  "od_pop_first d = tl d"

lemmas od_defs = od_keys_def od_ok_def od_get_def od_set_def od_del_def
  od_move_end_def od_pop_first_def

lemma alist_update_append:
  "k \<notin> fst ` set d \<Longrightarrow> AList.update k v d = d @ [(k, v)]"
  by (induction d) auto

lemma keys_update:
  "map fst (AList.update k v d) = (if k \<in> fst ` set d then map fst d else map fst d @ [k])"
  by (induction d) auto

lemma keys_delete: "map fst (AList.delete k d) = filter (\<lambda>x. x \<noteq> k) (map fst d)"
  by (induction d) auto

lemma od_get_iff: "od_get d k = None \<longleftrightarrow> k \<notin> set (od_keys d)"
  by (simp add: od_get_def od_keys_def map_of_eq_None_iff)

lemma od_get_Some_in: "od_get d k = Some v \<Longrightarrow> (k, v) \<in> set d"
  by (simp add: od_get_def map_of_SomeD)

lemma od_get_in: "od_ok d \<Longrightarrow> (k, v) \<in> set d \<Longrightarrow> od_get d k = Some v"
  by (simp add: od_defs)

lemma od_keys_set:
  "od_keys (od_set k v d) = (if k \<in> set (od_keys d) then od_keys d else od_keys d @ [k])"
  by (simp add: od_keys_def od_set_def keys_update)

lemma od_keys_del: "od_keys (od_del k d) = filter (\<lambda>x. x \<noteq> k) (od_keys d)"
  by (simp add: od_keys_def od_del_def keys_delete)

lemma od_keys_move_end:
  "od_keys (od_move_end k d) =
     (if k \<in> set (od_keys d) then filter (\<lambda>x. x \<noteq> k) (od_keys d) @ [k] else od_keys d)"
  by (auto simp: od_keys_def od_move_end_def keys_delete map_of_eq_None_iff split: option.split
      dest: map_of_SomeD) (metis fst_conv imageI map_of_SomeD)

lemma od_ok_set [simp]: "od_ok d \<Longrightarrow> od_ok (od_set k v d)"
  by (simp add: od_ok_def od_keys_set)

lemma od_ok_del [simp]: "od_ok d \<Longrightarrow> od_ok (od_del k d)"
  by (simp add: od_ok_def od_keys_del)

lemma od_ok_move_end [simp]: "od_ok d \<Longrightarrow> od_ok (od_move_end k d)"
  by (simp add: od_ok_def od_keys_move_end)

lemma od_ok_pop_first [simp]: "od_ok d \<Longrightarrow> od_ok (od_pop_first d)"
  by (cases d) (simp_all add: od_ok_def od_keys_def od_pop_first_def)

lemma od_ok_Nil [simp]: "od_ok []"
  by (simp add: od_defs)

lemma od_get_set [simp]: "od_get (od_set k v d) k' = (if k' = k then Some v else od_get d k')"
  by (simp add: od_get_def od_set_def update_conv')

lemma od_get_del [simp]: "od_get (od_del k d) k' = (if k' = k then None else od_get d k')"
  by (simp add: od_get_def od_del_def delete_conv')

lemma od_get_move_end [simp]: "od_get (od_move_end k d) k' = od_get d k'"
proof (cases "map_of d k")
  case (Some v)
  show ?thesis
    by (cases "k' = k")
      (simp_all add: od_get_def od_move_end_def Some map_add_def delete_conv' split: option.split)
qed (simp add: od_move_end_def)

lemma od_get_set_upd: "od_get (od_set k v d) = (od_get d)(k \<mapsto> v)"
  by (rule ext) simp

lemma od_get_move_end_same: "od_get (od_move_end k d) = od_get d"
  by (rule ext) simp

lemma set_od_del: "set (od_del k d) = {p \<in> set d. fst p \<noteq> k}"
  unfolding od_del_def by (induction d) auto

lemma od_del_one: "od_ok d \<Longrightarrow> od_get d k = Some v \<Longrightarrow> set (od_del k d) = set d - {(k, v)}"
  by (auto simp: set_od_del dest: od_get_in od_get_Some_in)

lemma od_length_keys [simp]: "length (od_keys d) = length d"
  by (simp add: od_keys_def)

lemma od_length_set:
  "length (od_set k v d) = (if od_get d k = None then Suc (length d) else length d)"
  by (metis od_get_iff od_keys_set od_length_keys length_append_singleton)

lemma od_length_pop_first [simp]: "length (od_pop_first d) = length d - 1"
  by (simp add: od_pop_first_def)

lemma od_get_pop_first:
  "od_ok d \<Longrightarrow> od_get (od_pop_first d) k =
     (if d \<noteq> [] \<and> k = fst (hd d) then None else od_get d k)"
  by (cases d) (auto simp: od_defs map_of_eq_None_iff)

text \<open>A sum over the values.\<close>

definition od_sum :: "('v \<Rightarrow> int) \<Rightarrow> ('k, 'v) odict \<Rightarrow> int" where
  "od_sum f d = sum_list (map (\<lambda>p. f (snd p)) d)"

lemma od_sum_Nil [simp]: "od_sum f [] = 0"
  by (simp add: od_sum_def)

lemma od_sum_set:
  "od_ok d \<Longrightarrow> od_sum f (od_set k v d) =
     od_sum f d + f v - (case od_get d k of None \<Rightarrow> 0 | Some w \<Rightarrow> f w)"
proof (induction d)
  case (Cons p d)
  then show ?case
    by (cases p) (auto simp: od_sum_def od_defs split: option.splits)
qed (simp add: od_sum_def od_defs)

lemma od_sum_del:
  "od_ok d \<Longrightarrow> od_sum f (od_del k d) = od_sum f d - (case od_get d k of None \<Rightarrow> 0 | Some w \<Rightarrow> f w)"
proof (induction d)
  case (Cons p d)
  obtain a b where p: "p = (a, b)" by (cases p)
  have "od_get d a = None" using Cons.prems by (simp add: od_get_iff p od_ok_def od_keys_def)
  then have "AList.delete a d = d" by (intro delete_id) (simp add: od_get_def map_of_eq_None_iff)
  then show ?case using Cons
    by (auto simp: od_sum_def od_defs p split: option.splits)
qed (simp add: od_sum_def od_defs)

lemma od_sum_move_end [simp]: "od_ok d \<Longrightarrow> od_sum f (od_move_end k d) = od_sum f d"
proof (cases "od_get d k")
  case (Some v)
  assume "od_ok d"
  then show ?thesis using od_sum_del [of d f k] Some
    by (simp add: od_move_end_def od_get_def od_del_def od_sum_def)
qed (simp add: od_move_end_def od_get_def)

section \<open>The interface of a bounded store with eviction of the first entry\<close>

locale evicting_store =
  fixes get :: "'d \<Rightarrow> 'k \<Rightarrow> 'v option"
    and put :: "'k \<Rightarrow> 'v \<Rightarrow> 'd \<Rightarrow> 'd"
    and drop_oldest :: "'d \<Rightarrow> 'd"
    and count :: "'d \<Rightarrow> nat"
    and inv :: "'d \<Rightarrow> bool"
  assumes get_put: "inv d \<Longrightarrow> get (put k v d) k' = (if k' = k then Some v else get d k')"
    and count_put: "inv d \<Longrightarrow> count (put k v d) \<le> Suc (count d)"
    and count_put_hit: "inv d \<Longrightarrow> get d k \<noteq> None \<Longrightarrow> count (put k v d) = count d"
    and count_drop: "inv d \<Longrightarrow> count (drop_oldest d) = count d - 1"
    and get_drop: "inv d \<Longrightarrow> get (drop_oldest d) k = Some v \<Longrightarrow> get d k = Some v"
    and inv_put: "inv d \<Longrightarrow> inv (put k v d)"
    and inv_drop: "inv d \<Longrightarrow> inv (drop_oldest d)"
begin

text \<open>Make room first, then insert: the count never passes a positive capacity.\<close>

lemma bounded_insert_count:
  assumes "inv d" and "count d \<le> c" and "0 < c"
  shows "count (put k v (if c \<le> count d then drop_oldest d else d)) \<le> c"
proof (cases "c \<le> count d")
  case True
  then have "count (put k v (drop_oldest d)) \<le> Suc (count d - 1)"
    using assms count_put [OF inv_drop [OF assms(1)]] by (simp add: count_drop)
  with True assms show ?thesis by simp
next
  case False
  then show ?thesis using assms count_put [of d k v] by simp
qed

text \<open>Whatever is stored afterwards is the new value or was stored before.\<close>

lemma bounded_insert_get:
  assumes "inv d" and "get (put k v (if b then drop_oldest d else d)) k' = Some v'"
  shows "(k' = k \<and> v' = v) \<or> get d k' = Some v'"
  using assms get_put [OF inv_drop [OF assms(1)]]
  by (auto simp: get_put dest: get_drop split: if_splits)

lemma bounded_insert_inv: "inv d \<Longrightarrow> inv (put k v (if b then drop_oldest d else d))"
  by (simp add: inv_put inv_drop)

end

interpretation odict: evicting_store od_get od_set od_pop_first length od_ok
  by unfold_locales
    (auto simp: od_length_set od_get_pop_first split: if_splits)

end
