(* ===== verification/Arena_Regions.thy ===== *)
theory Arena_Regions
  imports Ordered_Dict "HOL-Library.Product_Lexorder"
begin

text \<open>
  The fixed arena of the NVMe expert cache: class \<open>Regions\<close> of
  \<open>experiments/dsv41_nvme/expert_store.py\<close>.  First-fit allocation of aligned extents,
  release with coalescing.  The invariant says that free and allocated extents tile the
  arena, and that the free list is sorted with gaps, so a fully released arena is one
  extent again.  The locale \<open>arena_allocator\<close> is what the cache relies on.
\<close>

definition ALIGN :: int where "ALIGN = 4096"

definition aligned :: "int \<Rightarrow> int \<Rightarrow> int" where
  "aligned n alignment = (n + alignment - 1) div alignment * alignment"

record regions =
  rg_free :: "extent list"
  rg_allocated :: "(int, int) odict"

definition regions_new :: "int \<Rightarrow> int \<Rightarrow> regions res" where
  "regions_new sz base =
     (if sz \<le> 0 \<or> sz mod ALIGN \<noteq> 0 \<or> base mod ALIGN \<noteq> 0 then Inl ValueError
      else Inr \<lparr>rg_free = [(base, sz)], rg_allocated = []\<rparr>)"

fun first_fit :: "int \<Rightarrow> extent list \<Rightarrow> (int \<times> extent list) option" where
  "first_fit sz [] = None"
| "first_fit sz ((off, len) # fs) =
     (if sz \<le> len
      then Some (off, (if sz < len then [(off + sz, len - sz)] else []) @ fs)
      else map_option (\<lambda>(r, fs'). (r, (off, len) # fs')) (first_fit sz fs))"

definition regions_allocate :: "regions \<Rightarrow> int \<Rightarrow> (regions \<times> int option) res" where
  "regions_allocate r nbytes =
     (if nbytes \<le> 0 then Inl ValueError
      else let sz = aligned nbytes ALIGN in
        (case first_fit sz (rg_free r) of
           None \<Rightarrow> Inr (r, None)
         | Some (off, fs) \<Rightarrow>
             Inr (r\<lparr>rg_free := fs, rg_allocated := od_set off sz (rg_allocated r)\<rparr>, Some off)))"

text \<open>The merge loop of \<open>release\<close>: the last merged extent grows while the next is adjacent.\<close>

fun coalesce :: "extent list \<Rightarrow> extent list" where
  "coalesce [] = []"
| "coalesce [x] = [x]"
| "coalesce ((a, n) # (b, m) # r) =
     (if a + n = b then coalesce ((a, n + m) # r) else (a, n) # coalesce ((b, m) # r))"

definition regions_release :: "regions \<Rightarrow> int \<Rightarrow> regions res" where
  "regions_release r off =
     (case od_get (rg_allocated r) off of
        None \<Rightarrow> Inl KeyError
      | Some sz \<Rightarrow>
          Inr \<lparr>rg_free = coalesce (sort (rg_free r @ [(off, sz)])),
                rg_allocated = od_del off (rg_allocated r)\<rparr>)"

section \<open>The arena invariant\<close>

definition gapped :: "extent list \<Rightarrow> bool" where
  "gapped fs = sorted_wrt (\<lambda>x y. fst x + snd x < fst y) fs"

definition good_ext :: "extent \<Rightarrow> bool" where
  "good_ext e \<longleftrightarrow> 0 < snd e \<and> fst e mod ALIGN = 0 \<and> snd e mod ALIGN = 0"

definition arena_inv :: "int \<Rightarrow> int \<Rightarrow> regions \<Rightarrow> bool" where
  "arena_inv base sz r \<longleftrightarrow>
     gapped (rg_free r) \<and> od_ok (rg_allocated r) \<and>
     (\<forall>e \<in> set (rg_free r) \<union> set (rg_allocated r). good_ext e) \<and>
     (\<forall>f \<in> set (rg_free r). \<forall>a \<in> set (rg_allocated r). ext_disj f a) \<and>
     (\<forall>a \<in> set (rg_allocated r). \<forall>b \<in> set (rg_allocated r). a \<noteq> b \<longrightarrow> ext_disj a b) \<and>
     (\<Union>e \<in> set (rg_free r) \<union> set (rg_allocated r). ext_set e) = {base..<base + sz}"

lemma aligned_bounds:
  assumes "0 < a"
  shows "n \<le> aligned n a" and "aligned n a < n + a" and "aligned n a mod a = 0"
proof -
  have "(n + a - 1) div a * a = n + a - 1 - (n + a - 1) mod a"
    by (simp add: minus_mod_eq_div_mult)
  moreover have "0 \<le> (n + a - 1) mod a \<and> (n + a - 1) mod a < a" using assms by simp
  ultimately show "n \<le> aligned n a" "aligned n a < n + a" by (auto simp: aligned_def)
  show "aligned n a mod a = 0" by (simp add: aligned_def)
qed

lemma aligned_pos: "0 < n \<Longrightarrow> 0 < aligned n ALIGN"
  using aligned_bounds(1) [of ALIGN n] by (simp add: ALIGN_def)

lemma aligned_le:
  assumes "n \<le> m" and "m mod ALIGN = 0"
  shows "aligned n ALIGN \<le> m"
proof (rule ccontr)
  assume "\<not> aligned n ALIGN \<le> m"
  moreover obtain k where k: "aligned n ALIGN = k * ALIGN" by (auto simp: aligned_def)
  moreover obtain j where j: "m = j * ALIGN" using assms(2) by (metis mod_0_imp_dvd dvd_div_mult_self)
  ultimately have "j * ALIGN < k * ALIGN" by simp
  then have "j + 1 \<le> k" by (simp add: ALIGN_def)
  then have "m + ALIGN \<le> aligned n ALIGN"
    using k j by (simp add: ALIGN_def)
  with aligned_bounds(2) [of ALIGN n] assms(1) show False by (simp add: ALIGN_def)
qed

lemma gapped_Cons: "gapped (x # xs) \<longleftrightarrow> (\<forall>y \<in> set xs. fst x + snd x < fst y) \<and> gapped xs"
  by (simp add: gapped_def)

lemma good_ext_Union_pos: "good_ext e \<Longrightarrow> ext_set e \<noteq> {}"
  by (auto simp: good_ext_def ext_set_def)

lemma ext_disj_of_Int:
  "ext_set f \<inter> ext_set b = {} \<Longrightarrow> 0 < snd f \<Longrightarrow> 0 < snd b \<Longrightarrow> ext_disj f b"
proof (rule ccontr)
  assume h: "ext_set f \<inter> ext_set b = {}" "0 < snd f" "0 < snd b" "\<not> ext_disj f b"
  then have "max (fst f) (fst b) \<in> ext_set f \<inter> ext_set b"
    by (auto simp: ext_disj_def ext_set_def)
  with h(1) show False by simp
qed

subsection \<open>First fit\<close>

lemma first_fit_None: "first_fit sz fs = None \<longleftrightarrow> (\<forall>f \<in> set fs. snd f < sz)"
  by (induction sz fs rule: first_fit.induct) auto

lemma first_fit_Some:
  assumes "first_fit sz fs = Some (off, fs')"
  obtains pre len post where "fs = pre @ (off, len) # post" and "sz \<le> len"
    and "fs' = pre @ (if sz < len then [(off + sz, len - sz)] else []) @ post"
proof -
  have "\<exists>pre len post. fs = pre @ (off, len) # post \<and> sz \<le> len \<and>
     fs' = pre @ (if sz < len then [(off + sz, len - sz)] else []) @ post"
    using assms
  proof (induction sz fs arbitrary: fs' rule: first_fit.induct)
    case (2 sz o' len fs)
    show ?case
    proof (cases "sz \<le> len")
      case True
      with "2.prems" show ?thesis by (intro exI [of _ "[]"] exI [of _ len] exI [of _ fs]) auto
    next
      case False
      with "2.prems" obtain g where g: "first_fit sz fs = Some (off, g)" "fs' = (o', len) # g"
        by auto
      from "2.IH" [OF False g(1)] obtain pre l post where
        "fs = pre @ (off, l) # post" "sz \<le> l"
        "g = pre @ (if sz < l then [(off + sz, l - sz)] else []) @ post" by blast
      with g(2) show ?thesis by (intro exI [of _ "(o', len) # pre"]) auto
    qed
  qed simp
  then show ?thesis using that by blast
qed

subsection \<open>Coalescing\<close>

lemma coalesce_offsets: "e \<in> set (coalesce ((a, n) # r)) \<Longrightarrow>
    sorted_wrt (\<lambda>x y. fst x + snd x \<le> fst y) ((a, n) # r) \<Longrightarrow>
    (\<forall>e \<in> set ((a, n) # r). 0 < snd e) \<Longrightarrow> a \<le> fst e"
  by (induction r arbitrary: a n e) (fastforce split: if_splits)+

lemma coalesce_props:
  assumes "sorted_wrt (\<lambda>x y. fst x + snd x \<le> fst y) fs" and "\<forall>e \<in> set fs. good_ext e"
  shows "gapped (coalesce fs) \<and> (\<forall>e \<in> set (coalesce fs). good_ext e) \<and>
    (\<Union>e \<in> set (coalesce fs). ext_set e) = (\<Union>e \<in> set fs. ext_set e)"
  using assms
proof (induction fs rule: coalesce.induct)
  case (3 a n b m r)
  have pos: "0 < n" "0 < m" using "3.prems"(2) by (auto simp: good_ext_def)
  show ?case
  proof (cases "a + n = b")
    case True
    have "sorted_wrt (\<lambda>x y. fst x + snd x \<le> fst y) ((a, n + m) # r)"
      using "3.prems"(1) True by auto
    moreover have "\<forall>e \<in> set ((a, n + m) # r). good_ext e"
      using "3.prems"(2) by (auto simp: good_ext_def mod_add_eq [symmetric])
    ultimately have IH: "gapped (coalesce ((a, n + m) # r)) \<and>
       (\<forall>e \<in> set (coalesce ((a, n + m) # r)). good_ext e) \<and>
       (\<Union>e \<in> set (coalesce ((a, n + m) # r)). ext_set e) = (\<Union>e \<in> set ((a, n + m) # r). ext_set e)"
      using "3.IH"(1) True by blast
    moreover have "ext_set (a, n + m) = ext_set (a, n) \<union> ext_set (b, m)"
      using True pos by auto
    ultimately show ?thesis using True by auto
  next
    case False
    have s: "sorted_wrt (\<lambda>x y. fst x + snd x \<le> fst y) ((b, m) # r)"
      and g: "\<forall>e \<in> set ((b, m) # r). good_ext e" using "3.prems" by auto
    have lt: "a + n < b" using "3.prems"(1) False by auto
    have "\<forall>e \<in> set (coalesce ((b, m) # r)). b \<le> fst e"
      using coalesce_offsets [OF _ s] g by (auto simp: good_ext_def)
    then have "\<forall>e \<in> set (coalesce ((b, m) # r)). a + n < fst e" using lt by fastforce
    with "3.IH"(2) [OF False s g] False "3.prems"(2) show ?thesis
      by (auto simp: gapped_Cons)
  qed
qed (auto simp: gapped_def)

lemma sort_disjoint:
  assumes "\<forall>e \<in> set fs. 0 < snd e"
    and "\<And>x y. x \<in> set fs \<Longrightarrow> y \<in> set fs \<Longrightarrow> x \<noteq> y \<Longrightarrow> ext_disj x y"
    and "distinct fs"
  shows "sorted_wrt (\<lambda>x y. fst x + snd x \<le> fst y) (sort fs)"
proof -
  have "sorted_wrt (<) (sort fs)"
    using assms(3) by (simp add: strict_sorted_iff)
  then show ?thesis
  proof (rule sorted_wrt_mono_rel [rotated])
    fix x y :: extent
    assume "x \<in> set (sort fs)" "y \<in> set (sort fs)" "x < y"
    then have xy: "x \<in> set fs" "y \<in> set fs" "x \<noteq> y" "fst x \<le> fst y"
      by (auto simp: less_prod_def)
    have "ext_disj x y" by (rule assms(2)) (rule xy)+
    moreover have "0 < snd y" using assms(1) xy(2) by blast
    moreover note xy(4)
    ultimately show "fst x + snd x \<le> fst y" by (auto simp: ext_disj_def)
  qed
qed

subsection \<open>Allocation and release keep the invariant\<close>

lemma arena_invD:
  assumes "arena_inv base sz r"
  shows "gapped (rg_free r)" and "od_ok (rg_allocated r)"
    and "e \<in> set (rg_free r) \<or> e \<in> set (rg_allocated r) \<Longrightarrow> good_ext e"
    and "f \<in> set (rg_free r) \<Longrightarrow> a \<in> set (rg_allocated r) \<Longrightarrow> ext_disj f a"
    and "a \<in> set (rg_allocated r) \<Longrightarrow> b \<in> set (rg_allocated r) \<Longrightarrow> a \<noteq> b \<Longrightarrow> ext_disj a b"
    and "(\<Union>e \<in> set (rg_free r) \<union> set (rg_allocated r). ext_set e) = {base..<base + sz}"
  using assms unfolding arena_inv_def by (blast+)

lemma regions_new_inv:
  "regions_new sz base = Inr r \<Longrightarrow> arena_inv base sz r"
  by (auto simp: regions_new_def arena_inv_def gapped_def good_ext_def split: if_splits)

lemma good_ext_disj_key:
  "good_ext (off, n) \<Longrightarrow> good_ext (off, m) \<Longrightarrow> \<not> ext_disj (off, n) (off, m)"
  by (auto simp: good_ext_def ext_disj_def)

lemma gapped_split:
  assumes "gapped (pre @ (off, len) # post)" and "0 < sz" and "sz \<le> len"
  shows "gapped (pre @ (if sz < len then [(off + sz, len - sz)] else []) @ post)"
  using assms by (auto simp: gapped_def sorted_wrt_append)

lemma gapped_disjoint:
  "gapped fs \<Longrightarrow> distinct fs \<and> (\<forall>x \<in> set fs. \<forall>y \<in> set fs. x \<noteq> y \<longrightarrow> ext_disj x y)"
  if "\<forall>e \<in> set fs. 0 < snd e"
  using that by (induction fs) (fastforce simp: gapped_Cons ext_disj_def)+

lemma split_extent:
  assumes "0 < sz" and "sz \<le> len"
  shows "ext_set (off, len) =
    ext_set (off, sz) \<union> (\<Union>e \<in> set (if sz < len then [(off + sz, len - sz)] else []). ext_set e)"
  using assms by auto

lemma allocate_Some_shape:
  assumes inv: "arena_inv base sz r" and al: "regions_allocate r n = Inr (r', Some off)"
  obtains pre len post where "rg_free r = pre @ (off, len) # post"
    and "0 < aligned n ALIGN" and "aligned n ALIGN \<le> len"
    and "rg_free r' = pre @ (if aligned n ALIGN < len
           then [(off + aligned n ALIGN, len - aligned n ALIGN)] else []) @ post"
    and "rg_allocated r' = rg_allocated r @ [(off, aligned n ALIGN)]"
proof -
  let ?s = "aligned n ALIGN"
  from al have n: "0 < n" by (auto simp: regions_allocate_def split: if_splits)
  from al n obtain fs where fs: "first_fit ?s (rg_free r) = Some (off, fs)"
    and r': "r' = r\<lparr>rg_free := fs, rg_allocated := od_set off ?s (rg_allocated r)\<rparr>"
    by (auto simp: regions_allocate_def Let_def split: option.splits prod.splits)
  from first_fit_Some [OF fs] obtain pre len post where sh: "rg_free r = pre @ (off, len) # post"
    "?s \<le> len" "fs = pre @ (if ?s < len then [(off + ?s, len - ?s)] else []) @ post" .
  have "off \<notin> fst ` set (rg_allocated r)"
  proof
    assume "off \<in> fst ` set (rg_allocated r)"
    then obtain m where m: "(off, m) \<in> set (rg_allocated r)" by force
    have f: "(off, len) \<in> set (rg_free r)" by (simp add: sh(1))
    show False
      using good_ext_disj_key [of off len m] arena_invD(3) [OF inv] arena_invD(4) [OF inv f m] f m
      by blast
  qed
  then have "rg_allocated r' = rg_allocated r @ [(off, ?s)]"
    by (simp add: r' od_set_def alist_update_append)
  with that [OF sh(1) aligned_pos [OF n] sh(2)] show ?thesis by (simp add: r' sh(3))
qed

lemma ext_disj_sub:
  assumes "ext_disj (off, len) a" and "0 < s" and "s \<le> len"
  shows "ext_disj (off, s) a" and "s < len \<Longrightarrow> ext_disj (off + s, len - s) a"
  using assms by (auto simp: ext_disj_def)

lemma allocate_inv:
  assumes inv: "arena_inv base sz r" and al: "regions_allocate r n = Inr (r', Some off)"
  shows "arena_inv base sz r'"
proof -
  let ?s = "aligned n ALIGN"
  from allocate_Some_shape [OF inv al] obtain pre len post where
    sh: "rg_free r = pre @ (off, len) # post" and s: "0 < ?s" "?s \<le> len"
    and fr: "rg_free r' = pre @ (if ?s < len then [(off + ?s, len - ?s)] else []) @ post"
    and al': "rg_allocated r' = rg_allocated r @ [(off, ?s)]" .
  let ?rest = "if ?s < len then [(off + ?s, len - ?s)] else []"
  have f: "(off, len) \<in> set (rg_free r)" by (simp add: sh)
  have gf: "good_ext (off, len)" using arena_invD(3) [OF inv] f by blast
  have sm: "?s mod ALIGN = 0" using aligned_bounds(3) [of ALIGN n] by (simp add: ALIGN_def)
  have g_new: "good_ext (off, ?s)" using gf s sm by (simp add: good_ext_def)
  have g_rest: "\<forall>e \<in> set ?rest. good_ext e"
    using gf s sm by (auto simp: good_ext_def mod_add_eq [symmetric] mod_diff_eq [symmetric])
  have pos: "\<forall>e \<in> set (rg_free r). 0 < snd e"
    using arena_invD(3) [OF inv] by (auto simp: good_ext_def)
  note dist = gapped_disjoint [OF pos arena_invD(1) [OF inv]]
  have off_al: "off \<notin> fst ` set (rg_allocated r)"
  proof
    assume "off \<in> fst ` set (rg_allocated r)"
    then obtain m where m: "(off, m) \<in> set (rg_allocated r)" by force
    show False using good_ext_disj_key [of off len m] gf arena_invD(3,4) [OF inv] f m by blast
  qed
  have d_al: "ext_disj (off, ?s) a \<and> (\<forall>e \<in> set ?rest. ext_disj e a)"
    if "a \<in> set (rg_allocated r)" for a
    using ext_disj_sub [OF arena_invD(4) [OF inv f that] s] by auto
  have d_fr: "ext_disj e (off, ?s)" if "e \<in> set pre \<union> set post" for e
  proof -
    have "e \<in> set (rg_free r)" "e \<noteq> (off, len)" using that dist by (auto simp: sh)
    then have "ext_disj (off, len) e" using dist f by (metis ext_disj_sym)
    then show ?thesis using ext_disj_sub(1) [OF _ s] by (metis ext_disj_sym)
  qed
  have d_rest: "\<forall>e \<in> set ?rest. ext_disj e (off, ?s)" by (auto simp: ext_disj_def)
  have un: "(\<Union>e \<in> set (rg_free r') \<union> set (rg_allocated r'). ext_set e) =
      (\<Union>e \<in> set (rg_free r) \<union> set (rg_allocated r). ext_set e)"
    using split_extent [OF s, of off] by (auto simp: fr al' sh)
  show ?thesis
    unfolding arena_inv_def
  proof (intro conjI)
    show "gapped (rg_free r')" using gapped_split [of pre off len post ?s] arena_invD(1) [OF inv] s
      by (simp add: fr sh)
    show "od_ok (rg_allocated r')" using arena_invD(2) [OF inv] off_al
      by (simp add: al' od_ok_def od_keys_def)
    show "\<forall>e \<in> set (rg_free r') \<union> set (rg_allocated r'). good_ext e"
      using arena_invD(3) [OF inv] g_new g_rest by (auto simp: fr al' sh)
    show "\<forall>f \<in> set (rg_free r'). \<forall>a \<in> set (rg_allocated r'). ext_disj f a"
      using arena_invD(4) [OF inv] d_al d_fr d_rest by (simp add: fr al' sh ball_Un)
    show "\<forall>a \<in> set (rg_allocated r'). \<forall>b \<in> set (rg_allocated r'). a \<noteq> b \<longrightarrow> ext_disj a b"
      using arena_invD(5) [OF inv] d_al by (auto simp: al' ext_disj_sym)
    show "(\<Union>e \<in> set (rg_free r') \<union> set (rg_allocated r'). ext_set e) = {base..<base + sz}"
      using un arena_invD(6) [OF inv] by simp
  qed
qed

lemma release_inv:
  assumes inv: "arena_inv base sz r" and rl: "regions_release r off = Inr r'"
  shows "arena_inv base sz r'"
proof -
  from rl obtain n where n: "od_get (rg_allocated r) off = Some n"
    and r': "r' = \<lparr>rg_free = coalesce (sort (rg_free r @ [(off, n)])),
      rg_allocated = od_del off (rg_allocated r)\<rparr>"
    by (auto simp: regions_release_def split: option.splits)
  let ?fs = "rg_free r @ [(off, n)]"
  have a: "(off, n) \<in> set (rg_allocated r)" using n by (rule od_get_Some_in)
  have pos: "\<forall>e \<in> set (rg_free r). 0 < snd e"
    using arena_invD(3) [OF inv] by (auto simp: good_ext_def)
  note dist = gapped_disjoint [OF pos arena_invD(1) [OF inv]]
  have g: "\<forall>e \<in> set ?fs. good_ext e" using arena_invD(3) [OF inv] a by auto
  have nin: "(off, n) \<notin> set (rg_free r)"
    using arena_invD(4) [OF inv _ a] arena_invD(3) [OF inv] a good_ext_disj_key by blast
  have fr_d: "\<forall>f \<in> set (rg_free r). ext_disj f (off, n) \<and> ext_disj (off, n) f"
    using arena_invD(4) [OF inv _ a] by (metis ext_disj_sym)
  have dj: "ext_disj x y" if "x \<in> set ?fs" "y \<in> set ?fs" "x \<noteq> y" for x y
    using that dist fr_d by auto
  have so: "sorted_wrt (\<lambda>x y. fst x + snd x \<le> fst y) (sort ?fs)"
    by (rule sort_disjoint) (use g dj dist nin in \<open>auto simp: good_ext_def\<close>)
  have cp: "gapped (rg_free r') \<and> (\<forall>e \<in> set (rg_free r'). good_ext e) \<and>
      (\<Union>e \<in> set (rg_free r'). ext_set e) = (\<Union>e \<in> set ?fs. ext_set e)"
    using coalesce_props [OF so] g by (simp add: r')
  have al: "set (rg_allocated r') = set (rg_allocated r) - {(off, n)}"
    using od_del_one [OF arena_invD(2) [OF inv] n] by (simp add: r')
  have sub: "f \<in> set (rg_free r') \<Longrightarrow> ext_set f \<subseteq> (\<Union>e \<in> set ?fs. ext_set e)" for f
    using cp by blast
  have cross: "ext_disj f b" if f: "f \<in> set (rg_free r')" and b: "b \<in> set (rg_allocated r')" for f b
  proof -
    have b': "b \<in> set (rg_allocated r)" "b \<noteq> (off, n)" using b al by auto
    have gg: "good_ext f" "good_ext b" using cp f b' arena_invD(3) [OF inv] by auto
    have "ext_set e \<inter> ext_set b = {}" if "e \<in> set ?fs" for e
    proof -
      from that consider "e \<in> set (rg_free r)" | "e = (off, n)" by auto
      then have "ext_disj e b"
      proof cases
        case 1
        then show ?thesis by (rule arena_invD(4) [OF inv _ b'(1)])
      next
        case 2
        then show ?thesis using arena_invD(5) [OF inv a b'(1)] b'(2) by auto
      qed
      then show ?thesis by (rule ext_disj_Int)
    qed
    then have "ext_set f \<inter> ext_set b = {}" using sub [OF f] by blast
    then show ?thesis using gg ext_disj_of_Int by (simp add: good_ext_def)
  qed
  have un: "(\<Union>e \<in> set (rg_free r') \<union> set (rg_allocated r'). ext_set e) = {base..<base + sz}"
  proof -
    have A: "set (rg_allocated r) = insert (off, n) (set (rg_allocated r'))" using al a by blast
    have "(\<Union>e \<in> set (rg_free r') \<union> set (rg_allocated r'). ext_set e) =
        (\<Union>e \<in> set ?fs. ext_set e) \<union> (\<Union>e \<in> set (rg_allocated r'). ext_set e)"
      using cp by (simp only: UN_Un)
    also have "\<dots> = (\<Union>e \<in> set (rg_free r) \<union> set (rg_allocated r). ext_set e)"
      unfolding A set_append UN_Un by auto
    finally show ?thesis using arena_invD(6) [OF inv] by simp
  qed
  show ?thesis
    unfolding arena_inv_def
    using cp cross un al arena_invD(3,5) [OF inv] arena_invD(2) [OF inv]
    by (auto simp: r')
qed

subsection \<open>A fully released arena is one extent\<close>

lemma gapped_single:
  assumes g: "gapped fs" and pos: "\<forall>e \<in> set fs. 0 < snd e"
    and un: "(\<Union>e \<in> set fs. ext_set e) = {base..<base + sz}" and sz: "0 < sz"
  shows "fs = [(base, sz)]"
proof (cases fs)
  case Nil
  then show ?thesis using un sz by auto
next
  case (Cons x xs)
  have later: "\<forall>y \<in> set xs. fst x + snd x < fst y" using g by (simp add: Cons gapped_Cons)
  have x: "0 < snd x" "ext_set x \<subseteq> {base..<base + sz}" using pos un by (auto simp: Cons)
  have "xs = []"
  proof (rule ccontr)
    assume "xs \<noteq> []"
    then obtain y where y: "y \<in> set xs" by (cases xs) auto
    then have "0 < snd y" "ext_set y \<subseteq> {base..<base + sz}" using pos un by (auto simp: Cons)
    then have "fst y < base + sz" by (auto simp: ext_set_def)
    moreover have "base \<le> fst x" using x by (auto simp: ext_set_def)
    ultimately have "fst x + snd x \<in> {base..<base + sz}" using later y x(1) by fastforce
    then obtain e where e: "e \<in> set fs" "fst x + snd x \<in> ext_set e" using un by blast
    then show False using later by (auto simp: Cons ext_set_def)
  qed
  then have "{fst x..<fst x + snd x} = {base..<base + sz}" using un by (simp add: Cons ext_set_def)
  then have "fst x = base \<and> fst x + snd x = base + sz"
    using x(1) sz by (simp add: atLeastLessThan_eq_iff)
  then show ?thesis using Cons \<open>xs = []\<close> by (cases x) simp
qed

lemma arena_alloc_within:
  assumes inv: "arena_inv base sz r" and a: "(o', n) \<in> set (rg_allocated r)"
  shows "base \<le> o' \<and> 0 < n \<and> o' + n \<le> base + sz \<and> 0 < sz"
proof -
  have n: "0 < n" using arena_invD(3) [OF inv, of "(o', n)"] a by (simp add: good_ext_def)
  have "ext_set (o', n) \<subseteq> {base..<base + sz}" using arena_invD(6) [OF inv] a by blast
  then have "{o'..<o' + n} \<subseteq> {base..<base + sz}" by simp
  moreover have "o' \<in> {o'..<o' + n}" "o' + n - 1 \<in> {o'..<o' + n}" using n by auto
  ultimately have "o' \<in> {base..<base + sz}" "o' + n - 1 \<in> {base..<base + sz}" by blast+
  then show ?thesis using n by auto
qed

section \<open>The interface the expert cache relies on\<close>

locale arena_allocator =
  fixes alloc :: "'a \<Rightarrow> int \<Rightarrow> ('a \<times> int option) res"
    and rel :: "'a \<Rightarrow> int \<Rightarrow> 'a res"
    and owned :: "'a \<Rightarrow> extent set"
    and inv :: "'a \<Rightarrow> bool"
    and cap :: int
  assumes alloc_ok: "inv a \<Longrightarrow> 0 < n \<Longrightarrow> is_ok (alloc a n)"
    and alloc_Some: "inv a \<Longrightarrow> alloc a n = Inr (a', Some off) \<Longrightarrow>
      inv a' \<and> owned a' = insert (off, aligned n ALIGN) (owned a) \<and>
      (\<forall>e \<in> owned a. ext_disj (off, aligned n ALIGN) e)"
    and alloc_None: "alloc a n = Inr (a', None) \<Longrightarrow> a' = a"
    and alloc_empty: "inv a \<Longrightarrow> owned a = {} \<Longrightarrow> 0 < n \<Longrightarrow> n \<le> cap \<Longrightarrow> alloc a n \<noteq> Inr (a', None)"
    and rel_ok: "inv a \<Longrightarrow> (off, n) \<in> owned a \<Longrightarrow>
      \<exists>a'. rel a off = Inr a' \<and> inv a' \<and> owned a' = owned a - {(off, n)}"
    and owned_fun: "inv a \<Longrightarrow> (off, n) \<in> owned a \<Longrightarrow> (off, m) \<in> owned a \<Longrightarrow> m = n"
begin

text \<open>Releasing a list of owned extents never raises and removes exactly those.\<close>

lemma release_many:
  assumes "inv a" and "set es \<subseteq> owned a" and "distinct es"
  shows "\<exists>a'. fold_res (\<lambda>a e. rel a (fst e)) a es = Inr a' \<and> inv a' \<and> owned a' = owned a - set es"
  using assms
proof (induction es arbitrary: a)
  case (Cons e es)
  obtain a1 where a1: "rel a (fst e) = Inr a1" "inv a1" "owned a1 = owned a - {e}"
    using rel_ok [OF Cons.prems(1), of "fst e" "snd e"] Cons.prems(2) by auto
  have "set es \<subseteq> owned a1" using Cons.prems a1(3) by auto
  from Cons.IH [OF a1(2) this] Cons.prems(3) a1 show ?case by auto
qed auto

text \<open>
  Eviction makes room: once everything in the arena has been released, a request that fits
  the arena succeeds.  This is why the cache's eviction loop can only fail while somebody
  still holds a lease.
\<close>

lemma alloc_after_release_all:
  assumes "inv a" and "set es = owned a" and "distinct es" and "0 < n" and "n \<le> cap"
  shows "\<exists>a' a'' off. fold_res (\<lambda>a e. rel a (fst e)) a es = Inr a' \<and> alloc a' n = Inr (a'', Some off)"
proof -
  obtain a' where a': "fold_res (\<lambda>a e. rel a (fst e)) a es = Inr a'" "inv a'" "owned a' = {}"
    using release_many [of a es] assms by auto
  obtain x where x: "alloc a' n = Inr x" using alloc_ok [OF a'(2) assms(4)] by (auto simp: is_ok_iff)
  obtain a'' r where r: "x = (a'', r)" by (cases x)
  have "r \<noteq> None" using alloc_empty [OF a'(2,3) assms(4,5)] x r by auto
  then show ?thesis using a'(1) x r by auto
qed

end

lemma regions_allocate_ok: "0 < n \<Longrightarrow> is_ok (regions_allocate r n)"
  by (auto simp: regions_allocate_def Let_def split: option.splits)

lemma regions_allocate_None: "regions_allocate r n = Inr (r', None) \<Longrightarrow> r' = r"
  by (auto simp: regions_allocate_def Let_def split: option.splits if_splits prod.splits)

lemma regions_allocate_empty:
  assumes inv: "arena_inv base sz r" and emp: "set (rg_allocated r) = {}" and n: "0 < n" "n \<le> sz"
  shows "regions_allocate r n \<noteq> Inr (r', None)"
proof -
  have fr: "rg_free r = [(base, sz)]"
    by (rule gapped_single)
      (use arena_invD(1,3,6) [OF inv] emp n in \<open>auto simp: good_ext_def\<close>)
  have "sz mod ALIGN = 0" using arena_invD(3) [OF inv, of "(base, sz)"] by (simp add: fr good_ext_def)
  then have "aligned n ALIGN \<le> sz" using n(2) by (intro aligned_le)
  then show ?thesis using n by (auto simp: regions_allocate_def fr Let_def split: option.splits)
qed

lemma regions_allocate_Some:
  assumes inv: "arena_inv base sz r" and al: "regions_allocate r n = Inr (r', Some off)"
  shows "set (rg_allocated r') = insert (off, aligned n ALIGN) (set (rg_allocated r)) \<and>
    (\<forall>e \<in> set (rg_allocated r). ext_disj (off, aligned n ALIGN) e)"
proof -
  from allocate_Some_shape [OF inv al] obtain pre len post where
    sh: "rg_free r = pre @ (off, len) # post" and s: "0 < aligned n ALIGN" "aligned n ALIGN \<le> len"
    and al': "rg_allocated r' = rg_allocated r @ [(off, aligned n ALIGN)]" .
  have "(off, len) \<in> set (rg_free r)" by (simp add: sh)
  then show ?thesis using ext_disj_sub(1) [OF _ s] arena_invD(4) [OF inv] by (simp add: al')
qed

lemma regions_release_owned:
  assumes inv: "arena_inv base sz r" and own: "(off, n) \<in> set (rg_allocated r)"
  shows "\<exists>r'. regions_release r off = Inr r' \<and> arena_inv base sz r' \<and>
    set (rg_allocated r') = set (rg_allocated r) - {(off, n)}"
proof -
  have n: "od_get (rg_allocated r) off = Some n" by (rule od_get_in [OF arena_invD(2) [OF inv] own])
  obtain r' where r': "regions_release r off = Inr r'" by (simp add: regions_release_def n)
  then have al: "rg_allocated r' = od_del off (rg_allocated r)"
    by (auto simp: regions_release_def n)
  have "set (od_del off (rg_allocated r)) = set (rg_allocated r) - {(off, n)}"
    by (rule od_del_one [OF arena_invD(2) [OF inv] n])
  then show ?thesis using r' release_inv [OF inv r'] al by auto
qed

lemma arena_owned_fun:
  "arena_inv base sz r \<Longrightarrow> (off, n) \<in> set (rg_allocated r) \<Longrightarrow> (off, m) \<in> set (rg_allocated r) \<Longrightarrow> m = n"
  by (metis arena_invD(2) od_get_in option.inject)

interpretation arena: arena_allocator regions_allocate regions_release
  "\<lambda>r. set (rg_allocated r)" "arena_inv base sz" sz for base sz
proof unfold_locales
  fix a n assume "arena_inv base sz a" "0 < (n::int)"
  then show "is_ok (regions_allocate a n)" by (intro regions_allocate_ok)
next
  fix a n a' off
  assume "arena_inv base sz a" "regions_allocate a n = Inr (a', Some off)"
  then show "arena_inv base sz a' \<and>
      set (rg_allocated a') = insert (off, aligned n ALIGN) (set (rg_allocated a)) \<and>
      (\<forall>e \<in> set (rg_allocated a). ext_disj (off, aligned n ALIGN) e)"
    using allocate_inv regions_allocate_Some by blast
next
  show "regions_allocate a n = Inr (a', None) \<Longrightarrow> a' = a" for a n a'
    by (rule regions_allocate_None)
next
  show "arena_inv base sz a \<Longrightarrow> set (rg_allocated a) = {} \<Longrightarrow> 0 < n \<Longrightarrow> n \<le> sz \<Longrightarrow>
      regions_allocate a n \<noteq> Inr (a', None)" for a n a'
    by (rule regions_allocate_empty)
next
  show "arena_inv base sz a \<Longrightarrow> (off, n) \<in> set (rg_allocated a) \<Longrightarrow>
      \<exists>a'. regions_release a off = Inr a' \<and> arena_inv base sz a' \<and>
        set (rg_allocated a') = set (rg_allocated a) - {(off, n)}" for a off n
    by (rule regions_release_owned)
next
  show "arena_inv base sz a \<Longrightarrow> (off, n) \<in> set (rg_allocated a) \<Longrightarrow>
      (off, m) \<in> set (rg_allocated a) \<Longrightarrow> m = n" for a off n m
    by (rule arena_owned_fun)
qed

end
