(* ===== verification/Expert_Store.thy ===== *)
theory Expert_Store
  imports Arena_Regions
begin

text \<open>
  The synchronous expert store of \<open>experiments/dsv41_nvme/expert_store.py\<close>: the geometry
  check of the twelve MUL1 tensors of an expert (\<open>validate_tensors\<close>), the manifest check
  of \<open>ExpertStore.__init__\<close>, and the bounded read loop of \<open>ExpertStore.read\<close>.
  A record key \<open>"layer:expert"\<close> is the pair of its two numbers.  The operating system's
  answers to \<open>preadv\<close>/\<open>pread\<close> and the moments at which the caller's cancel event is seen
  set are inputs of the read loop; SHA-256 is a parameter.
\<close>

section \<open>Tensor geometry\<close>

datatype st_dtype = I16 | F16 | I32 | OtherDtype string

fun width :: "st_dtype \<Rightarrow> int option" where
  "width I16 = Some 2"
| "width F16 = Some 2"
| "width I32 = Some 4"
| "width (OtherDtype _) = None"

record tensor_spec =
  ts_dtype :: st_dtype
  ts_shape :: "int list"
  ts_offset :: int
  ts_bytes :: int
  ts_sha256 :: string

type_synonym tensors = "(string, tensor_spec) odict"

definition SUFFIXES :: "string list" where
  "SUFFIXES = [''trellis'', ''suh'', ''svh'', ''mul1'']"

definition tensor_name :: "string \<Rightarrow> string \<Rightarrow> string" where
  "tensor_name p s = p @ ''.'' @ s"

definition expected_names :: "string set" where
  "expected_names = {tensor_name p s | p s. p \<in> {''w1'', ''w2'', ''w3''} \<and> s \<in> set SUFFIXES}"

definition expected_list :: "string list" where
  "expected_list = concat (map (\<lambda>p. map (tensor_name p) SUFFIXES) [''w1'', ''w2'', ''w3''])"

definition geometry_ok :: "int \<Rightarrow> int \<Rightarrow> int list \<Rightarrow> bool" where
  "geometry_ok ni no sh \<longleftrightarrow>
     length sh = 3 \<and> take 2 sh = [ni div 16, no div 16] \<and>
     sh ! 2 \<in> set [32, 48, 64, 80, 96, 112, 128]"

text \<open>The body of the loop over the three projections; the result is \<open>dimensions[p]\<close>.\<close>

definition proj_dims :: "tensors \<Rightarrow> string \<Rightarrow> (int \<times> int) res" where
  "proj_dims ts p =
     (case (od_get ts (tensor_name p ''trellis''), od_get ts (tensor_name p ''suh''),
            od_get ts (tensor_name p ''svh''), od_get ts (tensor_name p ''mul1'')) of
        (Some t, Some u, Some v, Some m) \<Rightarrow>
          if [ts_dtype t, ts_dtype u, ts_dtype v, ts_dtype m] \<noteq> [I16, F16, F16, I32] then Inl ValueError
          else if length (ts_shape u) \<noteq> 1 \<or> length (ts_shape v) \<noteq> 1 \<or> ts_shape m \<notin> {[], [1]}
            then Inl ValueError
          else let ni = hd (ts_shape u); no = hd (ts_shape v) in
            if ni \<le> 0 \<or> no \<le> 0 \<or> ni mod 128 \<noteq> 0 \<or> no mod 128 \<noteq> 0 then Inl ValueError
            else if \<not> geometry_ok ni no (ts_shape t) then Inl ValueError
            else Inr (ni, no)
      | _ \<Rightarrow> Inl KeyError)"

definition validate_tensors :: "tensors \<Rightarrow> unit res" where
  "validate_tensors ts =
     (if set (od_keys ts) \<noteq> set expected_list then Inl ValueError
      else bind_res (proj_dims ts ''w1'') (\<lambda>d1.
           bind_res (proj_dims ts ''w2'') (\<lambda>d2.
           bind_res (proj_dims ts ''w3'') (\<lambda>d3.
             if d1 \<noteq> d3 \<or> d2 \<noteq> (snd d1, fst d1) then Inl ValueError else Inr ()))))"

lemma expected_list_set: "set expected_list = expected_names"
  by (auto simp: expected_list_def expected_names_def SUFFIXES_def)

lemma geometry_ok_iff:
  "geometry_ok ni no sh \<longleftrightarrow> (\<exists>K. 2 \<le> K \<and> K \<le> 8 \<and> sh = [ni div 16, no div 16, 16 * K])"
proof
  assume g: "geometry_ok ni no sh"
  then obtain a b c where sh: "sh = [a, b, c]"
    by (auto simp: geometry_ok_def numeral_3_eq_3 length_Suc_conv)
  from g have ab: "a = ni div 16" "b = no div 16" by (simp_all add: geometry_ok_def sh)
  from g have "c \<in> {32, 48, 64, 80, 96, 112, 128}" by (simp add: geometry_ok_def sh)
  then have "16 * (c div 16) = c \<and> 2 \<le> c div 16 \<and> c div 16 \<le> 8" by auto
  then show "\<exists>K. 2 \<le> K \<and> K \<le> 8 \<and> sh = [ni div 16, no div 16, 16 * K]"
    by (intro exI [of _ "c div 16"]) (simp add: sh ab)
next
  assume "\<exists>K. 2 \<le> K \<and> K \<le> 8 \<and> sh = [ni div 16, no div 16, 16 * K]"
  then obtain K where K: "2 \<le> K" "K \<le> 8" and sh: "sh = [ni div 16, no div 16, 16 * K]" by auto
  then have "K = 2 \<or> K = 3 \<or> K = 4 \<or> K = 5 \<or> K = 6 \<or> K = 7 \<or> K = 8" by linarith
  then show "geometry_ok ni no sh" by (auto simp: geometry_ok_def sh)
qed

lemma proj_dims_Inr:
  assumes "proj_dims ts p = Inr (ni, no)"
  shows "0 < ni \<and> 0 < no \<and> ni mod 128 = 0 \<and> no mod 128 = 0 \<and>
    (\<exists>t K. od_get ts (tensor_name p ''trellis'') = Some t \<and> ts_dtype t = I16 \<and>
      2 \<le> K \<and> K \<le> 8 \<and> ts_shape t = [ni div 16, no div 16, 16 * K])"
proof -
  from assms obtain t u v m where
    g: "od_get ts (tensor_name p ''trellis'') = Some t" "od_get ts (tensor_name p ''suh'') = Some u"
      "od_get ts (tensor_name p ''svh'') = Some v" "od_get ts (tensor_name p ''mul1'') = Some m"
    by (simp add: proj_dims_def split: option.splits)
  have d: "ts_dtype t = I16" "0 < ni" "0 < no" "ni mod 128 = 0" "no mod 128 = 0"
    "geometry_ok ni no (ts_shape t)"
    using assms by (auto simp: proj_dims_def g Let_def split: if_splits)
  then show ?thesis using g(1) unfolding geometry_ok_iff by blast
qed

section \<open>The manifest\<close>

record expert_record =
  er_offset :: int
  er_bytes :: int
  er_tensors :: tensors
  er_sha256 :: string

type_synonym expert_key = "int \<times> int"

record manifest =
  mf_identity :: "int \<times> string \<times> string \<times> int"
  mf_records :: "(expert_key, expert_record) odict"
  mf_bank_bytes :: int

text \<open>The inner loop: tensors by offset, each starting at or after the previous end.\<close>

fun check_tensors :: "int \<Rightarrow> int \<Rightarrow> tensor_spec list \<Rightarrow> unit res" where
  "check_tensors rec_bytes tensor_end [] = Inr ()"
| "check_tensors rec_bytes tensor_end (t # ts) =
     (case width (ts_dtype t) of
        None \<Rightarrow> Inl KeyError
      | Some w \<Rightarrow>
          if ts_offset t < tensor_end \<or> ts_offset t mod 256 \<noteq> 0 \<or>
             ts_bytes t \<noteq> prod_list (ts_shape t) * w \<or> rec_bytes < ts_offset t + ts_bytes t
          then Inl ValueError
          else check_tensors rec_bytes (ts_offset t + ts_bytes t) ts)"

definition check_record :: "int \<Rightarrow> int \<Rightarrow> expert_key \<times> expert_record \<Rightarrow> int res" where
  "check_record max_record_bytes pos kr =
     (let (key, r) = kr in
      if \<not> (0 \<le> fst key \<and> fst key < 40) \<or> \<not> (0 \<le> snd key \<and> snd key < 384) then Inl ValueError
      else if er_offset r \<noteq> pos \<or> er_bytes r mod ALIGN \<noteq> 0 \<or>
              \<not> (0 < er_bytes r \<and> er_bytes r \<le> max_record_bytes) then Inl ValueError
      else bind_res (validate_tensors (er_tensors r)) (\<lambda>_.
           bind_res (check_tensors (er_bytes r) 0
                       (sort_key ts_offset (map snd (er_tensors r)))) (\<lambda>_.
             Inr (pos + er_bytes r))))"

definition store_check :: "(int \<times> string \<times> string \<times> int) \<Rightarrow> int \<Rightarrow> int \<Rightarrow> manifest \<Rightarrow> unit res" where
  "store_check identity max_record_bytes file_size m =
     (if mf_identity m \<noteq> identity then Inl ValueError
      else bind_res (fold_res (check_record max_record_bytes) 0
             (sort_key (\<lambda>kr. er_offset (snd kr)) (mf_records m))) (\<lambda>pos.
        if mf_records m = [] \<or> pos \<noteq> mf_bank_bytes m \<or> pos \<noteq> file_size
        then Inl ValueError else Inr ()))"

text \<open>
  What an accepted manifest means: the records, in offset order, are laid end to end from
  the start of the bank file to its end.
\<close>

fun laid_out :: "int \<Rightarrow> (int \<times> int) list \<Rightarrow> int \<Rightarrow> bool" where
  "laid_out b [] e = (b = e)"
| "laid_out b ((o', n) # xs) e = (o' = b \<and> 0 < n \<and> laid_out (b + n) xs e)"

definition record_ext :: "expert_key \<times> expert_record \<Rightarrow> extent" where
  "record_ext kr = (er_offset (snd kr), er_bytes (snd kr))"

definition record_wf :: "int \<Rightarrow> expert_key \<times> expert_record \<Rightarrow> bool" where
  "record_wf mx kr \<longleftrightarrow>
     fst (fst kr) \<in> {0..<40} \<and> snd (fst kr) \<in> {0..<384} \<and>
     er_bytes (snd kr) mod ALIGN = 0 \<and> er_bytes (snd kr) \<in> {1..mx} \<and>
     validate_tensors (er_tensors (snd kr)) = Inr () \<and>
     check_tensors (er_bytes (snd kr)) 0 (sort_key ts_offset (map snd (er_tensors (snd kr)))) = Inr ()"

lemma check_record_Inr:
  "check_record mx pos kr = Inr e' \<longleftrightarrow>
     record_wf mx kr \<and> er_offset (snd kr) = pos \<and> e' = pos + er_bytes (snd kr)"
  by (cases kr) (auto simp: check_record_def record_wf_def bind_res_Inr)

lemma fold_check_records:
  "fold_res (check_record mx) b krs = Inr e \<longleftrightarrow>
     (\<forall>kr \<in> set krs. record_wf mx kr) \<and> laid_out b (map record_ext krs) e"
proof (induction krs arbitrary: b)
  case (Cons kr krs)
  have "0 < er_bytes (snd kr)" if "record_wf mx kr" using that by (auto simp: record_wf_def)
  then show ?case
    by (auto simp: bind_res_Inr check_record_Inr Cons.IH record_ext_def)
qed auto

lemma laid_out_le: "laid_out b xs e \<Longrightarrow> b \<le> e"
  by (induction xs arbitrary: b) fastforce+

lemma laid_out_bounds: "laid_out b xs e \<Longrightarrow> x \<in> set xs \<Longrightarrow> b \<le> fst x \<and> 0 < snd x \<and> fst x + snd x \<le> e"
proof (induction xs arbitrary: b)
  case (Cons y ys)
  obtain o' n where y: "y = (o', n)" by (cases y)
  from Cons.prems(1) have h: "o' = b" "0 < n" "laid_out (b + n) ys e" by (simp_all add: y)
  show ?case
  proof (cases "x = y")
    case True
    then show ?thesis using h laid_out_le [OF h(3)] y by simp
  next
    case False
    with Cons.prems(2) have "x \<in> set ys" by simp
    from Cons.IH [OF h(3) this] h show ?thesis by linarith
  qed
qed simp

lemma laid_out_sorted: "laid_out b xs e \<Longrightarrow> sorted_wrt (\<lambda>x y. fst x + snd x \<le> fst y) xs"
proof (induction xs arbitrary: b)
  case (Cons y ys)
  obtain o' n where y: "y = (o', n)" by (cases y)
  from Cons.prems have h: "o' = b" "laid_out (b + n) ys e" by (simp_all add: y)
  then show ?case using Cons.IH [OF h(2)] laid_out_bounds [OF h(2)] by (auto simp: y)
qed simp

lemma laid_out_union: "laid_out b xs e \<Longrightarrow> (\<Union>x \<in> set xs. ext_set x) = {b..<e}"
proof (induction xs arbitrary: b)
  case (Cons y ys)
  obtain o' n where y: "y = (o', n)" by (cases y)
  from Cons.prems have h: "o' = b" "0 < n" "laid_out (b + n) ys e" by (simp_all add: y)
  have "b + n \<le> e" using laid_out_le [OF h(3)] .
  then show ?case using Cons.IH [OF h(3)] h(1,2) by (auto simp: y)
qed simp

lemma store_check_iff:
  "store_check ident mx fsz m = Inr () \<longleftrightarrow>
     mf_identity m = ident \<and> mf_records m \<noteq> [] \<and> mf_bank_bytes m = fsz \<and>
     (\<forall>kr \<in> set (mf_records m). record_wf mx kr) \<and>
     laid_out 0 (map record_ext (sort_key (\<lambda>kr. er_offset (snd kr)) (mf_records m))) fsz"
  by (auto simp: store_check_def bind_res_Inr fold_check_records)

text \<open>Tensor extents of an accepted record are disjoint, aligned and inside the record.\<close>

lemma check_tensors_Inr:
  "check_tensors rb b ts = Inr () \<Longrightarrow> t \<in> set ts \<Longrightarrow> (\<forall>t \<in> set ts. 0 \<le> ts_bytes t) \<Longrightarrow>
     b \<le> ts_offset t \<and> ts_offset t mod 256 = 0 \<and> ts_offset t + ts_bytes t \<le> rb \<and>
     (\<exists>w. width (ts_dtype t) = Some w \<and> ts_bytes t = prod_list (ts_shape t) * w)"
  by (induction rb b ts rule: check_tensors.induct)
    (fastforce split: option.splits if_splits)+

lemma laid_out_mod:
  "laid_out b xs e \<Longrightarrow> b mod ALIGN = 0 \<Longrightarrow> \<forall>x \<in> set xs. snd x mod ALIGN = 0 \<Longrightarrow>
     \<forall>x \<in> set xs. fst x mod ALIGN = 0"
proof (induction xs arbitrary: b)
  case (Cons y ys)
  obtain o' n where y: "y = (o', n)" by (cases y)
  from Cons.prems have h: "o' = b" "laid_out (b + n) ys e" "n mod ALIGN = 0" by (simp_all add: y)
  then have "(b + n) mod ALIGN = 0" using Cons.prems(2) by (simp add: mod_add_eq [symmetric])
  then show ?case using Cons.IH [OF h(2)] Cons.prems by (simp add: y)
qed simp

lemma check_tensors_sorted:
  "check_tensors rb b ts = Inr () \<Longrightarrow> (\<forall>t \<in> set ts. 0 \<le> ts_bytes t) \<Longrightarrow>
     sorted_wrt (\<lambda>a b. ts_offset a + ts_bytes a \<le> ts_offset b) ts"
proof (induction rb b ts rule: check_tensors.induct)
  case (2 rb b t ts)
  from "2.prems"(1) have c: "check_tensors rb (ts_offset t + ts_bytes t) ts = Inr ()"
    by (auto split: option.splits if_splits)
  have "sorted_wrt (\<lambda>a b. ts_offset a + ts_bytes a \<le> ts_offset b) ts"
    using "2.IH" "2.prems" by (auto split: option.splits if_splits)
  then show ?case using check_tensors_Inr [OF c] "2.prems"(2) by auto
qed simp

lemma proj_dims_shapes:
  assumes "proj_dims ts p = Inr d" and "s \<in> set SUFFIXES" and "od_get ts (tensor_name p s) = Some t"
  shows "\<forall>x \<in> set (ts_shape t). 0 \<le> x"
proof -
  obtain ni no where d: "d = (ni, no)" by (cases d)
  obtain t' u v m where g: "od_get ts (tensor_name p ''trellis'') = Some t'"
      "od_get ts (tensor_name p ''suh'') = Some u" "od_get ts (tensor_name p ''svh'') = Some v"
      "od_get ts (tensor_name p ''mul1'') = Some m"
    using assms(1) by (simp add: proj_dims_def split: option.splits)
  have sh: "length (ts_shape u) = 1" "length (ts_shape v) = 1" "ts_shape m = [] \<or> ts_shape m = [1]"
    "0 < hd (ts_shape u)" "0 < hd (ts_shape v)"
    "geometry_ok (hd (ts_shape u)) (hd (ts_shape v)) (ts_shape t')"
    using assms(1) by (auto simp: proj_dims_def g Let_def split: if_splits)
  then obtain a b K where "ts_shape u = [a]" "ts_shape v = [b]" "0 < a" "0 < b" "2 \<le> K"
    "ts_shape t' = [a div 16, b div 16, 16 * K]"
    unfolding geometry_ok_iff by (auto simp: length_Suc_conv)
  moreover have "t \<in> {t', u, v, m}" using assms(2,3) g by (auto simp: SUFFIXES_def)
  ultimately show ?thesis using sh(3) by (auto simp: pos_imp_zdiv_nonneg_iff)
qed

lemma prod_list_nonneg: "(\<forall>x \<in> set xs. 0 \<le> x) \<Longrightarrow> 0 \<le> prod_list xs" for xs :: "int list"
  by (induction xs) auto

lemma check_tensors_bytes:
  "check_tensors rb b ts = Inr () \<Longrightarrow>
     (\<forall>t \<in> set ts. \<exists>w. width (ts_dtype t) = Some w \<and> ts_bytes t = prod_list (ts_shape t) * w)"
  by (induction rb b ts rule: check_tensors.induct) (auto split: option.splits if_splits)

lemma width_pos: "width d = Some w \<Longrightarrow> 0 < w"
  by (cases d) auto

lemma accepted_bytes_nonneg:
  assumes v: "validate_tensors ts = Inr ()" and ok: "od_ok ts"
    and c: "check_tensors rb b (sort_key ts_offset (map snd ts)) = Inr ()"
  shows "\<forall>t \<in> set (sort_key ts_offset (map snd ts)). 0 \<le> ts_bytes t"
proof
  fix t assume t: "t \<in> set (sort_key ts_offset (map snd ts))"
  then obtain name where n: "(name, t) \<in> set ts" by auto
  then have "name \<in> set expected_list"
    using v by (auto simp: validate_tensors_def od_keys_def split: if_splits) force
  then obtain p s where ps: "name = tensor_name p s" "p \<in> {''w1'', ''w2'', ''w3''}" "s \<in> set SUFFIXES"
    by (auto simp: expected_list_set expected_names_def)
  then obtain d where "proj_dims ts p = Inr d"
    using v by (auto simp: validate_tensors_def bind_res_Inr split: if_splits)
  then have "0 \<le> prod_list (ts_shape t)"
    using proj_dims_shapes [of ts p d s t] od_get_in [OF ok n] ps by (intro prod_list_nonneg) simp
  moreover obtain w where "width (ts_dtype t) = Some w" "ts_bytes t = prod_list (ts_shape t) * w"
    using check_tensors_bytes [OF c] t by blast
  ultimately show "0 \<le> ts_bytes t" using width_pos [of "ts_dtype t" w] by simp
qed

section \<open>Reading one record\<close>

text \<open>
  One turn of the loop: whether the cancel event is seen set at the top of the turn, and
  what the system call does: \<open>Got k\<close> bytes, or an interrupted call, with the state of the
  cancel event at that moment.
\<close>

datatype io = Got int | Interrupted bool

type_synonym turn = "bool \<times> io"

fun read_loop :: "bool \<Rightarrow> (int \<Rightarrow> 'b) \<Rightarrow> int \<Rightarrow> int \<Rightarrow> turn list \<Rightarrow> 'b list \<Rightarrow> 'b list res option" where
  "read_loop direct disk ofs tot [] buf =
     (if int (length buf) < tot then None else Some (Inr buf))"
| "read_loop direct disk ofs tot ((cancelled, r) # turns) buf =
     (if int (length buf) < tot
      then if cancelled then Some (Inl InterruptedError)
           else (case r of
               Interrupted c \<Rightarrow>
                 if c then Some (Inl InterruptedError)
                 else read_loop direct disk ofs tot turns buf
             | Got n \<Rightarrow>
                 if n \<le> 0 then Some (Inl OSError)
                 else let got = int (length buf);
                          buf' = buf @ map disk [ofs + got .. ofs + got + n - 1] in
                   if direct \<and> got + n < tot \<and> (got + n) mod ALIGN \<noteq> 0
                   then Some (Inl OSError)
                   else read_loop direct disk ofs tot turns buf')
      else Some (Inr buf))"

text \<open>What the manual promises of one \<open>pread\<close>: never more than was asked for.\<close>

fun reads_within :: "int \<Rightarrow> int \<Rightarrow> turn list \<Rightarrow> bool" where
  "reads_within tot got [] = True"
| "reads_within tot got ((c, Got n) # ts) =
     ((got < tot \<longrightarrow> n \<le> tot - got) \<and> reads_within tot (got + n) ts)"
| "reads_within tot got ((c, Interrupted b) # ts) = reads_within tot got ts"

lemma upto_append: "(a::int) \<le> b \<Longrightarrow> b \<le> c + 1 \<Longrightarrow> [a..b - 1] @ [b..c] = [a..c]"
proof (cases "b \<le> c")
  case False
  assume "a \<le> b" "b \<le> c + 1"
  with False have "c = b - 1" by linarith
  then show ?thesis by simp
qed (use upto_split1 [of a b c] in auto)

lemma read_loop_content:
  assumes "read_loop direct disk ofs tot turns buf = Some (Inr out)"
    and "buf = map disk [ofs .. ofs + int (length buf) - 1]"
    and "int (length buf) \<le> tot" and "reads_within tot (int (length buf)) turns"
  shows "out = map disk [ofs .. ofs + tot - 1]"
  using assms
proof (induction direct disk ofs tot turns buf rule: read_loop.induct)
  case (1 direct disk ofs tot buf)
  then show ?case by (auto split: if_splits)
next
  case (2 direct disk ofs tot c r turns buf)
  show ?case
  proof (cases "int (length buf) < tot")
    case False
    with "2.prems" show ?thesis by auto
  next
    case lt: True
    with "2.prems"(1) have c: "\<not> c" by (auto split: if_splits)
    show ?thesis
    proof (cases r)
      case (Interrupted b)
      with "2.prems" lt c have "\<not> b" by (auto split: if_splits)
      show ?thesis
        by (rule "2.IH"(2) [OF lt c Interrupted \<open>\<not> b\<close>])
          (use "2.prems" lt c Interrupted \<open>\<not> b\<close> in auto)
    next
      case (Got n)
      with "2.prems"(1) lt c have n: "0 < n" by (auto split: if_splits)
      let ?got = "int (length buf)"
      let ?buf = "buf @ map disk [ofs + ?got .. ofs + ?got + n - 1]"
      have len: "int (length ?buf) = ?got + n" using n by simp
      have ok: "\<not> (direct \<and> ?got + n < tot \<and> (?got + n) mod ALIGN \<noteq> 0)"
        using "2.prems"(1) lt c Got n by (auto simp: Let_def split: if_splits)
      have rec: "read_loop direct disk ofs tot turns ?buf = Some (Inr out)"
        using "2.prems"(1) lt c Got n ok by (auto simp: Let_def)
      have "?buf = map disk ([ofs .. ofs + ?got - 1] @ [ofs + ?got .. ofs + ?got + n - 1])"
        using "2.prems"(2) by simp
      also have "\<dots> = map disk [ofs .. ofs + int (length ?buf) - 1]"
        using upto_append [of ofs "ofs + ?got" "ofs + ?got + n - 1"] n by (simp add: len algebra_simps)
      finally have b: "?buf = map disk [ofs .. ofs + int (length ?buf) - 1]" .
      have w: "?got + n \<le> tot \<and> reads_within tot (?got + n) turns"
        using "2.prems"(4) Got lt by auto
      show ?thesis
        by (rule "2.IH"(1) [OF lt c Got _ refl refl ok rec b])
          (use n w len in auto)
    qed
  qed
qed

text \<open>
  Progress: a turn is good when it is not cancelled and delivers data, whole pages on a
  direct handle, or is an interrupted call with the cancel event clear.  With enough data
  the loop ends with the record, however many interrupted calls are in between.
\<close>

fun good_turn :: "bool \<Rightarrow> turn \<Rightarrow> bool" where
  "good_turn direct (c, Got n) = (\<not> c \<and> 0 < n \<and> (direct \<longrightarrow> n mod ALIGN = 0))"
| "good_turn direct (c, Interrupted b) = (\<not> c \<and> \<not> b)"

fun data_bytes :: "turn list \<Rightarrow> int" where
  "data_bytes [] = 0"
| "data_bytes ((c, Got n) # ts) = n + data_bytes ts"
| "data_bytes ((c, Interrupted b) # ts) = data_bytes ts"

lemma read_loop_ends:
  assumes "tot - int (length buf) \<le> data_bytes turns"
    and "\<forall>t \<in> set turns. good_turn direct t"
    and "direct \<longrightarrow> int (length buf) mod ALIGN = 0"
  shows "\<exists>out. read_loop direct disk ofs tot turns buf = Some (Inr out)"
  using assms
proof (induction direct disk ofs tot turns buf rule: read_loop.induct)
  case (2 direct disk ofs tot c r turns buf)
  show ?case
  proof (cases "int (length buf) < tot")
    case lt: True
    show ?thesis
    proof (cases r)
      case (Got n)
      with "2.prems"(2) have n: "\<not> c" "0 < n" "direct \<longrightarrow> n mod ALIGN = 0" by auto
      let ?buf = "buf @ map disk [ofs + int (length buf) .. ofs + int (length buf) + n - 1]"
      have len: "int (length ?buf) = int (length buf) + n" using n by simp
      have al: "direct \<longrightarrow> int (length ?buf) mod ALIGN = 0"
        unfolding len using n(3) "2.prems"(3) by (simp add: mod_add_eq [symmetric])
      have "tot - int (length ?buf) \<le> data_bytes turns"
        using "2.prems"(1) n(2) len by (simp add: Got)
      then show ?thesis
        using "2.IH"(1) [OF lt n(1) Got _ refl refl] n al "2.prems"(2) lt len by (auto simp: Got Let_def)
    next
      case (Interrupted b)
      with "2.prems"(2) have b: "\<not> c" "\<not> b" by auto
      then show ?thesis using "2.IH"(2) [OF lt b(1) Interrupted b(2)] "2.prems" lt
        by (simp add: Interrupted)
    qed
  qed simp
qed auto

section \<open>The store's state: open handle, statistics, one staging record at a time\<close>

record estore =
  es_records :: "(expert_key, expert_record) odict"
  es_open :: bool
  es_reads :: int
  es_bytes_read :: int
  es_active_reads :: int
  es_peak_staging_bytes :: int

definition store_opened :: "manifest \<Rightarrow> estore" where
  "store_opened m = \<lparr>es_records = mf_records m, es_open = True, es_reads = 0, es_bytes_read = 0,
     es_active_reads = 0, es_peak_staging_bytes = 0\<rparr>"

text \<open>
  Entering \<open>with store.read(key)\<close>: every guard, the loop, the statistics, the hash.  The
  \<open>finally\<close> clause takes the active count back when the entry raises; leaving the block
  does when it does not (\<open>store_read_exit\<close>).
\<close>

definition store_read ::
  "('b list \<Rightarrow> string) \<Rightarrow> bool \<Rightarrow> (int \<Rightarrow> 'b) \<Rightarrow> expert_key \<Rightarrow> bool \<Rightarrow> turn list \<Rightarrow> bool
     \<Rightarrow> estore \<Rightarrow> (estore \<times> 'b list res) option"
where
  "store_read H direct disk key cancelled turns cancelled_after st =
     (if \<not> es_open st then Some (st, Inl RuntimeError)
      else case od_get (es_records st) key of
        None \<Rightarrow> Some (st, Inl KeyError)
      | Some r \<Rightarrow>
          if cancelled then Some (st, Inl InterruptedError)
          else let st1 = st\<lparr>es_peak_staging_bytes := max (es_peak_staging_bytes st) (er_bytes r)\<rparr> in
            (case read_loop direct disk (er_offset r) (er_bytes r) turns [] of
               None \<Rightarrow> None
             | Some (Inl e) \<Rightarrow> Some (st1, Inl e)
             | Some (Inr buf) \<Rightarrow>
                 let st2 = st1\<lparr>es_reads := es_reads st1 + 1,
                               es_bytes_read := es_bytes_read st1 + int (length buf)\<rparr> in
                 Some (if H buf \<noteq> er_sha256 r then (st2, Inl ValueError)
                       else if cancelled_after then (st2, Inl InterruptedError)
                       else (st2\<lparr>es_active_reads := es_active_reads st2 + 1\<rparr>, Inr buf))))"

definition store_read_exit :: "estore \<Rightarrow> estore" where
  "store_read_exit st = st\<lparr>es_active_reads := es_active_reads st - 1\<rparr>"

definition store_close :: "estore \<Rightarrow> estore" where
  "store_close st = st\<lparr>es_open := False\<rparr>"

lemma store_read_closed [simp]:
  "\<not> es_open st \<Longrightarrow> store_read H direct disk key c turns ca st = Some (st, Inl RuntimeError)"
  by (simp add: store_read_def)

lemma store_read_Inr:
  assumes "store_read H direct disk key c turns ca st = Some (st', Inr buf)"
  obtains r where "es_open st" "od_get (es_records st) key = Some r" "\<not> c" "\<not> ca"
    "read_loop direct disk (er_offset r) (er_bytes r) turns [] = Some (Inr buf)"
    "H buf = er_sha256 r"
    "st' = st\<lparr>es_peak_staging_bytes := max (es_peak_staging_bytes st) (er_bytes r),
       es_reads := es_reads st + 1, es_bytes_read := es_bytes_read st + int (length buf),
       es_active_reads := es_active_reads st + 1\<rparr>"
  using assms
  by (auto simp: store_read_def Let_def split: if_splits option.splits sum.splits)

lemma store_read_active:
  "store_read H direct disk key c turns ca st = Some (st', r) \<Longrightarrow>
     es_active_reads st' = es_active_reads st + (if is_ok r then 1 else 0)"
  by (auto simp: store_read_def Let_def split: if_splits option.splits sum.splits)

end
