(* ===== verification/Py_Text.thy ===== *)
theory Py_Text
  imports Complex_Main Prelude
begin

text \<open>
  The part of Python's text and value model that the configuration code of the plugin
  uses: \<open>str.strip\<close>, \<open>str.split\<close>, \<open>str.lower\<close>, \<open>int(text, 10)\<close> and dynamically
  typed arguments.  Text is ASCII; a finite float is the rational it denotes.
\<close>

section \<open>Values\<close>

datatype pyfloat = Fin rat | PosInf | NegInf | NaN

datatype pyval =
    PNone
  | PBool bool
  | PInt int
  | PFloat pyfloat
  | PStr string
  | PSeq "pyval list"
  | POther

section \<open>Strings\<close>

definition is_space :: "char \<Rightarrow> bool" where
  "is_space c \<longleftrightarrow> of_char c \<in> set [9, 10, 11, 12, 13, 28, 29, 30, 31, 32 :: nat]"

definition strip :: "string \<Rightarrow> string" where
  "strip s = rev (dropWhile is_space (rev (dropWhile is_space s)))"

fun split_on :: "char \<Rightarrow> string \<Rightarrow> string list" where
  "split_on c [] = [[]]"
| "split_on c (x # xs) =
     (if x = c then [] # split_on c xs
      else case split_on c xs of [] \<Rightarrow> [[x]] | w # ws \<Rightarrow> (x # w) # ws)"

lemma split_on_nonempty: "split_on c s \<noteq> []"
  by (cases s) (auto split: list.splits)

definition lower_char :: "char \<Rightarrow> char" where
  "lower_char c = (let n = of_char c :: nat in if 65 \<le> n \<and> n \<le> 90 then char_of (n + 32) else c)"

definition lower :: "string \<Rightarrow> string" where
  "lower s = map lower_char s"

section \<open>Decimal integers\<close>

definition digit_val :: "char \<Rightarrow> int option" where
  "digit_val c = (let n = of_char c :: int in if 48 \<le> n \<and> n \<le> 57 then Some (n - 48) else None)"

text \<open>Digits, with single underscores allowed between them.\<close>

fun digits :: "int \<Rightarrow> bool \<Rightarrow> string \<Rightarrow> int option" where
  "digits n ok [] = (if ok then Some n else None)"
| "digits n ok (c # cs) =
     (case digit_val c of
        Some d \<Rightarrow> digits (10 * n + d) True cs
      | None \<Rightarrow> if c = CHR ''_'' \<and> ok then digits n False cs else None)"

fun signed :: "(string \<Rightarrow> int option) \<Rightarrow> string \<Rightarrow> int option" where
  "signed f [] = f []"
| "signed f (c # cs) =
     (if c = CHR ''-'' then map_option uminus (f cs)
      else if c = CHR ''+'' then f cs else f (c # cs))"

definition py_int10 :: "string \<Rightarrow> int option" where
  "py_int10 s = signed (digits 0 False) (strip s)"

text \<open>The pattern \<open>[+-]?\d+\<close>, matched in full.\<close>

definition int_pattern :: "string \<Rightarrow> bool" where
  "int_pattern s =
     (let t = (case s of c # cs \<Rightarrow> if c = CHR ''-'' \<or> c = CHR ''+'' then cs else s | [] \<Rightarrow> []) in
      t \<noteq> [] \<and> list_all (\<lambda>c. digit_val c \<noteq> None) t)"

lemma digits_of_pattern:
  "list_all (\<lambda>c. \<exists>d. digit_val c = Some d) s \<Longrightarrow> ok \<or> s \<noteq> [] \<Longrightarrow> \<exists>n'. digits n ok s = Some n'"
  by (induction s arbitrary: n ok) auto

text \<open>Whatever the pattern accepts, \<open>int(_, 10)\<close> parses.\<close>

lemma int_pattern_signed: "int_pattern s \<Longrightarrow> signed (digits 0 False) s \<noteq> None"
  by (cases s) (auto simp: int_pattern_def Let_def simp del: digits.simps split: if_splits
      intro: digits_of_pattern)

lemma strip_idem_head: "is_space c \<Longrightarrow> dropWhile is_space (c # s) = dropWhile is_space s"
  by simp

section \<open>Environment overrides\<close>

type_synonym environ = "string \<Rightarrow> string option"

fun env_int_override :: "environ \<Rightarrow> int \<Rightarrow> string list \<Rightarrow> int option \<Rightarrow> int" where
  "env_int_override env dflt [] minimum = dflt"
| "env_int_override env dflt (name # names) minimum =
     (case env name of
        None \<Rightarrow> env_int_override env dflt names minimum
      | Some raw \<Rightarrow>
          (case py_int10 (strip raw) of
             None \<Rightarrow> env_int_override env dflt names minimum
           | Some value \<Rightarrow>
               if (case minimum of None \<Rightarrow> False | Some mn \<Rightarrow> value < mn)
               then env_int_override env dflt names minimum
               else value))"

text \<open>\<open>float()\<close> on text is a parameter.\<close>

fun env_float_override ::
  "(string \<Rightarrow> pyfloat option) \<Rightarrow> environ \<Rightarrow> pyfloat \<Rightarrow> string list \<Rightarrow> rat option \<Rightarrow> pyfloat"
where
  "env_float_override py_float env dflt [] minimum = dflt"
| "env_float_override py_float env dflt (name # names) minimum =
     (case env name of
        None \<Rightarrow> env_float_override py_float env dflt names minimum
      | Some raw \<Rightarrow>
          (case py_float (strip raw) of
             Some (Fin value) \<Rightarrow>
               if (case minimum of None \<Rightarrow> False | Some mn \<Rightarrow> value < mn)
               then env_float_override py_float env dflt names minimum
               else Fin value
           | _ \<Rightarrow> env_float_override py_float env dflt names minimum))"

lemma env_int_override_minimum:
  "mn \<le> dflt \<Longrightarrow> mn \<le> env_int_override env dflt names (Some mn)"
  by (induction names) (auto split: option.splits)

lemma env_float_override_finite:
  "dflt = Fin d \<Longrightarrow> \<exists>v. env_float_override py_float env dflt names minimum = Fin v"
  by (induction names) (auto split: option.splits pyfloat.splits)

end
