(* ===== verification/Expert_Bank.thy ===== *)
theory Expert_Bank
  imports Expert_Store Py_Text "HOL-Library.Word" "HOL-Library.List_Lexorder" "HOL-Library.Char_ord"
begin

text \<open>
  Building a bank: \<open>build_bank\<close> of \<open>experiments/dsv41_nvme/expert_store.py\<close>, which copies
  the twelve tensors of each selected expert out of a safetensors file into page-aligned
  records and writes the manifest that \<open>Expert_Store.store_check\<close> later accepts.  Files are
  byte lists.  \<open>int()\<close> on a path component, \<open>json.loads\<close> on the header and SHA-256 are
  parameters; the temporary directory, its atomic rename and the clean-up after an
  exception are not modelled (an exception leaves no bank).
\<close>

type_synonym byte = "8 word"

fun le_nat :: "byte list \<Rightarrow> nat" where
  "le_nat [] = 0"
| "le_nat (b # bs) = unat b + 256 * le_nat bs"

text \<open>\<open>struct.unpack('<Q', raw)\<close> and \<open>struct.unpack('<i', data)\<close>.\<close>

definition unpack_i32 :: "byte list \<Rightarrow> int res" where
  "unpack_i32 bs =
     (if length bs \<noteq> 4 then Inl StructError
      else let n = int (le_nat bs) in Inr (if n < 2 ^ 31 then n else n - 2 ^ 32))"

record source_spec =
  sp_dtype :: st_dtype
  sp_shape :: "int list"
  sp_start :: int
  sp_end :: int

type_synonym header = "string \<Rightarrow> source_spec option"

definition MUL1 :: int where "MUL1 = - 2082680531"

text \<open>One tensor copied to the end of the growing record, at the next multiple of 256.\<close>

definition copy_tensor ::
  "(byte list \<Rightarrow> string) \<Rightarrow> byte list \<Rightarrow> int \<Rightarrow> header \<Rightarrow> string \<Rightarrow> byte list \<times> tensors
     \<Rightarrow> string \<times> string \<Rightarrow> (byte list \<times> tensors) res"
where
  "copy_tensor H src hsize hdr prefix st ps =
     (let (rec, ts) = st; (p, suffix) = ps in
      case hdr (tensor_name prefix (tensor_name p suffix)) of
        None \<Rightarrow> Inl KeyError
      | Some spec \<Rightarrow>
          if \<exists>d \<in> set (sp_shape spec). d < 0 then Inl ValueError
          else (case width (sp_dtype spec) of
            None \<Rightarrow> Inl KeyError
          | Some w \<Rightarrow>
              let nbytes = prod_list (sp_shape spec) * w in
              if sp_end spec - sp_start spec \<noteq> nbytes \<or>
                 \<not> (0 \<le> sp_start spec \<and> sp_start spec < sp_end spec \<and>
                    sp_end spec \<le> int (length src) - 8 - hsize)
              then Inl ValueError
              else let data = take (nat nbytes) (drop (nat (8 + hsize + sp_start spec)) src) in
                if int (length data) \<noteq> nbytes then Inl OSError
                else bind_res (if suffix = ''mul1''
                               then bind_res (unpack_i32 data)
                                      (\<lambda>m. if m \<noteq> MUL1 then Inl ValueError else Inr ())
                               else Inr ())
                  (\<lambda>_. let ofs = aligned (int (length rec)) 256;
                           rec' = rec @ replicate (nat (ofs - int (length rec))) 0 @ data in
                     Inr (rec', od_set (tensor_name p suffix)
                                  \<lparr>ts_dtype = sp_dtype spec, ts_shape = sp_shape spec,
                                    ts_offset = ofs, ts_bytes = nbytes, ts_sha256 = H data\<rparr> ts))))"

definition copy_order :: "(string \<times> string) list" where
  "copy_order = concat (map (\<lambda>p. map (\<lambda>s. (p, s)) SUFFIXES) [''w1'', ''w2'', ''w3''])"

definition build_record ::
  "(byte list \<Rightarrow> string) \<Rightarrow> byte list \<Rightarrow> int \<Rightarrow> header \<Rightarrow> string \<Rightarrow> (byte list \<times> tensors) res"
where
  "build_record H src hsize hdr prefix =
     bind_res (fold_res (copy_tensor H src hsize hdr prefix) ([], []) copy_order) (\<lambda>(rec, ts).
     bind_res (validate_tensors ts) (\<lambda>_.
       Inr (rec @ replicate (nat (aligned (int (length rec)) ALIGN - int (length rec))) 0, ts)))"

definition prefix_key :: "(string \<Rightarrow> int option) \<Rightarrow> string \<Rightarrow> expert_key res" where
  "prefix_key py_int prefix =
     (let parts = split_on (CHR ''.'') prefix in
      if length parts \<noteq> 5 \<or> hd parts \<noteq> ''layers'' \<or> take 2 (drop 2 parts) \<noteq> [''ffn'', ''experts'']
      then Inl ValueError
      else case (py_int (parts ! 1), py_int (parts ! 4)) of
        (Some l, Some e) \<Rightarrow> Inr (l, e)
      | _ \<Rightarrow> Inl ValueError)"

definition add_expert ::
  "(byte list \<Rightarrow> string) \<Rightarrow> (string \<Rightarrow> int option) \<Rightarrow> byte list \<Rightarrow> int \<Rightarrow> header
     \<Rightarrow> byte list \<times> (expert_key, expert_record) odict \<Rightarrow> string
     \<Rightarrow> (byte list \<times> (expert_key, expert_record) odict) res"
where
  "add_expert H py_int src hsize hdr st prefix =
     (let (out, records) = st in
      bind_res (prefix_key py_int prefix) (\<lambda>key.
        if key \<in> set (od_keys records) then Inl ValueError
        else bind_res (build_record H src hsize hdr prefix) (\<lambda>(rec, ts).
          Inr (out @ rec,
               od_set key \<lparr>er_offset = int (length out), er_bytes = int (length rec),
                           er_tensors = ts, er_sha256 = H rec\<rparr> records))))"

definition build_bank ::
  "(byte list \<Rightarrow> string) \<Rightarrow> (string \<Rightarrow> int option) \<Rightarrow> (byte list \<Rightarrow> header res)
     \<Rightarrow> bool \<Rightarrow> byte list \<Rightarrow> string list \<Rightarrow> string \<Rightarrow> string \<Rightarrow> (byte list \<times> manifest) res"
where
  "build_bank H py_int json_loads destination_exists src prefixes model revision =
     (if destination_exists then Inl FileExistsError
      else if prefixes = [] \<or> \<not> distinct prefixes then Inl ValueError
      else if length src < 8 then Inl ValueError
      else let hsize = int (le_nat (take 8 src)) in
        if \<not> (2 \<le> hsize \<and> hsize \<le> 32 * 2 ^ 20) then Inl ValueError
        else bind_res (json_loads (take (nat hsize) (drop 8 src))) (\<lambda>hdr.
          bind_res (fold_res (add_expert H py_int src hsize hdr) ([], []) (sort prefixes))
            (\<lambda>(out, records).
              Inr (out, \<lparr>mf_identity = (1, model, revision, ALIGN), mf_records = records,
                         mf_bank_bytes = int (length out)\<rparr>))))"

section \<open>One record\<close>

lemma aligned_ge: "0 < a \<Longrightarrow> n \<le> aligned n a"
  unfolding aligned_def
  using minus_mod_eq_div_mult [of "n + a - 1" a] pos_mod_bound [of a "n + a - 1"] by linarith

lemma aligned_mod [simp]: "aligned n a mod a = 0"
  by (simp add: aligned_def)

text \<open>
  The state of the copying loop: the tensors stored so far lie one after the other, each at
  a multiple of 256 inside the record, and hold the source's bytes.
\<close>

definition tensor_copied ::
  "byte list \<Rightarrow> int \<Rightarrow> header \<Rightarrow> string \<Rightarrow> byte list \<Rightarrow> string \<times> tensor_spec \<Rightarrow> bool"
where
  "tensor_copied src hsize hdr prefix rec nt \<longleftrightarrow>
     (let (name, t) = nt in
      0 \<le> ts_offset t \<and> ts_offset t mod 256 = 0 \<and> 0 < ts_bytes t \<and>
      ts_offset t + ts_bytes t \<le> int (length rec) \<and>
      (\<exists>w. width (ts_dtype t) = Some w \<and> ts_bytes t = prod_list (ts_shape t) * w) \<and>
      (\<exists>spec. hdr (tensor_name prefix name) = Some spec \<and>
         take (nat (ts_bytes t)) (drop (nat (ts_offset t)) rec) =
         take (nat (ts_bytes t)) (drop (nat (8 + hsize + sp_start spec)) src)))"

definition copied :: "byte list \<Rightarrow> int \<Rightarrow> header \<Rightarrow> string \<Rightarrow> byte list \<times> tensors \<Rightarrow> bool" where
  "copied src hsize hdr prefix st \<longleftrightarrow>
     od_ok (snd st) \<and>
     sorted_wrt (\<lambda>a b. ts_offset a + ts_bytes a \<le> ts_offset b) (map snd (snd st)) \<and>
     (\<forall>nt \<in> set (snd st). tensor_copied src hsize hdr prefix (fst st) nt)"

lemma tensor_copied_extend:
  assumes "tensor_copied src hsize hdr prefix rec nt"
  shows "tensor_copied src hsize hdr prefix (rec @ ys) nt"
proof -
  obtain name t where nt: "nt = (name, t)" by (cases nt)
  have b: "0 \<le> ts_offset t" "0 < ts_bytes t" "ts_offset t + ts_bytes t \<le> int (length rec)"
    using assms by (auto simp: tensor_copied_def nt)
  then have "nat (ts_offset t) + nat (ts_bytes t) \<le> length rec" by linarith
  then have "take (nat (ts_bytes t)) (drop (nat (ts_offset t)) (rec @ ys)) =
      take (nat (ts_bytes t)) (drop (nat (ts_offset t)) rec)" by simp
  then show ?thesis using assms b unfolding tensor_copied_def nt by simp
qed

lemma copied_Nil [simp]: "copied src hsize hdr prefix ([], [])"
  by (simp add: copied_def)

lemma copy_tensor_Inr:
  assumes "copy_tensor H src hsize hdr prefix (rec, ts) (p, suffix) = Inr (rec', ts')"
  obtains spec w data ofs where
    "hdr (tensor_name prefix (tensor_name p suffix)) = Some spec" "width (sp_dtype spec) = Some w"
    "data = take (length data) (drop (nat (8 + hsize + sp_start spec)) src)"
    "int (length data) = prod_list (sp_shape spec) * w" "0 < length data"
    "ofs = aligned (int (length rec)) 256"
    "rec' = rec @ replicate (nat (ofs - int (length rec))) 0 @ data"
    "ts' = od_set (tensor_name p suffix)
       \<lparr>ts_dtype = sp_dtype spec, ts_shape = sp_shape spec, ts_offset = ofs,
         ts_bytes = int (length data), ts_sha256 = H data\<rparr> ts"
proof -
  from assms obtain spec where spec: "hdr (tensor_name prefix (tensor_name p suffix)) = Some spec"
    by (auto simp: copy_tensor_def split: option.splits)
  from assms obtain w where w: "width (sp_dtype spec) = Some w"
    by (auto simp: copy_tensor_def spec split: option.splits if_splits)
  let ?n = "prod_list (sp_shape spec) * w"
  let ?data = "take (nat ?n) (drop (nat (8 + hsize + sp_start spec)) src)"
  have l: "int (length ?data) = ?n" "0 < ?n"
    and r: "rec' = rec @ replicate (nat (aligned (int (length rec)) 256 - int (length rec))) 0 @ ?data"
    and t: "ts' = od_set (tensor_name p suffix)
       \<lparr>ts_dtype = sp_dtype spec, ts_shape = sp_shape spec,
         ts_offset = aligned (int (length rec)) 256, ts_bytes = ?n, ts_sha256 = H ?data\<rparr> ts"
    using assms by (auto simp: copy_tensor_def spec w Let_def bind_res_Inr split: if_splits)
  show thesis
    by (rule that [OF spec w _ l(1) _ refl r]) (use l t in auto)
qed

lemma copied_step:
  assumes c: "copied src hsize hdr prefix (rec, ts)"
    and st: "copy_tensor H src hsize hdr prefix (rec, ts) (p, suffix) = Inr (rec', ts')"
    and new: "tensor_name p suffix \<notin> set (od_keys ts)"
  shows "copied src hsize hdr prefix (rec', ts') \<and> od_keys ts' = od_keys ts @ [tensor_name p suffix]"
proof -
  obtain spec w data ofs where h:
    "hdr (tensor_name prefix (tensor_name p suffix)) = Some spec" "width (sp_dtype spec) = Some w"
    "data = take (length data) (drop (nat (8 + hsize + sp_start spec)) src)"
    "int (length data) = prod_list (sp_shape spec) * w" "0 < length data"
    "ofs = aligned (int (length rec)) 256"
    "rec' = rec @ replicate (nat (ofs - int (length rec))) 0 @ data"
    "ts' = od_set (tensor_name p suffix)
       \<lparr>ts_dtype = sp_dtype spec, ts_shape = sp_shape spec, ts_offset = ofs,
         ts_bytes = int (length data), ts_sha256 = H data\<rparr> ts"
    using st by (rule copy_tensor_Inr)
  let ?t = "\<lparr>ts_dtype = sp_dtype spec, ts_shape = sp_shape spec, ts_offset = ofs,
     ts_bytes = int (length data), ts_sha256 = H data\<rparr>"
  have ge: "int (length rec) \<le> ofs" using aligned_ge [of 256] by (simp add: h(6))
  have len: "int (length rec') = ofs + int (length data)" using ge by (simp add: h(7))
  have ts': "ts' = ts @ [(tensor_name p suffix, ?t)]"
    using new by (simp add: h(8) od_set_def alist_update_append od_keys_def)
  have keys: "od_keys ts' = od_keys ts @ [tensor_name p suffix]"
    using new by (simp add: h(8) od_keys_set)
  have bnd: "ts_offset (snd nt) + ts_bytes (snd nt) \<le> ofs" if "nt \<in> set ts" for nt
    using c that ge by (fastforce simp: copied_def tensor_copied_def)
  have dr: "drop (nat ofs) rec' = data" using ge by (simp add: h(7))
  have tk: "take (length data) (drop (nat (8 + hsize + sp_start spec)) src) = data"
    using h(3) by simp
  have "0 \<le> ofs" "ofs mod 256 = 0" using ge h(6) by simp_all
  then have "tensor_copied src hsize hdr prefix rec' (tensor_name p suffix, ?t)"
    unfolding tensor_copied_def Let_def prod.case tensor_spec.simps
    using h(1,2,5) len by (simp add: dr tk flip: h(4))
  moreover have "tensor_copied src hsize hdr prefix rec' nt" if "nt \<in> set ts" for nt
    using c that unfolding h(7) by (auto simp: copied_def intro: tensor_copied_extend)
  moreover have "od_ok ts'" using c by (simp add: h(8) copied_def)
  moreover have "sorted_wrt (\<lambda>a b. ts_offset a + ts_bytes a \<le> ts_offset b) (map snd ts')"
    using c bnd by (auto simp: ts' copied_def sorted_wrt_append)
  ultimately show ?thesis using keys by (simp add: copied_def ts')
qed

lemma copied_fold:
  assumes "copied src hsize hdr prefix st"
    and "fold_res (copy_tensor H src hsize hdr prefix) st pss = Inr st'"
    and "distinct (od_keys (snd st) @ map (\<lambda>(p, s). tensor_name p s) pss)"
  shows "copied src hsize hdr prefix st' \<and>
    od_keys (snd st') = od_keys (snd st) @ map (\<lambda>(p, s). tensor_name p s) pss"
  using assms
proof (induction pss arbitrary: st)
  case (Cons ps pss)
  obtain p s where ps: "ps = (p, s)" by (cases ps)
  obtain rec ts where st: "st = (rec, ts)" by (cases st)
  obtain rec1 ts1 where step: "copy_tensor H src hsize hdr prefix (rec, ts) (p, s) = Inr (rec1, ts1)"
    and rest: "fold_res (copy_tensor H src hsize hdr prefix) (rec1, ts1) pss = Inr st'"
    using Cons.prems(2) by (auto simp: bind_res_Inr ps st)
  have "copied src hsize hdr prefix (rec1, ts1) \<and> od_keys ts1 = od_keys ts @ [tensor_name p s]"
    by (rule copied_step [OF _ step]) (use Cons.prems in \<open>simp_all add: st ps\<close>)
  then show ?case using Cons.IH [OF _ rest] Cons.prems(3) by (simp add: st ps)
qed simp

lemma copy_order_names: "map (\<lambda>(p, s). tensor_name p s) copy_order = expected_list"
  by (simp add: copy_order_def expected_list_def SUFFIXES_def)

lemma distinct_expected: "distinct expected_list"
  by (simp add: expected_list_def SUFFIXES_def tensor_name_def)

lemma check_tensors_ok:
  assumes "sorted_wrt (\<lambda>a b. ts_offset a + ts_bytes a \<le> ts_offset b) ts"
    and "\<forall>t \<in> set ts. b \<le> ts_offset t \<and> ts_offset t mod 256 = 0 \<and> ts_offset t + ts_bytes t \<le> n \<and>
      (\<exists>w. width (ts_dtype t) = Some w \<and> ts_bytes t = prod_list (ts_shape t) * w)"
  shows "check_tensors n b ts = Inr ()"
  using assms by (induction n b ts rule: check_tensors.induct) auto

lemma sorted_offsets:
  "sorted_wrt (\<lambda>a b. ts_offset a + ts_bytes a \<le> ts_offset b) ts \<Longrightarrow> (\<forall>t \<in> set ts. 0 < ts_bytes t) \<Longrightarrow>
     sorted (map ts_offset ts)"
  by (induction ts) fastforce+

lemma build_record_Inr:
  assumes "build_record H src hsize hdr prefix = Inr (rec, ts)"
  shows "copied src hsize hdr prefix (rec, ts) \<and> od_keys ts = expected_list \<and>
    validate_tensors ts = Inr () \<and> int (length rec) mod ALIGN = 0 \<and> 0 < int (length rec) \<and>
    check_tensors (int (length rec)) 0 (sort_key ts_offset (map snd ts)) = Inr ()"
proof -
  obtain rec0 where f: "fold_res (copy_tensor H src hsize hdr prefix) ([], []) copy_order = Inr (rec0, ts)"
    and v: "validate_tensors ts = Inr ()"
    and r: "rec = rec0 @ replicate (nat (aligned (int (length rec0)) ALIGN - int (length rec0))) 0"
    using assms by (auto simp: build_record_def bind_res_Inr split: prod.splits)
  have c0: "copied src hsize hdr prefix (rec0, ts)" and k: "od_keys ts = expected_list"
    using copied_fold [OF _ f] distinct_expected by (simp_all add: copy_order_names od_keys_def)
  have len: "int (length rec) = aligned (int (length rec0)) ALIGN"
    using aligned_ge [of ALIGN "int (length rec0)"] by (simp add: r ALIGN_def)
  have c: "copied src hsize hdr prefix (rec, ts)"
    using c0 by (auto simp: copied_def r intro: tensor_copied_extend)
  have s: "sorted_wrt (\<lambda>a b. ts_offset a + ts_bytes a \<le> ts_offset b) (map snd ts)"
    using c by (simp add: copied_def)
  have b: "\<forall>t \<in> set (map snd ts). 0 \<le> ts_offset t \<and> ts_offset t mod 256 = 0 \<and>
      ts_offset t + ts_bytes t \<le> int (length rec) \<and> 0 < ts_bytes t \<and>
      (\<exists>w. width (ts_dtype t) = Some w \<and> ts_bytes t = prod_list (ts_shape t) * w)"
    using c by (auto simp: copied_def tensor_copied_def)
  have "sort_key ts_offset (map snd ts) = map snd ts"
    by (intro sort_key_id_if_sorted sorted_offsets [OF s]) (use b in auto)
  then have ch: "check_tensors (int (length rec)) 0 (sort_key ts_offset (map snd ts)) = Inr ()"
    using check_tensors_ok [OF s] b by simp
  have "ts \<noteq> []" using k by (auto simp: od_keys_def expected_list_def SUFFIXES_def)
  then obtain t where "t \<in> set (map snd ts)" by (cases ts) auto
  then have "0 < int (length rec)" using b by fastforce
  then show ?thesis using c k v ch len by (simp add: ALIGN_def [symmetric])
qed

section \<open>The whole bank\<close>

definition slice :: "int \<Rightarrow> int \<Rightarrow> 'a list \<Rightarrow> 'a list" where
  "slice ofs n xs = take (nat n) (drop (nat ofs) xs)"

lemma slice_append: "0 \<le> ofs \<Longrightarrow> 0 \<le> n \<Longrightarrow> ofs + n \<le> int (length xs) \<Longrightarrow>
    slice ofs n (xs @ ys) = slice ofs n xs"
  by (simp add: slice_def)

lemma slice_end: "slice (int (length xs)) (int (length ys)) (xs @ ys) = ys"
  by (simp add: slice_def)

definition record_built ::
  "(byte list \<Rightarrow> string) \<Rightarrow> (string \<Rightarrow> int option) \<Rightarrow> byte list \<Rightarrow> int \<Rightarrow> header \<Rightarrow> byte list
     \<Rightarrow> expert_key \<times> expert_record \<Rightarrow> bool"
where
  "record_built H py_int src hsize hdr out kr \<longleftrightarrow>
     (let (key, r) = kr; bs = slice (er_offset r) (er_bytes r) out in
      er_bytes r mod ALIGN = 0 \<and> 0 \<le> er_offset r \<and> 0 < er_bytes r \<and>
      er_offset r + er_bytes r \<le> int (length out) \<and>
      validate_tensors (er_tensors r) = Inr () \<and>
      check_tensors (er_bytes r) 0 (sort_key ts_offset (map snd (er_tensors r))) = Inr () \<and>
      H bs = er_sha256 r \<and> od_keys (er_tensors r) = expected_list \<and>
      (\<exists>prefix. prefix_key py_int prefix = Inr key \<and> copied src hsize hdr prefix (bs, er_tensors r)))"

definition bank_state ::
  "(byte list \<Rightarrow> string) \<Rightarrow> (string \<Rightarrow> int option) \<Rightarrow> byte list \<Rightarrow> int \<Rightarrow> header
     \<Rightarrow> byte list \<times> (expert_key, expert_record) odict \<Rightarrow> bool"
where
  "bank_state H py_int src hsize hdr st \<longleftrightarrow>
     od_ok (snd st) \<and> laid_out 0 (map record_ext (snd st)) (int (length (fst st))) \<and>
     (\<forall>kr \<in> set (snd st). record_built H py_int src hsize hdr (fst st) kr)"

lemma record_built_extend:
  "record_built H py_int src hsize hdr out kr \<Longrightarrow> record_built H py_int src hsize hdr (out @ ys) kr"
  by (cases kr) (simp add: record_built_def Let_def slice_append)

lemma laid_out_snoc:
  "laid_out b xs e \<Longrightarrow> 0 < n \<Longrightarrow> laid_out b (xs @ [(e, n)]) (e + n)"
  by (induction xs arbitrary: b) auto

lemma add_expert_state:
  assumes st: "bank_state H py_int src hsize hdr (out, rs)"
    and add: "add_expert H py_int src hsize hdr (out, rs) prefix = Inr (out', rs')"
  shows "bank_state H py_int src hsize hdr (out', rs') \<and> rs' \<noteq> []"
proof -
  obtain key rec ts where key: "prefix_key py_int prefix = Inr key" "key \<notin> set (od_keys rs)"
    and b: "build_record H src hsize hdr prefix = Inr (rec, ts)"
    and out': "out' = out @ rec"
    and rs0: "rs' = od_set key \<lparr>er_offset = int (length out), er_bytes = int (length rec),
                 er_tensors = ts, er_sha256 = H rec\<rparr> rs"
    using add by (auto simp: add_expert_def bind_res_Inr split: if_splits prod.splits)
  note r = build_record_Inr [OF b]
  let ?r = "\<lparr>er_offset = int (length out), er_bytes = int (length rec),
      er_tensors = ts, er_sha256 = H rec\<rparr>"
  have rs': "rs' = rs @ [(key, ?r)]"
    using key(2) by (simp add: rs0 od_set_def alist_update_append od_keys_def)
  have "record_built H py_int src hsize hdr out' (key, ?r)"
    using r key(1) by (auto simp: record_built_def Let_def out' slice_end)
  moreover have "record_built H py_int src hsize hdr out' kr" if "kr \<in> set rs" for kr
    using st that by (auto simp: bank_state_def out' intro: record_built_extend)
  moreover have "laid_out 0 (map record_ext rs') (int (length out'))"
    using laid_out_snoc [of 0 "map record_ext rs" "int (length out)" "int (length rec)"] st r
    by (simp add: rs' record_ext_def bank_state_def out')
  moreover have "od_ok rs'" using st by (simp add: rs0 bank_state_def)
  ultimately show ?thesis by (simp add: bank_state_def rs')
qed

lemma add_experts_state:
  "fold_res (add_expert H py_int src hsize hdr) st ps = Inr st' \<Longrightarrow>
     bank_state H py_int src hsize hdr st \<Longrightarrow> ps \<noteq> [] \<or> snd st \<noteq> [] \<Longrightarrow>
     bank_state H py_int src hsize hdr st' \<and> snd st' \<noteq> []"
proof (induction ps arbitrary: st)
  case (Cons p ps)
  obtain s1 where s1: "add_expert H py_int src hsize hdr st p = Inr s1"
    "fold_res (add_expert H py_int src hsize hdr) s1 ps = Inr st'"
    using Cons.prems(1) by (auto simp: bind_res_Inr)
  have "bank_state H py_int src hsize hdr s1 \<and> snd s1 \<noteq> []"
    using add_expert_state [of H py_int src hsize hdr "fst st" "snd st" p "fst s1" "snd s1"]
      s1(1) Cons.prems(2) by simp
  then show ?case using Cons.IH [OF s1(2)] by simp
qed simp

lemma build_bank_state:
  assumes "build_bank H py_int json_loads ex src prefixes model revision = Inr (out, m)"
  obtains hdr where "bank_state H py_int src (int (le_nat (take 8 src))) hdr (out, mf_records m)"
    "mf_records m \<noteq> []" "mf_identity m = (1, model, revision, ALIGN)"
    "mf_bank_bytes m = int (length out)"
    "json_loads (take (le_nat (take 8 src)) (drop 8 src)) = Inr hdr"
proof -
  obtain hdr where j: "json_loads (take (le_nat (take 8 src)) (drop 8 src)) = Inr hdr"
    and ne: "prefixes \<noteq> []"
    and f: "fold_res (add_expert H py_int src (int (le_nat (take 8 src))) hdr) ([], [])
      (sort prefixes) = Inr (out, mf_records m)"
    and m: "mf_identity m = (1, model, revision, ALIGN)" "mf_bank_bytes m = int (length out)"
    using assms by (auto simp: build_bank_def bind_res_Inr Let_def split: if_splits prod.splits)
  have ne': "sort prefixes \<noteq> []" using ne by (metis set_empty set_sort)
  have "bank_state H py_int src (int (le_nat (take 8 src))) hdr ([], [])" by (simp add: bank_state_def)
  from add_experts_state [OF f this] ne' that [OF _ _ m j] show thesis by simp
qed

lemma laid_out_key_sorted: "laid_out b (map record_ext krs) e \<Longrightarrow>
    sort_key (\<lambda>kr. er_offset (snd kr)) krs = krs"
proof (intro sort_key_id_if_sorted)
  assume l: "laid_out b (map record_ext krs) e"
  have p: "\<forall>kr \<in> set krs. 0 < er_bytes (snd kr)"
    using laid_out_bounds [OF l] by (fastforce simp: record_ext_def)
  have "sorted_wrt (\<lambda>x y. fst x + snd x \<le> fst y) (map record_ext krs)"
    using l by (rule laid_out_sorted)
  then show "sorted (map (\<lambda>kr. er_offset (snd kr)) krs)"
    using p by (induction krs) (fastforce simp: record_ext_def)+
qed

text \<open>What a finished read loop leaves in the buffer, over a file that is a byte list.\<close>

lemma map_nth_slice:
  assumes "0 \<le> ofs" "0 \<le> n" "ofs + n \<le> int (length xs)"
  shows "map (\<lambda>i. xs ! nat i) [ofs .. ofs + n - 1] = slice ofs n xs"
proof (rule nth_equalityI)
  show "length (map (\<lambda>i. xs ! nat i) [ofs .. ofs + n - 1]) = length (slice ofs n xs)"
    using assms by (simp add: slice_def)
next
  fix i assume "i < length (map (\<lambda>i. xs ! nat i) [ofs .. ofs + n - 1])"
  then have "int i < n" using assms by simp
  then show "map (\<lambda>i. xs ! nat i) [ofs .. ofs + n - 1] ! i = slice ofs n xs ! i"
    using assms by (simp add: slice_def nat_add_distrib)
qed

lemma read_loop_slice:
  assumes "read_loop direct (\<lambda>i. xs ! nat i) ofs tot turns [] = Some (Inr out)"
    and "reads_within tot 0 turns"
    and "0 \<le> ofs" "0 \<le> tot" "ofs + tot \<le> int (length xs)"
  shows "out = slice ofs tot xs"
proof -
  have "out = map (\<lambda>i. xs ! nat i) [ofs .. ofs + tot - 1]"
    by (rule read_loop_content [OF assms(1)]) (use assms in simp_all)
  then show ?thesis using assms by (simp add: map_nth_slice)
qed

lemma built_accepted:
  assumes b: "build_bank H py_int json_loads ex src prefixes model revision = Inr (out, m)"
    and "\<forall>(key, r) \<in> set (mf_records m).
      fst key \<in> {0..<40} \<and> snd key \<in> {0..<384} \<and> er_bytes r \<le> mx"
  shows "store_check (1, model, revision, ALIGN) mx (int (length out)) m = Inr ()"
proof -
  obtain hdr where st: "bank_state H py_int src (int (le_nat (take 8 src))) hdr (out, mf_records m)"
    and m: "mf_records m \<noteq> []" "mf_identity m = (1, model, revision, ALIGN)"
      "mf_bank_bytes m = int (length out)"
    using b by (rule build_bank_state)
  have l: "laid_out 0 (map record_ext (mf_records m)) (int (length out))"
    using st by (simp add: bank_state_def)
  have "\<forall>kr \<in> set (mf_records m). record_wf mx kr"
    using st assms(2) by (fastforce simp: bank_state_def record_built_def record_wf_def Let_def)
  then show ?thesis using m l laid_out_key_sorted [OF l] by (simp add: store_check_iff)
qed

lemma built_od_ok:
  assumes "build_bank H py_int json_loads ex src prefixes model revision = Inr (out, m)"
    and "(key, r) \<in> set (mf_records m)"
  shows "od_ok (er_tensors r)"
  using assms(1)
  by (rule build_bank_state)
    (use assms(2) in \<open>fastforce simp: bank_state_def record_built_def copied_def Let_def\<close>)

section \<open>A concrete bank with one expert\<close>

definition demo_src :: "byte list" where
  "demo_src = [2, 0, 0, 0, 0, 0, 0, 0, 0, 0, 0x2D, 0xD1, 0xDC, 0x83] @ replicate 4096 7"

definition demo_header :: header where
  "demo_header name =
     (let s = last (split_on (CHR ''.'') name) in
      if s = ''trellis'' then Some \<lparr>sp_dtype = I16, sp_shape = [8, 8, 32], sp_start = 4, sp_end = 4100\<rparr>
      else if s = ''mul1'' then Some \<lparr>sp_dtype = I32, sp_shape = [], sp_start = 0, sp_end = 4\<rparr>
      else Some \<lparr>sp_dtype = F16, sp_shape = [128], sp_start = 4, sp_end = 260\<rparr>)"

definition demo_int :: "string \<Rightarrow> int option" where
  "demo_int s = (if s = ''3'' then Some 3 else if s = ''7'' then Some 7 else None)"

lemma demo_copy: "\<exists>rec ts. fold_res (copy_tensor (\<lambda>_. []) demo_src 2 demo_header ''layers.3.ffn.experts.7'') ([], []) copy_order = Inr (rec, ts) \<and> length rec = 14340 \<and> validate_tensors ts = Inr ()"
  by (simp add: copy_order_def SUFFIXES_def copy_tensor_def tensor_name_def demo_header_def Let_def demo_src_def unpack_i32_def MUL1_def aligned_def od_set_def validate_tensors_def od_keys_def expected_list_def proj_dims_def od_get_def geometry_ok_def)

lemma demo_build: "\<exists>out m r. build_bank (\<lambda>_. []) demo_int (\<lambda>_. Inr demo_header) False demo_src
    [''layers.3.ffn.experts.7''] ''m'' ''r'' = Inr (out, m) \<and> mf_records m = [((3, 7), r)] \<and> er_bytes r = 16384 \<and>
    er_sha256 r = [] \<and> length out = 16384 \<and> er_offset r = 0"
proof -
  obtain rec ts where f: "fold_res (copy_tensor (\<lambda>_. []) demo_src 2 demo_header ''layers.3.ffn.experts.7'') ([], []) copy_order = Inr (rec, ts)"
     "length rec = 14340" "validate_tensors ts = Inr ()" using demo_copy by blast
  have k: "prefix_key demo_int ''layers.3.ffn.experts.7'' = Inr (3, 7)"
    by (simp add: prefix_key_def demo_int_def)
  have h: "le_nat (take 8 demo_src) = 2" "\<not> length demo_src < 8"
    by (simp_all add: demo_src_def take_Cons')
  show ?thesis
    by (simp add: build_bank_def h add_expert_def k build_record_def f od_set_def od_keys_def aligned_def ALIGN_def)
qed

section \<open>Properties\<close>




text \<open>C14: an accepted manifest tiles the bank file: every byte of the file belongs to exactly
  one record, and every record to the served range of layers and experts.\<close>

theorem accepted_tiles:
  assumes "store_check ident mx fsz m = Inr ()"
  shows "(\<Union>kr \<in> set (mf_records m). ext_set (record_ext kr)) = {0..<fsz} \<and>
    sorted_wrt (\<lambda>a b. ext_disj (record_ext a) (record_ext b))
      (sort_key (\<lambda>kr. er_offset (snd kr)) (mf_records m)) \<and>
    (\<forall>(key, r) \<in> set (mf_records m). fst key \<in> {0..<40} \<and> snd key \<in> {0..<384} \<and>
      er_offset r mod ALIGN = 0 \<and> er_bytes r mod ALIGN = 0)"
proof -
  let ?s = "sort_key (\<lambda>kr. er_offset (snd kr)) (mf_records m)"
  have l: "laid_out 0 (map record_ext ?s) fsz" and w: "\<forall>kr \<in> set (mf_records m). record_wf mx kr"
    using assms by (auto simp: store_check_iff)
  have "sorted_wrt (\<lambda>a b. ext_disj (record_ext a) (record_ext b)) ?s"
    using laid_out_sorted [OF l] unfolding sorted_wrt_map
    by (rule sorted_wrt_mono_rel [rotated]) (simp add: ext_disj_def)
  moreover have "\<forall>e \<in> set (map record_ext ?s). snd e mod ALIGN = 0"
    using w by (auto simp: record_wf_def record_ext_def)
  then have "\<forall>e \<in> set (map record_ext ?s). fst e mod ALIGN = 0"
    using laid_out_mod [OF l] by simp
  ultimately show ?thesis using laid_out_union [OF l] w
    by (auto simp: record_wf_def record_ext_def)
qed

lemma accepted_tiles_witness:
  "\<exists>out m. store_check (1, ''m'', ''r'', ALIGN) 16384 (int (length (out :: byte list))) m = Inr () \<and>
    (\<Union>kr \<in> set (mf_records m). ext_set (record_ext kr)) = {0..<int (length out)}"
proof -
  obtain out m r where b: "build_bank (\<lambda>_. []) demo_int (\<lambda>_. Inr demo_header) False demo_src
    [''layers.3.ffn.experts.7''] ''m'' ''r'' = Inr (out, m)" "mf_records m = [((3, 7), r)]"
    "er_bytes r = 16384" using demo_build by blast
  have c: "store_check (1, ''m'', ''r'', ALIGN) 16384 (int (length out)) m = Inr ()"
    using built_accepted [OF b(1), of 16384] b by auto
  from accepted_tiles [OF this] c show ?thesis by blast
qed

text \<open>Inside an accepted record the twelve tensor extents are disjoint, aligned to 256
  bytes, inside the record, sized for their dtype and shape, and the trellis of each projection
  is the \<open>[in/16, out/16, 16 K]\<close> array of a bit width \<open>K\<close> from 2 to 8.\<close>

theorem accepted_tensors:
  assumes "store_check ident mx fsz m = Inr ()" and "(key, r) \<in> set (mf_records m)"
    and ok: "od_ok (er_tensors r)"
  shows "sorted_wrt (\<lambda>a b. ts_offset a + ts_bytes a \<le> ts_offset b)
      (sort_key ts_offset (map snd (er_tensors r))) \<and>
    (\<forall>(name, t) \<in> set (er_tensors r). 0 \<le> ts_offset t \<and> ts_offset t mod 256 = 0 \<and>
      ts_offset t + ts_bytes t \<le> er_bytes r) \<and>
    (\<forall>p \<in> {''w1'', ''w2'', ''w3''}. \<exists>ni no t K. od_get (er_tensors r) (tensor_name p ''trellis'') = Some t \<and>
      0 < ni \<and> 0 < no \<and> ni mod 128 = 0 \<and> no mod 128 = 0 \<and> 2 \<le> K \<and> K \<le> 8 \<and>
      ts_shape t = [ni div 16, no div 16, 16 * K])"
proof -
  have w: "record_wf mx (key, r)" using assms by (auto simp: store_check_iff)
  then have v: "validate_tensors (er_tensors r) = Inr ()"
    and c: "check_tensors (er_bytes r) 0 (sort_key ts_offset (map snd (er_tensors r))) = Inr ()"
    by (simp_all add: record_wf_def)
  have "\<forall>p \<in> {''w1'', ''w2'', ''w3''}. \<exists>d. proj_dims (er_tensors r) p = Inr d"
    using v by (auto simp: validate_tensors_def bind_res_Inr split: if_splits)
  then have "\<forall>p \<in> {''w1'', ''w2'', ''w3''}. \<exists>ni no t K. od_get (er_tensors r) (tensor_name p ''trellis'') = Some t \<and>
      0 < ni \<and> 0 < no \<and> ni mod 128 = 0 \<and> no mod 128 = 0 \<and> 2 \<le> K \<and> K \<le> 8 \<and>
      ts_shape t = [ni div 16, no div 16, 16 * K]"
    using proj_dims_Inr by (metis surj_pair)
  moreover note nn = accepted_bytes_nonneg [OF v ok c]
  have "\<forall>(name, t) \<in> set (er_tensors r). 0 \<le> ts_offset t \<and> ts_offset t mod 256 = 0 \<and>
      ts_offset t + ts_bytes t \<le> er_bytes r"
    using check_tensors_Inr [OF c _ nn] by force
  ultimately show ?thesis using check_tensors_sorted [OF c nn] by simp
qed

lemma accepted_tensors_witness:
  "\<exists>m r t. store_check (1, ''m'', ''r'', ALIGN) 16384 16384 m = Inr () \<and>
    (((3, 7) :: expert_key), r) \<in> set (mf_records m) \<and>
    od_get (er_tensors r) ''w2.trellis'' = Some t \<and> length (ts_shape t) = 3"
proof -
  obtain out m r where b: "build_bank (\<lambda>_. []) demo_int (\<lambda>_. Inr demo_header) False demo_src
    [''layers.3.ffn.experts.7''] ''m'' ''r'' = Inr (out, m)" "mf_records m = [((3, 7), r)]"
    "er_bytes r = 16384" "length out = 16384" using demo_build by blast
  have c: "store_check (1, ''m'', ''r'', ALIGN) 16384 16384 m = Inr ()"
    using built_accepted [OF b(1), of 16384] b by auto
  have m: "((3, 7), r) \<in> set (mf_records m)" by (simp add: b)
  have "od_ok (er_tensors r)" using built_od_ok [OF b(1) m] .
  from accepted_tensors [OF c m this] have
    "\<exists>t. od_get (er_tensors r) (tensor_name ''w2'' ''trellis'') = Some t \<and> length (ts_shape t) = 3"
    by fastforce
  then show ?thesis using c m by (auto simp: tensor_name_def)
qed

text \<open>C15: a read returns.  Against an operating system that keeps delivering data, whole pages
  on a direct handle and never more than asked for, with any number of interrupted calls in
  between, the read of a present key of an open store ends, and ends with exactly the record's
  bytes of the file when the manifest's hash is the hash of those bytes.\<close>

theorem store_read_returns:
  assumes "es_open st" and "od_get (es_records st) key = Some r" and "0 \<le> er_bytes r"
    and "er_bytes r \<le> data_bytes turns" and "\<forall>t \<in> set turns. good_turn direct t"
    and w: "reads_within (er_bytes r) 0 turns"
    and "H (map disk [er_offset r .. er_offset r + er_bytes r - 1]) = er_sha256 r"
  shows "\<exists>st'. store_read H direct disk key False turns False st =
      Some (st', Inr (map disk [er_offset r .. er_offset r + er_bytes r - 1])) \<and>
    es_reads st' = es_reads st + 1 \<and> es_bytes_read st' = es_bytes_read st + er_bytes r"
proof -
  obtain buf where buf: "read_loop direct disk (er_offset r) (er_bytes r) turns [] = Some (Inr buf)"
    using read_loop_ends [of "er_bytes r" "[]" turns direct] assms(4,5) by fastforce
  have "buf = map disk [er_offset r .. er_offset r + er_bytes r - 1]"
    using w assms(3) by (intro read_loop_content [OF buf]) simp_all
  then show ?thesis using assms buf by (simp add: store_read_def Let_def)
qed

lemma store_read_returns_witness:
  "\<exists>st'. store_read (\<lambda>_. ''h'') True (\<lambda>i. i) (0, 0) False
      [(False, Got 4096), (False, Interrupted False), (False, Got 4096)] False
      (store_opened \<lparr>mf_identity = (1, [], [], 4096),
        mf_records = [((0, 0), \<lparr>er_offset = 0, er_bytes = 8192, er_tensors = [], er_sha256 = ''h''\<rparr>)],
        mf_bank_bytes = 8192\<rparr>) = Some (st', Inr [0..8191]) \<and> es_reads st' = 1"
  using store_read_returns [of "store_opened \<lparr>mf_identity = (1, [], [], 4096),
        mf_records = [((0, 0), \<lparr>er_offset = 0, er_bytes = 8192, er_tensors = [], er_sha256 = ''h''\<rparr>)],
        mf_bank_bytes = 8192\<rparr>" "(0, 0)"
      "\<lparr>er_offset = 0, er_bytes = 8192, er_tensors = [], er_sha256 = ''h''\<rparr>"
      "[(False, Got 4096), (False, Interrupted False), (False, Got 4096)]" True
      "\<lambda>_. ''h''" "\<lambda>i. i"]
  by (simp add: store_opened_def od_get_def ALIGN_def del: upto_rec_numeral) blast

end
