(* ===== verification/Expert_Cache.thy ===== *)
theory Expert_Cache
  imports Expert_Store
begin

text \<open>
  The resident expert cache: class \<open>ExpertCache\<close> of \<open>experiments/dsv41_nvme/expert_cache.py\<close>.
  Entries are an LRU list of packed experts inside per-layer arenas; leases keep an entry
  resident and leave an event on their captured stream behind; eviction waits for those
  events before the region is reused.  Inputs of an operation are what the machine answers:
  whether the memory gate passes, whether the load raises, which events have completed and
  which CUDA stream is current.  The projection handles hold no state the cache looks at and
  are not modelled.  The field \<open>ca_trace\<close> is a history of the device-visible actions and
  \<open>ca_leases\<close> the outstanding leases; the code keeps neither, no operation's result depends
  on them.
\<close>

section \<open>State\<close>

record event =
  ev_id :: nat
  ev_stream :: nat

record centry =
  ce_offset :: int
  ce_size :: int
  ce_generation :: int
  ce_users :: int
  ce_events :: "event list"

record lease =
  ls_key :: expert_key
  ls_generation :: int
  ls_stream :: nat

datatype act =
    Recorded int event
  | Settled int event
  | Freed int

record stats =
  st_hits :: int
  st_misses :: int
  st_evictions :: int
  st_failures :: int
  st_peak_resident_bytes :: int

record cache =
  ca_records :: "(expert_key, expert_record) odict"
  ca_regions :: "(int, regions) odict"
  ca_entries :: "(expert_key, centry) odict"
  ca_generation :: int
  ca_stats :: stats
  ca_resident_bytes :: int
  ca_closed :: bool
  ca_events_made :: nat
  ca_trace :: "act list"
  ca_leases :: "lease list"

text \<open>The constructor: one region per layer, laid end to end in layer order.\<close>

fun lay_regions :: "int \<Rightarrow> (int \<times> int) list \<Rightarrow> (int, regions) odict res" where
  "lay_regions base [] = Inr []"
| "lay_regions base ((layer, sz) # qs) =
     bind_res (regions_new sz base) (\<lambda>r.
     bind_res (lay_regions (base + sz) qs) (\<lambda>rs. Inr ((layer, r) # rs)))"

definition largest_fits :: "(expert_key, expert_record) odict \<Rightarrow> int \<times> int \<Rightarrow> bool" where
  "largest_fits records lq \<longleftrightarrow>
     (\<forall>(key, r) \<in> set records. fst key = fst lq \<longrightarrow> er_bytes r \<le> snd lq)"

definition cache_new ::
  "(expert_key, expert_record) odict \<Rightarrow> int \<Rightarrow> (int, int) odict option \<Rightarrow> bool \<Rightarrow> cache res"
where
  "cache_new records capacity_bytes layer_quotas memory_ok =
     (if capacity_bytes \<le> 0 \<or> capacity_bytes mod ALIGN \<noteq> 0 then Inl ValueError
      else if \<not> memory_ok then Inl RuntimeError
      else let layers = sort (remdups (map (\<lambda>kr. fst (fst kr)) records)) in
        bind_res (case layer_quotas of
            None \<Rightarrow> if length layers \<noteq> 1 then Inl ValueError else Inr [(hd layers, capacity_bytes)]
          | Some q \<Rightarrow> Inr q) (\<lambda>quotas.
        if set (od_keys quotas) \<noteq> set layers \<or> sum_list (map snd quotas) \<noteq> capacity_bytes
        then Inl ValueError
        else bind_res (lay_regions 0 (sort quotas)) (\<lambda>regions.
          if \<not> list_all (largest_fits records) quotas then Inl ValueError
          else Inr \<lparr>ca_records = records, ca_regions = regions, ca_entries = [], ca_generation = 0,
            ca_stats = \<lparr>st_hits = 0, st_misses = 0, st_evictions = 0, st_failures = 0,
              st_peak_resident_bytes = 0\<rparr>,
            ca_resident_bytes = 0, ca_closed = False, ca_events_made = 0, ca_trace = [],
            ca_leases = []\<rparr>)))"

section \<open>Operations\<close>

definition bump :: "(stats \<Rightarrow> stats) \<Rightarrow> cache \<Rightarrow> cache" where
  "bump f st = st\<lparr>ca_stats := f (ca_stats st)\<rparr>"

text \<open>\<open>_evict\<close>: synchronize every event, drop the handles, release the region, forget the entry.\<close>

definition cache_evict :: "cache \<Rightarrow> expert_key \<Rightarrow> cache \<times> unit res" where
  "cache_evict st key =
     (case od_get (ca_entries st) key of
        None \<Rightarrow> (st, Inl KeyError)
      | Some e \<Rightarrow>
          if ce_users e \<noteq> 0 then (st, Inl CacheBusy)
          else let st1 = st\<lparr>ca_trace := ca_trace st @ map (Settled (ce_generation e)) (ce_events e),
                            ca_entries := od_set key (e\<lparr>ce_events := []\<rparr>) (ca_entries st)\<rparr> in
            (case od_get (ca_regions st) (fst key) of
               None \<Rightarrow> (st1, Inl KeyError)
             | Some r \<Rightarrow>
                 (case regions_release r (ce_offset e) of
                    Inl x \<Rightarrow> (st1, Inl x)
                  | Inr r' \<Rightarrow>
                      (bump (\<lambda>s. s\<lparr>st_evictions := st_evictions s + 1\<rparr>)
                        (st1\<lparr>ca_regions := od_set (fst key) r' (ca_regions st1),
                             ca_resident_bytes := ca_resident_bytes st1 - ce_size e,
                             ca_entries := od_del key (ca_entries st1),
                             ca_trace := ca_trace st1 @ [Freed (ce_generation e)]\<rparr>), Inr ()))))"

definition victim :: "cache \<Rightarrow> int \<Rightarrow> expert_key option" where
  "victim st layer =
     map_option fst (find (\<lambda>(k, e). fst k = layer \<and> ce_users e = 0) (ca_entries st))"

lemma find_Some_in: "find P xs = Some x \<Longrightarrow> x \<in> set xs \<and> P x"
  by (induction xs) (auto split: if_splits)

lemma victim_Some:
  "victim st layer = Some k \<Longrightarrow> od_ok (ca_entries st) \<Longrightarrow>
     fst k = layer \<and> (\<exists>e. od_get (ca_entries st) k = Some e \<and> ce_users e = 0)"
  by (auto simp: victim_def dest!: find_Some_in intro!: od_get_in)

lemma victim_None:
  "victim st layer = None \<Longrightarrow> od_get (ca_entries st) k = Some e \<Longrightarrow> fst k = layer \<Longrightarrow> ce_users e \<noteq> 0"
  by (cases k) (fastforce simp: victim_def find_None_iff dest!: od_get_Some_in)

lemma length_od_del: "od_get d k = Some v \<Longrightarrow> length (od_del k d) < length d"
proof (induction d)
  case (Cons x d)
  show ?case
  proof (cases "fst x = k")
    case True
    then show ?thesis
      by (cases x) (simp add: od_del_def le_imp_less_Suc length_delete_le)
  next
    case False
    then show ?thesis using Cons by (cases x) (simp add: od_del_def od_get_def)
  qed
qed (simp add: od_get_def)

lemma cache_evict_Inr:
  assumes "cache_evict st key = (st', Inr ())"
  obtains e r r' where "od_get (ca_entries st) key = Some e" "ce_users e = 0"
    "od_get (ca_regions st) (fst key) = Some r" "regions_release r (ce_offset e) = Inr r'"
    "ca_records st' = ca_records st" "ca_regions st' = od_set (fst key) r' (ca_regions st)"
    "ca_entries st' = od_del key (od_set key (e\<lparr>ce_events := []\<rparr>) (ca_entries st))"
    "ca_generation st' = ca_generation st"
    "ca_resident_bytes st' = ca_resident_bytes st - ce_size e" "ca_closed st' = ca_closed st"
    "ca_events_made st' = ca_events_made st"
    "ca_trace st' = ca_trace st @ map (Settled (ce_generation e)) (ce_events e) @ [Freed (ce_generation e)]"
    "ca_leases st' = ca_leases st"
  using assms
  by (auto simp: cache_evict_def bump_def Let_def split: option.splits if_splits sum.splits)

lemma cache_evict_shrinks:
  assumes "cache_evict st key = (st', Inr ())"
  shows "length (ca_entries st') < length (ca_entries st)"
  using assms
proof (rule cache_evict_Inr)
  fix e r r'
  assume e: "od_get (ca_entries st) key = Some e"
    and ca: "ca_entries st' = od_del key (od_set key (e\<lparr>ce_events := []\<rparr>) (ca_entries st))"
  have "length (ca_entries st') < length (od_set key (e\<lparr>ce_events := []\<rparr>) (ca_entries st))"
    unfolding ca by (rule length_od_del) simp
  then show ?thesis using e by (simp add: od_length_set)
qed

text \<open>The allocation loop of \<open>_load\<close>: evict the first unused entry of the layer until it fits.\<close>

function make_room :: "cache \<Rightarrow> int \<Rightarrow> int \<Rightarrow> cache \<times> int res" where
  "make_room st layer n =
     (case od_get (ca_regions st) layer of
        None \<Rightarrow> (st, Inl KeyError)
      | Some r \<Rightarrow>
          (case regions_allocate r n of
             Inl x \<Rightarrow> (st, Inl x)
           | Inr (r', Some ofs) \<Rightarrow>
               (st\<lparr>ca_regions := od_set layer r' (ca_regions st)\<rparr>, Inr ofs)
           | Inr (r', None) \<Rightarrow>
               (case victim st layer of
                  None \<Rightarrow> (st, Inl CacheBusy)
                | Some k \<Rightarrow>
                    (case cache_evict st k of
                       (st', Inl x) \<Rightarrow> (st', Inl x)
                     | (st', Inr u) \<Rightarrow> make_room st' layer n))))"
  by pat_completeness auto

termination
  by (relation "measure (\<lambda>(st, _). length (ca_entries st))") (auto dest: cache_evict_shrinks [OF sym])

declare make_room.simps [simp del]

datatype load_result = LoadOk | LoadRaises exn

text \<open>\<open>_load\<close>, with the outcome of the read, copy and view code inside its \<open>try\<close> as an input.\<close>

definition cache_load :: "cache \<Rightarrow> expert_key \<Rightarrow> bool \<Rightarrow> load_result \<Rightarrow> cache \<times> centry res" where
  "cache_load st key gate_ok outcome =
     (if \<not> gate_ok then (st, Inl RuntimeError)
      else case od_get (ca_records st) key of
        None \<Rightarrow> (st, Inl KeyError)
      | Some record \<Rightarrow>
          (case make_room st (fst key) (er_bytes record) of
             (st1, Inl x) \<Rightarrow> (st1, Inl x)
           | (st1, Inr ofs) \<Rightarrow>
               (case outcome of
                  LoadOk \<Rightarrow>
                    let g = ca_generation st1 + 1;
                        e = \<lparr>ce_offset = ofs, ce_size = er_bytes record, ce_generation = g,
                              ce_users = 0, ce_events = []\<rparr>;
                        rb = ca_resident_bytes st1 + er_bytes record in
                    (bump (\<lambda>s. s\<lparr>st_peak_resident_bytes := max (st_peak_resident_bytes s) rb\<rparr>)
                       (st1\<lparr>ca_generation := g, ca_entries := od_set key e (ca_entries st1),
                            ca_resident_bytes := rb\<rparr>), Inr e)
                | LoadRaises x \<Rightarrow>
                    (case od_get (ca_regions st1) (fst key) of
                       None \<Rightarrow> (st1, Inl KeyError)
                     | Some r \<Rightarrow>
                         (case regions_release r ofs of
                            Inl y \<Rightarrow> (st1, Inl y)
                          | Inr r' \<Rightarrow>
                              (bump (\<lambda>s. s\<lparr>st_failures := st_failures s + 1\<rparr>)
                                (st1\<lparr>ca_regions := od_set (fst key) r' (ca_regions st1)\<rparr>), Inl x))))))"

definition take_lease :: "cache \<Rightarrow> expert_key \<Rightarrow> centry \<Rightarrow> nat \<Rightarrow> cache \<times> lease res" where
  "take_lease st key e stream =
     (let l = \<lparr>ls_key = key, ls_generation = ce_generation e, ls_stream = stream\<rparr> in
      (st\<lparr>ca_entries := od_set key (e\<lparr>ce_users := ce_users e + 1\<rparr>) (ca_entries st),
          ca_leases := l # ca_leases st\<rparr>, Inr l))"

text \<open>Entering \<open>with cache.lease(key)\<close>; \<open>completed\<close> holds the events whose query answers true.\<close>

definition lease_enter ::
  "cache \<Rightarrow> expert_key \<Rightarrow> bool \<Rightarrow> bool \<Rightarrow> load_result \<Rightarrow> nat set \<Rightarrow> nat \<Rightarrow> cache \<times> lease res"
where
  "lease_enter st key cancelled gate_ok outcome completed stream =
     (if ca_closed st then (st, Inl RuntimeError)
      else if key \<notin> set (od_keys (ca_records st)) then (st, Inl KeyError)
      else if cancelled then (st, Inl InterruptedError)
      else case od_get (ca_entries st) key of
        None \<Rightarrow>
          (case cache_load (bump (\<lambda>s. s\<lparr>st_misses := st_misses s + 1\<rparr>) st) key gate_ok outcome of
             (st1, Inl x) \<Rightarrow> (st1, Inl x)
           | (st1, Inr e) \<Rightarrow> take_lease st1 key e stream)
      | Some e \<Rightarrow>
          let e' = e\<lparr>ce_events := filter (\<lambda>v. ev_id v \<notin> completed) (ce_events e)\<rparr>;
              st1 = (bump (\<lambda>s. s\<lparr>st_hits := st_hits s + 1\<rparr>) st)
                \<lparr>ca_entries := od_move_end key (od_set key e' (ca_entries st)),
                 ca_trace := ca_trace st @
                   map (Settled (ce_generation e)) (filter (\<lambda>v. ev_id v \<in> completed) (ce_events e))\<rparr> in
          take_lease st1 key e' stream)"

text \<open>Leaving the block: an event on the captured stream, one user less.\<close>

definition lease_exit :: "cache \<Rightarrow> lease \<Rightarrow> cache \<times> unit res" where
  "lease_exit st l =
     (case od_get (ca_entries st) (ls_key l) of
        None \<Rightarrow> (st, Inl KeyError)
      | Some e \<Rightarrow>
          let v = \<lparr>ev_id = ca_events_made st, ev_stream = ls_stream l\<rparr> in
          (st\<lparr>ca_entries := od_set (ls_key l)
                 (e\<lparr>ce_events := ce_events e @ [v], ce_users := ce_users e - 1\<rparr>) (ca_entries st),
              ca_events_made := Suc (ca_events_made st),
              ca_trace := ca_trace st @ [Recorded (ce_generation e) v],
              ca_leases := remove1 l (ca_leases st)\<rparr>, Inr ()))"

fun evict_all :: "cache \<Rightarrow> expert_key list \<Rightarrow> cache \<times> unit res" where
  "evict_all st [] = (st, Inr ())"
| "evict_all st (k # ks) =
     (case cache_evict st k of
        (st', Inl x) \<Rightarrow> (st', Inl x)
      | (st', Inr u) \<Rightarrow> evict_all st' ks)"

definition cache_clear :: "cache \<Rightarrow> cache \<times> unit res" where
  "cache_clear st =
     (if \<exists>ke \<in> set (ca_entries st). ce_users (snd ke) \<noteq> 0 then (st, Inl CacheBusy)
      else evict_all st (od_keys (ca_entries st)))"

definition cache_close :: "cache \<Rightarrow> cache \<times> unit res" where
  "cache_close st =
     (case cache_clear st of
        (st', Inl x) \<Rightarrow> (st', Inl x)
      | (st', Inr u) \<Rightarrow> (st'\<lparr>ca_closed := True\<rparr>, Inr ()))"

datatype cop =
    LeaseEnter expert_key bool bool load_result "nat set" nat
  | LeaseExit lease
  | Clear
  | Close

text \<open>A lease can be left only once and only after it was entered: \<open>with\<close> sees to that.\<close>

definition cache_enabled :: "cache \<Rightarrow> cop \<Rightarrow> bool" where
  "cache_enabled st c = (case c of LeaseExit l \<Rightarrow> l \<in> set (ca_leases st) | _ \<Rightarrow> True)"

definition cache_step :: "cache \<Rightarrow> cop \<Rightarrow> cache \<times> lease option res" where
  "cache_step st c =
     (case c of
        LeaseEnter k cancelled gate outcome completed s \<Rightarrow>
          (case lease_enter st k cancelled gate outcome completed s of
             (st', Inl x) \<Rightarrow> (st', Inl x) | (st', Inr l) \<Rightarrow> (st', Inr (Some l)))
      | LeaseExit l \<Rightarrow>
          (case lease_exit st l of (st', Inl x) \<Rightarrow> (st', Inl x) | (st', Inr u) \<Rightarrow> (st', Inr None))
      | Clear \<Rightarrow>
          (case cache_clear st of (st', Inl x) \<Rightarrow> (st', Inl x) | (st', Inr u) \<Rightarrow> (st', Inr None))
      | Close \<Rightarrow>
          (case cache_close st of (st', Inl x) \<Rightarrow> (st', Inl x) | (st', Inr u) \<Rightarrow> (st', Inr None)))"

section \<open>Accounting of the arenas\<close>

definition owned :: "cache \<Rightarrow> int \<Rightarrow> extent set" where
  "owned st l = {(ce_offset e, ce_size e) | k e. od_get (ca_entries st) k = Some e \<and> fst k = l}"

lemma owned_I: "od_get (ca_entries st) k = Some e \<Longrightarrow> (ce_offset e, ce_size e) \<in> owned st (fst k)"
  unfolding owned_def by blast

text \<open>The extent \<open>P\<close>, if any, is allocated but not yet an entry (between the two halves of \<open>_load\<close>).\<close>

definition pend :: "(int \<times> extent) option \<Rightarrow> int \<Rightarrow> extent set" where
  "pend P l = {x. P = Some (l, x)}"

definition arena_ok :: "(int \<Rightarrow> int) \<Rightarrow> (int \<Rightarrow> int) \<Rightarrow> (int \<times> extent) option \<Rightarrow> cache \<Rightarrow> bool" where
  "arena_ok B Q P st \<longleftrightarrow>
     od_ok (ca_entries st) \<and>
     (\<forall>l r. od_get (ca_regions st) l = Some r \<longrightarrow>
        arena_inv (B l) (Q l) r \<and> set (rg_allocated r) = owned st l \<union> pend P l) \<and>
     (\<forall>k e. od_get (ca_entries st) k = Some e \<longrightarrow>
        od_get (ca_regions st) (fst k) \<noteq> None \<and> 0 < ce_size e \<and>
        (\<forall>k' e'. od_get (ca_entries st) k' = Some e' \<longrightarrow> fst k' = fst k \<longrightarrow>
           ce_offset e' = ce_offset e \<longrightarrow> k' = k)) \<and>
     (\<forall>l x. P = Some (l, x) \<longrightarrow> od_get (ca_regions st) l \<noteq> None \<and>
        (\<forall>n. (fst x, n) \<notin> owned st l)) \<and>
     ca_resident_bytes st = od_sum ce_size (ca_entries st)"

lemma arena_okD:
  assumes "arena_ok B Q P st"
  shows "od_ok (ca_entries st)"
    and "od_get (ca_regions st) l = Some r \<Longrightarrow>
      arena_inv (B l) (Q l) r \<and> set (rg_allocated r) = owned st l \<union> pend P l"
    and "od_get (ca_entries st) k = Some e \<Longrightarrow> od_get (ca_regions st) (fst k) \<noteq> None \<and> 0 < ce_size e"
    and "od_get (ca_entries st) k = Some e \<Longrightarrow> od_get (ca_entries st) k' = Some e' \<Longrightarrow>
      fst k' = fst k \<Longrightarrow> ce_offset e' = ce_offset e \<Longrightarrow> k' = k"
    and "P = Some (l, x) \<Longrightarrow> od_get (ca_regions st) l \<noteq> None \<and> (fst x, n) \<notin> owned st l"
    and "ca_resident_bytes st = od_sum ce_size (ca_entries st)"
  using assms unfolding arena_ok_def by blast+

text \<open>Only the extents of the entries matter to the accounting.\<close>

lemma arena_ok_frame:
  assumes ok: "arena_ok B Q P st"
    and "od_ok (ca_entries st')"
    and ent: "\<And>k. map_option (\<lambda>e. (ce_offset e, ce_size e)) (od_get (ca_entries st') k) =
      map_option (\<lambda>e. (ce_offset e, ce_size e)) (od_get (ca_entries st) k)"
    and "ca_regions st' = ca_regions st" and "ca_resident_bytes st' = ca_resident_bytes st"
    and sum: "od_sum ce_size (ca_entries st') = od_sum ce_size (ca_entries st)"
  shows "arena_ok B Q P st'"
proof -
  have lift: "\<exists>e0. od_get (ca_entries st) k = Some e0 \<and> ce_offset e0 = ce_offset e \<and> ce_size e0 = ce_size e"
    if "od_get (ca_entries st') k = Some e" for k e using ent [of k] that by (cases "od_get (ca_entries st) k") auto
  have lift': "\<exists>e0. od_get (ca_entries st') k = Some e0 \<and> ce_offset e0 = ce_offset e \<and> ce_size e0 = ce_size e"
    if "od_get (ca_entries st) k = Some e" for k e
    using ent [of k] that by (cases "od_get (ca_entries st') k") auto
  have "owned st' l = owned st l" for l
    unfolding owned_def using lift lift' by (smt (verit, best) Collect_cong)
  then show ?thesis
    unfolding arena_ok_def using assms(2,4,5,6) arena_okD [OF ok]
    by (smt (verit) lift)
qed

text \<open>Eviction gives the entry's extent back and nothing else.\<close>

lemma evict_arena:
  assumes ok: "arena_ok B Q P st" and ev: "cache_evict st key = (st', r)"
  shows "arena_ok B Q P st' \<and> (\<forall>x. r = Inl x \<longrightarrow> st' = st \<and> x \<in> {KeyError, CacheBusy})"
proof (cases "od_get (ca_entries st) key")
  case None
  then show ?thesis using ok ev by (auto simp: cache_evict_def)
next
  case (Some e)
  show ?thesis
  proof (cases "ce_users e = 0")
    case False
    then show ?thesis using ok ev Some by (auto simp: cache_evict_def)
  next
    case True
    obtain rg where rg: "od_get (ca_regions st) (fst key) = Some rg"
      using arena_okD(3) [OF ok Some] by auto
    let ?x = "(ce_offset e, ce_size e)"
    have own: "?x \<in> set (rg_allocated rg)"
      using arena_okD(2) [OF ok rg] owned_I [OF Some] by blast
    obtain rg' where rl: "regions_release rg (ce_offset e) = Inr rg'"
        "arena_inv (B (fst key)) (Q (fst key)) rg'" "set (rg_allocated rg') = set (rg_allocated rg) - {?x}"
      using arena.rel_ok [OF _ own] arena_okD(2) [OF ok rg] by blast
    have st': "r = Inr ()" "ca_regions st' = od_set (fst key) rg' (ca_regions st)"
        "ca_entries st' = od_del key (od_set key (e\<lparr>ce_events := []\<rparr>) (ca_entries st))"
        "ca_resident_bytes st' = ca_resident_bytes st - ce_size e"
      using ev Some True rg rl(1) by (auto simp: cache_evict_def Let_def bump_def)
    have get: "od_get (ca_entries st') k = (if k = key then None else od_get (ca_entries st) k)" for k
      by (simp add: st')
    have own': "owned st' l = owned st l - (if l = fst key then {?x} else {})" for l
    proof (rule set_eqI, rule iffI)
      fix x assume "x \<in> owned st' l"
      then obtain k' e' where h: "k' \<noteq> key" "od_get (ca_entries st) k' = Some e'" "fst k' = l"
          "x = (ce_offset e', ce_size e')"
        unfolding owned_def get by (auto split: if_splits)
      have "x \<in> owned st l" using h unfolding owned_def by blast
      moreover have "l = fst key \<Longrightarrow> x \<noteq> ?x" using arena_okD(4) [OF ok Some h(2)] h by auto
      ultimately show "x \<in> owned st l - (if l = fst key then {?x} else {})" by auto
    next
      fix x assume x: "x \<in> owned st l - (if l = fst key then {?x} else {})"
      then obtain k' e' where h: "od_get (ca_entries st) k' = Some e'" "fst k' = l"
          "x = (ce_offset e', ce_size e')"
        unfolding owned_def by blast
      then have "k' \<noteq> key" using x Some by auto
      then have "od_get (ca_entries st') k' = Some e'" using h by (simp add: get)
      then show "x \<in> owned st' l" using h unfolding owned_def by blast
    qed
    have np: "?x \<notin> pend P (fst key)"
      using arena_okD(5) [OF ok, of "fst key" ?x] owned_I [OF Some] by (simp add: pend_def) blast
    have regs: "arena_inv (B l) (Q l) r \<and> set (rg_allocated r) = owned st' l \<union> pend P l"
      if "od_get (ca_regions st') l = Some r" for l r
      using that rl arena_okD(2) [OF ok] rg np own' by (auto simp: st' split: if_splits)
    have sum: "ca_resident_bytes st' = od_sum ce_size (ca_entries st')"
      using arena_okD(1,6) [OF ok] Some by (simp add: st' od_sum_del od_sum_set)
    have "arena_ok B Q P st'"
      unfolding arena_ok_def
      using regs sum arena_okD [OF ok] own' by (auto simp: st')
    then show ?thesis using st' by simp
  qed
qed

section \<open>Leases and the history of the device\<close>

definition leases_on :: "cache \<Rightarrow> expert_key \<Rightarrow> nat" where
  "leases_on st k = length (filter (\<lambda>l. ls_key l = k) (ca_leases st))"

definition lease_ok :: "cache \<Rightarrow> bool" where
  "lease_ok st \<longleftrightarrow>
     (\<forall>k e. od_get (ca_entries st) k = Some e \<longrightarrow>
        ce_users e = int (leases_on st k) \<and> ce_generation e \<le> ca_generation st \<and>
        (\<exists>r. od_get (ca_records st) k = Some r \<and> ce_size e = er_bytes r) \<and>
        (\<forall>k' e'. od_get (ca_entries st) k' = Some e' \<longrightarrow> ce_generation e' = ce_generation e \<longrightarrow> k' = k)) \<and>
     (\<forall>l \<in> set (ca_leases st). \<exists>e. od_get (ca_entries st) (ls_key l) = Some e \<and>
        ce_generation e = ls_generation l)"

text \<open>
  A region is given back only after every event ever recorded for that residency has been
  waited for or seen complete, and nothing is recorded for it afterwards.
\<close>

definition safe_trace :: "act list \<Rightarrow> bool" where
  "safe_trace tr \<longleftrightarrow>
     (\<forall>i g v. i < length tr \<longrightarrow> tr ! i = Freed g \<longrightarrow> Recorded g v \<in> set tr \<longrightarrow>
        Settled g v \<in> set (take i tr))"

definition trace_ok :: "cache \<Rightarrow> bool" where
  "trace_ok st \<longleftrightarrow> safe_trace (ca_trace st) \<and>
     (\<forall>g v. Recorded g v \<in> set (ca_trace st) \<longrightarrow> g \<le> ca_generation st \<and>
        (Settled g v \<in> set (ca_trace st) \<or>
         (\<exists>k e. od_get (ca_entries st) k = Some e \<and> ce_generation e = g \<and> v \<in> set (ce_events e)))) \<and>
     (\<forall>g. Freed g \<in> set (ca_trace st) \<longrightarrow> g \<le> ca_generation st \<and>
        (\<forall>k e. od_get (ca_entries st) k = Some e \<longrightarrow> ce_generation e \<noteq> g))"

lemma safe_trace_Nil [simp]: "safe_trace []"
  by (simp add: safe_trace_def)

lemma safe_trace_snoc:
  assumes "safe_trace tr"
    and "\<And>g v. a = Recorded g v \<Longrightarrow> Freed g \<notin> set tr"
    and "\<And>g v. a = Freed g \<Longrightarrow> Recorded g v \<in> set tr \<Longrightarrow> Settled g v \<in> set tr"
  shows "safe_trace (tr @ [a])"
  unfolding safe_trace_def
proof (intro allI impI)
  fix i g v
  assume i: "i < length (tr @ [a])" "(tr @ [a]) ! i = Freed g" and rc: "Recorded g v \<in> set (tr @ [a])"
  show "Settled g v \<in> set (take i (tr @ [a]))"
  proof (cases "i < length tr")
    case True
    then have f: "tr ! i = Freed g" using i by (simp add: nth_append)
    then have "Freed g \<in> set tr" using True by (metis nth_mem)
    then have "Recorded g v \<in> set tr" using rc assms(2) by auto
    then show ?thesis using assms(1) True f by (simp add: safe_trace_def)
  next
    case False
    then have "i = length tr" "a = Freed g" using i by (auto simp: nth_append split: if_splits)
    then show ?thesis using assms(3) rc by auto
  qed
qed

lemma safe_trace_settled: "safe_trace tr \<Longrightarrow> safe_trace (tr @ map (Settled g) vs)"
proof (induction vs rule: rev_induct)
  case (snoc v vs)
  then have "safe_trace ((tr @ map (Settled g) vs) @ [Settled g v])"
    by (intro safe_trace_snoc) auto
  then show ?case by simp
qed simp

lemma trace_okD:
  assumes "trace_ok st"
  shows "safe_trace (ca_trace st)"
    and "Recorded g v \<in> set (ca_trace st) \<Longrightarrow> g \<le> ca_generation st"
    and "Recorded g v \<in> set (ca_trace st) \<Longrightarrow> Settled g v \<in> set (ca_trace st) \<or>
      (\<exists>k e. od_get (ca_entries st) k = Some e \<and> ce_generation e = g \<and> v \<in> set (ce_events e))"
    and "Freed g \<in> set (ca_trace st) \<Longrightarrow> g \<le> ca_generation st"
    and "Freed g \<in> set (ca_trace st) \<Longrightarrow> od_get (ca_entries st) k = Some e \<Longrightarrow> ce_generation e \<noteq> g"
  using assms unfolding trace_ok_def by blast+

lemma lease_okD:
  assumes "lease_ok st"
  shows "od_get (ca_entries st) k = Some e \<Longrightarrow> ce_users e = int (leases_on st k)"
    and "od_get (ca_entries st) k = Some e \<Longrightarrow> ce_generation e \<le> ca_generation st"
    and "od_get (ca_entries st) k = Some e \<Longrightarrow>
      \<exists>r. od_get (ca_records st) k = Some r \<and> ce_size e = er_bytes r"
    and "od_get (ca_entries st) k = Some e \<Longrightarrow> od_get (ca_entries st) k' = Some e' \<Longrightarrow>
      ce_generation e' = ce_generation e \<Longrightarrow> k' = k"
    and "l \<in> set (ca_leases st) \<Longrightarrow>
      \<exists>e. od_get (ca_entries st) (ls_key l) = Some e \<and> ce_generation e = ls_generation l"
  using assms unfolding lease_ok_def by blast+

lemma leases_on_pos: "l \<in> set (ca_leases st) \<Longrightarrow> leases_on st (ls_key l) \<noteq> 0"
  by (auto simp: leases_on_def filter_empty_conv)

lemma evict_history:
  assumes l: "lease_ok st" and t: "trace_ok st" and ev: "cache_evict st key = (st', Inr ())"
  shows "lease_ok st' \<and> trace_ok st'"
  using ev
proof (rule cache_evict_Inr)
  fix e r r'
  assume e: "od_get (ca_entries st) key = Some e" and u: "ce_users e = 0"
    and st': "ca_records st' = ca_records st"
      "ca_entries st' = od_del key (od_set key (e\<lparr>ce_events := []\<rparr>) (ca_entries st))"
      "ca_generation st' = ca_generation st" "ca_leases st' = ca_leases st"
    and tr: "ca_trace st' = ca_trace st @ map (Settled (ce_generation e)) (ce_events e) @ [Freed (ce_generation e)]"
  let ?g = "ce_generation e"
  have get: "od_get (ca_entries st') k = (if k = key then None else od_get (ca_entries st) k)" for k
    by (simp add: st')
  have no: "\<forall>l \<in> set (ca_leases st). ls_key l \<noteq> key"
    using lease_okD(1) [OF l e] u leases_on_pos by fastforce
  have settled: "Settled ?g v \<in> set (ca_trace st) \<or> v \<in> set (ce_events e)"
    if "Recorded ?g v \<in> set (ca_trace st)" for v
    using trace_okD(3) [OF t that] lease_okD(4) [OF l e] e by (metis option.inject)
  have "lease_ok st'"
    unfolding lease_ok_def
  proof (intro conjI allI impI ballI)
    fix k e' assume k: "od_get (ca_entries st') k = Some e'"
    then have k': "od_get (ca_entries st) k = Some e'" by (simp add: get split: if_splits)
    show "ce_users e' = int (leases_on st' k)" "ce_generation e' \<le> ca_generation st'"
      "\<exists>r. od_get (ca_records st') k = Some r \<and> ce_size e' = er_bytes r"
      using lease_okD(1-3) [OF l k'] by (simp_all add: leases_on_def st')
    fix k2 e2 assume "od_get (ca_entries st') k2 = Some e2" "ce_generation e2 = ce_generation e'"
    then show "k2 = k" using lease_okD(4) [OF l k'] by (simp add: get split: if_splits)
  next
    fix ls assume "ls \<in> set (ca_leases st')"
    then show "\<exists>e. od_get (ca_entries st') (ls_key ls) = Some e \<and> ce_generation e = ls_generation ls"
      using lease_okD(5) [OF l] no by (simp add: get st'(4))
  qed
  moreover have "safe_trace (ca_trace st')"
    unfolding tr append_assoc [symmetric]
    by (rule safe_trace_snoc [OF safe_trace_settled [OF trace_okD(1) [OF t]]]) (use settled in auto)
  moreover have "g \<le> ca_generation st' \<and> (Settled g v \<in> set (ca_trace st') \<or>
        (\<exists>k e. od_get (ca_entries st') k = Some e \<and> ce_generation e = g \<and> v \<in> set (ce_events e)))"
    if "Recorded g v \<in> set (ca_trace st')" for g v
  proof -
    have rc: "Recorded g v \<in> set (ca_trace st)" using that by (auto simp: tr)
    show ?thesis
    proof (cases "g = ?g")
      case True
      then show ?thesis using settled [of v] rc trace_okD(2) [OF t rc] by (auto simp: tr st')
    next
      case False
      from trace_okD(3) [OF t rc] show ?thesis
      proof
        assume "Settled g v \<in> set (ca_trace st)"
        then show ?thesis using trace_okD(2) [OF t rc] by (simp add: tr st'(3))
      next
        assume "\<exists>k e. od_get (ca_entries st) k = Some e \<and> ce_generation e = g \<and> v \<in> set (ce_events e)"
        then obtain k0 e0 where k0: "od_get (ca_entries st) k0 = Some e0" "ce_generation e0 = g"
            "v \<in> set (ce_events e0)" by blast
        then have "od_get (ca_entries st') k0 = Some e0" using False e by (auto simp: get)
        then show ?thesis using k0 trace_okD(2) [OF t rc] unfolding st'(3) by blast
      qed
    qed
  qed
  moreover have "g \<le> ca_generation st' \<and>
      (\<forall>k e. od_get (ca_entries st') k = Some e \<longrightarrow> ce_generation e \<noteq> g)"
    if "Freed g \<in> set (ca_trace st')" for g
  proof -
    from that consider "Freed g \<in> set (ca_trace st)" | "g = ?g" by (auto simp: tr)
    then show ?thesis
    proof cases
      case 1
      then show ?thesis using trace_okD(4,5) [OF t] by (auto simp: get st'(3))
    next
      case 2
      then show ?thesis using lease_okD(2,4) [OF l e] by (auto simp: get st'(3))
    qed
  qed
  ultimately show ?thesis by (simp add: trace_ok_def)
qed

section \<open>Making room\<close>

definition same_frame :: "cache \<Rightarrow> cache \<Rightarrow> bool" where
  "same_frame st st' \<longleftrightarrow>
     ca_records st' = ca_records st \<and> ca_leases st' = ca_leases st \<and>
     ca_generation st' = ca_generation st \<and> ca_closed st' = ca_closed st \<and>
     od_keys (ca_regions st') = od_keys (ca_regions st) \<and>
     (\<forall>k e. od_get (ca_entries st') k = Some e \<longrightarrow> od_get (ca_entries st) k = Some e) \<and>
     (\<forall>k e. od_get (ca_entries st) k = Some e \<longrightarrow> ce_users e \<noteq> 0 \<longrightarrow>
        od_get (ca_entries st') k = Some e)"

lemma same_frame_refl [simp]: "same_frame st st"
  by (simp add: same_frame_def)

lemma same_frame_trans: "same_frame a b \<Longrightarrow> same_frame b c \<Longrightarrow> same_frame a c"
  unfolding same_frame_def by (elim conjE, intro conjI; metis)

lemma evict_frame: "cache_evict st key = (st', Inr ()) \<Longrightarrow> same_frame st st'"
proof (erule cache_evict_Inr)
  fix e r r'
  assume h: "od_get (ca_entries st) key = Some e" "ce_users e = 0"
    "od_get (ca_regions st) (fst key) = Some r"
    "ca_records st' = ca_records st" "ca_regions st' = od_set (fst key) r' (ca_regions st)"
    "ca_entries st' = od_del key (od_set key (e\<lparr>ce_events := []\<rparr>) (ca_entries st))"
    "ca_generation st' = ca_generation st" "ca_closed st' = ca_closed st" "ca_leases st' = ca_leases st"
  have "fst key \<in> set (od_keys (ca_regions st))"
    using h(3) od_get_iff [of "ca_regions st" "fst key"] by auto
  then show ?thesis unfolding same_frame_def using h by (auto simp: od_keys_set)
qed

lemma alloc_arena:
  assumes ok: "arena_ok B Q None st" and rg: "od_get (ca_regions st) layer = Some rg"
    and al: "regions_allocate rg n = Inr (rg', Some ofs)" and n: "0 < n" "n mod ALIGN = 0"
  shows "arena_ok B Q (Some (layer, (ofs, n))) (st\<lparr>ca_regions := od_set layer rg' (ca_regions st)\<rparr>)"
proof -
  have inv: "arena_inv (B layer) (Q layer) rg" and own: "set (rg_allocated rg) = owned st layer"
    using arena_okD(2) [OF ok rg] by (simp_all add: pend_def)
  have n': "aligned n ALIGN = n" using n by (auto simp: aligned_def ALIGN_def)
  have a: "arena_inv (B layer) (Q layer) rg'" "set (rg_allocated rg') = insert (ofs, n) (owned st layer)"
      "\<forall>e \<in> owned st layer. ext_disj (ofs, n) e"
    using arena.alloc_Some [OF inv al] own n' by simp_all
  have new: "(ofs, m) \<notin> owned st layer" for m
  proof
    assume m: "(ofs, m) \<in> owned st layer"
    then obtain k e where "od_get (ca_entries st) k = Some e" "m = ce_size e" by (auto simp: owned_def)
    then have "0 < m" using arena_okD(3) [OF ok] by blast
    then show False using a(3) m n(1) by (auto simp: ext_disj_def)
  qed
  let ?st = "st\<lparr>ca_regions := od_set layer rg' (ca_regions st)\<rparr>"
  have own': "owned ?st l = owned st l" for l by (simp add: owned_def)
  have "arena_inv (B l) (Q l) r \<and> set (rg_allocated r) = owned ?st l \<union> pend (Some (layer, (ofs, n))) l"
    if "od_get (ca_regions ?st) l = Some r" for l r
    using that a(1,2) arena_okD(2) [OF ok] unfolding own' by (auto simp: pend_def split: if_splits)
  moreover have "od_get (ca_regions ?st) (fst k) \<noteq> None \<and> 0 < ce_size e"
    if "od_get (ca_entries ?st) k = Some e" for k e
    using that arena_okD(3) [OF ok] by simp
  moreover have "od_get (ca_regions ?st) l \<noteq> None \<and> (fst x, m) \<notin> owned ?st l"
    if "Some (layer, (ofs, n)) = Some (l, x)" for l x m
    using that new unfolding own' by auto
  ultimately show ?thesis
    unfolding arena_ok_def using arena_okD(1,4,6) [OF ok] by simp
qed

lemma make_room_ok:
  assumes "arena_ok B Q None st" and "lease_ok st" and "trace_ok st" and n: "0 < n" "n mod ALIGN = 0"
    and "make_room st layer n = (st', r)"
  shows "same_frame st st' \<and> lease_ok st' \<and> trace_ok st' \<and>
    (case r of
       Inr ofs \<Rightarrow> arena_ok B Q (Some (layer, (ofs, n))) st'
     | Inl x \<Rightarrow> arena_ok B Q None st' \<and>
         (x = CacheBusy \<longrightarrow> victim st' layer = None \<and>
           (\<exists>rg. od_get (ca_regions st') layer = Some rg \<and> regions_allocate rg n = Inr (rg, None))))"
  using assms(1-3,6) n
proof (induction st layer n rule: make_room.induct)
  case (1 st layer n)
  note n = "1.prems"(5,6)
  show ?case
  proof (cases "od_get (ca_regions st) layer")
    case None
    then show ?thesis using "1.prems" by (auto simp: make_room.simps)
  next
    case (Some rg)
    obtain y where y: "regions_allocate rg n = Inr y"
      using regions_allocate_ok [OF n(1), of rg] unfolding is_ok_iff by blast
    obtain rg' o' where ro: "y = (rg', o')" by (cases y)
    show ?thesis
    proof (cases o')
      case (Some ofs)
      with y ro have al: "regions_allocate rg n = Inr (rg', Some ofs)" by simp
      have r: "r = Inr ofs" "st' = st\<lparr>ca_regions := od_set layer rg' (ca_regions st)\<rparr>"
        using "1.prems"(4) al \<open>od_get (ca_regions st) layer = Some rg\<close>
        by (simp_all add: make_room.simps)
      have "layer \<in> set (od_keys (ca_regions st))"
        using \<open>od_get (ca_regions st) layer = Some rg\<close> od_get_iff [of "ca_regions st" layer] by auto
      then have "same_frame st st'" by (simp add: r same_frame_def od_keys_set)
      moreover have "lease_ok st'" using "1.prems"(2) by (simp add: r lease_ok_def leases_on_def)
      moreover have "trace_ok st'" using "1.prems"(3) by (simp add: r trace_ok_def)
      ultimately show ?thesis
        using alloc_arena [OF "1.prems"(1) \<open>od_get (ca_regions st) layer = Some rg\<close> al n] by (simp add: r)
    next
      case None
      then have no: "regions_allocate rg n = Inr (rg, None)" using y ro arena.alloc_None by auto
      show ?thesis
      proof (cases "victim st layer")
        case None
        then show ?thesis using "1.prems" Some no by (auto simp: make_room.simps)
      next
        case (Some k)
        obtain st1 r1 where ev: "cache_evict st k = (st1, r1)" by (cases "cache_evict st k")
        note ea = evict_arena [OF "1.prems"(1) ev]
        show ?thesis
        proof (cases r1)
          case (Inl x)
          have ne: "x \<noteq> CacheBusy"
          proof -
            have "\<exists>e. od_get (ca_entries st) k = Some e \<and> ce_users e = 0"
              using victim_Some [OF Some arena_okD(1) [OF "1.prems"(1)]] by blast
            then show ?thesis using ev Inl
              by (auto simp: cache_evict_def Let_def regions_release_def split: option.splits)
          qed
          have "make_room st layer n = (st1, Inl x)"
            unfolding make_room.simps [of st]
            by (simp add: \<open>od_get (ca_regions st) layer = Some rg\<close> no Some ev Inl)
          then have "st' = st1" "r = Inl x" using "1.prems"(4) by simp_all
          moreover have "st1 = st" using ea Inl by simp
          ultimately show ?thesis using "1.prems"(1-3) ne by simp
        next
          case (Inr u)
          then have ev': "cache_evict st k = (st1, Inr ())" using ev by simp
          have step: "make_room st layer n = make_room st1 layer n"
            unfolding make_room.simps [of st]
            by (simp add: \<open>od_get (ca_regions st) layer = Some rg\<close> no Some ev' del: make_room.simps)
          have p: "arena_ok B Q None st1" "lease_ok st1" "trace_ok st1" "make_room st1 layer n = (st', r)"
            using ea evict_history [OF "1.prems"(2,3) ev'] "1.prems"(4) unfolding step by blast+
          have "same_frame st1 st' \<and> lease_ok st' \<and> trace_ok st' \<and>
            (case r of
               Inr ofs \<Rightarrow> arena_ok B Q (Some (layer, (ofs, n))) st'
             | Inl x \<Rightarrow> arena_ok B Q None st' \<and>
                 (x = CacheBusy \<longrightarrow> victim st' layer = None \<and>
                   (\<exists>rg. od_get (ca_regions st') layer = Some rg \<and> regions_allocate rg n = Inr (rg, None))))"
            by (rule "1.IH" [OF \<open>od_get (ca_regions st) layer = Some rg\<close> no refl refl Some ev' [symmetric] refl])
              (fact p n)+
          then show ?thesis using same_frame_trans [OF evict_frame [OF ev']] by blast
        qed
      qed
    qed
  qed
qed

section \<open>Loading\<close>

lemma pending_alloc:
  assumes "arena_ok B Q (Some (l, (ofs, n))) st" and "od_get (ca_regions st) l = Some r"
  shows "(ofs, n) \<in> set (rg_allocated r)" "(ofs, m) \<notin> owned st l"
  using arena_okD(2,5) [OF assms(1)] assms(2) by (auto simp: pend_def)

lemma release_pending:
  assumes ok: "arena_ok B Q (Some (l, (ofs, n))) st" and r: "od_get (ca_regions st) l = Some r"
  shows "\<exists>r'. regions_release r ofs = Inr r' \<and>
    arena_ok B Q None (st\<lparr>ca_regions := od_set l r' (ca_regions st)\<rparr>)"
proof -
  note inv = arena_okD(2) [OF ok r]
  obtain r' where r': "regions_release r ofs = Inr r'" "arena_inv (B l) (Q l) r'"
      "set (rg_allocated r') = set (rg_allocated r) - {(ofs, n)}"
    using arena.rel_ok [OF _ pending_alloc(1) [OF ok r]] inv by blast
  let ?st = "st\<lparr>ca_regions := od_set l r' (ca_regions st)\<rparr>"
  have own: "owned ?st k = owned st k" for k by (simp add: owned_def)
  have "set (rg_allocated r') = owned st l"
    using r'(3) inv pending_alloc(2) [OF ok r] by (auto simp: pend_def)
  then have "arena_inv (B k) (Q k) a \<and> set (rg_allocated a) = owned ?st k \<union> pend None k"
    if "od_get (ca_regions ?st) k = Some a" for k a
    using that r'(2) arena_okD(2) [OF ok] unfolding own by (auto simp: pend_def split: if_splits)
  moreover have "od_get (ca_regions ?st) (fst k) \<noteq> None \<and> 0 < ce_size e"
    if "od_get (ca_entries ?st) k = Some e" for k e
    using that arena_okD(3) [OF ok] by simp
  ultimately have "arena_ok B Q None ?st"
    unfolding arena_ok_def using arena_okD(1,4,6) [OF ok] by simp
  then show ?thesis using r'(1) by blast
qed

lemma add_entry_arena:
  assumes ok: "arena_ok B Q (Some (fst key, (ofs, n))) st" and new: "od_get (ca_entries st) key = None"
    and n: "0 < n" and e: "ce_offset e = ofs" "ce_size e = n"
    and st': "ca_entries st' = od_set key e (ca_entries st)" "ca_regions st' = ca_regions st"
      "ca_resident_bytes st' = ca_resident_bytes st + n"
  shows "arena_ok B Q None st'"
proof -
  have np: "(ofs, m) \<notin> owned st (fst key)" for m using arena_okD(5) [OF ok, of "fst key" "(ofs, n)"] by simp
  have noff: "ce_offset e' \<noteq> ofs" if "od_get (ca_entries st) k' = Some e'" "fst k' = fst key" for k' e'
    using np owned_I [OF that(1)] that(2) by metis
  have own: "owned st' l = owned st l \<union> pend (Some (fst key, (ofs, n))) l" for l
  proof (rule set_eqI, rule iffI)
    fix x assume "x \<in> owned st' l"
    then show "x \<in> owned st l \<union> pend (Some (fst key, (ofs, n))) l"
      unfolding owned_def pend_def using e by (auto simp: st' split: if_splits)
  next
    fix x assume "x \<in> owned st l \<union> pend (Some (fst key, (ofs, n))) l"
    then consider k e' where "od_get (ca_entries st) k = Some e'" "fst k = l" "x = (ce_offset e', ce_size e')"
      | "l = fst key" "x = (ofs, n)"
      unfolding owned_def pend_def by auto
    then show "x \<in> owned st' l"
    proof cases
      case 1
      then have "od_get (ca_entries st') k = Some e'" using new by (auto simp: st')
      from owned_I [OF this] 1 show ?thesis by simp
    next
      case 2
      have "od_get (ca_entries st') key = Some e" by (simp add: st')
      from owned_I [OF this] 2 e show ?thesis by simp
    qed
  qed
  have "od_get (ca_regions st) (fst key) \<noteq> None" using arena_okD(5) [OF ok] by blast
  then have "od_get (ca_regions st') (fst k) \<noteq> None \<and> 0 < ce_size a \<and>
      (\<forall>k' e'. od_get (ca_entries st') k' = Some e' \<longrightarrow> fst k' = fst k \<longrightarrow>
        ce_offset e' = ce_offset a \<longrightarrow> k' = k)"
    if a: "od_get (ca_entries st') k = Some a" for k a
  proof (cases "k = key")
    case True
    then have "a = e" using a by (simp add: st')
    then show ?thesis using True n e noff \<open>od_get (ca_regions st) (fst key) \<noteq> None\<close>
      unfolding st' by (metis od_get_set)
  next
    case False
    then have a': "od_get (ca_entries st) k = Some a" using a by (simp add: st')
    have "k' = k" if "od_get (ca_entries st') k' = Some e'" "fst k' = fst k" "ce_offset e' = ce_offset a"
      for k' e'
    proof (cases "k' = key")
      case True
      then have "ce_offset a = ofs" using that e by (simp add: st')
      then show ?thesis using noff [OF a'] that(2) True by simp
    next
      case False
      then show ?thesis using that arena_okD(4) [OF ok a', of k' e'] by (simp add: st')
    qed
    then show ?thesis using arena_okD(3) [OF ok a'] by (simp add: st')
  qed
  moreover have "arena_inv (B l) (Q l) r \<and> set (rg_allocated r) = owned st' l \<union> pend None l"
    if "od_get (ca_regions st') l = Some r" for l r
    using that arena_okD(2) [OF ok] own by (auto simp: st' pend_def)
  moreover have "ca_resident_bytes st' = od_sum ce_size (ca_entries st')"
    using arena_okD(1,6) [OF ok] new e by (simp add: st' od_sum_set)
  ultimately show ?thesis
    unfolding arena_ok_def using arena_okD(1) [OF ok] by (simp add: st')
qed

text \<open>A fresh residency starts with no user, no event and a generation never used before.\<close>

lemma add_entry_history:
  assumes l: "lease_ok st" and t: "trace_ok st" and new: "od_get (ca_entries st) key = None"
    and r: "od_get (ca_records st) key = Some r" and e: "ce_size e = er_bytes r" "ce_users e = 0"
      "ce_events e = []" "ce_generation e = ca_generation st + 1"
    and st': "ca_entries st' = od_set key e (ca_entries st)" "ca_generation st' = ca_generation st + 1"
      "ca_leases st' = ca_leases st" "ca_trace st' = ca_trace st" "ca_records st' = ca_records st"
  shows "lease_ok st' \<and> trace_ok st'"
proof
  have "ls_key x \<noteq> key" if "x \<in> set (ca_leases st)" for x
    using lease_okD(5) [OF l that] new by auto
  then have no: "leases_on st key = 0" by (simp add: leases_on_def filter_empty_conv)
  have old: "od_get (ca_entries st') k = Some a \<longleftrightarrow>
      (k = key \<and> a = e) \<or> (k \<noteq> key \<and> od_get (ca_entries st) k = Some a)" for k a
    by (auto simp: st')
  show "lease_ok st'"
    unfolding lease_ok_def
  proof (intro conjI allI impI ballI)
    fix k a assume "od_get (ca_entries st') k = Some a"
    then consider "k = key" "a = e" | "k \<noteq> key" "od_get (ca_entries st) k = Some a" using old by blast
    then show "ce_users a = int (leases_on st' k)" "ce_generation a \<le> ca_generation st'"
      "\<exists>r. od_get (ca_records st') k = Some r \<and> ce_size a = er_bytes r"
      using lease_okD(1-3) [OF l, of k a] no r e
      by (cases; fastforce simp: st'(2-) leases_on_def)+
  next
    fix k a k2 a2
    assume "od_get (ca_entries st') k = Some a" "od_get (ca_entries st') k2 = Some a2"
      "ce_generation a2 = ce_generation a"
    then show "k2 = k" using lease_okD(2,4) [OF l] e(4) unfolding old by fastforce
  next
    fix ls assume "ls \<in> set (ca_leases st')"
    then obtain a where a: "od_get (ca_entries st) (ls_key ls) = Some a" "ce_generation a = ls_generation ls"
      using lease_okD(5) [OF l] by (auto simp: st'(3))
    then show "\<exists>e. od_get (ca_entries st') (ls_key ls) = Some e \<and> ce_generation e = ls_generation ls"
      using new by (auto simp: st'(1))
  qed
  show "trace_ok st'"
    unfolding trace_ok_def st'(2,4)
  proof (intro conjI allI impI)
    show "safe_trace (ca_trace st)" by (rule trace_okD(1) [OF t])
  next
    fix g v assume rc: "Recorded g v \<in> set (ca_trace st)"
    show "g \<le> ca_generation st + 1" using trace_okD(2) [OF t rc] by simp
    from trace_okD(3) [OF t rc] show "Settled g v \<in> set (ca_trace st) \<or>
        (\<exists>k e. od_get (ca_entries st') k = Some e \<and> ce_generation e = g \<and> v \<in> set (ce_events e))"
      using new unfolding old by (metis option.distinct(1))
  next
    fix g k a assume f: "Freed g \<in> set (ca_trace st)"
    show "g \<le> ca_generation st + 1" using trace_okD(4) [OF t f] by simp
    assume "od_get (ca_entries st') k = Some a"
    then show "ce_generation a \<noteq> g"
      using trace_okD(4,5) [OF t f] e(4) unfolding old by fastforce
  qed
qed

section \<open>The invariant of the cache\<close>

definition recs_ok :: "(int \<Rightarrow> int) \<Rightarrow> cache \<Rightarrow> bool" where
  "recs_ok Q st \<longleftrightarrow>
     (\<forall>k r. od_get (ca_records st) k = Some r \<longrightarrow>
        0 < er_bytes r \<and> er_bytes r mod ALIGN = 0 \<and> er_bytes r \<le> Q (fst k) \<and>
        fst k \<in> set (od_keys (ca_regions st)))"

definition cache_inv :: "(int \<Rightarrow> int) \<Rightarrow> (int \<Rightarrow> int) \<Rightarrow> cache \<Rightarrow> bool" where
  "cache_inv B Q st \<longleftrightarrow> recs_ok Q st \<and> arena_ok B Q None st \<and> lease_ok st \<and> trace_ok st"

lemma cache_inv_closed [simp]: "cache_inv B Q (st\<lparr>ca_closed := c\<rparr>) = cache_inv B Q st"
  by (simp add: cache_inv_def recs_ok_def arena_ok_def lease_ok_def trace_ok_def
      owned_def leases_on_def)

lemma recs_ok_frame: "recs_ok Q st \<Longrightarrow> ca_records st' = ca_records st \<Longrightarrow>
    od_keys (ca_regions st') = od_keys (ca_regions st) \<Longrightarrow> recs_ok Q st'"
  by (simp add: recs_ok_def)

lemma bump_fields [simp]:
  "ca_records (bump f st) = ca_records st" "ca_regions (bump f st) = ca_regions st"
  "ca_entries (bump f st) = ca_entries st" "ca_generation (bump f st) = ca_generation st"
  "ca_resident_bytes (bump f st) = ca_resident_bytes st" "ca_closed (bump f st) = ca_closed st"
  "ca_events_made (bump f st) = ca_events_made st" "ca_trace (bump f st) = ca_trace st"
  "ca_leases (bump f st) = ca_leases st"
  by (simp_all add: bump_def)

lemma cache_inv_bump [simp]: "cache_inv B Q (bump f st) = cache_inv B Q st"
  by (simp add: cache_inv_def recs_ok_def arena_ok_def lease_ok_def trace_ok_def bump_def
      owned_def leases_on_def)

lemma evict_inv:
  assumes inv: "cache_inv B Q st" and ev: "cache_evict st key = (st', r)"
  shows "cache_inv B Q st'"
proof (cases r)
  case (Inl x)
  then show ?thesis using evict_arena [OF _ ev] inv by (auto simp: cache_inv_def)
next
  case (Inr u)
  then have ev': "cache_evict st key = (st', Inr ())" using ev by simp
  have "recs_ok Q st'"
    by (rule recs_ok_frame) (use inv evict_frame [OF ev'] in \<open>auto simp: cache_inv_def same_frame_def\<close>)
  then show ?thesis using evict_arena [OF _ ev] evict_history [OF _ _ ev'] inv
    by (auto simp: cache_inv_def)
qed

lemma od_keys_set_present: "od_get d k \<noteq> None \<Longrightarrow> od_keys (od_set k v d) = od_keys d"
  by (simp add: od_keys_set od_get_iff)

lemma load_inv:
  assumes inv: "cache_inv B Q st" and new: "od_get (ca_entries st) key = None"
    and ld: "cache_load st key gate_ok outcome = (st', r)"
  shows "cache_inv B Q st' \<and> ca_closed st' = ca_closed st \<and> ca_leases st' = ca_leases st \<and>
    (\<forall>e. r = Inr e \<longrightarrow> od_get (ca_entries st') key = Some e \<and> ce_users e = 0)"
proof (cases "od_get (ca_records st) key")
  case None
  then show ?thesis using inv ld by (auto simp: cache_load_def split: if_splits)
next
  case (Some rec)
  let ?n = "er_bytes rec"
  have n: "0 < ?n" "?n mod ALIGN = 0" using inv Some unfolding cache_inv_def recs_ok_def by blast+
  obtain st1 r1 where mr: "make_room st (fst key) ?n = (st1, r1)" by (cases "make_room st (fst key) ?n")
  have m: "same_frame st st1 \<and> lease_ok st1 \<and> trace_ok st1 \<and>
    (case r1 of
       Inr ofs \<Rightarrow> arena_ok B Q (Some (fst key, (ofs, ?n))) st1
     | Inl x \<Rightarrow> arena_ok B Q None st1 \<and>
         (x = CacheBusy \<longrightarrow> victim st1 (fst key) = None \<and>
           (\<exists>rg. od_get (ca_regions st1) (fst key) = Some rg \<and> regions_allocate rg ?n = Inr (rg, None))))"
    by (rule make_room_ok [OF _ _ _ n mr]) (use inv in \<open>simp_all add: cache_inv_def\<close>)
  then have sf: "same_frame st st1" by blast
  have "od_get (ca_entries st1) key = None"
  proof (cases "od_get (ca_entries st1) key")
    case (Some a)
    then have "od_get (ca_entries st) key = Some a" using sf unfolding same_frame_def by blast
    then show ?thesis using new by simp
  qed
  then have fr: "ca_records st1 = ca_records st" "od_keys (ca_regions st1) = od_keys (ca_regions st)"
      "ca_closed st1 = ca_closed st" "ca_leases st1 = ca_leases st"
      "od_get (ca_entries st1) key = None"
    using sf unfolding same_frame_def by blast+
  have ro: "recs_ok Q st1" by (rule recs_ok_frame [OF _ fr(1,2)]) (use inv in \<open>simp add: cache_inv_def\<close>)
  show ?thesis
  proof (cases "gate_ok")
    case False
    then show ?thesis using inv ld by (auto simp: cache_load_def)
  next
    case gate: True
    show ?thesis
    proof (cases r1)
      case (Inl x)
      then have "st' = st1" "r = Inl x" using ld gate Some mr by (simp_all add: cache_load_def)
      moreover have "arena_ok B Q None st1" "lease_ok st1" "trace_ok st1" using m Inl by simp_all
      ultimately show ?thesis using ro fr(3,4) by (simp add: cache_inv_def)
    next
      case (Inr ofs)
      then have ok: "arena_ok B Q (Some (fst key, (ofs, ?n))) st1" using m by simp
      show ?thesis
      proof (cases outcome)
        case LoadOk
        let ?e = "\<lparr>ce_offset = ofs, ce_size = ?n, ce_generation = ca_generation st1 + 1,
          ce_users = 0, ce_events = []\<rparr>"
        let ?st = "st1\<lparr>ca_generation := ca_generation st1 + 1, ca_entries := od_set key ?e (ca_entries st1),
          ca_resident_bytes := ca_resident_bytes st1 + ?n\<rparr>"
        have r: "r = Inr ?e" and st': "\<exists>f. st' = bump f ?st"
          using ld gate Some mr Inr LoadOk by (auto simp: cache_load_def Let_def)
        have "arena_ok B Q None ?st"
          by (rule add_entry_arena [OF ok fr(5) n(1), of ?e]) simp_all
        moreover have "lease_ok ?st \<and> trace_ok ?st"
          by (rule add_entry_history [of st1 key rec ?e]) (use m fr Some in simp_all)
        moreover have "recs_ok Q ?st" by (rule recs_ok_frame [OF ro]) simp_all
        ultimately have "cache_inv B Q ?st" by (simp add: cache_inv_def)
        moreover have "ca_closed ?st = ca_closed st" "ca_leases ?st = ca_leases st"
          "od_get (ca_entries ?st) key = Some ?e" using fr(3,4) by simp_all
        ultimately show ?thesis using r st' by auto
      next
        case (LoadRaises x)
        obtain rg where rg: "od_get (ca_regions st1) (fst key) = Some rg"
          using arena_okD(5) [OF ok, of "fst key" "(ofs, ?n)"] by auto
        obtain rg' where rl: "regions_release rg ofs = Inr rg'"
            "arena_ok B Q None (st1\<lparr>ca_regions := od_set (fst key) rg' (ca_regions st1)\<rparr>)"
          using release_pending [OF ok rg] by blast
        let ?st = "st1\<lparr>ca_regions := od_set (fst key) rg' (ca_regions st1)\<rparr>"
        have r: "r = Inl x" and st': "\<exists>f. st' = bump f ?st"
          using ld gate Some mr Inr LoadRaises rg rl(1) by (auto simp: cache_load_def)
        have "recs_ok Q ?st"
          by (rule recs_ok_frame [OF ro]) (simp_all add: od_keys_set_present rg)
        moreover have "lease_ok ?st" "trace_ok ?st"
          using m by (simp_all add: lease_ok_def trace_ok_def leases_on_def)
        ultimately have "cache_inv B Q ?st" using rl(2) by (simp add: cache_inv_def)
        moreover have "ca_closed ?st = ca_closed st" "ca_leases ?st = ca_leases st"
          using fr(3,4) by simp_all
        ultimately show ?thesis using r st' by auto
      qed
    qed
  qed
qed

section \<open>Leases\<close>

text \<open>Expert keys are pairs that the proofs treat as opaque.\<close>

declare split_paired_All [simp del] split_paired_Ex [simp del]

text \<open>
  One entry is replaced by another with the same extent and generation: a lease is entered
  or left, or events are dropped or added.
\<close>

definition replaces :: "cache \<Rightarrow> expert_key \<Rightarrow> centry \<Rightarrow> centry \<Rightarrow> cache \<Rightarrow> bool" where
  "replaces st key e e2 st' \<longleftrightarrow>
     od_get (ca_entries st) key = Some e \<and>
     od_get (ca_entries st') = (od_get (ca_entries st))(key \<mapsto> e2) \<and>
     ce_generation e2 = ce_generation e \<and> ce_size e2 = ce_size e \<and> ce_offset e2 = ce_offset e \<and>
     od_ok (ca_entries st') \<and> od_sum ce_size (ca_entries st') = od_sum ce_size (ca_entries st) \<and>
     ca_regions st' = ca_regions st \<and> ca_resident_bytes st' = ca_resident_bytes st \<and>
     ca_records st' = ca_records st \<and> ca_generation st' = ca_generation st"

lemma replaces_arena:
  assumes "replaces st key e e2 st'" and "arena_ok B Q P st"
  shows "arena_ok B Q P st'"
proof (rule arena_ok_frame [OF assms(2)])
  fix k
  show "map_option (\<lambda>e. (ce_offset e, ce_size e)) (od_get (ca_entries st') k) =
      map_option (\<lambda>e. (ce_offset e, ce_size e)) (od_get (ca_entries st) k)"
    using assms(1) by (simp add: replaces_def)
qed (use assms(1) in \<open>simp_all add: replaces_def\<close>)

lemma replaces_get:
  "replaces st key e e2 st' \<Longrightarrow> od_get (ca_entries st') k = Some a \<longleftrightarrow>
     (k = key \<and> a = e2) \<or> (k \<noteq> key \<and> od_get (ca_entries st) k = Some a)"
  unfolding replaces_def by (auto simp: split: if_splits)

lemma replaces_lease:
  assumes r: "replaces st key e e2 st'" and l: "lease_ok st"
    and "ce_users e2 = int (leases_on st' key)"
    and "\<And>k. k \<noteq> key \<Longrightarrow> leases_on st' k = leases_on st k"
    and new: "\<And>x. x \<in> set (ca_leases st') \<Longrightarrow>
      x \<in> set (ca_leases st) \<or> (ls_key x = key \<and> ls_generation x = ce_generation e)"
  shows "lease_ok st'"
proof -
  have e: "od_get (ca_entries st) key = Some e" and eq: "ce_generation e2 = ce_generation e"
      "ce_size e2 = ce_size e" "ca_records st' = ca_records st" "ca_generation st' = ca_generation st"
    using r by (simp_all add: replaces_def)
  note old = replaces_get [OF r]
  show ?thesis
    unfolding lease_ok_def
  proof (intro conjI allI impI ballI)
    fix k a assume "od_get (ca_entries st') k = Some a"
    then consider "k = key" "a = e2" | "k \<noteq> key" "od_get (ca_entries st) k = Some a" unfolding old by blast
    then have "ce_users a = int (leases_on st' k) \<and> ce_generation a \<le> ca_generation st' \<and>
        (\<exists>r. od_get (ca_records st') k = Some r \<and> ce_size a = er_bytes r)"
    proof cases
      case 1
      then show ?thesis using lease_okD(2,3) [OF l e] assms(3) by (simp add: eq)
    next
      case 2
      then show ?thesis using lease_okD(1-3) [OF l 2(2)] assms(4) by (simp add: eq)
    qed
    then show "ce_users a = int (leases_on st' k)" "ce_generation a \<le> ca_generation st'"
      "\<exists>r. od_get (ca_records st') k = Some r \<and> ce_size a = er_bytes r" by blast+
  next
    fix k a k2 a2
    assume "od_get (ca_entries st') k = Some a" "od_get (ca_entries st') k2 = Some a2"
      "ce_generation a2 = ce_generation a"
    then show "k2 = k" using lease_okD(4) [OF l] e eq(1) unfolding old by metis
  next
    fix x assume "x \<in> set (ca_leases st')"
    from new [OF this]
    have "\<exists>a. od_get (ca_entries st) (ls_key x) = Some a \<and> ce_generation a = ls_generation x"
      using lease_okD(5) [OF l] e by auto
    then show "\<exists>a. od_get (ca_entries st') (ls_key x) = Some a \<and> ce_generation a = ls_generation x"
      unfolding old using e eq(1) by (metis option.inject)
  qed
qed

lemma safe_trace_recorded: "safe_trace tr \<Longrightarrow> Freed g \<notin> set tr \<Longrightarrow> safe_trace (tr @ [Recorded g v])"
  by (rule safe_trace_snoc) auto

lemma replaces_trace:
  assumes r: "replaces st key e e2 st'" and l: "lease_ok st" and t: "trace_ok st"
    and tr: "ca_trace st' = ca_trace st @ acts"
    and acts: "(\<exists>vs. acts = map (Settled (ce_generation e)) vs) \<or>
      (\<exists>v. acts = [Recorded (ce_generation e) v] \<and> v \<in> set (ce_events e2))"
    and ev: "\<And>v. v \<in> set (ce_events e) \<Longrightarrow> v \<in> set (ce_events e2) \<or> Settled (ce_generation e) v \<in> set acts"
  shows "trace_ok st'"
proof -
  have e: "od_get (ca_entries st) key = Some e" and eq: "ce_generation e2 = ce_generation e"
      "ca_generation st' = ca_generation st"
    using r by (simp_all add: replaces_def)
  note old = replaces_get [OF r]
  have live: "Freed (ce_generation e) \<notin> set (ca_trace st)" using trace_okD(5) [OF t _ e] by blast
  have nofree: "Freed g \<in> set (ca_trace st') \<longleftrightarrow> Freed g \<in> set (ca_trace st)" for g
    using acts unfolding tr by auto
  have "safe_trace (ca_trace st')"
    using acts safe_trace_settled safe_trace_recorded [OF _ live] trace_okD(1) [OF t] unfolding tr by auto
  moreover have "g \<le> ca_generation st' \<and> (Settled g v \<in> set (ca_trace st') \<or>
      (\<exists>k a. od_get (ca_entries st') k = Some a \<and> ce_generation a = g \<and> v \<in> set (ce_events a)))"
    if "Recorded g v \<in> set (ca_trace st')" for g v
  proof -
    from that acts consider "Recorded g v \<in> set (ca_trace st)"
      | "g = ce_generation e" "v \<in> set (ce_events e2)" unfolding tr by auto
    then show ?thesis
    proof cases
      case 1
      from trace_okD(3) [OF t 1] show ?thesis
      proof
        assume "Settled g v \<in> set (ca_trace st)"
        then show ?thesis using trace_okD(2) [OF t 1] by (simp add: tr eq)
      next
        assume "\<exists>k a. od_get (ca_entries st) k = Some a \<and> ce_generation a = g \<and> v \<in> set (ce_events a)"
        then obtain k a where a: "od_get (ca_entries st) k = Some a" "ce_generation a = g"
          "v \<in> set (ce_events a)" by blast
        show ?thesis
        proof (cases "k = key")
          case True
          then have "a = e" using a e by simp
          with ev [of v] a consider "v \<in> set (ce_events e2)" | "Settled g v \<in> set acts" by blast
          then show ?thesis
          proof cases
            case 1
            moreover have "od_get (ca_entries st') key = Some e2" using r by (simp add: replaces_def)
            ultimately show ?thesis
              using trace_okD(2) [OF t \<open>Recorded g v \<in> set (ca_trace st)\<close>] a eq \<open>a = e\<close> by auto
          next
            case 2
            then show ?thesis using trace_okD(2) [OF t \<open>Recorded g v \<in> set (ca_trace st)\<close>]
              by (simp add: tr eq)
          qed
        next
          case False
          then have "od_get (ca_entries st') k = Some a" using a by (simp add: old)
          then show ?thesis using a trace_okD(2) [OF t 1] unfolding eq by blast
        qed
      qed
    next
      case 2
      moreover have "od_get (ca_entries st') key = Some e2" using r by (simp add: replaces_def)
      ultimately show ?thesis using lease_okD(2) [OF l e] eq by auto
    qed
  qed
  moreover have "g \<le> ca_generation st' \<and> (\<forall>k a. od_get (ca_entries st') k = Some a \<longrightarrow> ce_generation a \<noteq> g)"
    if "Freed g \<in> set (ca_trace st')" for g
    using that trace_okD(4,5) [OF t] e eq unfolding nofree old by metis
  ultimately show ?thesis unfolding trace_ok_def by blast
qed

lemma replaces_inv:
  assumes r: "replaces st key e e2 st'" and inv: "cache_inv B Q st"
    and "lease_ok st'" "trace_ok st'"
  shows "cache_inv B Q st'"
proof -
  have "recs_ok Q st'" by (rule recs_ok_frame [of Q st]) (use inv r in \<open>simp_all add: cache_inv_def replaces_def\<close>)
  then show ?thesis using assms replaces_arena [OF r] by (simp add: cache_inv_def)
qed

lemma take_lease_inv:
  assumes inv: "cache_inv B Q st" and e: "od_get (ca_entries st) key = Some e"
    and tl: "take_lease st key e stream = (st', r)"
  shows "cache_inv B Q st'"
proof -
  let ?l = "\<lparr>ls_key = key, ls_generation = ce_generation e, ls_stream = stream\<rparr>"
  let ?e2 = "e\<lparr>ce_users := ce_users e + 1\<rparr>"
  have st': "st' = st\<lparr>ca_entries := od_set key ?e2 (ca_entries st), ca_leases := ?l # ca_leases st\<rparr>"
    using tl by (simp add: take_lease_def Let_def)
  have l: "lease_ok st" and t: "trace_ok st" and a: "arena_ok B Q None st"
    using inv by (simp_all add: cache_inv_def)
  have r: "replaces st key e ?e2 st'"
    using arena_okD(1) [OF a] e by (simp add: replaces_def st' od_sum_set od_get_set_upd)
  have "lease_ok st'"
    by (rule replaces_lease [OF r l]) (use lease_okD(1) [OF l e] in \<open>auto simp: leases_on_def st'\<close>)
  moreover have "trace_ok st'"
    by (rule replaces_trace [OF r l t, of "[]"]) (simp_all add: st')
  ultimately show ?thesis by (rule replaces_inv [OF r inv])
qed

lemma lease_exit_inv:
  assumes inv: "cache_inv B Q st" and x: "x \<in> set (ca_leases st)" and ex: "lease_exit st x = (st', r)"
  shows "cache_inv B Q st' \<and> r = Inr ()"
proof -
  have l: "lease_ok st" and t: "trace_ok st" and a: "arena_ok B Q None st"
    using inv by (simp_all add: cache_inv_def)
  obtain e where e: "od_get (ca_entries st) (ls_key x) = Some e" "ce_generation e = ls_generation x"
    using lease_okD(5) [OF l x] by blast
  let ?v = "\<lparr>ev_id = ca_events_made st, ev_stream = ls_stream x\<rparr>"
  let ?e2 = "e\<lparr>ce_events := ce_events e @ [?v], ce_users := ce_users e - 1\<rparr>"
  have st': "st' = st\<lparr>ca_entries := od_set (ls_key x) ?e2 (ca_entries st),
      ca_events_made := Suc (ca_events_made st),
      ca_trace := ca_trace st @ [Recorded (ce_generation e) ?v],
      ca_leases := remove1 x (ca_leases st)\<rparr>" and ret: "r = Inr ()"
    using ex e by (simp_all add: lease_exit_def Let_def)
  have r: "replaces st (ls_key x) e ?e2 st'"
    using arena_okD(1) [OF a] e by (simp add: replaces_def st' od_sum_set od_get_set_upd)
  have cnt: "leases_on st' k = leases_on st k - (if k = ls_key x then 1 else 0)" for k
    using x by (auto simp: leases_on_def st' filter_remove1 length_remove1)
  have "lease_ok st'"
    by (rule replaces_lease [OF r l])
      (use lease_okD(1) [OF l e(1)] leases_on_pos [OF x] cnt in \<open>auto simp: st' dest: set_remove1_subset [THEN subsetD]\<close>)
  moreover have "trace_ok st'"
    by (rule replaces_trace [OF r l t, of "[Recorded (ce_generation e) ?v]"]) (auto simp: st')
  ultimately show ?thesis using replaces_inv [OF r inv] ret by blast
qed

lemma lease_enter_inv:
  assumes inv: "cache_inv B Q st" and en: "lease_enter st key cancelled gate_ok outcome completed stream = (st', r)"
  shows "cache_inv B Q st'"
proof (cases "ca_closed st \<or> key \<notin> set (od_keys (ca_records st)) \<or> cancelled")
  case True
  then show ?thesis using inv en by (auto simp: lease_enter_def split: if_splits)
next
  case ok: False
  show ?thesis
  proof (cases "od_get (ca_entries st) key")
    case None
    obtain st1 r1 where ld: "cache_load (bump (\<lambda>s. s\<lparr>st_misses := st_misses s + 1\<rparr>) st) key gate_ok outcome = (st1, r1)"
      by (cases "cache_load (bump (\<lambda>s. s\<lparr>st_misses := st_misses s + 1\<rparr>) st) key gate_ok outcome")
    have li: "cache_inv B Q st1 \<and> (\<forall>e. r1 = Inr e \<longrightarrow> od_get (ca_entries st1) key = Some e)"
      using load_inv [OF _ _ ld, of B Q] inv None by simp
    show ?thesis
    proof (cases r1)
      case (Inl x)
      then have "st' = st1" using en ok None ld by (simp add: lease_enter_def)
      then show ?thesis using li by simp
    next
      case (Inr e)
      then have "take_lease st1 key e stream = (st', r)" using en ok None ld by (simp add: lease_enter_def)
      then show ?thesis using take_lease_inv li Inr by blast
    qed
  next
    case (Some e)
    let ?e = "e\<lparr>ce_events := filter (\<lambda>v. ev_id v \<notin> completed) (ce_events e)\<rparr>"
    let ?acts = "map (Settled (ce_generation e)) (filter (\<lambda>v. ev_id v \<in> completed) (ce_events e))"
    let ?st = "(bump (\<lambda>s. s\<lparr>st_hits := st_hits s + 1\<rparr>) st)
      \<lparr>ca_entries := od_move_end key (od_set key ?e (ca_entries st)), ca_trace := ca_trace st @ ?acts\<rparr>"
    have tl: "take_lease ?st key ?e stream = (st', r)"
      using en ok Some by (simp add: lease_enter_def Let_def)
    have l: "lease_ok st" and t: "trace_ok st" and a: "arena_ok B Q None st"
      using inv by (simp_all add: cache_inv_def)
    have r: "replaces st key e ?e ?st"
      using arena_okD(1) [OF a] Some by (simp add: replaces_def od_sum_set od_get_set_upd od_get_move_end_same)
    have "lease_ok ?st"
      by (rule replaces_lease [OF r l]) (use lease_okD(1) [OF l Some] in \<open>auto simp: leases_on_def\<close>)
    moreover have "trace_ok ?st"
      by (rule replaces_trace [OF r l t, of ?acts]) auto
    ultimately have "cache_inv B Q ?st" by (rule replaces_inv [OF r inv])
    then show ?thesis by (rule take_lease_inv [OF _ _ tl]) simp
  qed
qed

lemma evict_all_inv: "cache_inv B Q st \<Longrightarrow> evict_all st ks = (st', r) \<Longrightarrow> cache_inv B Q st'"
proof (induction st ks rule: evict_all.induct)
  case (2 st k ks)
  obtain st1 r1 where ev: "cache_evict st k = (st1, r1)" by (cases "cache_evict st k")
  show ?case using 2 evict_inv [OF "2.prems"(1) ev] ev by (cases r1) auto
qed simp

lemma clear_inv: "cache_inv B Q st \<Longrightarrow> cache_clear st = (st', r) \<Longrightarrow> cache_inv B Q st'"
  by (auto simp: cache_clear_def split: if_splits dest: evict_all_inv)

lemma cache_step_inv:
  assumes inv: "cache_inv B Q st" and en: "cache_enabled st c"
  shows "cache_inv B Q (fst (cache_step st c))"
proof (cases c)
  case (LeaseEnter k cancelled gate outcome completed s)
  then show ?thesis using lease_enter_inv [OF inv]
    by (auto simp: cache_step_def split: prod.splits sum.splits)
next
  case (LeaseExit l)
  then show ?thesis using lease_exit_inv [OF inv] en
    by (auto simp: cache_step_def cache_enabled_def split: prod.splits sum.splits)
next
  case Clear
  then show ?thesis using clear_inv [OF inv]
    by (auto simp: cache_step_def split: prod.splits sum.splits)
next
  case Close
  obtain st1 r where c: "cache_clear st = (st1, r)" by (cases "cache_clear st")
  then have "cache_inv B Q st1" by (rule clear_inv [OF inv])
  then show ?thesis using Close c by (cases r) (simp_all add: cache_step_def cache_close_def)
qed

interpretation expert_cache: component cache_step "cache_inv B Q" cache_enabled for B Q
  by unfold_locales (rule cache_step_inv)

section \<open>The constructor\<close>

fun layer_base :: "int \<Rightarrow> (int \<times> int) list \<Rightarrow> int \<Rightarrow> int" where
  "layer_base b [] l = 0"
| "layer_base b ((k, s) # qs) l = (if l = k then b else layer_base (b + s) qs l)"

definition layer_quota :: "(int \<times> int) list \<Rightarrow> int \<Rightarrow> int" where
  "layer_quota qs l = (case map_of qs l of None \<Rightarrow> 0 | Some s \<Rightarrow> s)"

text \<open>The layers' arenas are disjoint intervals of one buffer.\<close>

definition disjoint_layers :: "int \<Rightarrow> int \<Rightarrow> (int \<Rightarrow> int) \<Rightarrow> (int \<Rightarrow> int) \<Rightarrow> bool" where
  "disjoint_layers lo hi B Q \<longleftrightarrow>
     (\<forall>l. 0 < Q l \<longrightarrow> lo \<le> B l \<and> B l + Q l \<le> hi) \<and>
     (\<forall>l m. l \<noteq> m \<longrightarrow> 0 < Q l \<longrightarrow> 0 < Q m \<longrightarrow> ext_disj (B l, Q l) (B m, Q m))"

lemma regions_new_Inr:
  "regions_new sz base = Inr r \<longleftrightarrow> 0 < sz \<and> sz mod ALIGN = 0 \<and> base mod ALIGN = 0 \<and>
     r = \<lparr>rg_free = [(base, sz)], rg_allocated = []\<rparr>"
  by (auto simp: regions_new_def)

lemma lay_regions_props:
  assumes "lay_regions base qs = Inr rs" and "distinct (map fst qs)"
  shows "od_keys rs = map fst qs \<and> (\<forall>l s. (l, s) \<in> set qs \<longrightarrow> 0 < s) \<and>
    (\<forall>l r. od_get rs l = Some r \<longrightarrow> rg_allocated r = [] \<and>
      arena_inv (layer_base base qs l) (layer_quota qs l) r) \<and>
    disjoint_layers base (base + sum_list (map snd qs)) (layer_base base qs) (layer_quota qs)"
  using assms
proof (induction base qs arbitrary: rs rule: lay_regions.induct)
  case (1 base)
  then show ?case by (simp add: od_keys_def od_get_def disjoint_layers_def layer_quota_def)
next
  case (2 base layer sz qs)
  obtain r rs' where r: "regions_new sz base = Inr r" and rs': "lay_regions (base + sz) qs = Inr rs'"
    and rs: "rs = (layer, r) # rs'"
    using "2.prems"(1) by (auto simp: bind_res_Inr)
  have new: "layer \<notin> fst ` set qs" using "2.prems"(2) by simp
  note ih = "2.IH" [OF r rs'] 
  have ih': "od_keys rs' = map fst qs \<and> (\<forall>l s. (l, s) \<in> set qs \<longrightarrow> 0 < s) \<and>
    (\<forall>l r. od_get rs' l = Some r \<longrightarrow> rg_allocated r = [] \<and>
      arena_inv (layer_base (base + sz) qs l) (layer_quota qs l) r) \<and>
    disjoint_layers (base + sz) (base + sz + sum_list (map snd qs)) (layer_base (base + sz) qs) (layer_quota qs)"
    using ih "2.prems"(2) by simp
  have sz: "0 < sz" using r by (simp add: regions_new_Inr)
  have inv: "rg_allocated r = [] \<and> arena_inv base sz r"
    using r regions_new_inv by (simp add: regions_new_Inr)
  have nn: "0 \<le> sum_list (map snd qs)"
    using ih' by (intro sum_list_nonneg) fastforce
  have q: "layer_quota ((layer, sz) # qs) l = (if l = layer then sz else layer_quota qs l)" for l
    by (simp add: layer_quota_def)
  have "disjoint_layers base (base + (sz + sum_list (map snd qs)))
      (layer_base base ((layer, sz) # qs)) (layer_quota ((layer, sz) # qs))"
    (is ?dl) using ih' sz nn unfolding disjoint_layers_def by (simp add: q ext_disj_def) (smt (verit))
  moreover have "od_get rs l = (if l = layer then Some r else od_get rs' l)" for l
    by (simp add: rs od_get_def)
  ultimately have "\<forall>l r. od_get rs l = Some r \<longrightarrow> rg_allocated r = [] \<and>
      arena_inv (layer_base base ((layer, sz) # qs) l) (layer_quota ((layer, sz) # qs) l) r"
    using ih' inv by (auto simp: q)
  moreover have "od_keys rs = map fst ((layer, sz) # qs)" using ih' by (simp add: rs od_keys_def)
  moreover have "\<forall>l s. (l, s) \<in> set ((layer, sz) # qs) \<longrightarrow> 0 < s" using ih' sz by auto
  ultimately show ?case using \<open>?dl\<close> by (simp del: layer_base.simps)
qed

lemma distinct_sort_keys: "distinct (map fst (sort d)) = distinct (map fst (d :: (int \<times> int) list))"
  by (rule mset_eq_imp_distinct_iff) simp

lemma layer_quota_sort: "distinct (map fst d) \<Longrightarrow> layer_quota (sort d) = layer_quota d"
  unfolding layer_quota_def
  using map_of_inject_set [of "sort d" d] by (simp add: distinct_sort_keys)

lemma cache_new_inv:
  assumes new: "cache_new records cap quotas mem = Inr st"
    and recs: "\<forall>k r. od_get records k = Some r \<longrightarrow> 0 < er_bytes r \<and> er_bytes r mod ALIGN = 0"
    and dq: "\<forall>q. quotas = Some q \<longrightarrow> od_ok q"
  shows "\<exists>B Q. cache_inv B Q st \<and> disjoint_layers 0 cap B Q \<and> ca_closed st = False"
proof -
  let ?layers = "sort (remdups (map (\<lambda>kr. fst (fst kr)) records))"
  obtain q rs where q: "(case quotas of None \<Rightarrow> if length ?layers \<noteq> 1 then Inl ValueError
        else Inr [(hd ?layers, cap)] | Some q \<Rightarrow> Inr q) = (Inr q :: (int, int) odict res)"
    and keys: "set (od_keys q) = set ?layers" and sum: "sum_list (map snd q) = cap"
    and rs: "lay_regions 0 (sort q) = Inr rs" and big: "list_all (largest_fits records) q"
    and st: "ca_records st = records" "ca_regions st = rs" "ca_entries st = []" "ca_resident_bytes st = 0"
      "ca_closed st = False" "ca_trace st = []" "ca_leases st = []"
    using new by (auto simp: cache_new_def Let_def bind_res_Inr split: if_splits)
  have d: "distinct (map fst q)"
    using q dq by (auto simp: od_ok_def od_keys_def split: option.splits if_splits)
  let ?B = "layer_base 0 (sort q)" and ?Q = "layer_quota (sort q)"
  have sum': "sum_list (map snd (sort q)) = cap"
    using sum by (metis mset_map mset_sort sum_mset_sum_list)
  note lay = lay_regions_props [OF rs distinct_sort_keys [THEN iffD2, OF d]]
  have "disjoint_layers 0 cap ?B ?Q" using lay sum' by simp
  moreover have "arena_ok ?B ?Q None st"
    using lay by (simp add: arena_ok_def st od_ok_def od_keys_def owned_def pend_def od_get_def)
  moreover have "lease_ok st" "trace_ok st"
    by (simp_all add: lease_ok_def trace_ok_def st od_get_def)
  moreover have "recs_ok ?Q st"
    unfolding recs_ok_def
  proof (intro allI impI)
    fix k r assume k: "od_get (ca_records st) k = Some r"
    then have in_r: "(k, r) \<in> set records" by (simp add: st od_get_Some_in)
    then have "fst k \<in> set (od_keys q)" unfolding keys by force
    then obtain s where s: "(fst k, s) \<in> set q" by (auto simp: od_keys_def)
    then have "layer_quota q (fst k) = s" using d by (simp add: layer_quota_def)
    then have "?Q (fst k) = s" by (simp add: layer_quota_sort [OF d])
    moreover have "er_bytes r \<le> s" using big s in_r by (fastforce simp: list_all_iff largest_fits_def)
    moreover have "fst k \<in> set (od_keys (ca_regions st))"
      using lay s by (simp add: st) (metis fst_conv image_eqI)
    ultimately show "0 < er_bytes r \<and> er_bytes r mod ALIGN = 0 \<and> er_bytes r \<le> ?Q (fst k) \<and>
        fst k \<in> set (od_keys (ca_regions st))"
      using recs k by (simp add: st)
  qed
  ultimately show ?thesis using st(5) unfolding cache_inv_def by blast
qed

section \<open>What the invariant gives\<close>

lemma card_ext: "0 \<le> snd e \<Longrightarrow> int (card (ext_set e)) = snd e"
  by (cases e) simp

lemma disjoint_exts_sum:
  assumes "sorted_wrt ext_disj xs" and "\<forall>e \<in> set xs. 0 \<le> snd e"
  shows "int (card (\<Union>e \<in> set xs. ext_set e)) = sum_list (map snd xs)"
  using assms
proof (induction xs)
  case (Cons x xs)
  have "ext_set x \<inter> (\<Union>e \<in> set xs. ext_set e) = {}"
    using Cons.prems(1) ext_disj_Int by fastforce
  moreover have "finite (ext_set x)" "finite (\<Union>e \<in> set xs. ext_set e)"
    by (auto simp: ext_set_def)
  ultimately have "card (\<Union>e \<in> set (x # xs). ext_set e) =
      card (ext_set x) + card (\<Union>e \<in> set xs. ext_set e)"
    by (simp add: card_Un_disjoint)
  then show ?case using Cons card_ext [of x] by simp
qed simp

lemma entries_disjoint:
  assumes inv: "cache_inv B Q st" and dl: "disjoint_layers 0 cap B Q"
    and e: "od_get (ca_entries st) k = Some e" and e': "od_get (ca_entries st) k' = Some e'" and ne: "k \<noteq> k'"
  shows "ext_disj (ce_offset e, ce_size e) (ce_offset e', ce_size e')"
proof -
  have a: "arena_ok B Q None st" using inv by (simp add: cache_inv_def)
  obtain r where r: "od_get (ca_regions st) (fst k) = Some r" using arena_okD(3) [OF a e] by auto
  obtain r' where r': "od_get (ca_regions st) (fst k') = Some r'" using arena_okD(3) [OF a e'] by auto
  have own: "(ce_offset e, ce_size e) \<in> set (rg_allocated r)" "(ce_offset e', ce_size e') \<in> set (rg_allocated r')"
    using arena_okD(2) [OF a r] arena_okD(2) [OF a r'] owned_I [OF e] owned_I [OF e'] by blast+
  show ?thesis
  proof (cases "fst k = fst k'")
    case True
    have "ce_offset e \<noteq> ce_offset e'" using arena_okD(4) [OF a e' e] True ne by auto
    then show ?thesis using arena_invD(5) [of "B (fst k)" "Q (fst k)" r] arena_okD(2) [OF a r] own r r' True
      by auto
  next
    case False
    have "arena_inv (B (fst k)) (Q (fst k)) r" "arena_inv (B (fst k')) (Q (fst k')) r'"
      using arena_okD(2) [OF a r] arena_okD(2) [OF a r'] by auto
    from arena_alloc_within [OF this(1) own(1)] arena_alloc_within [OF this(2) own(2)]
    show ?thesis using dl False unfolding disjoint_layers_def ext_disj_def by fastforce
  qed
qed

text \<open>The state after any history of operations that starts with the constructor.\<close>

definition cache_history ::
  "(expert_key, expert_record) odict \<Rightarrow> int \<Rightarrow> (int, int) odict option \<Rightarrow> cop list \<Rightarrow> cache \<Rightarrow> bool"
where
  "cache_history records cap quotas ops st \<longleftrightarrow>
     list_all (\<lambda>(k, r). 0 < er_bytes r \<and> er_bytes r mod ALIGN = 0) records \<and>
     (case quotas of None \<Rightarrow> True | Some q \<Rightarrow> od_ok q) \<and>
     (case cache_new records cap quotas True of
        Inl x \<Rightarrow> False
      | Inr st0 \<Rightarrow> runs_ok cache_step cache_enabled st0 ops \<and> st = run_ops cache_step st0 ops)"

lemma cache_history_inv:
  assumes "cache_history records cap quotas ops st"
  obtains B Q where "cache_inv B Q st" "disjoint_layers 0 cap B Q"
proof -
  obtain st0 where new: "cache_new records cap quotas True = Inr st0"
    and run: "runs_ok cache_step cache_enabled st0 ops" "st = run_ops cache_step st0 ops"
    using assms by (auto simp: cache_history_def split: sum.splits)
  have "0 < er_bytes r \<and> er_bytes r mod ALIGN = 0" if "od_get records k = Some r" for k r
    using assms od_get_Some_in [OF that] by (auto simp: cache_history_def list_all_iff)
  moreover have "\<forall>q. quotas = Some q \<longrightarrow> od_ok q" using assms by (auto simp: cache_history_def)
  ultimately obtain B Q where "cache_inv B Q st0" "disjoint_layers 0 cap B Q"
    using cache_new_inv [OF new] by blast
  then show thesis using that expert_cache.run_inv [OF _ run(1)] run(2) by blast
qed

lemma entry_within:
  assumes inv: "cache_inv B Q st" and dl: "disjoint_layers 0 cap B Q"
    and e: "od_get (ca_entries st) k = Some e"
  shows "0 \<le> ce_offset e \<and> 0 < ce_size e \<and> ce_offset e + ce_size e \<le> cap"
proof -
  have a: "arena_ok B Q None st" using inv by (simp add: cache_inv_def)
  obtain r where r: "od_get (ca_regions st) (fst k) = Some r" using arena_okD(3) [OF a e] by auto
  have "(ce_offset e, ce_size e) \<in> set (rg_allocated r)"
    using arena_okD(2) [OF a r] owned_I [OF e] by blast
  then have w: "B (fst k) \<le> ce_offset e \<and> 0 < ce_size e \<and> ce_offset e + ce_size e \<le> B (fst k) + Q (fst k) \<and>
      0 < Q (fst k)"
    using arena_alloc_within arena_okD(2) [OF a r] by blast
  then have "0 \<le> B (fst k) \<and> B (fst k) + Q (fst k) \<le> cap" using dl unfolding disjoint_layers_def by blast
  then show ?thesis using w by linarith
qed

lemma sorted_wrt_pairwise:
  "distinct (map fst d) \<Longrightarrow> (\<And>k e k' e'. (k, e) \<in> set d \<Longrightarrow> (k', e') \<in> set d \<Longrightarrow> k \<noteq> k' \<Longrightarrow> R (f e) (f e')) \<Longrightarrow>
     sorted_wrt R (map (\<lambda>p. f (snd p)) d)"
proof (induction d)
  case (Cons p d)
  have "sorted_wrt R (map (\<lambda>p. f (snd p)) d)"
    using Cons.prems by (intro Cons.IH) (simp, metis list.set_intros(2))
  moreover have "R (f (snd p)) (f (snd q))" if "q \<in> set d" for q
    using Cons.prems(2) [of "fst p" "snd p" "fst q" "snd q"] Cons.prems(1) that by force
  ultimately show ?case by auto
qed simp

lemma resident_bounded:
  assumes inv: "cache_inv B Q st" and dl: "disjoint_layers 0 cap B Q" and cap: "0 \<le> cap"
  shows "0 \<le> ca_resident_bytes st \<and> ca_resident_bytes st \<le> cap"
proof -
  have a: "arena_ok B Q None st" using inv by (simp add: cache_inv_def)
  let ?xs = "map (\<lambda>p. (ce_offset (snd p), ce_size (snd p))) (ca_entries st)"
  have get: "od_get (ca_entries st) k = Some e" if "(k, e) \<in> set (ca_entries st)" for k e
    using od_get_in [OF arena_okD(1) [OF a] that] .
  have w: "\<forall>x \<in> set ?xs. 0 \<le> fst x \<and> 0 < snd x \<and> fst x + snd x \<le> cap"
    using entry_within [OF inv dl get] by auto
  have "sorted_wrt ext_disj ?xs"
  proof (rule sorted_wrt_pairwise [where f = "\<lambda>e. (ce_offset e, ce_size e)"])
    show "distinct (map fst (ca_entries st))"
      using arena_okD(1) [OF a] by (simp add: od_ok_def od_keys_def)
  qed (rule entries_disjoint [OF inv dl get get])
  moreover have "\<forall>e \<in> set ?xs. 0 \<le> snd e" using w by auto
  ultimately have c: "int (card (\<Union>e \<in> set ?xs. ext_set e)) = sum_list (map snd ?xs)"
    by (rule disjoint_exts_sum)
  have "(\<Union>e \<in> set ?xs. ext_set e) \<subseteq> {0..<cap}" using w by (fastforce simp: ext_set_def)
  then have "card (\<Union>e \<in> set ?xs. ext_set e) \<le> card {0..<cap}" by (intro card_mono) auto
  then have "sum_list (map snd ?xs) \<le> cap" using c cap by simp
  moreover have "ca_resident_bytes st = sum_list (map snd ?xs)"
    using arena_okD(6) [OF a] by (simp add: od_sum_def comp_def)
  ultimately show ?thesis using c by simp
qed

text \<open>Why an allocation can only fail with \<open>CacheBusy\<close> while somebody holds a lease.\<close>

lemma busy_leased:
  assumes inv: "cache_inv B Q st" and n: "0 < n" "n mod ALIGN = 0" "n \<le> Q layer"
    and mr: "make_room st layer n = (st', Inl CacheBusy)"
  shows "\<exists>l \<in> set (ca_leases st). fst (ls_key l) = layer"
proof -
  have m: "same_frame st st' \<and> lease_ok st' \<and> arena_ok B Q None st' \<and> victim st' layer = None \<and>
      (\<exists>rg. od_get (ca_regions st') layer = Some rg \<and> regions_allocate rg n = Inr (rg, None))"
    using make_room_ok [OF _ _ _ n(1,2) mr, of B Q] inv by (simp add: cache_inv_def)
  then obtain rg where rg: "od_get (ca_regions st') layer = Some rg" "regions_allocate rg n = Inr (rg, None)"
    by blast
  have a: "arena_ok B Q None st'" using m by blast
  have "set (rg_allocated rg) \<noteq> {}"
    using arena.alloc_empty [of "B layer" "Q layer" rg n rg] arena_okD(2) [OF a rg(1)] n rg(2) by blast
  then have "owned st' layer \<noteq> {}" using arena_okD(2) [OF a rg(1)] by (simp add: pend_def)
  then obtain k e where e: "od_get (ca_entries st') k = Some e" "fst k = layer" unfolding owned_def by blast
  have "ce_users e \<noteq> 0" by (rule victim_None [OF _ e]) (use m in simp)
  then have "leases_on st' k \<noteq> 0" using lease_okD(1) [OF _ e(1)] m by auto
  then have "\<exists>l \<in> set (ca_leases st'). ls_key l = k" by (auto simp: leases_on_def filter_empty_conv)
  then show ?thesis using e(2) m unfolding same_frame_def by metis
qed

section \<open>A concrete history\<close>

definition cache_demo_records :: "(expert_key, expert_record) odict" where
  "cache_demo_records = map (\<lambda>i. ((0, i), \<lparr>er_offset = i * 4096, er_bytes = 4096, er_tensors = [],
     er_sha256 = []\<rparr>)) [0, 1, 2]"

definition cache_demo_start :: cache where
  "cache_demo_start = (case cache_new cache_demo_records 8192 None True of Inr st \<Rightarrow> st | Inl x \<Rightarrow> undefined)"

definition cache_demo_lease :: "int \<Rightarrow> int \<Rightarrow> nat \<Rightarrow> lease" where
  "cache_demo_lease i g s = \<lparr>ls_key = (0, i), ls_generation = g, ls_stream = s\<rparr>"

definition cache_demo_ops :: "cop list" where
  "cache_demo_ops = [LeaseEnter (0, 0) False True LoadOk {} 5, LeaseExit (cache_demo_lease 0 1 5),
     LeaseEnter (0, 1) False True LoadOk {} 6, LeaseEnter (0, 2) False True LoadOk {} 5]"

definition demo_cache :: cache where
  "demo_cache = run_ops cache_step cache_demo_start cache_demo_ops"

lemma demo_history: "cache_history cache_demo_records 8192 None cache_demo_ops demo_cache"
proof -
  have "is_ok (cache_new cache_demo_records 8192 None True)" by code_simp
  then have "cache_new cache_demo_records 8192 None True = Inr cache_demo_start"
    by (auto simp: is_ok_iff cache_demo_start_def)
  moreover have "runs_ok cache_step cache_enabled cache_demo_start cache_demo_ops" by code_simp
  moreover have "list_all (\<lambda>(k, r). 0 < er_bytes r \<and> er_bytes r mod ALIGN = 0) cache_demo_records" by code_simp
  ultimately show ?thesis by (simp add: cache_history_def demo_cache_def)
qed

lemma demo_facts:
  "ca_leases demo_cache = [cache_demo_lease 2 3 5, cache_demo_lease 1 2 6]"
  "ca_trace demo_cache = [Recorded 1 \<lparr>ev_id = 0, ev_stream = 5\<rparr>, Settled 1 \<lparr>ev_id = 0, ev_stream = 5\<rparr>, Freed 1]"
  "snd (lease_enter demo_cache (0, 0) False True LoadOk {} 5) = Inl CacheBusy"
  by code_simp+
section \<open>Properties\<close>

text \<open>C16: in every state the cache can reach, the resident experts occupy pairwise disjoint
  byte ranges of the one arena buffer, and the \<open>resident_bytes\<close> counter is their total and never
  passes the configured capacity.\<close>

theorem cache_extents:
  assumes "cache_history records cap quotas ops st" and "0 \<le> cap"
  shows "(\<forall>k e. od_get (ca_entries st) k = Some e \<longrightarrow>
      0 \<le> ce_offset e \<and> ce_offset e + ce_size e \<le> cap \<and>
      (\<forall>k' e'. od_get (ca_entries st) k' = Some e' \<longrightarrow> k \<noteq> k' \<longrightarrow>
        ext_disj (ce_offset e, ce_size e) (ce_offset e', ce_size e'))) \<and>
    ca_resident_bytes st = od_sum ce_size (ca_entries st) \<and>
    0 \<le> ca_resident_bytes st \<and> ca_resident_bytes st \<le> cap"
proof -
  obtain B Q where inv: "cache_inv B Q st" and dl: "disjoint_layers 0 cap B Q"
    using assms(1) by (rule cache_history_inv)
  have "ca_resident_bytes st = od_sum ce_size (ca_entries st)"
    using inv arena_okD(6) by (auto simp: cache_inv_def)
  then show ?thesis
    using entry_within [OF inv dl] entries_disjoint [OF inv dl] resident_bounded [OF inv dl assms(2)]
    by blast
qed

lemma cache_extents_witness:
  "ca_resident_bytes demo_cache \<le> 8192 \<and>
   (\<exists>e e'. od_get (ca_entries demo_cache) (0, 1) = Some e \<and> od_get (ca_entries demo_cache) (0, 2) = Some e' \<and>
      ext_disj (ce_offset e, ce_size e) (ce_offset e', ce_size e'))"
proof -
  have "od_get (ca_entries demo_cache) (0, 1) \<noteq> None" "od_get (ca_entries demo_cache) (0, 2) \<noteq> None"
    by code_simp+
  then show ?thesis using cache_extents [OF demo_history] by fastforce
qed

text \<open>An outstanding lease pins its expert.  In every reachable state the entry of each lease
  that has been entered and not left is still in the cache, is the very residency the lease was
  given, counts the lease among its users, and its region has not been released.\<close>

theorem leases_pin_entries:
  assumes "cache_history records cap quotas ops st" and "l \<in> set (ca_leases st)"
  shows "\<exists>e. od_get (ca_entries st) (ls_key l) = Some e \<and> ce_generation e = ls_generation l \<and>
    0 < ce_users e \<and> Freed (ls_generation l) \<notin> set (ca_trace st)"
proof -
  obtain B Q where inv: "cache_inv B Q st" using assms(1) by (rule cache_history_inv)
  then have lk: "lease_ok st" and t: "trace_ok st" by (simp_all add: cache_inv_def)
  obtain e where e: "od_get (ca_entries st) (ls_key l) = Some e" "ce_generation e = ls_generation l"
    using lease_okD(5) [OF lk assms(2)] by blast
  have "0 < ce_users e" using lease_okD(1) [OF lk e(1)] leases_on_pos [OF assms(2)] by simp
  moreover have "Freed (ls_generation l) \<notin> set (ca_trace st)" using trace_okD(5) [OF t _ e(1)] e(2) by blast
  ultimately show ?thesis using e by blast
qed

lemma leases_pin_entries_witness:
  "\<exists>e. od_get (ca_entries demo_cache) (0, 2) = Some e \<and> 0 < ce_users e"
  using leases_pin_entries [OF demo_history, of "cache_demo_lease 2 3 5"]
  by (auto simp: demo_facts cache_demo_lease_def)

text \<open>C3: no region is reused under running kernels.  Whenever the region of a residency was
  released, every event that any lease of that residency ever recorded had been synchronized, or
  seen complete, before the release.\<close>

theorem reuse_after_events:
  assumes "cache_history records cap quotas ops st"
    and "i < length (ca_trace st)" and "ca_trace st ! i = Freed g"
    and "Recorded g v \<in> set (ca_trace st)"
  shows "Settled g v \<in> set (take i (ca_trace st))"
proof -
  obtain B Q where inv: "cache_inv B Q st" using assms(1) by (rule cache_history_inv)
  then have "safe_trace (ca_trace st)" using trace_okD(1) by (simp add: cache_inv_def)
  then show ?thesis using assms(2-4) unfolding safe_trace_def by blast
qed

lemma reuse_after_events_witness:
  "Settled 1 \<lparr>ev_id = 0, ev_stream = 5\<rparr> \<in> set (take 2 (ca_trace demo_cache))"
  by (rule reuse_after_events [OF demo_history, of 2 1]) (simp_all add: demo_facts)

text \<open>C17: the cache is busy only when it is in use.  A lease request can fail with
  \<open>CacheBusy\<close> (unless the load itself raised it) only while some lease on an expert of the same
  layer is outstanding: eviction always makes room otherwise.\<close>

theorem busy_only_when_leased:
  assumes "cache_history records cap quotas ops st"
    and en: "lease_enter st key cancelled gate_ok outcome completed stream = (st', Inl CacheBusy)"
    and "outcome \<noteq> LoadRaises CacheBusy"
  shows "\<exists>l \<in> set (ca_leases st). fst (ls_key l) = fst key"
proof -
  obtain B Q where inv: "cache_inv B Q st" using assms(1) by (rule cache_history_inv)
  let ?st = "bump (\<lambda>s. s\<lparr>st_misses := st_misses s + 1\<rparr>) st"
  have new: "od_get (ca_entries st) key = None"
    and ld: "cache_load ?st key gate_ok outcome = (st', Inl CacheBusy)"
    using en by (auto simp: lease_enter_def take_lease_def Let_def split: if_splits option.splits prod.splits sum.splits)
  obtain rec where rec: "od_get (ca_records st) key = Some rec" "gate_ok"
    using ld by (auto simp: cache_load_def split: if_splits option.splits)
  have n: "0 < er_bytes rec" "er_bytes rec mod ALIGN = 0" "er_bytes rec \<le> Q (fst key)"
    using inv rec(1) unfolding cache_inv_def recs_ok_def by blast+
  obtain st1 r1 where mr: "make_room ?st (fst key) (er_bytes rec) = (st1, r1)"
    by (cases "make_room ?st (fst key) (er_bytes rec)")
  have "cache_inv B Q ?st" using inv by simp
  then have m: "case r1 of Inr ofs \<Rightarrow> arena_ok B Q (Some (fst key, (ofs, er_bytes rec))) st1 | Inl x \<Rightarrow> True"
    using make_room_ok [OF _ _ _ n(1,2) mr, of B Q] by (cases r1) (simp_all add: cache_inv_def)
  have "r1 = Inl CacheBusy"
  proof (cases r1)
    case (Inl x)
    then show ?thesis using ld rec mr by (simp add: cache_load_def)
  next
    case (Inr ofs)
    obtain rg where rg: "od_get (ca_regions st1) (fst key) = Some rg"
      using m Inr arena_okD(5) [of B Q "Some (fst key, (ofs, er_bytes rec))" st1 "fst key"
          "(ofs, er_bytes rec)"] by auto
    obtain rg' where rl: "regions_release rg ofs = Inr rg'"
      using release_pending [OF _ rg] m Inr by fastforce
    show ?thesis using ld rec mr Inr rg rl assms(3)
      by (auto simp: cache_load_def Let_def split: load_result.splits)
  qed
  then show ?thesis
    using busy_leased [of B Q ?st "er_bytes rec" "fst key" st1] n mr \<open>cache_inv B Q ?st\<close> by simp
qed

lemma busy_only_when_leased_witness:
  "\<exists>l \<in> set (ca_leases demo_cache). fst (ls_key l) = 0"
  using busy_only_when_leased [OF demo_history, of "(0, 0)" False True LoadOk "{}" 5
      "fst (lease_enter demo_cache (0, 0) False True LoadOk {} 5)"] demo_facts(3)
  by (simp add: prod_eq_iff)

end
