(* ===== verification/Sched_Policy.thy ===== *)
theory Sched_Policy
  imports Py_Text "HOL-Library.Product_Lexorder"
begin

text \<open>
  Serving policies of \<open>src/vllm_exl3/exl3.py\<close> that are pure functions of their arguments
  and of the environment: the batch-adaptive speculative schedule, the confident prefix of
  the draft candidates, and the context-size check against a memory budget.
\<close>

section \<open>The speculative schedule\<close>

type_synonym sched_row = "int \<times> int \<times> int"

definition DEFAULT_SPECULATIVE_SCHEDULE :: "sched_row list" where
  "DEFAULT_SPECULATIVE_SCHEDULE = [(1, 4, 3), (5, 8, 2), (9, 16, 1)]"

fun sched_value :: "pyval \<Rightarrow> int option" where
  "sched_value (PInt n) = Some n"
| "sched_value (PStr s) = (if int_pattern (strip s) then py_int10 (strip s) else None)"
| "sched_value _ = None"

fun sched_entry :: "pyval \<Rightarrow> sched_row option" where
  "sched_entry (PSeq [a, b, c]) =
     (case (sched_value a, sched_value b, sched_value c) of
        (Some min_bs, Some max_bs, Some draft) \<Rightarrow>
          if min_bs < 1 \<or> max_bs < min_bs \<or> draft < 0 then None else Some (min_bs, max_bs, draft)
      | _ \<Rightarrow> None)"
| "sched_entry _ = None"

fun sched_entries :: "pyval list \<Rightarrow> sched_row list option" where
  "sched_entries [] = Some []"
| "sched_entries (v # vs) =
     (case (sched_entry v, sched_entries vs) of
        (Some e, Some es) \<Rightarrow> Some (e # es) | _ \<Rightarrow> None)"

fun no_overlap :: "sched_row list \<Rightarrow> bool" where
  "no_overlap (p # c # r) = (fst (snd p) < fst c \<and> no_overlap (c # r))"
| "no_overlap _ = True"

definition validated_schedule :: "pyval \<Rightarrow> sched_row list option" where
  "validated_schedule schedule =
     (case schedule of
        PSeq (v # vs) \<Rightarrow>
          (case sched_entries (v # vs) of
             None \<Rightarrow> None
           | Some es \<Rightarrow> let normalized = sort es in if no_overlap normalized then Some normalized else None)
      | _ \<Rightarrow> None)"

fun parse_fields :: "string \<Rightarrow> pyval option" where
  "parse_fields raw =
     (let fields = map strip (split_on (CHR '':'') raw) in
      if length fields \<noteq> 3 \<or> \<not> list_all (\<lambda>f. f \<noteq> []) fields then None
      else if list_all (\<lambda>f. py_int10 f \<noteq> None) fields
           then Some (PSeq (map (\<lambda>f. PInt (the (py_int10 f))) fields)) else None)"

fun parse_entries :: "string list \<Rightarrow> pyval list option" where
  "parse_entries [] = Some []"
| "parse_entries (r # rs) =
     (case (parse_fields r, parse_entries rs) of
        (Some e, Some es) \<Rightarrow> Some (e # es) | _ \<Rightarrow> None)"

definition parse_speculative_schedule :: "pyval \<Rightarrow> sched_row list" where
  "parse_speculative_schedule v =
     (case v of
        PStr s \<Rightarrow>
          if strip s = [] then DEFAULT_SPECULATIVE_SCHEDULE
          else (case parse_entries (split_on (CHR '','') s) of
                  None \<Rightarrow> DEFAULT_SPECULATIVE_SCHEDULE
                | Some es \<Rightarrow>
                    (case validated_schedule (PSeq es) of
                       None \<Rightarrow> DEFAULT_SPECULATIVE_SCHEDULE
                     | Some n \<Rightarrow> n))
      | _ \<Rightarrow> DEFAULT_SPECULATIVE_SCHEDULE)"

fun lookup_draft :: "int \<Rightarrow> sched_row list \<Rightarrow> int" where
  "lookup_draft bs [] = 0"
| "lookup_draft bs ((lo, hi, d) # r) = (if lo \<le> bs \<and> bs \<le> hi then d else lookup_draft bs r)"

text \<open>The schedule argument: absent, text, or a sequence; the environment when absent.\<close>

definition active_schedule :: "environ \<Rightarrow> pyval \<Rightarrow> sched_row list" where
  "active_schedule env schedule =
     (case schedule of
        PNone \<Rightarrow> (case env ''VLLM_EXL3_SPEC_SCHEDULE'' of
                   Some configured \<Rightarrow> parse_speculative_schedule (PStr configured)
                 | None \<Rightarrow> DEFAULT_SPECULATIVE_SCHEDULE)
      | PStr s \<Rightarrow> parse_speculative_schedule (PStr s)
      | v \<Rightarrow> (case validated_schedule v of
                None \<Rightarrow> DEFAULT_SPECULATIVE_SCHEDULE | Some n \<Rightarrow> n))"

text \<open>\<open>int(batch_size)\<close>: truncation of floats, text parsed, booleans counted.\<close>

fun to_int :: "pyval \<Rightarrow> int option" where
  "to_int (PInt n) = Some n"
| "to_int (PBool b) = Some (if b then 1 else 0)"
| "to_int (PFloat (Fin q)) = Some (if q < 0 then - \<lfloor>- q\<rfloor> else \<lfloor>q\<rfloor>)"
| "to_int (PStr s) = py_int10 s"
| "to_int _ = None"

definition get_speculative_draft_tokens :: "environ \<Rightarrow> pyval \<Rightarrow> pyval \<Rightarrow> int" where
  "get_speculative_draft_tokens env batch_size schedule =
     (case to_int batch_size of
        None \<Rightarrow> 0
      | Some bs \<Rightarrow> if bs \<le> 0 then 0 else lookup_draft bs (active_schedule env schedule))"

definition is_adaptive_verification_enabled :: "environ \<Rightarrow> bool" where
  "is_adaptive_verification_enabled env =
     (let value = (case env ''VLLM_EXL3_ADAPTIVE_VERIFICATION'' of None \<Rightarrow> [] | Some v \<Rightarrow> v) in
      lower (strip value) \<in> set [''1'', ''true'', ''yes'', ''on''])"

subsection \<open>What a valid schedule is\<close>

definition sched_ok :: "sched_row list \<Rightarrow> bool" where
  "sched_ok es \<longleftrightarrow> es \<noteq> [] \<and>
     (\<forall>(lo, hi, d) \<in> set es. 1 \<le> lo \<and> lo \<le> hi \<and> 0 \<le> d) \<and>
     sorted_wrt (\<lambda>p c. fst (snd p) < fst c) es"

lemma default_schedule_ok: "sched_ok DEFAULT_SPECULATIVE_SCHEDULE"
  by (simp add: sched_ok_def DEFAULT_SPECULATIVE_SCHEDULE_def)

lemma sched_entry_range: "sched_entry v = Some (lo, hi, d) \<Longrightarrow> 1 \<le> lo \<and> lo \<le> hi \<and> 0 \<le> d"
  by (induction v rule: sched_entry.induct) (auto split: option.splits if_splits)

lemma sched_entries_iff: "sched_entries vs = Some es \<longleftrightarrow> list_all2 (\<lambda>v e. sched_entry v = Some e) vs es"
proof (induction vs arbitrary: es)
  case (Cons v vs)
  show ?case
    by (cases "sched_entries vs"; cases "sched_entry v")
      (auto simp: list_all2_Cons1 Cons.IH [symmetric])
qed auto

lemma sched_entries_range:
  "sched_entries vs = Some es \<Longrightarrow> \<forall>(lo, hi, d) \<in> set es. 1 \<le> lo \<and> lo \<le> hi \<and> 0 \<le> d"
  unfolding sched_entries_iff
  by (induction vs es rule: list_all2_induct) (auto dest: sched_entry_range)

lemma no_overlap_sorted:
  "no_overlap es \<Longrightarrow> \<forall>(lo, hi, d) \<in> set es. lo \<le> hi \<Longrightarrow> sorted_wrt (\<lambda>p c. fst (snd p) < fst c) es"
proof (induction es rule: no_overlap.induct)
  case (1 p c r)
  then have s: "sorted_wrt (\<lambda>p c. fst (snd p) < fst c) (c # r)" by auto
  have "fst (snd p) < fst x" if "x \<in> set r" for x
  proof -
    have "fst (snd c) < fst x" using s that by auto
    moreover have "fst c \<le> fst (snd c)" using "1.prems"(2) by (cases c) auto
    ultimately show ?thesis using "1.prems"(1) by auto
  qed
  then show ?case using s "1.prems"(1) by auto
qed auto

lemma no_overlap_of_sorted: "sorted_wrt (\<lambda>p c. fst (snd p) < fst c) es \<Longrightarrow> no_overlap es"
  by (induction es rule: no_overlap.induct) auto

lemma validated_ok: "validated_schedule v = Some es \<Longrightarrow> sched_ok es"
proof -
  assume "validated_schedule v = Some es"
  then obtain w ws xs where v: "v = PSeq (w # ws)" "sched_entries (w # ws) = Some xs"
      "es = sort xs" "no_overlap es"
    by (auto simp: validated_schedule_def Let_def split: pyval.splits list.splits option.splits if_splits)
  have r: "\<forall>(lo, hi, d) \<in> set es. 1 \<le> lo \<and> lo \<le> hi \<and> 0 \<le> d"
    using sched_entries_range [OF v(2)] by (simp add: v(3))
  have "xs \<noteq> []" using v(2) by (auto split: option.splits)
  then have "es \<noteq> []" using v(3) by (metis set_empty set_sort)
  moreover have "sorted_wrt (\<lambda>p c. fst (snd p) < fst c) es"
    by (rule no_overlap_sorted [OF v(4)]) (use r in auto)
  ultimately show ?thesis using r by (simp add: sched_ok_def)
qed

lemma parse_ok: "sched_ok (parse_speculative_schedule v)"
  by (auto simp: parse_speculative_schedule_def default_schedule_ok validated_ok
      split: pyval.split option.split)

lemma active_ok: "sched_ok (active_schedule env v)"
  by (auto simp: active_schedule_def default_schedule_ok validated_ok parse_ok
      split: pyval.split option.split)

lemma lookup_draft_unique:
  "sorted_wrt (\<lambda>p c. fst (snd p) < fst c) es \<Longrightarrow> \<forall>(lo, hi, d) \<in> set es. lo \<le> hi \<Longrightarrow>
     (lo, hi, d) \<in> set es \<Longrightarrow> lo \<le> bs \<Longrightarrow> bs \<le> hi \<Longrightarrow> lookup_draft bs es = d"
  by (induction bs es rule: lookup_draft.induct) fastforce+

lemma lookup_draft_none:
  "\<forall>(lo, hi, d) \<in> set es. \<not> (lo \<le> bs \<and> bs \<le> hi) \<Longrightarrow> lookup_draft bs es = 0"
  by (induction bs es rule: lookup_draft.induct) auto

lemma sched_entries_map:
  "sched_entries vs =
     (if \<forall>v \<in> set vs. sched_entry v \<noteq> None then Some (map (\<lambda>v. the (sched_entry v)) vs) else None)"
  by (induction vs) (auto split: option.splits)

lemma sort_mset_cong: "mset xs = mset ys \<Longrightarrow> sort xs = sort ys" for xs :: "'a :: linorder list"
  by (metis mset_sort properties_for_sort sorted_sort)

lemma validated_perm:
  assumes "mset vs = mset vs'"
  shows "validated_schedule (PSeq vs) = validated_schedule (PSeq vs')"
proof -
  have s: "set vs = set vs'" using assms by (rule mset_eq_setD)
  have so: "sort (map (\<lambda>v. the (sched_entry v)) vs) = sort (map (\<lambda>v. the (sched_entry v)) vs')"
    by (rule sort_mset_cong) (simp add: assms)
  have "validated_schedule (PSeq ws) = (if ws = [] \<or> (\<exists>v \<in> set ws. sched_entry v = None) then None
      else let n = sort (map (\<lambda>v. the (sched_entry v)) ws) in if no_overlap n then Some n else None)" for ws
    unfolding validated_schedule_def sched_entries_map by (cases ws) (auto simp: Let_def)
  then show ?thesis using s so by (metis set_empty)
qed

section \<open>The confident prefix of the candidates\<close>

datatype probs = NotTensor | Scalar rat | Seq "rat list" | Batch "rat list list"

datatype kept_mask = SeqMask "bool list" | BatchMask "bool list list"

datatype kept_count = PyCount int | TensorCount int | TensorCounts "int list"

fun cumprod :: "int \<Rightarrow> int list \<Rightarrow> int list" where
  "cumprod acc [] = []"
| "cumprod acc (x # xs) = acc * x # cumprod (acc * x) xs"

definition confident_mask :: "rat \<Rightarrow> rat list \<Rightarrow> bool list" where
  "confident_mask threshold row =
     map (\<lambda>x. x \<noteq> 0) (cumprod 1 (map (\<lambda>p. if threshold \<le> p then 1 else 0) row))"

definition count_mask :: "bool list \<Rightarrow> int" where
  "count_mask msk = sum_list (map of_bool msk)"

definition threshold_value :: "(string \<Rightarrow> pyfloat option) \<Rightarrow> pyval \<Rightarrow> rat res" where
  "threshold_value py_float threshold =
     (case (case threshold of
              PInt n \<Rightarrow> Some (Fin (of_int n))
            | PFloat f \<Rightarrow> Some f
            | PStr s \<Rightarrow> py_float s
            | _ \<Rightarrow> None) of
        Some (Fin t) \<Rightarrow> if 0 \<le> t \<and> t \<le> 1 then Inr t else Inl ValueError
      | _ \<Rightarrow> Inl ValueError)"

definition filter_speculative_candidates ::
  "(string \<Rightarrow> pyfloat option) \<Rightarrow> probs \<Rightarrow> pyval \<Rightarrow> bool \<Rightarrow> (kept_mask \<times> kept_count) res"
where
  "filter_speculative_candidates py_float probs threshold return_tensor =
     bind_res (threshold_value py_float threshold) (\<lambda>t.
       case probs of
         NotTensor \<Rightarrow> Inl TypeError
       | Scalar p \<Rightarrow> Inl ValueError
       | Seq [] \<Rightarrow> Inr (SeqMask [], if return_tensor then TensorCount 0 else PyCount 0)
       | Seq row \<Rightarrow>
           let msk = confident_mask t row; kept = count_mask msk in
           Inr (SeqMask msk, if return_tensor then TensorCount kept else PyCount kept)
       | Batch rows \<Rightarrow>
           if rows \<noteq> [] \<and> hd rows = []
           then Inr (BatchMask (map (\<lambda>row. map (\<lambda>_. False) row) rows), TensorCounts (map (\<lambda>_. 0) rows))
           else let masks = map (confident_mask t) rows in
             Inr (BatchMask masks, TensorCounts (map count_mask masks)))"

lemma cumprod_zero: "cumprod 0 xs = map (\<lambda>_. 0) xs"
  by (induction xs) auto

lemma confident_mask_prefix:
  "confident_mask t row =
     (let k = length (takeWhile (\<lambda>p. t \<le> p) row) in replicate k True @ replicate (length row - k) False)"
  unfolding confident_mask_def Let_def
  by (induction row) (auto simp: cumprod_zero map_replicate_const)

lemma count_mask_prefix: "count_mask (confident_mask t row) = int (length (takeWhile (\<lambda>p. t \<le> p) row))"
  by (simp add: count_mask_def confident_mask_prefix Let_def sum_list_replicate)

section \<open>The context-size check\<close>

definition mla_arg :: "pyval \<Rightarrow> int res" where
  "mla_arg v =
     (case v of
        PBool b \<Rightarrow> Inl TypeError
      | PInt n \<Rightarrow> if n < 0 then Inl ValueError else Inr n
      | PFloat (Fin q) \<Rightarrow>
          (case to_int v of
             None \<Rightarrow> Inl TypeError
           | Some n \<Rightarrow> if of_int n \<noteq> q then Inl ValueError else if n < 0 then Inl ValueError else Inr n)
      | PStr s \<Rightarrow> (case py_int10 s of None \<Rightarrow> Inl TypeError | Some n \<Rightarrow> Inl ValueError)
      | _ \<Rightarrow> Inl TypeError)"

definition compute_mla_kv_cache_bytes ::
  "pyval \<Rightarrow> pyval \<Rightarrow> pyval \<Rightarrow> pyval \<Rightarrow> pyval \<Rightarrow> int res"
where
  "compute_mla_kv_cache_bytes context_len num_layers kv_lora_rank qk_rope_head_dim dtype_bytes =
     bind_res (mla_arg context_len) (\<lambda>c.
     bind_res (mla_arg num_layers) (\<lambda>l.
     bind_res (mla_arg kv_lora_rank) (\<lambda>k.
     bind_res (mla_arg qk_rope_head_dim) (\<lambda>q.
     bind_res (mla_arg dtype_bytes) (\<lambda>d.
       Inr (c * l * (k + q) * d))))))"

record context_report =
  cx_max_model_len :: int
  cx_kv_cache_bytes :: int
  cx_kv_cache_gb :: rat
  cx_usable_mem_gb :: rat
  cx_available_headroom_gb :: rat
  cx_fits :: bool
  cx_safety_margin_gb :: rat
  cx_chunk_size :: int

text \<open>
  Float arithmetic is the exact rational result followed by \<open>rnd\<close>, the rounding of the
  hardware; \<open>float()\<close> on an environment string is a parameter.
\<close>

definition validate_context_scaling ::
  "(rat \<Rightarrow> rat) \<Rightarrow> (string \<Rightarrow> pyfloat option) \<Rightarrow> environ \<Rightarrow> pyval
     \<Rightarrow> pyfloat \<Rightarrow> pyfloat \<Rightarrow> pyfloat \<Rightarrow> int \<Rightarrow> context_report res"
where
  "validate_context_scaling rnd py_float env max_model_len weights_arg total_arg util_arg chunk_arg =
     (case max_model_len of
        PInt len \<Rightarrow>
          if len \<le> 0 then Inl ValueError
          else let
            weights = env_float_override py_float env weights_arg
              [''VLLM_EXL3_CONTEXT_MODEL_WEIGHTS_GB'', ''VLLM_EXL3_MODEL_WEIGHTS_GB''] None;
            total = env_float_override py_float env total_arg
              [''VLLM_EXL3_CONTEXT_TOTAL_MEM_GB'', ''VLLM_EXL3_TOTAL_MEM_GB''] None;
            util = env_float_override py_float env util_arg
              [''VLLM_EXL3_CONTEXT_MEM_UTIL'', ''VLLM_EXL3_MEM_UTIL''] None;
            chunk = env_int_override env chunk_arg
              [''VLLM_EXL3_CONTEXT_CHUNK_SIZE'', ''VLLM_EXL3_CHUNK_SIZE''] (Some 1) in
          (case (weights, total, util) of
             (Fin w, Fin m, Fin u) \<Rightarrow>
               if w < 0 \<or> m \<le> 0 \<or> \<not> (0 < u \<and> u \<le> 1) then Inl ValueError
               else bind_res (compute_mla_kv_cache_bytes (PInt len) (PInt 43) (PInt 512) (PInt 64) (PInt 1))
                 (\<lambda>kv. let
                    kv_gb = rnd (of_int kv / 2 ^ 30);
                    usable = rnd (m * u);
                    headroom = rnd (rnd (usable - w) - kv_gb) in
                  Inr \<lparr>cx_max_model_len = len, cx_kv_cache_bytes = kv, cx_kv_cache_gb = kv_gb,
                    cx_usable_mem_gb = usable, cx_available_headroom_gb = headroom,
                    cx_fits = (0 < headroom), cx_safety_margin_gb = rnd (rnd (m - w) - kv_gb),
                    cx_chunk_size = chunk\<rparr>)
           | _ \<Rightarrow> Inl ValueError)
      | _ \<Rightarrow> Inl ValueError)"

section \<open>Properties\<close>

text \<open>The number of draft tokens is a function of the batch size alone.  Whatever schedule is
  configured (argument, environment or default, malformed ones included) the active one is a
  nonempty list of disjoint, increasing, nonnegative ranges; the result is the count of the one range
  that covers the batch, and zero in a gap.\<close>

theorem draft_tokens_spec:
  assumes "to_int batch_size = Some bs" and "0 < bs"
  shows "sched_ok (active_schedule env sch) \<and>
    (\<forall>lo hi d. (lo, hi, d) \<in> set (active_schedule env sch) \<longrightarrow> lo \<le> bs \<longrightarrow> bs \<le> hi \<longrightarrow>
      get_speculative_draft_tokens env batch_size sch = d) \<and>
    ((\<forall>(lo, hi, d) \<in> set (active_schedule env sch). bs < lo \<or> hi < bs) \<longrightarrow>
      get_speculative_draft_tokens env batch_size sch = 0)"
proof -
  let ?es = "active_schedule env sch"
  have ok: "sched_ok ?es" by (rule active_ok)
  have g: "get_speculative_draft_tokens env batch_size sch = lookup_draft bs ?es"
    using assms by (simp add: get_speculative_draft_tokens_def)
  have r: "\<forall>(lo, hi, d) \<in> set ?es. lo \<le> hi" using ok by (auto simp: sched_ok_def)
  have "lookup_draft bs ?es = d" if "(lo, hi, d) \<in> set ?es" "lo \<le> bs" "bs \<le> hi" for lo hi d
    by (rule lookup_draft_unique [OF _ r that]) (use ok in \<open>simp add: sched_ok_def\<close>)
  moreover have "lookup_draft bs ?es = 0" if "\<forall>(lo, hi, d) \<in> set ?es. bs < lo \<or> hi < bs"
    by (rule lookup_draft_none) (use that in fastforce)
  ultimately show ?thesis using ok g by simp
qed

lemma draft_tokens_spec_witness:
  "get_speculative_draft_tokens (\<lambda>_. Some ''1:2:5, 7:9 :4'') (PInt 8) PNone = 4"
proof -
  have "active_schedule (\<lambda>_. Some ''1:2:5, 7:9 :4'') PNone = [(1, 2, 5), (7, 9, 4)]" by code_simp
  then show ?thesis
    using draft_tokens_spec [of "PInt 8" 8 "\<lambda>_. Some ''1:2:5, 7:9 :4''" PNone] by simp
qed

text \<open>The order in which a caller lists the schedule's entries has no effect, valid or not.\<close>

theorem draft_tokens_order:
  assumes "mset entries = mset entries'"
  shows "get_speculative_draft_tokens env batch_size (PSeq entries) =
    get_speculative_draft_tokens env batch_size (PSeq entries')"
proof -
  have "active_schedule env (PSeq entries) = active_schedule env (PSeq entries')"
    using validated_perm [OF assms] by (simp add: active_schedule_def)
  then show ?thesis unfolding get_speculative_draft_tokens_def by (rule arg_cong)
qed

lemma draft_tokens_order_witness:
  "get_speculative_draft_tokens (\<lambda>_. None) (PInt 5) (PSeq [PSeq [PInt 1, PInt 4, PInt 3], PSeq [PInt 5, PInt 6, PInt 1]]) =
   get_speculative_draft_tokens (\<lambda>_. None) (PInt 5) (PSeq [PSeq [PInt 5, PInt 6, PInt 1], PSeq [PInt 1, PInt 4, PInt 3]])"
  by (rule draft_tokens_order) simp

text \<open>Candidate filtering keeps exactly the longest prefix whose probabilities all reach the
  threshold: nothing after the first failure survives, and the returned count is the prefix length.\<close>

theorem filter_keeps_prefix:
  assumes "filter_speculative_candidates py_float (Seq row) threshold return_tensor = Inr (m, c)"
  shows "\<exists>t. threshold_value py_float threshold = Inr t \<and> 0 \<le> t \<and> t \<le> 1 \<and>
    (let k = length (takeWhile (\<lambda>p. t \<le> p) row) in
      m = SeqMask (replicate k True @ replicate (length row - k) False) \<and>
      c = (if return_tensor then TensorCount (int k) else PyCount (int k)))"
proof -
  obtain t where t: "threshold_value py_float threshold = Inr t"
    using assms by (auto simp: filter_speculative_candidates_def bind_res_Inr)
  have r: "0 \<le> t \<and> t \<le> 1"
    using t by (auto simp: threshold_value_def split: option.splits pyfloat.splits if_splits)
  have "confident_mask t [] = []" by (simp add: confident_mask_def)
  then have "m = SeqMask (confident_mask t row) \<and>
      c = (if return_tensor then TensorCount (count_mask (confident_mask t row))
           else PyCount (count_mask (confident_mask t row)))"
    using assms t by (cases row) (auto simp: filter_speculative_candidates_def Let_def count_mask_def)
  then show ?thesis
    using t r by (auto simp: count_mask_prefix) (auto simp: confident_mask_prefix Let_def)
qed

lemma filter_keeps_prefix_witness:
  "filter_speculative_candidates (\<lambda>_. None) (Seq [9/10, 6/10, 1/10, 8/10]) (PFloat (Fin (1/2))) False =
     Inr (SeqMask [True, True, False, False], PyCount 2)"
proof -
  obtain m c where mc: "filter_speculative_candidates (\<lambda>_. None) (Seq [9/10, 6/10, 1/10, 8/10])
      (PFloat (Fin (1/2))) False = Inr (m, c)"
    by (simp add: filter_speculative_candidates_def threshold_value_def Let_def)
  have t: "t = 1 / 2" if "threshold_value (\<lambda>_. None) (PFloat (Fin (1 / 2))) = Inr t" for t
    using that by (simp add: threshold_value_def)
  from filter_keeps_prefix [OF mc]
  have "let k = length (takeWhile (\<lambda>p. 1 / 2 \<le> p) [9/10, 6/10, 1/10, 8/10 :: rat]) in
      m = SeqMask (replicate k True @ replicate (4 - k) False) \<and> c = PyCount (int k)"
    using t by (auto simp: Let_def numeral_2_eq_2)
  then show ?thesis using mc by (simp add: Let_def numeral_2_eq_2)
qed

text \<open>The context check is monotone.  On any hardware whose rounding is monotone, when a
  context length is reported to fit the memory budget, so is every smaller positive one.\<close>

theorem context_fits_mono:
  assumes rnd: "mono rnd"
    and ok: "validate_context_scaling rnd py_float env (PInt len) w m u chunk = Inr r" and "cx_fits r"
    and "0 < len'" and "len' \<le> len"
  shows "\<exists>r'. validate_context_scaling rnd py_float env (PInt len') w m u chunk = Inr r' \<and> cx_fits r'"
proof -
  let ?kv = "\<lambda>l. of_int (l * 43 * (512 + 64) * 1) / (2 ^ 30 :: rat)"
  have "len' * 43 * (512 + 64) * 1 \<le> len * 43 * (512 + 64) * 1" using assms(5) by simp
  then have le: "(of_int (len' * 43 * (512 + 64) * 1) :: rat) \<le> of_int (len * 43 * (512 + 64) * 1)"
    by (rule of_int_le_iff [THEN iffD2])
  have kv: "?kv len' \<le> ?kv len" by (rule divide_right_mono [OF le]) simp
  have step: "rnd (x - rnd (?kv len)) \<le> rnd (x - rnd (?kv len'))" for x
    by (intro monoD [OF rnd] diff_left_mono) (rule kv)
  show ?thesis
    using ok assms(3,4,5) step
    by (auto simp: validate_context_scaling_def Let_def compute_mla_kv_cache_bytes_def mla_arg_def
        split: pyfloat.splits if_splits intro: order.strict_trans2)
qed

lemma context_fits_mono_witness:
  "\<exists>r'. validate_context_scaling (\<lambda>x. x) (\<lambda>_. None) (\<lambda>_. None) (PInt 4096)
     (Fin (954/10)) (Fin 128) (Fin (9/10)) 2048 = Inr r' \<and> cx_fits r'"
proof -
  have "\<exists>r. validate_context_scaling (\<lambda>x. x) (\<lambda>_. None) (\<lambda>_. None) (PInt 131072)
     (Fin (954/10)) (Fin 128) (Fin (9/10)) 2048 = Inr r \<and> cx_fits r"
    by (simp add: validate_context_scaling_def compute_mla_kv_cache_bytes_def mla_arg_def Let_def)
  then obtain r where r: "validate_context_scaling (\<lambda>x. x) (\<lambda>_. None) (\<lambda>_. None) (PInt 131072)
     (Fin (954/10)) (Fin 128) (Fin (9/10)) 2048 = Inr r" "cx_fits r" by blast
  have "mono (\<lambda>x :: rat. x)" by (rule monoI)
  from context_fits_mono [OF this r] show ?thesis by simp
qed

end
