(* ===== verification/TP_Geometry.thy ===== *)
theory TP_Geometry
  imports Expert_Store Py_Text
begin

text \<open>
  Tensor-parallel geometry: which part of an expert's tensors a rank loads
  (\<open>src/vllm_exl3/exl3.py\<close>), where rank and size come from
  (\<open>tp_geometry_compat.py\<close>), and the shapes the arena prescan expects
  (\<open>mixed_k_guard.py\<close>).  A tensor is seen along the sharded dimension as the list of
  its slices.  The locale states what a split into shards promises; the equal and the
  block-aligned split are its two interpretations.
\<close>

section \<open>Splitting a dimension\<close>

definition moe_tp_align :: "environ \<Rightarrow> int" where
  "moe_tp_align env =
     (case env ''VLLM_EXL3_MOE_TP_ALIGN'' of
        None \<Rightarrow> 0
      | Some s \<Rightarrow> (case py_int10 s of None \<Rightarrow> 0 | Some n \<Rightarrow> n))"

definition shard_counts :: "nat \<Rightarrow> nat \<Rightarrow> nat list" where
  "shard_counts blocks tp =
     map (\<lambda>r. blocks div tp + (if r < blocks mod tp then 1 else 0)) [0..<tp]"

definition aligned_tp_split :: "nat \<Rightarrow> nat \<Rightarrow> nat \<Rightarrow> nat \<Rightarrow> (nat \<times> nat) res" where
  "aligned_tp_split sz tp_rank tp_size align =
     (if sz mod align \<noteq> 0 then Inl ValueError
      else let counts = shard_counts (sz div align) tp_size in
        if tp_size \<le> tp_rank then Inl IndexError
        else Inr (sum_list (take tp_rank counts) * align, counts ! tp_rank * align))"

text \<open>The result \<open>None\<close> is the whole tensor.\<close>

definition narrow_range ::
  "environ \<Rightarrow> nat \<Rightarrow> nat \<Rightarrow> nat \<Rightarrow> nat \<Rightarrow> bool \<Rightarrow> (nat \<times> nat) option res"
where
  "narrow_range env sz tp_rank tp_size unit aligned_mode =
     (if tp_size \<le> 1 then Inr None
      else let align = (if aligned_mode then moe_tp_align env else 0) in
        if 0 < align then
          if sz * unit mod nat align \<noteq> 0 then Inl RuntimeError
          else bind_res (aligned_tp_split (sz * unit) tp_rank tp_size (nat align))
                 (\<lambda>(ofs, len). Inr (Some (ofs div unit, len div unit)))
        else if sz mod tp_size \<noteq> 0 then Inl ValueError
        else Inr (Some (sz div tp_size * tp_rank, sz div tp_size)))"

definition narrow :: "(nat \<times> nat) option \<Rightarrow> 'a list \<Rightarrow> 'a list" where
  "narrow rng xs = (case rng of None \<Rightarrow> xs | Some (ofs, len) \<Rightarrow> take len (drop ofs xs))"

text \<open>
  An EXL3 tensor of a projection: the trellis as rows of tiles (a tile is one element), or
  a vector.
\<close>

datatype 'a exl3_tensor =
    Trellis nat nat "'a list list"
  | Vector "'a list"

datatype suffix = Trellis_s | Suh | Svh | Mcg | Mul1

definition map_ok :: "('a \<Rightarrow> 'b) \<Rightarrow> 'a res \<Rightarrow> 'b res" where
  "map_ok f r = bind_res r (\<lambda>x. Inr (f x))"

definition range_len :: "(nat \<times> nat) option \<Rightarrow> nat \<Rightarrow> nat" where
  "range_len rng n = (case rng of None \<Rightarrow> n | Some (ofs, len) \<Rightarrow> len)"

text \<open>Gate and up: trellis dimension 1 and \<open>svh\<close>; down: trellis dimension 0 and \<open>suh\<close>.\<close>

definition shard_exl3_col ::
  "environ \<Rightarrow> 'a exl3_tensor \<Rightarrow> suffix \<Rightarrow> nat \<Rightarrow> nat \<Rightarrow> bool \<Rightarrow> 'a exl3_tensor res"
where
  "shard_exl3_col env loaded sfx tp_rank tp_size aligned_mode =
     (case (sfx, loaded) of
        (Trellis_s, Trellis rows cols tiles) \<Rightarrow>
          map_ok (\<lambda>rng. Trellis rows (range_len rng cols) (map (narrow rng) tiles))
            (narrow_range env cols tp_rank tp_size 16 aligned_mode)
      | (Svh, Vector xs) \<Rightarrow>
          map_ok (\<lambda>rng. Vector (narrow rng xs))
            (narrow_range env (length xs) tp_rank tp_size 1 aligned_mode)
      | _ \<Rightarrow> Inr loaded)"

definition shard_exl3_row ::
  "environ \<Rightarrow> 'a exl3_tensor \<Rightarrow> suffix \<Rightarrow> nat \<Rightarrow> nat \<Rightarrow> bool \<Rightarrow> 'a exl3_tensor res"
where
  "shard_exl3_row env loaded sfx tp_rank tp_size aligned_mode =
     (case (sfx, loaded) of
        (Trellis_s, Trellis rows cols tiles) \<Rightarrow>
          map_ok (\<lambda>rng. Trellis (range_len rng rows) cols (narrow rng tiles))
            (narrow_range env rows tp_rank tp_size 16 aligned_mode)
      | (Suh, Vector xs) \<Rightarrow>
          map_ok (\<lambda>rng. Vector (narrow rng xs))
            (narrow_range env (length xs) tp_rank tp_size 1 aligned_mode)
      | _ \<Rightarrow> Inr loaded)"

section \<open>The interface of a split into shards\<close>

locale block_split =
  fixes split :: "nat \<Rightarrow> nat \<times> nat"
    and n :: nat
    and tp :: nat
  assumes tp_pos: "0 < tp"
    and split_start: "fst (split 0) = 0"
    and split_next: "Suc r < tp \<Longrightarrow> fst (split (Suc r)) = fst (split r) + snd (split r)"
    and split_end: "fst (split (tp - 1)) + snd (split (tp - 1)) = n"
begin

abbreviation shard :: "nat \<Rightarrow> 'a list \<Rightarrow> 'a list" where
  "shard r xs \<equiv> take (snd (split r)) (drop (fst (split r)) xs)"

lemma prefix_tiles: "k < tp \<Longrightarrow>
    concat (map (\<lambda>r. shard r xs) [0..<Suc k]) = take (fst (split k) + snd (split k)) xs"
proof (induction k)
  case 0
  then show ?case by (simp add: split_start)
next
  case (Suc k)
  then have "concat (map (\<lambda>r. shard r xs) [0..<Suc (Suc k)]) =
      take (fst (split (Suc k))) xs @ shard (Suc k) xs"
    by (simp add: split_next)
  then show ?case by (simp add: take_add)
qed

text \<open>The shards, in rank order, are the whole.\<close>

lemma shards_tile: "length xs = n \<Longrightarrow> concat (map (\<lambda>r. shard r xs) [0..<tp]) = xs"
  using prefix_tiles [of "tp - 1" xs] tp_pos split_end by simp

lemma split_mono: "r' < tp \<Longrightarrow> r < r' \<Longrightarrow> fst (split r) + snd (split r) \<le> fst (split r')"
proof (induction r')
  case (Suc r')
  show ?case
  proof (cases "r = r'")
    case True
    then show ?thesis using Suc.prems split_next [of r'] by simp
  next
    case False
    then show ?thesis using Suc split_next [of r'] by simp
  qed
qed simp

lemma split_within: "r < tp \<Longrightarrow> fst (split r) + snd (split r) \<le> n"
proof -
  assume "r < tp"
  then have "r = tp - 1 \<or> r < tp - 1" by arith
  then show ?thesis using split_mono [of "tp - 1" r] split_end tp_pos by fastforce
qed

text \<open>Every index is in the shard of exactly one rank.\<close>

lemma one_owner:
  assumes "i < n"
  shows "\<exists>!r. r < tp \<and> fst (split r) \<le> i \<and> i < fst (split r) + snd (split r)"
proof -
  have ex: "\<exists>r < tp. fst (split r) \<le> i \<and> i < fst (split r) + snd (split r)"
    if "k < tp" "i < fst (split k) + snd (split k)" for k
    using that
  proof (induction k)
    case 0
    then show ?case using split_start by auto
  next
    case (Suc k)
    then show ?case using split_next [of k] by (cases "i < fst (split (Suc k))") auto
  qed
  show ?thesis
  proof (rule ex_ex1I)
    show "\<exists>r. r < tp \<and> fst (split r) \<le> i \<and> i < fst (split r) + snd (split r)"
      using ex [of "tp - 1"] assms split_end tp_pos by auto
  next
    fix r r'
    assume "r < tp \<and> fst (split r) \<le> i \<and> i < fst (split r) + snd (split r)"
      "r' < tp \<and> fst (split r') \<le> i \<and> i < fst (split r') + snd (split r')"
    then show "r = r'"
      using split_mono [of r' r] split_mono [of r r'] by (cases r r' rule: linorder_cases) auto
  qed
qed

end

interpretation equal_split: block_split "\<lambda>r. (c * r, c)" "c * Suc t" "Suc t" for c t
  by unfold_locales auto

lemma shard_counts_sum: "0 < tp \<Longrightarrow> sum_list (shard_counts b tp) = b"
proof -
  assume tp: "0 < tp"
  have "sum_list (map (\<lambda>r. q + (if r < m then 1 else 0)) [0..<k]) = k * q + min k m" for q m k :: nat
    by (induction k) auto
  then have "sum_list (shard_counts b tp) = tp * (b div tp) + min tp (b mod tp)"
    by (simp add: shard_counts_def)
  then show ?thesis using tp by (simp add: min_absorb2)
qed

lemma shard_counts_length [simp]: "length (shard_counts b tp) = tp"
  by (simp add: shard_counts_def)

interpretation aligned_split: block_split
  "\<lambda>r. (offset_of (shard_counts b (Suc t)) r * a, shard_counts b (Suc t) ! r * a)" "b * a" "Suc t"
  for b a t
proof unfold_locales
  show "fst (offset_of (shard_counts b (Suc t)) 0 * a, shard_counts b (Suc t) ! 0 * a) = 0"
    by (simp add: offset_of_def)
next
  fix r assume "Suc r < Suc t"
  then show "fst (offset_of (shard_counts b (Suc t)) (Suc r) * a, shard_counts b (Suc t) ! Suc r * a) =
      fst (offset_of (shard_counts b (Suc t)) r * a, shard_counts b (Suc t) ! r * a) +
      snd (offset_of (shard_counts b (Suc t)) r * a, shard_counts b (Suc t) ! r * a)"
    by (simp add: offset_of_Suc algebra_simps)
next
  have "offset_of (shard_counts b (Suc t)) (Suc t) = b"
    using shard_counts_sum [of "Suc t" b] by (simp add: offset_of_def)
  then show "fst (offset_of (shard_counts b (Suc t)) (Suc t - 1) * a, shard_counts b (Suc t) ! (Suc t - 1) * a) +
      snd (offset_of (shard_counts b (Suc t)) (Suc t - 1) * a, shard_counts b (Suc t) ! (Suc t - 1) * a) = b * a"
    using offset_of_Suc [of t "shard_counts b (Suc t)"]
    by (simp add: add_mult_distrib [symmetric] add.commute)
qed simp

section \<open>The ranges the loader computes\<close>

lemma narrow_range_equal:
  assumes "1 < tp" and "\<not> (aligned_mode \<and> 0 < moe_tp_align env)" and "sz mod tp = 0"
  shows "narrow_range env sz r tp unit aligned_mode = Inr (Some (sz div tp * r, sz div tp))"
  using assms by (auto simp: narrow_range_def Let_def)

lemma narrow_range_aligned:
  assumes tp: "1 < tp" and r: "r < tp" and al: "nat (moe_tp_align env) = q * unit" "0 < q * unit"
    and m: "sz mod q = 0"
  shows "narrow_range env sz r tp unit True =
    Inr (Some (offset_of (shard_counts (sz div q) tp) r * q, shard_counts (sz div q) tp ! r * q))"
proof -
  have q: "0 < q" "0 < unit" using al(2) by auto
  have mm: "sz * unit mod (q * unit) = 0" using m q by (simp add: mult_mod_left)
  have d: "sz * unit div (q * unit) = sz div q" using q by simp
  have n: "0 < moe_tp_align env" using al by linarith
  have "x * (q * unit) div unit = x * q" for x using q by (simp add: mult.assoc [symmetric])
  then show ?thesis
    using tp r al mm d q
    by (simp add: narrow_range_def Let_def n aligned_tp_split_def offset_of_def del: nat_0_less_mult_iff)
qed

lemma narrow_range_Inr:
  assumes "narrow_range env sz r tp unit aligned_mode = Inr (Some (ofs, len))"
    and r: "r < tp" and u: "0 < unit" and um: "moe_tp_align env mod int unit = 0"
  shows "\<exists>q b. sz = b * q \<and> 0 < q \<and>
    (\<forall>r' < tp. narrow_range env sz r' tp unit aligned_mode =
      Inr (Some (offset_of (shard_counts b tp) r' * q, shard_counts b tp ! r' * q)))"
proof -
  have tp: "1 < tp" using assms(1) by (auto simp: narrow_range_def split: if_splits)
  show ?thesis
  proof (cases "aligned_mode \<and> 0 < moe_tp_align env")
    case True
    define q where "q = nat (moe_tp_align env) div unit"
    have nm: "nat (moe_tp_align env) mod unit = 0"
      using um True u nat_mod_distrib [of "moe_tp_align env" "int unit"] by simp
    then have al: "nat (moe_tp_align env) = q * unit" by (auto simp: q_def)
    then have q: "0 < q * unit" using True by linarith
    have "sz * unit mod (q * unit) = 0"
      using assms(1) True al tp by (auto simp: narrow_range_def Let_def split: if_splits)
    then have m: "sz mod q = 0" using u mult_mod_left [of sz q unit] by simp
    then have "sz = sz div q * q" by auto
    then show ?thesis
      using narrow_range_aligned [OF tp _ al q m] True q by (intro exI [of _ q] exI [of _ "sz div q"]) auto
  next
    case False
    then have m: "sz mod tp = 0"
      using assms(1) tp by (auto simp: narrow_range_def Let_def split: if_splits)
    have c: "shard_counts tp tp ! r' = 1 \<and> offset_of (shard_counts tp tp) r' = r'" if "r' < tp" for r'
    proof -
      have one: "shard_counts tp tp = replicate tp 1"
        using tp by (simp add: shard_counts_def map_replicate_const)
      show ?thesis using that by (simp add: one offset_of_def sum_list_replicate)
    qed
    have "sz = tp * (sz div tp)" using m by auto
    show ?thesis
    proof (cases "sz = 0")
      case True
      have "shard_counts 0 tp = replicate tp 0" using tp by (simp add: shard_counts_def map_replicate_const)
      then show ?thesis
        using narrow_range_equal [OF tp False m] True
        by (intro exI [of _ 1] exI [of _ 0]) (simp add: offset_of_def sum_list_replicate)
    next
      case False
      then have "0 < sz div tp" using m by (metis \<open>sz = tp * (sz div tp)\<close> gr0I mult_0_right)
      then show ?thesis
        using narrow_range_equal [OF tp \<open>\<not> (aligned_mode \<and> 0 < moe_tp_align env)\<close> m] c
          \<open>sz = tp * (sz div tp)\<close>
        by (intro exI [of _ "sz div tp"] exI [of _ tp]) (simp add: mult.commute)
    qed
  qed
qed

section \<open>Chunk rotation\<close>

text \<open>The pattern \<open>layers\.(\d+)\<close>, searched from the left.\<close>

fun layers_number :: "string \<Rightarrow> nat option" where
  "layers_number [] = None"
| "layers_number (c # cs) =
     (if take 7 (c # cs) = ''layers.'' \<and> takeWhile (\<lambda>d. digit_val d \<noteq> None) (drop 7 (c # cs)) \<noteq> []
      then Some (nat (the (digits 0 False (takeWhile (\<lambda>d. digit_val d \<noteq> None) (drop 7 (c # cs))))))
      else layers_number cs)"

definition moe_tp_rotation :: "environ \<Rightarrow> string \<Rightarrow> nat \<Rightarrow> nat" where
  "moe_tp_rotation env name tp_size =
     (if env ''VLLM_EXL3_MOE_TP_ROTATE'' \<noteq> Some ''1'' \<or> tp_size \<le> 1 then 0
      else case layers_number name of None \<Rightarrow> 0 | Some l \<Rightarrow> l mod tp_size)"

definition rotated_rank :: "nat \<Rightarrow> nat \<Rightarrow> nat \<Rightarrow> nat" where
  "rotated_rank tp_rank tp_size rotation =
     (if 1 < tp_size \<and> rotation \<noteq> 0 then (tp_rank + rotation) mod tp_size else tp_rank)"

lemma rotated_bij: "0 < tp \<Longrightarrow> bij_betw (\<lambda>r. rotated_rank r tp rot) {0..<tp} {0..<tp}"
proof -
  assume tp: "0 < tp"
  have inj: "inj_on (\<lambda>r. (r + rot) mod tp) {0..<tp}"
  proof (rule inj_onI)
    fix x y assume h: "x \<in> {0..<tp}" "y \<in> {0..<tp}" "(x + rot) mod tp = (y + rot) mod tp"
    have eq: "a = b" if "a \<le> b" "b < tp" "(b + rot) mod tp = (a + rot) mod tp" for a b
    proof -
      have "tp dvd (b + rot) - (a + rot)" using that by (simp add: mod_eq_dvd_iff_nat)
      then have "tp dvd b - a" by simp
      then show ?thesis using that(1,2) nat_dvd_not_less [of "b - a" tp] by fastforce
    qed
    show "x = y"
    proof (cases "x \<le> y")
      case True
      then show ?thesis using eq [OF True _ h(3) [symmetric]] h(2) by simp
    next
      case False
      then show ?thesis using eq [of y x] h by simp
    qed
  qed
  have "(\<lambda>r. (r + rot) mod tp) ` {0..<tp} \<subseteq> {0..<tp}" using tp by auto
  then have "bij_betw (\<lambda>r. (r + rot) mod tp) {0..<tp} {0..<tp}"
    unfolding bij_betw_def using inj endo_inj_surj [OF _ _ inj] by simp
  moreover have "bij_betw (\<lambda>r. r) {0..<tp} {0..<tp}" by (simp add: bij_betw_def)
  moreover have "(\<lambda>r. rotated_rank r tp rot) =
      (if 1 < tp \<and> rot \<noteq> 0 then (\<lambda>r. (r + rot) mod tp) else (\<lambda>r. r))"
    by (rule ext) (simp add: rotated_rank_def)
  ultimately show ?thesis by presburger
qed

section \<open>Where rank and size come from\<close>

record parallel_config =
  pc_tp_rank :: "int option"
  pc_tp_size :: "int option"

text \<open>
  What \<open>getattr\<close> finds on an owner: its \<open>moe_config\<close> (absent or \<open>None\<close>, or one with or
  without a \<open>moe_parallel_config\<close>), the owner's own \<open>moe_parallel_config\<close>, and the flat
  attributes.
\<close>

record owner =
  ow_moe_config :: "parallel_config option option"
  ow_parallel_config :: "parallel_config option option"
  ow_tp_rank :: "int option"
  ow_moe_tp_size :: "int option"
  ow_tp_size :: "int option"
  ow_exl3_tp_size :: "int option"

fun nested_moe_tp_geometry :: "owner option list \<Rightarrow> (int \<times> int) option res" where
  "nested_moe_tp_geometry [] = Inr None"
| "nested_moe_tp_geometry (None # os) = nested_moe_tp_geometry os"
| "nested_moe_tp_geometry (Some ow # os) =
     (case (case ow_moe_config ow of Some c \<Rightarrow> c | None \<Rightarrow>
              (case ow_parallel_config ow of Some c \<Rightarrow> c | None \<Rightarrow> None)) of
        None \<Rightarrow> nested_moe_tp_geometry os
      | Some pc \<Rightarrow>
          if pc_tp_rank pc = None \<and> pc_tp_size pc = None then nested_moe_tp_geometry os
          else let rank = (case pc_tp_rank pc of None \<Rightarrow> 0 | Some r \<Rightarrow> r);
                   sz = (case pc_tp_size pc of None \<Rightarrow> 1 | Some n \<Rightarrow> n) in
            if sz < 1 \<or> rank < 0 \<or> sz \<le> rank then Inl ValueError else Inr (Some (rank, sz)))"

fun flat_tp_geometry :: "int \<times> int \<Rightarrow> owner option list \<Rightarrow> int \<times> int" where
  "flat_tp_geometry process [] = process"
| "flat_tp_geometry process (None # os) = flat_tp_geometry process os"
| "flat_tp_geometry process (Some ow # os) =
     (let rank = ow_tp_rank ow;
          sz = (case ow_moe_tp_size ow of Some n \<Rightarrow> Some n | None \<Rightarrow>
                 (case ow_tp_size ow of Some n \<Rightarrow> Some n | None \<Rightarrow> ow_exl3_tp_size ow)) in
      if rank \<noteq> None \<or> sz \<noteq> None
      then (case rank of None \<Rightarrow> 0 | Some r \<Rightarrow> r, case sz of None \<Rightarrow> 1 | Some n \<Rightarrow> n)
      else flat_tp_geometry process os)"

text \<open>\<open>_resolve_tp_geometry\<close> as the compatibility shim wraps it; \<open>process\<close> is the process group's.\<close>

definition resolve_tp_geometry :: "int \<times> int \<Rightarrow> owner option list \<Rightarrow> (int \<times> int) res" where
  "resolve_tp_geometry process owners =
     bind_res (nested_moe_tp_geometry owners) (\<lambda>nested.
       Inr (case nested of Some g \<Rightarrow> g | None \<Rightarrow> flat_tp_geometry process owners))"

section \<open>Shapes the arena prescan expects\<close>

datatype proj = Gate | Up | Down

type_synonym shapes = "(nat, nat list) odict"

definition shard_dim :: "proj \<Rightarrow> nat" where
  "shard_dim p = (case p of Down \<Rightarrow> 0 | _ \<Rightarrow> 1)"

definition shard_prescanned_shape :: "nat \<Rightarrow> proj \<Rightarrow> nat list \<Rightarrow> nat list res" where
  "shard_prescanned_shape tp p dims =
     (if length dims \<noteq> 3 then Inl RuntimeError
      else if dims ! shard_dim p mod tp \<noteq> 0 then Inl RuntimeError
      else Inr (dims[shard_dim p := dims ! shard_dim p div tp]))"

definition shard_prescanned_trellis_shapes ::
  "nat \<Rightarrow> (proj \<Rightarrow> shapes) \<Rightarrow> (proj \<Rightarrow> shapes) res"
where
  "shard_prescanned_trellis_shapes tp shapes =
     (if tp \<le> 1 then Inr shapes
      else let go = (\<lambda>p. map_res (\<lambda>(eid, sh). map_ok (Pair eid) (shard_prescanned_shape tp p sh)) (shapes p)) in
        bind_res (go Gate) (\<lambda>g. bind_res (go Up) (\<lambda>u. bind_res (go Down) (\<lambda>d.
          Inr (\<lambda>p. case p of Gate \<Rightarrow> g | Up \<Rightarrow> u | Down \<Rightarrow> d)))))"

record placement =
  pl_strategy :: "string option"
  pl_manager_strategy :: "string option"
  pl_eplb :: bool

definition prescan_guard ::
  "placement \<Rightarrow> (proj \<Rightarrow> shapes) option res \<Rightarrow> nat \<Rightarrow> (proj \<Rightarrow> shapes) option res"
where
  "prescan_guard pl current tp =
     (let strategy = map_option lower (case pl_strategy pl of Some s \<Rightarrow> Some s | None \<Rightarrow> pl_manager_strategy pl) in
      if pl_eplb pl \<or> strategy \<notin> {None, Some ''linear''} then Inr None
      else bind_res current (\<lambda>shapes. case shapes of
             None \<Rightarrow> Inr None
           | Some sh \<Rightarrow> map_ok Some (shard_prescanned_trellis_shapes tp sh)))"

section \<open>The trellis geometry assertion\<close>

text \<open>\<open>assert_exl3_trellis_3d\<close> returns \<open>K\<close>.\<close>

definition assert_exl3_trellis_3d :: "int list \<Rightarrow> st_dtype \<Rightarrow> int \<Rightarrow> int \<Rightarrow> int res" where
  "assert_exl3_trellis_3d sh dtype in_features out_features =
     (if length sh \<noteq> 3 \<or> dtype \<noteq> I16 then Inl ValueError
      else if (sh ! 0, sh ! 1) \<noteq> (in_features div 16, out_features div 16) then Inl ValueError
      else if sh ! 2 mod 16 \<noteq> 0 \<or> \<not> (2 \<le> sh ! 2 div 16 \<and> sh ! 2 div 16 \<le> 8) then Inl ValueError
      else Inr (sh ! 2 div 16))"

lemma assert_trellis_Inr:
  "assert_exl3_trellis_3d sh dtype ni no = Inr K \<longleftrightarrow>
     dtype = I16 \<and> sh = [ni div 16, no div 16, 16 * K] \<and> 2 \<le> K \<and> K \<le> 8"
proof
  assume a: "assert_exl3_trellis_3d sh dtype ni no = Inr K"
  then have "length sh = 3" by (auto simp: assert_exl3_trellis_3d_def split: if_splits)
  then obtain x y z where sh: "sh = [x, y, z]" by (auto simp: numeral_3_eq_3 length_Suc_conv)
  from a have k: "z mod 16 = 0" "K = z div 16" and f: "x = ni div 16" "y = no div 16" "dtype = I16"
      "2 \<le> K" "K \<le> 8"
    by (auto simp: assert_exl3_trellis_3d_def sh split: if_splits)
  have "z = 16 * K" using k by auto
  then show "dtype = I16 \<and> sh = [ni div 16, no div 16, 16 * K] \<and> 2 \<le> K \<and> K \<le> 8"
    using f by (simp add: sh)
next
  assume "dtype = I16 \<and> sh = [ni div 16, no div 16, 16 * K] \<and> 2 \<le> K \<and> K \<le> 8"
  then show "assert_exl3_trellis_3d sh dtype ni no = Inr K"
    by (simp add: assert_exl3_trellis_3d_def)
qed

text \<open>\<open>coerce_checkpoint_region\<close>: the elements of a flat byte region, and its new shape.\<close>

fun chunks :: "nat \<Rightarrow> 'a list \<Rightarrow> 'a list list" where
  "chunks k [] = []"
| "chunks k (x # xs) = (if k = 0 then [] else take k (x # xs) # chunks k (drop k (x # xs)))"

definition coerce_checkpoint_region ::
  "bool \<Rightarrow> 'a list \<Rightarrow> nat \<Rightarrow> int list \<Rightarrow> ('a list list \<times> int list) res"
where
  "coerce_checkpoint_region is_uint8 raw itemsize shape =
     (if \<not> is_uint8 then Inl ValueError
      else if length raw mod itemsize \<noteq> 0 then Inl ValueError
      else let elements = chunks itemsize raw in
        if prod_list shape \<noteq> int (length elements) then Inl RuntimeError
        else Inr (elements, shape))"

lemma chunks_concat: "0 < k \<Longrightarrow> concat (chunks k xs) = xs"
  by (induction k xs rule: chunks.induct) auto

lemma chunks_lengths:
  "length xs mod k = 0 \<Longrightarrow> 0 < k \<Longrightarrow> \<forall>c \<in> set (chunks k xs). length c = k"
proof (induction k xs rule: chunks.induct)
  case (2 k x xs)
  have le: "k \<le> length (x # xs)"
    by (rule dvd_imp_le [OF mod_0_imp_dvd [OF "2.prems"(1)]]) simp
  have "(length (x # xs) - k) mod k = 0"
    using "2.prems"(1) le_mod_geq [OF le] by simp
  then have "length (drop k (x # xs)) mod k = 0" unfolding length_drop .
  from "2.IH" [OF _ this "2.prems"(2)] "2.prems"(2)
  have ih: "\<forall>c \<in> set (chunks k (drop k (x # xs))). length c = k" by simp
  have "chunks k (x # xs) = take k (x # xs) # chunks k (drop k (x # xs))"
    using "2.prems"(2) by simp
  moreover have "length (take k (x # xs)) = k" using le by (simp only: length_take min_absorb2)
  ultimately show ?case using ih by (metis set_ConsD)
qed simp

section \<open>Properties\<close>



text \<open>The aligned split never cuts a Hadamard block.  With a positive alignment every boundary is a
  whole number of blocks of columns, and no rank has more than one block more than another.\<close>

theorem aligned_blocks_whole:
  assumes "0 < moe_tp_align env" and "moe_tp_align env mod int unit = 0" and "0 < unit"
    and r: "narrow_range env sz r tp unit True = Inr (Some (ofs, len))" and "r < tp"
    and r': "narrow_range env sz r' tp unit True = Inr (Some (ofs', len'))" and "r' < tp"
  shows "int (ofs * unit) mod moe_tp_align env = 0 \<and> int (len * unit) mod moe_tp_align env = 0 \<and>
    int (len * unit) \<le> int (len' * unit) + moe_tp_align env"
proof -
  define q where "q = nat (moe_tp_align env) div unit"
  have "nat (moe_tp_align env) mod unit = 0"
    using assms(1-3) nat_mod_distrib [of "moe_tp_align env" "int unit"] by simp
  then have al: "nat (moe_tp_align env) = q * unit" by (auto simp: q_def)
  then have q: "0 < q * unit" "moe_tp_align env = int (q * unit)" using assms(1) by linarith+
  have tp: "1 < tp" using r by (auto simp: narrow_range_def split: if_splits)
  have "sz * unit mod (q * unit) = 0"
    using r assms(1) al tp by (auto simp: narrow_range_def Let_def split: if_splits)
  then have m: "sz mod q = 0" using assms(3) mult_mod_left [of sz q unit] by simp
  note ra = narrow_range_aligned [OF tp _ al q(1) m]
  have v: "ofs = offset_of (shard_counts (sz div q) tp) r * q" "len = shard_counts (sz div q) tp ! r * q"
      "len' = shard_counts (sz div q) tp ! r' * q"
    using ra [OF assms(5)] ra [OF assms(7)] r r' by simp_all
  have "shard_counts (sz div q) tp ! r \<le> shard_counts (sz div q) tp ! r' + 1"
    using assms(5,7) by (simp add: shard_counts_def)
  then have "shard_counts (sz div q) tp ! r * (q * unit) \<le> (shard_counts (sz div q) tp ! r' + 1) * (q * unit)"
    by (rule mult_le_mono1)
  then have "len * unit \<le> len' * unit + q * unit" by (simp add: v add_mult_distrib mult.assoc)
  then show ?thesis unfolding q(2) v by (simp add: mult.assoc flip: of_nat_mod of_nat_add of_nat_mult)
qed

lemma aligned_blocks_whole_witness:
  "int (40 * 16) mod moe_tp_align (\<lambda>_. Some ''128'') = 0 \<and>
   int (40 * 16) \<le> int (32 * 16) + moe_tp_align (\<lambda>_. Some ''128'')"
proof -
  have a: "moe_tp_align (\<lambda>_. Some ''128'') = 128" by code_simp
  have "narrow_range (\<lambda>_. Some ''128'') 144 1 4 16 True = Inr (Some (40, 40))"
    "narrow_range (\<lambda>_. Some ''128'') 144 2 4 16 True = Inr (Some (80, 32))" by code_simp+
  from aligned_blocks_whole [OF _ _ _ this(1) _ this(2)] a show ?thesis by simp
qed

text \<open>Without the alignment option the prescan plans exactly the shape the loader produces: when the
  prescan accepts a trellis shape, every rank's narrowed trellis has it.\<close>

theorem prescan_shape_agrees:
  assumes "1 < tp" and "r < tp" and "moe_tp_align env \<le> 0"
    and "shard_prescanned_shape tp p [rows, cols, w] = Inr sh"
  shows "(case p of
      Down \<Rightarrow> \<exists>tiles'. shard_exl3_row env (Trellis rows cols tiles) Trellis_s r tp True =
        Inr (Trellis (sh ! 0) (sh ! 1) tiles')
    | _ \<Rightarrow> \<exists>tiles'. shard_exl3_col env (Trellis rows cols tiles) Trellis_s r tp True =
        Inr (Trellis (sh ! 0) (sh ! 1) tiles'))"
  using assms
  by (cases p) (auto simp: shard_prescanned_shape_def shard_dim_def shard_exl3_row_def shard_exl3_col_def
      map_ok_def narrow_range_equal range_len_def split: if_splits)

lemma prescan_shape_agrees_witness:
  "\<exists>tiles'. shard_exl3_col (\<lambda>_. None) (Trellis 320 144 ([] :: nat list list)) Trellis_s 1 4 True =
     Inr (Trellis 320 36 tiles')"
  using prescan_shape_agrees [of 4 1 "\<lambda>_. None" Gate 320 144 48 "[320, 36, 48]" "[] :: nat list list"]
  by (simp add: moe_tp_align_def shard_prescanned_shape_def shard_dim_def)


text \<open>An expert-parallel layer is never sliced.  When vLLM's nested MoE configuration gives the layer
  a tensor-parallel size of one, the resolved geometry is that one, whatever the process-wide group says,
  and the loader keeps the whole tensor.\<close>

theorem nested_geometry_wins:
  assumes "ow_moe_config ow = Some (Some pc)" and "pc_tp_size pc = Some 1" and "pc_tp_rank pc \<in> {None, Some 0}"
  shows "resolve_tp_geometry process (Some ow # os) = Inr (0, 1) \<and>
    narrow_range env sz (nat 0) (nat 1) unit aligned_mode = Inr None"
  using assms by (auto simp: resolve_tp_geometry_def narrow_range_def)

lemma nested_geometry_wins_witness:
  "resolve_tp_geometry (3, 4) [Some \<lparr>ow_moe_config = Some (Some \<lparr>pc_tp_rank = Some 0, pc_tp_size = Some 1\<rparr>),
     ow_parallel_config = None, ow_tp_rank = Some 3, ow_moe_tp_size = None, ow_tp_size = Some 4,
     ow_exl3_tp_size = None\<rparr>] = Inr (0, 1)"
  using nested_geometry_wins [of "\<lparr>ow_moe_config = Some (Some \<lparr>pc_tp_rank = Some 0, pc_tp_size = Some 1\<rparr>),
     ow_parallel_config = None, ow_tp_rank = Some 3, ow_moe_tp_size = None, ow_tp_size = Some 4,
     ow_exl3_tp_size = None\<rparr>"] by simp

text \<open>Chunk rotation only renames.  For every layer and group size the map from ranks to chunks is a
  bijection, so the ranks together still hold every chunk exactly once.\<close>

theorem rotation_permutes:
  assumes "0 < tp"
  shows "bij_betw (\<lambda>r. rotated_rank r tp (moe_tp_rotation env name tp)) {0..<tp} {0..<tp}"
  using assms by (rule rotated_bij)

lemma rotation_permutes_witness:
  "bij_betw (\<lambda>r. rotated_rank r 4 (moe_tp_rotation (\<lambda>_. Some ''1'') ''model.layers.7.ffn.experts'' 4)) {0..<4} {0..<4} \<and>
   moe_tp_rotation (\<lambda>_. Some ''1'') ''model.layers.7.ffn.experts'' 4 = 3"
proof -
  have "moe_tp_rotation (\<lambda>_. Some ''1'') ''model.layers.7.ffn.experts'' 4 = 3" by code_simp
  then show ?thesis
    using rotation_permutes [of 4 "\<lambda>_. Some ''1''" "''model.layers.7.ffn.experts''"] by simp
qed

text \<open>The loader's trellis assertion and the expert store's geometry check accept the same shapes, and
  the assertion returns the bit width that the shape encodes.\<close>

theorem trellis_assertion_agrees:
  "(\<exists>K. assert_exl3_trellis_3d sh I16 ni no = Inr K) \<longleftrightarrow> geometry_ok ni no sh"
  unfolding assert_trellis_Inr geometry_ok_iff by auto

end
