(* ===== verification/Trellis_Arena.thy ===== *)
theory Trellis_Arena
  imports TP_Geometry
begin

text \<open>
  Storage of the routed experts' trellises (\<open>src/vllm_exl3/exl3.py\<close>): arenas that hold all
  trellises of one shape back to back, planned from the checkpoint's headers
  (\<open>prepare_trellis_arena_plan\<close>), filled tensor by tensor as the checkpoint is read
  (\<open>_direct_fill_trellis_slot\<close>), or packed after all tensors were staged on the host
  (\<open>_pack_trellis_arenas\<close>); and the loader that drives them (\<open>_load_exl3\<close>).  A
  parameter is a handle: a view into an arena sees what is later written to its slot.
\<close>

type_synonym 'd tensor = "nat list \<times> 'd"

datatype 'd tparam =
    EmptyP
  | OwnP "'d tensor"
  | AliasP "'d tensor"
  | ViewP "nat list" nat

type_synonym slot_index = "proj \<Rightarrow> nat \<Rightarrow> (nat list \<times> nat) option"

record 'd tlayer =
  tl_experts :: nat
  tl_slots :: "proj \<Rightarrow> nat \<Rightarrow> 'd tparam"
  tl_arenas :: "proj \<Rightarrow> nat list \<Rightarrow> 'd tensor option list option"
  tl_plan :: "slot_index option"
  tl_pending :: "(proj \<Rightarrow> shapes) option"
  tl_require_direct :: bool
  tl_staging :: "proj \<Rightarrow> (nat, 'd tensor) odict"

definition numel :: "'d tensor \<Rightarrow> nat" where
  "numel t = prod_list (fst t)"

definition param_tensor :: "'d tlayer \<Rightarrow> proj \<Rightarrow> nat \<Rightarrow> 'd tensor option" where
  "param_tensor ly p e =
     (case tl_slots ly p e of
        EmptyP \<Rightarrow> None
      | OwnP t \<Rightarrow> Some t
      | AliasP t \<Rightarrow> Some t
      | ViewP sh i \<Rightarrow>
          (case tl_arenas ly p sh of
             None \<Rightarrow> None | Some slots \<Rightarrow> if i < length slots then slots ! i else None))"

text \<open>
  \<open>by_shape\<close>: a default dictionary of lists, groups in the order of their first member.
\<close>

fun add_to_group :: "nat list \<Rightarrow> 'x \<Rightarrow> (nat list \<times> 'x list) list \<Rightarrow> (nat list \<times> 'x list) list" where
  "add_to_group sh x [] = [(sh, [x])]"
| "add_to_group sh x ((s, xs) # gs) =
     (if s = sh then (s, xs @ [x]) # gs else (s, xs) # add_to_group sh x gs)"

definition by_shape :: "(nat list \<times> 'x) list \<Rightarrow> (nat list \<times> 'x list) list" where
  "by_shape xs = fold (\<lambda>(sh, x). add_to_group sh x) xs []"

text \<open>One arena for one group: allocate, check the expert ids, turn the parameters into views.\<close>

fun install_views :: "nat list \<Rightarrow> nat \<Rightarrow> nat list \<Rightarrow> (nat \<Rightarrow> 'd tparam) \<Rightarrow> nat \<Rightarrow> 'd tparam" where
  "install_views sh i [] slots = slots"
| "install_views sh i (e # es) slots = install_views sh (Suc i) es (slots(e := ViewP sh i))"

fun index_views :: "nat list \<Rightarrow> nat \<Rightarrow> nat list \<Rightarrow> (nat \<Rightarrow> (nat list \<times> nat) option)
    \<Rightarrow> nat \<Rightarrow> (nat list \<times> nat) option" where
  "index_views sh i [] idx = idx"
| "index_views sh i (e # es) idx = index_views sh (Suc i) es (idx(e \<mapsto> (sh, i)))"

definition install_group ::
  "proj \<Rightarrow> 'd tlayer \<Rightarrow> nat list \<times> (nat \<times> 'd tensor option) list \<Rightarrow> 'd tlayer res"
where
  "install_group p ly g =
     (let (sh, items) = g in
      if list_ex (\<lambda>(e, _). tl_experts ly \<le> e) items then Inl RuntimeError
      else Inr (ly\<lparr>tl_arenas := (tl_arenas ly)(p := (tl_arenas ly p)(sh \<mapsto> map snd items)),
                   tl_slots := (tl_slots ly)(p := install_views sh 0 (map fst items) (tl_slots ly p)),
                   tl_plan := map_option (\<lambda>idx. idx(p := index_views sh 0 (map fst items) (idx p)))
                     (tl_plan ly)\<rparr>))"

text \<open>
  \<open>prepare_trellis_arena_plan\<close>: aliased experts keep the memory-mapped side file, every other
  one gets an uninitialised slot.
\<close>

definition install_aliases :: "(proj \<Rightarrow> (nat, 'd tensor) odict) \<Rightarrow> 'd tlayer \<Rightarrow> 'd tlayer" where
  "install_aliases aliases ly =
     ly\<lparr>tl_slots := (\<lambda>p e. case od_get (aliases p) e of None \<Rightarrow> tl_slots ly p e | Some t \<Rightarrow> AliasP t)\<rparr>"

definition plan_items :: "(nat, 'd tensor) odict \<Rightarrow> shapes \<Rightarrow> (nat list \<times> (nat \<times> 'd tensor option)) list" where
  "plan_items aliased shp =
     map (\<lambda>(e, sh). (sh, (e, None)))
       (filter (\<lambda>(e, sh). od_get aliased e = None) (sort_key fst shp))"

definition prepare_trellis_arena_plan ::
  "(proj \<Rightarrow> (nat, 'd tensor) odict) \<Rightarrow> 'd tlayer \<Rightarrow> (proj \<Rightarrow> shapes) \<Rightarrow> 'd tlayer res"
where
  "prepare_trellis_arena_plan aliases ly shapes_by_proj =
     fold_res (\<lambda>ly p. fold_res (install_group p) ly (by_shape (plan_items (aliases p) (shapes_by_proj p))))
       ((install_aliases aliases ly)\<lparr>tl_plan := Some (\<lambda>_ _. None), tl_staging := (\<lambda>_. [])\<rparr>)
       [Gate, Up, Down]"

definition direct_fill_trellis_slot ::
  "(proj \<Rightarrow> (nat, 'd tensor) odict) \<Rightarrow> 'd tlayer \<Rightarrow> proj \<Rightarrow> nat \<Rightarrow> 'd tensor \<Rightarrow> 'd tlayer res"
where
  "direct_fill_trellis_slot aliases ly p e src =
     (case tl_plan ly of
        None \<Rightarrow> Inl RuntimeError
      | Some idx \<Rightarrow>
          (case idx p e of
             None \<Rightarrow>
               (case od_get (aliases p) e of
                  Some want \<Rightarrow> if fst src \<noteq> fst want then Inl RuntimeError else Inr ly
                | None \<Rightarrow> Inl RuntimeError)
           | Some (sh, i) \<Rightarrow>
               if fst src \<noteq> sh then Inl RuntimeError
               else (case tl_arenas ly p sh of
                       None \<Rightarrow> Inl KeyError
                     | Some slots \<Rightarrow>
                         Inr (ly\<lparr>tl_arenas := (tl_arenas ly)(p := (tl_arenas ly p)(sh \<mapsto> slots[i := Some src]))\<rparr>))))"

definition stage_trellis :: "'d tlayer \<Rightarrow> proj \<Rightarrow> nat \<Rightarrow> 'd tensor \<Rightarrow> 'd tlayer" where
  "stage_trellis ly p e t = ly\<lparr>tl_staging := (tl_staging ly)(p := od_set e t (tl_staging ly p))\<rparr>"

definition pack_items :: "(nat, 'd tensor) odict \<Rightarrow> (nat list \<times> (nat \<times> 'd tensor option)) list" where
  "pack_items staged =
     map (\<lambda>(e, t). (fst t, (e, Some t))) (filter (\<lambda>(e, t). numel t \<noteq> 0) (sort_key fst staged))"

definition pack_trellis_arenas :: "'d tlayer \<Rightarrow> 'd tlayer res" where
  "pack_trellis_arenas ly =
     (if tl_plan ly \<noteq> None then Inr ly
      else map_ok (\<lambda>ly'. ly'\<lparr>tl_staging := (\<lambda>_. [])\<rparr>)
        (fold_res (\<lambda>ly p. fold_res (install_group p) ly (by_shape (pack_items (tl_staging ly p)))) ly
          [Gate, Up, Down]))"

text \<open>
  The arena half of the trellis branch of \<open>_load_exl3\<close>: materialise a pending plan once, then
  fill directly; without a plan, stage.  With arenas disabled every expert owns its tensor.
\<close>

definition store_trellis ::
  "bool \<Rightarrow> (proj \<Rightarrow> (nat, 'd tensor) odict) \<Rightarrow> 'd tlayer \<Rightarrow> proj \<Rightarrow> nat \<Rightarrow> 'd tensor \<Rightarrow> 'd tlayer res"
where
  "store_trellis use_arena aliases ly p e t =
     (if tl_require_direct ly \<and> \<not> use_arena then Inl RuntimeError
      else if use_arena then
        bind_res (case (tl_pending ly, tl_plan ly) of
            (Some shp, None) \<Rightarrow>
              map_ok (\<lambda>ly'. ly'\<lparr>tl_pending := None\<rparr>) (prepare_trellis_arena_plan aliases ly shp)
          | _ \<Rightarrow> Inr ly) (\<lambda>ly1.
        if tl_plan ly1 \<noteq> None then direct_fill_trellis_slot aliases ly1 p e t
        else if tl_require_direct ly1 then Inl RuntimeError
        else Inr (stage_trellis ly1 p e t))
      else (case od_get (aliases p) e of
              Some a \<Rightarrow> Inr (ly\<lparr>tl_slots := (tl_slots ly)(p := (tl_slots ly p)(e := AliasP a))\<rparr>)
            | None \<Rightarrow> Inr (ly\<lparr>tl_slots := (tl_slots ly)(p := (tl_slots ly p)(e := OwnP t))\<rparr>)))"

section \<open>Grouping by shape\<close>

lemma add_to_group_keys:
  "map fst (add_to_group sh x gs) = (if sh \<in> set (map fst gs) then map fst gs else map fst gs @ [sh])"
proof (induction gs)
  case (Cons g gs)
  obtain s xs where g: "g = (s, xs)" by (cases g)
  show ?case by (cases "s = sh") (use Cons.IH in \<open>simp_all add: g\<close>)
qed simp

lemma add_to_group_items:
  "\<forall>g \<in> set gs. \<forall>y \<in> set (snd g). P (fst g) y \<Longrightarrow> P sh x \<Longrightarrow>
     \<forall>g \<in> set (add_to_group sh x gs). \<forall>y \<in> set (snd g). P (fst g) y"
  by (induction gs) ((auto split: if_splits)[1], (auto split: if_splits; force))

lemma add_to_group_concat: "mset (concat (map snd (add_to_group sh x gs))) = add_mset x (mset (concat (map snd gs)))"
  by (induction gs) auto

lemma by_shape_aux:
  "distinct (map fst gs) \<Longrightarrow> \<forall>g \<in> set gs. \<forall>y \<in> set (snd g). P (fst g) y \<Longrightarrow>
     \<forall>y \<in> set ys. P (fst y) (snd y) \<Longrightarrow>
     (let gs' = fold (\<lambda>(sh, x). add_to_group sh x) ys gs in
      distinct (map fst gs') \<and> (\<forall>g \<in> set gs'. \<forall>y \<in> set (snd g). P (fst g) y) \<and>
      mset (concat (map snd gs')) = mset (concat (map snd gs)) + mset (map snd ys))"
proof (induction ys arbitrary: gs)
  case (Cons y ys)
  obtain sh x where y: "y = (sh, x)" by (cases y)
  let ?g = "add_to_group sh x gs"
  have d: "distinct (map fst ?g)" using Cons.prems(1) unfolding add_to_group_keys by simp
  have p: "\<forall>g \<in> set ?g. \<forall>y \<in> set (snd g). P (fst g) y"
    by (rule add_to_group_items [OF Cons.prems(2)]) (use Cons.prems(3) y in auto)
  have "\<forall>y \<in> set ys. P (fst y) (snd y)" using Cons.prems(3) by auto
  from Cons.IH [OF d p this] show ?case
    by (simp add: y Let_def add_to_group_concat)
qed (simp add: Let_def)

lemma by_shape_props:
  "distinct (map fst (by_shape ys)) \<and>
   (\<forall>g \<in> set (by_shape ys). \<forall>x \<in> set (snd g). (fst g, x) \<in> set ys) \<and>
   mset (concat (map snd (by_shape ys))) = mset (map snd ys)"
  using by_shape_aux [of "[]" "\<lambda>s x. (s, x) \<in> set ys" ys]
  by (auto simp: by_shape_def Let_def)

section \<open>Views\<close>

lemma install_views_other: "e \<notin> set es \<Longrightarrow> install_views sh i es slots e = slots e"
  by (induction sh i es slots rule: install_views.induct) auto

lemma install_views_at:
  "distinct es \<Longrightarrow> j < length es \<Longrightarrow> install_views sh i es slots (es ! j) = ViewP sh (i + j)"
proof (induction es arbitrary: i j slots)
  case (Cons e es)
  show ?case
    by (cases j) (use Cons in \<open>auto simp: install_views_other\<close>)
qed simp

lemma index_views_other: "e \<notin> set es \<Longrightarrow> index_views sh i es idx e = idx e"
  by (induction sh i es idx rule: index_views.induct) auto

lemma index_views_at:
  "distinct es \<Longrightarrow> j < length es \<Longrightarrow> index_views sh i es idx (es ! j) = Some (sh, i + j)"
proof (induction es arbitrary: i j idx)
  case (Cons e es)
  show ?case
    by (cases j) (use Cons in \<open>auto simp: index_views_other\<close>)
qed simp

text \<open>
  What installing groups with distinct shapes and distinct experts does: each item is the view
  of its own slot with its own contents, nothing else moves.
\<close>

definition installed :: "'d tlayer \<Rightarrow> proj \<Rightarrow> nat \<Rightarrow> nat list \<Rightarrow> nat \<Rightarrow> 'd tensor option \<Rightarrow> bool" where
  "installed ly p e sh i t \<longleftrightarrow>
     tl_slots ly p e = ViewP sh i \<and>
     (\<exists>slots. tl_arenas ly p sh = Some slots \<and> i < length slots \<and> slots ! i = t) \<and>
     (\<forall>idx. tl_plan ly = Some idx \<longrightarrow> idx p e = Some (sh, i))"

lemma install_group_Inr:
  assumes "install_group p ly (sh, items) = Inr ly'"
  shows "ly' = ly\<lparr>tl_arenas := (tl_arenas ly)(p := (tl_arenas ly p)(sh \<mapsto> map snd items)),
      tl_slots := (tl_slots ly)(p := install_views sh 0 (map fst items) (tl_slots ly p)),
      tl_plan := map_option (\<lambda>idx. idx(p := index_views sh 0 (map fst items) (idx p))) (tl_plan ly)\<rparr> \<and>
    (\<forall>(e, t) \<in> set items. e < tl_experts ly)"
  using assms by (auto simp: install_group_def list_ex_iff split: if_splits)

lemma install_group_installed:
  assumes g: "install_group p ly (sh, items) = Inr ly'" and d: "distinct (map fst items)"
    and j: "j < length items"
  shows "installed ly' p (fst (items ! j)) sh j (snd (items ! j))"
  using install_group_Inr [OF g] install_views_at [OF d, of j sh 0] index_views_at [OF d, of j sh 0] j
  by (auto simp: installed_def)

lemma install_group_keeps:
  assumes g: "install_group p ly (sh, items) = Inr ly'" and i: "installed ly q e s i t"
    and "q \<noteq> p \<or> (s \<noteq> sh \<and> e \<notin> fst ` set items)"
  shows "installed ly' q e s i t"
  using install_group_Inr [OF g] i assms(3)
  by (auto simp: installed_def install_views_other index_views_other)

lemma install_groups:
  assumes "fold_res (install_group p) ly gs = Inr ly'"
    and "distinct (map fst gs)" and "distinct (map fst (concat (map snd gs)))"
  shows "(\<forall>(sh, items) \<in> set gs. \<forall>j < length items. installed ly' p (fst (items ! j)) sh j (snd (items ! j))) \<and>
    (\<forall>q e s i t. installed ly q e s i t \<longrightarrow>
       q \<noteq> p \<or> (s \<notin> fst ` set gs \<and> e \<notin> fst ` set (concat (map snd gs))) \<longrightarrow> installed ly' q e s i t) \<and>
    (\<forall>q e. q \<noteq> p \<or> e \<notin> fst ` set (concat (map snd gs)) \<longrightarrow> tl_slots ly' q e = tl_slots ly q e) \<and>
    tl_experts ly' = tl_experts ly \<and> tl_staging ly' = tl_staging ly \<and>
    (tl_plan ly' = None \<longleftrightarrow> tl_plan ly = None) \<and> tl_require_direct ly' = tl_require_direct ly \<and>
    tl_pending ly' = tl_pending ly \<and>
    (\<forall>idx idx'. tl_plan ly = Some idx \<longrightarrow> tl_plan ly' = Some idx' \<longrightarrow>
       (\<forall>q e. q \<noteq> p \<or> e \<notin> fst ` set (concat (map snd gs)) \<longrightarrow> idx' q e = idx q e))"
  using assms
proof (induction gs arbitrary: ly)
  case (Cons g gs)
  obtain sh items where g: "g = (sh, items)" by (cases g)
  obtain ly1 where s1: "install_group p ly (sh, items) = Inr ly1"
    and s2: "fold_res (install_group p) ly1 gs = Inr ly'"
    using Cons.prems(1) by (auto simp: g bind_res_Inr)
  have d: "distinct (map fst items)" "distinct (map fst gs)" "sh \<notin> fst ` set gs"
      "distinct (map fst (concat (map snd gs)))"
      "fst ` set items \<inter> fst ` set (concat (map snd gs)) = {}"
    using Cons.prems(2,3) by (auto simp: g)
  note ih = Cons.IH [OF s2 d(2,4)]
  note e1 = install_group_Inr [OF s1]
  have here: "installed ly' p (fst (items ! j)) sh j (snd (items ! j))" if "j < length items" for j
  proof -
    have "fst (items ! j) \<notin> fst ` set (concat (map snd gs))"
      using d(5) that by (metis disjoint_iff image_eqI nth_mem)
    then show ?thesis using install_group_installed [OF s1 d(1) that] ih d(3) by blast
  qed
  have keep: "installed ly' q e s i t"
    if "installed ly q e s i t" "q \<noteq> p \<or> (s \<notin> fst ` set (g # gs) \<and> e \<notin> fst ` set (concat (map snd (g # gs))))"
    for q e s i t
  proof -
    have "installed ly1 q e s i t"
      by (rule install_group_keeps [OF s1 that(1)]) (use that(2) in \<open>auto simp: g\<close>)
    moreover have "q \<noteq> p \<or> (s \<notin> fst ` set gs \<and> e \<notin> fst ` set (concat (map snd gs)))"
      using that(2) by (auto simp: g)
    ultimately show ?thesis using ih by blast
  qed
  have slots: "tl_slots ly' q e = tl_slots ly q e"
    if "q \<noteq> p \<or> e \<notin> fst ` set (concat (map snd (g # gs)))" for q e
  proof -
    have c: "q \<noteq> p \<or> e \<notin> fst ` set (concat (map snd gs))" "q \<noteq> p \<or> e \<notin> set (map fst items)"
      using that by (auto simp: g)
    have "tl_slots ly1 q e = tl_slots ly q e"
      using c(2) e1 by (cases "q = p") (simp_all add: install_views_other)
    moreover have "tl_slots ly' q e = tl_slots ly1 q e" using ih c(1) by blast
    ultimately show ?thesis by simp
  qed
  have index: "idx' q e = idx q e"
    if "tl_plan ly = Some idx" "tl_plan ly' = Some idx'"
      "q \<noteq> p \<or> e \<notin> fst ` set (concat (map snd (g # gs)))" for idx idx' q e
  proof -
    define idx1 where "idx1 = idx(p := index_views sh 0 (map fst items) (idx p))"
    have i1: "tl_plan ly1 = Some idx1" using e1 that(1) by (simp add: idx1_def)
    have c: "q \<noteq> p \<or> e \<notin> fst ` set (concat (map snd gs))" "q \<noteq> p \<or> e \<notin> set (map fst items)"
      using that(3) by (auto simp: g)
    have "idx' q e = idx1 q e" using ih i1 that(2) c(1) by blast
    moreover have "idx1 q e = idx q e"
      using c(2) by (cases "q = p") (simp_all add: idx1_def index_views_other)
    ultimately show ?thesis by simp
  qed
  have frame: "tl_experts ly' = tl_experts ly" "tl_staging ly' = tl_staging ly"
    "tl_plan ly' = None \<longleftrightarrow> tl_plan ly = None" "tl_require_direct ly' = tl_require_direct ly"
    "tl_pending ly' = tl_pending ly"
    using ih e1 by simp_all
  have all: "\<forall>(sh, items) \<in> set (g # gs). \<forall>j < length items.
      installed ly' p (fst (items ! j)) sh j (snd (items ! j))"
    using here ih by (auto simp: g)
  show ?case
    using all keep slots frame index by blast
qed auto

text \<open>The same facts as rules.\<close>

lemma install_groupsD:
  assumes run: "fold_res (install_group p) ly gs = Inr ly'"
    and d: "distinct (map fst gs)" "distinct (map fst (concat (map snd gs)))"
  shows "(sh, items) \<in> set gs \<Longrightarrow> j < length items \<Longrightarrow> installed ly' p (fst (items ! j)) sh j (snd (items ! j))"
    and "installed ly q e s i t \<Longrightarrow> q \<noteq> p \<Longrightarrow> installed ly' q e s i t"
    and "q \<noteq> p \<or> e \<notin> fst ` set (concat (map snd gs)) \<Longrightarrow> tl_slots ly' q e = tl_slots ly q e"
    and "tl_experts ly' = tl_experts ly" and "tl_staging ly' = tl_staging ly"
    and "tl_plan ly' = None \<longleftrightarrow> tl_plan ly = None" and "tl_require_direct ly' = tl_require_direct ly"
    and "tl_plan ly = Some idx \<Longrightarrow> tl_plan ly' = Some idx' \<Longrightarrow>
      q \<noteq> p \<or> e \<notin> fst ` set (concat (map snd gs)) \<Longrightarrow> idx' q e = idx q e"
  using install_groups [OF run d] by blast+

text \<open>All three projections, one after the other.\<close>

definition all_installed ::
  "(proj \<Rightarrow> (nat list \<times> (nat \<times> 'd tensor option) list) list) \<Rightarrow> 'd tlayer \<Rightarrow> 'd tlayer \<Rightarrow> bool"
where
  "all_installed groups ly ly' \<longleftrightarrow>
     (\<forall>p sh items j. (sh, items) \<in> set (groups p) \<longrightarrow> j < length items \<longrightarrow>
        installed ly' p (fst (items ! j)) sh j (snd (items ! j))) \<and>
     (\<forall>p e. e \<notin> fst ` set (concat (map snd (groups p))) \<longrightarrow> tl_slots ly' p e = tl_slots ly p e) \<and>
     (tl_plan ly' = None \<longleftrightarrow> tl_plan ly = None) \<and>
     (\<forall>idx idx'. tl_plan ly = Some idx \<longrightarrow> tl_plan ly' = Some idx' \<longrightarrow>
        (\<forall>p e. e \<notin> fst ` set (concat (map snd (groups p))) \<longrightarrow> idx' p e = idx p e))"

lemma all_installedD:
  assumes "all_installed groups ly ly'"
  shows "(sh, items) \<in> set (groups p) \<Longrightarrow> j < length items \<Longrightarrow>
      installed ly' p (fst (items ! j)) sh j (snd (items ! j))"
    and "e \<notin> fst ` set (concat (map snd (groups p))) \<Longrightarrow> tl_slots ly' p e = tl_slots ly p e"
    and "tl_plan ly' = None \<longleftrightarrow> tl_plan ly = None"
    and "tl_plan ly = Some idx \<Longrightarrow> tl_plan ly' = Some idx' \<Longrightarrow>
      e \<notin> fst ` set (concat (map snd (groups p))) \<Longrightarrow> idx' p e = idx p e"
  using assms unfolding all_installed_def by blast+

lemma install_projections:
  assumes run: "fold_res (\<lambda>ly p. fold_res (install_group p) ly (groups p)) ly [Gate, Up, Down] = Inr ly'"
    and d: "\<And>p. distinct (map fst (groups p))" "\<And>p. distinct (map fst (concat (map snd (groups p))))"
  shows "all_installed groups ly ly'"
proof -
  obtain l1 l2 where r: "fold_res (install_group Gate) ly (groups Gate) = Inr l1"
      "fold_res (install_group Up) l1 (groups Up) = Inr l2"
      "fold_res (install_group Down) l2 (groups Down) = Inr ly'"
    using run by (auto simp: bind_res_Inr)
  note g = install_groupsD [OF r(1) d] and u = install_groupsD [OF r(2) d] and w = install_groupsD [OF r(3) d]
  have inst: "installed ly' p (fst (items ! j)) sh j (snd (items ! j))"
    if "(sh, items) \<in> set (groups p)" "j < length items" for p sh items j
  proof (cases p)
    case Gate
    then have "installed l1 Gate (fst (items ! j)) sh j (snd (items ! j))" using g(1) that by simp
    from w(2) [OF u(2) [OF this]] show ?thesis using Gate by simp
  next
    case Up
    then have "installed l2 Up (fst (items ! j)) sh j (snd (items ! j))" using u(1) that by simp
    from w(2) [OF this] show ?thesis using Up by simp
  next
    case Down
    then show ?thesis using w(1) that by simp
  qed
  have slots: "tl_slots ly' p e = tl_slots ly p e"
    if "e \<notin> fst ` set (concat (map snd (groups p)))" for p e
  proof -
    have c: "p \<noteq> q \<or> e \<notin> fst ` set (concat (map snd (groups q)))" for q
      using that by (cases "q = p") simp_all
    show ?thesis using g(3) [OF c] u(3) [OF c] w(3) [OF c] by simp
  qed
  have index: "idx' p e = idx p e"
    if h: "tl_plan ly = Some idx" "tl_plan ly' = Some idx'" "e \<notin> fst ` set (concat (map snd (groups p)))"
    for idx idx' p e
  proof -
    obtain i1 where i1: "tl_plan l1 = Some i1" using g(6) h(1) by (cases "tl_plan l1") simp_all
    obtain i2 where i2: "tl_plan l2 = Some i2" using u(6) i1 by (cases "tl_plan l2") simp_all
    have c: "p \<noteq> q \<or> e \<notin> fst ` set (concat (map snd (groups q)))" for q
      using h(3) by (cases "q = p") simp_all
    show ?thesis
      using g(8) [OF h(1) i1 c] u(8) [OF i1 i2 c] w(8) [OF i2 h(2) c] by simp
  qed
  have "tl_plan ly' = None \<longleftrightarrow> tl_plan ly = None" by (simp only: g(6) u(6) w(6))
  then show ?thesis unfolding all_installed_def using inst slots index by blast
qed

lemma by_shape_distinct:
  "distinct (map (fst \<circ> snd) ys) \<Longrightarrow> distinct (map fst (concat (map snd (by_shape ys))))"
proof -
  assume d: "distinct (map (fst \<circ> snd) ys)"
  have "mset (map fst (concat (map snd (by_shape ys)))) = mset (map fst (map snd ys))"
    using by_shape_props [of ys] by (metis mset_map)
  then show ?thesis using d by (metis map_map mset_eq_imp_distinct_iff)
qed

text \<open>Every planned tensor is the member of one group.\<close>

lemma by_shape_member:
  assumes "(sh, x) \<in> set ys" and d: "distinct (map (fst \<circ> snd) ys)"
  shows "\<exists>items j. (sh, items) \<in> set (by_shape ys) \<and> j < length items \<and> items ! j = x"
proof -
  have "set (concat (map snd (by_shape ys))) = set (map snd ys)"
    using by_shape_props [of ys] by (metis set_mset_mset)
  then have "x \<in> set (concat (map snd (by_shape ys)))" using assms(1) by force
  then obtain g where g: "g \<in> set (by_shape ys)" "x \<in> set (snd g)" by auto
  then have "(fst g, x) \<in> set ys" using by_shape_props [of ys] by blast
  then have "fst g = sh" using assms d by (metis (no_types) comp_apply distinct_map fst_conv inj_onD snd_conv)
  moreover obtain j where "j < length (snd g)" "snd g ! j = x" using g(2) by (metis in_set_conv_nth)
  ultimately show ?thesis using g(1) by (metis prod.collapse)
qed

lemma plan_items_distinct:
  assumes "od_ok shp"
  shows "distinct (map (fst \<circ> snd) (plan_items aliased shp))"
proof -
  have "distinct (map fst (sort_key fst shp))"
    by (rule mset_eq_imp_distinct_iff [THEN iffD1, of "map fst shp"])
      (use assms in \<open>simp_all add: od_ok_def od_keys_def\<close>)
  then have "distinct (map fst (filter (\<lambda>(e, sh). od_get aliased e = None) (sort_key fst shp)))"
    by (rule distinct_map_filter_key)
  moreover have "map (fst \<circ> snd) (plan_items aliased shp) =
      map fst (filter (\<lambda>(e, sh). od_get aliased e = None) (sort_key fst shp))"
    unfolding plan_items_def map_map by (rule map_cong) auto
  ultimately show ?thesis by simp
qed

lemma pack_items_distinct:
  assumes "od_ok st"
  shows "distinct (map (fst \<circ> snd) (pack_items st))"
proof -
  have "distinct (map fst (sort_key fst st))"
    by (rule mset_eq_imp_distinct_iff [THEN iffD1, of "map fst st"])
      (use assms in \<open>simp_all add: od_ok_def od_keys_def\<close>)
  then have "distinct (map fst (filter (\<lambda>(e, t). numel t \<noteq> 0) (sort_key fst st)))"
    by (rule distinct_map_filter_key)
  moreover have "map (fst \<circ> snd) (pack_items st) = map fst (filter (\<lambda>(e, t). numel t \<noteq> 0) (sort_key fst st))"
    unfolding pack_items_def map_map by (rule map_cong) auto
  ultimately show ?thesis by simp
qed

section \<open>The plan and its invariant\<close>

text \<open>
  Two experts never share a slot, and a planned parameter is the view of its slot.
\<close>

definition plan_ok :: "'d tlayer \<Rightarrow> slot_index \<Rightarrow> bool" where
  "plan_ok ly idx \<longleftrightarrow> tl_plan ly = Some idx \<and>
     (\<forall>p e sh i. idx p e = Some (sh, i) \<longrightarrow> tl_slots ly p e = ViewP sh i \<and>
        (\<exists>slots. tl_arenas ly p sh = Some slots \<and> i < length slots) \<and>
        (\<forall>e'. idx p e' = Some (sh, i) \<longrightarrow> e' = e))"

lemma prepare_plan:
  assumes pr: "prepare_trellis_arena_plan aliases ly shp = Inr ly'" and ok: "\<And>p. od_ok (shp p)"
  shows "\<exists>idx. plan_ok ly' idx \<and>
    (\<forall>p e sh. (\<exists>i. idx p e = Some (sh, i)) \<longleftrightarrow> od_get (shp p) e = Some sh \<and> od_get (aliases p) e = None) \<and>
    (\<forall>p e t. od_get (aliases p) e = Some t \<longrightarrow> tl_slots ly' p e = AliasP t)"
proof -
  define groups :: "proj \<Rightarrow> (nat list \<times> (nat \<times> 'a tensor option) list) list"
    where "groups p = by_shape (plan_items (aliases p) (shp p))" for p
  let ?ly0 = "(install_aliases aliases ly)\<lparr>tl_plan := Some (\<lambda>_ _. None), tl_staging := (\<lambda>_. [])\<rparr>"
  have run: "fold_res (\<lambda>ly p. fold_res (install_group p) ly (groups p)) ?ly0 [Gate, Up, Down] = Inr ly'"
    using pr by (simp add: prepare_trellis_arena_plan_def groups_def)
  have d1: "distinct (map fst (groups p))" for p using by_shape_props unfolding groups_def by blast
  have d2: "distinct (map fst (concat (map snd (groups p))))" for p
    unfolding groups_def by (rule by_shape_distinct) (rule plan_items_distinct [OF ok])
  note ip = all_installedD [OF install_projections [OF run d1 d2]]
  obtain idx where idx: "tl_plan ly' = Some idx" using ip(3) by (cases "tl_plan ly'") simp_all
  have mem: "(sh, (e, None)) \<in> set (plan_items (aliases p) (shp p)) \<longleftrightarrow>
      od_get (shp p) e = Some sh \<and> od_get (aliases p) e = None" for p e sh
    using od_get_in [OF ok [of p], of e sh] od_get_Some_in [of "shp p" e sh]
    by (auto simp: plan_items_def)
  have all: "\<exists>sh items j. (sh, items) \<in> set (groups p) \<and> j < length items \<and> fst (items ! j) = e"
    if "e \<in> fst ` set (concat (map snd (groups p)))" for p e
    using that by (fastforce simp: in_set_conv_nth)
  have at: "idx p (fst (items ! j)) = Some (sh, j) \<and> tl_slots ly' p (fst (items ! j)) = ViewP sh j \<and>
      (\<exists>slots. tl_arenas ly' p sh = Some slots \<and> j < length slots)"
    if "(sh, items) \<in> set (groups p)" "j < length items" for p sh items j
    using ip(1) [OF that] idx unfolding installed_def by blast
  have none: "idx p e = None" if "e \<notin> fst ` set (concat (map snd (groups p)))" for p e
    using ip(4) [OF _ idx that] by simp
  have src: "\<exists>items. (sh, items) \<in> set (groups p) \<and> i < length items \<and> fst (items ! i) = e"
    if i: "idx p e = Some (sh, i)" for p e sh i
  proof -
    have "e \<in> fst ` set (concat (map snd (groups p)))" using none i by fastforce
    then obtain sh' items j where h: "(sh', items) \<in> set (groups p)" "j < length items" "fst (items ! j) = e"
      using all by blast
    then have "sh' = sh \<and> j = i" using at [OF h(1,2)] i by simp
    then show ?thesis using h by blast
  qed
  have "plan_ok ly' idx"
    unfolding plan_ok_def
  proof (intro conjI allI impI)
    show "tl_plan ly' = Some idx" by (rule idx)
  next
    fix p e sh i assume i: "idx p e = Some (sh, i)"
    obtain items where h: "(sh, items) \<in> set (groups p)" "i < length items" "fst (items ! i) = e"
      using src [OF i] by blast
    show "tl_slots ly' p e = ViewP sh i" "\<exists>slots. tl_arenas ly' p sh = Some slots \<and> i < length slots"
      using at [OF h(1,2)] h(3) by auto
    fix e' assume "idx p e' = Some (sh, i)"
    then obtain items' where h': "(sh, items') \<in> set (groups p)" "fst (items' ! i) = e'" using src by blast
    have "items' = items" using d1 [of p] h(1) h'(1) by (metis eq_key_imp_eq_value)
    then show "e' = e" using h(3) h'(2) by simp
  qed
  moreover have "(\<exists>i. idx p e = Some (sh, i)) \<longleftrightarrow> od_get (shp p) e = Some sh \<and> od_get (aliases p) e = None"
    for p e sh
  proof
    assume "\<exists>i. idx p e = Some (sh, i)"
    then obtain i items where h: "(sh, items) \<in> set (groups p)" "i < length items" "fst (items ! i) = e"
      using src by blast
    have "items ! i \<in> set items" using h(2) by simp
    then have "(sh, items ! i) \<in> set (plan_items (aliases p) (shp p))"
      using by_shape_props [of "plan_items (aliases p) (shp p)"] h(1) unfolding groups_def by fastforce
    then have "(sh, (e, None)) \<in> set (plan_items (aliases p) (shp p))" using h(3) by (auto simp: plan_items_def)
    then show "od_get (shp p) e = Some sh \<and> od_get (aliases p) e = None" using mem by blast
  next
    assume "od_get (shp p) e = Some sh \<and> od_get (aliases p) e = None"
    then have "(sh, (e, None)) \<in> set (plan_items (aliases p) (shp p))" using mem by blast
    from by_shape_member [OF this plan_items_distinct [OF ok]]
    obtain items j where h: "(sh, items) \<in> set (groups p)" "j < length items" "items ! j = (e, None)"
      unfolding groups_def by blast
    then show "\<exists>i. idx p e = Some (sh, i)" using at [OF h(1,2)] by auto
  qed
  moreover have "tl_slots ly' p e = AliasP t" if "od_get (aliases p) e = Some t" for p e t
  proof -
    have "e \<notin> fst ` set (concat (map snd (groups p)))"
    proof
      assume "e \<in> fst ` set (concat (map snd (groups p)))"
      then obtain sh items j where h: "(sh, items) \<in> set (groups p)" "j < length items" "fst (items ! j) = e"
        using all by blast
      have "(sh, items ! j) \<in> set (plan_items (aliases p) (shp p))"
        using by_shape_props [of "plan_items (aliases p) (shp p)"] h(1,2) nth_mem unfolding groups_def
        by fastforce
      then show False using h(3) that by (auto simp: plan_items_def)
    qed
    then show ?thesis using ip(2) that by (simp add: install_aliases_def)
  qed
  ultimately show ?thesis by blast
qed

text \<open>Planning succeeds when every planned expert is one of the layer's.\<close>

definition same_setup :: "'d tlayer \<Rightarrow> 'd tlayer \<Rightarrow> bool" where
  "same_setup ly ly' \<longleftrightarrow> tl_experts ly' = tl_experts ly \<and> tl_require_direct ly' = tl_require_direct ly \<and>
     tl_pending ly' = tl_pending ly"

lemma install_group_total:
  assumes "\<forall>(e, t) \<in> set (snd g). e < tl_experts ly" and "same_setup ly ly1"
  shows "\<exists>ly'. install_group p ly1 g = Inr ly' \<and> same_setup ly ly'"
  using assms by (cases g) (auto simp: install_group_def list_ex_iff not_le same_setup_def)

lemma prepare_total:
  assumes "\<And>p e sh. (e, sh) \<in> set (shp p) \<Longrightarrow> e < tl_experts ly"
  shows "\<exists>ly'. prepare_trellis_arena_plan aliases ly shp = Inr ly' \<and> same_setup ly ly'"
  unfolding prepare_trellis_arena_plan_def
proof (rule fold_res_total [where P = "same_setup ly"])
  fix ly1 p assume P: "same_setup ly ly1"
  show "\<exists>ly'. fold_res (install_group p) ly1 (by_shape (plan_items (aliases p) (shp p))) = Inr ly' \<and> same_setup ly ly'"
  proof (rule fold_res_total [where P = "same_setup ly", OF P])
    fix ly2 g
    assume g: "g \<in> set (by_shape (plan_items (aliases p) (shp p)))" and P2: "same_setup ly ly2"
    have "e < tl_experts ly" if "(e, t) \<in> set (snd g)" for e t
    proof -
      have "(fst g, (e, t)) \<in> set (plan_items (aliases p) (shp p))"
        using by_shape_props [of "plan_items (aliases p) (shp p)"] g that by blast
      then show ?thesis using assms by (auto simp: plan_items_def)
    qed
    then show "\<exists>ly'. install_group p ly2 g = Inr ly' \<and> same_setup ly ly'"
      by (intro install_group_total P2) auto
  qed
qed (simp add: same_setup_def install_aliases_def)

section \<open>Filling\<close>

lemma direct_fill:
  assumes ok: "plan_ok ly idx" and fill: "direct_fill_trellis_slot aliases ly p e t = Inr ly'"
  shows "plan_ok ly' idx \<and> (idx p e \<noteq> None \<longrightarrow> param_tensor ly' p e = Some t) \<and>
    (\<forall>q f. (q, f) \<noteq> (p, e) \<longrightarrow> idx q f \<noteq> None \<longrightarrow> param_tensor ly' q f = param_tensor ly q f) \<and>
    tl_slots ly' = tl_slots ly"
proof (cases "idx p e")
  case None
  then have "ly' = ly"
    using ok fill by (auto simp: direct_fill_trellis_slot_def plan_ok_def split: option.splits if_splits)
  then show ?thesis using ok None by simp
next
  case (Some si)
  obtain sh i where si: "si = (sh, i)" by (cases si)
  have e: "tl_slots ly p e = ViewP sh i" "\<forall>e'. idx p e' = Some (sh, i) \<longrightarrow> e' = e"
    using ok Some si by (auto simp: plan_ok_def)
  obtain slots where sl: "tl_arenas ly p sh = Some slots" "i < length slots"
    using ok Some si unfolding plan_ok_def by blast
  have ly': "ly' = ly\<lparr>tl_arenas := (tl_arenas ly)(p := (tl_arenas ly p)(sh \<mapsto> slots[i := Some t]))\<rparr>"
    using ok fill Some si sl
    by (auto simp: direct_fill_trellis_slot_def plan_ok_def split: if_splits)
  have "plan_ok ly' idx"
    unfolding plan_ok_def
  proof (intro conjI allI impI)
    show "tl_plan ly' = Some idx" using ok by (simp add: ly' plan_ok_def)
  next
    fix q f s j assume f: "idx q f = Some (s, j)"
    then have "tl_slots ly q f = ViewP s j" "\<exists>sl. tl_arenas ly q s = Some sl \<and> j < length sl"
      using ok unfolding plan_ok_def by blast+
    then show "tl_slots ly' q f = ViewP s j" "\<exists>sl. tl_arenas ly' q s = Some sl \<and> j < length sl"
      using sl by (auto simp: ly')
    fix f' assume "idx q f' = Some (s, j)"
    then show "f' = f" using ok f unfolding plan_ok_def by blast
  qed
  moreover have "param_tensor ly' p e = Some t" using e(1) sl by (simp add: param_tensor_def ly')
  moreover have "param_tensor ly' q f = param_tensor ly q f"
    if ne: "(q, f) \<noteq> (p, e)" and pl: "idx q f \<noteq> None" for q f
  proof -
    obtain s j where f: "idx q f = Some (s, j)" using pl by auto
    then have v: "tl_slots ly q f = ViewP s j" using ok unfolding plan_ok_def by blast
    have "\<not> (q = p \<and> s = sh \<and> j = i)" using ne f e(2) by auto
    then show ?thesis using v sl by (auto simp: param_tensor_def ly' nth_list_update)
  qed
  ultimately show ?thesis using e by (simp add: ly')
qed

type_synonym 'd delivery = "proj \<times> nat \<times> 'd tensor"

definition fill_all ::
  "(proj \<Rightarrow> (nat, 'd tensor) odict) \<Rightarrow> 'd tlayer \<Rightarrow> 'd delivery list \<Rightarrow> 'd tlayer res"
where
  "fill_all aliases ly ds = fold_res (\<lambda>ly (p, e, t). direct_fill_trellis_slot aliases ly p e t) ly ds"

definition stage_all :: "'d tlayer \<Rightarrow> 'd delivery list \<Rightarrow> 'd tlayer" where
  "stage_all ly ds = fold (\<lambda>(p, e, t) ly. stage_trellis ly p e t) ds ly"

lemma fill_all_planned:
  assumes "fill_all aliases ly ds = Inr ly'" and "plan_ok ly idx"
    and "distinct (map (\<lambda>(p, e, t). (p, e)) ds)"
  shows "plan_ok ly' idx \<and> tl_slots ly' = tl_slots ly \<and>
    (\<forall>(p, e, t) \<in> set ds. idx p e \<noteq> None \<longrightarrow> param_tensor ly' p e = Some t) \<and>
    (\<forall>q f. (q, f) \<notin> set (map (\<lambda>(p, e, t). (p, e)) ds) \<longrightarrow> idx q f \<noteq> None \<longrightarrow>
       param_tensor ly' q f = param_tensor ly q f)"
  using assms
proof (induction ds arbitrary: ly)
  case (Cons d ds)
  obtain p e t where d: "d = (p, e, t)" by (cases d)
  obtain ly1 where f: "direct_fill_trellis_slot aliases ly p e t = Inr ly1"
    and r: "fill_all aliases ly1 ds = Inr ly'"
    using Cons.prems(1) by (auto simp: fill_all_def d bind_res_Inr)
  note df = direct_fill [OF Cons.prems(2) f]
  have dist: "distinct (map (\<lambda>(p, e, t). (p, e)) ds)" "(p, e) \<notin> set (map (\<lambda>(p, e, t). (p, e)) ds)"
    using Cons.prems(3) by (simp_all add: d)
  have ok1: "plan_ok ly1 idx" using df by blast
  note ih = Cons.IH [OF r ok1 dist(1)]
  have here: "param_tensor ly' p e = Some t" if "idx p e \<noteq> None"
    using ih df dist(2) that by simp
  have "param_tensor ly' q f = param_tensor ly q f"
    if "(q, f) \<notin> set (map (\<lambda>(p, e, t). (p, e)) (d # ds))" "idx q f \<noteq> None" for q f
  proof -
    have "(q, f) \<noteq> (p, e)" "(q, f) \<notin> set (map (\<lambda>(p, e, t). (p, e)) ds)" using that(1) by (simp_all add: d)
    then show ?thesis using ih df that(2) by simp
  qed
  moreover have "plan_ok ly' idx \<and> tl_slots ly' = tl_slots ly" using ih df by simp
  moreover have "\<forall>(p, e, t) \<in> set (d # ds). idx p e \<noteq> None \<longrightarrow> param_tensor ly' p e = Some t"
    using ih here unfolding d by simp
  ultimately show ?case by blast
qed (simp add: fill_all_def)

text \<open>Everything delivered for a planned layer is planned: an unplanned tensor is refused.\<close>

lemma direct_fill_indexed:
  "direct_fill_trellis_slot (\<lambda>_. []) ly p e t = Inr ly' \<Longrightarrow> tl_plan ly = Some idx \<Longrightarrow> idx p e \<noteq> None"
  by (auto simp: direct_fill_trellis_slot_def od_get_def split: option.splits)

lemma fill_all_indexed:
  assumes "fill_all (\<lambda>_. []) ly ds = Inr ly'" and "plan_ok ly idx" and "(p, e, t) \<in> set ds"
  shows "idx p e \<noteq> None"
  using assms
proof (induction ds arbitrary: ly)
  case (Cons d ds)
  obtain q f u where d: "d = (q, f, u)" by (cases d)
  obtain ly1 where f1: "direct_fill_trellis_slot (\<lambda>_. []) ly q f u = Inr ly1"
    and r: "fill_all (\<lambda>_. []) ly1 ds = Inr ly'"
    using Cons.prems(1) by (auto simp: fill_all_def d bind_res_Inr)
  have "plan_ok ly1 idx" using direct_fill [OF Cons.prems(2) f1] by blast
  then show ?case
    using Cons.IH [OF r] Cons.prems(3) direct_fill_indexed [OF f1] Cons.prems(2)
    by (auto simp: d plan_ok_def)
qed simp

section \<open>Staging and packing\<close>

lemma stage_all_staging:
  "tl_staging (stage_all ly ds) p = fold (\<lambda>(q, e, t) d. if q = p then od_set e t d else d) ds (tl_staging ly p)"
  unfolding stage_all_def
  by (induction ds arbitrary: ly) (auto simp: stage_trellis_def)

lemma stage_all_frame:
  "tl_plan (stage_all ly ds) = tl_plan ly \<and> tl_slots (stage_all ly ds) = tl_slots ly"
  unfolding stage_all_def
  by (induction ds arbitrary: ly) (auto simp: stage_trellis_def)

lemma staged_ok: "od_ok d \<Longrightarrow> od_ok (fold (\<lambda>(q, e, t) d. if q = p then od_set e t d else d) ds d)"
  by (induction ds arbitrary: d) auto

lemma staged_get_other:
  "(p, e) \<notin> set (map (\<lambda>(p, e, t). (p, e)) ds) \<Longrightarrow>
     od_get (fold (\<lambda>(q, e, t) d. if q = p then od_set e t d else d) ds d) e = od_get d e"
proof (induction ds arbitrary: d)
  case (Cons x ds)
  obtain q f u where x: "x = (q, f, u)" by (cases x)
  show ?case using Cons by (auto simp: x)
qed simp

lemma staged_get:
  "distinct (map (\<lambda>(p, e, t). (p, e)) ds) \<Longrightarrow> (p, e, t) \<in> set ds \<Longrightarrow>
     od_get (fold (\<lambda>(q, e, t) d. if q = p then od_set e t d else d) ds d) e = Some t"
proof (induction ds arbitrary: d)
  case (Cons x ds)
  obtain q f u where x: "x = (q, f, u)" by (cases x)
  show ?case
  proof (cases "(p, e, t) = x")
    case True
    then have "(p, e) \<notin> set (map (\<lambda>(p, e, t). (p, e)) ds)" using Cons.prems(1) by (simp add: x)
    from staged_get_other [OF this] show ?thesis using True by (simp add: x)
  next
    case False
    then have "(p, e, t) \<in> set ds" using Cons.prems(2) by auto
    then show ?thesis using Cons.IH Cons.prems(1) by (simp add: x)
  qed
qed simp

lemma install_group_staging: "install_group p ly g = Inr ly' \<Longrightarrow> tl_staging ly' = tl_staging ly"
  by (cases g) (auto simp: install_group_def split: if_splits)

lemma install_groups_staging:
  "fold_res (install_group p) ly gs = Inr ly' \<Longrightarrow> tl_staging ly' = tl_staging ly"
  by (induction gs arbitrary: ly) (auto simp: bind_res_Inr dest: install_group_staging)

text \<open>Packing one projection does not touch what is staged for the others.\<close>

lemma pack_fold_cong:
  assumes "\<And>p. groups p = by_shape (pack_items (tl_staging ly p))"
  shows "fold_res (\<lambda>ly' p. fold_res (install_group p) ly' (by_shape (pack_items (tl_staging ly' p)))) ly ps =
    fold_res (\<lambda>ly' p. fold_res (install_group p) ly' (groups p)) ly ps"
  using assms
proof (induction ps arbitrary: ly)
  case (Cons p ps)
  have "fold_res (\<lambda>ly' p. fold_res (install_group p) ly' (by_shape (pack_items (tl_staging ly' p)))) ly1 ps =
      fold_res (\<lambda>ly' p. fold_res (install_group p) ly' (groups p)) ly1 ps"
    if "fold_res (install_group p) ly (groups p) = Inr ly1" for ly1
    by (rule Cons.IH) (simp only: Cons.prems install_groups_staging [OF that])
  then show ?case unfolding fold_res.simps Cons.prems [symmetric] by (rule bind_res_cong [OF refl])
qed simp

lemma pack_exact:
  assumes pk: "pack_trellis_arenas ly = Inr ly'" and np: "tl_plan ly = None"
    and ok: "\<And>p. od_ok (tl_staging ly p)" and st: "od_get (tl_staging ly p) e = Some t" and ne: "numel t \<noteq> 0"
  shows "param_tensor ly' p e = Some t"
proof -
  define groups :: "proj \<Rightarrow> (nat list \<times> (nat \<times> 'a tensor option) list) list"
    where "groups p = by_shape (pack_items (tl_staging ly p))" for p
  have "fold_res (\<lambda>ly' p. fold_res (install_group p) ly' (by_shape (pack_items (tl_staging ly' p)))) ly [Gate, Up, Down] =
      fold_res (\<lambda>ly' p. fold_res (install_group p) ly' (groups p)) ly [Gate, Up, Down]"
    by (rule pack_fold_cong) (simp add: groups_def)
  then obtain ly1 where run: "fold_res (\<lambda>ly' p. fold_res (install_group p) ly' (groups p)) ly [Gate, Up, Down] = Inr ly1"
    and ly': "ly' = ly1\<lparr>tl_staging := (\<lambda>_. [])\<rparr>"
    using pk np by (auto simp: pack_trellis_arenas_def map_ok_def bind_res_Inr)
  have d1: "distinct (map fst (groups p))" for p using by_shape_props unfolding groups_def by blast
  have d2: "distinct (map fst (concat (map snd (groups p))))" for p
    unfolding groups_def by (rule by_shape_distinct) (rule pack_items_distinct [OF ok])
  have "(fst t, (e, Some t)) \<in> set (pack_items (tl_staging ly p))"
    using od_get_Some_in [OF st] ne by (force simp: pack_items_def)
  from by_shape_member [OF this pack_items_distinct [OF ok]]
  obtain items j where h: "(fst t, items) \<in> set (groups p)" "j < length items" "items ! j = (e, Some t)"
    unfolding groups_def by blast
  have "installed ly1 p e (fst t) j (Some t)"
    using all_installedD(1) [OF install_projections [OF run d1 d2] h(1,2)] h(3) by simp
  then show ?thesis by (auto simp: installed_def param_tensor_def ly')
qed

section \<open>A small layer\<close>

definition demo_layer :: "nat tlayer" where
  "demo_layer = \<lparr>tl_experts = 2, tl_slots = (\<lambda>_ _. EmptyP), tl_arenas = (\<lambda>_ _. None), tl_plan = None,
     tl_pending = None, tl_require_direct = False, tl_staging = (\<lambda>_. [])\<rparr>"

text \<open>Expert 1 has a wider down projection: two arenas for it, mixed widths in one layer.\<close>

definition demo_shapes :: "proj \<Rightarrow> shapes" where
  "demo_shapes p = (case p of Down \<Rightarrow> [(1, [2, 1, 48]), (0, [2, 1, 32])] | _ \<Rightarrow> [(0, [1, 2, 32]), (1, [1, 2, 32])])"

definition demo_deliveries :: "nat delivery list" where
  "demo_deliveries = [(Down, 1, ([2, 1, 48], 7)), (Gate, 1, ([1, 2, 32], 5)), (Gate, 0, ([1, 2, 32], 4)),
     (Down, 0, ([2, 1, 32], 6)), (Up, 0, ([1, 2, 32], 8)), (Up, 1, ([1, 2, 32], 9))]"

lemma demo_load:
  "\<exists>ly1 ly2 ly3. prepare_trellis_arena_plan (\<lambda>_. []) demo_layer demo_shapes = Inr ly1 \<and>
     fill_all (\<lambda>_. []) ly1 demo_deliveries = Inr ly2 \<and>
     pack_trellis_arenas (stage_all demo_layer demo_deliveries) = Inr ly3"
  by (simp add: prepare_trellis_arena_plan_def demo_layer_def demo_shapes_def install_aliases_def
      plan_items_def by_shape_def install_group_def fill_all_def demo_deliveries_def
      direct_fill_trellis_slot_def stage_all_def stage_trellis_def pack_trellis_arenas_def
      pack_items_def map_ok_def numel_def od_set_def od_get_def)

section \<open>Properties\<close>

text \<open>C6: planned and staged loading give the same parameters.  When the tensors of a layer arrive in any
  order, copying each straight into its planned arena slot ends with the same contents of every expert's
  parameter as staging all of them and packing the arenas afterwards: exactly the tensor that was
  delivered for it, at its own shape, whatever the mixture of bit widths.\<close>

theorem direct_equals_staged:
  assumes plan: "prepare_trellis_arena_plan (\<lambda>_. []) ly shp = Inr ly1" and shp: "\<forall>p. od_ok (shp p)"
    and fill: "fill_all (\<lambda>_. []) ly1 ds = Inr ly2"
    and fresh: "tl_plan ly = None" "tl_staging ly = (\<lambda>_. [])"
    and pack: "pack_trellis_arenas (stage_all ly ds) = Inr ly3"
    and once: "distinct (map (\<lambda>(p, e, t). (p, e)) ds)"
    and d: "(p, e, t) \<in> set ds" and ne: "numel t \<noteq> 0"
  shows "param_tensor ly2 p e = Some t \<and> param_tensor ly3 p e = Some t"
proof
  obtain idx where ok: "plan_ok ly1 idx" using prepare_plan [OF plan, of] shp by blast
  have "idx p e \<noteq> None" by (rule fill_all_indexed [OF fill ok d])
  then show "param_tensor ly2 p e = Some t" using fill_all_planned [OF fill ok once] d by blast
next
  show "param_tensor ly3 p e = Some t"
  proof (rule pack_exact [OF pack])
    show "tl_plan (stage_all ly ds) = None" by (simp add: stage_all_frame fresh)
    show "od_ok (tl_staging (stage_all ly ds) q)" for q
      unfolding stage_all_staging by (rule staged_ok) (simp add: fresh)
    show "od_get (tl_staging (stage_all ly ds) p) e = Some t"
      unfolding stage_all_staging by (rule staged_get [OF once d])
  qed (rule ne)
qed

lemma direct_equals_staged_witness:
  "\<exists>ly2 ly3. param_tensor ly2 Down 1 = Some ([2, 1, 48], 7 :: nat) \<and>
     param_tensor ly3 Down 1 = Some ([2, 1, 48], 7 :: nat)"
proof -
  obtain ly1 ly2 ly3 where h: "prepare_trellis_arena_plan (\<lambda>_. []) demo_layer demo_shapes = Inr ly1"
      "fill_all (\<lambda>_. []) ly1 demo_deliveries = Inr ly2"
      "pack_trellis_arenas (stage_all demo_layer demo_deliveries) = Inr ly3"
    using demo_load by blast
  have "\<forall>p. od_ok (demo_shapes p)" by (auto simp: demo_shapes_def od_ok_def od_keys_def split: proj.split)
  then show ?thesis
    using direct_equals_staged [OF h(1) _ h(2) _ _ h(3), of Down 1 "([2, 1, 48], 7)"]
    by (auto simp: demo_layer_def demo_deliveries_def numel_def)
qed

text \<open>Filling one slot changes no other expert.  On a layer with a plan, a direct fill that succeeds
  stores exactly the given tensor for its expert and leaves the parameter of every other planned expert
  as it was: no two experts share a slot, whatever their shapes.\<close>

theorem fill_touches_one_expert:
  assumes plan: "prepare_trellis_arena_plan aliases ly shp = Inr ly1" and shp: "\<forall>p. od_ok (shp p)"
    and before: "fill_all aliases ly1 ds = Inr ly2" and once: "distinct (map (\<lambda>(p, e, t). (p, e)) ds)"
    and fill: "direct_fill_trellis_slot aliases ly2 p e t = Inr ly3"
    and planned: "od_get (shp p) e \<noteq> None" "od_get (aliases p) e = None"
    and other: "od_get (shp q) f \<noteq> None" "od_get (aliases q) f = None" "(q, f) \<noteq> (p, e)"
  shows "param_tensor ly3 p e = Some t \<and> param_tensor ly3 q f = param_tensor ly2 q f"
proof -
  obtain idx where ok: "plan_ok ly1 idx"
    and ix: "\<forall>p e sh. (\<exists>i. idx p e = Some (sh, i)) \<longleftrightarrow> od_get (shp p) e = Some sh \<and> od_get (aliases p) e = None"
    using prepare_plan [OF plan, of] shp by blast
  have "plan_ok ly2 idx" using fill_all_planned [OF before ok once] by blast
  note df = direct_fill [OF this fill]
  have "idx p e \<noteq> None" "idx q f \<noteq> None" using ix planned other by (metis not_None_eq)+
  then show ?thesis using df other(3) by blast
qed

lemma fill_touches_one_expert_witness:
  "\<exists>ly2 ly3. direct_fill_trellis_slot (\<lambda>_. []) ly2 Gate 0 ([1, 2, 32], 99 :: nat) = Inr ly3 \<and>
     param_tensor ly3 Gate 0 = Some ([1, 2, 32], 99) \<and> param_tensor ly3 Gate 1 = param_tensor ly2 Gate 1"
proof -
  obtain ly1 ly2 where h: "prepare_trellis_arena_plan (\<lambda>_. []) demo_layer demo_shapes = Inr ly1"
      "fill_all (\<lambda>_. []) ly1 demo_deliveries = Inr ly2"
    using demo_load by blast
  have "\<exists>ly3. direct_fill_trellis_slot (\<lambda>_. []) ly2 Gate 0 ([1, 2, 32], 99) = Inr ly3"
    using h by (auto simp: prepare_trellis_arena_plan_def demo_layer_def demo_shapes_def install_aliases_def
      plan_items_def by_shape_def install_group_def fill_all_def demo_deliveries_def
      direct_fill_trellis_slot_def od_get_def)
  then obtain ly3 where f: "direct_fill_trellis_slot (\<lambda>_. []) ly2 Gate 0 ([1, 2, 32], 99) = Inr ly3" by blast
  have "\<forall>p. od_ok (demo_shapes p)" by (auto simp: demo_shapes_def od_ok_def od_keys_def split: proj.split)
  then show ?thesis
    using fill_touches_one_expert [OF h(1) _ h(2) _ f, of Gate 1] f
    by (auto simp: demo_deliveries_def demo_shapes_def od_get_def)
qed

end
