(* ===== verification/Moe_Names.thy ===== *)
theory Moe_Names
  imports TP_Geometry
begin

text \<open>
  Names and parameters of the routed experts (\<open>src/vllm_exl3/exl3.py\<close>): the packed
  suffixes and shard ids, the activation and gate parameters of a layer, the checkpoint keys
  under which the header prescan looks for an expert's trellis, and the routing of checkpoint
  weights to parameters (\<open>_exl3_routed_experts_loader\<close>).
\<close>

section \<open>Python string operations\<close>

definition starts_with :: "string \<Rightarrow> string \<Rightarrow> bool" where
  "starts_with pre s \<longleftrightarrow> take (length pre) s = pre"

definition ends_with :: "string \<Rightarrow> string \<Rightarrow> bool" where
  "ends_with suf s \<longleftrightarrow> length suf \<le> length s \<and> drop (length s - length suf) s = suf"

text \<open>\<open>pat in s\<close>.\<close>

fun contains :: "string \<Rightarrow> string \<Rightarrow> bool" where
  "contains pat [] \<longleftrightarrow> pat = []"
| "contains pat (c # cs) \<longleftrightarrow> starts_with pat (c # cs) \<or> contains pat cs"

text \<open>\<open>s.replace(pat, new)\<close> for a non-empty pattern, with the length as fuel.\<close>

fun replace_upto :: "nat \<Rightarrow> string \<Rightarrow> string \<Rightarrow> string \<Rightarrow> string" where
  "replace_upto 0 pat new s = s"
| "replace_upto (Suc n) pat new [] = []"
| "replace_upto (Suc n) pat new (c # cs) =
     (if starts_with pat (c # cs) then new @ replace_upto n pat new (drop (length pat) (c # cs))
      else c # replace_upto n pat new cs)"

definition replace_all :: "string \<Rightarrow> string \<Rightarrow> string \<Rightarrow> string" where
  "replace_all pat new s = replace_upto (length s) pat new s"

definition remove_prefix :: "string \<Rightarrow> string \<Rightarrow> string" where
  "remove_prefix pre s = (if starts_with pre s then drop (length pre) s else s)"

definition digit_char :: "nat \<Rightarrow> char" where
  "digit_char d = char_of (48 + d)"

fun show_nat :: "nat \<Rightarrow> string" where
  "show_nat n = (if n < 10 then [digit_char n] else show_nat (n div 10) @ [digit_char (n mod 10)])"

declare show_nat.simps [simp del]

lemma starts_with_self [simp]: "starts_with pre (pre @ s)"
  by (simp add: starts_with_def)

lemma starts_with_iff: "starts_with pre s \<longleftrightarrow> (\<exists>x. s = pre @ x)"
  unfolding starts_with_def by (metis append_eq_conv_conj append_take_drop_id)

lemma contains_iff: "contains pat s \<longleftrightarrow> (\<exists>a b. s = a @ pat @ b)"
proof (induction s)
  case (Cons c cs)
  have "starts_with pat (c # cs) \<longleftrightarrow> (\<exists>b. c # cs = pat @ b)"
    unfolding starts_with_def by (metis append_eq_conv_conj append_take_drop_id)
  then show ?case
    unfolding contains.simps Cons.IH by (metis append_Cons append_Nil list.exhaust list.inject)
qed simp

text \<open>The fuel is enough: replacing nothing is the identity, and more fuel changes nothing.\<close>

lemma replace_upto_fuel:
  "pat \<noteq> [] \<Longrightarrow> length s \<le> n \<Longrightarrow> length s \<le> k \<Longrightarrow> replace_upto n pat new s = replace_upto k pat new s"
proof (induction n arbitrary: s k)
  case 0
  then show ?case by (cases k) auto
next
  case (Suc n)
  show ?case
  proof (cases s)
    case Nil then show ?thesis by (cases k) auto
  next
    case (Cons c cs)
    then obtain k' where k: "k = Suc k'" using Suc.prems(3) by (cases k) auto
    obtain p ps where p: "pat = p # ps" using Suc.prems(1) by (cases pat) auto
    have l: "length cs \<le> n" "length cs \<le> k'" "length (drop (length ps) cs) \<le> n" "length (drop (length ps) cs) \<le> k'"
      using Suc.prems(2,3) Cons k by auto
    have "replace_upto n pat new (drop (length pat) s) = replace_upto k' pat new (drop (length pat) s)"
      using Suc.IH [OF Suc.prems(1) l(3,4)] by (simp add: Cons p)
    moreover have "replace_upto n pat new cs = replace_upto k' pat new cs"
      using Suc.IH [OF Suc.prems(1) l(1,2)] .
    ultimately show ?thesis using Cons k by simp
  qed
qed

lemma of_digit_char: "d < 10 \<Longrightarrow> of_char (digit_char d) = (48 + d :: nat)"
  by (simp add: digit_char_def of_char_of)

lemma digit_char_inj: "a < 10 \<Longrightarrow> b < 10 \<Longrightarrow> digit_char a = digit_char b \<Longrightarrow> a = b"
  by (metis add_left_cancel of_digit_char)

lemma of_dot: "of_char (CHR ''.'') = (46 :: nat)"
  by code_simp

lemma digit_char_dot: "d < 10 \<Longrightarrow> digit_char d \<noteq> CHR ''.''"
proof
  assume "d < 10" "digit_char d = CHR ''.''"
  then have "(48 + d :: nat) = 46" by (metis of_digit_char of_dot)
  then show False by presburger
qed

lemma show_nat_no_dot: "CHR ''.'' \<notin> set (show_nat n)"
proof (induction n rule: less_induct)
  case (less n)
  have d: "digit_char m \<noteq> CHR ''.''" if "m < 10" for m using digit_char_dot [OF that] .
  show ?case
  proof (cases "n < 10")
    case True
    then show ?thesis using d [OF True] by (metis empty_iff insert_iff list.set show_nat.simps)
  next
    case False
    then have "CHR ''.'' \<notin> set (show_nat (n div 10))" using less by simp
    moreover have "digit_char (n mod 10) \<noteq> CHR ''.''" using d by simp
    moreover have "show_nat n = show_nat (n div 10) @ [digit_char (n mod 10)]"
      using False by (simp add: show_nat.simps [of n])
    ultimately show ?thesis by (metis UnE empty_iff insert_iff list.set set_append)
  qed
qed

lemma show_nat_Nil: "show_nat n \<noteq> []"
  by (subst show_nat.simps) simp

lemma show_nat_inj: "show_nat a = show_nat b \<Longrightarrow> a = b"
proof (induction a arbitrary: b rule: less_induct)
  case (less a)
  show ?case
  proof (cases "a < 10")
    case True
    then have sa: "show_nat a = [digit_char a]" by (simp add: show_nat.simps [of a])
    have "b < 10"
    proof (rule ccontr)
      assume "\<not> b < 10"
      then have "show_nat b = show_nat (b div 10) @ [digit_char (b mod 10)]" by (simp add: show_nat.simps [of b])
      then show False using less.prems sa show_nat_Nil [of "b div 10"] by simp
    qed
    moreover from this have "show_nat b = [digit_char b]" by (simp add: show_nat.simps [of b])
    ultimately show ?thesis using digit_char_inj [OF True] sa less.prems by (metis list.inject)
  next
    case False
    then have sa: "show_nat a = show_nat (a div 10) @ [digit_char (a mod 10)]" by (simp add: show_nat.simps [of a])
    have b: "\<not> b < 10"
    proof
      assume "b < 10"
      then have "show_nat b = [digit_char b]" by (simp add: show_nat.simps [of b])
      then show False using less.prems sa show_nat_Nil [of "a div 10"] by simp
    qed
    then have sb: "show_nat b = show_nat (b div 10) @ [digit_char (b mod 10)]" by (simp add: show_nat.simps [of b])
    have e: "show_nat (a div 10) = show_nat (b div 10)" "digit_char (a mod 10) = digit_char (b mod 10)"
      using less.prems sa sb by (metis append1_eq_conv)+
    have "a div 10 = b div 10" using less.IH [OF _ e(1)] False by simp
    moreover have "a mod 10 = b mod 10" using digit_char_inj [OF _ _ e(2)] by simp
    ultimately show ?thesis by (metis div_mult_mod_eq)
  qed
qed

section \<open>Suffixes and shard ids\<close>

definition suffix_name :: "suffix \<Rightarrow> string" where
  "suffix_name s = (case s of
     Trellis_s \<Rightarrow> ''trellis'' | Suh \<Rightarrow> ''suh'' | Svh \<Rightarrow> ''svh'' | Mcg \<Rightarrow> ''mcg'' | Mul1 \<Rightarrow> ''mul1'')"

definition EXL3_SUFFIXES :: "suffix list" where
  "EXL3_SUFFIXES = [Trellis_s, Suh, Svh, Mcg, Mul1]"

definition suffix_from_mapped_name :: "string \<Rightarrow> suffix res" where
  "suffix_from_mapped_name weight_name =
     (let tl = last (split_on CHR ''.'' weight_name) in
      case find (\<lambda>s. tl = suffix_name s \<or> ends_with (''_'' @ suffix_name s) tl) EXL3_SUFFIXES of
        None \<Rightarrow> Inl ValueError | Some s \<Rightarrow> Inr s)"

definition proj_from_shard_id :: "string \<Rightarrow> proj res" where
  "proj_from_shard_id shard_id =
     (if shard_id = ''w1'' then Inr Gate
      else if shard_id = ''w3'' then Inr Up
      else if shard_id = ''w2'' then Inr Down
      else Inl ValueError)"

section \<open>Activation and gate parameters\<close>

text \<open>The activation is the value of \<open>layer.moe_config.activation\<close>, or absent.\<close>

definition moe_layer_is_gateless :: "string option \<Rightarrow> bool" where
  "moe_layer_is_gateless act = (case act of None \<Rightarrow> False | Some v \<Rightarrow> v \<noteq> [] \<and> ends_with ''_no_mul'' v)"

definition MOE_ACT_SILU :: int where "MOE_ACT_SILU = 0"
definition MOE_ACT_RELU2_NOGATE :: int where "MOE_ACT_RELU2_NOGATE = 2"
definition MOE_ACT_SWIGLU_OAI :: int where "MOE_ACT_SWIGLU_OAI = 3"

definition resolve_moe_act :: "string option \<Rightarrow> int res" where
  "resolve_moe_act act =
     (case act of
        None \<Rightarrow> Inr MOE_ACT_SILU
      | Some v \<Rightarrow>
          if v = ''silu'' then Inr MOE_ACT_SILU
          else if v = ''relu2_no_mul'' then Inr MOE_ACT_RELU2_NOGATE
          else if v = ''swigluoai'' \<or> v = ''swigluoai_uninterleave'' then Inr MOE_ACT_SWIGLU_OAI
          else Inl ValueError)"

text \<open>
  \<open>float()\<close> of an attribute (absent is \<open>None\<close>): text goes through a parameter, and the
  literals 1.702 and 7.0 stand for themselves.
\<close>

fun to_float :: "(string \<Rightarrow> pyfloat option) \<Rightarrow> pyval \<Rightarrow> pyfloat option" where
  "to_float py_float (PBool b) = Some (Fin (if b then 1 else 0))"
| "to_float py_float (PInt n) = Some (Fin (of_int n))"
| "to_float py_float (PFloat x) = Some x"
| "to_float py_float (PStr s) = py_float s"
| "to_float py_float _ = None"

definition layer_float_attr :: "(string \<Rightarrow> pyfloat option) \<Rightarrow> pyval \<Rightarrow> rat \<Rightarrow> rat" where
  "layer_float_attr py_float raw dflt = (case to_float py_float raw of Some (Fin x) \<Rightarrow> x | _ \<Rightarrow> dflt)"

definition MINIMAX_SWIGLU_ALPHA_DEFAULT :: rat where "MINIMAX_SWIGLU_ALPHA_DEFAULT = 1702 / 1000"
definition MINIMAX_SWIGLU_LIMIT_DEFAULT :: rat where "MINIMAX_SWIGLU_LIMIT_DEFAULT = 7"

record gate_attrs =
  ga_activation :: "string option"
  ga_alpha :: pyval
  ga_beta :: pyval
  ga_limit :: pyval

definition positive_limit :: "(string \<Rightarrow> pyfloat option) \<Rightarrow> pyval \<Rightarrow> rat option" where
  "positive_limit py_float raw =
     (case to_float py_float raw of Some (Fin x) \<Rightarrow> if 0 < x then Some x else None | _ \<Rightarrow> None)"

definition resolve_moe_gate_params ::
  "(string \<Rightarrow> pyfloat option) \<Rightarrow> gate_attrs \<Rightarrow> (rat option \<times> rat option) res"
where
  "resolve_moe_gate_params py_float ga =
     bind_res (resolve_moe_act (ga_activation ga)) (\<lambda>act.
       if act = MOE_ACT_SWIGLU_OAI then
         let alpha = layer_float_attr py_float (ga_alpha ga) MINIMAX_SWIGLU_ALPHA_DEFAULT in
         if alpha \<noteq> MINIMAX_SWIGLU_ALPHA_DEFAULT then Inl ValueError
         else let beta = to_float py_float (ga_beta ga) in
           if beta \<noteq> None \<and> beta \<noteq> Some (Fin 1) then Inl ValueError
           else Inr (Some alpha, Some (layer_float_attr py_float (ga_limit ga) MINIMAX_SWIGLU_LIMIT_DEFAULT))
       else Inr (None, positive_limit py_float (ga_limit ga)))"

text \<open>
  The census of bit widths: tuples with their counts; a value \<open>int()\<close> does not convert is
  \<open>None\<close>.
\<close>

definition expert_k_census_supported :: "(int option list \<times> int option) list option \<Rightarrow> bool" where
  "expert_k_census_supported census =
     (case census of
        None \<Rightarrow> False
      | Some [] \<Rightarrow> False
      | Some rows \<Rightarrow> list_all (\<lambda>(ks, n).
          list_all (\<lambda>k. k \<noteq> None) ks \<and> n \<noteq> None \<and> 0 < the n \<and>
          list_all (\<lambda>k. 1 \<le> the k \<and> the k \<le> 8) ks) rows)"

lemma gateless_act: "moe_layer_is_gateless act \<Longrightarrow> resolve_moe_act act = Inr a \<Longrightarrow> a = MOE_ACT_RELU2_NOGATE"
  by (auto simp: moe_layer_is_gateless_def resolve_moe_act_def ends_with_def split: option.splits if_splits)

lemma gated_act: "resolve_moe_act act = Inr MOE_ACT_RELU2_NOGATE \<Longrightarrow> moe_layer_is_gateless act"
  by (auto simp: moe_layer_is_gateless_def resolve_moe_act_def ends_with_def MOE_ACT_SILU_def
      MOE_ACT_RELU2_NOGATE_def MOE_ACT_SWIGLU_OAI_def split: option.splits if_splits)

end
