(* ===== verification/Trellis_Prescan.thy ===== *)
theory Trellis_Prescan
  imports Trellis_Arena Moe_Names
begin

text \<open>
  The header-only scan that plans a layer's trellis arenas (\<open>_try_prescan_trellis_shapes\<close> in
  \<open>src/vllm_exl3/exl3.py\<close>): which checkpoint keys may hold an expert's trellis, the first
  of them that the checkpoint index knows, and its shape from the shard's header or from the
  metadata provider of the selected loader.  The index, the headers and the provider are inputs.
\<close>

section \<open>Candidate keys\<close>

definition EXPERT_CKPT_PREFIX_FAMILIES :: "string list" where
  "EXPERT_CKPT_PREFIX_FAMILIES = [''ffn.experts'', ''mixer.experts'', ''mlp.experts'', ''block_sparse_moe.experts'']"

definition family_prefix :: "nat \<Rightarrow> string \<Rightarrow> string" where
  "family_prefix layer_id base_name =
     ''layers.'' @ show_nat layer_id @ ''.'' @
     (case find (\<lambda>cand. contains cand base_name) EXPERT_CKPT_PREFIX_FAMILIES of
        Some cand \<Rightarrow> cand | None \<Rightarrow> ''ffn.experts'') @ ''.''"

definition layer_prefixes :: "nat \<Rightarrow> string \<Rightarrow> int option \<Rightarrow> string list" where
  "layer_prefixes layer_id base_name num_layers =
     (let pre = family_prefix layer_id base_name in
      (if contains ''mtp.layers.'' base_name then [''mtp.'' @ pre] else []) @ [pre] @
      (case num_layers of
         None \<Rightarrow> []
       | Some n \<Rightarrow> if n \<le> int layer_id
           then let k = show_nat (nat (int layer_id - n)) in
             [''mtp.'' @ k @ ''.ffn.experts.'', ''mtp.layers.'' @ k @ ''.mlp.experts.'']
           else []))"

definition raw_prefixes :: "string \<Rightarrow> string list" where
  "raw_prefixes base_name =
     [[], ''backbone.'', ''model.language_model.'', ''model.''] @
     (if contains ''mtp.layers.'' base_name \<or> contains ''block_sparse_moe.'' base_name
      then [''language_model.model.''] else [])"

definition ckpt_names :: "string option \<Rightarrow> (proj \<times> string list) list" where
  "ckpt_names act =
     (if moe_layer_is_gateless act then [(Up, [''up_proj'']), (Down, [''down_proj''])]
      else [(Gate, [''w1'', ''gate_proj'']), (Up, [''w3'', ''up_proj'']), (Down, [''w2'', ''down_proj''])])"

definition candidate_keys :: "string list \<Rightarrow> string list \<Rightarrow> nat \<Rightarrow> string list \<Rightarrow> string list" where
  "candidate_keys prefixes raws global_e cands =
     concat (map (\<lambda>p. concat (map (\<lambda>raw. map (\<lambda>c. raw @ p @ show_nat global_e @ ''.'' @ c @ ''.trellis'') cands)
       raws)) prefixes)"

section \<open>The scan\<close>

record descriptor =
  ds_dtype :: string
  ds_shape :: "int list"
  ds_nbytes :: int

definition descriptor_ok :: "descriptor \<Rightarrow> bool" where
  "descriptor_ok ds \<longleftrightarrow> ds_dtype ds = ''I16'' \<and> length (ds_shape ds) = 3 \<and> list_all (\<lambda>x. 0 < x) (ds_shape ds) \<and>
     last (ds_shape ds) mod 16 = 0 \<and> 2 \<le> last (ds_shape ds) div 16 \<and> last (ds_shape ds) div 16 \<le> 8 \<and>
     prod_list (ds_shape ds) * 2 = ds_nbytes ds"

text \<open>
  \<open>pi_index\<close> is the weight map, absent when the directory or the index cannot be read;
  \<open>pi_header\<close> the answer of \<open>_prescan_shape\<close> for a shard and a key.
\<close>

record prescan_in =
  pi_layer_name :: string
  pi_offset :: nat
  pi_activation :: "string option"
  pi_index :: "(string \<Rightarrow> string option) option"
  pi_num_layers :: "int option"
  pi_provider :: "(string \<Rightarrow> string \<Rightarrow> descriptor res) option"
  pi_header :: "string \<Rightarrow> string \<Rightarrow> nat list option"

definition prescan_one ::
  "prescan_in \<Rightarrow> (string \<Rightarrow> string option) \<Rightarrow> string list \<Rightarrow> nat list option res"
where
  "prescan_one ps weight_map keys =
     (case find (\<lambda>k. weight_map k \<noteq> None) keys of
        None \<Rightarrow> Inr None
      | Some key \<Rightarrow>
          let shard = the (weight_map key) in
          (case pi_provider ps of
             Some provider \<Rightarrow>
               bind_res (provider shard key) (\<lambda>ds.
                 if descriptor_ok ds then Inr (Some (map nat (ds_shape ds))) else Inl ValueError)
           | None \<Rightarrow> Inr (pi_header ps shard key)))"

fun prescan_loop ::
  "(nat \<Rightarrow> string list \<Rightarrow> nat list option res) \<Rightarrow> (nat \<times> proj \<times> string list) list \<Rightarrow> (proj \<Rightarrow> shapes)
    \<Rightarrow> (proj \<Rightarrow> shapes) option res"
where
  "prescan_loop one [] acc = Inr (Some acc)"
| "prescan_loop one ((e, p, names) # todo) acc =
     (case one e names of
        Inl x \<Rightarrow> Inl x
      | Inr None \<Rightarrow> Inr None
      | Inr (Some sh) \<Rightarrow> prescan_loop one todo (acc(p := od_set e sh (acc p))))"

definition scan_order :: "string option \<Rightarrow> nat \<Rightarrow> (nat \<times> proj \<times> string list) list" where
  "scan_order act num_experts =
     concat (map (\<lambda>e. map (\<lambda>(p, names). (e, p, names)) (ckpt_names act)) [0..<num_experts])"

definition expert_keys :: "prescan_in \<Rightarrow> nat \<Rightarrow> nat \<Rightarrow> string list \<Rightarrow> string list" where
  "expert_keys ps layer_id local_e names =
     candidate_keys (layer_prefixes layer_id (pi_layer_name ps) (pi_num_layers ps))
       (raw_prefixes (pi_layer_name ps)) (pi_offset ps + local_e) names"

definition try_prescan_trellis_shapes :: "prescan_in \<Rightarrow> nat \<Rightarrow> (proj \<Rightarrow> shapes) option res" where
  "try_prescan_trellis_shapes ps num_experts =
     (case pi_index ps of
        None \<Rightarrow> Inr None
      | Some weight_map \<Rightarrow>
          (case layers_number (pi_layer_name ps) of
             None \<Rightarrow> Inr None
           | Some layer_id \<Rightarrow>
               prescan_loop (\<lambda>e names. prescan_one ps weight_map (expert_keys ps layer_id e names))
                 (scan_order (pi_activation ps) num_experts) (\<lambda>_. [])))"

section \<open>What a finished scan holds\<close>

definition has_proj :: "string option \<Rightarrow> proj \<Rightarrow> bool" where
  "has_proj act p \<longleftrightarrow> p \<noteq> Gate \<or> \<not> moe_layer_is_gateless act"

definition names_of :: "string option \<Rightarrow> proj \<Rightarrow> string list" where
  "names_of act p = the (map_of (ckpt_names act) p)"

lemma scan_order_mem: "(e, p, names) \<in> set (scan_order act n) \<longleftrightarrow>
    e < n \<and> has_proj act p \<and> names = names_of act p"
  by (cases p) (auto simp: scan_order_def ckpt_names_def has_proj_def names_of_def)

lemma scan_order_distinct: "distinct (map (\<lambda>(e, p, names). (p, e)) (scan_order act n))"
proof (induction n)
  case (Suc n)
  have "scan_order act (Suc n) = scan_order act n @ map (\<lambda>(p, names). (n, p, names)) (ckpt_names act)"
    by (simp add: scan_order_def)
  moreover have "distinct (map (\<lambda>(e, p, names). (p, e)) (map (\<lambda>(p, names). (n, p, names)) (ckpt_names act)))"
    by (simp add: ckpt_names_def)
  moreover have "(p, n) \<notin> (\<lambda>(e, p, names). (p, e)) ` set (scan_order act n)" for p
    using scan_order_mem by auto
  ultimately show ?case using Suc.IH by (auto simp: ckpt_names_def)
qed (simp add: scan_order_def)

lemma prescan_loop_spec:
  assumes "prescan_loop one todo acc = Inr (Some shp)"
    and "distinct (map (\<lambda>(e, p, names). (p, e)) todo)" and "\<And>p. od_ok (acc p)"
  shows "(\<forall>p. od_ok (shp p)) \<and>
    (\<forall>e p names. (e, p, names) \<in> set todo \<longrightarrow> (\<exists>sh. one e names = Inr (Some sh) \<and> od_get (shp p) e = Some sh)) \<and>
    (\<forall>p e. (p, e) \<notin> set (map (\<lambda>(e, p, names). (p, e)) todo) \<longrightarrow> od_get (shp p) e = od_get (acc p) e)"
  using assms
proof (induction todo arbitrary: acc)
  case (Cons x todo)
  obtain e p names where x: "x = (e, p, names)" by (cases x)
  obtain sh where one: "one e names = Inr (Some sh)"
    and rest: "prescan_loop one todo (acc(p := od_set e sh (acc p))) = Inr (Some shp)"
    using Cons.prems(1) by (auto simp: x split: sum.splits option.splits)
  have d: "distinct (map (\<lambda>(e, p, names). (p, e)) todo)" "(p, e) \<notin> set (map (\<lambda>(e, p, names). (p, e)) todo)"
    using Cons.prems(2) by (simp_all add: x)
  have ok: "od_ok ((acc(p := od_set e sh (acc p))) q)" for q using Cons.prems(3) by simp
  note ih = Cons.IH [OF rest d(1) ok]
  have here: "od_get (shp p) e = Some sh" using ih d(2) by simp
  have "od_get (shp q) f = od_get (acc q) f"
    if "(q, f) \<notin> set (map (\<lambda>(e, p, names). (p, e)) (x # todo))" for q f
  proof -
    have "(q, f) \<noteq> (p, e)" "(q, f) \<notin> set (map (\<lambda>(e, p, names). (p, e)) todo)" using that by (simp_all add: x)
    then show ?thesis using ih by (cases "q = p") auto
  qed
  moreover have "\<exists>sh. one e' names' = Inr (Some sh) \<and> od_get (shp p') e' = Some sh"
    if m: "(e', p', names') \<in> set (x # todo)" for e' p' names'
  proof (cases "(e', p', names') = x")
    case True
    then show ?thesis using one here by (simp add: x)
  next
    case False
    then have "(e', p', names') \<in> set todo" using m by simp
    then show ?thesis using ih by blast
  qed
  ultimately show ?case using ih by blast
qed simp

lemma prescan_spec:
  assumes "try_prescan_trellis_shapes ps n = Inr (Some shp)"
  shows "\<exists>weight_map layer_id. pi_index ps = Some weight_map \<and> layers_number (pi_layer_name ps) = Some layer_id \<and>
    (\<forall>p. od_ok (shp p)) \<and>
    (\<forall>p e. e < n \<and> has_proj (pi_activation ps) p \<longrightarrow>
       (\<exists>sh. prescan_one ps weight_map (expert_keys ps layer_id e (names_of (pi_activation ps) p)) = Inr (Some sh) \<and>
         od_get (shp p) e = Some sh)) \<and>
    (\<forall>p e. \<not> (e < n \<and> has_proj (pi_activation ps) p) \<longrightarrow> od_get (shp p) e = None)"
proof -
  obtain wm lid where h: "pi_index ps = Some wm" "layers_number (pi_layer_name ps) = Some lid"
    and l: "prescan_loop (\<lambda>e names. prescan_one ps wm (expert_keys ps lid e names))
      (scan_order (pi_activation ps) n) (\<lambda>_. []) = Inr (Some shp)"
    using assms by (auto simp: try_prescan_trellis_shapes_def split: option.splits)
  note sp = prescan_loop_spec [OF l scan_order_distinct od_ok_Nil]
  have "od_get (shp p) e = None" if "\<not> (e < n \<and> has_proj (pi_activation ps) p)" for p e
  proof -
    have "(p, e) \<notin> set (map (\<lambda>(e, p, names). (p, e)) (scan_order (pi_activation ps) n))"
      using that scan_order_mem by auto
    then show ?thesis using sp by (simp add: od_get_def)
  qed
  then have none: "\<forall>p e. \<not> (e < n \<and> has_proj (pi_activation ps) p) \<longrightarrow> od_get (shp p) e = None" by blast
  have ok: "\<forall>p. od_ok (shp p)" using sp by blast
  have got: "\<exists>sh. prescan_one ps wm (expert_keys ps lid e (names_of (pi_activation ps) p)) = Inr (Some sh) \<and>
      od_get (shp p) e = Some sh" if "e < n" "has_proj (pi_activation ps) p" for p e
  proof -
    have "(e, p, names_of (pi_activation ps) p) \<in> set (scan_order (pi_activation ps) n)"
      using that by (simp add: scan_order_mem)
    then show ?thesis using sp by blast
  qed
  show ?thesis
    by (intro exI [of _ wm] exI [of _ lid] conjI allI impI h ok [rule_format] got none [rule_format]) simp_all
qed

text \<open>A provider's descriptor, once accepted, is a trellis shape of two to eight bits.\<close>

lemma prescan_one_provider:
  assumes "prescan_one ps wm keys = Inr (Some sh)" and "pi_provider ps = Some provider"
  shows "length sh = 3 \<and> last sh mod 16 = 0 \<and> 2 \<le> last sh div 16 \<and> last sh div 16 \<le> 8"
proof -
  obtain ds where ds: "descriptor_ok ds" "sh = map nat (ds_shape ds)"
    using assms by (auto simp: prescan_one_def bind_res_Inr Let_def split: option.splits if_splits)
  obtain a b c where sh: "ds_shape ds = [a, b, c]" "0 < c" "c mod 16 = 0" "2 \<le> c div 16" "c div 16 \<le> 8"
  proof -
    have "length (ds_shape ds) = 3" using ds(1) by (simp add: descriptor_ok_def)
    then obtain a b c where "ds_shape ds = [a, b, c]" by (auto simp: numeral_3_eq_3 length_Suc_conv)
    then show ?thesis using that ds(1) by (simp add: descriptor_ok_def)
  qed
  obtain m where m: "c = int m" using sh(2) by (metis zero_less_imp_eq_int)
  have "int (m mod 16) = 0" "2 \<le> int (m div 16)" "int (m div 16) \<le> 8"
    using sh(3-5) unfolding m by (simp_all add: zmod_int zdiv_int)
  then have "nat c mod 16 = 0" "2 \<le> nat c div 16" "nat c div 16 \<le> 8" unfolding m nat_int by simp_all
  then show ?thesis by (simp add: ds(2) sh(1))
qed

text \<open>The header scan plans every expert it should and no other.  When the scan of a layer finds a shape for
  everything it looks for, planning the arenas from it succeeds, and the slots planned are exactly those
  of the layer's local experts and projections (no gate in a non-gated layer); with a metadata provider
  every planned shape is three-dimensional with two to eight whole bits per weight.\<close>

theorem prescan_plans_every_expert:
  assumes scan: "try_prescan_trellis_shapes ps (tl_experts ly) = Inr (Some shp)"
  shows "\<exists>ly' idx. prepare_trellis_arena_plan (\<lambda>_. []) ly shp = Inr ly' \<and> plan_ok ly' idx \<and>
    (\<forall>p e. idx p e \<noteq> None \<longleftrightarrow> e < tl_experts ly \<and> has_proj (pi_activation ps) p) \<and>
    (\<forall>p e sh i. idx p e = Some (sh, i) \<longrightarrow> od_get (shp p) e = Some sh \<and>
      (pi_provider ps \<noteq> None \<longrightarrow> length sh = 3 \<and> last sh mod 16 = 0 \<and> 2 \<le> last sh div 16 \<and> last sh div 16 \<le> 8))"
proof -
  obtain wm lid where sp: "\<forall>p. od_ok (shp p)"
    "\<forall>p e. e < tl_experts ly \<and> has_proj (pi_activation ps) p \<longrightarrow>
       (\<exists>sh. prescan_one ps wm (expert_keys ps lid e (names_of (pi_activation ps) p)) = Inr (Some sh) \<and>
         od_get (shp p) e = Some sh)"
    "\<forall>p e. \<not> (e < tl_experts ly \<and> has_proj (pi_activation ps) p) \<longrightarrow> od_get (shp p) e = None"
    using prescan_spec [OF scan] by metis
  have ok: "od_ok (shp p)" for p using sp(1) by simp
  have "e < tl_experts ly" if "(e, sh) \<in> set (shp p)" for p e sh
    using od_get_in [OF ok that] sp(3) by (metis option.distinct(1))
  then obtain ly' where pr: "prepare_trellis_arena_plan (\<lambda>_. []) ly shp = Inr ly'"
    using prepare_total by metis
  obtain idx where idx: "plan_ok ly' idx"
    "\<And>p e sh. (\<exists>i. idx p e = Some (sh, i)) \<longleftrightarrow> od_get (shp p) e = Some sh"
    using prepare_plan [OF pr ok] by (auto simp: od_get_def)
  have dom: "idx p e \<noteq> None \<longleftrightarrow> e < tl_experts ly \<and> has_proj (pi_activation ps) p" for p e
  proof
    assume "idx p e \<noteq> None"
    then obtain sh i where "idx p e = Some (sh, i)" by auto
    then have "od_get (shp p) e = Some sh" using idx(2) by blast
    then show "e < tl_experts ly \<and> has_proj (pi_activation ps) p" using sp(3) by (metis option.distinct(1))
  next
    assume "e < tl_experts ly \<and> has_proj (pi_activation ps) p"
    then obtain sh where "od_get (shp p) e = Some sh" using sp(2) by blast
    then show "idx p e \<noteq> None" using idx(2) by (metis option.distinct(1))
  qed
  have shape: "od_get (shp p) e = Some sh \<and> (pi_provider ps \<noteq> None \<longrightarrow>
      length sh = 3 \<and> last sh mod 16 = 0 \<and> 2 \<le> last sh div 16 \<and> last sh div 16 \<le> 8)"
    if i: "idx p e = Some (sh, i)" for p e sh i
  proof -
    have g: "od_get (shp p) e = Some sh" using idx(2) i by blast
    then obtain keys where "prescan_one ps wm keys = Inr (Some sh)"
      using sp(2,3) by (metis option.distinct(1) option.inject)
    then show ?thesis using g prescan_one_provider by blast
  qed
  show ?thesis using pr idx(1) dom shape by (intro exI [of _ ly'] exI [of _ idx]) simp
qed

definition demo_scan :: prescan_in where
  "demo_scan = \<lparr>pi_layer_name = ''backbone.layers.3.mixer.experts'', pi_offset = 4, pi_activation = Some ''relu2_no_mul'',
     pi_index = Some (\<lambda>k. if k = ''backbone.layers.3.mixer.experts.4.up_proj.trellis'' \<or>
        k = ''backbone.layers.3.mixer.experts.4.down_proj.trellis'' then Some ''shard'' else None),
     pi_num_layers = Some 50,
     pi_provider = Some (\<lambda>_ _. Inr \<lparr>ds_dtype = ''I16'', ds_shape = [2, 3, 48], ds_nbytes = 576\<rparr>),
     pi_header = (\<lambda>_ _. None)\<rparr>"

lemma prescan_plans_every_expert_witness:
  "\<exists>shp ly' idx. try_prescan_trellis_shapes demo_scan 1 = Inr (Some shp) \<and>
     prepare_trellis_arena_plan (\<lambda>_. []) (demo_layer\<lparr>tl_experts := 1\<rparr>) shp = Inr ly' \<and> plan_ok ly' idx \<and>
     idx Gate 0 = None \<and> idx Down 0 \<noteq> None"
proof -
  have "scan_order (pi_activation demo_scan) 1 = [(0, Up, [''up_proj'']), (0, Down, [''down_proj''])]"
    "layers_number (pi_layer_name demo_scan) = Some 3" by code_simp+
  moreover obtain wm where wm: "pi_index demo_scan = Some wm" by (simp add: demo_scan_def)
  moreover have "prescan_one demo_scan (the (pi_index demo_scan)) (expert_keys demo_scan 3 0 [''up_proj'']) = Inr (Some [2, 3, 48])"
    "prescan_one demo_scan (the (pi_index demo_scan)) (expert_keys demo_scan 3 0 [''down_proj'']) = Inr (Some [2, 3, 48])"
    by code_simp+
  ultimately have "\<exists>shp. try_prescan_trellis_shapes demo_scan 1 = Inr (Some shp)"
    by (simp add: try_prescan_trellis_shapes_def)
  then obtain shp where s: "try_prescan_trellis_shapes demo_scan (tl_experts (demo_layer\<lparr>tl_experts := 1\<rparr>)) = Inr (Some shp)"
    by auto
  have "has_proj (pi_activation demo_scan) Gate = False" "has_proj (pi_activation demo_scan) Down" by code_simp+
  moreover obtain ly' idx where "prepare_trellis_arena_plan (\<lambda>_. []) (demo_layer\<lparr>tl_experts := 1\<rparr>) shp = Inr ly'"
      "plan_ok ly' idx" "\<forall>p e. idx p e \<noteq> None \<longleftrightarrow> e < 1 \<and> has_proj (pi_activation demo_scan) p"
    using prescan_plans_every_expert [OF s] by auto
  moreover have "idx Gate 0 = None \<longleftrightarrow> \<not> has_proj (pi_activation demo_scan) Gate"
      "idx Down 0 \<noteq> None \<longleftrightarrow> has_proj (pi_activation demo_scan) Down" using calculation by blast+
  ultimately show ?thesis using s by (intro exI [of _ shp] exI [of _ ly'] exI [of _ idx] conjI) simp_all
qed

end
