(* ===== verification/Moe_Loader.thy ===== *)
theory Moe_Loader
  imports Trellis_Prescan
begin

text \<open>
  The routed-expert layer of one rank (\<open>Exl3MoEMethod\<close> in \<open>src/vllm_exl3/exl3.py\<close>):
  \<open>create_weights\<close> sizes and allocates it, \<open>_load_exl3\<close> stores one checkpoint tensor, and
  \<open>_exl3_routed_experts_loader\<close> routes checkpoint names to parameters.  A layer holds, per
  projection and local expert, the two scale vectors (uninitialised memory is \<open>None\<close>), the two
  codebook markers, and the trellises of \<open>Trellis_Arena\<close>, whose contents are rows of tiles.
  Devices, dtype conversion and the mixed-width store that replaces this layer when it is
  switched on are not part of the state.
\<close>

section \<open>State\<close>

record 'a moe_layer =
  ml_trellis :: "'a list list tlayer"
  ml_suh :: "proj \<Rightarrow> nat \<Rightarrow> 'a list option"
  ml_svh :: "proj \<Rightarrow> nat \<Rightarrow> 'a list option"
  ml_mcg :: "proj \<Rightarrow> nat \<Rightarrow> int"
  ml_mul1 :: "proj \<Rightarrow> nat \<Rightarrow> int"
  ml_hidden :: nat
  ml_inter :: nat
  ml_in_tiles :: nat
  ml_out_tiles :: nat
  ml_rotation :: nat

text \<open>
  What the layer's surroundings answer: environment, activation, the expert map
  (\<open>_map_global_expert_id_to_local_expert_id\<close>, \<open>None\<close> for -1), the geometry of the process
  group and of the owners, expert parallelism, the layer name (or
  prefix), its \<open>layer_name\<close> attribute, and the aliased experts.
\<close>

record 'a moe_ctx =
  cx_env :: environ
  cx_activation :: "string option"
  cx_local :: "nat \<Rightarrow> nat option"
  cx_process :: "int \<times> int"
  cx_owner :: owner
  cx_param :: owner
  cx_use_ep :: bool
  cx_name :: string
  cx_layer_name :: string
  cx_aliases :: "proj \<Rightarrow> (nat, 'a list list tensor) odict"

definition trellis_arena_enabled :: "environ \<Rightarrow> bool" where
  "trellis_arena_enabled env \<longleftrightarrow> env ''VLLM_EXL3_TRELLIS_ARENA'' \<noteq> Some ''0''"

definition geometry_of :: "'a moe_ctx \<Rightarrow> owner option list \<Rightarrow> (nat \<times> nat) res" where
  "geometry_of cx owners = map_ok (\<lambda>(r, n). (nat r, nat n)) (resolve_tp_geometry (cx_process cx) owners)"

definition scale_len :: "'a moe_layer \<Rightarrow> suffix \<Rightarrow> proj \<Rightarrow> nat" where
  "scale_len ly s p =
     (case (s, p) of
        (Suh, Down) \<Rightarrow> ml_inter ly | (Suh, _) \<Rightarrow> ml_hidden ly
      | (_, Down) \<Rightarrow> ml_hidden ly | (_, _) \<Rightarrow> ml_inter ly)"

definition expect_prefix :: "'a moe_layer \<Rightarrow> proj \<Rightarrow> nat \<times> nat" where
  "expect_prefix ly p =
     (case p of Down \<Rightarrow> (ml_out_tiles ly, ml_in_tiles ly) | _ \<Rightarrow> (ml_in_tiles ly, ml_out_tiles ly))"

section \<open>Loading one tensor\<close>

text \<open>
  A checkpoint tensor is a trellis with its words per tile, a vector, or the integers of a
  marker.  A tensor of another kind than its name's suffix fails one of the shape checks.
\<close>

datatype 'a loaded =
    LTrellis "'a exl3_tensor" nat
  | LVector "'a list"
  | LMarker "int list"

definition set2 :: "(proj \<Rightarrow> nat \<Rightarrow> 'b) \<Rightarrow> proj \<Rightarrow> nat \<Rightarrow> 'b \<Rightarrow> proj \<Rightarrow> nat \<Rightarrow> 'b" where
  "set2 f p e v = f(p := (f p)(e := v))"

definition load_marker :: "'a moe_layer \<Rightarrow> suffix \<Rightarrow> proj \<Rightarrow> nat \<Rightarrow> int list \<Rightarrow> 'a moe_layer res" where
  "load_marker ly s p e xs =
     (if tl_experts (ml_trellis ly) \<le> e then Inl IndexError
      else let v = (case xs of [] \<Rightarrow> 0 | x # _ \<Rightarrow> x) in
        if s = Mcg then Inr (ly\<lparr>ml_mcg := set2 (ml_mcg ly) p e v\<rparr>)
        else Inr (ly\<lparr>ml_mul1 := set2 (ml_mul1 ly) p e v\<rparr>))"

definition shard_exl3 ::
  "environ \<Rightarrow> 'a exl3_tensor \<Rightarrow> suffix \<Rightarrow> proj \<Rightarrow> nat \<Rightarrow> nat \<Rightarrow> 'a exl3_tensor res"
where
  "shard_exl3 env t s p r n =
     (case p of Down \<Rightarrow> shard_exl3_row env t s r n True | _ \<Rightarrow> shard_exl3_col env t s r n True)"

definition load_trellis ::
  "'a moe_ctx \<Rightarrow> 'a moe_layer \<Rightarrow> proj \<Rightarrow> nat \<Rightarrow> nat \<Rightarrow> nat \<Rightarrow> 'a exl3_tensor \<Rightarrow> nat \<Rightarrow> 'a moe_layer res"
where
  "load_trellis cx ly p e r n t k_words =
     bind_res (shard_exl3 (cx_env cx) t Trellis_s p r n) (\<lambda>sharded.
       case sharded of
         Vector _ \<Rightarrow> Inl RuntimeError
       | Trellis rows cols tiles \<Rightarrow>
           if (rows, cols) \<noteq> expect_prefix ly p then Inl RuntimeError
           else if k_words mod 16 \<noteq> 0 then Inl RuntimeError
           else map_ok (\<lambda>tl. ly\<lparr>ml_trellis := tl\<rparr>)
             (store_trellis (trellis_arena_enabled (cx_env cx)) (cx_aliases cx) (ml_trellis ly) p e
               ([rows, cols, k_words], tiles)))"

definition load_scale ::
  "'a moe_ctx \<Rightarrow> 'a moe_layer \<Rightarrow> suffix \<Rightarrow> proj \<Rightarrow> nat \<Rightarrow> nat \<Rightarrow> nat \<Rightarrow> 'a list \<Rightarrow> 'a moe_layer res"
where
  "load_scale cx ly s p e r n xs =
     bind_res (shard_exl3 (cx_env cx) (Vector xs) s p r n) (\<lambda>sharded.
       if tl_experts (ml_trellis ly) \<le> e then Inl IndexError
       else case sharded of
         Trellis _ _ _ \<Rightarrow> Inl RuntimeError
       | Vector ys \<Rightarrow>
           if length ys \<noteq> scale_len ly s p then Inl RuntimeError
           else if s = Suh then Inr (ly\<lparr>ml_suh := set2 (ml_suh ly) p e (Some ys)\<rparr>)
           else Inr (ly\<lparr>ml_svh := set2 (ml_svh ly) p e (Some ys)\<rparr>))"

text \<open>The rank whose shard this rank holds.\<close>

definition shard_rank :: "'a moe_ctx \<Rightarrow> nat \<Rightarrow> nat \<times> nat \<Rightarrow> nat \<times> nat" where
  "shard_rank cx rotation g =
     (if cx_use_ep cx then (0, 1) else (rotated_rank (fst g) (snd g) rotation, snd g))"

definition dispatch_load ::
  "'a moe_ctx \<Rightarrow> 'a moe_layer \<Rightarrow> suffix \<Rightarrow> proj \<Rightarrow> nat \<Rightarrow> nat \<times> nat \<Rightarrow> 'a loaded \<Rightarrow> 'a moe_layer res"
where
  "dispatch_load cx ly s p e rn x =
     (case (s, x) of
        (Trellis_s, LTrellis t k) \<Rightarrow> load_trellis cx ly p e (fst rn) (snd rn) t k
      | (Suh, LVector xs) \<Rightarrow> load_scale cx ly Suh p e (fst rn) (snd rn) xs
      | (Svh, LVector xs) \<Rightarrow> load_scale cx ly Svh p e (fst rn) (snd rn) xs
      | (Mcg, LMarker xs) \<Rightarrow> load_marker ly Mcg p e xs
      | (Mul1, LMarker xs) \<Rightarrow> load_marker ly Mul1 p e xs
      | _ \<Rightarrow> Inl RuntimeError)"

text \<open>\<open>_load_exl3\<close>; the flag is what \<open>return_success\<close> asks for.\<close>

definition load_exl3 ::
  "'a moe_ctx \<Rightarrow> 'a moe_layer \<Rightarrow> string \<Rightarrow> string \<Rightarrow> nat \<Rightarrow> 'a loaded \<Rightarrow> ('a moe_layer \<times> bool) res"
where
  "load_exl3 cx ly weight_name shard_id expert_id x =
     (case cx_local cx expert_id of
        None \<Rightarrow> Inr (ly, False)
      | Some e \<Rightarrow>
          bind_res (geometry_of cx [Some (cx_owner cx), Some (cx_param cx)]) (\<lambda>g.
          let shard = (if shard_id = ''w1'' \<and> moe_layer_is_gateless (cx_activation cx) then ''w3'' else shard_id)
          in bind_res (suffix_from_mapped_name weight_name) (\<lambda>s.
             bind_res (proj_from_shard_id shard) (\<lambda>p.
               map_ok (\<lambda>ly'. (ly', True)) (dispatch_load cx ly s p e (shard_rank cx (ml_rotation ly) g) x)))))"

section \<open>Creating the layer\<close>

datatype 'a created = CreatedPlain "'a moe_layer" | CreatedMixed nat nat

definition exllamav3_fused_geometry_supported :: "nat \<Rightarrow> nat \<Rightarrow> bool" where
  "exllamav3_fused_geometry_supported hidden inner \<longleftrightarrow>
     0 < hidden \<and> 0 < inner \<and> hidden mod 128 = 0 \<and> inner mod 128 = 0"

text \<open>The block-aligned width of this rank and its chunk rotation.\<close>

definition local_width :: "'a moe_ctx \<Rightarrow> nat \<Rightarrow> (nat \<times> nat) res" where
  "local_width cx inner =
     (if 0 < moe_tp_align (cx_env cx) \<and> \<not> cx_use_ep cx then
        bind_res (geometry_of cx [Some (cx_owner cx)]) (\<lambda>(tp_rank, tp_size).
          let align = nat (moe_tp_align (cx_env cx)); full = inner * tp_size in
          if 1 < tp_size \<and> full mod align = 0 then
            let rotation = moe_tp_rotation (cx_env cx) (cx_name cx) tp_size in
            map_ok (\<lambda>(_, local). (local, rotation))
              (aligned_tp_split full ((tp_rank + rotation) mod tp_size) tp_size align)
          else Inr (inner, 0))
      else Inr (inner, 0))"

definition empty_trellis :: "nat \<Rightarrow> 'd tlayer" where
  "empty_trellis n = \<lparr>tl_experts = n, tl_slots = (\<lambda>_ _. EmptyP), tl_arenas = (\<lambda>_ _. None), tl_plan = None,
     tl_pending = None, tl_require_direct = False, tl_staging = (\<lambda>_. [])\<rparr>"

text \<open>The arenas wait for the first trellis; a plan attested by a provider must be used.\<close>

definition initial_trellis :: "environ \<Rightarrow> bool \<Rightarrow> nat \<Rightarrow> (proj \<Rightarrow> shapes) option \<Rightarrow> 'd tlayer" where
  "initial_trellis env provider num_experts pending =
     (empty_trellis num_experts)\<lparr>tl_pending := pending,
       tl_require_direct := (provider \<and> trellis_arena_enabled env \<and> pending \<noteq> None)\<rparr>"

text \<open>
  \<open>create_weights\<close>: \<open>mixed\<close> is the opt-in of the exact-width store, \<open>dense\<close> whether the layer
  already has dense weights, \<open>scan\<close> the prescan of the layer for a number of experts, and
  \<open>provider\<close> whether a metadata provider is active.
\<close>

definition create_weights ::
  "'a moe_ctx \<Rightarrow> bool \<Rightarrow> bool \<Rightarrow> bool \<Rightarrow> (nat \<Rightarrow> (proj \<Rightarrow> shapes) option res) \<Rightarrow> nat \<Rightarrow> nat \<Rightarrow> nat
    \<Rightarrow> 'a created res"
where
  "create_weights cx mixed dense provider scan num_experts hidden part =
     bind_res (local_width cx part) (\<lambda>(inner, rotation).
       if mixed then
         if exllamav3_fused_geometry_supported hidden inner then Inr (CreatedMixed hidden inner) else Inl ValueError
       else if hidden mod 16 \<noteq> 0 \<or> inner mod 16 \<noteq> 0 then Inl ValueError
       else if dense then Inl RuntimeError
       else
         bind_res (if trellis_arena_enabled (cx_env cx) \<and> cx_env cx ''VLLM_EXL3_ARENA_PRESCAN'' \<noteq> Some ''0''
                   then scan num_experts else Inr None) (\<lambda>pending.
         Inr (CreatedPlain \<lparr>
           ml_trellis = initial_trellis (cx_env cx) provider num_experts pending,
           ml_suh = (\<lambda>_ _. None), ml_svh = (\<lambda>_ _. None), ml_mcg = (\<lambda>_ _. 0), ml_mul1 = (\<lambda>_ _. 0),
           ml_hidden = hidden, ml_inter = inner, ml_in_tiles = hidden div 16, ml_out_tiles = inner div 16,
           ml_rotation = rotation\<rparr>)))"

section \<open>Routing checkpoint names\<close>

record mapping_entry =
  me_param :: string
  me_weight :: string
  me_expert :: nat
  me_shard :: string

datatype route = Skip | Deliver string string nat string

definition qualify :: "string \<Rightarrow> string \<Rightarrow> string" where
  "qualify layer_name expert_name =
     (if layer_name = [] then expert_name else layer_name @ ''.'' @ expert_name)"

text \<open>\<open>Deliver\<close> holds the local parameter, the full name, the expert and the shard.\<close>

definition route_weight ::
  "(string \<Rightarrow> bool) \<Rightarrow> string \<Rightarrow> mapping_entry list \<Rightarrow> string \<Rightarrow> route res"
where
  "route_weight has_param layer_name mapping expert_name =
     (let qual_name = qualify layer_name expert_name in
      case find (\<lambda>m. contains (me_weight m) qual_name) mapping of
        None \<Rightarrow> Inr Skip
      | Some m \<Rightarrow>
          let full_name = replace_all (me_weight m) (me_param m) qual_name;
              local_name = remove_prefix (layer_name @ ''.'') full_name in
          if has_param local_name then Inr (Deliver local_name full_name (me_expert m) (me_shard m))
          else if ends_with ''w13_bias'' local_name \<or> ends_with ''w2_bias'' local_name then Inr Skip
          else Inl AttributeError)"

definition load_step ::
  "'a moe_ctx \<Rightarrow> (string \<Rightarrow> bool) \<Rightarrow> mapping_entry list \<Rightarrow> 'a moe_layer \<times> string list \<Rightarrow> string \<times> 'a loaded
    \<Rightarrow> ('a moe_layer \<times> string list) res"
where
  "load_step cx has_param mapping st w =
     bind_res (route_weight has_param (cx_layer_name cx) mapping (fst w)) (\<lambda>rt.
       case rt of
         Skip \<Rightarrow> Inr st
       | Deliver local_name full_name e shard \<Rightarrow>
           map_ok (\<lambda>(ly, ok). (ly, if ok then snd st @ [local_name] else snd st))
             (load_exl3 cx (fst st) full_name shard e (snd w)))"

definition load_weights ::
  "'a moe_ctx \<Rightarrow> (string \<Rightarrow> bool) \<Rightarrow> mapping_entry list \<Rightarrow> 'a moe_layer \<Rightarrow> (string \<times> 'a loaded) list
    \<Rightarrow> ('a moe_layer \<times> string list) res"
where
  "load_weights cx has_param mapping ly ws = fold_res (load_step cx has_param mapping) (ly, []) ws"

section \<open>Allocated and loaded widths\<close>

text \<open>
  The feature dimension of the whole expert: with expert parallelism the rank's own width,
  otherwise the ranks' chunks together.
\<close>

definition full_width :: "'a moe_ctx \<Rightarrow> nat \<Rightarrow> nat \<Rightarrow> nat" where
  "full_width cx part tp = (if cx_use_ep cx then part else part * tp)"

definition aligned_tp :: "'a moe_ctx \<Rightarrow> nat \<Rightarrow> bool" where
  "aligned_tp cx tp \<longleftrightarrow> 0 < moe_tp_align (cx_env cx) \<and> \<not> cx_use_ep cx \<and> 1 < tp"

lemma shard_counts_offset:
  "r < tp \<Longrightarrow> sum_list (take r (shard_counts b tp)) + shard_counts b tp ! r \<le> b"
proof -
  assume r: "r < tp"
  then have "sum_list (take (Suc r) (shard_counts b tp)) \<le> sum_list (shard_counts b tp)"
    by (metis append_take_drop_id le_add1 sum_list_append)
  then show ?thesis
    using r shard_counts_sum [of tp b] by (simp add: take_Suc_conv_app_nth)
qed

lemma narrow_length:
  assumes "narrow_range env (length xs) r tp 1 True = Inr rng" and "r < tp"
  shows "length (narrow rng xs) = range_len rng (length xs)"
proof (cases rng)
  case None
  then show ?thesis by (simp add: narrow_def range_len_def)
next
  case (Some g)
  obtain ofs len where g: "g = (ofs, len)" by (cases g)
  obtain q b where q: "length xs = b * q"
      and v: "ofs = offset_of (shard_counts b tp) r * q" "len = shard_counts b tp ! r * q"
    using narrow_range_Inr [of env "length xs" r tp 1 True ofs len] assms by (auto simp: Some g)
  have "(sum_list (take r (shard_counts b tp)) + shard_counts b tp ! r) * q \<le> b * q"
    using shard_counts_offset [OF assms(2)] by (rule mult_le_mono1)
  then have "ofs + len \<le> length xs" by (simp add: q v offset_of_def add_mult_distrib)
  then show ?thesis by (simp add: Some g narrow_def range_len_def)
qed

text \<open>The width that \<open>create_weights\<close> allocates is the one that the loader cuts out.\<close>

lemma width_agrees:
  assumes w: "local_width cx part = Inr (inner, rot)"
    and g: "geometry_of cx [Some (cx_owner cx)] = Inr (r, tp)" and r: "r < tp"
    and al: "aligned_tp cx tp \<Longrightarrow> full_width cx part tp mod nat (moe_tp_align (cx_env cx)) = 0"
    and u: "0 < u" "sz * u = full_width cx part tp" "inner mod u = 0"
  shows "\<exists>rng. narrow_range (cx_env cx) sz (fst (shard_rank cx rot (r, tp))) (snd (shard_rank cx rot (r, tp))) u True =
      Inr rng \<and> range_len rng sz = inner div u"
proof -
  consider (ep) "cx_use_ep cx" | (one) "\<not> cx_use_ep cx" "\<not> 1 < tp"
    | (equal) "\<not> cx_use_ep cx" "1 < tp" "\<not> 0 < moe_tp_align (cx_env cx)"
    | (aligned) "aligned_tp cx tp"
    unfolding aligned_tp_def by blast
  then show ?thesis
  proof cases
    case ep
    then have "inner = sz * u" using w u(2) by (simp add: local_width_def full_width_def)
    then have "sz = inner div u" using u(1) by simp
    then show ?thesis using ep by (simp add: shard_rank_def narrow_range_def range_len_def)
  next
    case one
    then have tp: "tp = 1" using r by simp
    then have "inner = part" using w g one by (auto simp: local_width_def Let_def split: if_splits)
    then have "sz = inner div u" using one tp u by (auto simp: full_width_def)
    then show ?thesis using one tp by (simp add: shard_rank_def narrow_range_def range_len_def)
  next
    case equal
    then have v: "inner = part" "rot = 0" using w by (simp_all add: local_width_def)
    obtain c where c: "part = u * c" using v(1) u(3) by (auto simp: mod_eq_0_iff_dvd elim: dvdE)
    have sz: "sz = c * tp" using u(1,2) equal(1) by (simp add: full_width_def c)
    then have "narrow_range (cx_env cx) sz r tp u True = Inr (Some (sz div tp * r, sz div tp))"
      using equal by (intro narrow_range_equal) auto
    then show ?thesis using equal v r u(1) sz c by (simp add: shard_rank_def rotated_rank_def range_len_def)
  next
    case aligned
    define A where "A = nat (moe_tp_align (cx_env cx))"
    have pos: "0 < A" "0 < moe_tp_align (cx_env cx)" "1 < tp" "\<not> cx_use_ep cx"
      using aligned by (simp_all add: aligned_tp_def A_def)
    have full: "part * tp mod A = 0" using al aligned pos by (simp add: full_width_def A_def)
    obtain ofs where sp: "aligned_tp_split (part * tp) ((r + rot) mod tp) tp A = Inr (ofs, inner)"
      using w g pos full
      by (auto simp: local_width_def Let_def map_ok_def bind_res_Inr A_def [symmetric])
    have rk: "fst (shard_rank cx rot (r, tp)) = (r + rot) mod tp" "snd (shard_rank cx rot (r, tp)) = tp"
      using pos r by (auto simp: shard_rank_def rotated_rank_def)
    have "sz * u = part * tp" using u(2) pos by (simp add: full_width_def)
    then have "narrow_range (cx_env cx) sz ((r + rot) mod tp) tp u True = Inr (Some (ofs div u, inner div u))"
      using pos full sp by (simp add: narrow_range_def Let_def A_def [symmetric])
    then show ?thesis unfolding rk by (simp add: range_len_def)
  qed
qed

section \<open>Loads that cannot fail\<close>

text \<open>A checkpoint tensor of the unsharded expert.\<close>

definition whole_tensor :: "nat \<Rightarrow> nat \<Rightarrow> suffix \<Rightarrow> proj \<Rightarrow> 'a loaded \<Rightarrow> bool" where
  "whole_tensor hidden full s p x =
     (case (s, x) of
        (Trellis_s, LTrellis (Trellis rows cols tiles) k) \<Rightarrow>
          (rows, cols) = (if p = Down then (full div 16, hidden div 16) else (hidden div 16, full div 16)) \<and>
          k mod 16 = 0
      | (Suh, LVector xs) \<Rightarrow> length xs = (if p = Down then full else hidden)
      | (Svh, LVector xs) \<Rightarrow> length xs = (if p = Down then hidden else full)
      | (Mcg, LMarker _) \<Rightarrow> True
      | (Mul1, LMarker _) \<Rightarrow> True
      | _ \<Rightarrow> False)"

text \<open>The projection a shard id addresses in this layer.\<close>

definition target_proj :: "'a moe_ctx \<Rightarrow> string \<Rightarrow> proj res" where
  "target_proj cx shard_id =
     proj_from_shard_id (if shard_id = ''w1'' \<and> moe_layer_is_gateless (cx_activation cx) then ''w3'' else shard_id)"

text \<open>The arenas can take every further trellis: nothing planned yet, or planned for \<open>P\<close>.\<close>

definition storable :: "'a moe_ctx \<Rightarrow> (proj \<Rightarrow> shapes) option \<Rightarrow> nat \<Rightarrow> 'a list list tlayer \<Rightarrow> bool" where
  "storable cx P n tr \<longleftrightarrow>
     tl_experts tr = n \<and>
     (tl_require_direct tr \<longrightarrow> trellis_arena_enabled (cx_env cx) \<and> P \<noteq> None) \<and>
     (tl_plan tr = None \<longrightarrow> tl_pending tr = P) \<and>
     (\<forall>idx. tl_plan tr = Some idx \<longrightarrow> plan_ok tr idx \<and> P \<noteq> None \<and> trellis_arena_enabled (cx_env cx) \<and>
       (\<forall>p e sh. (\<exists>i. idx p e = Some (sh, i)) \<longleftrightarrow>
          od_get (the P p) e = Some sh \<and> od_get (cx_aliases cx p) e = None))"

definition fits_plan :: "'a moe_ctx \<Rightarrow> (proj \<Rightarrow> shapes) option \<Rightarrow> proj \<Rightarrow> nat \<Rightarrow> nat list \<Rightarrow> bool" where
  "fits_plan cx P p e sh \<longleftrightarrow>
     (case P of
        None \<Rightarrow> True
      | Some shp \<Rightarrow> \<not> trellis_arena_enabled (cx_env cx) \<or>
          od_get (shp p) e = Some sh \<and>
          (case od_get (cx_aliases cx p) e of None \<Rightarrow> True | Some a \<Rightarrow> fst a = sh))"

definition scan_ok :: "(proj \<Rightarrow> shapes) option \<Rightarrow> nat \<Rightarrow> bool" where
  "scan_ok P n \<longleftrightarrow> (\<forall>shp. P = Some shp \<longrightarrow>
     (\<forall>p. od_ok (shp p)) \<and> (\<forall>p e sh. od_get (shp p) e = Some sh \<longrightarrow> e < n))"

lemma fill_planned:
  assumes ok: "storable cx P n tr" and pl: "tl_plan tr = Some idx"
    and fit: "od_get (the P p) e = Some sh" "\<And>a. od_get (cx_aliases cx p) e = Some a \<Longrightarrow> fst a = sh"
  shows "\<exists>tr'. direct_fill_trellis_slot (cx_aliases cx) tr p e (sh, d) = Inr tr' \<and> storable cx P n tr'"
proof (cases "od_get (cx_aliases cx p) e")
  case None
  have po: "plan_ok tr idx" using ok pl by (simp add: storable_def)
  have "(\<exists>i. idx p e = Some (sh, i)) \<longleftrightarrow> od_get (the P p) e = Some sh \<and> od_get (cx_aliases cx p) e = None"
    using ok pl by (simp add: storable_def)
  then obtain i where i: "idx p e = Some (sh, i)" using fit(1) None by blast
  then obtain slots where sl: "tl_arenas tr p sh = Some slots" using po unfolding plan_ok_def by blast
  then have f: "direct_fill_trellis_slot (cx_aliases cx) tr p e (sh, d) =
      Inr (tr\<lparr>tl_arenas := (tl_arenas tr)(p := (tl_arenas tr p)(sh \<mapsto> slots[i := Some (sh, d)]))\<rparr>)" (is "_ = Inr ?t")
    using pl i by (simp add: direct_fill_trellis_slot_def)
  have "plan_ok ?t idx" using direct_fill [OF po f] by blast
  then show ?thesis using f ok pl by (simp add: storable_def)
next
  case (Some a)
  have "(\<exists>i. idx p e = Some (sh', i)) \<longleftrightarrow> od_get (the P p) e = Some sh' \<and> od_get (cx_aliases cx p) e = None" for sh'
    using ok pl by (simp add: storable_def)
  then have "idx p e = None" using Some by (cases "idx p e") auto
  then show ?thesis using ok pl fit(2) Some by (simp add: direct_fill_trellis_slot_def)
qed

lemma store_total:
  assumes ok: "storable cx P n tr" and sc: "scan_ok P n" and fit: "fits_plan cx P p e sh"
  shows "\<exists>tr'. store_trellis (trellis_arena_enabled (cx_env cx)) (cx_aliases cx) tr p e (sh, d) = Inr tr' \<and>
    storable cx P n tr'"
proof (cases "trellis_arena_enabled (cx_env cx)")
  case False
  then have "tl_plan tr = None" using ok by (cases "tl_plan tr") (auto simp: storable_def)
  then show ?thesis using False ok
    by (auto simp: store_trellis_def storable_def split: option.split)
next
  case True
  show ?thesis
  proof (cases "tl_plan tr")
    case (Some idx)
    then have "P \<noteq> None" using ok by (simp add: storable_def)
    then have "od_get (the P p) e = Some sh" "\<And>a. od_get (cx_aliases cx p) e = Some a \<Longrightarrow> fst a = sh"
      using fit True \<open>P \<noteq> None\<close> by (auto simp: fits_plan_def split: option.splits)
    from fill_planned [OF ok Some this] show ?thesis
      using True Some by (auto simp: store_trellis_def split: option.split)
  next
    case None
    note unplanned = this
    from None have pend: "tl_pending tr = P" using ok by (simp add: storable_def)
    show ?thesis
    proof (cases P)
      case None
      then have "\<not> tl_require_direct tr" using ok by (simp add: storable_def)
      then show ?thesis using True pend None unplanned ok
        by (simp add: store_trellis_def storable_def stage_trellis_def)
    next
      case (Some shp)
      have od: "od_ok (shp p)" for p using sc Some by (simp add: scan_ok_def)
      have "e < tl_experts tr" if "(e, sh) \<in> set (shp p)" for p e sh
      proof -
        have "e < n" using od_get_in [OF od that] sc Some by (auto simp: scan_ok_def)
        then show ?thesis using ok by (simp add: storable_def)
      qed
      then obtain tr1 where pr: "prepare_trellis_arena_plan (cx_aliases cx) tr shp = Inr tr1" and fr: "same_setup tr tr1"
        using prepare_total by blast
      obtain idx where ix: "plan_ok tr1 idx"
        "\<forall>p e sh. (\<exists>i. idx p e = Some (sh, i)) \<longleftrightarrow> od_get (shp p) e = Some sh \<and> od_get (cx_aliases cx p) e = None"
        using prepare_plan [OF pr od] by blast
      let ?tr = "tr1\<lparr>tl_pending := None\<rparr>"
      have "plan_ok ?tr idx" using ix(1) by (simp add: plan_ok_def)
      moreover have pl: "tl_plan ?tr = Some idx" using ix(1) by (simp add: plan_ok_def)
      ultimately have ok1: "storable cx P n ?tr"
        using ok fr ix(2) Some True unfolding storable_def same_setup_def by simp
      have "od_get (the P p) e = Some sh" "\<And>a. od_get (cx_aliases cx p) e = Some a \<Longrightarrow> fst a = sh"
        using fit True Some by (auto simp: fits_plan_def split: option.splits)
      from fill_planned [OF ok1 pl this] show ?thesis
        using True Some pend unplanned pr pl fr ok by (simp add: store_trellis_def map_ok_def)
    qed
  qed
qed

text \<open>A layer of the allocated geometry whose arenas can take every further trellis.\<close>

definition sized :: "'a moe_ctx \<Rightarrow> (proj \<Rightarrow> shapes) option \<Rightarrow> nat \<Rightarrow> nat \<Rightarrow> nat \<Rightarrow> nat \<Rightarrow> 'a moe_layer \<Rightarrow> bool" where
  "sized cx P n hidden inner rot ly \<longleftrightarrow>
     ml_hidden ly = hidden \<and> ml_inter ly = inner \<and> ml_in_tiles ly = hidden div 16 \<and>
     ml_out_tiles ly = inner div 16 \<and> ml_rotation ly = rot \<and> storable cx P n (ml_trellis ly)"

definition local_trellis_shape :: "nat \<Rightarrow> nat \<Rightarrow> proj \<Rightarrow> nat \<Rightarrow> nat list" where
  "local_trellis_shape hidden inner p k =
     (if p = Down then [inner div 16, hidden div 16, k] else [hidden div 16, inner div 16, k])"

definition placeable :: "'a moe_ctx \<Rightarrow> (proj \<Rightarrow> shapes) option \<Rightarrow> nat \<Rightarrow> nat \<Rightarrow> proj \<Rightarrow> nat \<Rightarrow> 'a loaded \<Rightarrow> bool" where
  "placeable cx P hidden inner p e x \<longleftrightarrow>
     (case x of LTrellis t k \<Rightarrow> fits_plan cx P p e (local_trellis_shape hidden inner p k) | _ \<Rightarrow> True)"

lemma sized_updates [simp]:
  "sized cx P n hidden inner rot (ly\<lparr>ml_suh := a\<rparr>) = sized cx P n hidden inner rot ly"
  "sized cx P n hidden inner rot (ly\<lparr>ml_svh := a\<rparr>) = sized cx P n hidden inner rot ly"
  "sized cx P n hidden inner rot (ly\<lparr>ml_mcg := b\<rparr>) = sized cx P n hidden inner rot ly"
  "sized cx P n hidden inner rot (ly\<lparr>ml_mul1 := b\<rparr>) = sized cx P n hidden inner rot ly"
  by (simp_all add: sized_def)

lemma shard_scale:
  assumes w: "(s = Suh) = (p = Down) \<Longrightarrow>
      \<exists>rng. narrow_range env (length xs) r n 1 True = Inr rng \<and> range_len rng (length xs) = inner"
    and r: "r < n" and s: "s = Suh \<or> s = Svh"
    and len: "length xs = (if (s = Suh) = (p = Down) then full else hidden)"
  shows "\<exists>ys. shard_exl3 env (Vector xs) s p r n = Inr (Vector ys) \<and>
    length ys = (if (s = Suh) = (p = Down) then inner else hidden)"
proof (cases "(s = Suh) = (p = Down)")
  case True
  then obtain rng where rng: "narrow_range env (length xs) r n 1 True = Inr rng" "range_len rng (length xs) = inner"
    using w by auto
  have "length (narrow rng xs) = inner" using narrow_length [OF rng(1) r] rng(2) by simp
  then show ?thesis using True rng(1) s
    by (cases p) (auto simp: shard_exl3_def shard_exl3_col_def shard_exl3_row_def map_ok_def)
next
  case False
  then show ?thesis using s len
    by (cases p) (auto simp: shard_exl3_def shard_exl3_col_def shard_exl3_row_def)
qed

lemma dispatch_total:
  assumes sz: "sized cx P n hidden inner rot ly" and sc: "scan_ok P n"
    and w: "local_width cx part = Inr (inner, rot)"
    and g: "geometry_of cx [Some (cx_owner cx)] = Inr (r, tp)" and r: "r < tp"
    and al: "aligned_tp cx tp \<Longrightarrow> full_width cx part tp mod nat (moe_tp_align (cx_env cx)) = 0"
    and full: "full = full_width cx part tp" "full mod 16 = 0"
    and div: "hidden mod 16 = 0" "inner mod 16 = 0"
    and x: "whole_tensor hidden full s p x" "placeable cx P hidden inner p e x" and e: "e < n"
  shows "\<exists>ly'. dispatch_load cx ly s p e (shard_rank cx rot (r, tp)) x = Inr ly' \<and> sized cx P n hidden inner rot ly'"
proof -
  obtain r' n' where rn: "shard_rank cx rot (r, tp) = (r', n')" by (cases "shard_rank cx rot (r, tp)")
  have r': "r' < n'" using rn r by (auto simp: shard_rank_def rotated_rank_def split: if_splits)
  note wa = width_agrees [OF w g r al, unfolded rn fst_conv snd_conv]
  have w16: "\<exists>rng. narrow_range (cx_env cx) (full div 16) r' n' 16 True = Inr rng \<and> range_len rng (full div 16) = inner div 16"
    by (rule wa) (use full div in auto)
  have w1: "\<exists>rng. narrow_range (cx_env cx) full r' n' 1 True = Inr rng \<and> range_len rng full = inner"
    using wa [of 1 full] full by simp
  have experts: "tl_experts (ml_trellis ly) = n" using sz by (simp add: sized_def storable_def)
  have scale: "\<exists>ly'. dispatch_load cx ly s p e (r', n') x = Inr ly' \<and> sized cx P n hidden inner rot ly'"
    if s: "s = Suh \<or> s = Svh" and xs: "x = LVector xs"
      and l: "length xs = (if (s = Suh) = (p = Down) then full else hidden)" for xs
  proof -
    obtain ys where ys: "shard_exl3 (cx_env cx) (Vector xs) s p r' n' = Inr (Vector ys)"
        "length ys = (if (s = Suh) = (p = Down) then inner else hidden)"
      using shard_scale [OF _ r' s l, of "cx_env cx" inner] w1 l by auto
    then have "length ys = scale_len ly s p" using sz s by (cases p) (auto simp: sized_def scale_len_def)
    then show ?thesis using ys s e experts sz xs by (auto simp: dispatch_load_def load_scale_def)
  qed
  show ?thesis
  proof (cases s)
    case Trellis_s
    then obtain rows cols tiles k where xt: "x = LTrellis (Trellis rows cols tiles) k"
      using x(1) by (auto simp: whole_tensor_def split: loaded.splits exl3_tensor.splits)
    have dims: "(rows, cols) = (if p = Down then (full div 16, hidden div 16) else (hidden div 16, full div 16))"
        "k mod 16 = 0" using x(1) Trellis_s xt by (simp_all add: whole_tensor_def)
    obtain tiles' where t: "shard_exl3 (cx_env cx) (Trellis rows cols tiles) Trellis_s p r' n' =
        Inr (Trellis (fst (expect_prefix ly p)) (snd (expect_prefix ly p)) tiles')"
      using w16 dims sz
      by (cases p) (auto simp: shard_exl3_def shard_exl3_col_def shard_exl3_row_def map_ok_def expect_prefix_def sized_def)
    have shp: "local_trellis_shape hidden inner p k = [fst (expect_prefix ly p), snd (expect_prefix ly p), k]"
      using sz by (cases p) (simp_all add: local_trellis_shape_def expect_prefix_def sized_def)
    have "storable cx P n (ml_trellis ly)" using sz by (simp add: sized_def)
    from store_total [OF this sc, of p e "local_trellis_shape hidden inner p k" tiles'] x(2)
    obtain tr' where "store_trellis (trellis_arena_enabled (cx_env cx)) (cx_aliases cx) (ml_trellis ly) p e
        (local_trellis_shape hidden inner p k, tiles') = Inr tr'" "storable cx P n tr'"
      by (auto simp: placeable_def xt)
    then show ?thesis
      using t dims(2) sz xt Trellis_s shp by (simp add: rn dispatch_load_def load_trellis_def map_ok_def sized_def)
  next
    case Suh
    then obtain xs where "x = LVector xs" "length xs = (if (s = Suh) = (p = Down) then full else hidden)"
      using x(1) by (auto simp: whole_tensor_def split: loaded.splits)
    then show ?thesis using scale Suh by (simp add: rn)
  next
    case Svh
    then obtain xs where "x = LVector xs" "length xs = (if (s = Suh) = (p = Down) then full else hidden)"
      using x(1) by (auto simp: whole_tensor_def split: loaded.splits)
    then show ?thesis using scale Svh by (simp add: rn)
  next
    case Mcg
    then show ?thesis using x(1) e experts sz
      by (auto simp: whole_tensor_def rn dispatch_load_def load_marker_def Let_def split: loaded.splits)
  next
    case Mul1
    then show ?thesis using x(1) e experts sz
      by (auto simp: whole_tensor_def rn dispatch_load_def load_marker_def Let_def split: loaded.splits)
  qed
qed

lemma load_total:
  assumes sz: "sized cx P n hidden inner rot ly" and sc: "scan_ok P n"
    and w: "local_width cx part = Inr (inner, rot)"
    and g: "geometry_of cx [Some (cx_owner cx)] = Inr (r, tp)"
      "geometry_of cx [Some (cx_owner cx), Some (cx_param cx)] = Inr (r, tp)" and r: "r < tp"
    and al: "aligned_tp cx tp \<Longrightarrow> full_width cx part tp mod nat (moe_tp_align (cx_env cx)) = 0"
    and full: "full_width cx part tp mod 16 = 0" and div: "hidden mod 16 = 0" "inner mod 16 = 0"
    and loc: "\<And>e. cx_local cx ge = Some e \<Longrightarrow> e < n \<and> suffix_from_mapped_name name = Inr s \<and>
      target_proj cx shard = Inr p \<and> whole_tensor hidden (full_width cx part tp) s p x \<and> placeable cx P hidden inner p e x"
  shows "\<exists>ly' ok. load_exl3 cx ly name shard ge x = Inr (ly', ok) \<and> sized cx P n hidden inner rot ly'"
proof (cases "cx_local cx ge")
  case None
  then have "load_exl3 cx ly name shard ge x = Inr (ly, False)" by (simp add: load_exl3_def)
  then show ?thesis using sz by blast
next
  case (Some e)
  note l = loc [OF Some]
  obtain ly' where "dispatch_load cx ly s p e (shard_rank cx rot (r, tp)) x = Inr ly'" "sized cx P n hidden inner rot ly'"
    using dispatch_total [OF sz sc w g(1) r al refl full div, of s p x e] l by blast
  moreover have "ml_rotation ly = rot" using sz by (simp add: sized_def)
  ultimately have "load_exl3 cx ly name shard ge x = Inr (ly', True) \<and> sized cx P n hidden inner rot ly'"
    using Some l g(2) by (simp add: load_exl3_def target_proj_def map_ok_def)
  then show ?thesis by blast
qed

lemma created_sized:
  assumes "create_weights cx False dense provider scan n hidden part = Inr (CreatedPlain ly)"
  shows "\<exists>inner rot. local_width cx part = Inr (inner, rot) \<and> hidden mod 16 = 0 \<and> inner mod 16 = 0 \<and>
    sized cx (tl_pending (ml_trellis ly)) n hidden inner rot ly"
proof -
  obtain inner rot where w: "local_width cx part = Inr (inner, rot)"
    using assms by (auto simp: create_weights_def bind_res_Inr)
  have "hidden mod 16 = 0 \<and> inner mod 16 = 0 \<and> sized cx (tl_pending (ml_trellis ly)) n hidden inner rot ly"
    using assms w
    by (auto simp: create_weights_def bind_res_Inr sized_def storable_def initial_trellis_def empty_trellis_def split: if_splits)
  then show ?thesis by (intro exI [of _ inner] exI [of _ rot] conjI w) simp_all
qed

text \<open>
  A weight of the checkpoint as the loader expects it: ignored, another rank's expert, or a whole
  tensor for one of the layer's experts that the planned arena has a slot for.
\<close>

definition good_weight ::
  "'a moe_ctx \<Rightarrow> (string \<Rightarrow> bool) \<Rightarrow> mapping_entry list \<Rightarrow> (proj \<Rightarrow> shapes) option \<Rightarrow> nat \<Rightarrow> nat \<Rightarrow> nat \<Rightarrow> nat
    \<Rightarrow> string \<times> 'a loaded \<Rightarrow> bool"
where
  "good_weight cx has_param mapping P n hidden inner full w =
     (case route_weight has_param (cx_layer_name cx) mapping (fst w) of
        Inl _ \<Rightarrow> False
      | Inr Skip \<Rightarrow> True
      | Inr (Deliver local_name full_name g shard) \<Rightarrow>
          (case (cx_local cx g, suffix_from_mapped_name full_name, target_proj cx shard) of
             (None, _, _) \<Rightarrow> True
           | (Some e, Inr s, Inr p) \<Rightarrow>
               e < n \<and> whole_tensor hidden full s p (snd w) \<and> placeable cx P hidden inner p e (snd w)
           | _ \<Rightarrow> False))"


section \<open>A small layer over two ranks\<close>

text \<open>
  One expert of width 48 in blocks of 16 over two ranks: this rank holds two blocks, its trellises
  planned ahead.
\<close>

definition demo_owner :: owner where
  "demo_owner = \<lparr>ow_moe_config = Some (Some \<lparr>pc_tp_rank = Some 0, pc_tp_size = Some 2\<rparr>), ow_parallel_config = None,
     ow_tp_rank = None, ow_moe_tp_size = None, ow_tp_size = None, ow_exl3_tp_size = None\<rparr>"

definition bare_owner :: owner where
  "bare_owner = \<lparr>ow_moe_config = None, ow_parallel_config = None,
     ow_tp_rank = None, ow_moe_tp_size = None, ow_tp_size = None, ow_exl3_tp_size = None\<rparr>"

definition demo_cx :: "string option \<Rightarrow> nat moe_ctx" where
  "demo_cx act = \<lparr>cx_env = (\<lambda>k. if k = ''VLLM_EXL3_MOE_TP_ALIGN'' then Some ''16'' else None),
     cx_activation = act, cx_local = (\<lambda>g. if g = 7 then Some 0 else None), cx_process = (1, 4),
     cx_owner = demo_owner, cx_param = bare_owner, cx_use_ep = False, cx_name = ''model.layers.0.mlp.experts'',
     cx_layer_name = ''model.layers.0.mlp.experts'', cx_aliases = (\<lambda>_. [])\<rparr>"

definition demo_plan :: "proj \<Rightarrow> shapes" where
  "demo_plan p = (case p of Down \<Rightarrow> [(0, [2, 1, 32])] | _ \<Rightarrow> [(0, [1, 2, 32])])"

definition demo_mapping :: "mapping_entry list" where
  "demo_mapping =
     [\<lparr>me_param = ''experts.w13_'', me_weight = ''experts.7.w1.'', me_expert = 7, me_shard = ''w1''\<rparr>,
      \<lparr>me_param = ''experts.w2_'', me_weight = ''experts.7.w2.'', me_expert = 7, me_shard = ''w2''\<rparr>,
      \<lparr>me_param = ''experts.w13_'', me_weight = ''experts.7.w3.'', me_expert = 7, me_shard = ''w3''\<rparr>,
      \<lparr>me_param = ''experts.w13_'', me_weight = ''experts.8.w1.'', me_expert = 8, me_shard = ''w1''\<rparr>]"

definition demo_weights :: "(string \<times> nat loaded) list" where
  "demo_weights =
     [(''7.w1.trellis'', LTrellis (Trellis 1 3 [[10, 11, 12]]) 32),
      (''7.w2.trellis'', LTrellis (Trellis 3 1 [[20], [21], [22]]) 32),
      (''7.w1.svh'', LVector [0..<48]), (''7.w2.suh'', LVector [0..<48]),
      (''7.w3.mcg'', LMarker [5]), (''8.w1.suh'', LVector []), (''norm.weight'', LVector [])]"

definition demo_moe :: "nat moe_layer" where
  "demo_moe = \<lparr>ml_trellis = (empty_trellis 1)\<lparr>tl_pending := Some demo_plan\<rparr>,
     ml_suh = (\<lambda>_ _. None), ml_svh = (\<lambda>_ _. None), ml_mcg = (\<lambda>_ _. 0), ml_mul1 = (\<lambda>_ _. 0),
     ml_hidden = 16, ml_inter = 32, ml_in_tiles = 1, ml_out_tiles = 2, ml_rotation = 0\<rparr>"

lemma demo_created:
  "create_weights (demo_cx None) False False False (\<lambda>_. Inr (Some demo_plan)) 1 16 24 = Inr (CreatedPlain demo_moe)"
proof -
  have "local_width (demo_cx None) 24 = Inr (32, 0)" by code_simp
  then show ?thesis
    by (simp add: create_weights_def trellis_arena_enabled_def demo_moe_def demo_cx_def initial_trellis_def empty_trellis_def)
qed


section \<open>What one load changes\<close>

lemma load_exl3_cases:
  assumes "load_exl3 cx ly name shard ge x = Inr (ly', ok)"
  obtains (foreign) "\<not> ok" "ly' = ly" "cx_local cx ge = None"
  | (here) e g s p where "ok" "cx_local cx ge = Some e" "suffix_from_mapped_name name = Inr s"
      "target_proj cx shard = Inr p"
      "geometry_of cx [Some (cx_owner cx), Some (cx_param cx)] = Inr g"
      "dispatch_load cx ly s p e (shard_rank cx (ml_rotation ly) g) x = Inr ly'"
proof (cases "cx_local cx ge")
  case None
  then show ?thesis using assms that(1) by (simp add: load_exl3_def)
next
  case (Some e)
  then show ?thesis
    using assms that(2) by (fastforce simp: load_exl3_def target_proj_def map_ok_def bind_res_Inr Let_def)
qed

lemma load_trellis_Inr:
  assumes "load_trellis cx ly p e r n t k = Inr ly'"
  obtains sh d tr where "store_trellis (trellis_arena_enabled (cx_env cx)) (cx_aliases cx) (ml_trellis ly) p e (sh, d) = Inr tr"
    "ly' = ly\<lparr>ml_trellis := tr\<rparr>"
proof (cases "shard_exl3 (cx_env cx) t Trellis_s p r n")
  case (Inr sharded)
  then show ?thesis
    using assms that
    by (cases sharded) (auto simp: load_trellis_def map_ok_def bind_res_Inr split: if_splits)
qed (use assms in \<open>simp add: load_trellis_def\<close>)

lemma load_scale_Inr:
  assumes "load_scale cx ly s p e r n xs = Inr ly'"
  obtains ys where "shard_exl3 (cx_env cx) (Vector xs) s p r n = Inr (Vector ys)"
    "ly' = (if s = Suh then ly\<lparr>ml_suh := set2 (ml_suh ly) p e (Some ys)\<rparr>
            else ly\<lparr>ml_svh := set2 (ml_svh ly) p e (Some ys)\<rparr>)"
proof (cases "shard_exl3 (cx_env cx) (Vector xs) s p r n")
  case (Inr sharded)
  then show ?thesis
    using assms that by (cases sharded) (auto simp: load_scale_def split: if_splits)
qed (use assms in \<open>simp add: load_scale_def\<close>)

lemma load_marker_Inr:
  "load_marker ly s p e xs = Inr ly' \<Longrightarrow>
    ly' = (if s = Mcg then ly\<lparr>ml_mcg := set2 (ml_mcg ly) p e (case xs of [] \<Rightarrow> 0 | x # _ \<Rightarrow> x)\<rparr>
           else ly\<lparr>ml_mul1 := set2 (ml_mul1 ly) p e (case xs of [] \<Rightarrow> 0 | x # _ \<Rightarrow> x)\<rparr>)"
  by (auto simp: load_marker_def Let_def split: if_splits)

text \<open>The successful dispatches, one per kind of tensor.\<close>

lemma dispatch_Inr:
  assumes "dispatch_load cx ly s p e rn x = Inr ly'"
  obtains (trellis) sh d tr where "s = Trellis_s"
      "store_trellis (trellis_arena_enabled (cx_env cx)) (cx_aliases cx) (ml_trellis ly) p e (sh, d) = Inr tr"
      "ly' = ly\<lparr>ml_trellis := tr\<rparr>"
  | (suh) xs ys where "s = Suh" "x = LVector xs"
      "shard_exl3 (cx_env cx) (Vector xs) Suh p (fst rn) (snd rn) = Inr (Vector ys)"
      "ly' = ly\<lparr>ml_suh := set2 (ml_suh ly) p e (Some ys)\<rparr>"
  | (svh) xs ys where "s = Svh" "x = LVector xs"
      "shard_exl3 (cx_env cx) (Vector xs) Svh p (fst rn) (snd rn) = Inr (Vector ys)"
      "ly' = ly\<lparr>ml_svh := set2 (ml_svh ly) p e (Some ys)\<rparr>"
  | (mcg) xs where "s = Mcg" "x = LMarker xs"
      "ly' = ly\<lparr>ml_mcg := set2 (ml_mcg ly) p e (case xs of [] \<Rightarrow> 0 | v # _ \<Rightarrow> v)\<rparr>"
  | (mul1) xs where "s = Mul1" "x = LMarker xs"
      "ly' = ly\<lparr>ml_mul1 := set2 (ml_mul1 ly) p e (case xs of [] \<Rightarrow> 0 | v # _ \<Rightarrow> v)\<rparr>"
proof (cases s)
  case Trellis_s
  then obtain t k where "load_trellis cx ly p e (fst rn) (snd rn) t k = Inr ly'"
    using assms by (auto simp: dispatch_load_def split: loaded.splits)
  then show ?thesis by (rule load_trellis_Inr) (use trellis Trellis_s in auto)
next
  case Suh
  then obtain xs where x: "x = LVector xs" "load_scale cx ly Suh p e (fst rn) (snd rn) xs = Inr ly'"
    using assms by (auto simp: dispatch_load_def split: loaded.splits)
  from x(2) show ?thesis by (rule load_scale_Inr) (use suh Suh x(1) in auto)
next
  case Svh
  then obtain xs where x: "x = LVector xs" "load_scale cx ly Svh p e (fst rn) (snd rn) xs = Inr ly'"
    using assms by (auto simp: dispatch_load_def split: loaded.splits)
  from x(2) show ?thesis by (rule load_scale_Inr) (use svh Svh x(1) in auto)
next
  case Mcg
  then obtain xs where "x = LMarker xs" "load_marker ly Mcg p e xs = Inr ly'"
    using assms by (auto simp: dispatch_load_def split: loaded.splits)
  then show ?thesis using mcg Mcg load_marker_Inr by fastforce
next
  case Mul1
  then obtain xs where "x = LMarker xs" "load_marker ly Mul1 p e xs = Inr ly'"
    using assms by (auto simp: dispatch_load_def split: loaded.splits)
  then show ?thesis using mul1 Mul1 load_marker_Inr by fastforce
qed

lemma dispatch_scales:
  assumes "dispatch_load cx ly s p e rn x = Inr ly'"
  shows "((s, q, f) \<noteq> (Suh, p, e) \<longrightarrow> ml_suh ly' q f = ml_suh ly q f) \<and>
    ((s, q, f) \<noteq> (Svh, p, e) \<longrightarrow> ml_svh ly' q f = ml_svh ly q f) \<and>
    ((s, q, f) \<noteq> (Mcg, p, e) \<longrightarrow> ml_mcg ly' q f = ml_mcg ly q f) \<and>
    ((s, q, f) \<noteq> (Mul1, p, e) \<longrightarrow> ml_mul1 ly' q f = ml_mul1 ly q f)"
  using assms by (cases rule: dispatch_Inr) (auto simp: set2_def)

lemma dispatch_trellis:
  assumes "dispatch_load cx ly s p e rn x = Inr ly'"
  shows "if s = Trellis_s
    then \<exists>sh d. store_trellis (trellis_arena_enabled (cx_env cx)) (cx_aliases cx) (ml_trellis ly) p e (sh, d) =
      Inr (ml_trellis ly')
    else ml_trellis ly' = ml_trellis ly"
  using assms by (cases rule: dispatch_Inr) auto

lemma dispatch_written:
  assumes "dispatch_load cx ly s p e rn x = Inr ly'"
  shows "(s = Suh \<longrightarrow> (\<exists>xs ys. x = LVector xs \<and> shard_exl3 (cx_env cx) (Vector xs) Suh p (fst rn) (snd rn) =
      Inr (Vector ys) \<and> ml_suh ly' p e = Some ys)) \<and>
    (s = Svh \<longrightarrow> (\<exists>xs ys. x = LVector xs \<and> shard_exl3 (cx_env cx) (Vector xs) Svh p (fst rn) (snd rn) =
      Inr (Vector ys) \<and> ml_svh ly' p e = Some ys)) \<and>
    (s = Mcg \<longrightarrow> (\<exists>xs. x = LMarker xs \<and> ml_mcg ly' p e = (case xs of [] \<Rightarrow> 0 | v # _ \<Rightarrow> v))) \<and>
    (s = Mul1 \<longrightarrow> (\<exists>xs. x = LMarker xs \<and> ml_mul1 ly' p e = (case xs of [] \<Rightarrow> 0 | v # _ \<Rightarrow> v)))"
  using assms by (cases rule: dispatch_Inr) (auto simp: set2_def)

lemma load_step_Inr:
  assumes "load_step cx has_param mapping st w = Inr st'"
  obtains (skip) "st' = st"
  | (load) local_name full_name g shard ly' ok where
      "route_weight has_param (cx_layer_name cx) mapping (fst w) = Inr (Deliver local_name full_name g shard)"
      "load_exl3 cx (fst st) full_name shard g (snd w) = Inr (ly', ok)"
      "st' = (ly', if ok then snd st @ [local_name] else snd st)"
proof (cases "route_weight has_param (cx_layer_name cx) mapping (fst w)")
  case (Inr rt)
  then show ?thesis
    using assms that by (cases rt) (auto simp: load_step_def map_ok_def bind_res_Inr)
qed (use assms in \<open>simp add: load_step_def\<close>)

text \<open>Staged gate trellises stay as few as they were when only other projections are stored.\<close>

lemma store_staging:
  assumes "store_trellis arena aliases tr p e t = Inr tr'" and "q \<noteq> p"
  shows "tl_staging tr' q = tl_staging tr q \<or> tl_staging tr' q = []"
proof -
  have fill: "tl_staging b = tl_staging a" if "direct_fill_trellis_slot aliases a p e t = Inr b" for a b
    using that by (auto simp: direct_fill_trellis_slot_def split: option.splits if_splits)
  have grp: "tl_staging b = tl_staging a"
    if "fold_res (install_group p') a gs = Inr b" for a b p' gs
    by (rule fold_res_invariant [OF that, where P = "\<lambda>x. tl_staging x = tl_staging a"])
      (auto simp: install_group_def split: prod.splits if_splits)
  have prep: "tl_staging b = (\<lambda>_. [])" if "prepare_trellis_arena_plan aliases a shp = Inr b" for a b shp
    using that unfolding prepare_trellis_arena_plan_def
    by (rule fold_res_invariant [where P = "\<lambda>x. tl_staging x = (\<lambda>_. [])"]) (simp_all add: grp)
  show ?thesis
    using assms
    by (auto simp: store_trellis_def map_ok_def bind_res_Inr stage_trellis_def split: if_splits option.splits
        dest!: fill prep)
qed


text \<open>A layer without gate projections never gets one.  When the activation is non-gated, the shard that
  the mapping calls w1 is the up projection, and no sequence of checkpoint weights writes a gate scale,
  sets a gate marker or stages a gate trellis.\<close>

theorem gateless_gate_untouched:
  fixes cx :: "'a moe_ctx"
  assumes gateless: "moe_layer_is_gateless (cx_activation cx)"
    and load: "load_weights cx has_param mapping ly ws = Inr (ly', names)"
    and none: "tl_staging (ml_trellis ly) Gate = []"
  shows "ml_suh ly' Gate = ml_suh ly Gate \<and> ml_svh ly' Gate = ml_svh ly Gate \<and>
    ml_mcg ly' Gate = ml_mcg ly Gate \<and> ml_mul1 ly' Gate = ml_mul1 ly Gate \<and>
    tl_staging (ml_trellis ly') Gate = []"
proof -
  define I where "I l \<longleftrightarrow> ml_suh l Gate = ml_suh ly Gate \<and> ml_svh l Gate = ml_svh ly Gate \<and>
    ml_mcg l Gate = ml_mcg ly Gate \<and> ml_mul1 l Gate = ml_mul1 ly Gate \<and> tl_staging (ml_trellis l) Gate = []"
    for l :: "'a moe_layer"
  have one: "I l'" if "I l" and ld: "load_exl3 cx l name shard ge x = Inr (l', ok)" for l l' name shard ge x ok
    using ld
  proof (cases rule: load_exl3_cases)
    case foreign
    then show ?thesis using that(1) by simp
  next
    case (here e g s p)
    have p: "p \<noteq> Gate" using here(4) gateless by (auto simp: target_proj_def proj_from_shard_id_def split: if_splits)
    have "ml_suh l' Gate f = ml_suh l Gate f \<and> ml_svh l' Gate f = ml_svh l Gate f \<and>
        ml_mcg l' Gate f = ml_mcg l Gate f \<and> ml_mul1 l' Gate f = ml_mul1 l Gate f" for f
      using dispatch_scales [OF here(6), of Gate f] p by simp
    moreover have "tl_staging (ml_trellis l') Gate = tl_staging (ml_trellis l) Gate \<or> tl_staging (ml_trellis l') Gate = []"
      using dispatch_trellis [OF here(6)] store_staging p by (metis (no_types, lifting))
    ultimately show ?thesis using that(1) unfolding I_def by (auto simp: fun_eq_iff)
  qed
  have "I (fst (ly', names))"
  proof (rule fold_res_invariant [OF load [unfolded load_weights_def], where P = "\<lambda>st. I (fst st)"])
    show "I (fst (ly, []))" using none by (simp add: I_def)
    fix st x t assume st: "I (fst st)" and step: "load_step cx has_param mapping st x = Inr t"
    from step show "I (fst t)" by (cases rule: load_step_Inr) (use st one in auto)
  qed
  then show ?thesis by (simp add: I_def)
qed



lemma gateless_gate_untouched_witness:
  "\<exists>ly' names. load_weights (demo_cx (Some ''relu2_no_mul'')) (\<lambda>_. True) demo_mapping demo_moe
      [(''7.w1.svh'', LVector [0..<48])] = Inr (ly', names) \<and> ml_svh ly' Gate = (\<lambda>_. None)"
proof -
  have g: "geometry_of (demo_cx (Some ''relu2_no_mul''))
      [Some (cx_owner (demo_cx (Some ''relu2_no_mul''))), Some (cx_param (demo_cx (Some ''relu2_no_mul'')))] = Inr (0, 2)"
    "suffix_from_mapped_name ''model.layers.0.mlp.experts.w13_svh'' = Inr Svh"
    "cx_local (demo_cx (Some ''relu2_no_mul'')) 7 = Some 0"
    "shard_rank (demo_cx (Some ''relu2_no_mul'')) 0 (0, 2) = (0, 2)" "proj_from_shard_id ''w3'' = Inr Up"
    "moe_layer_is_gateless (cx_activation (demo_cx (Some ''relu2_no_mul'')))"
    "route_weight (\<lambda>_. True) (cx_layer_name (demo_cx (Some ''relu2_no_mul''))) demo_mapping ''7.w1.svh'' =
      Inr (Deliver ''w13_svh'' ''model.layers.0.mlp.experts.w13_svh'' 7 ''w1'')"
    by code_simp+
  have sh: "shard_exl3 (cx_env (demo_cx (Some ''relu2_no_mul''))) (Vector [0..<48]) Svh Up 0 2 = Inr (Vector [0..<32])"
    by code_simp
  obtain ly' names where l: "load_weights (demo_cx (Some ''relu2_no_mul'')) (\<lambda>_. True) demo_mapping demo_moe
      [(''7.w1.svh'', LVector [0..<48])] = Inr (ly', names)"
    using g sh
    by (simp add: load_weights_def load_step_def load_exl3_def dispatch_load_def load_scale_def map_ok_def demo_moe_def
        scale_len_def empty_trellis_def)
  have "tl_staging (ml_trellis demo_moe) Gate = []" by (simp add: demo_moe_def empty_trellis_def)
  then show ?thesis using gateless_gate_untouched [OF g(6) l] l by (auto simp: demo_moe_def)
qed

end
