(* ===== verification/Weight_Routing.thy ===== *)
theory Weight_Routing
  imports Moe_Loader
begin

text \<open>
  The names of per-expert checkpoint tensors decode uniquely: with the mapping that vLLM hands to
  \<open>_exl3_routed_experts_loader\<close> every tensor of every expert is delivered to its own expert,
  projection and suffix.
\<close>

section \<open>Splitting names\<close>

lemma last_split_on: "c \<notin> set y \<Longrightarrow> last (split_on c (x @ c # y)) = y"
proof (induction x)
  case Nil
  have "split_on c y = [y]" if "c \<notin> set y" for y using that by (induction y) auto
  then show ?case using Nil by simp
next
  case (Cons a x)
  have "split_on c (x @ c # y) \<noteq> []" by (rule split_on_nonempty)
  moreover have "length (split_on c (x @ c # y)) \<noteq> 1"
  proof (induction x)
    case Nil
    then show ?case using split_on_nonempty [of c y] by simp
  next
    case (Cons b x)
    then show ?case using split_on_nonempty [of c "x @ c # y"]
      by (cases "split_on c (x @ c # y)") auto
  qed
  ultimately obtain w v vs where "split_on c (x @ c # y) = w # v # vs"
    by (metis One_nat_def length_0_conv length_Suc_conv neq_Nil_conv)
  then show ?case using Cons by auto
qed

lemma append_sep_eq:
  "a @ c # b = a' @ c # b' \<Longrightarrow> c \<notin> set a \<Longrightarrow> c \<notin> set a' \<Longrightarrow> a = a' \<and> b = b'"
proof (induction a arbitrary: a')
  case Nil
  then show ?case by (cases a') auto
next
  case (Cons x a)
  then show ?case by (cases a') auto
qed

lemma contains_append: "contains pat (a @ pat @ b)"
  unfolding contains_iff by blast

text \<open>Replacing the only occurrence.\<close>

lemma replace_none: "\<not> contains pat s \<Longrightarrow> pat \<noteq> [] \<Longrightarrow> replace_upto n pat new s = s"
proof (induction n arbitrary: s)
  case (Suc n)
  then show ?case by (cases s) auto
qed simp

lemma replace_once:
  assumes only: "\<And>a c. base @ pat @ rest = a @ pat @ c \<Longrightarrow> a = base" and pat: "pat \<noteq> []"
    and rest: "\<not> contains pat rest" and n: "length (base @ pat @ rest) \<le> n"
  shows "replace_upto n pat new (base @ pat @ rest) = base @ new @ rest"
  using only n
proof (induction base arbitrary: n)
  case Nil
  obtain p ps where p: "pat = p # ps" using pat by (cases pat) auto
  then obtain m where "n = Suc m" using Nil.prems(2) by (cases n) auto
  moreover have "starts_with pat (pat @ rest)" by (simp add: starts_with_iff)
  ultimately show ?case using replace_none [OF rest pat] p by simp
next
  case (Cons b base)
  obtain m where m: "n = Suc m" "length (base @ pat @ rest) \<le> m" using Cons.prems(2) by (cases n) auto
  have "\<not> starts_with pat ((b # base) @ pat @ rest)"
  proof
    assume "starts_with pat ((b # base) @ pat @ rest)"
    then obtain c where "(b # base) @ pat @ rest = [] @ pat @ c" unfolding starts_with_iff by auto
    from Cons.prems(1) [OF this] show False by simp
  qed
  moreover have "replace_upto m pat new (base @ pat @ rest) = base @ new @ rest"
  proof (rule Cons.IH [OF _ m(2)])
    fix a c assume "base @ pat @ rest = a @ pat @ c"
    then have "(b # base) @ pat @ rest = (b # a) @ pat @ c" by simp
    from Cons.prems(1) [OF this] show "a = base" by simp
  qed
  ultimately show ?case using m(1) by simp
qed

section \<open>Names of expert tensors\<close>

definition shard_ids :: "string list" where
  "shard_ids = [''w1'', ''w2'', ''w3'']"

definition param_prefix :: "string \<Rightarrow> string" where
  "param_prefix w = (if w = ''w2'' then ''w2_'' else ''w13_'')"

text \<open>vLLM's documented mapping: one entry per expert and shard.\<close>

definition vllm_entry :: "mapping_entry \<Rightarrow> bool" where
  "vllm_entry m \<longleftrightarrow> me_shard m \<in> set shard_ids \<and>
     me_weight m = ''experts.'' @ show_nat (me_expert m) @ ''.'' @ me_shard m @ ''.'' \<and>
     me_param m = ''experts.'' @ param_prefix (me_shard m)"

definition expert_tensor_name :: "nat \<Rightarrow> string \<Rightarrow> suffix \<Rightarrow> string" where
  "expert_tensor_name e w s = show_nat e @ ''.'' @ w @ ''.'' @ suffix_name s"

lemma digit_char_x: "d < 10 \<Longrightarrow> digit_char d \<noteq> CHR ''x''"
proof
  assume d: "d < 10" "digit_char d = CHR ''x''"
  have "of_char (CHR ''x'') = (120 :: nat)" by code_simp
  then have "(48 + d :: nat) = 120" using d by (metis of_digit_char)
  then show False using d(1) by linarith
qed

lemma show_nat_no_x: "CHR ''x'' \<notin> set (show_nat n)"
proof (induction n rule: less_induct)
  case (less n)
  show ?case
  proof (cases "n < 10")
    case True
    then show ?thesis using digit_char_x [OF True] by (metis empty_iff insert_iff list.set show_nat.simps)
  next
    case False
    then have "CHR ''x'' \<notin> set (show_nat (n div 10))" using less by simp
    moreover have "digit_char (n mod 10) \<noteq> CHR ''x''" using digit_char_x by simp
    moreover have "show_nat n = show_nat (n div 10) @ [digit_char (n mod 10)]"
      using False by (simp add: show_nat.simps [of n])
    ultimately show ?thesis by (metis UnE empty_iff insert_iff list.set set_append)
  qed
qed

lemma expert_tensor_name_no_x: "w \<in> set shard_ids \<Longrightarrow> CHR ''x'' \<notin> set (expert_tensor_name e w s)"
  using show_nat_no_x [of e]
  by (cases s) (auto simp: expert_tensor_name_def shard_ids_def suffix_name_def)

lemma shard_no_dot: "w \<in> set shard_ids \<Longrightarrow> CHR ''.'' \<notin> set w"
  by (auto simp: shard_ids_def)

lemma suffix_no_dot: "CHR ''.'' \<notin> set (suffix_name s)"
  by (cases s) (auto simp: suffix_name_def)

text \<open>The directory name occurs once in a qualified tensor name.\<close>

lemma experts_once:
  assumes base: "\<not> contains ''experts.'' (base @ ''experts'')" and x: "CHR ''x'' \<notin> set rest"
    and eq: "base @ ''experts.'' @ rest = a @ ''experts.'' @ c"
  shows "a = base"
proof -
  have "\<not> length a < length base"
  proof
    assume lt: "length a < length base"
    have "take (length a + 8) (base @ ''experts.'' @ rest) = a @ ''experts.''" unfolding eq by simp
    moreover have "take (length a + 8) (base @ ''experts.'' @ rest) = take (length a + 8) (base @ ''experts'')"
    proof -
      have "base @ ''experts.'' @ rest = (base @ ''experts'') @ CHR ''.'' # rest" by simp
      then show ?thesis using lt by (simp only: take_append) simp
    qed
    ultimately have "base @ ''experts'' = a @ ''experts.'' @ drop (length a + 8) (base @ ''experts'')"
      by (metis append.assoc append_take_drop_id)
    then show False using base contains_append [of "''experts.''" a] by metis
  qed
  then obtain a' where a: "a = base @ a'" and e': "''experts.'' @ rest = a' @ ''experts.'' @ c"
  proof -
    have "take (length base) (base @ ''experts.'' @ rest) = take (length base) (a @ ''experts.'' @ c)"
      using eq by (rule arg_cong)
    then have "base = take (length base) a" using \<open>\<not> length a < length base\<close> by simp
    then have a: "a = base @ drop (length base) a" using append_take_drop_id [of "length base" a] by simp
    from eq have "base @ ''experts.'' @ rest = base @ drop (length base) a @ ''experts.'' @ c"
      by (subst (asm) a) (simp only: append_assoc)
    then have "''experts.'' @ rest = drop (length base) a @ ''experts.'' @ c" by (simp only: same_append_eq)
    with a show ?thesis by (rule that)
  qed
  have "a' = []"
  proof (rule ccontr)
    assume "a' \<noteq> []"
    then obtain y ys where a': "a' = y # ys" by (cases a') auto
    show False
    proof (cases ys)
      case Nil
      then show False using e' a' by simp
    next
      case (Cons z zs)
      have "drop 2 (''experts.'' @ rest) = drop 2 (a' @ ''experts.'' @ c)" using e' by (rule arg_cong)
      then have "''perts.'' @ rest = zs @ ''experts.'' @ c" by (simp add: a' Cons)
      then have "set (''perts.'' @ rest) = set (zs @ ''experts.'' @ c)" by (rule arg_cong)
      then have "CHR ''x'' \<in> set (''perts.'' @ rest)" by simp
      then show False using x by simp
    qed
  qed
  then show ?thesis using a by simp
qed


lemma entry_match:
  assumes m: "vllm_entry m" and w: "w \<in> set shard_ids"
    and base: "\<not> contains ''experts.'' (base @ ''experts'')"
    and c: "contains (me_weight m) (base @ ''experts.'' @ expert_tensor_name e w s)"
  shows "me_expert m = e \<and> me_shard m = w"
proof -
  have mw: "me_weight m = ''experts.'' @ show_nat (me_expert m) @ ''.'' @ me_shard m @ ''.''"
    and ms: "me_shard m \<in> set shard_ids" using m by (simp_all add: vllm_entry_def)
  obtain a d where eq: "base @ ''experts.'' @ expert_tensor_name e w s =
      a @ ''experts.'' @ (show_nat (me_expert m) @ ''.'' @ me_shard m @ ''.'' @ d)"
    using c unfolding contains_iff mw by (metis append.assoc)
  have "a = base" by (rule experts_once [OF base expert_tensor_name_no_x [OF w] eq])
  then have "show_nat e @ CHR ''.'' # w @ CHR ''.'' # suffix_name s =
      show_nat (me_expert m) @ CHR ''.'' # me_shard m @ CHR ''.'' # d"
    using eq by (simp add: expert_tensor_name_def)
  from append_sep_eq [OF this show_nat_no_dot show_nat_no_dot]
  have h: "show_nat e = show_nat (me_expert m)" "w @ CHR ''.'' # suffix_name s = me_shard m @ CHR ''.'' # d" by auto
  from append_sep_eq [OF h(2) shard_no_dot [OF w] shard_no_dot [OF ms]] h(1) show ?thesis
    using show_nat_inj by auto
qed

lemma suffix_decodes: "suffix_from_mapped_name (x @ ''.'' @ param_prefix w @ suffix_name s) = Inr s"
proof -
  have "CHR ''.'' \<notin> set (param_prefix w @ suffix_name s)" using suffix_no_dot by (auto simp: param_prefix_def)
  then have "last (split_on CHR ''.'' (x @ CHR ''.'' # param_prefix w @ suffix_name s)) = param_prefix w @ suffix_name s"
    by (rule last_split_on)
  then show ?thesis
    by (cases s; cases "w = ''w2''")
      (simp_all add: suffix_from_mapped_name_def Let_def EXL3_SUFFIXES_def suffix_name_def param_prefix_def ends_with_def)
qed

text \<open>Checkpoint names decode uniquely.  With the mapping that vLLM documents, in whatever order its entries
  come, the tensor named \<open><expert>.<shard>.<suffix>\<close> of a layer whose path ends in its only expert directory
  is delivered to the parameter of its own shard and suffix with its own expert number and shard id: no
  other entry matches, for instance expert 1's never takes a tensor of expert 11, and the suffix that the
  loader reads back from the rewritten name is the tensor's.\<close>

theorem names_decode_uniquely:
  assumes entries: "list_all vllm_entry mapping" and there: "\<exists>m \<in> set mapping. me_expert m = e \<and> me_shard m = w"
    and w: "w \<in> set shard_ids" and base: "\<not> contains ''experts.'' (base @ ''experts'')"
    and param: "has_param (param_prefix w @ suffix_name s)"
  shows "\<exists>full. route_weight has_param (base @ ''experts'') mapping (expert_tensor_name e w s) =
      Inr (Deliver (param_prefix w @ suffix_name s) full e w) \<and> suffix_from_mapped_name full = Inr s"
proof -
  let ?q = "base @ ''experts.'' @ expert_tensor_name e w s"
  have q: "qualify (base @ ''experts'') (expert_tensor_name e w s) = ?q" by (simp add: qualify_def)
  obtain m0 where m0: "m0 \<in> set mapping" "me_expert m0 = e" "me_shard m0 = w" using there by blast
  have "me_weight m0 = ''experts.'' @ show_nat e @ ''.'' @ w @ ''.''"
    using entries m0 by (auto simp: list_all_iff vllm_entry_def)
  then have "?q = base @ me_weight m0 @ suffix_name s" by (simp add: expert_tensor_name_def)
  then have "contains (me_weight m0) ?q" unfolding contains_iff by blast
  then obtain m where fm: "find (\<lambda>m. contains (me_weight m) ?q) mapping = Some m"
    using m0(1) by (metis find_None_iff option.exhaust)
  then have m: "m \<in> set mapping" "contains (me_weight m) ?q" by (auto simp: find_Some_iff)
  have ve: "vllm_entry m" using entries m(1) by (simp add: list_all_iff)
  note em = entry_match [OF ve w base m(2)]
  let ?pat = "''experts.'' @ show_nat e @ ''.'' @ w @ ''.''"
  let ?new = "''experts.'' @ param_prefix w"
  have mw: "me_weight m = ?pat" "me_param m = ?new" using ve em by (simp_all add: vllm_entry_def)
  have q': "?q = base @ ?pat @ suffix_name s" by (simp add: expert_tensor_name_def)
  have "replace_all ?pat ?new ?q = base @ ?new @ suffix_name s"
    unfolding replace_all_def q'
  proof (rule replace_once)
    fix a c assume "base @ ?pat @ suffix_name s = a @ ?pat @ c"
    then have "base @ ''experts.'' @ expert_tensor_name e w s = a @ ''experts.'' @ show_nat e @ ''.'' @ w @ ''.'' @ c"
      by (simp add: expert_tensor_name_def)
    then show "a = base" by (rule experts_once [OF base expert_tensor_name_no_x [OF w]])
  next
    have "CHR ''x'' \<notin> set (suffix_name s)" by (cases s) (auto simp: suffix_name_def)
    then show "\<not> contains ?pat (suffix_name s)" by (auto simp: contains_iff)
  qed auto
  then have full: "replace_all (me_weight m) (me_param m) ?q = base @ ''experts.'' @ param_prefix w @ suffix_name s"
    unfolding mw by simp
  have "starts_with ((base @ ''experts'') @ ''.'') (base @ ''experts.'' @ param_prefix w @ suffix_name s)"
    unfolding starts_with_iff by (intro exI [of _ "param_prefix w @ suffix_name s"]) simp
  then have rp: "remove_prefix ((base @ ''experts'') @ ''.'') (base @ ''experts.'' @ param_prefix w @ suffix_name s) =
      param_prefix w @ suffix_name s"
    by (simp add: remove_prefix_def)
  have "route_weight has_param (base @ ''experts'') mapping (expert_tensor_name e w s) =
      Inr (Deliver (param_prefix w @ suffix_name s) (base @ ''experts.'' @ param_prefix w @ suffix_name s) e w)"
    using param em by (simp only: route_weight_def q Let_def fm option.case full rp if_True)
  moreover have "suffix_from_mapped_name ((base @ ''experts'') @ ''.'' @ param_prefix w @ suffix_name s) = Inr s"
    by (rule suffix_decodes)
  ultimately show ?thesis by simp
qed

lemma names_decode_uniquely_witness:
  "\<exists>full. route_weight (\<lambda>_. True) ''model.layers.0.mlp.experts'' demo_mapping (expert_tensor_name 7 ''w1'' Svh) =
      Inr (Deliver ''w13_svh'' full 7 ''w1'') \<and> suffix_from_mapped_name full = Inr Svh"
proof -
  have "list_all vllm_entry demo_mapping" "''w1'' \<in> set shard_ids"
      "\<not> contains ''experts.'' (''model.layers.0.mlp.'' @ ''experts'')"
      "param_prefix ''w1'' @ suffix_name Svh = ''w13_svh''" by code_simp+
  then show ?thesis
    using names_decode_uniquely [of demo_mapping 7 "''w1''" "''model.layers.0.mlp.''" "\<lambda>_. True" Svh]
    by (auto simp: demo_mapping_def)
qed

end
