(* ===== verification/Moe_Finish.thy ===== *)
theory Moe_Finish
  imports Moe_Loader
begin

text \<open>
  Stitching the loaded experts (\<open>process_weights_after_loading\<close> in \<open>src/vllm_exl3/exl3.py\<close>):
  pack staged trellises, check the codebook markers, refuse incomplete experts, build one linear
  handle per projection, and choose the fused kernel or the loop.  What the linear handle of the
  kernel library reports as its codebook flags, which kernels are installed, and whether building
  their pointer tables succeeds are inputs.
\<close>

section \<open>Codebook markers\<close>

definition MCG_MARKER_SIGNED_INT32 :: int where "MCG_MARKER_SIGNED_INT32 = - 877912083"
definition MUL1_MARKER_SIGNED_INT32 :: int where "MUL1_MARKER_SIGNED_INT32 = - 2082680531"

definition check_moe_codebook_markers :: "int list \<Rightarrow> int list \<Rightarrow> unit res" where
  "check_moe_codebook_markers mcg mul1 =
     (if list_ex (\<lambda>(a, b). a \<noteq> 0 \<and> b \<noteq> 0) (zip mcg mul1) then Inl RuntimeError
      else if list_ex (\<lambda>(a, b). a = 0 \<and> b = 0) (zip mcg mul1) then Inl RuntimeError
      else if list_ex (\<lambda>a. a \<noteq> 0 \<and> a \<noteq> MCG_MARKER_SIGNED_INT32) mcg then Inl RuntimeError
      else if list_ex (\<lambda>b. b \<noteq> 0 \<and> b \<noteq> MUL1_MARKER_SIGNED_INT32) mul1 then Inl RuntimeError
      else Inr ())"

text \<open>The non-gated variant on the gate and the up lanes of w13.\<close>

definition check_gateless_markers :: "int list \<Rightarrow> int list \<Rightarrow> int list \<Rightarrow> int list \<Rightarrow> unit res" where
  "check_gateless_markers gate_mcg gate_mul1 up_mcg up_mul1 =
     (if list_ex (\<lambda>a. a \<noteq> 0) gate_mcg \<or> list_ex (\<lambda>b. b \<noteq> 0) gate_mul1 then Inl RuntimeError
      else if list_ex (\<lambda>(a, b). a \<noteq> 0 \<and> b \<noteq> 0) (zip up_mcg up_mul1) \<or>
        list_ex (\<lambda>(a, b). a = 0 \<and> b = 0) (zip up_mcg up_mul1) then Inl RuntimeError
      else if list_ex (\<lambda>a. a \<noteq> 0 \<and> a \<noteq> MCG_MARKER_SIGNED_INT32) up_mcg \<or>
        list_ex (\<lambda>b. b \<noteq> 0 \<and> b \<noteq> MUL1_MARKER_SIGNED_INT32) up_mul1 then Inl RuntimeError
      else Inr ())"

definition marker_or_none :: "int \<Rightarrow> int option" where
  "marker_or_none v = (if v \<noteq> 0 then Some v else None)"

section \<open>Handles\<close>

definition param_shape :: "'d tlayer \<Rightarrow> proj \<Rightarrow> nat \<Rightarrow> nat list" where
  "param_shape tr p e =
     (case tl_slots tr p e of
        EmptyP \<Rightarrow> [0] | OwnP t \<Rightarrow> fst t | AliasP t \<Rightarrow> fst t | ViewP sh i \<Rightarrow> sh)"

definition param_numel :: "'d tlayer \<Rightarrow> proj \<Rightarrow> nat \<Rightarrow> nat" where
  "param_numel tr p e = prod_list (param_shape tr p e)"

record 'a linear =
  ln_shape :: "nat list"
  ln_data :: "'a list list tensor option"
  ln_suh :: "'a list option"
  ln_svh :: "'a list option"
  ln_mcg :: "int option"
  ln_mul1 :: "int option"

definition make_linear :: "'a moe_layer \<Rightarrow> proj \<Rightarrow> nat \<Rightarrow> 'a linear" where
  "make_linear ly p e =
     \<lparr>ln_shape = param_shape (ml_trellis ly) p e, ln_data = param_tensor (ml_trellis ly) p e,
      ln_suh = ml_suh ly p e, ln_svh = ml_svh ly p e,
      ln_mcg = marker_or_none (ml_mcg ly p e), ln_mul1 = marker_or_none (ml_mul1 ly p e)\<rparr>"

record 'a inner_pack =
  ip_gate :: "'a linear option"
  ip_up :: "'a linear"
  ip_down :: "'a linear"

definition bits_of :: "'a linear \<Rightarrow> nat" where
  "bits_of l = last (ln_shape l) div 16"

definition build_pack :: "'a moe_layer \<Rightarrow> bool \<Rightarrow> nat \<Rightarrow> 'a inner_pack res" where
  "build_pack ly gateless e =
     (let empty = (\<lambda>p. param_numel (ml_trellis ly) p e = 0) in
      if empty Up \<or> empty Down \<or> (\<not> gateless \<and> empty Gate) then Inl RuntimeError
      else Inr \<lparr>ip_gate = (if gateless then None else Some (make_linear ly Gate e)),
                ip_up = make_linear ly Up e, ip_down = make_linear ly Down e\<rparr>)"

definition pack_bits :: "'a inner_pack \<Rightarrow> nat list" where
  "pack_bits k = (case ip_gate k of None \<Rightarrow> [] | Some g \<Rightarrow> [bits_of g]) @ [bits_of (ip_up k), bits_of (ip_down k)]"

definition k_tuple :: "'a inner_pack \<Rightarrow> nat \<times> nat \<times> nat" where
  "k_tuple k = (bits_of (case ip_gate k of None \<Rightarrow> ip_up k | Some g \<Rightarrow> g), bits_of (ip_up k), bits_of (ip_down k))"

definition flag_pack :: "('a linear \<Rightarrow> bool \<times> bool) \<Rightarrow> 'a inner_pack \<Rightarrow> (bool \<times> bool) list" where
  "flag_pack flags k =
     [flags (case ip_gate k of None \<Rightarrow> ip_up k | Some g \<Rightarrow> g), flags (ip_up k), flags (ip_down k)]"

section \<open>Choosing the kernel\<close>

record kernels =
  kn_native :: bool
  kn_exllamav3 :: bool
  kn_mixedk :: bool
  kn_builds :: bool

definition fused_moe_enabled :: "environ \<Rightarrow> bool" where
  "fused_moe_enabled env \<longleftrightarrow> env ''EXL3_FUSED_MOE'' \<noteq> Some ''0''"

definition get_moe_kernel_backend :: "environ \<Rightarrow> kernels \<Rightarrow> string" where
  "get_moe_kernel_backend env kn =
     (let requested = lower (strip (case env ''VLLM_EXL3_MOE_KERNEL'' of None \<Rightarrow> ''auto'' | Some s \<Rightarrow> s));
          requested = (if requested \<in> {''native'', ''exllamav3'', ''auto''} then requested else ''auto'') in
      if requested \<noteq> ''auto'' then requested
      else if kn_native kn then ''native''
      else if kn_exllamav3 kn then ''exllamav3''
      else ''loop'')"

definition fused_choice :: "environ \<Rightarrow> kernels \<Rightarrow> bool \<Rightarrow> bool" where
  "fused_choice env kn mixed_k =
     (let explicit_native = (case env ''VLLM_EXL3_MOE_KERNEL'' of None \<Rightarrow> False
                             | Some s \<Rightarrow> lower (strip s) = ''native'') in
      if mixed_k then kn_mixedk kn \<and> fused_moe_enabled env \<and> kn_builds kn
      else if fused_moe_enabled env \<or> explicit_native then
        ((get_moe_kernel_backend env kn = ''native'' \<and> kn_native kn) \<or> kn_exllamav3 kn) \<and> kn_builds kn
      else False)"

section \<open>Finishing\<close>

record 'a finished =
  fi_layer :: "'a moe_layer"
  fi_act :: int
  fi_gate :: "rat option \<times> rat option"
  fi_inners :: "'a inner_pack list"
  fi_mixed_k :: bool
  fi_k_tuple :: "(nat \<times> nat \<times> nat) option"
  fi_coop :: bool
  fi_flags :: "(bool \<times> bool) list option"
  fi_fused :: bool

definition staged_count :: "'d tlayer \<Rightarrow> nat" where
  "staged_count tr = length (tl_staging tr Gate) + length (tl_staging tr Up) + length (tl_staging tr Down)"

definition pack_if_needed :: "environ \<Rightarrow> 'a moe_layer \<Rightarrow> 'a moe_layer res" where
  "pack_if_needed env ly =
     (if trellis_arena_enabled env \<and> (0 < staged_count (ml_trellis ly) \<or> tl_plan (ml_trellis ly) \<noteq> None)
      then map_ok (\<lambda>tr. ly\<lparr>ml_trellis := tr\<rparr>) (pack_trellis_arenas (ml_trellis ly))
      else Inr ly)"

definition check_markers :: "bool \<Rightarrow> 'a moe_layer \<Rightarrow> unit res" where
  "check_markers gateless ly =
     (let n = tl_experts (ml_trellis ly);
          lane = (\<lambda>m p. map (m p) [0..<n]);
          both = (\<lambda>m. concat (map (\<lambda>e. [m Gate e, m Up e]) [0..<n])) in
      bind_res (check_moe_codebook_markers (lane (ml_mcg ly) Down) (lane (ml_mul1 ly) Down)) (\<lambda>_.
        if gateless then check_gateless_markers (lane (ml_mcg ly) Gate) (lane (ml_mul1 ly) Gate)
          (lane (ml_mcg ly) Up) (lane (ml_mul1 ly) Up)
        else check_moe_codebook_markers (both (ml_mcg ly)) (both (ml_mul1 ly))))"

definition agreed_flags :: "('a linear \<Rightarrow> bool \<times> bool) \<Rightarrow> 'a inner_pack list \<Rightarrow> (bool \<times> bool) list option res" where
  "agreed_flags flags inners =
     (case inners of
        [] \<Rightarrow> Inr None
      | k # _ \<Rightarrow> if list_ex (\<lambda>k'. flag_pack flags k' \<noteq> flag_pack flags k) inners then Inl RuntimeError
                 else Inr (Some (flag_pack flags k)))"

definition process_weights_after_loading ::
  "environ \<Rightarrow> (string \<Rightarrow> pyfloat option) \<Rightarrow> gate_attrs \<Rightarrow> kernels \<Rightarrow> ('a linear \<Rightarrow> bool \<times> bool)
    \<Rightarrow> 'a moe_layer \<Rightarrow> 'a finished res"
where
  "process_weights_after_loading env py_float ga kn flags ly0 =
     bind_res (pack_if_needed env ly0) (\<lambda>ly.
     let gateless = moe_layer_is_gateless (ga_activation ga) in
     bind_res (check_markers gateless ly) (\<lambda>_.
     bind_res (resolve_moe_act (ga_activation ga)) (\<lambda>act.
     bind_res (resolve_moe_gate_params py_float ga) (\<lambda>gate.
     bind_res (map_res (build_pack ly gateless) [0..<tl_experts (ml_trellis ly)]) (\<lambda>inners.
     bind_res (agreed_flags flags inners) (\<lambda>fl.
       let mixed_k = 1 < length (remdups (concat (map pack_bits inners)));
           tuples = remdups (map k_tuple inners);
           kt = (case tuples of [t] \<Rightarrow> Some t | _ \<Rightarrow> None) in
       Inr \<lparr>fi_layer = ly, fi_act = act, fi_gate = gate, fi_inners = inners, fi_mixed_k = mixed_k,
            fi_k_tuple = kt,
            fi_coop = (case kt of None \<Rightarrow> False | Some (a, b, c) \<Rightarrow> \<not> gateless \<and> a = b),
            fi_flags = fl, fi_fused = fused_choice env kn mixed_k\<rparr>))))))"

section \<open>Packing leaves unstaged experts alone\<close>

lemma install_group_slots:
  "install_group q tr g = Inr tr' \<Longrightarrow> q \<noteq> p \<or> e \<notin> fst ` set (snd g) \<Longrightarrow> tl_slots tr' p e = tl_slots tr p e"
  by (cases g) (auto simp: install_group_def install_views_other split: if_splits)

lemma install_group_frame:
  "install_group q tr g = Inr tr' \<Longrightarrow> tl_staging tr' = tl_staging tr \<and> tl_experts tr' = tl_experts tr"
  by (cases g) (auto simp: install_group_def split: if_splits)

lemma pack_untouched:
  fixes tr :: "'d tlayer"
  assumes pk: "pack_trellis_arenas tr = Inr tr'" and none: "\<And>t. (e, t) \<in> set (tl_staging tr p) \<Longrightarrow> numel t = 0"
  shows "tl_slots tr' p e = tl_slots tr p e \<and> tl_experts tr' = tl_experts tr"
proof (cases "tl_plan tr")
  case (Some idx)
  then show ?thesis using pk by (simp add: pack_trellis_arenas_def)
next
  case None
  define I where "I x \<longleftrightarrow> tl_slots x p e = tl_slots tr p e \<and> tl_staging x = tl_staging tr \<and> tl_experts x = tl_experts tr"
    for x :: "'d tlayer"
  obtain tr1 where run: "fold_res (\<lambda>ly q. fold_res (install_group q) ly (by_shape (pack_items (tl_staging ly q)))) tr
      [Gate, Up, Down] = Inr tr1" and tr': "tr' = tr1\<lparr>tl_staging := (\<lambda>_. [])\<rparr>"
    using pk None by (auto simp: pack_trellis_arenas_def map_ok_def bind_res_Inr)
  have "I tr1"
  proof (rule fold_res_invariant [where P = I, OF run])
    show "I tr" by (simp add: I_def)
    fix x q y assume x: "I x" and gs: "fold_res (install_group q) x (by_shape (pack_items (tl_staging x q))) = Inr y"
    show "I y"
    proof (rule fold_res_invariant [where P = I, OF gs x])
      fix u g v assume g: "g \<in> set (by_shape (pack_items (tl_staging x q)))" and u: "I u" "install_group q u g = Inr v"
      have "q \<noteq> p \<or> e \<notin> fst ` set (snd g)"
      proof (rule ccontr)
        assume "\<not> (q \<noteq> p \<or> e \<notin> fst ` set (snd g))"
        then obtain t where "q = p" "(e, t) \<in> set (snd g)" by force
        then have "(fst g, (e, t)) \<in> set (pack_items (tl_staging tr p))"
          using by_shape_props [of "pack_items (tl_staging x q)"] g x unfolding I_def by metis
        then obtain t' where "(e, t') \<in> set (tl_staging tr p)" "numel t' \<noteq> 0" by (auto simp: pack_items_def)
        then show False using none [of t'] by simp
      qed
      then show "I v" using install_group_slots [OF u(2)] install_group_frame [OF u(2)] u(1) by (simp add: I_def)
    qed
  qed
  then show ?thesis by (simp add: tr' I_def)
qed

section \<open>What a finished layer guarantees\<close>

definition handle :: "'a inner_pack \<Rightarrow> proj \<Rightarrow> 'a linear option" where
  "handle k p = (case p of Gate \<Rightarrow> ip_gate k | Up \<Rightarrow> Some (ip_up k) | Down \<Rightarrow> Some (ip_down k))"

definition known_marker :: "int \<Rightarrow> int \<Rightarrow> bool" where
  "known_marker a b \<longleftrightarrow> (a = MCG_MARKER_SIGNED_INT32 \<and> b = 0) \<or> (a = 0 \<and> b = MUL1_MARKER_SIGNED_INT32)"

lemma markers_known:
  assumes "list_ex (\<lambda>(a, b). a \<noteq> 0 \<and> b \<noteq> 0) (zip xs ys) = False" "list_ex (\<lambda>(a, b). a = 0 \<and> b = 0) (zip xs ys) = False"
    "list_ex (\<lambda>a. a \<noteq> 0 \<and> a \<noteq> MCG_MARKER_SIGNED_INT32) xs = False"
    "list_ex (\<lambda>b. b \<noteq> 0 \<and> b \<noteq> MUL1_MARKER_SIGNED_INT32) ys = False"
    and ab: "(a, b) \<in> set (zip xs ys)"
  shows "known_marker a b"
proof -
  have "a \<in> set xs" "b \<in> set ys" using ab by (auto dest: set_zip_leftD set_zip_rightD)
  then show ?thesis using assms by (fastforce simp: list_ex_iff known_marker_def)
qed

lemma check_known: "check_moe_codebook_markers xs ys = Inr u \<Longrightarrow> (a, b) \<in> set (zip xs ys) \<Longrightarrow> known_marker a b"
  by (rule markers_known [of xs ys]) (auto simp: check_moe_codebook_markers_def split: if_splits)

lemma lane_mem: "e < n \<Longrightarrow> (f e, g e) \<in> set (zip (map f [0..<n]) (map g [0..<n]))"
  by (auto simp: set_zip intro!: exI [of _ e])

lemma both_mem:
  assumes "e < n" and "p = Gate \<or> p = Up"
  shows "(f p e, g p e) \<in> set (zip (concat (map (\<lambda>e. [f Gate e, f Up e]) [0..<n])) (concat (map (\<lambda>e. [g Gate e, g Up e]) [0..<n])))"
  using assms(1)
proof (induction n)
  case (Suc n)
  have l: "length (concat (map (\<lambda>e. [h Gate e, h Up e]) [0..<n])) = 2 * n" for h :: "proj \<Rightarrow> nat \<Rightarrow> 'c"
    by (induction n) auto
  show ?case using Suc assms(2) l [of f] l [of g] by (auto simp: less_Suc_eq)
qed simp

lemma check_markers_known:
  assumes "check_markers gateless ly = Inr u" and e: "e < tl_experts (ml_trellis ly)" and p: "p \<noteq> Gate \<or> \<not> gateless"
  shows "known_marker (ml_mcg ly p e) (ml_mul1 ly p e)"
proof -
  let ?n = "tl_experts (ml_trellis ly)"
  obtain v where down: "check_moe_codebook_markers (map (ml_mcg ly Down) [0..<?n]) (map (ml_mul1 ly Down) [0..<?n]) = Inr v"
    using assms(1) by (auto simp: check_markers_def Let_def bind_res_Inr)
  show ?thesis
  proof (cases "p = Down")
    case True
    then show ?thesis using check_known [OF down lane_mem [OF e]] by simp
  next
    case False
    show ?thesis
    proof (cases gateless)
      case True
      then have p: "p = Up" using p False by (cases p) auto
      have "check_gateless_markers (map (ml_mcg ly Gate) [0..<?n]) (map (ml_mul1 ly Gate) [0..<?n])
          (map (ml_mcg ly Up) [0..<?n]) (map (ml_mul1 ly Up) [0..<?n]) = Inr u"
        using assms(1) True by (auto simp: check_markers_def Let_def bind_res_Inr)
      then show ?thesis unfolding p
        by (intro markers_known [OF _ _ _ _ lane_mem [OF e]])
          (auto simp: check_gateless_markers_def split: if_splits)
    next
      case ng: False
      then have "check_moe_codebook_markers (concat (map (\<lambda>e. [ml_mcg ly Gate e, ml_mcg ly Up e]) [0..<?n]))
          (concat (map (\<lambda>e. [ml_mul1 ly Gate e, ml_mul1 ly Up e]) [0..<?n])) = Inr u"
        using assms(1) by (auto simp: check_markers_def Let_def bind_res_Inr)
      moreover have "p = Gate \<or> p = Up" using False by (cases p) auto
      ultimately show ?thesis using check_known both_mem [OF e, of p "ml_mcg ly" "ml_mul1 ly"] by blast
    qed
  qed
qed

lemma process_Inr:
  assumes "process_weights_after_loading env py_float ga kn flags ly0 = Inr fin"
  obtains ly act gate inners fl where "pack_if_needed env ly0 = Inr ly"
    "check_markers (moe_layer_is_gateless (ga_activation ga)) ly = Inr ()"
    "map_res (build_pack ly (moe_layer_is_gateless (ga_activation ga))) [0..<tl_experts (ml_trellis ly)] = Inr inners"
    "agreed_flags flags inners = Inr fl" "fi_layer fin = ly" "fi_inners fin = inners" "fi_flags fin = fl"
    "fi_mixed_k fin = (1 < length (remdups (concat (map pack_bits inners))))"
    "fi_fused fin = fused_choice env kn (fi_mixed_k fin)"
  using assms by (auto simp: process_weights_after_loading_def bind_res_Inr Let_def)

lemma build_pack_Inr:
  "build_pack ly gateless e = Inr k \<Longrightarrow>
    (ip_gate k = (if gateless then None else Some (make_linear ly Gate e))) \<and>
    ip_up k = make_linear ly Up e \<and> ip_down k = make_linear ly Down e \<and>
    (\<forall>p. p \<noteq> Gate \<or> \<not> gateless \<longrightarrow> param_numel (ml_trellis ly) p e \<noteq> 0)"
  by (auto simp: build_pack_def Let_def split: if_splits) (metis proj.exhaust)+

lemma finished_packs:
  assumes "process_weights_after_loading env py_float ga kn flags ly0 = Inr fin"
    and "e < tl_experts (ml_trellis (fi_layer fin))"
  shows "e < length (fi_inners fin) \<and>
    build_pack (fi_layer fin) (moe_layer_is_gateless (ga_activation ga)) e = Inr (fi_inners fin ! e)"
  using assms(1)
proof (rule process_Inr)
  fix ly act gate inners fl
  assume "map_res (build_pack ly (moe_layer_is_gateless (ga_activation ga))) [0..<tl_experts (ml_trellis ly)] = Inr inners"
    and "fi_layer fin = ly" "fi_inners fin = inners"
  then show ?thesis using assms(2) by (auto simp: map_res_Inr_iff list_all2_conv_all_nth)
qed

text \<open>C22: a finished layer is complete.  When stitching succeeds, every local expert has a handle for every
  projection of the layer (no gate exactly when the activation is non-gated), whose trellis is not empty
  and is the parameter the layer holds, with exactly one codebook marker, of one of the two known values;
  and all experts report the same codebook flags.\<close>

theorem finished_layer_complete:
  assumes fin: "process_weights_after_loading env py_float ga kn flags ly0 = Inr fin"
    and e: "e < tl_experts (ml_trellis (fi_layer fin))"
  shows "e < length (fi_inners fin) \<and>
    (\<forall>p. (if p = Gate \<and> moe_layer_is_gateless (ga_activation ga) then handle (fi_inners fin ! e) p = None
      else \<exists>h. handle (fi_inners fin ! e) p = Some h \<and> h = make_linear (fi_layer fin) p e \<and>
        prod_list (ln_shape h) \<noteq> 0 \<and>
        ((ln_mcg h = Some MCG_MARKER_SIGNED_INT32 \<and> ln_mul1 h = None) \<or>
         (ln_mcg h = None \<and> ln_mul1 h = Some MUL1_MARKER_SIGNED_INT32)))) \<and>
    flag_pack flags (fi_inners fin ! e) = flag_pack flags (fi_inners fin ! 0)"
proof (intro conjI allI)
  note bp = finished_packs [OF fin e]
  show "e < length (fi_inners fin)" using bp by simp
  note k = build_pack_Inr [OF conjunct2 [OF bp]]
  have mk: "check_markers (moe_layer_is_gateless (ga_activation ga)) (fi_layer fin) = Inr ()"
    using fin by (rule process_Inr) simp
  fix p
  show "if p = Gate \<and> moe_layer_is_gateless (ga_activation ga) then handle (fi_inners fin ! e) p = None
      else \<exists>h. handle (fi_inners fin ! e) p = Some h \<and> h = make_linear (fi_layer fin) p e \<and>
        prod_list (ln_shape h) \<noteq> 0 \<and>
        ((ln_mcg h = Some MCG_MARKER_SIGNED_INT32 \<and> ln_mul1 h = None) \<or>
         (ln_mcg h = None \<and> ln_mul1 h = Some MUL1_MARKER_SIGNED_INT32))"
  proof (cases "p = Gate \<and> moe_layer_is_gateless (ga_activation ga)")
    case True
    then show ?thesis using k by (simp add: handle_def)
  next
    case False
    then have "known_marker (ml_mcg (fi_layer fin) p e) (ml_mul1 (fi_layer fin) p e)"
      by (intro check_markers_known [OF mk e]) auto
    then have "(ln_mcg h = Some MCG_MARKER_SIGNED_INT32 \<and> ln_mul1 h = None) \<or>
        (ln_mcg h = None \<and> ln_mul1 h = Some MUL1_MARKER_SIGNED_INT32)" if "h = make_linear (fi_layer fin) p e" for h
      using that by (auto simp: make_linear_def marker_or_none_def known_marker_def
          MCG_MARKER_SIGNED_INT32_def MUL1_MARKER_SIGNED_INT32_def)
    moreover have "prod_list (ln_shape (make_linear (fi_layer fin) p e)) \<noteq> 0"
      using k False by (simp add: make_linear_def param_numel_def [symmetric])
    moreover have "handle (fi_inners fin ! e) p = Some (make_linear (fi_layer fin) p e)"
      using k False by (cases p) (auto simp: handle_def)
    ultimately show ?thesis using False by auto
  qed
next
  have "agreed_flags flags (fi_inners fin) = Inr (fi_flags fin)" using fin by (rule process_Inr) simp
  moreover have "fi_inners fin ! e \<in> set (fi_inners fin)" using finished_packs [OF fin e] by simp
  ultimately show "flag_pack flags (fi_inners fin ! e) = flag_pack flags (fi_inners fin ! 0)"
    by (auto simp: agreed_flags_def list_ex_iff split: list.splits if_splits)
qed

text \<open>A kernel is only engaged where it applies.  The fused path is chosen only when its pointer tables
  were built and fused kernels (or the native one) were asked for; on a layer of mixed bit widths it is
  the mixed-width kernel and that one is installed; otherwise one of the single-width kernels is
  installed, and all trellises of the layer indeed have one bit width.\<close>

theorem fused_kernel_applies:
  assumes fin: "process_weights_after_loading env py_float ga kn flags ly0 = Inr fin" and fused: "fi_fused fin"
  shows "kn_builds kn \<and>
    (if fi_mixed_k fin then kn_mixedk kn \<and> fused_moe_enabled env
     else (kn_native kn \<or> kn_exllamav3 kn) \<and>
       (\<exists>K. \<forall>k \<in> set (fi_inners fin). set (pack_bits k) \<subseteq> {K}))"
proof -
  have fc: "fused_choice env kn (fi_mixed_k fin)"
    and mk: "fi_mixed_k fin = (1 < length (remdups (concat (map pack_bits (fi_inners fin)))))"
    using fin fused by (auto elim: process_Inr)
  have "\<exists>K. \<forall>k \<in> set (fi_inners fin). set (pack_bits k) \<subseteq> {K}" if "\<not> fi_mixed_k fin"
  proof -
    let ?all = "concat (map pack_bits (fi_inners fin))"
    have "card (set ?all) \<le> 1" using mk that by (simp add: length_remdups_card_conv)
    then have "\<exists>K. set ?all \<subseteq> {K}" by (metis List.finite_set card_le_Suc0_iff_eq One_nat_def insertCI subsetI)
    then show ?thesis by fastforce
  qed
  then show ?thesis using fc by (auto simp: fused_choice_def Let_def split: if_splits)
qed

text \<open>An incomplete expert is refused when its tensors are staged.  Without an arena plan, if some expert of
  the layer never got its up, down or (in a gated layer) gate trellis, stitching does not succeed.\<close>

theorem incomplete_expert_refused:
  assumes "tl_slots (ml_trellis ly) p e = EmptyP" and "e < tl_experts (ml_trellis ly)"
    and "p \<noteq> Gate \<or> \<not> moe_layer_is_gateless (ga_activation ga)"
    and "od_get (tl_staging (ml_trellis ly) p) e = None"
  shows "\<not> is_ok (process_weights_after_loading env py_float ga kn flags ly)"
proof
  assume "is_ok (process_weights_after_loading env py_float ga kn flags ly)"
  then obtain fin where fin: "process_weights_after_loading env py_float ga kn flags ly = Inr fin"
    by (auto simp: is_ok_iff)
  have none: "(e, t) \<notin> set (tl_staging (ml_trellis ly) p)" for t
    using assms(4) od_get_iff [of "tl_staging (ml_trellis ly) p" e] by (force simp: od_keys_def)
  have pk: "pack_if_needed env ly = Inr (fi_layer fin)" using fin by (rule process_Inr) simp
  have "tl_slots (ml_trellis (fi_layer fin)) p e = EmptyP \<and> tl_experts (ml_trellis (fi_layer fin)) = tl_experts (ml_trellis ly)"
  proof (cases "pack_if_needed env ly = Inr ly")
    case True
    then show ?thesis using pk assms(1) by simp
  next
    case False
    then obtain tr where "pack_trellis_arenas (ml_trellis ly) = Inr tr" "fi_layer fin = ly\<lparr>ml_trellis := tr\<rparr>"
      using pk by (auto simp: pack_if_needed_def map_ok_def bind_res_Inr split: if_splits)
    then show ?thesis using pack_untouched [of "ml_trellis ly" tr e p] none assms(1) by simp
  qed
  then have e: "e < tl_experts (ml_trellis (fi_layer fin))" and z: "param_numel (ml_trellis (fi_layer fin)) p e = 0"
    using assms(2) by (simp_all add: param_numel_def param_shape_def)
  show False
    using build_pack_Inr [OF conjunct2 [OF finished_packs [OF fin e]]] z assms(3) by blast
qed

section \<open>A gap that goes unnoticed\<close>

definition gap_plan :: "proj \<Rightarrow> shapes" where
  "gap_plan p = [(0, [1, 1, 32])]"

definition gap_layer :: "nat list list tlayer \<Rightarrow> nat moe_layer" where
  "gap_layer tr = \<lparr>ml_trellis = tr, ml_suh = (\<lambda>_ _. None), ml_svh = (\<lambda>_ _. None),
     ml_mcg = (\<lambda>_ _. MCG_MARKER_SIGNED_INT32), ml_mul1 = (\<lambda>_ _. 0), ml_hidden = 16, ml_inter = 16,
     ml_in_tiles = 1, ml_out_tiles = 1, ml_rotation = 0\<rparr>"

definition plain_attrs :: gate_attrs where
  "plain_attrs = \<lparr>ga_activation = None, ga_alpha = PNone, ga_beta = PNone, ga_limit = PNone\<rparr>"

definition no_kernels :: kernels where
  "no_kernels = \<lparr>kn_native = False, kn_exllamav3 = False, kn_mixedk = False, kn_builds = False\<rparr>"


section \<open>Witnesses\<close>

definition full_layer :: "nat moe_layer" where
  "full_layer = gap_layer ((empty_trellis 1)\<lparr>tl_slots := (\<lambda>_ _. OwnP ([1, 1, 32], [[1]]))\<rparr>)"

definition all_kernels :: kernels where
  "all_kernels = \<lparr>kn_native = True, kn_exllamav3 = True, kn_mixedk = True, kn_builds = True\<rparr>"

lemma full_layer_finishes:
  "\<exists>fin. process_weights_after_loading (\<lambda>_. None) (\<lambda>_. None) plain_attrs all_kernels (\<lambda>_. (True, False)) full_layer = Inr fin \<and>
     fi_fused fin \<and> fi_layer fin = full_layer"
proof -
  have f: "fused_choice (\<lambda>_. None) all_kernels b" for b
    by (cases b) (simp_all add: fused_choice_def all_kernels_def fused_moe_enabled_def Let_def)
  show ?thesis
    by (simp add: f full_layer_def empty_trellis_def process_weights_after_loading_def pack_if_needed_def
      trellis_arena_enabled_def gap_layer_def staged_count_def check_markers_def plain_attrs_def moe_layer_is_gateless_def
      check_moe_codebook_markers_def MCG_MARKER_SIGNED_INT32_def resolve_moe_gate_params_def resolve_moe_act_def
      build_pack_def param_numel_def param_shape_def make_linear_def param_tensor_def agreed_flags_def
      MOE_ACT_SILU_def MOE_ACT_SWIGLU_OAI_def Let_def)
qed

lemma finished_layer_complete_witness:
  "\<exists>fin h. process_weights_after_loading (\<lambda>_. None) (\<lambda>_. None) plain_attrs all_kernels (\<lambda>_. (True, False)) full_layer = Inr fin \<and>
     handle (fi_inners fin ! 0) Gate = Some h \<and> h = make_linear full_layer Gate 0 \<and> prod_list (ln_shape h) \<noteq> 0"
proof -
  obtain fin where fin: "process_weights_after_loading (\<lambda>_. None) (\<lambda>_. None) plain_attrs all_kernels (\<lambda>_. (True, False))
      full_layer = Inr fin" "fi_layer fin = full_layer" using full_layer_finishes by blast
  have "0 < tl_experts (ml_trellis (fi_layer fin))"
    by (simp add: fin(2) full_layer_def gap_layer_def empty_trellis_def)
  from finished_layer_complete [OF fin(1) this] have "\<exists>h. handle (fi_inners fin ! 0) Gate = Some h \<and>
      h = make_linear full_layer Gate 0 \<and> prod_list (ln_shape h) \<noteq> 0"
    unfolding fin(2) by (auto dest: spec [of _ Gate] simp: plain_attrs_def moe_layer_is_gateless_def)
  then show ?thesis using fin(1) by blast
qed

lemma fused_kernel_applies_witness:
  "\<exists>fin K. process_weights_after_loading (\<lambda>_. None) (\<lambda>_. None) plain_attrs all_kernels (\<lambda>_. (True, False)) full_layer = Inr fin \<and>
     fi_fused fin \<and> (fi_mixed_k fin \<or> (\<forall>k \<in> set (fi_inners fin). set (pack_bits k) \<subseteq> {K}))"
proof -
  obtain fin where fin: "process_weights_after_loading (\<lambda>_. None) (\<lambda>_. None) plain_attrs all_kernels (\<lambda>_. (True, False))
      full_layer = Inr fin" "fi_fused fin" using full_layer_finishes by blast
  then show ?thesis using fused_kernel_applies [OF fin] by (auto split: if_splits)
qed

lemma incomplete_expert_refused_witness:
  "\<not> is_ok (process_weights_after_loading (\<lambda>_. None) (\<lambda>_. None) plain_attrs no_kernels (\<lambda>_. (True, False))
     (gap_layer (empty_trellis 1)))"
  by (rule incomplete_expert_refused [of _ Up 0]) (simp_all add: gap_layer_def empty_trellis_def od_get_def)

end
