(* ===== verification/Host_Copy.thy ===== *)
theory Host_Copy
  imports Moe_Names
begin

text \<open>
  Copying a trellis from the checkpoint's mapping to the device (\<open>src/vllm_exl3/exl3.py\<close>): the
  address ranges that \<open>_madv_dontneed_cpu_tensor\<close> and \<open>_p1_prefault\<close> hand to the kernel, and the
  double-buffered asynchronous copy of \<open>_bounce_copy\<close> as a step relation of the program and the
  device's copy queue.
\<close>

section \<open>Finding the mapping of an address\<close>

definition hex_val :: "char \<Rightarrow> nat option" where
  "hex_val c = (let n = of_char c :: nat in
     if 48 \<le> n \<and> n \<le> 57 then Some (n - 48)
     else if 97 \<le> n \<and> n \<le> 102 then Some (n - 87)
     else if 65 \<le> n \<and> n \<le> 70 then Some (n - 55) else None)"

fun hex_digits :: "nat \<Rightarrow> string \<Rightarrow> nat option" where
  "hex_digits n [] = Some n"
| "hex_digits n (c # cs) = (case hex_val c of None \<Rightarrow> None | Some d \<Rightarrow> hex_digits (16 * n + d) cs)"

text \<open>\<open>int(text, 16)\<close> on the digits the kernel writes.\<close>

definition parse_hex :: "string \<Rightarrow> nat option" where
  "parse_hex s = (if s = [] then None else hex_digits 0 s)"

text \<open>A line of \<open>/proc/self/maps\<close> is its blank-separated parts; an exception ends the search.\<close>

fun find_containing_vma :: "string list list \<Rightarrow> nat \<Rightarrow> (nat \<times> nat \<times> string) option" where
  "find_containing_vma [] addr = None"
| "find_containing_vma ([] # lines) addr = find_containing_vma lines addr"
| "find_containing_vma ((rng # rest) # lines) addr =
     (if CHR ''-'' \<notin> set rng then find_containing_vma lines addr
      else case (parse_hex (takeWhile (\<lambda>c. c \<noteq> CHR ''-'') rng),
                 parse_hex (tl (dropWhile (\<lambda>c. c \<noteq> CHR ''-'') rng))) of
          (Some lo, Some hi) \<Rightarrow>
            if lo \<le> addr \<and> addr < hi then
              Some (lo, hi, if 5 \<le> length rest \<and> starts_with ''/'' (last rest) then last rest else [])
            else find_containing_vma lines addr
        | _ \<Rightarrow> None)"

section \<open>Advice on address ranges\<close>

record tensor_view =
  tv_cpu :: bool
  tv_contiguous :: bool
  tv_ptr :: nat
  tv_numel :: nat
  tv_element :: nat

definition tv_nbytes :: "tensor_view \<Rightarrow> nat" where
  "tv_nbytes v = tv_numel v * tv_element v"

text \<open>The pages to drop: the view within its mapping, aligned inward.\<close>

definition dontneed_range :: "nat \<Rightarrow> nat \<Rightarrow> nat \<Rightarrow> nat \<times> nat \<Rightarrow> (nat \<times> nat) option" where
  "dontneed_range page view_start nbytes vma =
     (let safe_start = max view_start (fst vma);
          safe_end = min (view_start + nbytes) (snd vma);
          start = safe_start + ((page - safe_start mod page) mod page);
          finish = safe_end - safe_end mod page in
      if finish \<le> start then None else Some (start, finish - start))"

definition madv_dontneed_cpu_tensor ::
  "environ \<Rightarrow> nat \<Rightarrow> string list list \<Rightarrow> tensor_view \<Rightarrow> (nat \<times> nat) option"
where
  "madv_dontneed_cpu_tensor env page maps v =
     (if env ''VLLM_EXL3_MADV_AFTER_H2D'' = Some ''0'' then None
      else if \<not> tv_cpu v \<or> tv_numel v = 0 then None
      else if \<not> tv_contiguous v then None
      else if tv_ptr v = 0 \<or> tv_nbytes v = 0 then None
      else case find_containing_vma maps (tv_ptr v) of
          None \<Rightarrow> None
        | Some (lo, hi, path) \<Rightarrow>
            if \<not> ends_with ''.safetensors'' path then None
            else dontneed_range page (tv_ptr v) (tv_nbytes v) (lo, hi))"

text \<open>
  \<open>_p1_prefault\<close>: \<open>accepted\<close> is whether the kernel took the advice; the result is the advised
  range, the readahead after it, or the clone that replaces the view.
\<close>

datatype prefetch_mode = Populate | Willneed | Clone_mode | Off_mode

datatype prefault =
    AsIs
  | Advised "nat \<times> nat" "(nat \<times> nat) option"
  | Cloned

definition p1_prefault :: "prefetch_mode \<Rightarrow> nat \<Rightarrow> bool \<Rightarrow> tensor_view \<Rightarrow> prefault" where
  "p1_prefault mode lookahead accepted v =
     (if mode = Off_mode \<or> \<not> tv_cpu v \<or> \<not> tv_contiguous v then AsIs
      else if tv_nbytes v = 0 then AsIs
      else let page = 4096;
               start = tv_ptr v - tv_ptr v mod page;
               finish = (tv_ptr v + tv_nbytes v) - (tv_ptr v + tv_nbytes v) mod page in
        if (mode = Populate \<or> mode = Willneed) \<and> start < finish \<and> accepted
        then Advised (start, finish - start) (if 0 < lookahead then Some (finish, lookahead) else None)
        else Cloned)"

lemma find_vma_contains:
  "find_containing_vma lines addr = Some (lo, hi, path) \<Longrightarrow> lo \<le> addr \<and> addr < hi"
  by (induction lines addr rule: find_containing_vma.induct) (auto split: if_splits option.splits)

lemma align_down: "0 < page \<Longrightarrow> (x - x mod page) mod page = 0" for x :: nat
  by (simp add: minus_mod_eq_mult_div)

lemma align_up: "0 < page \<Longrightarrow> (x + (page - x mod page) mod page) mod page = 0" for x :: nat
proof (cases "x mod page = 0")
  case False
  assume "0 < page"
  then have "x mod page < page" by simp
  then have "(page - x mod page) mod page = page - x mod page" using False by simp
  then have "x + (page - x mod page) mod page = (x - x mod page) + page"
    using \<open>x mod page < page\<close> by simp
  then show ?thesis using \<open>0 < page\<close> by (simp add: minus_mod_eq_mult_div)
qed simp

section \<open>The bounce buffers\<close>

text \<open>
  The program's instructions within a call, and the state: the buffer and the event of each slot
  (an event that was never recorded is complete; a recorded one completes when that many copies
  have retired), the slot to use next, the capacity, host buffers by id, the device's queue of
  pending copies (destination, buffer, bytes), the number of retired copies, and what the
  destinations hold.
\<close>

datatype ('d, 'b) instr =
    Wait nat
  | Alloc nat
  | Reset
  | Memcpy nat "'b list"
  | Send 'd nat nat
  | Record nat
  | Flip nat
  | Direct 'd "'b list"

record ('d, 'b) bounce =
  bo_buf :: "nat \<Rightarrow> nat option"
  bo_evt :: "nat \<Rightarrow> nat option option"
  bo_slot :: nat
  bo_cap :: nat
  bo_mem :: "nat \<Rightarrow> 'b list"
  bo_queue :: "('d \<times> nat \<times> nat) list"
  bo_retired :: nat
  bo_dst :: "'d \<Rightarrow> 'b list"
  bo_code :: "('d, 'b) instr list"
  bo_todo :: "('d \<times> 'b list) list"

definition send_code :: "nat \<Rightarrow> 'd \<Rightarrow> 'b list \<Rightarrow> ('d, 'b) instr list" where
  "send_code i d src = [Wait i, Memcpy i src, Send d i (length src), Record i, Flip i]"

text \<open>
  \<open>_bounce_copy\<close>: without buffers, or with too small ones, wait for both events and allocate;
  \<open>pinned\<close> is whether the pinned allocator works.
\<close>

definition bounce_code :: "bool \<Rightarrow> ('d, 'b) bounce \<Rightarrow> 'd \<Rightarrow> 'b list \<Rightarrow> ('d, 'b) instr list" where
  "bounce_code pinned st d src =
     (if bo_buf st 0 = None \<or> bo_cap st < length src then
        map Wait (filter (\<lambda>i. bo_evt st i \<noteq> None) [0, 1]) @
        (if pinned then Alloc (length src) # send_code 0 d src else [Reset, Direct d src])
      else send_code (bo_slot st) d src)"

text \<open>
  One step of the program or of the device.  Allocation may hand out released memory, so nothing
  is known of any host buffer afterwards.  A copy reads its buffer when it retires.
\<close>

inductive bounce_step :: "('d, 'b) bounce \<Rightarrow> ('d, 'b) bounce \<Rightarrow> bool" where
  call: "bo_code st = [] \<Longrightarrow> bo_todo st = (d, src) # todo \<Longrightarrow>
    bounce_step st (st\<lparr>bo_code := bounce_code pinned st d src, bo_todo := todo\<rparr>)"
| wait: "bo_code st = Wait i # code \<Longrightarrow> (\<And>p. bo_evt st i = Some (Some p) \<Longrightarrow> p \<le> bo_retired st) \<Longrightarrow>
    bounce_step st (st\<lparr>bo_code := code\<rparr>)"
| alloc: "bo_code st = Alloc n # code \<Longrightarrow> a \<noteq> b \<Longrightarrow> length (m a) = n \<Longrightarrow> length (m b) = n \<Longrightarrow>
    bounce_step st (st\<lparr>bo_code := code, bo_buf := (\<lambda>i. if i = 0 then Some a else if i = 1 then Some b else None),
      bo_evt := (\<lambda>i. if i < 2 then Some None else None), bo_cap := n, bo_slot := 0, bo_mem := m\<rparr>)"
| reset: "bo_code st = Reset # code \<Longrightarrow>
    bounce_step st (st\<lparr>bo_code := code, bo_buf := (\<lambda>_. None), bo_evt := (\<lambda>_. None), bo_cap := 0\<rparr>)"
| direct: "bo_code st = Direct d src # code \<Longrightarrow>
    bounce_step st (st\<lparr>bo_code := code, bo_dst := (bo_dst st)(d := src)\<rparr>)"
| memcpy: "bo_code st = Memcpy i src # code \<Longrightarrow> bo_buf st i = Some b \<Longrightarrow>
    bounce_step st (st\<lparr>bo_code := code, bo_mem := (bo_mem st)(b := src @ drop (length src) (bo_mem st b))\<rparr>)"
| send: "bo_code st = Send d i n # code \<Longrightarrow> bo_buf st i = Some b \<Longrightarrow>
    bounce_step st (st\<lparr>bo_code := code, bo_queue := bo_queue st @ [(d, b, n)]\<rparr>)"
| recorded: "bo_code st = Record i # code \<Longrightarrow>
    bounce_step st (st\<lparr>bo_code := code,
      bo_evt := (bo_evt st)(i := Some (Some (bo_retired st + length (bo_queue st))))\<rparr>)"
| flip: "bo_code st = Flip i # code \<Longrightarrow> bounce_step st (st\<lparr>bo_code := code, bo_slot := 1 - i\<rparr>)"
| retire: "bo_queue st = (d, b, n) # q \<Longrightarrow>
    bounce_step st (st\<lparr>bo_queue := q, bo_retired := Suc (bo_retired st),
      bo_dst := (bo_dst st)(d := take n (bo_mem st b))\<rparr>)"

inductive bounce_reach :: "('d, 'b) bounce \<Rightarrow> ('d, 'b) bounce \<Rightarrow> bool" for init where
  start: "bounce_reach init init"
| step: "bounce_reach init st \<Longrightarrow> bounce_step st st' \<Longrightarrow> bounce_reach init st'"

definition bounce_init :: "('d \<Rightarrow> 'b list) \<Rightarrow> ('d \<times> 'b list) list \<Rightarrow> ('d, 'b) bounce" where
  "bounce_init dst calls = \<lparr>bo_buf = (\<lambda>_. None), bo_evt = (\<lambda>_. None), bo_slot = 0, bo_cap = 0, bo_mem = (\<lambda>_. []),
     bo_queue = [], bo_retired = 0, bo_dst = dst, bo_code = [], bo_todo = calls\<rparr>"

section \<open>The invariant of the bounce buffers\<close>

definition queue_bufs :: "('d, 'b) bounce \<Rightarrow> nat set" where
  "queue_bufs st = (fst \<circ> snd) ` set (bo_queue st)"

definition free_slot :: "('d, 'b) bounce \<Rightarrow> nat \<Rightarrow> bool" where
  "free_slot st i \<longleftrightarrow> (\<forall>b. bo_buf st i = Some b \<longrightarrow> b \<notin> queue_bufs st)"

text \<open>Either there are no buffers and no events, or two different buffers with their events.\<close>

definition slots_ok :: "('d, 'b) bounce \<Rightarrow> bool" where
  "slots_ok st \<longleftrightarrow> bo_slot st < 2 \<and>
     (if bo_buf st 0 = None then bo_buf st (Suc 0) = None \<and> bo_evt st 0 = None \<and> bo_evt st (Suc 0) = None
      else bo_buf st (Suc 0) \<noteq> None \<and> bo_buf st 0 \<noteq> bo_buf st (Suc 0) \<and> bo_evt st 0 \<noteq> None \<and> bo_evt st (Suc 0) \<noteq> None)"

text \<open>Every pending copy reads a slot's buffer and is covered by that slot's event, or about to be.\<close>

definition queue_ok :: "('d, 'b) bounce \<Rightarrow> bool" where
  "queue_ok st \<longleftrightarrow> (\<forall>j < length (bo_queue st). \<exists>i < 2. bo_buf st i = Some (fst (snd (bo_queue st ! j))) \<and>
     ((\<exists>p. bo_evt st i = Some (Some p) \<and> bo_retired st + j < p) \<or>
      (\<exists>c. bo_code st = Record i # c) \<and> Suc j = length (bo_queue st)))"

definition grow_tail :: "('d, 'b) instr list \<Rightarrow> bool" where
  "grow_tail c \<longleftrightarrow> (\<exists>d src. c = Alloc (length src) # send_code 0 d src \<or> c = [Reset, Direct d src])"

fun code_ok :: "('d, 'b) bounce \<Rightarrow> ('d, 'b) instr list \<Rightarrow> bool" where
  "code_ok st [] \<longleftrightarrow> True"
| "code_ok st (Flip i # c) \<longleftrightarrow> i < 2 \<and> c = []"
| "code_ok st (Record i # c) \<longleftrightarrow> i < 2 \<and> bo_buf st i \<noteq> None \<and> c = [Flip i]"
| "code_ok st (Send d i n # c) \<longleftrightarrow> i < 2 \<and> bo_buf st i \<noteq> None \<and> c = [Record i, Flip i]"
| "code_ok st (Memcpy i src # c) \<longleftrightarrow> i < 2 \<and> bo_buf st i \<noteq> None \<and> free_slot st i \<and> length src \<le> bo_cap st \<and>
     (\<exists>d. c = [Send d i (length src), Record i, Flip i])"
| "code_ok st (Direct d src # c) \<longleftrightarrow> bo_queue st = [] \<and> c = []"
| "code_ok st (Reset # c) \<longleftrightarrow> bo_queue st = [] \<and> (\<exists>d src. c = [Direct d src])"
| "code_ok st (Alloc n # c) \<longleftrightarrow> bo_queue st = [] \<and> (\<exists>d src. n = length src \<and> c = send_code 0 d src)"
| "code_ok st (Wait i # c) \<longleftrightarrow>
     (i < 2 \<and> bo_buf st i \<noteq> None \<and> (\<exists>d src. c = tl (send_code i d src) \<and> length src \<le> bo_cap st)) \<or>
     (i = 0 \<and> (\<exists>c'. c = Wait (Suc 0) # c' \<and> grow_tail c')) \<or>
     (i = Suc 0 \<and> free_slot st 0 \<and> grow_tail c)"

definition bounce_inv :: "('d, 'b) bounce \<Rightarrow> bool" where
  "bounce_inv st \<longleftrightarrow> slots_ok st \<and> queue_ok st \<and> code_ok st (bo_code st)"

lemma less2: "(i < 2) \<longleftrightarrow> i = 0 \<or> i = Suc 0"
  by auto

lemma queue_ok_buf: "queue_ok st \<Longrightarrow> b \<in> queue_bufs st \<Longrightarrow> \<exists>i < 2. bo_buf st i = Some b"
  by (fastforce simp: queue_ok_def queue_bufs_def in_set_conv_nth)

lemma queue_ok_keep:
  assumes q: "queue_ok st" and code: "\<And>k c. bo_code st \<noteq> Record k # c"
    and same: "bo_buf st' = bo_buf st" "bo_evt st' = bo_evt st" "bo_queue st' = bo_queue st" "bo_retired st' = bo_retired st"
  shows "queue_ok st'"
  unfolding queue_ok_def
proof (intro allI impI)
  fix j assume "j < length (bo_queue st')"
  then obtain i p where "i < 2" "bo_buf st i = Some (fst (snd (bo_queue st ! j)))" "bo_evt st i = Some (Some p)"
      "bo_retired st + j < p"
    using q code unfolding queue_ok_def same by metis
  then show "\<exists>i<2. bo_buf st' i = Some (fst (snd (bo_queue st' ! j))) \<and>
     ((\<exists>p. bo_evt st' i = Some (Some p) \<and> bo_retired st' + j < p) \<or>
      (\<exists>c. bo_code st' = Record i # c) \<and> Suc j = length (bo_queue st'))"
    unfolding same by blast
qed

lemma no_buf_empty: "slots_ok st \<Longrightarrow> queue_ok st \<Longrightarrow> bo_buf st 0 = None \<Longrightarrow> bo_queue st = []"
proof (rule ccontr)
  assume h: "slots_ok st" "queue_ok st" "bo_buf st 0 = None" "bo_queue st \<noteq> []"
  then obtain b where "b \<in> queue_bufs st" by (cases "bo_queue st") (auto simp: queue_bufs_def)
  then obtain i where "i < 2" "bo_buf st i = Some b" using queue_ok_buf h(2) by blast
  then show False using h(1,3) by (auto simp: less2 slots_ok_def)
qed

text \<open>Waiting for a slot's event frees its buffer.\<close>

lemma wait_frees:
  assumes q: "queue_ok st" and s: "slots_ok st" and i: "i < 2"
    and w: "\<And>p. bo_evt st i = Some (Some p) \<Longrightarrow> p \<le> bo_retired st"
    and code: "\<And>k c. bo_code st \<noteq> Record k # c"
  shows "free_slot st i"
  unfolding free_slot_def
proof (intro allI impI)
  fix b assume b: "bo_buf st i = Some b"
  show "b \<notin> queue_bufs st"
  proof
    assume "b \<in> queue_bufs st"
    then obtain j where j: "j < length (bo_queue st)" "fst (snd (bo_queue st ! j)) = b"
      by (auto simp: queue_bufs_def in_set_conv_nth)
    then obtain k where k: "k < 2" "bo_buf st k = Some b" "\<exists>p. bo_evt st k = Some (Some p) \<and> bo_retired st + j < p"
      using q code by (auto simp: queue_ok_def)
    have "k = i" using s b k(1,2) i by (auto simp: slots_ok_def less2 split: if_splits)
    then show False using k(3) w by fastforce
  qed
qed

lemma both_free_empty:
  assumes "queue_ok st" "slots_ok st" "free_slot st 0" "free_slot st (Suc 0)"
  shows "bo_queue st = []"
proof (rule ccontr)
  assume "bo_queue st \<noteq> []"
  then obtain b where b: "b \<in> queue_bufs st" by (cases "bo_queue st") (auto simp: queue_bufs_def)
  then obtain i where "i < 2" "bo_buf st i = Some b" using queue_ok_buf assms(1) by blast
  then show False using assms(3,4) b by (auto simp: less2 free_slot_def)
qed

lemma code_ok_same:
  "bo_buf st' = bo_buf st \<Longrightarrow> bo_cap st' = bo_cap st \<Longrightarrow> queue_bufs st' \<subseteq> queue_bufs st \<Longrightarrow>
    (bo_queue st = [] \<longrightarrow> bo_queue st' = []) \<Longrightarrow> code_ok st c \<Longrightarrow> code_ok st' c"
  by (cases "(st, c)" rule: code_ok.cases) (auto simp: free_slot_def)

lemma bounce_call_ok:
  assumes inv: "bounce_inv st" and c: "bo_code st = []"
  shows "code_ok st (bounce_code pinned st d src)"
proof (cases "bo_buf st 0")
  case None
  have "slots_ok st" "queue_ok st" using inv by (simp_all add: bounce_inv_def)
  then have "bo_queue st = []" "bo_evt st 0 = None" "bo_evt st (Suc 0) = None"
    using no_buf_empty [of st] None by (simp_all add: slots_ok_def)
  then show ?thesis using None by (simp add: bounce_code_def) blast
next
  case (Some b)
  then have s: "bo_slot st < 2" "bo_buf st (Suc 0) \<noteq> None" "bo_evt st 0 \<noteq> None" "bo_evt st (Suc 0) \<noteq> None"
    using inv by (auto simp: bounce_inv_def slots_ok_def)
  show ?thesis
  proof (cases "bo_cap st < length src")
    case True
    then show ?thesis using Some s by (auto simp: bounce_code_def grow_tail_def)
  next
    case False
    then have "bo_buf st (bo_slot st) \<noteq> None" using Some s by (auto simp: less2)
    then show ?thesis using Some s False by (auto simp: bounce_code_def send_code_def)
  qed
qed

lemma bounce_step_inv:
  assumes step: "bounce_step st st'" and inv: "bounce_inv st"
  shows "bounce_inv st'"
  using step
proof cases
  case (call d src todo pinned)
  have "code_ok st' (bounce_code pinned st d src)"
    by (rule code_ok_same [OF _ _ _ _ bounce_call_ok [OF inv call(2)]]) (auto simp: call(1) queue_bufs_def)
  moreover have "queue_ok st'" by (rule queue_ok_keep [of st]) (use inv call in \<open>auto simp: bounce_inv_def\<close>)
  ultimately show ?thesis using inv by (auto simp: call(1) bounce_inv_def slots_ok_def)
next
  case (wait i code)
  have q: "queue_ok st" "slots_ok st" using inv by (simp_all add: bounce_inv_def)
  have nr: "bo_code st \<noteq> Record k # c" for k c using wait by simp
  have ok: "code_ok st (Wait i # code)" using inv wait by (simp add: bounce_inv_def)
  have fr: "free_slot st i" if "i < 2" by (rule wait_frees [OF q that wait(3) nr]) 
  have same: "queue_ok st'" "slots_ok st'"
    by (rule queue_ok_keep [OF q(1) nr]) (use q(2) in \<open>simp_all add: wait(1) slots_ok_def\<close>)
  have fs: "free_slot st' k = free_slot st k" for k by (simp add: wait(1) free_slot_def queue_bufs_def)
  from ok show ?thesis
  proof (simp only: code_ok.simps, elim disjE conjE exE)
    fix d src assume "i < 2" "bo_buf st i \<noteq> None" "code = tl (send_code i d src)" "length src \<le> bo_cap st"
    then show ?thesis using same fs fr by (simp add: bounce_inv_def wait(1) send_code_def)
  next
    fix c' assume h: "i = 0" "code = Wait (Suc 0) # c'" "grow_tail c'"
    then show ?thesis using same fs fr by (simp add: bounce_inv_def wait(1))
  next
    assume h: "i = Suc 0" "free_slot st 0" "grow_tail code"
    then have "bo_queue st = []" using both_free_empty [OF q] fr by simp
    then show ?thesis using h(3) same by (auto simp: bounce_inv_def wait(1) grow_tail_def) blast+
  qed
next
  case (alloc n code a b m)
  then obtain d src where c: "bo_queue st = []" "code = send_code 0 d src" "n = length src"
    using inv by (auto simp: bounce_inv_def)
  then show ?thesis using alloc(3)
    by (auto simp: alloc(1) bounce_inv_def slots_ok_def queue_ok_def send_code_def)
next
  case (reset code)
  then obtain d src where c: "bo_queue st = []" "code = [Direct d src]"
    using inv by (auto simp: bounce_inv_def)
  then show ?thesis using inv by (auto simp: reset(1) bounce_inv_def slots_ok_def queue_ok_def)
next
  case (direct d src code)
  then show ?thesis using inv by (auto simp: bounce_inv_def slots_ok_def queue_ok_def)
next
  case (memcpy i src code b)
  have "queue_ok st'" by (rule queue_ok_keep [of st]) (use inv memcpy in \<open>auto simp: bounce_inv_def\<close>)
  then show ?thesis using inv memcpy(2) by (auto simp: memcpy(1) bounce_inv_def slots_ok_def)
next
  case (send d i n code b)
  then have c: "i < 2" "code = [Record i, Flip i]" using inv by (auto simp: bounce_inv_def)
  have "queue_ok st'"
    unfolding queue_ok_def
  proof (intro allI impI)
    fix j assume j: "j < length (bo_queue st')"
    show "\<exists>k < 2. bo_buf st' k = Some (fst (snd (bo_queue st' ! j))) \<and>
     ((\<exists>p. bo_evt st' k = Some (Some p) \<and> bo_retired st' + j < p) \<or>
      (\<exists>c. bo_code st' = Record k # c) \<and> Suc j = length (bo_queue st'))"
    proof (cases "j = length (bo_queue st)")
      case True
      then show ?thesis using c send by (intro exI [of _ i]) simp
    next
      case False
      then have j': "j < length (bo_queue st)" using j by (simp add: send(1))
      then obtain k where "k < 2" "bo_buf st k = Some (fst (snd (bo_queue st ! j)))"
          "\<exists>p. bo_evt st k = Some (Some p) \<and> bo_retired st + j < p"
        using inv send(2) by (auto simp: bounce_inv_def queue_ok_def)
      then show ?thesis using j' by (intro exI [of _ k]) (simp add: send(1) nth_append)
    qed
  qed
  then show ?thesis using inv c send by (auto simp: bounce_inv_def slots_ok_def)
next
  case (recorded i code)
  then have c: "i < 2" "code = [Flip i]" "bo_buf st i \<noteq> None" using inv by (auto simp: bounce_inv_def)
  have "queue_ok st'"
    unfolding queue_ok_def
  proof (intro allI impI)
    fix j assume "j < length (bo_queue st')"
    then have j: "j < length (bo_queue st)" by (simp add: recorded(1))
    then obtain k where k: "k < 2" "bo_buf st k = Some (fst (snd (bo_queue st ! j)))"
        "(\<exists>p. bo_evt st k = Some (Some p) \<and> bo_retired st + j < p) \<or> k = i"
      using inv recorded(2) by (auto simp: bounce_inv_def queue_ok_def)
    then show "\<exists>k < 2. bo_buf st' k = Some (fst (snd (bo_queue st' ! j))) \<and>
     ((\<exists>p. bo_evt st' k = Some (Some p) \<and> bo_retired st' + j < p) \<or>
      (\<exists>c. bo_code st' = Record k # c) \<and> Suc j = length (bo_queue st'))"
      using j by (intro exI [of _ k]) (auto simp: recorded(1))
  qed
  moreover have "bo_buf st 0 \<noteq> None"
  proof
    assume "bo_buf st 0 = None"
    then show False using inv c by (auto simp: bounce_inv_def slots_ok_def less2)
  qed
  then have "slots_ok st'" using inv c(1) by (auto simp: recorded(1) bounce_inv_def slots_ok_def less2)
  ultimately show ?thesis using c by (simp add: bounce_inv_def recorded(1))
next
  case (flip i code)
  then have c: "i < 2" "code = []" using inv by (auto simp: bounce_inv_def)
  then show ?thesis using inv flip(2) by (auto simp: flip(1) bounce_inv_def slots_ok_def queue_ok_def)
next
  case (retire d b n q)
  have "queue_ok st'"
    unfolding queue_ok_def
  proof (intro allI impI)
    fix j assume "j < length (bo_queue st')"
    then have "Suc j < length (bo_queue st)" by (simp add: retire)
    then have "\<exists>i < 2. bo_buf st i = Some (fst (snd (bo_queue st ! Suc j))) \<and>
     ((\<exists>p. bo_evt st i = Some (Some p) \<and> bo_retired st + Suc j < p) \<or>
      (\<exists>c. bo_code st = Record i # c) \<and> Suc (Suc j) = length (bo_queue st))"
      using inv unfolding bounce_inv_def queue_ok_def by blast
    then show "\<exists>i < 2. bo_buf st' i = Some (fst (snd (bo_queue st' ! j))) \<and>
     ((\<exists>p. bo_evt st' i = Some (Some p) \<and> bo_retired st' + j < p) \<or>
      (\<exists>c. bo_code st' = Record i # c) \<and> Suc j = length (bo_queue st'))"
      by (simp add: retire)
  qed
  moreover have "code_ok st' (bo_code st)"
    by (rule code_ok_same [of st' st]) (use inv retire in \<open>auto simp: bounce_inv_def queue_bufs_def\<close>)
  ultimately show ?thesis using inv by (auto simp: bounce_inv_def slots_ok_def retire(1))
qed

section \<open>What the copies deliver\<close>

definition deliver :: "('d \<Rightarrow> 'b list) \<Rightarrow> 'd \<times> 'b list \<Rightarrow> 'd \<Rightarrow> 'b list" where
  "deliver m x = m(fst x := snd x)"

text \<open>The destinations once the queue has drained, with the buffers as they are now.\<close>

definition drained :: "('d, 'b) bounce \<Rightarrow> 'd \<Rightarrow> 'b list" where
  "drained st = foldl (\<lambda>m (d, b, n). m(d := take n (bo_mem st b))) (bo_dst st) (bo_queue st)"

text \<open>The copies that the rest of the current call will issue.\<close>

fun code_effect :: "(nat \<Rightarrow> 'b list) \<Rightarrow> ('d, 'b) instr list \<Rightarrow> ('d \<times> 'b list) list" where
  "code_effect v [] = []"
| "code_effect v (Memcpy i src # c) = code_effect (v(i := src)) c"
| "code_effect v (Send d i n # c) = (d, take n (v i)) # code_effect v c"
| "code_effect v (Direct d src # c) = (d, src) # code_effect v c"
| "code_effect v (x # c) = code_effect v c"

definition slot_view :: "('d, 'b) bounce \<Rightarrow> nat \<Rightarrow> 'b list" where
  "slot_view st i = (case bo_buf st i of None \<Rightarrow> [] | Some b \<Rightarrow> bo_mem st b)"

definition outcome :: "('d, 'b) bounce \<Rightarrow> 'd \<Rightarrow> 'b list" where
  "outcome st = foldl deliver (drained st) (code_effect (slot_view st) (bo_code st) @ bo_todo st)"

lemma slot_view_cong: "bo_buf st' = bo_buf st \<Longrightarrow> bo_mem st' = bo_mem st \<Longrightarrow> slot_view st' = slot_view st"
  by (simp add: slot_view_def fun_eq_iff split: option.split)

lemma code_effect_bounce: "code_effect v (bounce_code pinned st d src) = [(d, src)]"
  by (simp add: bounce_code_def send_code_def)

lemma drain_cong:
  "(\<And>b. b \<in> (fst \<circ> snd) ` set q \<Longrightarrow> m' b = m b) \<Longrightarrow>
    foldl (\<lambda>f (d, b, n). f(d := take n (m' b))) f q = foldl (\<lambda>f (d, b, n). f(d := take n (m b))) f q"
proof (induction q arbitrary: f)
  case (Cons x q)
  obtain d b n where x: "x = (d, b, n)" by (cases x)
  have b: "m' b = m b" using Cons.prems [of b] by (simp add: x)
  have "foldl (\<lambda>f (d, b, n). f(d := take n (m' b))) (f(d := take n (m b))) q =
      foldl (\<lambda>f (d, b, n). f(d := take n (m b))) (f(d := take n (m b))) q"
    by (rule Cons.IH) (rule Cons.prems, simp)
  then show ?case unfolding x foldl.simps prod.case b .
qed simp

lemma drained_cong:
  "bo_queue st' = bo_queue st \<Longrightarrow> bo_dst st' = bo_dst st \<Longrightarrow>
    (\<And>b. b \<in> queue_bufs st \<Longrightarrow> bo_mem st' b = bo_mem st b) \<Longrightarrow> drained st' = drained st"
  unfolding drained_def queue_bufs_def by (metis drain_cong)

lemma outcome_step:
  assumes step: "bounce_step st st'" and inv: "bounce_inv st"
  shows "outcome st' = outcome st"
  using step
proof cases
  case (call d src todo pinned)
  have "drained st' = drained st" by (rule drained_cong) (simp_all add: call(1))
  then show ?thesis using call by (simp add: outcome_def code_effect_bounce)
next
  case (wait i code)
  have "drained st' = drained st" by (rule drained_cong) (simp_all add: wait(1))
  moreover have "slot_view st' = slot_view st" by (rule slot_view_cong) (simp_all add: wait(1))
  ultimately show ?thesis by (simp add: outcome_def wait(1,2))
next
  case (alloc n code a b m)
  then obtain d src where c: "bo_queue st = []" "code = send_code 0 d src"
    using inv by (auto simp: bounce_inv_def)
  then show ?thesis by (simp add: outcome_def alloc(1,2) drained_def send_code_def)
next
  case (reset code)
  then obtain d src where c: "bo_queue st = []" "code = [Direct d src]"
    using inv by (auto simp: bounce_inv_def)
  then show ?thesis by (simp add: outcome_def reset(1,2) drained_def)
next
  case (direct d src code)
  then show ?thesis using inv by (simp add: outcome_def bounce_inv_def drained_def deliver_def)
next
  case (memcpy i src code b)
  then obtain d where c: "code = [Send d i (length src), Record i, Flip i]" and fr: "free_slot st i"
    using inv by (auto simp: bounce_inv_def)
  have "drained st' = drained st"
    by (rule drained_cong) (use memcpy fr in \<open>auto simp: free_slot_def\<close>)
  moreover have "slot_view st' i = src @ drop (length src) (bo_mem st b)"
    by (simp add: memcpy(1) slot_view_def memcpy(3))
  ultimately show ?thesis using c by (simp add: outcome_def memcpy(1,2))
next
  case (send d i n code b)
  then have c: "code = [Record i, Flip i]" using inv by (auto simp: bounce_inv_def)
  have "drained st' = (drained st)(d := take n (bo_mem st b))" by (simp add: send(1) drained_def)
  moreover have "slot_view st i = bo_mem st b" by (simp add: slot_view_def send(3))
  ultimately show ?thesis using c by (simp add: outcome_def send(1,2) deliver_def)
next
  case (recorded i code)
  then have "code = [Flip i]" using inv by (auto simp: bounce_inv_def)
  moreover have "drained st' = drained st" by (rule drained_cong) (simp_all add: recorded(1))
  ultimately show ?thesis by (simp add: outcome_def recorded(1,2))
next
  case (flip i code)
  then have "code = []" using inv by (auto simp: bounce_inv_def)
  moreover have "drained st' = drained st" by (rule drained_cong) (simp_all add: flip(1))
  ultimately show ?thesis by (simp add: outcome_def flip(1,2))
next
  case (retire d b n q)
  have "drained st' = drained st" by (simp add: retire drained_def)
  moreover have "slot_view st' = slot_view st" by (rule slot_view_cong) (simp_all add: retire(1))
  ultimately show ?thesis by (simp add: outcome_def retire(1))
qed

lemma bounce_reachable:
  assumes "bounce_reach (bounce_init dst calls) st"
  shows "bounce_inv st \<and> outcome st = foldl deliver dst calls"
  using assms
proof induction
  case start
  show ?case by (simp add: bounce_init_def bounce_inv_def slots_ok_def queue_ok_def outcome_def drained_def)
next
  case (step st st')
  then show ?case using bounce_step_inv outcome_step by metis
qed

text \<open>C7: the double-buffered copy never races.  However the device's copy engine lags behind the program, and
  whatever the allocator hands out, once all calls have been made and the queue has drained every
  destination holds the source of the last copy made to it: no host buffer is overwritten, resized or
  released while a copy still reads it.\<close>

theorem bounce_never_races:
  assumes "bounce_reach (bounce_init dst calls) st"
    and "bo_todo st = []" and "bo_code st = []" and "bo_queue st = []"
  shows "bo_dst st = foldl deliver dst calls"
  using bounce_reachable [OF assms(1)] assms(2-4) by (simp add: outcome_def drained_def)

text \<open>Events refer to copies that were issued.\<close>

definition events_ok :: "('d, 'b) bounce \<Rightarrow> bool" where
  "events_ok st \<longleftrightarrow> (\<forall>i p. bo_evt st i = Some (Some p) \<longrightarrow> p \<le> bo_retired st + length (bo_queue st))"

lemma events_reachable:
  assumes "bounce_reach (bounce_init dst calls) st"
  shows "events_ok st"
  using assms
proof induction
  case start
  show ?case by (simp add: events_ok_def bounce_init_def)
next
  case (step st st')
  from step(2,3) show ?case by cases (auto simp: events_ok_def le_SucI)
qed

text \<open>With nothing queued, the next instruction of the program can run.\<close>

lemma instr_runs:
  assumes "bounce_reach (bounce_init dst calls) st" and "bo_queue st = []" and Cons: "bo_code st = x # c"
  shows "\<exists>st'. bounce_step st st'"
proof -
  have ok: "code_ok st (bo_code st)" using bounce_reachable [OF assms(1)] by (simp add: bounce_inv_def)
  show ?thesis
  proof (cases x)
    case (Wait i)
    then have "p \<le> bo_retired st" if "bo_evt st i = Some (Some p)" for p
      using events_reachable [OF assms(1)] that assms(2) by (auto simp: events_ok_def)
    then show ?thesis using bounce_step.wait Cons Wait by metis
  next
    case (Alloc n)
    have "bounce_step st (st\<lparr>bo_code := c, bo_buf := (\<lambda>i. if i = 0 then Some 0 else if i = 1 then Some 1 else None),
        bo_evt := (\<lambda>i. if i < 2 then Some None else None), bo_cap := n, bo_slot := 0,
        bo_mem := (\<lambda>_. replicate n undefined)\<rparr>)"
      by (rule bounce_step.alloc) (use Cons Alloc in simp_all)
    then show ?thesis by blast
  next
    case Reset
    then show ?thesis using bounce_step.reset Cons by metis
  next
    case (Memcpy i src)
    then obtain b where "bo_buf st i = Some b" using ok Cons by auto
    then show ?thesis using bounce_step.memcpy Cons Memcpy by metis
  next
    case (Send d i n)
    then obtain b where "bo_buf st i = Some b" using ok Cons by auto
    then show ?thesis using bounce_step.send Cons Send by metis
  next
    case (Record i)
    then show ?thesis using bounce_step.recorded Cons by metis
  next
    case (Flip i)
    then show ?thesis using bounce_step.flip Cons by metis
  next
    case (Direct d src)
    then show ?thesis using bounce_step.direct Cons by metis
  qed
qed

text \<open>C24: the copy never deadlocks, and never overruns its buffers.  From every reachable state with calls, code or
  pending copies left some step is possible (an event the program waits for is always of a copy that
  the device can retire), and a host copy into a slot fits the allocated capacity.\<close>

theorem bounce_progress:
  assumes "bounce_reach (bounce_init dst calls) st"
  shows "((bo_todo st \<noteq> [] \<or> bo_code st \<noteq> [] \<or> bo_queue st \<noteq> []) \<longrightarrow> (\<exists>st'. bounce_step st st')) \<and>
    (\<forall>i src c. bo_code st = Memcpy i src # c \<longrightarrow> length src \<le> bo_cap st)"
proof -
  have inv: "bounce_inv st" using bounce_reachable [OF assms] by simp
  have "\<exists>st'. bounce_step st st'" if left: "bo_todo st \<noteq> [] \<or> bo_code st \<noteq> [] \<or> bo_queue st \<noteq> []"
  proof (cases "bo_queue st")
    case (Cons x q)
    obtain d b n where "x = (d, b, n)" by (cases x)
    then show ?thesis using bounce_step.retire Cons by metis
  next
    case empty: Nil
    show ?thesis
    proof (cases "bo_code st")
      case Nil
      then obtain x todo where t: "bo_todo st = x # todo" using left empty by (cases "bo_todo st") auto
      obtain d src where "x = (d, src)" by (cases x)
      then show ?thesis using bounce_step.call [OF Nil] t by metis
    next
      case (Cons x c)
      show ?thesis by (rule instr_runs [OF assms empty Cons])
    qed
  qed
  moreover have "length src \<le> bo_cap st" if "bo_code st = Memcpy i src # c" for i src c
    using inv that by (simp add: bounce_inv_def)
  ultimately show ?thesis by blast
qed


section \<open>Witnesses\<close>

inductive_cases bounce_stepE: "bounce_step st st'"

lemmas reach_step = bounce_reach.step

definition one_call :: "(nat, nat) bounce" where
  "one_call = bounce_init (\<lambda>_. []) [(5, [1, 2])]"

definition one_call_sent :: "(nat, nat) bounce" where
  "one_call_sent = one_call\<lparr>bo_buf := (\<lambda>i. if i = 0 then Some 8 else if i = 1 then Some 9 else None),
     bo_evt := (\<lambda>i. if i < 2 then Some None else None), bo_cap := 2, bo_slot := 0,
     bo_mem := (\<lambda>_. [0, 0])(8 := [1, 2]), bo_queue := [(5, 8, 2)], bo_code := [Record 0, Flip 0], bo_todo := []\<rparr>"

text \<open>The program reaches the sent copy; the device has not moved yet.\<close>

lemma one_call_reaches: "bounce_reach one_call one_call_sent"
proof -
  let ?s1 = "one_call\<lparr>bo_code := Alloc 2 # send_code 0 5 [1, 2], bo_todo := []\<rparr>"
  let ?s2 = "?s1\<lparr>bo_code := send_code 0 5 [1, 2], bo_buf := (\<lambda>i. if i = 0 then Some 8 else if i = 1 then Some 9 else None),
      bo_evt := (\<lambda>i. if i < 2 then Some None else None), bo_cap := 2, bo_slot := 0, bo_mem := (\<lambda>_. [0, 0])\<rparr>"
  let ?s3 = "?s2\<lparr>bo_code := tl (send_code 0 5 [1, 2])\<rparr>"
  let ?s4 = "?s3\<lparr>bo_code := [Send 5 0 2, Record 0, Flip 0], bo_mem := (\<lambda>_. [0, 0])(8 := [1, 2])\<rparr>"
  have "bounce_code True one_call 5 [1, 2] = Alloc 2 # send_code 0 5 [1, 2]"
    by (simp add: bounce_code_def one_call_def bounce_init_def)
  then have "bounce_step one_call ?s1"
    using bounce_step.call [of one_call 5 "[1, 2]" "[]" True] by (simp add: one_call_def bounce_init_def)
  then have r1: "bounce_reach one_call ?s1" by (rule reach_step [OF bounce_reach.start])
  have "bounce_step ?s1 ?s2" by (rule bounce_step.alloc) simp_all
  then have r2: "bounce_reach one_call ?s2" by (rule reach_step [OF r1])
  have "bounce_step ?s2 ?s3" by (rule bounce_step.wait [of _ 0]) (simp_all add: send_code_def)
  then have r3: "bounce_reach one_call ?s3" by (rule reach_step [OF r2])
  have "bounce_step ?s3 ?s4"
    using bounce_step.memcpy [of ?s3 0 "[1, 2]" "[Send 5 0 2, Record 0, Flip 0]" 8] by (simp add: send_code_def)
  then have r4: "bounce_reach one_call ?s4" by (rule reach_step [OF r3])
  have "bounce_step ?s4 one_call_sent"
    using bounce_step.send [of ?s4 5 0 2 "[Record 0, Flip 0]" 8]
    by (simp add: one_call_sent_def one_call_def bounce_init_def)
  then show ?thesis by (rule reach_step [OF r4])
qed

lemma bounce_progress_witness:
  "\<exists>st'. bounce_step one_call_sent st'"
  using bounce_progress [of "\<lambda>_. []" "[(5, [1, 2])]" one_call_sent] one_call_reaches
  by (simp add: one_call_def one_call_sent_def)

lemma bounce_never_races_witness:
  "\<exists>st. bounce_reach one_call st \<and> bo_queue st = [] \<and> bo_dst st 5 = [1, 2]"
proof -
  let ?s6 = "one_call_sent\<lparr>bo_code := [Flip 0], bo_evt := (bo_evt one_call_sent)(0 := Some (Some 1))\<rparr>"
  let ?s7 = "?s6\<lparr>bo_code := [], bo_slot := 1\<rparr>"
  let ?s8 = "?s7\<lparr>bo_queue := [], bo_retired := 1, bo_dst := (bo_dst one_call)(5 := [1, 2])\<rparr>"
  have "bounce_step one_call_sent ?s6"
    using bounce_step.recorded [of one_call_sent 0 "[Flip 0]"] by (simp add: one_call_sent_def one_call_def bounce_init_def)
  then have r6: "bounce_reach one_call ?s6" by (rule reach_step [OF one_call_reaches])
  have "bounce_step ?s6 ?s7" using bounce_step.flip [of ?s6 0 "[]"] by simp
  then have r7: "bounce_reach one_call ?s7" by (rule reach_step [OF r6])
  have "bounce_step ?s7 ?s8"
    using bounce_step.retire [of ?s7 5 8 2 "[]"] by (simp add: one_call_sent_def one_call_def bounce_init_def)
  then have r8: "bounce_reach one_call ?s8" by (rule reach_step [OF r7])
  have "bo_dst ?s8 = foldl deliver (\<lambda>_. []) [(5, [1, 2])]"
    by (rule bounce_never_races) (use r8 in \<open>simp_all add: one_call_def one_call_sent_def bounce_init_def\<close>)
  then have "bo_dst ?s8 5 = [1, 2]" by (simp add: deliver_def)
  then show ?thesis using r8 by (intro exI [of _ ?s8]) simp
qed

definition demo_maps :: "string list list" where
  "demo_maps = [[''10-90'', ''rw-p'', ''00000000'', ''00:00'', ''7'', ''/models/a.safetensors'']]"

definition demo_view :: tensor_view where
  "demo_view = \<lparr>tv_cpu = True, tv_contiguous = True, tv_ptr = 22, tv_numel = 10, tv_element = 2\<rparr>"


end
