(* ===== verification/Exl3_Config.thy ===== *)
theory Exl3_Config
  imports Moe_Names "HOL-Library.Sublist"
begin

text \<open>
  The quantization config (\<open>Exl3Config\<close> in \<open>src/vllm_exl3/exl3.py\<close>): its validation, the bit width
  of a module, the coverage of non-routed modules derived from a pack's ledger or from the MiniMax
  architecture, and the choice of the quantization method for a layer.  The parsed JSON is given
  as typed records; the quantization methods of vLLM that a pack delegates to are parameters.
\<close>

section \<open>Module paths\<close>

definition exl3_pad128 :: "nat \<Rightarrow> nat" where
  "exl3_pad128 n = (n + 127) div 128 * 128"

definition prefix_has_suffix :: "string \<Rightarrow> string \<Rightarrow> bool" where
  "prefix_has_suffix pre suf \<longleftrightarrow> pre = suf \<or> ends_with (''.'' @ suf) pre"

definition all_digits :: "string \<Rightarrow> bool" where
  "all_digits s \<longleftrightarrow> s \<noteq> [] \<and> list_all (\<lambda>c. digit_val c \<noteq> None) s"

definition digits_value :: "string \<Rightarrow> int" where
  "digits_value s = the (digits 0 False s)"

text \<open>The patterns \<open>_LAYER_RE\<close> and \<open>_MTP_LAYER_RE\<close>, on the dot-separated components.\<close>

fun layer_index :: "string list \<Rightarrow> int option" where
  "layer_index (a # b # cs) =
     (if a = ''layers'' \<and> all_digits b then Some (digits_value b) else layer_index (b # cs))"
| "layer_index _ = None"

fun mtp_layer :: "string list \<Rightarrow> string option" where
  "mtp_layer (a # b # c # cs) =
     (if a = ''mtp'' \<and> b = ''layers'' \<and> all_digits c then Some (''mtp.layers.'' @ c) else mtp_layer (b # c # cs))"
| "mtp_layer _ = None"

text \<open>The pattern \<open>layers\.(\d+)\.\<close>, searched from the left.\<close>

fun layers_dot_number :: "string \<Rightarrow> int option" where
  "layers_dot_number [] = None"
| "layers_dot_number (c # cs) =
     (let ds = takeWhile (\<lambda>d. digit_val d \<noteq> None) (drop 7 (c # cs)) in
      if starts_with ''layers.'' (c # cs) \<and> ds \<noteq> [] \<and> starts_with ''.'' (drop (7 + length ds) (c # cs))
      then Some (digits_value ds) else layers_dot_number cs)"

section \<open>The config\<close>

text \<open>An entry \<open>"bits"\<close> may be absent, null, or a number.\<close>

record layer_spec =
  ls_bits :: "int option option"
  ls_bf16_shards :: "nat list"

record non_routed =
  nr_bits :: "int option option"
  nr_layer_bits :: "(string, int) odict"
  nr_layers :: "(string, layer_spec option) odict"
  nr_modules :: "string list"
  nr_codebook :: string

record ngram_spec =
  ng_bits :: int
  ng_num_shards :: int
  ng_rows_per_shard :: int
  ng_num_heads :: int
  ng_modules :: "string list"
  ng_sharded :: bool

datatype lkey = KInt int | KStr string

record storage_spec =
  ss_format :: string
  ss_bits :: "int option"
  ss_mul1 :: bool

record raw_config =
  rc_bits :: int
  rc_codebook :: string
  rc_layer_bits :: "(lkey \<times> int) list"
  rc_non_routed :: "non_routed option"
  rc_ngram :: "ngram_spec option"
  rc_storage :: "(string \<times> storage_spec option) list"
  rc_dtype_policy :: string
  rc_mtp_experts :: string
  rc_mtp_start :: "int option"

record exl3_config =
  ec_bits :: int
  ec_codebook :: string
  ec_layer_bits :: "(lkey, int) odict"
  ec_non_routed :: "non_routed option"
  ec_ngram :: "ngram_spec option"
  ec_dtype_policy :: string
  ec_mtp_experts :: string
  ec_mtp_start :: "int option"

definition bits_allowed :: "int \<Rightarrow> bool" where
  "bits_allowed k \<longleftrightarrow> k \<in> {2, 3, 4, 5, 6}"

text \<open>\<open>int(k) if isinstance(k, int) or str(k).lstrip("-").isdigit() else str(k)\<close>.\<close>

definition norm_key :: "lkey \<Rightarrow> lkey res" where
  "norm_key k =
     (case k of
        KInt n \<Rightarrow> Inr (KInt n)
      | KStr s \<Rightarrow>
          if all_digits (dropWhile (\<lambda>c. c = CHR ''-'') s)
          then (case py_int10 s of None \<Rightarrow> Inl ValueError | Some n \<Rightarrow> Inr (KInt n))
          else Inr (KStr s))"

definition norm_layer_bits :: "(lkey \<times> int) list \<Rightarrow> (lkey, int) odict res" where
  "norm_layer_bits kvs = fold_res (\<lambda>d (k, v). map_ok (\<lambda>k'. od_set k' v d) (norm_key k)) [] kvs"

definition non_routed_ok :: "non_routed \<Rightarrow> bool" where
  "non_routed_ok nr \<longleftrightarrow>
     (case nr_bits nr of Some (Some k) \<Rightarrow> bits_allowed k | _ \<Rightarrow> True) \<and>
     list_all (\<lambda>(_, k). bits_allowed k) (nr_layer_bits nr) \<and>
     list_all (\<lambda>(_, spec). case spec of
         None \<Rightarrow> False
       | Some sp \<Rightarrow> (case ls_bits sp of Some (Some k) \<Rightarrow> bits_allowed k | _ \<Rightarrow> True)) (nr_layers nr) \<and>
     nr_codebook nr \<in> {''mcg'', ''mul1''}"

definition ngram_ok :: "ngram_spec \<Rightarrow> bool" where
  "ngram_ok ng \<longleftrightarrow> 0 < ng_bits ng \<and> 0 < ng_num_shards ng \<and> 0 < ng_rows_per_shard ng \<and> 0 < ng_num_heads ng \<and>
     1 \<le> ng_bits ng \<and> ng_bits ng < 9"

text \<open>\<open>__init__\<close>.\<close>

definition exl3_init :: "raw_config \<Rightarrow> exl3_config res" where
  "exl3_init rc =
     bind_res (norm_layer_bits (rc_layer_bits rc)) (\<lambda>lb.
       if list_ex (\<lambda>(_, k). \<not> bits_allowed k) lb then Inl ValueError
       else if (case rc_non_routed rc of None \<Rightarrow> False | Some nr \<Rightarrow> \<not> non_routed_ok nr) then Inl ValueError
       else if (case rc_ngram rc of None \<Rightarrow> False | Some ng \<Rightarrow> \<not> ngram_ok ng) then Inl ValueError
       else if rc_codebook rc \<notin> {''mcg'', ''mul1''} then Inl ValueError
       else if \<not> bits_allowed (rc_bits rc) then Inl ValueError
       else Inr \<lparr>ec_bits = rc_bits rc, ec_codebook = rc_codebook rc, ec_layer_bits = lb,
         ec_non_routed = rc_non_routed rc, ec_ngram = rc_ngram rc, ec_dtype_policy = rc_dtype_policy rc,
         ec_mtp_experts = rc_mtp_experts rc, ec_mtp_start = rc_mtp_start rc\<rparr>)"

section \<open>Derived coverage\<close>

definition ledger_key :: "string \<Rightarrow> string" where
  "ledger_key pre = (if starts_with ''backbone.'' pre then ''model.'' @ drop 9 pre else pre)"

text \<open>Which ledger entries are covered, and with how many bits.\<close>

definition ledger_bits :: "string \<Rightarrow> storage_spec option \<Rightarrow> int option" where
  "ledger_bits pre spec =
     (case spec of
        None \<Rightarrow> None
      | Some ss \<Rightarrow>
          if ss_format ss \<noteq> ''exl3'' \<or> contains ''.experts.'' pre then None
          else (case ss_bits ss of None \<Rightarrow> None | Some b \<Rightarrow> if 2 \<le> b \<and> b \<le> 8 then Some b else None))"

fun put_entry :: "(string \<times> int) option \<Rightarrow> (string, int) odict \<Rightarrow> (string, int) odict" where
  "put_entry None d = d"
| "put_entry (Some (k, b)) d = od_set k b d"

definition ledger_entry :: "string \<times> storage_spec option \<Rightarrow> (string \<times> int) option" where
  "ledger_entry e = map_option (Pair (ledger_key (fst e))) (ledger_bits (fst e) (snd e))"

definition ledger_layers :: "(string \<times> storage_spec option) list \<Rightarrow> (string, int) odict" where
  "ledger_layers ts = fold put_entry (map ledger_entry ts) []"

definition ledger_codebook :: "(string \<times> storage_spec option) list \<Rightarrow> string" where
  "ledger_codebook ts =
     (if list_ex (\<lambda>(pre, spec). ledger_bits pre spec \<noteq> None \<and> (case spec of None \<Rightarrow> False | Some ss \<Rightarrow> ss_mul1 ss)) ts
      then ''mul1'' else ''mcg'')"

definition qkv_base :: "string \<Rightarrow> string option" where
  "qkv_base key = (if ends_with ''.q_proj'' key then Some (take (length key - 7) key) else None)"

definition fused_entry :: "(string, int) odict \<Rightarrow> string \<Rightarrow> (string \<times> int) option" where
  "fused_entry layers key =
     (case qkv_base key of
        None \<Rightarrow> None
      | Some base \<Rightarrow>
          (case (od_get layers (base @ ''.q_proj''), od_get layers (base @ ''.k_proj''), od_get layers (base @ ''.v_proj'')) of
             (Some q, Some k, Some v) \<Rightarrow> Some (base @ ''.qkv_proj'', max (max q k) v)
           | _ \<Rightarrow> None))"

definition with_fused :: "(string, int) odict \<Rightarrow> (string, int) odict" where
  "with_fused layers =
     fold put_entry (map (fused_entry layers) (od_keys layers)) layers"

definition derive_non_routed_from_tensor_storage :: "(string \<times> storage_spec option) list \<Rightarrow> non_routed option" where
  "derive_non_routed_from_tensor_storage ts =
     (if ledger_layers ts = [] then None
      else Some \<lparr>nr_bits = None, nr_layer_bits = [],
        nr_layers = map (\<lambda>(k, b). (k, Some \<lparr>ls_bits = Some (Some b), ls_bf16_shards = []\<rparr>)) (with_fused (ledger_layers ts)),
        nr_modules = [], nr_codebook = ledger_codebook ts\<rparr>)"

definition MINIMAX_NON_ROUTED_FAMILIES :: "(string, int) odict" where
  "MINIMAX_NON_ROUTED_FAMILIES =
     [(''self_attn.qkv_proj'', 5), (''self_attn.o_proj'', 5), (''mlp.gate_proj'', 4), (''mlp.up_proj'', 4),
      (''mlp.down_proj'', 5), (''block_sparse_moe.shared_experts.gate_proj'', 4),
      (''block_sparse_moe.shared_experts.up_proj'', 4), (''block_sparse_moe.shared_experts.down_proj'', 5),
      (''lm_head'', 6)]"

definition MINIMAX_FUSED_LINEAR_MODULES :: "(string \<times> string list) list" where
  "MINIMAX_FUSED_LINEAR_MODULES =
     [(''mlp.gate_up_proj'', [''mlp.gate_proj'', ''mlp.up_proj'']),
      (''block_sparse_moe.shared_experts.gate_up_proj'',
        [''block_sparse_moe.shared_experts.gate_proj'', ''block_sparse_moe.shared_experts.up_proj''])]"

definition family_bits :: "string \<Rightarrow> int" where
  "family_bits f = the (od_get MINIMAX_NON_ROUTED_FAMILIES f)"

definition derive_minimax_non_routed_coverage :: non_routed where
  "derive_minimax_non_routed_coverage =
     \<lparr>nr_bits = Some (Some (foldl max 0 (map snd MINIMAX_NON_ROUTED_FAMILIES))),
      nr_layer_bits = fold (\<lambda>(f, ms) d. od_set f (foldl max 0 (map family_bits ms)) d)
        MINIMAX_FUSED_LINEAR_MODULES MINIMAX_NON_ROUTED_FAMILIES,
      nr_layers = [],
      nr_modules = map fst MINIMAX_NON_ROUTED_FAMILIES @ map fst MINIMAX_FUSED_LINEAR_MODULES,
      nr_codebook = ''mcg''\<rparr>"

definition hf_config_is_minimax_m3 :: "string \<Rightarrow> string list \<Rightarrow> bool" where
  "hf_config_is_minimax_m3 model_type archs \<longleftrightarrow>
     model_type \<in> {''minimax_m3_vl'', ''minimax_m3''} \<or> list_ex (contains ''MiniMaxM3Sparse'') archs"

text \<open>
  \<open>from_config\<close>: \<open>sidecar\<close> is the ledger of the sibling file, \<open>minimax\<close> the process-wide marker
  that \<open>override_quantization_method\<close> sets.
\<close>

definition from_config ::
  "(string \<times> storage_spec option) list \<Rightarrow> bool \<Rightarrow> raw_config \<Rightarrow> exl3_config res"
where
  "from_config sidecar minimax rc =
     map_ok (\<lambda>cfg.
       let cfg = (if ec_non_routed cfg = None
                  then cfg\<lparr>ec_non_routed := derive_non_routed_from_tensor_storage
                    (if rc_storage rc = [] then sidecar else rc_storage rc)\<rparr>
                  else cfg) in
       if ec_non_routed cfg = None \<and> minimax
       then cfg\<lparr>ec_non_routed := Some derive_minimax_non_routed_coverage\<rparr> else cfg)
       (exl3_init rc)"

definition override_quantization_method :: "string \<Rightarrow> (string \<times> string list) option \<Rightarrow> bool \<Rightarrow> bool \<times> bool" where
  "override_quantization_method quant_method hf requested =
     (if lower quant_method = ''exl3'' then
        (True, requested \<or> (case hf of None \<Rightarrow> False | Some (mt, archs) \<Rightarrow> hf_config_is_minimax_m3 mt archs))
      else (False, requested))"

section \<open>Bits of a module\<close>

definition bits_for_prefix :: "exl3_config \<Rightarrow> string \<Rightarrow> int" where
  "bits_for_prefix cfg p =
     (let lb = ec_layer_bits cfg; parts = split_on CHR ''.'' p in
      if lb = [] then ec_bits cfg
      else case od_get lb (KStr p) of
          Some k \<Rightarrow> k
        | None \<Rightarrow>
            (case (case mtp_layer parts of None \<Rightarrow> None | Some g \<Rightarrow> od_get lb (KStr g)) of
               Some k \<Rightarrow> k
             | None \<Rightarrow>
                 (case layer_index parts of
                    None \<Rightarrow> ec_bits cfg
                  | Some idx \<Rightarrow> (case od_get lb (KInt idx) of
                      Some k \<Rightarrow> k
                    | None \<Rightarrow> (case od_get lb (KStr (show_nat (nat idx))) of Some k \<Rightarrow> k | None \<Rightarrow> ec_bits cfg)))))"

definition matches_non_routed_exl3 :: "exl3_config \<Rightarrow> string \<Rightarrow> bool" where
  "matches_non_routed_exl3 cfg p =
     (case ec_non_routed cfg of
        None \<Rightarrow> False
      | Some nr \<Rightarrow> od_get (nr_layers nr) p \<noteq> None \<or> list_ex (prefix_has_suffix p) (nr_modules nr))"

text \<open>\<open>int(d.get("bits", dflt))\<close>: a null entry, which validation lets pass, fails in \<open>int(None)\<close>.\<close>

definition bits_entry :: "int \<Rightarrow> int option option \<Rightarrow> int res" where
  "bits_entry dflt b = (case b of None \<Rightarrow> Inr dflt | Some None \<Rightarrow> Inl TypeError | Some (Some k) \<Rightarrow> Inr k)"

definition bits_for_non_routed :: "exl3_config \<Rightarrow> string \<Rightarrow> int res" where
  "bits_for_non_routed cfg p =
     (case ec_non_routed cfg of
        None \<Rightarrow> Inr (ec_bits cfg)
      | Some nr \<Rightarrow>
          let dflt = bits_entry (ec_bits cfg) (nr_bits nr) in
          (case od_get (nr_layers nr) p of
             Some (Some spec) \<Rightarrow>
               (case ls_bits spec of None \<Rightarrow> dflt | Some b \<Rightarrow> bits_entry 0 (Some b))
           | Some None \<Rightarrow> Inl TypeError
           | None \<Rightarrow>
               (case find (prefix_has_suffix p) (nr_modules nr) of
                  None \<Rightarrow> Inr (ec_bits cfg)
                | Some suf \<Rightarrow> (case od_get (nr_layer_bits nr) suf of Some k \<Rightarrow> Inr k | None \<Rightarrow> dflt))))"

definition bf16_shards_for :: "exl3_config \<Rightarrow> string \<Rightarrow> nat list" where
  "bf16_shards_for cfg p =
     (case ec_non_routed cfg of
        None \<Rightarrow> []
      | Some nr \<Rightarrow> (case od_get (nr_layers nr) p of Some (Some spec) \<Rightarrow> ls_bf16_shards spec | _ \<Rightarrow> []))"

definition ngram_embedding_spec :: "exl3_config \<Rightarrow> string \<Rightarrow> ngram_spec option" where
  "ngram_embedding_spec cfg p =
     (case ec_ngram cfg of
        None \<Rightarrow> None
      | Some ng \<Rightarrow>
          if list_ex (\<lambda>m. p = m \<or> ends_with (''.'' @ m) p)
            (if ng_modules ng = [] then [''ngram_embedding''] else ng_modules ng)
          then Some ng else None)"

section \<open>The method of a layer\<close>

datatype layer_kind = Routed_experts | Linear_layer | Lm_head | Vocab_embedding | Other_layer

text \<open>A linear or embedding method comes with the prefix that the code stores on the layer.\<close>

datatype qmethod =
    Exl3_moe int
  | Exl3_linear string int
  | Exl3_embedding string ngram_spec
  | Unquantized
  | Delegated string
  | No_method

text \<open>
  \<open>_non_routed_delegate\<close>, with its cache: \<open>load\<close> finds the class of the declared method, \<open>build\<close>
  its config.  A delegate answers with a method for a module, or none.  The cache is set to
  "no delegate" before the class is looked up, and stays so when that raises.
\<close>

type_synonym delegate = "string \<Rightarrow> qmethod option"

type_synonym delegate_cache = "delegate option option"

definition non_routed_delegate ::
  "string option \<Rightarrow> (string \<Rightarrow> 'c option res) \<Rightarrow> ('c \<Rightarrow> delegate res) \<Rightarrow> delegate_cache
    \<Rightarrow> delegate option res \<times> delegate_cache"
where
  "non_routed_delegate declared load build cache =
     (case cache of
        Some d \<Rightarrow> (Inr d, cache)
      | None \<Rightarrow>
          (case declared of
             None \<Rightarrow> (Inr None, Some None)
           | Some name \<Rightarrow>
               (case load name of
                  Inl _ \<Rightarrow> (Inl RuntimeError, Some None)
                | Inr None \<Rightarrow> (Inl ValueError, Some None)
                | Inr (Some c) \<Rightarrow>
                    (case build c of
                       Inl _ \<Rightarrow> (Inl ValueError, Some None)
                     | Inr d \<Rightarrow> (Inr (Some d), Some (Some d))))))"

text \<open>What the delegate answers for a module: a failure, no method, or a method.\<close>

definition ask_delegate :: "delegate option res \<times> delegate_cache \<Rightarrow> string \<Rightarrow> qmethod option res \<times> delegate_cache" where
  "ask_delegate dc p = (map_ok (\<lambda>d. case d of None \<Rightarrow> None | Some f \<Rightarrow> f p) (fst dc), snd dc)"

text \<open>\<open>mxfp4\<close> is what vLLM's MXFP4 config answers, or nothing when it is not usable.\<close>

definition mtp_expert_method ::
  "delegate \<Rightarrow> (delegate_cache \<Rightarrow> delegate option res \<times> delegate_cache) \<Rightarrow> delegate_cache \<Rightarrow> string
    \<Rightarrow> qmethod option res \<times> delegate_cache"
where
  "mtp_expert_method mxfp4 delegate cache p =
     (case mxfp4 p of
        Some mt \<Rightarrow> (Inr (Some mt), cache)
      | None \<Rightarrow> ask_delegate (delegate cache) p)"

definition source_format_layer :: "exl3_config \<Rightarrow> string \<Rightarrow> bool" where
  "source_format_layer cfg p \<longleftrightarrow>
     ec_mtp_experts cfg = ''source'' \<and>
     (case (ec_mtp_start cfg, layers_dot_number p) of (Some s, Some n) \<Rightarrow> s \<le> n | _ \<Rightarrow> False)"

definition get_quant_method ::
  "delegate \<Rightarrow> (delegate_cache \<Rightarrow> delegate option res \<times> delegate_cache) \<Rightarrow> exl3_config \<Rightarrow> delegate_cache
    \<Rightarrow> layer_kind \<Rightarrow> string \<Rightarrow> qmethod res \<times> delegate_cache"
where
  "get_quant_method mxfp4 delegate cfg cache kind prefix0 =
     (let p = remove_prefix ''language_model.'' prefix0 in
      case kind of
        Routed_experts \<Rightarrow>
          (let (r, cache') = (if source_format_layer cfg p then mtp_expert_method mxfp4 delegate cache p
                              else (Inr None, cache)) in
           (map_ok (\<lambda>dm. case dm of Some mt \<Rightarrow> mt | None \<Rightarrow> Exl3_moe (bits_for_prefix cfg p)) r, cache'))
      | Linear_layer \<Rightarrow>
          if matches_non_routed_exl3 cfg p then (map_ok (Exl3_linear p) (bits_for_non_routed cfg p), cache)
          else if ec_dtype_policy cfg = ''bf16_as_stored'' then (Inr Unquantized, cache)
          else (let (r, cache') = ask_delegate (delegate cache) p in
                (map_ok (\<lambda>dm. case dm of Some mt \<Rightarrow> mt | None \<Rightarrow> Unquantized) r, cache'))
      | Lm_head \<Rightarrow>
          if matches_non_routed_exl3 cfg p then (map_ok (Exl3_linear p) (bits_for_non_routed cfg p), cache)
          else (Inr No_method, cache)
      | Vocab_embedding \<Rightarrow>
          (Inr (case ngram_embedding_spec cfg p of Some ng \<Rightarrow> Exl3_embedding p ng | None \<Rightarrow> No_method), cache)
      | Other_layer \<Rightarrow> (Inr No_method, cache))"

section \<open>Lemmas on module paths\<close>

lemma join_split_on: "concat (map ((#) c) (split_on c s)) = c # s"
proof (induction s)
  case (Cons x s)
  then show ?case by (cases "split_on c s") auto
qed simp

lemma split_on_append: "split_on c (x @ c # y) = split_on c x @ split_on c y"
proof (induction x)
  case (Cons a x)
  then show ?case
    using split_on_nonempty [of c x] by (cases "split_on c x") auto
qed simp

lemma ends_with_iff: "ends_with suf s \<longleftrightarrow> (\<exists>x. s = x @ suf)"
proof
  assume "ends_with suf s"
  then show "\<exists>x. s = x @ suf"
    unfolding ends_with_def by (metis append_take_drop_id)
qed (auto simp: ends_with_def)

lemma prefix_has_suffix_iff: "prefix_has_suffix p s \<longleftrightarrow> p = s \<or> (\<exists>x. p = x @ CHR ''.'' # s)"
  by (simp add: prefix_has_suffix_def ends_with_iff)

section \<open>Lemmas on coverage\<close>

lemma put_entries_dom:
  "od_get (fold put_entry es d) k \<noteq> None \<longleftrightarrow> (\<exists>v. Some (k, v) \<in> set es) \<or> od_get d k \<noteq> None"
proof (induction es arbitrary: d)
  case (Cons e es)
  show ?case using Cons.IH [of "put_entry e d"] by (cases e) (auto split: if_splits)
qed simp

lemma put_entries_value:
  "od_get (fold put_entry es d) k = Some v \<Longrightarrow> Some (k, v) \<in> set es \<or> od_get d k = Some v"
proof (induction es arbitrary: d)
  case (Cons e es)
  then show ?case by (cases e) (fastforce split: if_splits)+
qed simp

lemma put_entries_unique:
  assumes "Some (k, v) \<in> set es" "\<And>v'. Some (k, v') \<in> set es \<Longrightarrow> v' = v"
  shows "od_get (fold put_entry es d) k = Some v"
  using put_entries_dom [of es d k] put_entries_value [of es d k]
proof -
  show ?thesis
    using assms
  proof (induction es arbitrary: d)
    case (Cons e es)
    show ?case
    proof (cases "\<exists>w. Some (k, w) \<in> set es")
      case True
      then obtain w where w: "Some (k, w) \<in> set es" by blast
      then have "w = v" using Cons.prems(2) by simp
      then show ?thesis using Cons.IH w Cons.prems(2) by simp
    next
      case False
      then have e: "e = Some (k, v)" using Cons.prems(1) by auto
      have "od_get (fold put_entry es (put_entry e d)) k \<noteq> None"
        using put_entries_dom [of es "put_entry e d" k] e by simp
      then obtain u where u: "od_get (fold put_entry es (put_entry e d)) k = Some u" by blast
      then have "od_get (put_entry e d) k = Some u"
        using put_entries_value [OF u] False by blast
      then show ?thesis using u e by simp
    qed
  qed simp
qed

lemma put_entries_Nil: "fold put_entry es d = [] \<Longrightarrow> Some (k, v) \<notin> set es"
  using put_entries_dom [of es d k] by (auto simp: od_defs)

lemma od_get_map_snd: "od_get (map (\<lambda>(k, b). (k, f b)) d) k = map_option f (od_get d k)"
  by (simp add: od_get_def map_of_map)

section \<open>Widths\<close>

text \<open>Every width a non-routed block holds satisfies \<open>P\<close>; and none of its entries is null.\<close>

definition widths_within :: "(int \<Rightarrow> bool) \<Rightarrow> non_routed \<Rightarrow> bool" where
  "widths_within P nr \<longleftrightarrow>
     (\<forall>k. nr_bits nr = Some (Some k) \<longrightarrow> P k) \<and>
     (\<forall>e \<in> set (nr_layer_bits nr). P (snd e)) \<and>
     (\<forall>e \<in> set (nr_layers nr). \<forall>sp k. snd e = Some sp \<longrightarrow> ls_bits sp = Some (Some k) \<longrightarrow> P k)"

definition no_null_widths :: "non_routed \<Rightarrow> bool" where
  "no_null_widths nr \<longleftrightarrow>
     nr_bits nr \<noteq> Some None \<and>
     list_all (\<lambda>e. case snd e of None \<Rightarrow> True | Some sp \<Rightarrow> ls_bits sp \<noteq> Some None) (nr_layers nr)"

lemma widths_within_mono: "widths_within P nr \<Longrightarrow> (\<And>k. P k \<Longrightarrow> Q k) \<Longrightarrow> widths_within Q nr"
  unfolding widths_within_def by blast

lemma non_routed_ok_within: "non_routed_ok nr \<Longrightarrow> widths_within bits_allowed nr"
  unfolding non_routed_ok_def widths_within_def by (fastforce simp: list_all_iff split: option.splits)

lemma non_routed_ok_layers: "non_routed_ok nr \<Longrightarrow> (p, None) \<notin> set (nr_layers nr)"
  unfolding non_routed_ok_def by (fastforce simp: list_all_iff)

lemma minimax_coverage_ok: "non_routed_ok derive_minimax_non_routed_coverage \<and> no_null_widths derive_minimax_non_routed_coverage"
  by code_simp

lemma ledger_layers_bound: "od_get (ledger_layers ts) k = Some b \<Longrightarrow> 2 \<le> b \<and> b \<le> 8"
proof -
  assume "od_get (ledger_layers ts) k = Some b"
  then have "Some (k, b) \<in> set (map ledger_entry ts) \<or> od_get [] k = Some b"
    unfolding ledger_layers_def by (rule put_entries_value)
  then show ?thesis
    by (auto simp: ledger_entry_def ledger_bits_def od_get_def split: option.splits if_splits)
qed

lemma with_fused_bound:
  assumes "\<And>k b. od_get d k = Some b \<Longrightarrow> 2 \<le> b \<and> b \<le> 8" "od_get (with_fused d) k = Some b"
  shows "2 \<le> b \<and> b \<le> 8"
proof -
  have "Some (k, b) \<in> set (map (fused_entry d) (od_keys d)) \<or> od_get d k = Some b"
    using assms(2) unfolding with_fused_def by (rule put_entries_value)
  then show ?thesis
    by (auto simp: fused_entry_def split: option.splits dest!: assms(1))
qed

lemma od_ok_put_entries: "od_ok d \<Longrightarrow> od_ok (fold put_entry es d)"
proof (induction es arbitrary: d)
  case (Cons e es)
  then show ?case by (cases e) auto
qed simp

lemma derived_within:
  assumes "derive_non_routed_from_tensor_storage ts = Some nr"
  shows "widths_within (\<lambda>k. 2 \<le> k \<and> k \<le> 8) nr \<and> no_null_widths nr \<and> (\<forall>p. (p, None) \<notin> set (nr_layers nr))"
proof -
  let ?d = "with_fused (ledger_layers ts)"
  have ok: "od_ok ?d" unfolding with_fused_def ledger_layers_def by (intro od_ok_put_entries od_ok_Nil)
  have "2 \<le> b \<and> b \<le> 8" if "(k, b) \<in> set ?d" for k b
    using with_fused_bound [OF ledger_layers_bound od_get_in [OF ok that]] .
  then show ?thesis
    using assms unfolding derive_non_routed_from_tensor_storage_def
    by (auto simp: widths_within_def no_null_widths_def list_all_iff split: if_splits)
qed

text \<open>Where the non-routed block of an accepted config comes from.\<close>

lemma init_checks:
  assumes "exl3_init rc = Inr cfg"
  shows "bits_allowed (ec_bits cfg)" "\<forall>e \<in> set (ec_layer_bits cfg). bits_allowed (snd e)"
    "ec_non_routed cfg = rc_non_routed rc" "\<forall>nr. rc_non_routed rc = Some nr \<longrightarrow> non_routed_ok nr"
    "ec_ngram cfg = rc_ngram rc" "\<forall>ng. rc_ngram rc = Some ng \<longrightarrow> ngram_ok ng"
  using assms unfolding exl3_init_def
  by (auto simp: bind_res_Inr list_ex_iff split: if_splits option.splits)

lemma from_config_cases:
  assumes "from_config sidecar minimax rc = Inr cfg"
  obtains cfg0 where "exl3_init rc = Inr cfg0" "ec_bits cfg = ec_bits cfg0" "ec_layer_bits cfg = ec_layer_bits cfg0"
    "ec_non_routed cfg =
       (case rc_non_routed rc of
          Some nr \<Rightarrow> Some nr
        | None \<Rightarrow>
            (case derive_non_routed_from_tensor_storage (if rc_storage rc = [] then sidecar else rc_storage rc) of
               Some nr \<Rightarrow> Some nr
             | None \<Rightarrow> if minimax then Some derive_minimax_non_routed_coverage else None))"
proof -
  obtain c where c: "exl3_init rc = Inr c" using assms unfolding from_config_def map_ok_def by (auto simp: bind_res_Inr)
  show thesis
    using assms init_checks(3) [OF c] c that [OF c]
    by (cases "rc_non_routed rc") (auto simp: from_config_def map_ok_def Let_def split: option.splits if_splits)
qed

lemma bits_for_prefix_within:
  assumes "bits_allowed (ec_bits cfg)" "\<forall>e \<in> set (ec_layer_bits cfg). bits_allowed (snd e)"
  shows "bits_allowed (bits_for_prefix cfg p)"
proof -
  have "bits_allowed k" if "od_get (ec_layer_bits cfg) q = Some k" for q k
    using assms(2) od_get_Some_in [OF that] by auto
  then show ?thesis using assms(1) by (auto simp: bits_for_prefix_def Let_def split: option.splits)
qed

lemma bits_for_non_routed_within:
  assumes "P (ec_bits cfg)" "\<And>nr. ec_non_routed cfg = Some nr \<Longrightarrow> widths_within P nr"
    and "bits_for_non_routed cfg p = Inr k"
  shows "P k"
proof (cases "ec_non_routed cfg")
  case None
  then show ?thesis using assms(1,3) by (simp add: bits_for_non_routed_def)
next
  case (Some nr)
  have w: "widths_within P nr" using assms(2) Some .
  have l: "P b" if "od_get (nr_layers nr) q = Some (Some sp)" "ls_bits sp = Some (Some b)" for q sp b
    using w od_get_Some_in [OF that(1)] that(2) unfolding widths_within_def by fastforce
  have m: "P b" if "od_get (nr_layer_bits nr) q = Some b" for q b
    using w od_get_Some_in [OF that] unfolding widths_within_def by fastforce
  have n: "P b" if "nr_bits nr = Some (Some b)" for b using w that unfolding widths_within_def by blast
  show ?thesis
    using assms(1,3) Some
    by (auto simp: bits_for_non_routed_def bits_entry_def Let_def intro: l m n split: option.splits)
qed

lemma bits_for_non_routed_ok:
  assumes "\<And>nr. ec_non_routed cfg = Some nr \<Longrightarrow> no_null_widths nr \<and> (\<forall>p. (p, None) \<notin> set (nr_layers nr))"
  shows "is_ok (bits_for_non_routed cfg p)"
proof (cases "ec_non_routed cfg")
  case (Some nr)
  have n: "nr_bits nr \<noteq> Some None" using assms [OF Some] by (simp add: no_null_widths_def)
  have l: "\<exists>sp. e = Some sp \<and> ls_bits sp \<noteq> Some None" if "od_get (nr_layers nr) q = Some e" for q e
    using assms [OF Some] od_get_Some_in [OF that]
    by (cases e) (fastforce simp: no_null_widths_def list_all_iff)+
  show ?thesis
    using n l [of p] Some
    by (auto simp: bits_for_non_routed_def bits_entry_def Let_def split: option.splits)
qed (simp add: bits_for_non_routed_def)

section \<open>What the ledger covers\<close>

definition ledger_covers :: "(string \<times> storage_spec option) list \<Rightarrow> string \<Rightarrow> bool" where
  "ledger_covers ts p \<longleftrightarrow>
     (\<exists>pre ss b. (pre, Some ss) \<in> set ts \<and> ss_format ss = ''exl3'' \<and> \<not> contains ''.experts.'' pre \<and>
       ss_bits ss = Some b \<and> 2 \<le> b \<and> b \<le> 8 \<and> ledger_key pre = p)"

lemma ledger_entry_iff:
  "ledger_entry e = Some (p, b) \<longleftrightarrow>
     (\<exists>pre ss. e = (pre, Some ss) \<and> ss_format ss = ''exl3'' \<and> \<not> contains ''.experts.'' pre \<and>
       ss_bits ss = Some b \<and> 2 \<le> b \<and> b \<le> 8 \<and> ledger_key pre = p)"
  by (cases e) (auto simp: ledger_entry_def ledger_bits_def split: option.splits if_splits)

lemma ledger_covers_iff: "ledger_covers ts p \<longleftrightarrow> (\<exists>b. Some (p, b) \<in> set (map ledger_entry ts))"
proof
  assume "ledger_covers ts p"
  then obtain pre ss b where "(pre, Some ss) \<in> set ts" "ledger_entry (pre, Some ss) = Some (p, b)"
    unfolding ledger_covers_def ledger_entry_iff by blast
  then show "\<exists>b. Some (p, b) \<in> set (map ledger_entry ts)" by (metis image_eqI list.set_map)
next
  assume "\<exists>b. Some (p, b) \<in> set (map ledger_entry ts)"
  then obtain b e where e: "e \<in> set ts" "ledger_entry e = Some (p, b)"
    unfolding set_map image_iff by metis
  then show "ledger_covers ts p" unfolding ledger_covers_def ledger_entry_iff by blast
qed

lemma ledger_layers_dom: "od_get (ledger_layers ts) p \<noteq> None \<longleftrightarrow> ledger_covers ts p"
  unfolding ledger_layers_def put_entries_dom ledger_covers_iff by (simp add: od_get_def)

lemma qkv_base_iff: "qkv_base key = Some base \<longleftrightarrow> key = base @ ''.q_proj''"
  by (auto simp: qkv_base_def ends_with_iff)

lemma fused_entry_iff:
  "fused_entry d key = Some (f, b) \<longleftrightarrow>
     (\<exists>base q k v. key = base @ ''.q_proj'' \<and> f = base @ ''.qkv_proj'' \<and> b = max (max q k) v \<and>
       od_get d (base @ ''.q_proj'') = Some q \<and> od_get d (base @ ''.k_proj'') = Some k \<and>
       od_get d (base @ ''.v_proj'') = Some v)"
proof (cases "qkv_base key")
  case None
  then show ?thesis using qkv_base_iff [of key] by (auto simp: fused_entry_def)
next
  case (Some base)
  then show ?thesis using Some [unfolded qkv_base_iff] by (auto simp: fused_entry_def split: option.splits)
qed

lemma fused_in_iff:
  "Some (f, b) \<in> set (map (fused_entry d) (od_keys d)) \<longleftrightarrow>
     (\<exists>base q k v. f = base @ ''.qkv_proj'' \<and> b = max (max q k) v \<and>
       od_get d (base @ ''.q_proj'') = Some q \<and> od_get d (base @ ''.k_proj'') = Some k \<and>
       od_get d (base @ ''.v_proj'') = Some v)"
proof -
  have k: "x \<in> set (od_keys d)" if "od_get d x = Some y" for x y using that od_get_iff [of d x] by auto
  have "Some (f, b) \<in> set (map (fused_entry d) (od_keys d)) \<longleftrightarrow> (\<exists>x \<in> set (od_keys d). fused_entry d x = Some (f, b))"
    unfolding set_map image_iff by metis
  then show ?thesis unfolding fused_entry_iff using k by blast
qed

lemma with_fused_dom:
  "od_get (with_fused d) p \<noteq> None \<longleftrightarrow>
     od_get d p \<noteq> None \<or>
     (\<exists>base. p = base @ ''.qkv_proj'' \<and> od_get d (base @ ''.q_proj'') \<noteq> None \<and>
        od_get d (base @ ''.k_proj'') \<noteq> None \<and> od_get d (base @ ''.v_proj'') \<noteq> None)"
  unfolding with_fused_def put_entries_dom fused_in_iff by blast

lemma with_fused_other:
  assumes "\<not> ends_with ''.qkv_proj'' p"
  shows "od_get (with_fused d) p = od_get d p"
proof -
  have no: "Some (p, b) \<notin> set (map (fused_entry d) (od_keys d))" for b
    using assms unfolding fused_in_iff ends_with_iff by blast
  show ?thesis
  proof (cases "od_get (with_fused d) p")
    case None
    then show ?thesis using with_fused_dom [of d p] by metis
  next
    case (Some b)
    then have "od_get d p = Some b"
      using no put_entries_value unfolding with_fused_def by blast
    then show ?thesis using Some by simp
  qed
qed

lemma with_fused_qkv:
  assumes "od_get d (base @ ''.q_proj'') = Some q" "od_get d (base @ ''.k_proj'') = Some k"
    "od_get d (base @ ''.v_proj'') = Some v"
  shows "od_get (with_fused d) (base @ ''.qkv_proj'') = Some (max (max q k) v)"
  unfolding with_fused_def
proof (rule put_entries_unique)
  show "Some (base @ ''.qkv_proj'', max (max q k) v) \<in> set (map (fused_entry d) (od_keys d))"
    using assms unfolding fused_in_iff by blast
  show "b = max (max q k) v" if "Some (base @ ''.qkv_proj'', b) \<in> set (map (fused_entry d) (od_keys d))" for b
    using that assms unfolding fused_in_iff by auto
qed

text \<open>The lookups of a config whose coverage is derived from a ledger.\<close>

lemma derived_lookups:
  assumes "from_config sidecar False rc = Inr cfg" "rc_non_routed rc = None"
    and "ts = (if rc_storage rc = [] then sidecar else rc_storage rc)"
  shows "matches_non_routed_exl3 cfg p \<longleftrightarrow> od_get (with_fused (ledger_layers ts)) p \<noteq> None"
    and "od_get (with_fused (ledger_layers ts)) p = Some b \<Longrightarrow> bits_for_non_routed cfg p = Inr b"
proof -
  have nr: "ec_non_routed cfg = derive_non_routed_from_tensor_storage ts"
    by (rule from_config_cases [OF assms(1)]) (simp add: assms split: option.splits)
  show "matches_non_routed_exl3 cfg p \<longleftrightarrow> od_get (with_fused (ledger_layers ts)) p \<noteq> None"
  proof (cases "ledger_layers ts = []")
    case True
    then show ?thesis
      by (simp add: nr matches_non_routed_exl3_def derive_non_routed_from_tensor_storage_def with_fused_def od_defs)
  next
    case False
    then show ?thesis
      by (simp add: nr matches_non_routed_exl3_def derive_non_routed_from_tensor_storage_def od_get_map_snd)
  qed
  show "bits_for_non_routed cfg p = Inr b" if "od_get (with_fused (ledger_layers ts)) p = Some b"
  proof (cases "ledger_layers ts = []")
    case True
    then show ?thesis using that by (simp add: with_fused_def od_defs)
  next
    case False
    then show ?thesis using that
      by (simp add: nr bits_for_non_routed_def derive_non_routed_from_tensor_storage_def od_get_map_snd
          bits_entry_def Let_def)
  qed
qed

section \<open>Properties\<close>

text \<open>C26: in an accepted config, the width of every routed module is one of 2 to 6; with a declared
non-routed block the width of every other module is one of them too and its lookup fails only where an
entry is null, and with derived coverage every lookup succeeds with a width between 2 and 8.\<close>

theorem config_widths:
  assumes "from_config sidecar minimax rc = Inr cfg"
  shows "bits_allowed (bits_for_prefix cfg p) \<and>
    (case rc_non_routed rc of
       Some nr \<Rightarrow> (\<forall>k. bits_for_non_routed cfg p = Inr k \<longrightarrow> bits_allowed k) \<and>
         (no_null_widths nr \<longrightarrow> is_ok (bits_for_non_routed cfg p))
     | None \<Rightarrow> \<exists>k. bits_for_non_routed cfg p = Inr k \<and> 2 \<le> k \<and> k \<le> 8)"
proof -
  obtain c where c: "exl3_init rc = Inr c" "ec_bits cfg = ec_bits c" "ec_layer_bits cfg = ec_layer_bits c"
    "ec_non_routed cfg =
       (case rc_non_routed rc of
          Some nr \<Rightarrow> Some nr
        | None \<Rightarrow>
            (case derive_non_routed_from_tensor_storage (if rc_storage rc = [] then sidecar else rc_storage rc) of
               Some nr \<Rightarrow> Some nr
             | None \<Rightarrow> if minimax then Some derive_minimax_non_routed_coverage else None))"
    using from_config_cases [OF assms] by metis
  note i = init_checks [OF c(1)]
  have b: "bits_allowed (ec_bits cfg)" and r: "bits_allowed (bits_for_prefix cfg p)"
    using i(1,2) c(2,3) bits_for_prefix_within [of cfg p] by simp_all
  have wide: "2 \<le> k \<and> k \<le> 8" if "bits_allowed k" for k using that by (auto simp: bits_allowed_def)
  show ?thesis
  proof (cases "rc_non_routed rc")
    case (Some nr)
    have "widths_within bits_allowed nr" "\<forall>q. (q, None) \<notin> set (nr_layers nr)"
      using i(4) Some by (auto intro: non_routed_ok_within dest: non_routed_ok_layers)
    then show ?thesis
      using r b c(4) Some bits_for_non_routed_within [of bits_allowed cfg p] bits_for_non_routed_ok [of cfg p]
      by auto
  next
    case None
    have nr: "widths_within (\<lambda>k. 2 \<le> k \<and> k \<le> 8) nr \<and> no_null_widths nr \<and> (\<forall>q. (q, None) \<notin> set (nr_layers nr))"
      if "ec_non_routed cfg = Some nr" for nr
      using that c(4) None derived_within minimax_coverage_ok non_routed_ok_layers
        widths_within_mono [OF non_routed_ok_within wide]
      by (auto split: option.splits if_splits)
    have "is_ok (bits_for_non_routed cfg p)" using nr by (blast intro: bits_for_non_routed_ok)
    then obtain k where "bits_for_non_routed cfg p = Inr k" by (auto simp: is_ok_iff)
    then show ?thesis
      using None r bits_for_non_routed_within [of "\<lambda>k. 2 \<le> k \<and> k \<le> 8" cfg p k] nr wide [OF b] by auto
  qed
qed

definition sample_ledger :: "(string \<times> storage_spec option) list" where
  "sample_ledger =
     [(''backbone.layers.0.q_proj'', Some \<lparr>ss_format = ''exl3'', ss_bits = Some 4, ss_mul1 = False\<rparr>),
      (''backbone.layers.0.k_proj'', Some \<lparr>ss_format = ''exl3'', ss_bits = Some 8, ss_mul1 = True\<rparr>),
      (''backbone.layers.0.v_proj'', Some \<lparr>ss_format = ''exl3'', ss_bits = Some 3, ss_mul1 = False\<rparr>),
      (''backbone.layers.0.experts.7.up_proj'', Some \<lparr>ss_format = ''exl3'', ss_bits = Some 3, ss_mul1 = False\<rparr>),
      (''lm_head'', Some \<lparr>ss_format = ''bf16'', ss_bits = None, ss_mul1 = False\<rparr>)]"

definition sample_config :: raw_config where
  "sample_config =
     \<lparr>rc_bits = 4, rc_codebook = ''mcg'', rc_layer_bits = [(KStr ''3'', 2)], rc_non_routed = None, rc_ngram = None,
      rc_storage = sample_ledger, rc_dtype_policy = '''', rc_mtp_experts = ''exl3'', rc_mtp_start = None\<rparr>"

lemma sample_config_ok: "is_ok (from_config [] False sample_config)"
  by code_simp

lemma config_widths_witness:
  "\<exists>cfg k. from_config [] False sample_config = Inr cfg \<and> bits_allowed (bits_for_prefix cfg ''model.layers.3.mlp'') \<and>
     bits_for_non_routed cfg ''model.layers.0.qkv_proj'' = Inr k \<and> 2 \<le> k \<and> k \<le> 8"
proof -
  obtain cfg where c: "from_config [] False sample_config = Inr cfg" using sample_config_ok by (auto simp: is_ok_iff)
  have n: "rc_non_routed sample_config = None" by (simp add: sample_config_def)
  show ?thesis
    using config_widths [OF c, of "''model.layers.3.mlp''"] config_widths [OF c, of "''model.layers.0.qkv_proj''"] c n
    by auto
qed

text \<open>Without a declared block, the covered modules are those of the ledger: a module is served by the
trellis linear method exactly when the ledger has it as a trellis tensor of 2 to 8 bits outside the routed
experts (under its renamed path), or when it is the fused projection of three such modules.  An unambiguous
ledger entry gives the module its width, and a fused projection has the largest width of its three.\<close>

theorem ledger_coverage:
  assumes "from_config sidecar False rc = Inr cfg" and "rc_non_routed rc = None"
    and "ts = (if rc_storage rc = [] then sidecar else rc_storage rc)"
  shows "(matches_non_routed_exl3 cfg p \<longleftrightarrow>
      ledger_covers ts p \<or>
      (\<exists>base. p = base @ ''.qkv_proj'' \<and> ledger_covers ts (base @ ''.q_proj'') \<and>
         ledger_covers ts (base @ ''.k_proj'') \<and> ledger_covers ts (base @ ''.v_proj''))) \<and>
    (\<forall>e \<in> set ts. \<forall>b. ledger_entry e = Some (p, b) \<and> \<not> ends_with ''.qkv_proj'' p \<and>
       (\<forall>e' \<in> set ts. \<forall>b'. ledger_entry e' = Some (p, b') \<longrightarrow> b' = b) \<longrightarrow> bits_for_non_routed cfg p = Inr b) \<and>
    (\<forall>base q k v. p = base @ ''.qkv_proj'' \<and> ledger_covers ts (base @ ''.q_proj'') \<and>
       ledger_covers ts (base @ ''.k_proj'') \<and> ledger_covers ts (base @ ''.v_proj'') \<and>
       bits_for_non_routed cfg (base @ ''.q_proj'') = Inr q \<and> bits_for_non_routed cfg (base @ ''.k_proj'') = Inr k \<and>
       bits_for_non_routed cfg (base @ ''.v_proj'') = Inr v \<longrightarrow> bits_for_non_routed cfg p = Inr (max (max q k) v))"
proof (intro conjI ballI allI impI)
  let ?d = "ledger_layers ts"
  note look = derived_lookups [OF assms]
  show "matches_non_routed_exl3 cfg p \<longleftrightarrow>
      ledger_covers ts p \<or>
      (\<exists>base. p = base @ ''.qkv_proj'' \<and> ledger_covers ts (base @ ''.q_proj'') \<and>
         ledger_covers ts (base @ ''.k_proj'') \<and> ledger_covers ts (base @ ''.v_proj''))"
    unfolding look(1) with_fused_dom ledger_layers_dom ..
  show "bits_for_non_routed cfg p = Inr b"
    if e: "e \<in> set ts" "ledger_entry e = Some (p, b) \<and> \<not> ends_with ''.qkv_proj'' p \<and>
       (\<forall>e' \<in> set ts. \<forall>b'. ledger_entry e' = Some (p, b') \<longrightarrow> b' = b)" for e b
  proof -
    have "od_get ?d p = Some b"
      unfolding ledger_layers_def
    proof (rule put_entries_unique)
      show "Some (p, b) \<in> set (map ledger_entry ts)" using e unfolding set_map image_iff by metis
      show "b' = b" if "Some (p, b') \<in> set (map ledger_entry ts)" for b'
        using that e unfolding set_map image_iff by metis
    qed
    moreover have "\<not> ends_with ''.qkv_proj'' p" using e(2) by blast
    ultimately show ?thesis by (intro look(2)) (simp add: with_fused_other)
  qed
  show "bits_for_non_routed cfg p = Inr (max (max q k) v)"
    if c: "p = base @ ''.qkv_proj'' \<and> ledger_covers ts (base @ ''.q_proj'') \<and>
       ledger_covers ts (base @ ''.k_proj'') \<and> ledger_covers ts (base @ ''.v_proj'') \<and>
       bits_for_non_routed cfg (base @ ''.q_proj'') = Inr q \<and> bits_for_non_routed cfg (base @ ''.k_proj'') = Inr k \<and>
       bits_for_non_routed cfg (base @ ''.v_proj'') = Inr v" for base q k v
  proof -
    have w: "od_get ?d (base @ x) = Some n"
      if x: "x = ''.q_proj'' \<or> x = ''.k_proj'' \<or> x = ''.v_proj''" "ledger_covers ts (base @ x)"
        "bits_for_non_routed cfg (base @ x) = Inr n" for x n
    proof -
      obtain m where m: "od_get ?d (base @ x) = Some m" using x(2) ledger_layers_dom by blast
      have "\<not> ends_with ''.qkv_proj'' (base @ x)" using x(1) by (auto simp: ends_with_def)
      then have "bits_for_non_routed cfg (base @ x) = Inr m" using with_fused_other m by (intro look(2)) simp
      then show ?thesis using m x(3) by simp
    qed
    have "od_get (with_fused ?d) (base @ ''.qkv_proj'') = Some (max (max q k) v)"
      using c by (intro with_fused_qkv w) simp_all
    then show ?thesis using c by (intro look(2)) simp
  qed
qed

lemma ledger_coverage_witness:
  "\<exists>cfg. from_config [] False sample_config = Inr cfg \<and> matches_non_routed_exl3 cfg (''model.layers.0'' @ ''.qkv_proj'')"
proof -
  obtain cfg where c: "from_config [] False sample_config = Inr cfg" using sample_config_ok by (auto simp: is_ok_iff)
  have n: "rc_non_routed sample_config = None" by (simp add: sample_config_def)
  have t: "sample_ledger = (if rc_storage sample_config = [] then [] else rc_storage sample_config)"
    by (simp add: sample_config_def sample_ledger_def)
  have "list_all (\<lambda>x. od_get (ledger_layers sample_ledger) (''model.layers.0'' @ x) \<noteq> None) [''.q_proj'', ''.k_proj'', ''.v_proj'']"
    by code_simp
  then have "ledger_covers sample_ledger (''model.layers.0'' @ ''.q_proj'')"
    "ledger_covers sample_ledger (''model.layers.0'' @ ''.k_proj'')"
    "ledger_covers sample_ledger (''model.layers.0'' @ ''.v_proj'')"
    unfolding ledger_layers_dom by simp_all
  then show ?thesis
    using ledger_coverage [OF c n t, of "''model.layers.0'' @ ''.qkv_proj''"] c by blast
qed

text \<open>Matching a module path by suffix is matching by whole components: the components of the suffix are
a tail of the components of the path, so no component is ever cut.\<close>

theorem suffix_match_is_by_component:
  "prefix_has_suffix p s \<longleftrightarrow> suffix (split_on CHR ''.'' s) (split_on CHR ''.'' p)"
proof
  assume "prefix_has_suffix p s"
  then show "suffix (split_on CHR ''.'' s) (split_on CHR ''.'' p)"
    by (auto simp: prefix_has_suffix_iff split_on_append suffix_def)
next
  let ?j = "\<lambda>ws. concat (map ((#) CHR ''.'') ws)"
  assume "suffix (split_on CHR ''.'' s) (split_on CHR ''.'' p)"
  then obtain zs where z: "split_on CHR ''.'' p = zs @ split_on CHR ''.'' s" by (auto simp: suffix_def)
  have "CHR ''.'' # p = ?j zs @ CHR ''.'' # s"
    using arg_cong [OF z, of ?j] by (simp add: join_split_on)
  then show "prefix_has_suffix p s"
    unfolding prefix_has_suffix_iff by (cases zs) auto
qed

text \<open>The failure of a declared delegate is reported once: the first linear layer that needs it
raises, and from then on such layers are served unquantized, as if no delegate were declared.\<close>

theorem delegate_failure_forgotten:
  assumes "load name = Inl e" and "\<not> matches_non_routed_exl3 cfg (remove_prefix ''language_model.'' p)"
    and "ec_dtype_policy cfg \<noteq> ''bf16_as_stored''"
  shows "let ask = get_quant_method mxfp4 (non_routed_delegate (Some name) load build) cfg;
             (first, cache) = ask None Linear_layer p in
         first = Inl RuntimeError \<and> ask cache Linear_layer p = (Inr Unquantized, cache)"
  using assms by (simp add: get_quant_method_def non_routed_delegate_def ask_delegate_def map_ok_def Let_def)

lemma delegate_failure_forgotten_witness:
  "\<exists>cfg. from_config [] False sample_config = Inr cfg \<and>
     (let ask = get_quant_method (\<lambda>_. None) (non_routed_delegate (Some ''fp8'') (\<lambda>_. Inl ValueError :: unit option res)
            (\<lambda>_. Inl ValueError)) cfg;
          (first, cache) = ask None Linear_layer ''model.layers.0.o_proj'' in
      first = Inl RuntimeError \<and> ask cache Linear_layer ''model.layers.0.o_proj'' = (Inr Unquantized, cache))"
proof -
  obtain cfg where c: "from_config [] False sample_config = Inr cfg" using sample_config_ok by (auto simp: is_ok_iff)
  have "case from_config [] False sample_config of Inl _ \<Rightarrow> False
     | Inr cfg \<Rightarrow> \<not> matches_non_routed_exl3 cfg (remove_prefix ''language_model.'' ''model.layers.0.o_proj'') \<and>
         ec_dtype_policy cfg \<noteq> ''bf16_as_stored''"
    by code_simp
  then have m: "\<not> matches_non_routed_exl3 cfg (remove_prefix ''language_model.'' ''model.layers.0.o_proj'')"
    "ec_dtype_policy cfg \<noteq> ''bf16_as_stored''"
    using c by simp_all
  show ?thesis
    using delegate_failure_forgotten [of "\<lambda>_. Inl ValueError :: unit option res" "''fp8''" ValueError, OF refl m] c by blast
qed

end
