(* ===== verification/Ngram_Codec.thy ===== *)
theory Ngram_Codec
  imports Exl3_Config "HOL-Library.Word"
begin

text \<open>
  The row codec of the n-gram embedding table (\<open>src/vllm_exl3/exl3.py\<close>, \<open>ngram_words_per_row\<close> to
  \<open>ngram_dequant_rows_torch\<close>): rows of 16-bit words, the ring bitstream of trellis states, the mul1
  codebook and the decoding of rows in chunks.  Words and indices are exact; the floating-point
  operations of torch are a record of parameters, applied in the order of the code.
\<close>

unbundle bit_operations_syntax

type_synonym row = "16 word list"

text \<open>
  \<open>fo_of_bits\<close> reads a half-precision pattern, \<open>fo_half\<close> rounds to half precision, \<open>fo_mul\<close> and
  \<open>fo_add\<close> are single-precision, \<open>fo_cast\<close> converts to a named type and \<open>fo_trunc\<close> to int64.
\<close>

record 'v float_ops =
  fo_of_bits :: "16 word \<Rightarrow> 'v"
  fo_of_int :: "int \<Rightarrow> 'v"
  fo_mul :: "'v \<Rightarrow> 'v \<Rightarrow> 'v"
  fo_add :: "'v \<Rightarrow> 'v \<Rightarrow> 'v"
  fo_half :: "'v \<Rightarrow> 'v"
  fo_cast :: "string \<Rightarrow> 'v \<Rightarrow> 'v"
  fo_trunc :: "'v \<Rightarrow> int"

section \<open>Definitions\<close>

definition NGRAM_ROW_DIM :: nat where "NGRAM_ROW_DIM = 160"

definition NGRAM_MUL1 :: int where "NGRAM_MUL1 = 0x83DCD12D"

definition ngram_words_per_row :: "nat \<Rightarrow> nat" where
  "ngram_words_per_row bits = 1 + NGRAM_ROW_DIM * bits div 16"

definition fp16_from_bits :: "'v float_ops \<Rightarrow> int \<Rightarrow> 'v" where
  "fp16_from_bits fo bits16 =
     (let s = (if bits16 \<ge> 0x8000 then bits16 - 0x10000 else bits16) in fo_of_bits fo (word_of_int s))"

text \<open>The sum of the four bytes of the low 32 bits of \<open>state * NGRAM_MUL1\<close>.\<close>

definition mul1_bytes :: "int \<Rightarrow> int" where
  "mul1_bytes state =
     (let p = (state * NGRAM_MUL1) AND 0xFFFFFFFF in
      (p AND 0xFF) + (drop_bit 8 p AND 0xFF) + (drop_bit 16 p AND 0xFF) + (drop_bit 24 p AND 0xFF))"

definition ngram_mul1_codebook :: "'v float_ops \<Rightarrow> int \<Rightarrow> 'v" where
  "ngram_mul1_codebook fo state =
     (let h = fo_add fo (fo_of_int fo 1024) (fo_of_int fo (mul1_bytes state)) in
      fo_half fo (fo_add fo (fo_mul fo h (fp16_from_bits fo 0x1EEE)) (fp16_from_bits fo 0xC931)))"

text \<open>The word and the bit that hold stream bit \<open>m\<close> of element \<open>i\<close>.\<close>

definition ring_pos :: "nat \<Rightarrow> nat \<Rightarrow> nat \<Rightarrow> nat" where
  "ring_pos bits i m = nat ((int i - int (m div bits)) mod int NGRAM_ROW_DIM) * bits + m mod bits"

definition ngram_bit_tables :: "nat \<Rightarrow> nat \<Rightarrow> nat \<Rightarrow> nat \<times> nat" where
  "ngram_bit_tables bits i m = (1 + ring_pos bits i m div 16, ring_pos bits i m mod 16)"

definition ngram_state :: "nat \<Rightarrow> row \<Rightarrow> nat \<Rightarrow> int" where
  "ngram_state bits r i =
     (\<Sum>m\<leftarrow>[0..<16]. let (widx, bidx) = ngram_bit_tables bits i m in
        push_bit m (drop_bit bidx (uint (r ! widx)) AND 1))"

definition dequant_row :: "'v float_ops \<Rightarrow> nat \<Rightarrow> 'v list \<Rightarrow> row \<Rightarrow> 'v list" where
  "dequant_row fo bits bias r =
     (let scale = fo_of_bits fo (r ! 0) in
      map (\<lambda>i. fo_half fo (fo_add fo (fo_mul fo (ngram_mul1_codebook fo (ngram_state bits r i)) scale) (bias ! i)))
        [0..<NGRAM_ROW_DIM])"

text \<open>\<open>head_bias\<close> is stored flat, one row of \<open>NGRAM_ROW_DIM\<close> values per head.\<close>

definition bias_row :: "'v list \<Rightarrow> nat \<Rightarrow> 'v list" where
  "bias_row head_bias h = take NGRAM_ROW_DIM (drop (h * NGRAM_ROW_DIM) head_bias)"

definition dequant_chunk :: "'v float_ops \<Rightarrow> nat \<Rightarrow> 'v list \<Rightarrow> row list \<Rightarrow> nat list \<Rightarrow> 'v list list" where
  "dequant_chunk fo bits head_bias rs hs = map2 (\<lambda>r h. dequant_row fo bits (bias_row head_bias h) r) rs hs"

text \<open>The loop over chunks, \<open>range(0, n, chunk)\<close>.\<close>

function dequant_chunks ::
  "'v float_ops \<Rightarrow> nat \<Rightarrow> 'v list \<Rightarrow> nat \<Rightarrow> row list \<Rightarrow> nat list \<Rightarrow> 'v list list"
where
  "dequant_chunks fo bits head_bias chunk rs hs =
     (if rs = [] \<or> chunk = 0 then []
      else dequant_chunk fo bits head_bias (take chunk rs) (take chunk hs)
        @ dequant_chunks fo bits head_bias chunk (drop chunk rs) (drop chunk hs))"
  by pat_completeness auto

termination
  by (relation "measure (\<lambda>(_, _, _, _, rs, _). length rs)") auto

declare dequant_chunks.simps [simp del]

definition ngram_dequant_rows_torch :: "'v float_ops \<Rightarrow> nat \<Rightarrow> 'v list \<Rightarrow> row list \<Rightarrow> nat list \<Rightarrow> 'v list list" where
  "ngram_dequant_rows_torch fo bits head_bias rs hs = dequant_chunks fo bits head_bias 8192 rs hs"

section \<open>Decoders work row by row\<close>

text \<open>
  What a lookup relies on: a decoder gives each row the value it gives the row alone.  The client
  lemma is the expansion of a lookup of distinct ids, \<open>index_select\<close> with the inverse index.
\<close>

locale row_decoder =
  fixes decode :: "row list \<Rightarrow> nat list \<Rightarrow> 'v list list"
    and one :: "row \<Rightarrow> nat \<Rightarrow> 'v list"
  assumes by_rows: "length rs = length hs \<Longrightarrow> decode rs hs = map2 one rs hs"
begin

lemma decode_map: "decode (map f ids) (map g ids) = map (\<lambda>i. one (f i) (g i)) ids"
  by (simp add: by_rows zip_map_map zip_same_conv_map comp_def)

lemma expand_distinct:
  assumes "\<And>i. i \<in> set ids \<Longrightarrow> pos i < length us \<and> us ! pos i = i"
  shows "map ((!) (decode (map f us) (map g us))) (map pos ids) = decode (map f ids) (map g ids)"
  using assms by (simp add: decode_map)

end

lemma dequant_chunks_rows:
  assumes "0 < chunk" "length rs = length hs"
  shows "dequant_chunks fo bits head_bias chunk rs hs = dequant_chunk fo bits head_bias rs hs"
  using assms
proof (induction "length rs" arbitrary: rs hs rule: less_induct)
  case less
  show ?case
  proof (cases "rs = []")
    case False
    have "zip rs hs = zip (take chunk rs) (take chunk hs) @ zip (drop chunk rs) (drop chunk hs)"
      using less.prems(2) by (metis take_zip drop_zip append_take_drop_id)
    moreover have "dequant_chunks fo bits head_bias chunk (drop chunk rs) (drop chunk hs)
        = dequant_chunk fo bits head_bias (drop chunk rs) (drop chunk hs)"
      using less.prems False by (intro less.hyps) (auto intro!: diff_less)
    ultimately show ?thesis
      using False less.prems(1)
      by (simp add: dequant_chunks.simps [of _ _ _ _ rs] dequant_chunk_def)
  qed (use less.prems in \<open>simp add: dequant_chunks.simps dequant_chunk_def\<close>)
qed

interpretation torch_decoder: row_decoder "ngram_dequant_rows_torch fo bits head_bias"
  "\<lambda>r h. dequant_row fo bits (bias_row head_bias h) r"
  by unfold_locales (simp add: ngram_dequant_rows_torch_def dequant_chunks_rows dequant_chunk_def)

section \<open>The ring\<close>

text \<open>Bit \<open>t\<close> of the stream, and the \<open>bits\<close>-wide code at position \<open>i\<close> of the ring.\<close>

definition stream_bit :: "row \<Rightarrow> nat \<Rightarrow> bool" where
  "stream_bit r t = bit (r ! (1 + t div 16)) (t mod 16)"

definition ring_code :: "nat \<Rightarrow> row \<Rightarrow> nat \<Rightarrow> int" where
  "ring_code bits r i = horner_sum of_bool 2 (map (\<lambda>m. stream_bit r (i * bits + m)) [0..<bits])"

lemma sum_push_bits:
  "(\<Sum>m\<leftarrow>[0..<n]. push_bit m (of_bool (P m))) = (horner_sum of_bool 2 (map P [0..<n]) :: int)"
proof (induction n)
  case (Suc n)
  then show ?case by (simp add: horner_sum_append push_bit_eq_mult)
qed simp

lemma ngram_state_bits: "ngram_state bits r i = horner_sum of_bool 2 (map (\<lambda>m. stream_bit r (ring_pos bits i m)) [0..<16])"
proof -
  have "drop_bit b (uint w) AND 1 = of_bool (bit w b)" for b :: nat and w :: "16 word"
    by (simp add: and_one_eq bit_uint_iff bit_iff_odd_drop_bit [symmetric] of_bool_odd_eq_mod_2 [symmetric])
      (use bit_imp_le_length [of w b] in auto)
  then show ?thesis
    unfolding ngram_state_def stream_bit_def sum_push_bits [symmetric] by (simp add: ngram_bit_tables_def)
qed

lemma bit_ngram_state: "bit (ngram_state bits r i) m \<longleftrightarrow> m < 16 \<and> stream_bit r (ring_pos bits i m)"
  unfolding ngram_state_bits bit_horner_sum_bit_iff by auto

lemma bit_ring_code: "bit (ring_code bits r i) m \<longleftrightarrow> m < bits \<and> stream_bit r (i * bits + m)"
  unfolding ring_code_def bit_horner_sum_bit_iff by auto

lemma ring_pos_own: "m < bits \<Longrightarrow> i < NGRAM_ROW_DIM \<Longrightarrow> ring_pos bits i m = i * bits + m"
  by (simp add: ring_pos_def)

lemma ring_pos_previous:
  assumes "0 < bits" "bits \<le> m"
  shows "ring_pos bits i m = ring_pos bits ((i + 159) mod 160) (m - bits)"
proof -
  have d: "m div bits = Suc ((m - bits) div bits)" using assms by (simp add: le_div_geq)
  have "(int i - int (m div bits)) mod 160 = (int ((i + 159) mod 160) - int ((m - bits) div bits)) mod 160"
    unfolding d by (simp add: zmod_int mod_simps) (smt (verit) mod_add_self2)
  moreover have "m mod bits = (m - bits) mod bits" using assms(2) by (simp add: le_mod_geq)
  ultimately show ?thesis by (simp add: ring_pos_def NGRAM_ROW_DIM_def)
qed

lemma ring_pos_bound:
  assumes "0 < bits"
  shows "ring_pos bits i m < 160 * bits"
proof -
  let ?q = "nat ((int i - int (m div bits)) mod int NGRAM_ROW_DIM)"
  have "?q < 160" by (simp add: NGRAM_ROW_DIM_def)
  then have "?q * bits + bits \<le> 160 * bits"
    by (metis Suc_leI add.commute mult_Suc mult_le_mono1)
  moreover have "m mod bits < bits" using assms by simp
  ultimately show ?thesis unfolding ring_pos_def by linarith
qed

section \<open>Properties\<close>

text \<open>The states of a row are the windows of a shift register around a ring: every bit table entry
lies inside the row's words, and the state of an element is its predecessor's (the first element's
predecessor is the last) shifted by the width, with the element's own code in the low bits and
only the low 16 bits kept.\<close>

theorem ring_states_shift:
  assumes "1 \<le> bits" and "i < NGRAM_ROW_DIM"
  shows "(\<forall>m < 16. fst (ngram_bit_tables bits i m) < ngram_words_per_row bits \<and> snd (ngram_bit_tables bits i m) < 16) \<and>
    ngram_state bits r i =
      take_bit 16 (push_bit bits (ngram_state bits r ((i + 159) mod 160)) OR ring_code bits r i)"
proof (intro conjI allI impI)
  fix m :: nat
  assume "m < 16"
  have "ring_pos bits i m div 16 < 10 * bits"
    using ring_pos_bound [of bits i m] assms(1) by (simp add: less_mult_imp_div_less mult.commute mult.left_commute)
  then show "fst (ngram_bit_tables bits i m) < ngram_words_per_row bits"
    by (simp add: ngram_bit_tables_def ngram_words_per_row_def NGRAM_ROW_DIM_def)
  show "snd (ngram_bit_tables bits i m) < 16" by (simp add: ngram_bit_tables_def)
next
  show "ngram_state bits r i =
      take_bit 16 (push_bit bits (ngram_state bits r ((i + 159) mod 160)) OR ring_code bits r i)"
  proof (rule bit_eqI)
    fix m :: nat
    show "bit (ngram_state bits r i) m \<longleftrightarrow>
        bit (take_bit 16 (push_bit bits (ngram_state bits r ((i + 159) mod 160)) OR ring_code bits r i)) m"
      using assms ring_pos_own [of m bits i] ring_pos_previous [of bits m i]
      by (cases "m < bits")
        (auto simp: bit_take_bit_iff bit_or_iff bit_push_bit_iff bit_ngram_state bit_ring_code)
  qed
qed

lemma ring_states_shift_witness:
  "ngram_state 5 (replicate 51 0x1234) 0 =
     take_bit 16 (push_bit 5 (ngram_state 5 (replicate 51 0x1234) ((0 + 159) mod 160)) OR ring_code 5 (replicate 51 0x1234) 0)"
  using ring_states_shift [of 5 0 "replicate 51 0x1234"] by (simp add: NGRAM_ROW_DIM_def)

end
