(* ===== verification/Ngram_Table.thy ===== *)
theory Ngram_Table
  imports Ngram_Codec
begin

text \<open>
  The n-gram embedding layer (\<open>Exl3EmbeddingMethod\<close> and \<open>_NgramDiskTable\<close> in
  \<open>src/vllm_exl3/exl3.py\<close>): its parameters, the loaders of the shards and of the head tensors, the
  checks after loading, and the lookup from the resident table and from the checkpoint's own views.
  The registration of the layer as an opaque operator of torch.compile is left out: the operator
  calls back the lookup modelled here.
\<close>

section \<open>State\<close>

record ngram_method =
  em_bits :: nat
  em_num_shards :: nat
  em_rows :: nat
  em_heads :: nat
  em_words :: nat
  em_sharded :: bool
  em_kernel :: string
  em_table_mode :: string

datatype aux_name = Head_bias | Head_offsets | Head_vocab_sizes | Layer_multipliers

text \<open>\<open>el_views\<close> is there in disk mode only, \<open>el_table\<close> in resident mode only.\<close>

record 'v ngram_layer =
  el_table :: "row list list option"
  el_views :: "row list option list option"
  el_loaded :: "nat set"
  el_aux_loaded :: "aux_name set"
  el_head_bias :: "'v list"
  el_head_offsets :: "int list"
  el_vocab_sizes :: "int list"
  el_multipliers :: "int list"
  el_params :: "string list"
  el_dtype :: string
  el_rows_table :: "row list option"
  el_disk :: "row list list option"
  el_offsets_cpu :: "int list"
  el_offsets_dev :: "int list"
  el_bias_dev :: "'v list"

text \<open>A checkpoint tensor for a shard: a matrix of int16 with its number of columns, or anything else.\<close>

datatype shard_tensor = Int16_matrix nat "row list" | Other_shard

record 'v aux_tensor =
  at_shape :: "nat list"
  at_vals :: "'v list"

definition env_choice :: "environ \<Rightarrow> string \<Rightarrow> string \<Rightarrow> string" where
  "env_choice env name dflt = lower (strip (case env name of None \<Rightarrow> dflt | Some v \<Rightarrow> v))"

text \<open>\<open>__init__\<close>; the numbers are positive by the checks of the config.\<close>

definition ngram_method_init :: "environ \<Rightarrow> ngram_spec \<Rightarrow> ngram_method res" where
  "ngram_method_init env spec =
     (let kernel = env_choice env ''VLLM_EXL3_NGRAM_KERNEL'' ''ext'';
          table_mode = env_choice env ''VLLM_EXL3_NGRAM_TABLE'' ''resident'' in
      if \<not> ng_sharded spec \<and> ng_num_shards spec \<noteq> 1 then Inl ValueError
      else if kernel \<notin> {''ext'', ''torch''} then Inl ValueError
      else if table_mode \<notin> {''resident'', ''disk''} then Inl ValueError
      else Inr \<lparr>em_bits = nat (ng_bits spec), em_num_shards = nat (ng_num_shards spec),
        em_rows = nat (ng_rows_per_shard spec), em_heads = nat (ng_num_heads spec),
        em_words = ngram_words_per_row (nat (ng_bits spec)), em_sharded = ng_sharded spec,
        em_kernel = kernel, em_table_mode = table_mode\<rparr>)"

section \<open>Parameters and loaders\<close>

definition ngram_param_names :: "ngram_method \<Rightarrow> string list" where
  "ngram_param_names m =
     (if em_sharded m then map (\<lambda>i. ''shard_'' @ show_nat i @ ''.trellis'') [0..<em_num_shards m]
      else replicate (em_num_shards m) ''trellis'') @
     [''head_bias'', ''head_offsets'', ''head_vocab_sizes'', ''layer_multipliers'']"

text \<open>\<open>create_weights\<close>: \<open>junk\<close> is what the fresh table holds, \<open>geometry\<close> what \<open>_resolve_tp_geometry\<close> gives.\<close>

definition ngram_create_weights ::
  "'v float_ops \<Rightarrow> ngram_method \<Rightarrow> (nat \<Rightarrow> row list) \<Rightarrow> (int \<times> int) res \<Rightarrow> nat \<Rightarrow> nat list \<Rightarrow> nat \<Rightarrow> string
    \<Rightarrow> 'v ngram_layer res"
where
  "ngram_create_weights fo m junk geometry input_size parts output_size dtype =
     (let total_rows = em_num_shards m * em_rows m; resident = em_table_mode m = ''resident'' in
      if input_size \<noteq> NGRAM_ROW_DIM then Inl ValueError
      else if output_size \<noteq> total_rows \<or> parts \<noteq> [total_rows] then Inl ValueError
      else bind_res geometry (\<lambda>(_, tp_size).
        if tp_size \<noteq> 1 then Inl RuntimeError
        else Inr \<lparr>el_table = (if resident then Some (map junk [0..<em_num_shards m]) else None),
          el_views = (if resident then None else Some (replicate (em_num_shards m) None)),
          el_loaded = {}, el_aux_loaded = {},
          el_head_bias = replicate (em_heads m * NGRAM_ROW_DIM) (fo_of_int fo 0),
          el_head_offsets = replicate (em_heads m) (- 1), el_vocab_sizes = replicate (em_heads m) 0,
          el_multipliers = [], el_params = ngram_param_names m, el_dtype = dtype,
          el_rows_table = None, el_disk = None, el_offsets_cpu = [], el_offsets_dev = [], el_bias_dev = []\<rparr>))"

definition load_ngram_shard :: "ngram_method \<Rightarrow> nat \<Rightarrow> shard_tensor \<Rightarrow> 'v ngram_layer \<Rightarrow> 'v ngram_layer res" where
  "load_ngram_shard m i t el =
     (case t of
        Other_shard \<Rightarrow> Inl ValueError
      | Int16_matrix words rs \<Rightarrow>
          if (length rs, words) \<noteq> (em_rows m, em_words m) then Inl ValueError
          else map_ok (\<lambda>el. el\<lparr>el_loaded := insert i (el_loaded el)\<rparr>)
            (if em_table_mode m = ''disk'' then
               (case el_views el of
                  None \<Rightarrow> Inl RuntimeError
                | Some vs \<Rightarrow> Inr (el\<lparr>el_views := Some (vs[i := Some rs])\<rparr>))
             else Inr (el\<lparr>el_table := map_option (\<lambda>tb. tb[i := rs]) (el_table el)\<rparr>)))"

definition aux_shape :: "ngram_method \<Rightarrow> aux_name \<Rightarrow> nat list" where
  "aux_shape m name = (if name = Head_bias then [em_heads m, NGRAM_ROW_DIM] else [em_heads m])"

definition set_aux :: "'v float_ops \<Rightarrow> aux_name \<Rightarrow> 'v list \<Rightarrow> 'v ngram_layer \<Rightarrow> 'v ngram_layer" where
  "set_aux fo name vals el =
     (case name of
        Head_bias \<Rightarrow> el\<lparr>el_head_bias := map (fo_half fo) vals\<rparr>
      | Head_offsets \<Rightarrow> el\<lparr>el_head_offsets := map (fo_trunc fo) vals\<rparr>
      | Head_vocab_sizes \<Rightarrow> el\<lparr>el_vocab_sizes := map (fo_trunc fo) vals\<rparr>
      | Layer_multipliers \<Rightarrow> el\<lparr>el_multipliers := map (fo_trunc fo) vals\<rparr>)"

definition load_ngram_aux ::
  "'v float_ops \<Rightarrow> ngram_method \<Rightarrow> aux_name \<Rightarrow> 'v aux_tensor \<Rightarrow> 'v ngram_layer \<Rightarrow> 'v ngram_layer res"
where
  "load_ngram_aux fo m name t el =
     (if name \<noteq> Layer_multipliers \<and> at_shape t \<noteq> aux_shape m name then Inl ValueError
      else let el = set_aux fo name (at_vals t) el in Inr (el\<lparr>el_aux_loaded := insert name (el_aux_loaded el)\<rparr>))"

section \<open>After loading\<close>

text \<open>\<open>graph\<close> is the name of the CUDA graph mode with the splitting operators, when vLLM tells.\<close>

definition check_ngram_disk_graph_mode :: "(string \<times> string list) option \<Rightarrow> unit res" where
  "check_ngram_disk_graph_mode graph =
     (case graph of
        None \<Rightarrow> Inr ()
      | Some (name, ops) \<Rightarrow>
          if contains ''FULL'' name then Inl RuntimeError
          else if ops \<noteq> [] \<and> ''vllm::exl3_ngram_lookup_out'' \<notin> set ops then Inl RuntimeError
          else Inr ())"

definition head_layout_ok :: "int list \<Rightarrow> int list \<Rightarrow> int \<Rightarrow> bool" where
  "head_layout_ok offs sizes total_rows \<longleftrightarrow>
     offs ! 0 = 0 \<and>
     list_all (\<lambda>i. offs ! (i + 1) = offs ! i + sizes ! i) [0..<length offs - 1] \<and>
     last offs + last sizes \<le> total_rows"

text \<open>
  \<open>process_weights_after_loading\<close>: \<open>aliased\<close> says whether the first shard's parameter still is the
  table's memory, \<open>ext_has\<close> whether the extension offers the row decoder.
\<close>

definition finish_ngram_tables ::
  "ngram_method \<Rightarrow> (string \<times> string list) option \<Rightarrow> 'v ngram_layer \<Rightarrow> 'v ngram_layer res"
where
  "finish_ngram_tables m graph el =
     (case el_table el of
        Some tb \<Rightarrow> Inr (el\<lparr>el_rows_table := Some (concat tb)\<rparr>)
      | None \<Rightarrow>
          let vs = the (el_views el) in
          if None \<in> set vs then Inl RuntimeError
          else bind_res (check_ngram_disk_graph_mode graph) (\<lambda>_.
            Inr (el\<lparr>el_rows_table := None, el_disk := Some (map the vs), el_offsets_cpu := el_head_offsets el\<rparr>)))"

definition process_ngram_weights ::
  "ngram_method \<Rightarrow> bool \<Rightarrow> bool \<Rightarrow> (string \<times> string list) option \<Rightarrow> 'v ngram_layer
    \<Rightarrow> (ngram_method \<times> 'v ngram_layer) res"
where
  "process_ngram_weights m aliased ext_has graph el =
     (if el_table el = None \<and> el_views el = None then Inr (m, el)
      else if list_ex (\<lambda>i. i \<notin> el_loaded el) [0..<em_num_shards m] then Inl RuntimeError
      else if list_ex (\<lambda>n. n \<notin> el_aux_loaded el) [Head_bias, Head_offsets, Head_vocab_sizes] then Inl RuntimeError
      else if el_table el \<noteq> None \<and> \<not> aliased then Inl RuntimeError
      else if el_head_offsets el = [] then Inl IndexError
      else if \<not> head_layout_ok (el_head_offsets el) (el_vocab_sizes el) (int (em_num_shards m * em_rows m)) then Inl RuntimeError
      else map_ok (\<lambda>el. (if em_kernel m = ''ext'' \<and> \<not> ext_has then m\<lparr>em_kernel := ''torch''\<rparr> else m,
               el\<lparr>el_offsets_dev := el_head_offsets el, el_bias_dev := el_head_bias el\<rparr>))
             (finish_ngram_tables m graph el))"

section \<open>Lookup\<close>

definition index_select :: "'a list \<Rightarrow> int \<Rightarrow> 'a res" where
  "index_select xs i = (if 0 \<le> i \<and> i < int (length xs) then Inr (xs ! nat i) else Inl IndexError)"

text \<open>Python's \<open>xs[i]\<close>, which counts negative indices from the end.\<close>

definition py_index :: "'a list \<Rightarrow> int \<Rightarrow> 'a res" where
  "py_index xs i =
     (if 0 \<le> i \<and> i < int (length xs) then Inr (xs ! nat i)
      else if i < 0 \<and> - int (length xs) \<le> i then Inr (xs ! nat (int (length xs) + i))
      else Inl IndexError)"

text \<open>\<open>out[mask] = rows\<close>.\<close>

fun masked_put :: "bool list \<Rightarrow> 'a list \<Rightarrow> 'a list \<Rightarrow> 'a list" where
  "masked_put (True # ms) (r # rs) (x # xs) = r # masked_put ms rs xs"
| "masked_put (False # ms) rs (x # xs) = x # masked_put ms rs xs"
| "masked_put _ _ xs = xs"

definition unique :: "int list \<Rightarrow> int list" where
  "unique xs = sort (remdups xs)"

definition position :: "'a list \<Rightarrow> 'a \<Rightarrow> nat" where
  "position xs x = length (takeWhile (\<lambda>y. y \<noteq> x) xs)"

text \<open>\<open>_NgramDiskTable.gather\<close>.\<close>

definition gather_shard :: "row list list \<Rightarrow> int \<Rightarrow> int list \<Rightarrow> row list \<Rightarrow> int \<Rightarrow> row list res" where
  "gather_shard views rps uids out s =
     bind_res (py_index views s) (\<lambda>v.
       bind_res (map_res (index_select v) (map (\<lambda>u. u - u div rps * rps) (filter (\<lambda>u. u div rps = s) uids))) (\<lambda>rs.
         Inr (masked_put (map (\<lambda>u. u div rps = s) uids) rs out)))"

definition gather :: "row list list \<Rightarrow> int \<Rightarrow> row \<Rightarrow> int list \<Rightarrow> row list res" where
  "gather views rps junk uids =
     (if length views = 1 then map_res (index_select (views ! 0)) uids
      else fold_res (gather_shard views rps uids) (map (\<lambda>_. junk) uids) (unique (map (\<lambda>u. u div rps) uids)))"

text \<open>\<open>torch.searchsorted(offsets, id, right=True)\<close> counts the offsets up to \<open>id\<close> (they are sorted).\<close>

definition heads_for :: "int list \<Rightarrow> nat \<Rightarrow> int \<Rightarrow> nat" where
  "heads_for offs heads i =
     nat (max 0 (min (int heads - 1) (int (length (filter (\<lambda>x. x \<le> i) offs)) - 1)))"

type_synonym 'v row_dequant = "row list \<Rightarrow> nat \<Rightarrow> nat list \<Rightarrow> 'v list \<Rightarrow> 'v list list"

definition ngram_decode ::
  "'v float_ops \<Rightarrow> 'v row_dequant option \<Rightarrow> ngram_method \<Rightarrow> 'v ngram_layer \<Rightarrow> row list \<Rightarrow> nat list \<Rightarrow> 'v list list"
where
  "ngram_decode fo ext m el packed heads =
     (case ext of
        Some f \<Rightarrow> if em_kernel m = ''ext'' then f packed (em_bits m) heads (el_bias_dev el)
                  else ngram_dequant_rows_torch fo (em_bits m) (el_bias_dev el) packed heads
      | None \<Rightarrow> ngram_dequant_rows_torch fo (em_bits m) (el_bias_dev el) packed heads)"

definition embedding_impl_disk ::
  "'v float_ops \<Rightarrow> 'v row_dequant option \<Rightarrow> row \<Rightarrow> ngram_method \<Rightarrow> 'v ngram_layer \<Rightarrow> row list list \<Rightarrow> int list
    \<Rightarrow> 'v list list res"
where
  "embedding_impl_disk fo ext junk m el views ids =
     (let uids = unique ids; inverse = map (position uids) ids in
      bind_res (gather views (int (em_rows m)) junk uids) (\<lambda>packed.
        let rs = ngram_decode fo ext m el packed (map (heads_for (el_offsets_cpu el) (em_heads m)) uids) in
        Inr (map (map (fo_cast fo (el_dtype el))) (map ((!) rs) inverse))))"

definition embedding_impl ::
  "'v float_ops \<Rightarrow> 'v row_dequant option \<Rightarrow> row \<Rightarrow> ngram_method \<Rightarrow> 'v ngram_layer \<Rightarrow> int list \<Rightarrow> 'v list list res"
where
  "embedding_impl fo ext junk m el ids =
     (case el_disk el of
        Some views \<Rightarrow> embedding_impl_disk fo ext junk m el views ids
      | None \<Rightarrow>
          (case el_rows_table el of
             None \<Rightarrow> Inl RuntimeError
           | Some rs \<Rightarrow>
               bind_res (map_res (index_select rs) ids) (\<lambda>packed.
                 let heads = map (heads_for (el_offsets_dev el) (em_heads m)) ids in
                 Inr (map (map (fo_cast fo (el_dtype el))) (ngram_decode fo ext m el packed heads)))))"

text \<open>The life of a layer: creation, the tensors of the checkpoint in any order, the final checks.\<close>

datatype 'v ngram_event = Shard_tensor nat shard_tensor | Aux_tensor aux_name "'v aux_tensor"

definition ngram_load :: "'v float_ops \<Rightarrow> ngram_method \<Rightarrow> 'v ngram_layer \<Rightarrow> 'v ngram_event \<Rightarrow> 'v ngram_layer res" where
  "ngram_load fo m el ev =
     (case ev of Shard_tensor i t \<Rightarrow> load_ngram_shard m i t el | Aux_tensor name t \<Rightarrow> load_ngram_aux fo m name t el)"

definition ngram_build ::
  "'v float_ops \<Rightarrow> ngram_method \<Rightarrow> (nat \<Rightarrow> row list) \<Rightarrow> (int \<times> int) res \<Rightarrow> nat \<Rightarrow> nat list \<Rightarrow> nat \<Rightarrow> string
    \<Rightarrow> 'v ngram_event list \<Rightarrow> bool \<Rightarrow> bool \<Rightarrow> (string \<times> string list) option \<Rightarrow> (ngram_method \<times> 'v ngram_layer) res"
where
  "ngram_build fo m junk geometry input_size parts output_size dtype evs aliased ext_has graph =
     bind_res (ngram_create_weights fo m junk geometry input_size parts output_size dtype) (\<lambda>el.
       bind_res (fold_res (ngram_load fo m) el evs) (process_ngram_weights m aliased ext_has graph))"

section \<open>Gathering\<close>

lemma index_select_ok: "0 \<le> i \<Longrightarrow> i < int (length xs) \<Longrightarrow> index_select xs i = Inr (xs ! nat i)"
  by (simp add: index_select_def)

lemma map_res_ok: "(\<And>x. x \<in> set xs \<Longrightarrow> f x = Inr (g x)) \<Longrightarrow> map_res f xs = Inr (map g xs)"
  by (induction xs) auto

lemma masked_put_filter:
  "masked_put (map P us) (map h (filter P us)) (map g us) = map (\<lambda>u. if P u then h u else g u) us"
  by (induction us) auto

lemma length_concat_uniform: "\<forall>v \<in> set vs. length v = n \<Longrightarrow> length (concat vs) = length vs * n"
  by (induction vs) auto

lemma nth_concat_uniform:
  assumes "\<forall>v \<in> set vs. length v = n" "k < length vs * n"
  shows "concat vs ! k = vs ! (k div n) ! (k mod n)"
  using assms
proof (induction vs arbitrary: k)
  case (Cons v vs)
  have n: "0 < n" using Cons.prems(2) by (cases n) auto
  show ?case
  proof (cases "k < n")
    case True
    then show ?thesis using Cons.prems(1) by (simp add: nth_append)
  next
    case False
    then have "concat vs ! (k - n) = vs ! ((k - n) div n) ! ((k - n) mod n)"
      using Cons.prems by (intro Cons.IH) auto
    then show ?thesis
      using False n Cons.prems(1) by (simp add: nth_append le_div_geq le_mod_geq)
  qed
qed simp

lemma gather_shard_step:
  assumes len: "\<forall>v \<in> set views. length v = n" and s: "0 \<le> s" "s < int (length views)"
    and us: "\<forall>u \<in> set uids. 0 \<le> u \<and> u < int (length views * n)"
  shows "gather_shard views (int n) uids (map g uids) s =
    Inr (map (\<lambda>u. if u div int n = s then concat views ! nat u else g u) uids)"
proof -
  have row: "index_select (views ! nat s) (u - u div int n * int n) = Inr (concat views ! nat u)"
    if u: "u \<in> set uids" "u div int n = s" for u
  proof -
    have r: "0 \<le> u" "u < int (length views * n)" using us u(1) by auto
    have n: "0 < n" using r by (cases n) auto
    have m: "u - u div int n * int n = u mod int n" by (simp add: minus_div_mult_eq_mod)
    have "length (views ! nat s) = n" using len s by simp
    then have "index_select (views ! nat s) (u mod int n) = Inr (views ! nat s ! nat (u mod int n))"
      using n by (intro index_select_ok) simp_all
    moreover have "concat views ! nat u = views ! (nat u div n) ! (nat u mod n)"
      using len r by (intro nth_concat_uniform) linarith+
    moreover have "nat u div n = nat s" "nat u mod n = nat (u mod int n)"
      using r(1) u(2) by (simp_all add: nat_div_distrib [symmetric] nat_mod_distrib)
        (metis nat_div_distrib nat_int of_nat_0_le_iff)
    ultimately show ?thesis using m by simp
  qed
  have "map_res (index_select (views ! nat s)) (map (\<lambda>u. u - u div int n * int n) (filter (\<lambda>u. u div int n = s) uids))
      = Inr (map (\<lambda>u. concat views ! nat u) (filter (\<lambda>u. u div int n = s) uids))"
    using row by (induction uids) auto
  then show ?thesis
    using s by (simp add: gather_shard_def py_index_def masked_put_filter)
qed

lemma gather_loop:
  assumes "\<forall>v \<in> set views. length v = n" "\<forall>s \<in> set ss. 0 \<le> s \<and> s < int (length views)"
    and "\<forall>u \<in> set uids. 0 \<le> u \<and> u < int (length views * n)"
  shows "fold_res (gather_shard views (int n) uids) (map (\<lambda>u. if u div int n \<in> D then concat views ! nat u else junk) uids) ss =
    Inr (map (\<lambda>u. if u div int n \<in> D \<union> set ss then concat views ! nat u else junk) uids)"
  using assms(2)
proof (induction ss arbitrary: D)
  case (Cons s ss)
  have "gather_shard views (int n) uids (map (\<lambda>u. if u div int n \<in> D then concat views ! nat u else junk) uids) s =
      Inr (map (\<lambda>u. if u div int n \<in> insert s D then concat views ! nat u else junk) uids)"
    using gather_shard_step [OF assms(1) _ _ assms(3), of s "\<lambda>u. if u div int n \<in> D then concat views ! nat u else junk"] Cons.prems
    by (auto intro!: map_cong)
  then show ?case using Cons.IH [of "insert s D"] Cons.prems by simp
qed simp

text \<open>Gathering from the views is selecting from the whole table.\<close>

lemma gather_concat:
  assumes "\<forall>v \<in> set views. length v = n" "\<forall>u \<in> set uids. 0 \<le> u \<and> u < int (length views * n)"
  shows "gather views (int n) junk uids = Inr (map (\<lambda>u. concat views ! nat u) uids)"
proof (cases "length views = 1")
  case True
  then obtain v where v: "views = [v]" by (cases views) auto
  show ?thesis
    using assms unfolding v gather_def by (simp add: map_res_ok [OF index_select_ok])
next
  case False
  let ?ss = "unique (map (\<lambda>u. u div int n) uids)"
  have set: "set ?ss = (\<lambda>u. u div int n) ` set uids" by (simp add: unique_def)
  have "0 \<le> u div int n \<and> u div int n < int (length views)" if "u \<in> set uids" for u
  proof -
    have u: "0 \<le> u" "u < int (length views * n)" using assms(2) that by blast+
    then obtain k where k: "u = int k" by (metis nonneg_int_cases)
    have "k < length views * n" using u(2) unfolding k of_nat_less_iff .
    then have "k div n < length views" by (rule less_mult_imp_div_less)
    moreover have "u div int n = int (k div n)" unfolding k by (rule zdiv_int [symmetric])
    ultimately show ?thesis by simp
  qed
  then have b: "\<forall>s \<in> set ?ss. 0 \<le> s \<and> s < int (length views)" unfolding set by blast
  have "map (\<lambda>u. if u div int n \<in> {} \<union> set ?ss then concat views ! nat u else junk) uids = map (\<lambda>u. concat views ! nat u) uids"
    unfolding set by (rule map_cong) auto
  then show ?thesis
    using False gather_loop [OF assms(1) b assms(2), of "{}" junk] by (simp add: gather_def)
qed

lemma position_nth: "x \<in> set xs \<Longrightarrow> position xs x < length xs \<and> xs ! position xs x = x"
  by (induction xs) (auto simp: position_def)

lemma set_unique [simp]: "set (unique xs) = set xs"
  by (simp add: unique_def)

section \<open>Disk mode refines resident mode\<close>

text \<open>
  A layer in disk mode stands for a resident one: the same head tensors and the same loaded shards,
  and for a loaded shard the kept view is the table's block.
\<close>

definition same_heads :: "'v ngram_layer \<Rightarrow> 'v ngram_layer \<Rightarrow> bool" where
  "same_heads er ed \<longleftrightarrow>
     el_loaded er = el_loaded ed \<and> el_aux_loaded er = el_aux_loaded ed \<and> el_head_bias er = el_head_bias ed \<and>
     el_head_offsets er = el_head_offsets ed \<and> el_vocab_sizes er = el_vocab_sizes ed \<and> el_dtype er = el_dtype ed \<and>
     el_disk er = None"

definition views_stand_for :: "nat \<Rightarrow> nat \<Rightarrow> 'v ngram_layer \<Rightarrow> 'v ngram_layer \<Rightarrow> bool" where
  "views_stand_for n rows er ed \<longleftrightarrow>
     same_heads er ed \<and>
     (\<exists>tb vs. el_table er = Some tb \<and> el_table ed = None \<and> el_views ed = Some vs \<and> length tb = n \<and> length vs = n \<and>
        (\<forall>i < n. i \<in> el_loaded er \<longrightarrow> vs ! i = Some (tb ! i) \<and> length (tb ! i) = rows))"

abbreviation resident :: "ngram_method \<Rightarrow> ngram_method" where
  "resident m \<equiv> m\<lparr>em_table_mode := ''resident''\<rparr>"

abbreviation on_disk :: "ngram_method \<Rightarrow> ngram_method" where
  "on_disk m \<equiv> m\<lparr>em_table_mode := ''disk''\<rparr>"

lemma create_sim:
  "ngram_create_weights fo (resident m) junk geometry input_size parts output_size dtype = Inr er \<Longrightarrow>
     \<exists>ed. ngram_create_weights fo (on_disk m) junk geometry input_size parts output_size dtype = Inr ed \<and>
       views_stand_for (em_num_shards m) (em_rows m) er ed"
  "ngram_create_weights fo (resident m) junk geometry input_size parts output_size dtype = Inl e \<Longrightarrow>
     ngram_create_weights fo (on_disk m) junk geometry input_size parts output_size dtype = Inl e"
  by (cases geometry;
      auto simp: ngram_create_weights_def Let_def views_stand_for_def same_heads_def ngram_param_names_def
        split: if_splits prod.splits)+

lemma nth_update: "j < length xs \<Longrightarrow> xs[i := x] ! j = (if j = i then x else xs ! j)"
  by simp

lemma load_sim:
  assumes "views_stand_for (em_num_shards m) (em_rows m) er ed"
  shows "case ngram_load fo (resident m) er ev of
      Inl e \<Rightarrow> ngram_load fo (on_disk m) ed ev = Inl e
    | Inr er' \<Rightarrow> \<exists>ed'. ngram_load fo (on_disk m) ed ev = Inr ed' \<and> views_stand_for (em_num_shards m) (em_rows m) er' ed'"
proof (cases ev)
  case (Shard_tensor i t)
  obtain tb vs where v: "el_table er = Some tb" "el_table ed = None" "el_views ed = Some vs"
      "length tb = em_num_shards m" "length vs = em_num_shards m"
      "\<forall>i < em_num_shards m. i \<in> el_loaded er \<longrightarrow> vs ! i = Some (tb ! i) \<and> length (tb ! i) = em_rows m"
    using assms unfolding views_stand_for_def by blast
  show ?thesis
    using assms v Shard_tensor
    by (cases t) (auto simp: ngram_load_def load_ngram_shard_def map_ok_def views_stand_for_def same_heads_def nth_update)
next
  case (Aux_tensor name t)
  then show ?thesis
    using assms
    by (cases name) (auto simp: ngram_load_def load_ngram_aux_def set_aux_def aux_shape_def Let_def views_stand_for_def same_heads_def)
qed

lemma loads_sim:
  "views_stand_for (em_num_shards m) (em_rows m) er ed \<Longrightarrow>
   (case fold_res (ngram_load fo (resident m)) er evs of
      Inl e \<Rightarrow> fold_res (ngram_load fo (on_disk m)) ed evs = Inl e
    | Inr er' \<Rightarrow> \<exists>ed'. fold_res (ngram_load fo (on_disk m)) ed evs = Inr ed' \<and> views_stand_for (em_num_shards m) (em_rows m) er' ed')"
proof (induction evs arbitrary: er ed)
  case (Cons ev evs)
  show ?case
  proof (cases "ngram_load fo (resident m) er ev")
    case (Inl e)
    then show ?thesis using load_sim [OF Cons.prems, of fo ev] by simp
  next
    case (Inr er1)
    then obtain ed1 where "ngram_load fo (on_disk m) ed ev = Inr ed1"
        "views_stand_for (em_num_shards m) (em_rows m) er1 ed1"
      using load_sim [OF Cons.prems, of fo ev] by auto
    then show ?thesis using Inr Cons.IH [of er1 ed1] by (simp split: sum.splits)
  qed
qed simp

text \<open>A finished pair: the same method but for the mode, and views that make up the resident table.\<close>

definition finished_pair :: "ngram_method \<Rightarrow> ngram_method \<times> 'v ngram_layer \<Rightarrow> ngram_method \<times> 'v ngram_layer \<Rightarrow> bool" where
  "finished_pair m pr pd \<longleftrightarrow>
     fst pd = on_disk (fst pr) \<and> em_rows (fst pr) = em_rows m \<and>
     el_disk (snd pr) = None \<and> el_dtype (snd pd) = el_dtype (snd pr) \<and>
     el_bias_dev (snd pd) = el_bias_dev (snd pr) \<and> el_offsets_cpu (snd pd) = el_offsets_dev (snd pr) \<and>
     (\<exists>views. el_rows_table (snd pr) = Some (concat views) \<and> el_disk (snd pd) = Some views \<and>
        length views = em_num_shards m \<and> (\<forall>v \<in> set views. length v = em_rows m))"

lemma process_sim:
  assumes "views_stand_for (em_num_shards m) (em_rows m) er ed"
    and "check_ngram_disk_graph_mode graph = Inr ()"
  shows "case process_ngram_weights (resident m) True ext_has graph er of
      Inl e \<Rightarrow> process_ngram_weights (on_disk m) True ext_has graph ed = Inl e
    | Inr pr \<Rightarrow> \<exists>pd. process_ngram_weights (on_disk m) True ext_has graph ed = Inr pd \<and> finished_pair m pr pd"
proof -
  obtain tb vs where v: "el_table er = Some tb" "el_table ed = None" "el_views ed = Some vs"
      "length tb = em_num_shards m" "length vs = em_num_shards m"
      "\<forall>i < em_num_shards m. i \<in> el_loaded er \<longrightarrow> vs ! i = Some (tb ! i) \<and> length (tb ! i) = em_rows m"
    and h: "same_heads er ed"
    using assms unfolding views_stand_for_def by blast
  show ?thesis
  proof (cases "list_ex (\<lambda>i. i \<notin> el_loaded er) [0..<em_num_shards m]")
    case True
    then show ?thesis using v h by (simp add: process_ngram_weights_def same_heads_def)
  next
    case False
    then have "\<forall>i < em_num_shards m. vs ! i = Some (tb ! i) \<and> length (tb ! i) = em_rows m"
      using v(6) by (simp add: list_ex_iff)
    then have vs: "vs = map Some tb" and len: "\<forall>t \<in> set tb. length t = em_rows m"
      using v(4,5) by (auto intro: nth_equalityI simp: in_set_conv_nth)
    show ?thesis
      using False v(1-4) h assms(2) len
      by (auto simp: process_ngram_weights_def finish_ngram_tables_def same_heads_def vs map_ok_def finished_pair_def comp_def)
  qed
qed

text \<open>Every decoder of a row list that works row by row gives the two modes the same rows.\<close>

lemma lookup_sim:
  assumes p: "finished_pair m (mr, er) (md, ed)"
    and ext: "\<forall>f b hb. ext = Some f \<longrightarrow> (\<exists>one. row_decoder (\<lambda>rs hs. f rs b hs hb) one)"
    and ids: "\<forall>i \<in> set ids. 0 \<le> i \<and> i < int (em_num_shards m * em_rows m)"
  shows "embedding_impl fo ext junk md ed ids = embedding_impl fo ext junk mr er ids \<and>
    is_ok (embedding_impl fo ext junk mr er ids)"
proof -
  obtain views where v: "el_rows_table er = Some (concat views)" "el_disk ed = Some views"
      "length views = em_num_shards m" "\<forall>v \<in> set views. length v = em_rows m"
    and m: "md = on_disk mr" "em_rows mr = em_rows m" "el_disk er = None" "el_dtype ed = el_dtype er"
      "el_bias_dev ed = el_bias_dev er" "el_offsets_cpu ed = el_offsets_dev er"
    using p unfolding finished_pair_def by auto
  let ?dec = "ngram_decode fo ext mr er"
  let ?row = "\<lambda>u. concat views ! nat u"
  let ?head = "heads_for (el_offsets_dev er) (em_heads mr)"
  obtain one where dec: "row_decoder ?dec one"
  proof (cases "\<exists>f. ext = Some f \<and> em_kernel mr = ''ext''")
    case True
    then obtain f where "ext = Some f" "em_kernel mr = ''ext''" by blast
    moreover then obtain one where "row_decoder (\<lambda>rs hs. f rs (em_bits mr) hs (el_bias_dev er)) one"
      using ext by blast
    ultimately show thesis using that [of one] by (simp add: ngram_decode_def [abs_def])
  next
    case False
    then have "?dec = ngram_dequant_rows_torch fo (em_bits mr) (el_bias_dev er)"
      by (auto simp: ngram_decode_def fun_eq_iff split: option.splits)
    then show thesis using that torch_decoder.row_decoder_axioms by metis
  qed
  have same: "ngram_decode fo ext (on_disk mr) ed = ?dec"
    using m by (auto simp: ngram_decode_def fun_eq_iff split: option.splits)
  have len: "length (concat views) = em_num_shards m * em_rows m"
    using length_concat_uniform [OF v(4)] v(3) by simp
  have sel: "map_res (index_select (concat views)) ids = Inr (map ?row ids)"
    using ids len by (intro map_res_ok index_select_ok) (simp_all only:)
  have gat: "gather views (int (em_rows m)) junk (unique ids) = Inr (map ?row (unique ids))"
    using ids v(3,4) by (intro gather_concat) auto
  have expand: "map ((!) (?dec (map ?row (unique ids)) (map ?head (unique ids)))) (map (position (unique ids)) ids)
      = ?dec (map ?row ids) (map ?head ids)"
    by (rule row_decoder.expand_distinct [OF dec]) (simp add: position_nth)
  show ?thesis
    using m v(1,2) sel gat expand
    by (simp add: embedding_impl_def embedding_impl_disk_def same Let_def del: map_map)
qed

section \<open>Properties\<close>


text \<open>Two shards of one row each, one head, and exact integer arithmetic in place of floats.\<close>

definition sample_ops :: "int float_ops" where
  "sample_ops =
     \<lparr>fo_of_bits = uint, fo_of_int = (\<lambda>i. i), fo_mul = (*), fo_add = (+), fo_half = (\<lambda>i. i), fo_cast = (\<lambda>_ i. i),
      fo_trunc = (\<lambda>i. i)\<rparr>"

definition sample_method :: ngram_method where
  "sample_method =
     \<lparr>em_bits = 1, em_num_shards = 2, em_rows = 1, em_heads = 1, em_words = 11, em_sharded = True,
      em_kernel = ''ext'', em_table_mode = ''resident''\<rparr>"

definition sample_events :: "int ngram_event list" where
  "sample_events =
     [Shard_tensor 1 (Int16_matrix 11 [replicate 11 7]), Shard_tensor 0 (Int16_matrix 11 [replicate 11 3]),
      Aux_tensor Head_bias \<lparr>at_shape = [1, 160], at_vals = replicate 160 5\<rparr>,
      Aux_tensor Head_offsets \<lparr>at_shape = [1], at_vals = [0]\<rparr>,
      Aux_tensor Head_vocab_sizes \<lparr>at_shape = [1], at_vals = [2]\<rparr>]"

definition sample_ext :: "int row_dequant option" where
  "sample_ext = Some (\<lambda>rs b hs hb. map2 (\<lambda>r h. [uint (r ! 0) + int h]) rs hs)"

lemma sample_builds:
  "is_ok (ngram_build sample_ops (resident sample_method) (\<lambda>_. []) (Inr (0, 1)) 160 [2] 2 ''float16'' sample_events True
     (sample_ext \<noteq> None) None)"
  by (simp add: ngram_build_def ngram_create_weights_def sample_method_def NGRAM_ROW_DIM_def sample_events_def
      ngram_load_def load_ngram_shard_def load_ngram_aux_def set_aux_def aux_shape_def map_ok_def
      process_ngram_weights_def finish_ngram_tables_def head_layout_ok_def sample_ops_def upt_rec numeral_2_eq_2)


text \<open>
  An id below zero is refused by the resident table, while with more than one shard the disk table reads
  it as Python reads a negative shard index, and serves a row.
\<close>

lemma negative_id_served_from_disk:
  assumes "length va = n" "length vb = n" "0 < n"
  shows "gather [va, vb] (int n) junk [- 1] = Inr [last vb]" "index_select (concat [va, vb]) (- 1) = Inl IndexError"
proof -
  have d: "(- 1) div int n = - 1" using assms(3) by (simp add: div_eq_minus1)
  have "vb ! nat (int n - 1) = last vb" using assms by (cases vb rule: rev_cases) (auto simp: nth_append)
  then show "gather [va, vb] (int n) junk [- 1] = Inr [last vb]"
    using assms by (simp add: gather_def gather_shard_def unique_def d py_index_def index_select_def numeral_2_eq_2)
qed (simp add: index_select_def)

end
