(* ===== verification/Q4kv_Codec.thy ===== *)
theory Q4kv_Codec
  imports Complex_Main Prelude "HOL-Library.Word"
begin

text \<open>
  The 4-bit KV codec (\<open>src/vllm_exl3/minimax_q4kv_reference.py\<close>): e2m1 and e4m3 codes with their
  decoders and the saturating encoder on single-precision patterns, and the packing of a row.  A decoded
  value is exact (a rational, \<open>None\<close> for NaN).  The single-precision operations of torch that round are
  parameters; a single-precision number is its 32-bit pattern.
\<close>

unbundle bit_operations_syntax

section \<open>Decoders\<close>

definition e2m1_decode :: "nat \<Rightarrow> rat" where
  "e2m1_decode nibble =
     (let n = nibble AND 0xF; code = n AND 7;
          mag = (if code = 0 then 0
                 else if code < 2 then of_nat code / 2
                 else 2 ^ (drop_bit 1 code - 1) * (1 + of_nat (code AND 1) / 2)) in
      if n AND 8 \<noteq> 0 then - mag else mag)"

definition e4m3_decode :: "nat \<Rightarrow> rat option" where
  "e4m3_decode byte =
     (let b = byte AND 0xFF; ex = drop_bit 3 b AND 0xF; man = b AND 7;
          val = (if ex = 0 then of_nat man / 2 ^ 9 else (of_nat man + 8) * 2 ^ ex / 2 ^ 10) in
      if b AND 0x7F = 0x7F then None else Some (if b AND 0x80 \<noteq> 0 then - val else val))"

section \<open>Single-precision patterns\<close>

definition f32_exp :: "32 word \<Rightarrow> nat" where
  "f32_exp w = unat (drop_bit 23 w AND 0xFF)"

definition f32_man :: "32 word \<Rightarrow> nat" where
  "f32_man w = unat (w AND 0x7FFFFF)"

definition f32_neg :: "32 word \<Rightarrow> bool" where
  "f32_neg w = bit w 31"

definition f32_nan :: "32 word \<Rightarrow> bool" where
  "f32_nan w \<longleftrightarrow> f32_exp w = 255 \<and> f32_man w \<noteq> 0"

definition f32_abs :: "32 word \<Rightarrow> 32 word" where
  "f32_abs w = w AND 0x7FFFFFFF"

text \<open>The magnitude of a finite pattern.\<close>

definition f32_mag :: "32 word \<Rightarrow> rat" where
  "f32_mag w =
     (if f32_exp w = 0 then of_nat (f32_man w) / 2 ^ 149
      else of_nat (2 ^ 23 + f32_man w) * 2 ^ f32_exp w / 2 ^ 150)"

section \<open>The e4m3 encoder\<close>

definition E4M3_MAX_CODE :: int where "E4M3_MAX_CODE = 0x7E"

definition E4M3_NAN_CODE :: int where "E4M3_NAN_CODE = 0x7F"

text \<open>The candidate of a normal number: exponent and mantissa after rounding to three bits.\<close>

definition round_mantissa :: "int \<Rightarrow> int \<Rightarrow> int \<times> int" where
  "round_mantissa exp_f man =
     (let e8 = exp_f - 120; m3 = drop_bit 20 man; rest = man AND 0xFFFFF;
          round_up = rest > 0x80000 \<or> (rest = 0x80000 \<and> m3 AND 1 = 1);
          m3 = m3 + (if round_up then 1 else 0); carry = (m3 = 8) in
      (e8 + (if carry then 1 else 0), if carry then 0 else m3))"

text \<open>The candidate of a subnormal number, the integer nearest to \<open>ax * 512\<close>.\<close>

definition round_subnormal :: "rat \<Rightarrow> int" where
  "round_subnormal ax =
     (let t = ax * 512; fl = \<lfloor>t\<rfloor>; frac = t - of_int fl;
          inc = frac > 1 / 2 \<or> (frac = 1 / 2 \<and> fl AND 1 = 1) in
      fl + (if inc then 1 else 0))"

definition e4m3_encode_satfinite :: "32 word \<Rightarrow> nat" where
  "e4m3_encode_satfinite v =
     (let ax = (if f32_nan v then 0 else f32_abs v);
          (e8, m3) = round_mantissa (int (f32_exp ax)) (int (f32_man ax));
          normal_code = push_bit 3 e8 OR m3;
          normal_ok = e8 \<ge> 1 \<and> e8 \<le> 15 \<and> \<not> (e8 = 15 \<and> m3 = 7);
          sub_ok = e8 \<le> 0;
          code = (if sub_ok then round_subnormal (f32_mag ax) else normal_code);
          ok = (if sub_ok then sub_ok else normal_ok);
          code = (if ok then code else E4M3_MAX_CODE);
          code = (if f32_nan v then E4M3_NAN_CODE else code) in
      nat ((code OR push_bit 7 (of_bool (f32_neg v))) AND 0xFF))"

section \<open>The e2m1 code\<close>

text \<open>On the magnitude of a quotient; NaN gives 7.\<close>

datatype magnitude = Finite rat | Infinite | Not_a_number

definition e2m1_code :: "magnitude \<Rightarrow> nat" where
  "e2m1_code mag =
     (case mag of
        Not_a_number \<Rightarrow> 7
      | Infinite \<Rightarrow> 7
      | Finite a \<Rightarrow>
          of_bool (a > 1 / 4) + of_bool (a \<ge> 3 / 4) + of_bool (a > 5 / 4) + of_bool (a \<ge> 7 / 4)
          + of_bool (a > 5 / 2) + of_bool (a \<ge> 7 / 2) + of_bool (a > 5))"

section \<open>Rows\<close>

text \<open>
  What torch computes in single precision: rounding to bf16, division, product, all to nearest, and the
  pattern of an exactly representable number.
\<close>

record f32_ops =
  fo_bf16 :: "32 word \<Rightarrow> 32 word"
  fo_div :: "32 word \<Rightarrow> 32 word \<Rightarrow> 32 word"
  fo_mul :: "32 word \<Rightarrow> 32 word \<Rightarrow> 32 word"
  fo_of :: "rat \<Rightarrow> 32 word"

definition f32_magnitude :: "32 word \<Rightarrow> magnitude" where
  "f32_magnitude w =
     (if f32_nan w then Not_a_number else if f32_exp w = 255 then Infinite else Finite (f32_mag w))"

definition f32_value :: "32 word \<Rightarrow> rat" where
  "f32_value w = (if f32_neg w then - f32_mag w else f32_mag w)"

text \<open>The comparison of non-negative, non-NaN patterns is that of the patterns.\<close>

definition f32_max :: "32 word \<Rightarrow> 32 word \<Rightarrow> 32 word" where
  "f32_max a b = (if unat a < unat b then b else a)"

text \<open>Rounding the product towards zero: one pattern back when the rounded product is too large.\<close>

definition rz_rounded_product :: "f32_ops \<Rightarrow> 32 word \<Rightarrow> 32 word \<Rightarrow> 32 word" where
  "rz_rounded_product fo x recip =
     (let p = fo_mul fo x recip in
      if f32_exp p \<noteq> 255 \<and> f32_exp x \<noteq> 255 \<and> f32_exp recip \<noteq> 255 \<and>
         f32_mag x * f32_mag recip < f32_mag p then p - 1 else p)"

definition HEAD_DIM :: nat where "HEAD_DIM = 128"

definition GROUP_SIZE :: nat where "GROUP_SIZE = 16"

fun chunks_of :: "nat \<Rightarrow> nat \<Rightarrow> 'a list \<Rightarrow> 'a list list" where
  "chunks_of 0 n xs = []"
| "chunks_of (Suc k) n xs = take n xs # chunks_of k n (drop n xs)"

definition group_scale :: "f32_ops \<Rightarrow> 32 word list \<Rightarrow> nat" where
  "group_scale fo g =
     (let amax = fold (\<lambda>w a. f32_max a (if f32_nan w then 0 else f32_abs w)) g 0;
          s = f32_max (fo_div fo amax (fo_of fo 6)) (fo_of fo (1 / 2 ^ 9)) in
      e4m3_encode_satfinite s)"

definition nibble_of :: "f32_ops \<Rightarrow> 32 word \<Rightarrow> 32 word \<Rightarrow> nat" where
  "nibble_of fo recip x =
     (let q = rz_rounded_product fo x recip; code = e2m1_code (f32_magnitude (f32_abs q)) in
      if code = 0 then 0 else if f32_neg q then code OR 8 else code)"

definition group_nibbles :: "f32_ops \<Rightarrow> 32 word list \<Rightarrow> nat list" where
  "group_nibbles fo g =
     (let s_value = fo_of fo (the (e4m3_decode (group_scale fo g)));
          recip = fo_div fo (fo_of fo 1) s_value in
      map (nibble_of fo recip) g)"

fun pair_bytes :: "nat list \<Rightarrow> nat list" where
  "pair_bytes (low # high # ns) = (low OR push_bit 4 high) # pair_bytes ns"
| "pair_bytes _ = []"

definition pack_q4_row :: "f32_ops \<Rightarrow> 32 word list \<Rightarrow> (nat list \<times> nat list) res" where
  "pack_q4_row fo x =
     (if length x \<noteq> HEAD_DIM then Inl ValueError
      else let groups = chunks_of 8 GROUP_SIZE (map (fo_bf16 fo) x) in
        Inr (pair_bytes (concat (map (group_nibbles fo) groups)), map (group_scale fo) groups))"

text \<open>The product of two decoded values is exact in single precision.\<close>

definition times_scale :: "rat option \<Rightarrow> rat \<Rightarrow> rat option" where
  "times_scale s v = map_option ((*) v) s"

definition data_values :: "nat list \<Rightarrow> rat list" where
  "data_values ds = concat (map (\<lambda>d. [e2m1_decode (d AND 0xF), e2m1_decode (drop_bit 4 d)]) ds)"

definition scaled_values :: "nat list \<Rightarrow> nat list \<Rightarrow> rat option list" where
  "scaled_values ds ss =
     map2 times_scale (concat (map (\<lambda>s. replicate GROUP_SIZE (e4m3_decode s)) ss)) (data_values ds)"

definition unpack_q4_row :: "nat list \<Rightarrow> nat list \<Rightarrow> rat option list res" where
  "unpack_q4_row ds ss =
     (if length ds \<noteq> 64 \<or> length ss \<noteq> 8 then Inl ValueError else Inr (scaled_values ds ss))"

section \<open>Lemmas on the codes\<close>

lemma e2m1_nearest_finite:
  assumes "0 \<le> a" "k < 8"
  shows "\<bar>a - e2m1_decode (e2m1_code (Finite a))\<bar> \<le> \<bar>a - e2m1_decode k\<bar> \<and>
    (\<bar>a - e2m1_decode (e2m1_code (Finite a))\<bar> = \<bar>a - e2m1_decode k\<bar> \<longrightarrow> k = e2m1_code (Finite a) \<or> even (e2m1_code (Finite a)))"
proof -
  have d: "e2m1_decode 0 = 0" "e2m1_decode 1 = 1/2" "e2m1_decode 2 = 1"  "e2m1_decode 3 = 3/2"
    "e2m1_decode 4 = 2" "e2m1_decode 5 = 3" "e2m1_decode 6 = 4" "e2m1_decode 7 = 6"
    by code_simp+
  have k: "k = 0 \<or> k = 1 \<or> k = 2 \<or> k = 3 \<or> k = 4 \<or> k = 5 \<or> k = 6 \<or> k = 7" using assms(2) by linarith
  consider "a \<le> 1/4" | "1/4 < a" "a < 3/4" | "3/4 \<le> a" "a \<le> 5/4" | "5/4 < a" "a < 7/4" | "7/4 \<le> a" "a \<le> 5/2"
    | "5/2 < a" "a < 7/2" | "7/2 \<le> a" "a \<le> 5" | "5 < a" by linarith
  then show ?thesis
    using assms(1) k by cases (elim disjE; simp add: e2m1_code_def d d [unfolded eval_nat_numeral BitM.simps One_nat_def] abs_if)+
qed

section \<open>The encoder rounds to nearest\<close>

text \<open>The magnitude of the code \<open>c\<close>.\<close>

definition e4m3_mag :: "nat \<Rightarrow> rat" where
  "e4m3_mag c = (if c < 8 then of_nat c / 512 else of_nat (8 + c mod 8) * 2 ^ (c div 8) / 1024)"

lemma and_masks:
  fixes n :: nat
  shows "n AND 7 = n mod 8" "n AND 15 = n mod 16" "n AND 127 = n mod 128" "n AND 255 = n mod 256"
  using take_bit_eq_mask [of 3 n] take_bit_eq_mask [of 4 n] take_bit_eq_mask [of 7 n] take_bit_eq_mask [of 8 n]
  by (simp_all add: mask_eq_exp_minus_1 take_bit_eq_mod)

lemma and_128: "n AND 128 \<noteq> 0 \<longleftrightarrow> odd (n div 128)" for n :: nat
  using and_exp_eq_0_iff_not_bit [of n 7] by (simp add: bit_iff_odd)

lemma e4m3_decode_code:
  assumes "c \<le> 126"
  shows "e4m3_decode c = Some (e4m3_mag c)" "e4m3_decode (c + 128) = Some (- e4m3_mag c)"
proof -
  have d: "(c + 128) div 8 = c div 8 + 16" "c div 8 < 16" using assms by simp_all
  have c: "c mod 256 = c" "(c + 128) mod 256 = c + 128" "c mod 128 = c" "(c + 128) mod 128 = c" "c div 128 = 0"
    "(c + 128) div 128 = 1" "c div 8 mod 16 = c div 8" "(c + 128) div 8 mod 16 = c div 8" "(c + 128) mod 8 = c mod 8"
    using assms d(2) mod_mult_self1 [of c 16 8] unfolding d(1) by simp_all
  have m: "c div 8 = 0 \<longleftrightarrow> c < 8" "c < 8 \<Longrightarrow> c mod 8 = c" by auto
  show "e4m3_decode c = Some (e4m3_mag c)" "e4m3_decode (c + 128) = Some (- e4m3_mag c)"
    unfolding e4m3_decode_def Let_def and_masks and_128 c drop_bit_eq_div
    using assms m by (simp_all add: e4m3_mag_def c add.commute)
qed

lemma e4m3_mag_step: "e4m3_mag c < e4m3_mag (Suc c)"
proof (cases "c < 8")
  case True
  then show ?thesis by (cases "c = 7") (auto simp: e4m3_mag_def)
next
  case False
  show ?thesis
  proof (cases "c mod 8 = 7")
    case True
    then have "Suc c mod 8 = 0" "Suc c div 8 = Suc (c div 8)" by presburger+
    then show ?thesis using False True by (simp add: e4m3_mag_def)
  next
    case no: False
    then have "Suc c mod 8 = Suc (c mod 8)" "Suc c div 8 = c div 8" by presburger+
    then show ?thesis using False by (simp add: e4m3_mag_def divide_strict_right_mono)
  qed
qed

lemma e4m3_mag_strict: "i < j \<Longrightarrow> e4m3_mag i < e4m3_mag j"
  by (rule lift_Suc_mono_less [where f = e4m3_mag, OF e4m3_mag_step])

lemma e4m3_mag_mono: "i \<le> j \<Longrightarrow> e4m3_mag i \<le> e4m3_mag j"
  using e4m3_mag_strict [of i j] by (cases "i = j") auto

text \<open>
  \<open>c\<close> is a correct rounding of \<open>x\<close>: no code is closer, and a different code is as close only when \<open>c\<close> is
  even.
\<close>

definition rounds_to :: "rat \<Rightarrow> nat \<Rightarrow> bool" where
  "rounds_to x c \<longleftrightarrow> c \<le> 126 \<and>
     (\<forall>k \<le> 126. \<bar>x - e4m3_mag c\<bar> \<le> \<bar>x - e4m3_mag k\<bar> \<and> (\<bar>x - e4m3_mag c\<bar> = \<bar>x - e4m3_mag k\<bar> \<longrightarrow> k = c \<or> even c))"

text \<open>Between two neighbours, the nearer one is the correct rounding, the even one in a tie.\<close>

lemma rounds_between:
  assumes c: "c < 126" and x: "e4m3_mag c \<le> x" "x \<le> e4m3_mag (Suc c)"
    and lt: "x - e4m3_mag c < e4m3_mag (Suc c) - x \<Longrightarrow> r = c"
    and gt: "e4m3_mag (Suc c) - x < x - e4m3_mag c \<Longrightarrow> r = Suc c"
    and eq: "x - e4m3_mag c = e4m3_mag (Suc c) - x \<Longrightarrow> r = (if even c then c else Suc c)"
  shows "rounds_to x r"
proof -
  have ends: "r = c \<or> r = Suc c" "r \<le> 126"
    using lt gt eq c by (cases rule: linorder_cases [of "x - e4m3_mag c" "e4m3_mag (Suc c) - x"]; auto)+
  have "\<bar>x - e4m3_mag r\<bar> \<le> \<bar>x - e4m3_mag k\<bar> \<and> (\<bar>x - e4m3_mag r\<bar> = \<bar>x - e4m3_mag k\<bar> \<longrightarrow> k = r \<or> even r)"
    if k: "k \<le> 126" for k
  proof -
    have "e4m3_mag k \<le> e4m3_mag c \<and> (k \<noteq> c \<longrightarrow> e4m3_mag k < e4m3_mag c) \<or>
        e4m3_mag (Suc c) \<le> e4m3_mag k \<and> (k \<noteq> Suc c \<longrightarrow> e4m3_mag (Suc c) < e4m3_mag k)"
      using e4m3_mag_mono [of k c] e4m3_mag_mono [of "Suc c" k] e4m3_mag_strict [of k c] e4m3_mag_strict [of "Suc c" k] c k
      by (cases "k \<le> c") auto
    then show ?thesis
      using x lt gt eq by (cases rule: linorder_cases [of "x - e4m3_mag c" "e4m3_mag (Suc c) - x"]) auto
  qed
  then show ?thesis using ends by (simp add: rounds_to_def)
qed

lemma rounds_saturated: "e4m3_mag 126 \<le> x \<Longrightarrow> rounds_to x 126"
  using e4m3_mag_mono [of _ 126] e4m3_mag_strict [of _ 126] by (fastforce simp: rounds_to_def abs_if)

lemma f32_masks:
  fixes w :: "32 word"
  shows "w AND 0x7FFFFF = take_bit 23 w" "w AND 0xFF = take_bit 8 w" "w AND 0x7FFFFFFF = take_bit 31 w"
  by (simp_all add: take_bit_eq_mask mask_eq_exp_minus_1)

lemma f32_bounds: "f32_man w < 2 ^ 23" "f32_exp w < 2 ^ 8"
  unfolding f32_man_def f32_exp_def f32_masks by (simp_all only: unsigned_take_bit_eq take_bit_nat_less_exp)

lemma f32_abs_fields: "f32_exp (f32_abs w) = f32_exp w" "f32_man (f32_abs w) = f32_man w" "f32_mag (f32_abs w) = f32_mag w"
proof -
  show e: "f32_exp (f32_abs w) = f32_exp w"
    unfolding f32_exp_def f32_abs_def f32_masks
    by (rule arg_cong [where f = unat]) (rule bit_eqI, auto simp: bit_simps)
  show m: "f32_man (f32_abs w) = f32_man w"
    unfolding f32_man_def f32_abs_def f32_masks by simp
  show "f32_mag (f32_abs w) = f32_mag w" unfolding f32_mag_def e m ..
qed

lemma int_masks:
  fixes x :: int
  shows "x AND 1 = x mod 2" "x AND 0xFFFFF = x mod 2 ^ 20"
  using take_bit_eq_mask [of 20 x] by (simp_all add: and_one_eq mask_eq_exp_minus_1 take_bit_eq_mod)

text \<open>Rounding the mantissa adds one to the code, carry included.\<close>

definition rounds_up :: "nat \<Rightarrow> bool" where
  "rounds_up man \<longleftrightarrow> 2 ^ 19 < man mod 2 ^ 20 \<or> man mod 2 ^ 20 = 2 ^ 19 \<and> odd (man div 2 ^ 20)"

lemma round_mantissa_value:
  assumes "man < 2 ^ 23"
  shows "round_mantissa (int ex) (int man) =
    (let m3 = man div 2 ^ 20 + of_bool (rounds_up man) in
     if m3 = 8 then (int ex - 119, 0) else (int ex - 120, int m3))"
proof -
  have m: "drop_bit 20 (int man) = int (man div 2 ^ 20)" "int man AND 0xFFFFF = int (man mod 2 ^ 20)"
    by (simp_all add: int_masks drop_bit_eq_div zdiv_int zmod_int)
  have r: "(0x80000 < int (man mod 2 ^ 20) \<or> int (man mod 2 ^ 20) = 0x80000 \<and> int (man div 2 ^ 20) AND 1 = 1) \<longleftrightarrow> rounds_up man"
    unfolding rounds_up_def int_masks(1) by (simp add: odd_iff_mod_2_eq_one flip: of_nat_mod) presburger
  show ?thesis
    unfolding round_mantissa_def Let_def m r by auto
qed

lemma code_bits: "0 \<le> m \<Longrightarrow> m < 8 \<Longrightarrow> push_bit 3 e OR m = 8 * e + (m :: int)"
proof -
  assume "0 \<le> m" "m < 8"
  then have "take_bit 3 m = m" by (simp add: take_bit_eq_mod)
  then show ?thesis using concat_bit_eq [of 3 m e] by (simp add: concat_bit_def push_bit_eq_mult or.commute)
qed

lemma f32_mag_normal:
  assumes "120 \<le> f32_exp w"
  shows "f32_mag w = (of_nat (8 + f32_man w div 2 ^ 20) * 2 ^ 20 + of_nat (f32_man w mod 2 ^ 20)) * (2 ^ (f32_exp w - 120) / 2 ^ 30)"
proof -
  have "(2 :: rat) ^ f32_exp w = 2 ^ (f32_exp w - 120) * 2 ^ 120" using assms by (metis le_add_diff_inverse2 power_add)
  moreover have "(of_nat (2 ^ 23 + f32_man w) :: rat) = of_nat (8 + f32_man w div 2 ^ 20) * 2 ^ 20 + of_nat (f32_man w mod 2 ^ 20)"
  proof -
    have "2 ^ 23 + f32_man w = (8 + f32_man w div 2 ^ 20) * 2 ^ 20 + f32_man w mod 2 ^ 20"
      using div_mult_mod_eq [of "f32_man w" "2 ^ 20"] by (simp add: algebra_simps)
    then show ?thesis by (metis of_nat_add of_nat_mult of_nat_numeral of_nat_power)
  qed
  ultimately show ?thesis using assms by (simp add: f32_mag_def)
qed

lemma normal_rounds:
  assumes ex: "121 \<le> f32_exp w"
  defines "c \<equiv> 8 * (f32_exp w - 120) + f32_man w div 2 ^ 20"
  shows "rounds_to (f32_mag w) (min (c + of_bool (rounds_up (f32_man w))) 126)"
proof -
  let ?m = "f32_man w div 2 ^ 20" and ?r = "f32_man w mod 2 ^ 20" and ?E = "f32_exp w - 120"
  let ?U = "2 ^ ?E / 2 ^ 30 :: rat"
  have m: "?m < 8" using f32_bounds(1) [of w] by (simp add: less_mult_imp_div_less)
  have U: "0 < ?U" by simp
  have mc: "e4m3_mag c = of_nat (8 + ?m) * (2 ^ 20 * ?U)"
  proof -
    have "c mod 8 = ?m" "c div 8 = ?E" "\<not> c < 8" using m ex by (auto simp: c_def)
    then show ?thesis by (simp add: e4m3_mag_def)
  qed
  have ms: "e4m3_mag (Suc c) = e4m3_mag c + 2 ^ 20 * ?U"
  proof (cases "?m = 7")
    case True
    then have "Suc c mod 8 = 0" "Suc c div 8 = Suc ?E" "\<not> Suc c < 8" using ex by (auto simp: c_def)
    then show ?thesis unfolding mc True by (simp add: e4m3_mag_def)
  next
    case False
    then have "Suc c mod 8 = Suc ?m" "Suc c div 8 = ?E" "\<not> Suc c < 8" using m ex by (auto simp: c_def)
    then show ?thesis unfolding mc by (simp add: e4m3_mag_def algebra_simps)
  qed
  have x: "f32_mag w = e4m3_mag c + of_nat ?r * ?U"
    using f32_mag_normal [of w] ex unfolding mc by (simp add: algebra_simps)
  have par: "even c \<longleftrightarrow> even ?m" by (simp add: c_def)
  have r: "?r < 2 ^ 20" by simp
  have n: "(2 ^ 19 :: rat) = of_nat (2 ^ 19)" by simp
  define A B where "A = of_nat ?r * ?U" and "B = 2 ^ 19 * ?U"
  have cmp: "A < B \<longleftrightarrow> ?r < 2 ^ 19" "B < A \<longleftrightarrow> 2 ^ 19 < ?r" "A = B \<longleftrightarrow> ?r = 2 ^ 19"
    unfolding A_def B_def n using U by (simp_all only: mult_less_cancel_right_pos mult_cancel_right of_nat_less_iff of_nat_eq_iff) auto
  have two: "2 ^ 20 * ?U = 2 * B" by (simp add: B_def)
  have x: "f32_mag w = e4m3_mag c + A" unfolding A_def by (rule x)
  have ms: "e4m3_mag (Suc c) = e4m3_mag c + 2 * B" unfolding ms two ..
  have "(of_nat ?r :: rat) \<le> 2 ^ 20" using r by (metis less_imp_le of_nat_le_iff of_nat_numeral of_nat_power)
  then have top: "A \<le> 2 * B" "0 \<le> A" unfolding two [symmetric] A_def using U by (simp_all add: mult_right_mono)
  show ?thesis
  proof (cases "c < 126")
    case True
    have "rounds_to (f32_mag w) (c + of_bool (rounds_up (f32_man w)))"
    proof (rule rounds_between [OF True])
      show "e4m3_mag c \<le> f32_mag w" "f32_mag w \<le> e4m3_mag (Suc c)" using top unfolding x ms by linarith+
      show "c + of_bool (rounds_up (f32_man w)) = c" if "f32_mag w - e4m3_mag c < e4m3_mag (Suc c) - f32_mag w"
      proof -
        have "A < B" using that unfolding x ms by linarith
        then show ?thesis unfolding cmp(1) by (simp add: rounds_up_def)
      qed
      show "c + of_bool (rounds_up (f32_man w)) = Suc c" if "e4m3_mag (Suc c) - f32_mag w < f32_mag w - e4m3_mag c"
      proof -
        have "B < A" using that unfolding x ms by linarith
        then show ?thesis unfolding cmp(2) by (simp add: rounds_up_def)
      qed
      show "c + of_bool (rounds_up (f32_man w)) = (if even c then c else Suc c)"
        if "f32_mag w - e4m3_mag c = e4m3_mag (Suc c) - f32_mag w"
      proof -
        have "A = B" using that unfolding x ms by linarith
        then show ?thesis unfolding cmp(3) par by (simp add: rounds_up_def)
      qed
    qed
    moreover have "c + of_bool (rounds_up (f32_man w)) \<le> 126" using True by (simp add: of_bool_def)
    ultimately show ?thesis by (simp add: min_def)
  next
    case False
    then show ?thesis using rounds_saturated x top(2) e4m3_mag_mono [of 126 c] by (auto simp: min_def)
  qed
qed

lemma f32_mag_small:
  assumes "f32_exp w \<le> 120"
  shows "0 \<le> f32_mag w" "f32_mag w < 1 / 64"
proof -
  show "0 \<le> f32_mag w" by (simp add: f32_mag_def)
  have m: "(of_nat (f32_man w) :: rat) < 2 ^ 23" using f32_bounds(1) [of w] by (metis of_nat_less_iff of_nat_numeral of_nat_power)
  show "f32_mag w < 1 / 64"
  proof (cases "f32_exp w = 0")
    case True
    then show ?thesis using m by (simp add: f32_mag_def)
  next
    case False
    have "(2 :: rat) ^ f32_exp w \<le> 2 ^ 120" using assms by (intro power_increasing) auto
    then have "of_nat (2 ^ 23 + f32_man w) * (2 :: rat) ^ f32_exp w < 2 ^ 24 * 2 ^ 120"
      using m by (intro mult_less_le_imp_less) simp_all
    then show ?thesis using False by (simp add: f32_mag_def mult.commute)
  qed
qed

lemma subnormal_rounds:
  assumes "0 \<le> x" "x < 1 / 64"
  shows "0 \<le> round_subnormal x" "round_subnormal x \<le> 8" "rounds_to x (nat (round_subnormal x))"
proof -
  define t where "t = x * 512"
  have t: "0 \<le> t" "t < 8" "x = t / 512" using assms by (simp_all add: t_def)
  define c where "c = nat \<lfloor>t\<rfloor>"
  have c: "\<lfloor>t\<rfloor> = int c" "c < 8" using t by (simp_all add: c_def floor_less_iff nat_less_iff)
  have fl: "of_nat c \<le> t" "t < of_nat c + 1" using c(1) floor_correct [of t] by simp_all
  have mag: "e4m3_mag c = of_nat c / 512" "e4m3_mag (Suc c) = (of_nat c + 1) / 512"
    using c(2) by (cases "c = 7"; auto simp: e4m3_mag_def)+
  define inc where "inc \<longleftrightarrow> 1 / 2 < t - of_nat c \<or> t - of_nat c = 1 / 2 \<and> odd c"
  have r: "round_subnormal x = int (c + of_bool inc)"
    unfolding round_subnormal_def Let_def t_def [symmetric] c(1) int_masks(1) inc_def
    by (auto simp: odd_iff_mod_2_eq_one zmod_int [symmetric])
  show "0 \<le> round_subnormal x" "round_subnormal x \<le> 8" using c(2) unfolding r by simp_all
  have "rounds_to x (c + of_bool inc)"
    using c(2) fl unfolding t(3)
    by (intro rounds_between [of c]) (auto simp: mag inc_def field_simps)
  then show "rounds_to x (nat (round_subnormal x))" unfolding r nat_int .
qed

lemma carry_rounds:
  assumes "f32_exp w = 120" "f32_man w div 2 ^ 20 = 7" "rounds_up (f32_man w)"
  shows "rounds_to (f32_mag w) 8"
proof -
  let ?r = "f32_man w mod 2 ^ 20"
  have r: "2 ^ 19 \<le> ?r" "?r < 2 ^ 20" using assms(3) by (auto simp: rounds_up_def)
  have "(2 ^ 19 :: rat) \<le> of_nat ?r" "of_nat ?r < (2 ^ 20 :: rat)"
    using r by (metis of_nat_le_iff of_nat_numeral of_nat_power, metis of_nat_less_iff of_nat_numeral of_nat_power)
  moreover have "f32_mag w = (15 * 2 ^ 20 + of_nat ?r) / 2 ^ 30"
    using f32_mag_normal [of w] assms(1) unfolding assms(2) by simp
  ultimately show ?thesis
    by (intro rounds_between [of 7]) (auto simp: e4m3_mag_def)
qed

lemma sign_bits:
  assumes "0 \<le> c" "c < 128"
  shows "nat ((c OR push_bit 7 (of_bool b)) AND 0xFF) = nat c + (if b then 128 else 0)"
proof -
  have t: "take_bit 7 c = c" using assms by (simp add: take_bit_eq_mod)
  have "c OR push_bit 7 (of_bool b) = 2 ^ 7 * of_bool b + c"
    using concat_bit_eq [of 7 c "of_bool b"] t by (simp add: concat_bit_def push_bit_eq_mult or.commute)
  moreover have "x AND 0xFF = x mod 256" for x :: int
    using take_bit_eq_mask [of 8 x] by (simp add: mask_eq_exp_minus_1 take_bit_eq_mod)
  ultimately show ?thesis using assms by (cases b) (auto simp: nat_add_distrib)
qed

lemma encode_code:
  assumes "\<not> f32_nan w"
  obtains c where "c \<le> 126" "e4m3_encode_satfinite w = c + (if f32_neg w then 128 else 0)"
    "f32_exp w < 255 \<Longrightarrow> rounds_to (f32_mag w) c" "f32_exp w = 255 \<Longrightarrow> c = 126"
proof -
  let ?e = "f32_exp w" and ?man = "f32_man w"
  let ?m3 = "?man div 2 ^ 20 + of_bool (rounds_up ?man)"
  have m3: "?man div 2 ^ 20 < 8" using f32_bounds(1) [of w] by (simp add: less_mult_imp_div_less)
  define e8 m3 where "e8 = (if ?m3 = 8 then int ?e - 119 else int ?e - 120)" and "m3 = (if ?m3 = 8 then 0 else int ?m3)"
  have rm: "round_mantissa (int ?e) (int ?man) = (e8, m3)"
    unfolding round_mantissa_value [OF f32_bounds(1)] Let_def e8_def m3_def by simp
  have b: "0 \<le> m3" "m3 < 8" using m3 by (auto simp: m3_def of_bool_def)
  define code where "code =
     (if e8 \<le> 0 then round_subnormal (f32_mag w)
      else if e8 \<le> 15 \<and> \<not> (e8 = 15 \<and> m3 = 7) then 8 * e8 + m3 else 126)"
  have enc: "e4m3_encode_satfinite w = nat ((code OR push_bit 7 (of_bool (f32_neg w))) AND 0xFF)"
    using assms by (auto simp: e4m3_encode_satfinite_def f32_abs_fields rm code_bits [OF b] Let_def code_def E4M3_MAX_CODE_def)
  have val: "0 \<le> code \<and> code \<le> 126 \<and> (?e < 255 \<longrightarrow> rounds_to (f32_mag w) (nat code)) \<and> (?e = 255 \<longrightarrow> code = 126)"
  proof (cases "121 \<le> ?e")
    case True
    have "code = int (min (8 * (?e - 120) + ?man div 2 ^ 20 + of_bool (rounds_up ?man)) 126)"
      using True m3 unfolding code_def e8_def m3_def by (auto simp: min_def of_nat_diff)
    then show ?thesis using normal_rounds [OF True] by (auto simp: min_def)
  next
    case False
    then have s: "0 \<le> f32_mag w" "f32_mag w < 1 / 64" using f32_mag_small by simp_all
    show ?thesis
    proof (cases "?e = 120 \<and> ?m3 = 8")
      case True
      then have "code = 8" "rounds_up ?man" "?man div 2 ^ 20 = 7" using m3 by (auto simp: code_def e8_def m3_def of_bool_def split: if_splits)
      then show ?thesis using carry_rounds [of w] True by simp
    next
      case no: False
      then have "code = round_subnormal (f32_mag w)" using False by (auto simp: code_def e8_def)
      then show ?thesis using subnormal_rounds [OF s] False by simp
    qed
  qed
  show thesis
    by (rule that [of "nat code"]) (use val sign_bits [of code "f32_neg w"] enc in auto)
qed

text \<open>The codes of the finite bytes.\<close>

lemma finite_byte:
  assumes "k < 256" "e4m3_decode k = Some z"
  shows "\<exists>c \<le> 126. z = e4m3_mag c \<or> z = - e4m3_mag c"
proof -
  consider "k \<le> 126" | "k = 127" | "128 \<le> k" "k \<le> 254" | "k = 255" using assms(1) by linarith
  then show ?thesis
  proof cases
    case 1
    then show ?thesis using assms(2) e4m3_decode_code(1) by auto
  next
    case 3
    then show ?thesis using assms(2) e4m3_decode_code(2) [of "k - 128"] by (intro exI [of _ "k - 128"]) auto
  qed (use assms(2) in \<open>simp_all add: e4m3_decode_def Let_def and_masks\<close>)
qed

lemma e4m3_mag_nonneg: "0 \<le> e4m3_mag c"
  by (simp add: e4m3_mag_def)

lemma f32_mag_nonneg: "0 \<le> f32_mag w"
  by (simp add: f32_mag_def)

lemma rounds_to_signed:
  assumes "rounds_to x c" "0 \<le> x" "k \<le> 126" "z = e4m3_mag k \<or> z = - e4m3_mag k"
  shows "\<bar>x - e4m3_mag c\<bar> \<le> \<bar>x - z\<bar> \<and> (\<bar>x - e4m3_mag c\<bar> = \<bar>x - z\<bar> \<longrightarrow> e4m3_mag c = z \<or> even c)"
  using assms(4)
proof
  assume "z = e4m3_mag k"
  then show ?thesis using assms(1,3) by (auto simp: rounds_to_def)
next
  assume z: "z = - e4m3_mag k"
  have k: "\<bar>x - e4m3_mag c\<bar> \<le> \<bar>x - e4m3_mag k\<bar>" "\<bar>x - e4m3_mag c\<bar> = \<bar>x - e4m3_mag k\<bar> \<longrightarrow> k = c \<or> even c"
    using assms(1,3) by (auto simp: rounds_to_def)
  have "\<bar>x - e4m3_mag k\<bar> \<le> \<bar>x - z\<bar>" using assms(2) e4m3_mag_nonneg [of k] z by linarith
  moreover have "\<bar>x - e4m3_mag k\<bar> < \<bar>x - z\<bar> \<or> e4m3_mag k = 0 \<or> x = 0" using assms(2) e4m3_mag_nonneg [of k] z by linarith
  moreover have "e4m3_mag c = z \<or> even c" if "\<bar>x - e4m3_mag c\<bar> = \<bar>x - z\<bar>" "x = 0"
  proof -
    have "e4m3_mag 0 = 0" by (simp add: e4m3_mag_def)
    then have "\<bar>x - e4m3_mag c\<bar> \<le> 0" using assms(1) that(2) unfolding rounds_to_def by force
    then show ?thesis using that z by auto
  qed
  ultimately show ?thesis using k z by force
qed

section \<open>Properties\<close>

text \<open>C28: the e4m3 encoder rounds correctly, for every single-precision pattern.  A NaN becomes a NaN; an
infinity saturates to 448 with its sign; and the byte of a finite number decodes to a value that no
byte's value is closer to, the byte being even when another value is as close.\<close>

theorem e4m3_encoder_rounds_correctly:
  "(f32_nan w \<longrightarrow> e4m3_decode (e4m3_encode_satfinite w) = None) \<and>
    (f32_exp w = 255 \<and> \<not> f32_nan w \<longrightarrow> e4m3_decode (e4m3_encode_satfinite w) = Some (if f32_neg w then - 448 else 448)) \<and>
    (f32_exp w < 255 \<longrightarrow> (\<exists>y. e4m3_decode (e4m3_encode_satfinite w) = Some y \<and>
       (\<forall>k < 256. \<forall>z. e4m3_decode k = Some z \<longrightarrow>
          \<bar>f32_value w - y\<bar> \<le> \<bar>f32_value w - z\<bar> \<and> (\<bar>f32_value w - y\<bar> = \<bar>f32_value w - z\<bar> \<longrightarrow> y = z \<or> even (e4m3_encode_satfinite w)))))"
proof (cases "f32_nan w")
  case True
  let ?b = "e4m3_encode_satfinite w"
  have "?b = 127 + (if f32_neg w then 128 else 0)"
    unfolding e4m3_encode_satfinite_def Let_def using True sign_bits [of 127 "f32_neg w"]
    by (simp add: E4M3_NAN_CODE_def split: prod.split)
  then show ?thesis using True by (auto simp: e4m3_decode_def Let_def and_masks f32_nan_def)
next
  case False
  let ?b = "e4m3_encode_satfinite w"
  obtain c where c: "c \<le> 126" "?b = c + (if f32_neg w then 128 else 0)"
    "f32_exp w < 255 \<Longrightarrow> rounds_to (f32_mag w) c" "f32_exp w = 255 \<Longrightarrow> c = 126"
    using encode_code [OF False] by metis
  have dec: "e4m3_decode ?b = Some (if f32_neg w then - e4m3_mag c else e4m3_mag c)"
    using c(1,2) e4m3_decode_code by simp
  have par: "even ?b \<longleftrightarrow> even c" using c(2) by simp
  have m: "e4m3_mag 126 = 448" by (simp add: e4m3_mag_def)
  show ?thesis
  proof (cases "f32_exp w < 255")
    case True
    have "\<bar>f32_value w - y\<bar> \<le> \<bar>f32_value w - z\<bar> \<and> (\<bar>f32_value w - y\<bar> = \<bar>f32_value w - z\<bar> \<longrightarrow> y = z \<or> even ?b)"
      if k: "k < 256" "e4m3_decode k = Some z" and y: "y = (if f32_neg w then - e4m3_mag c else e4m3_mag c)" for k z y
    proof -
      obtain j where j: "j \<le> 126" "z = e4m3_mag j \<or> z = - e4m3_mag j" using finite_byte [OF k] by blast
      show ?thesis
        using rounds_to_signed [OF c(3) [OF True] f32_mag_nonneg j] rounds_to_signed [OF c(3) [OF True] f32_mag_nonneg j(1), of "- z"]
          j(2) par y
        by (cases "f32_neg w") (auto simp: f32_value_def abs_minus_commute add.commute)
    qed
    then show ?thesis using True dec False by auto
  next
    case no: False
    then show ?thesis using c(4) dec m f32_bounds(2) [of w] False by auto
  qed
qed

lemma e4m3_encoder_rounds_correctly_witness:
  "\<exists>y. e4m3_decode (e4m3_encode_satfinite 0x3F800000) = Some y \<and>
     \<bar>f32_value 0x3F800000 - y\<bar> \<le> \<bar>f32_value 0x3F800000 - 1\<bar>"
proof -
  have w: "f32_exp 0x3F800000 < 255" "e4m3_decode 0x38 = Some 1" by code_simp+
  have "\<exists>y. e4m3_decode (e4m3_encode_satfinite 0x3F800000) = Some y \<and> (\<forall>k < 256. \<forall>z. e4m3_decode k = Some z \<longrightarrow>
      \<bar>f32_value 0x3F800000 - y\<bar> \<le> \<bar>f32_value 0x3F800000 - z\<bar>)"
    using e4m3_encoder_rounds_correctly [of "0x3F800000"] w(1) by blast
  then obtain y where y: "e4m3_decode (e4m3_encode_satfinite 0x3F800000) = Some y"
    "\<And>k z. k < 256 \<Longrightarrow> e4m3_decode k = Some z \<Longrightarrow> \<bar>f32_value 0x3F800000 - y\<bar> \<le> \<bar>f32_value 0x3F800000 - z\<bar>"
    by blast
  show ?thesis using y(1) y(2) [OF _ w(2)] by auto
qed

end
