(* ===== verification/Q4kv_Page.thy ===== *)
theory Q4kv_Page
  imports Q4kv_Codec
begin

text \<open>
  The pages of the 4-bit KV pool (\<open>src/vllm_exl3/minimax_q4kv_reference.py\<close>): where the data and scale
  bytes of a token are, packing and unpacking of slots and pages, the scatter of the write path, and the
  two ways of dequantising pages into the staging buffer of the prefill.
\<close>

section \<open>Geometry\<close>

definition NUM_GROUPS :: nat where "NUM_GROUPS = 8"
definition DATA_BYTES :: nat where "DATA_BYTES = 64"
definition SCALE_BYTES :: nat where "SCALE_BYTES = 8"
definition ROW_BYTES :: nat where "ROW_BYTES = 72"
definition POOL_BLOCK_SIZE :: nat where "POOL_BLOCK_SIZE = 128"
definition SLOT_REGION :: nat where "SLOT_REGION = POOL_BLOCK_SIZE * ROW_BYTES"
definition DATA_REGION :: nat where "DATA_REGION = POOL_BLOCK_SIZE * DATA_BYTES"
definition SCALE_REGION :: nat where "SCALE_REGION = POOL_BLOCK_SIZE * SCALE_BYTES"

lemmas geometry_defs = NUM_GROUPS_def DATA_BYTES_def SCALE_BYTES_def ROW_BYTES_def POOL_BLOCK_SIZE_def
  SLOT_REGION_def DATA_REGION_def SCALE_REGION_def HEAD_DIM_def GROUP_SIZE_def

definition nvfp4_row_bytes :: "nat \<Rightarrow> nat" where
  "nvfp4_row_bytes head_dim = head_dim div 2 + head_dim div 16"

definition q4_pool_page_bytes :: "nat \<Rightarrow> nat \<Rightarrow> nat res" where
  "q4_pool_page_bytes num_kv_heads block_size =
     (if block_size \<noteq> POOL_BLOCK_SIZE then Inl ValueError
      else Inr (2 * num_kv_heads * block_size * ROW_BYTES))"

definition q4_pool_bytes_per_token :: "nat \<Rightarrow> nat" where
  "q4_pool_bytes_per_token num_kv_heads = 2 * num_kv_heads * ROW_BYTES"

definition scale_block_offset :: "int \<Rightarrow> nat \<Rightarrow> nat \<Rightarrow> nat res" where
  "scale_block_offset side token grp =
     (if side = 0 then Inr (token * SCALE_BYTES + grp)
      else if side \<noteq> 1 then Inl ValueError
      else
        let groups_per_quad = SCALE_BYTES div 4;
            swizzled_token = token div 4 * 4 + grp div groups_per_quad;
            swizzled_scale = grp mod groups_per_quad * 4 + token mod 4 in
        Inr (swizzled_token * SCALE_BYTES + swizzled_scale))"

text \<open>The rows of \<open>_scale_offset_table\<close>; any side but 0 is swizzled there.\<close>

definition scale_offset_row :: "int \<Rightarrow> nat \<Rightarrow> nat list" where
  "scale_offset_row side t =
     map (\<lambda>g. if side = 0 then t * SCALE_BYTES + g
       else (t div 4 * 4 + g div 2) * SCALE_BYTES + (g mod 2 * 4 + t mod 4)) [0..<NUM_GROUPS]"

definition scale_offset_rows :: "int \<Rightarrow> nat \<Rightarrow> nat list list" where
  "scale_offset_rows side tokens = map (scale_offset_row side) [0..<tokens]"

text \<open>The table is kept per side and device and rebuilt when the number of tokens differs.\<close>

type_synonym 'dev table_cache = "(int \<times> 'dev) \<Rightarrow> nat list list option"

definition scale_offset_table :: "'dev table_cache \<Rightarrow> int \<Rightarrow> nat \<Rightarrow> 'dev \<Rightarrow> nat list list \<times> 'dev table_cache" where
  "scale_offset_table cache side tokens dev =
     (case cache (side, dev) of
        Some cached \<Rightarrow>
          if length cached = tokens then (cached, cache)
          else (scale_offset_rows side tokens, cache((side, dev) \<mapsto> scale_offset_rows side tokens))
      | None \<Rightarrow> (scale_offset_rows side tokens, cache((side, dev) \<mapsto> scale_offset_rows side tokens)))"

definition flat_page_to_container :: "nat list \<Rightarrow> (nat \<times> nat) list" where
  "flat_page_to_container flat = map (\<lambda>o'. (o' div ROW_BYTES, o' mod ROW_BYTES)) flat"

section \<open>Slots and pages\<close>

definition pack_slot_region_side :: "f32_ops \<Rightarrow> 32 word list list \<Rightarrow> int \<Rightarrow> nat list res" where
  "pack_slot_region_side fo rows side =
     (if list_ex (\<lambda>r. length r \<noteq> HEAD_DIM) rows then Inl ValueError
      else if side \<noteq> 0 \<and> side \<noteq> 1 then Inl ValueError
      else bind_res (map_res (pack_q4_row fo) rows) (\<lambda>packed.
        let tokens = length rows;
            flat = replicate (tokens * ROW_BYTES) 0;
            flat = concat (map fst packed) @ drop (tokens * DATA_BYTES) flat;
            offsets = concat (scale_offset_rows side tokens) in
        if list_ex (\<lambda>o'. length (drop DATA_REGION flat) \<le> o') offsets then Inl RuntimeError
        else Inr (take DATA_REGION flat @
               scatter (drop DATA_REGION flat) (zip offsets (concat (map snd packed))))))"

text \<open>The values of token \<open>t\<close> of a slot.\<close>

definition token_values :: "int \<Rightarrow> nat list \<Rightarrow> nat \<Rightarrow> rat option list" where
  "token_values side flat t =
     scaled_values (take DATA_BYTES (drop (t * DATA_BYTES) (take DATA_REGION flat)))
       (map ((!) (drop DATA_REGION flat)) (scale_offset_row side t))"

definition unpack_slot_region_side :: "nat list \<Rightarrow> int \<Rightarrow> rat option list list res" where
  "unpack_slot_region_side flat side =
     (let tokens = length flat div ROW_BYTES in
      if side \<noteq> 0 \<and> side \<noteq> 1 then Inl ValueError
      else if length (take DATA_REGION flat) \<noteq> tokens * DATA_BYTES then Inl RuntimeError
      else if list_ex (\<lambda>o'. length (drop DATA_REGION flat) \<le> o') (concat (scale_offset_rows side tokens))
        then Inl RuntimeError
      else Inr (map (token_values side flat) [0..<tokens]))"

definition pack_pool_page :: "f32_ops \<Rightarrow> 32 word list list list \<Rightarrow> nat list res" where
  "pack_pool_page fo rows =
     (if list_ex (\<lambda>slot. length slot \<noteq> POOL_BLOCK_SIZE \<or> list_ex (\<lambda>r. length r \<noteq> HEAD_DIM) slot) rows
      then Inl ValueError
      else bind_res (map_res (\<lambda>slot. pack_slot_region_side fo (rows ! slot) (int (slot mod 2))) [0..<length rows])
        (\<lambda>regions. Inr (concat regions)))"

definition unpack_pool_page :: "nat list \<Rightarrow> rat option list list list res" where
  "unpack_pool_page flat =
     map_res (\<lambda>slot. unpack_slot_region_side (take SLOT_REGION (drop (slot * SLOT_REGION) flat)) (int (slot mod 2)))
       [0..<length flat div SLOT_REGION]"

text \<open>\<open>x[start::2]\<close>\<close>

definition every_other :: "nat \<Rightarrow> 'a list \<Rightarrow> 'a list" where
  "every_other start xs = map (\<lambda>i. xs ! (2 * i + start)) [0..<(length xs + 1 - start) div 2]"

definition split_page_kv :: "'a list \<Rightarrow> 'a list \<times> 'a list" where
  "split_page_kv page = (every_other 0 page, every_other 1 page)"

section \<open>Lemmas on the layout\<close>

text \<open>Different tokens and groups have different offsets, for the linear and for the swizzled side.\<close>

lemma quad_offset_inj:
  fixes a b c d :: nat
  assumes "(4 * a + c) * 8 + (4 * d + b) = (4 * a' + c') * 8 + (4 * d' + b')"
    "b < 4" "b' < 4" "d < 2" "d' < 2" "c < 4" "c' < 4"
  shows "a = a' \<and> b = b' \<and> c = c' \<and> d = d'"
proof -
  have u: "x div 8 = q" "x mod 8 = r" if "x = q * 8 + r" "r < 8" for x q r :: nat using that by simp_all
  have v: "x div 4 = q" "x mod 4 = r" if "x = 4 * q + r" "r < 4" for x q r :: nat using that by simp_all
  have "4 * d + b < 8" "4 * d' + b' < 8" using assms(2-5) by simp_all
  with assms(1) have "4 * a + c = 4 * a' + c'" "4 * d + b = 4 * d' + b'" using u by metis+
  with assms(2,3,6,7) show ?thesis using v by metis
qed

lemma scale_offset_inj:
  assumes "scale_offset_row side t ! g = scale_offset_row side t' ! g'" "g < 8" "g' < 8"
  shows "t = t' \<and> g = g'"
proof (cases "side = 0")
  case True
  then have "t * 8 + g = t' * 8 + g'" using assms by (simp add: scale_offset_row_def geometry_defs)
  then show ?thesis using assms(2,3) by presburger
next
  case False
  have "(4 * (t div 4) + g div 2) * 8 + (4 * (g mod 2) + t mod 4) = (4 * (t' div 4) + g' div 2) * 8 + (4 * (g' mod 2) + t' mod 4)"
    using False assms by (simp add: scale_offset_row_def geometry_defs algebra_simps)
  from quad_offset_inj [OF this] assms(2,3)
  have "t div 4 = t' div 4" "t mod 4 = t' mod 4" "g div 2 = g' div 2" "g mod 2 = g' mod 2" by (simp_all add: less_mult_imp_div_less)
  then show ?thesis by (metis div_mult_mod_eq)
qed

lemma scale_offset_bound:
  assumes "t < 128" "g < 8"
  shows "scale_offset_row side t ! g < 1024"
proof (cases "side = 0")
  case True
  then show ?thesis using assms by (simp add: scale_offset_row_def geometry_defs)
next
  case False
  have "t div 4 \<le> 31" "g div 2 \<le> 3" "g mod 2 \<le> 1" "t mod 4 \<le> 3" using assms by simp_all
  then show ?thesis using False assms(2) by (simp add: scale_offset_row_def geometry_defs)
qed

lemma scale_offset_row_length [simp]: "length (scale_offset_row side t) = 8"
  by (simp add: scale_offset_row_def geometry_defs)

lemma scale_offset_set:
  "set (scale_offset_row side t) = (\<lambda>g. scale_offset_row side t ! g) ` {..<8}"
  by (force simp: set_conv_nth)

lemma scale_offset_row_distinct: "distinct (scale_offset_row side t)"
  unfolding distinct_conv_nth using scale_offset_inj [of side t _ t] by auto

lemma scale_offset_rows_distinct: "distinct (concat (scale_offset_rows side n))"
proof (induction n)
  case (Suc n)
  have "o' \<notin> set (scale_offset_row side t)" if "o' \<in> set (scale_offset_row side n)" "t < n" for o' t
    using that scale_offset_inj [of side n _ t] by (fastforce simp: scale_offset_set)
  then show ?case using Suc by (auto simp: scale_offset_rows_def scale_offset_row_distinct)
qed (simp add: scale_offset_rows_def)

lemma scale_offset_rows_bound:
  "o' \<in> set (concat (scale_offset_rows side 128)) \<Longrightarrow> o' < 1024"
  by (auto simp: scale_offset_rows_def scale_offset_set scale_offset_bound)

text \<open>The scalar function and the table agree; the cache never changes a table.\<close>

lemma scale_block_offset_row:
  "side = 0 \<or> side = 1 \<Longrightarrow> g < 8 \<Longrightarrow> scale_block_offset side t g = Inr (scale_offset_row side t ! g)"
  by (auto simp: scale_block_offset_def scale_offset_row_def geometry_defs Let_def)

lemma scale_offset_table_sound:
  assumes "\<forall>s d tab. cache (s, d) = Some tab \<longrightarrow> (\<exists>n. tab = scale_offset_rows s n)"
  shows "fst (scale_offset_table cache side tokens dev) = scale_offset_rows side tokens \<and>
    (\<forall>s d tab. snd (scale_offset_table cache side tokens dev) (s, d) = Some tab \<longrightarrow> (\<exists>n. tab = scale_offset_rows s n))"
proof -
  have len: "length (scale_offset_rows s n) = n" for s n by (simp add: scale_offset_rows_def)
  show ?thesis
  proof (cases "cache (side, dev)")
    case None
    then show ?thesis using assms by (auto simp: scale_offset_table_def)
  next
    case (Some tab)
    then obtain n where "tab = scale_offset_rows side n" using assms by blast
    then show ?thesis using Some assms len by (auto simp: scale_offset_table_def)
  qed
qed

section \<open>Packing and unpacking\<close>

lemma concat_block:
  assumes "\<forall>x \<in> set xss. length x = n" "t < length xss"
  shows "take n (drop (t * n) (concat xss)) = xss ! t"
  using assms
proof (induction xss arbitrary: t)
  case (Cons x xss)
  then show ?case by (cases t) auto
qed simp

lemma concat_blocks_length: "\<forall>x \<in> set xss. length x = n \<Longrightarrow> length (concat xss) = length xss * n"
  by (induction xss) auto

lemma chunks_of_shape: "length xs = k * n \<Longrightarrow> length (chunks_of k n xs) = k \<and> (\<forall>c \<in> set (chunks_of k n xs). length c = n)"
  by (induction k n xs rule: chunks_of.induct) auto

lemma pair_bytes_length: "length (pair_bytes ns) = length ns div 2"
  by (induction ns rule: pair_bytes.induct) auto

text \<open>A row packs into 64 data bytes and 8 scale bytes.\<close>

lemma pack_q4_row_total:
  assumes "length r = HEAD_DIM"
  obtains d s where "pack_q4_row fo r = Inr (d, s)" "length d = DATA_BYTES" "length s = SCALE_BYTES"
proof -
  let ?gs = "chunks_of 8 GROUP_SIZE (map (fo_bf16 fo) r)"
  have g: "length ?gs = 8" "\<forall>c \<in> set ?gs. length c = 16"
    using chunks_of_shape [of "map (fo_bf16 fo) r" 8 16] assms by (simp_all add: geometry_defs)
  have "length (concat (map (group_nibbles fo) ?gs)) = 8 * 16"
    using concat_blocks_length [of "map (group_nibbles fo) ?gs" 16] g by (simp add: group_nibbles_def Let_def)
  then show thesis
    using that assms g(1) by (simp add: pack_q4_row_def Let_def pair_bytes_length geometry_defs)
qed

text \<open>The bytes of a packed slot, and what unpacking reads of them.\<close>

definition slot_bytes :: "int \<Rightarrow> (nat list \<times> nat list) list \<Rightarrow> nat list" where
  "slot_bytes side ps =
     concat (map fst ps) @ scatter (replicate SCALE_REGION 0) (zip (concat (scale_offset_rows side POOL_BLOCK_SIZE)) (concat (map snd ps)))"

definition packed_rows :: "(nat list \<times> nat list) list \<Rightarrow> bool" where
  "packed_rows ps \<longleftrightarrow> length ps = POOL_BLOCK_SIZE \<and> (\<forall>p \<in> set ps. length (fst p) = DATA_BYTES \<and> length (snd p) = SCALE_BYTES)"

lemma slot_bytes_parts:
  assumes "packed_rows ps"
  shows "take DATA_REGION (slot_bytes side ps) = concat (map fst ps)"
    "drop DATA_REGION (slot_bytes side ps) =
       scatter (replicate SCALE_REGION 0) (zip (concat (scale_offset_rows side POOL_BLOCK_SIZE)) (concat (map snd ps)))"
    "length (slot_bytes side ps) = SLOT_REGION"
proof -
  have "length (concat (map fst ps)) = DATA_REGION"
    using concat_blocks_length [of "map fst ps" DATA_BYTES] assms by (auto simp: packed_rows_def geometry_defs)
  then show "take DATA_REGION (slot_bytes side ps) = concat (map fst ps)"
    "drop DATA_REGION (slot_bytes side ps) =
       scatter (replicate SCALE_REGION 0) (zip (concat (scale_offset_rows side POOL_BLOCK_SIZE)) (concat (map snd ps)))"
    "length (slot_bytes side ps) = SLOT_REGION"
    by (simp_all add: slot_bytes_def geometry_defs)
qed

lemma scale_offset_rows_shape:
  "length (scale_offset_rows side n) = n" "\<forall>x \<in> set (scale_offset_rows side n). length x = SCALE_BYTES"
  by (auto simp: scale_offset_rows_def geometry_defs)

lemma token_values_slot:
  assumes "packed_rows ps" "t < POOL_BLOCK_SIZE"
  shows "token_values side (slot_bytes side ps) t = scaled_values (fst (ps ! t)) (snd (ps ! t))"
proof -
  let ?os = "scale_offset_rows side POOL_BLOCK_SIZE"
  let ?sc = "scatter (replicate SCALE_REGION 0) (zip (concat ?os) (concat (map snd ps)))"
  have l: "length ps = POOL_BLOCK_SIZE" "\<forall>x \<in> set (map fst ps). length x = DATA_BYTES" "\<forall>x \<in> set (map snd ps). length x = SCALE_BYTES"
    using assms(1) by (auto simp: packed_rows_def)
  have "map ((!) ?sc) (concat ?os) = concat (map snd ps)"
  proof (rule scatter_reads)
    show "length (concat ?os) = length (concat (map snd ps))"
      using concat_blocks_length [OF scale_offset_rows_shape(2), of side POOL_BLOCK_SIZE] concat_blocks_length [OF l(3)] l(1)
      by (simp add: scale_offset_rows_shape)
    show "\<forall>o' \<in> set (concat ?os). o' < length (replicate SCALE_REGION (0 :: nat))"
      using scale_offset_rows_bound by (simp add: geometry_defs)
  qed (rule scale_offset_rows_distinct)
  then have "concat (map (map ((!) ?sc)) ?os) = concat (map snd ps)" by (simp add: map_concat)
  moreover have "take SCALE_BYTES (drop (t * SCALE_BYTES) (concat (map (map ((!) ?sc)) ?os))) = map ((!) ?sc) (?os ! t)"
    using concat_block [of "map (map ((!) ?sc)) ?os" SCALE_BYTES t] scale_offset_rows_shape [of side POOL_BLOCK_SIZE] assms(2) by simp
  moreover have "take SCALE_BYTES (drop (t * SCALE_BYTES) (concat (map snd ps))) = snd (ps ! t)"
    using concat_block [OF l(3), of t] assms(2) l(1) by simp
  moreover have "?os ! t = scale_offset_row side t" using assms(2) by (simp add: scale_offset_rows_def)
  moreover have "take DATA_BYTES (drop (t * DATA_BYTES) (concat (map fst ps))) = fst (ps ! t)"
    using concat_block [OF l(2), of t] assms(2) l(1) by simp
  ultimately show ?thesis
    unfolding token_values_def slot_bytes_parts [OF assms(1)] by simp
qed

lemma pack_slot_bytes:
  assumes "length rows = POOL_BLOCK_SIZE" "\<forall>r \<in> set rows. length r = HEAD_DIM" "side = 0 \<or> side = 1"
  obtains ps where "pack_slot_region_side fo rows side = Inr (slot_bytes side ps)" "packed_rows ps"
    "list_all2 (\<lambda>r p. pack_q4_row fo r = Inr p) rows ps"
proof -
  define ps where "ps = map (\<lambda>r. projr (pack_q4_row fo r)) rows"
  have p: "pack_q4_row fo r = Inr (projr (pack_q4_row fo r)) \<and> length (fst (projr (pack_q4_row fo r))) = DATA_BYTES \<and>
      length (snd (projr (pack_q4_row fo r))) = SCALE_BYTES" if "r \<in> set rows" for r
    using pack_q4_row_total [of r fo] assms(2) that by (metis fst_conv snd_conv sum.sel(2))
  have all: "list_all2 (\<lambda>r p. pack_q4_row fo r = Inr p) rows ps"
    unfolding ps_def using p by (simp add: list.rel_map list.rel_refl_strong)
  then have mp: "map_res (pack_q4_row fo) rows = Inr ps" by (simp add: map_res_Inr_iff)
  have sh: "packed_rows ps" using p assms(1) by (auto simp: packed_rows_def ps_def)
  have "length (concat (map fst ps)) = DATA_REGION"
    using concat_blocks_length [of "map fst ps" DATA_BYTES] sh by (auto simp: packed_rows_def geometry_defs)
  then have "pack_slot_region_side fo rows side = Inr (slot_bytes side ps)"
    using assms scale_offset_rows_bound [of _ side]
    by (auto simp: pack_slot_region_side_def mp Let_def slot_bytes_def list_ex_iff geometry_defs not_le simp del: set_concat)
  then show thesis using that sh all by blast
qed

lemma unpack_slot_bytes:
  assumes "packed_rows ps" "side = 0 \<or> side = 1"
  shows "unpack_slot_region_side (slot_bytes side ps) side = Inr (map (\<lambda>p. scaled_values (fst p) (snd p)) ps)"
proof -
  note parts = slot_bytes_parts [OF assms(1), of side]
  have "length ps = 128" using assms(1) by (simp add: packed_rows_def geometry_defs)
  then have "map (token_values side (slot_bytes side ps)) [0..<128] = map (\<lambda>p. scaled_values (fst p) (snd p)) ps"
    using token_values_slot [OF assms(1)] by (intro nth_equalityI) (simp_all add: geometry_defs)
  moreover have "length (concat (map fst ps)) = 8192" "length (slot_bytes side ps) = 9216"
    using parts(3) concat_blocks_length [of "map fst ps" DATA_BYTES] assms(1) by (auto simp: packed_rows_def geometry_defs)
  ultimately show ?thesis
    using assms(2) scale_offset_rows_bound [of _ side]
    by (auto simp: unpack_slot_region_side_def Let_def parts(1,2) list_ex_iff geometry_defs not_le simp del: set_concat)
qed

text \<open>C29: packing a pool page and unpacking it gives back every row as the row codec alone would: the layout,
with linear scales on the key side and swizzled scales on the value side, neither loses nor mixes a byte.\<close>

theorem page_roundtrip:
  assumes "\<forall>slot \<in> set rows. length slot = POOL_BLOCK_SIZE \<and> (\<forall>r \<in> set slot. length r = HEAD_DIM)"
  shows "\<exists>page vals. pack_pool_page fo rows = Inr page \<and> length page = length rows * SLOT_REGION \<and>
    unpack_pool_page page = Inr vals \<and>
    list_all2 (list_all2 (\<lambda>r v. bind_res (pack_q4_row fo r) (\<lambda>(d, s). unpack_q4_row d s) = Inr v)) rows vals"
proof -
  let ?n = "length rows"
  have "\<exists>ps. pack_slot_region_side fo (rows ! i) (int (i mod 2)) = Inr (slot_bytes (int (i mod 2)) ps) \<and> packed_rows ps \<and>
      list_all2 (\<lambda>r p. pack_q4_row fo r = Inr p) (rows ! i) ps" if "i < ?n" for i
  proof (rule pack_slot_bytes [of "rows ! i" "int (i mod 2)" fo])
    show "length (rows ! i) = POOL_BLOCK_SIZE" "\<forall>r \<in> set (rows ! i). length r = HEAD_DIM" using assms nth_mem [OF that] by blast+
    show "int (i mod 2) = 0 \<or> int (i mod 2) = 1" by (simp add: mod2_eq_if)
  qed blast
  then obtain P where P: "\<And>i. i < ?n \<Longrightarrow> pack_slot_region_side fo (rows ! i) (int (i mod 2)) = Inr (slot_bytes (int (i mod 2)) (P i))"
    "\<And>i. i < ?n \<Longrightarrow> packed_rows (P i)" "\<And>i. i < ?n \<Longrightarrow> list_all2 (\<lambda>r p. pack_q4_row fo r = Inr p) (rows ! i) (P i)"
    by metis
  define regions where "regions = map (\<lambda>i. slot_bytes (int (i mod 2)) (P i)) [0..<?n]"
  have len: "\<forall>x \<in> set regions. length x = SLOT_REGION" using slot_bytes_parts(3) P(2) by (auto simp: regions_def)
  have "pack_pool_page fo rows = Inr (concat regions)"
  proof -
    have "map_res (\<lambda>slot. pack_slot_region_side fo (rows ! slot) (int (slot mod 2))) [0..<?n] = Inr regions"
      unfolding map_res_Inr_iff regions_def by (simp add: list_all2_conv_all_nth P(1))
    then show ?thesis using assms by (auto simp: pack_pool_page_def list_ex_iff)
  qed
  moreover have l: "length (concat regions) = ?n * SLOT_REGION"
    using concat_blocks_length [OF len] by (simp add: regions_def)
  moreover have "unpack_pool_page (concat regions) = Inr (map (\<lambda>i. map (\<lambda>p. scaled_values (fst p) (snd p)) (P i)) [0..<?n])"
  proof -
    have "take SLOT_REGION (drop (i * SLOT_REGION) (concat regions)) = slot_bytes (int (i mod 2)) (P i)" if "i < ?n" for i
      using concat_block [OF len, of i] that by (simp add: regions_def)
    moreover have "length (concat regions) div SLOT_REGION = ?n" unfolding l by (simp add: geometry_defs)
    moreover have "unpack_slot_region_side (slot_bytes (int (i mod 2)) (P i)) (int (i mod 2)) =
        Inr (map (\<lambda>p. scaled_values (fst p) (snd p)) (P i))" if "i < ?n" for i
      by (rule unpack_slot_bytes [OF P(2) [OF that]]) (simp add: mod2_eq_if)
    ultimately show ?thesis
      by (simp add: unpack_pool_page_def map_res_Inr_iff list_all2_conv_all_nth)
  qed
  moreover have "list_all2 (list_all2 (\<lambda>r v. bind_res (pack_q4_row fo r) (\<lambda>(d, s). unpack_q4_row d s) = Inr v)) rows
      (map (\<lambda>i. map (\<lambda>p. scaled_values (fst p) (snd p)) (P i)) [0..<?n])"
  proof (rule list_all2_all_nthI)
    fix i assume i: "i < ?n"
    have "\<forall>j < length (P i). length (fst (P i ! j)) = DATA_BYTES \<and> length (snd (P i ! j)) = SCALE_BYTES"
      using P(2) [OF i] by (auto simp: packed_rows_def)
    then show "list_all2 (\<lambda>r v. bind_res (pack_q4_row fo r) (\<lambda>(d, s). unpack_q4_row d s) = Inr v) (rows ! i)
        (map (\<lambda>i. map (\<lambda>p. scaled_values (fst p) (snd p)) (P i)) [0..<?n] ! i)"
      using P(3) [OF i] i by (auto simp: list_all2_conv_all_nth unpack_q4_row_def geometry_defs split: prod.split)
  qed simp
  ultimately show ?thesis by blast
qed

section \<open>The scatter of the write path\<close>

definition data_positions :: "nat \<Rightarrow> nat list" where
  "data_positions sm =
     map (\<lambda>j. sm div POOL_BLOCK_SIZE * SLOT_REGION + (sm mod POOL_BLOCK_SIZE * DATA_BYTES + j)) [0..<DATA_BYTES]"

definition scale_positions :: "int \<Rightarrow> nat \<Rightarrow> nat list" where
  "scale_positions side sm =
     map (\<lambda>o'. sm div POOL_BLOCK_SIZE * SLOT_REGION + (DATA_REGION + o')) (scale_offset_row side (sm mod POOL_BLOCK_SIZE))"

text \<open>An index that occurs twice keeps the later value.\<close>

definition scatter_q4_tokens :: "f32_ops \<Rightarrow> 32 word list list \<Rightarrow> int list \<Rightarrow> nat \<Rightarrow> nat \<Rightarrow> nat list list res" where
  "scatter_q4_tokens fo values slot_mapping num_pages slot =
     bind_res (map_res (pack_q4_row fo) values) (\<lambda>packed.
       let side = int (slot mod 2); out = replicate (num_pages * SLOT_REGION) 0;
           valid = filter (\<lambda>(sm, p). 0 \<le> sm) (zip slot_mapping packed);
           datas = concat (map (\<lambda>(sm, p). zip (data_positions (nat sm)) (fst p)) valid);
           scales = concat (map (\<lambda>(sm, p). zip (scale_positions side (nat sm)) (snd p)) valid) in
       if \<not> list_ex (\<lambda>sm. 0 \<le> sm) slot_mapping then Inr (chunks_of num_pages SLOT_REGION out)
       else if length slot_mapping \<noteq> length values then Inl IndexError
       else if list_ex (\<lambda>(i, v). length out \<le> i) (datas @ scales) then Inl IndexError
       else Inr (chunks_of num_pages SLOT_REGION (scatter (scatter out datas) scales)))"

lemma chunks_of_nth: "p < k \<Longrightarrow> chunks_of k n xs ! p = take n (drop (p * n) xs)"
proof (induction k n xs arbitrary: p rule: chunks_of.induct)
  case (2 k n xs)
  then show ?case by (cases p) (auto simp: add.commute)
qed simp

lemma chunks_of_length [simp]: "length (chunks_of k n xs) = k"
  by (induction k n xs rule: chunks_of.induct) auto

lemma slice_nth: "a + n \<le> length xs \<Longrightarrow> take n (drop a xs) = map ((!) xs) [a..<a + n]"
  by (intro nth_equalityI) auto

lemma distinct_concat_map:
  assumes "distinct xs" "\<And>x. x \<in> set xs \<Longrightarrow> distinct (f x)"
    "\<And>x y. x \<in> set xs \<Longrightarrow> y \<in> set xs \<Longrightarrow> x \<noteq> y \<Longrightarrow> set (f x) \<inter> set (f y) = {}"
  shows "distinct (concat (map f xs))"
  using assms by (induction xs) fastforce+

text \<open>Which token a position belongs to.\<close>

lemma data_position_page:
  assumes "x \<in> set (data_positions sm)"
  shows "x div SLOT_REGION = sm div POOL_BLOCK_SIZE \<and> x mod SLOT_REGION < DATA_REGION \<and>
    x mod SLOT_REGION div DATA_BYTES = sm mod POOL_BLOCK_SIZE"
proof -
  obtain j where j: "j < 64" "x = sm div 128 * 9216 + (sm mod 128 * 64 + j)" using assms by (auto simp: data_positions_def geometry_defs)
  have "sm mod 128 * 64 + j < 8192" using j(1) mod_less_divisor [of 128 sm] by linarith
  then show ?thesis using j by (simp add: geometry_defs)
qed

lemma scale_position_page:
  assumes "x \<in> set (scale_positions side sm)"
  shows "x div SLOT_REGION = sm div POOL_BLOCK_SIZE \<and> DATA_REGION \<le> x mod SLOT_REGION \<and>
    x mod SLOT_REGION - DATA_REGION \<in> set (scale_offset_row side (sm mod POOL_BLOCK_SIZE))"
proof -
  obtain o' where o': "o' \<in> set (scale_offset_row side (sm mod 128))" "x = sm div 128 * 9216 + (8192 + o')"
    using assms by (auto simp: scale_positions_def geometry_defs)
  have "o' < 1024" using o'(1) by (auto simp: scale_offset_set scale_offset_bound)
  then show ?thesis using o' by (simp add: geometry_defs)
qed

lemma positions_disjoint:
  assumes "sm \<noteq> sm'"
  shows "set (data_positions sm) \<inter> set (data_positions sm') = {}"
    "set (scale_positions side sm) \<inter> set (scale_positions side sm') = {}"
proof -
  have ne: "sm div POOL_BLOCK_SIZE \<noteq> sm' div POOL_BLOCK_SIZE \<or> sm mod POOL_BLOCK_SIZE \<noteq> sm' mod POOL_BLOCK_SIZE"
    using assms by (metis div_mult_mod_eq)
  then show "set (data_positions sm) \<inter> set (data_positions sm') = {}"
    using data_position_page by (metis disjoint_iff)
  have "set (scale_offset_row side t) \<inter> set (scale_offset_row side t') = {}" if "t \<noteq> t'" for t t'
    unfolding scale_offset_set using that scale_offset_inj [of side t _ t'] by blast
  then show "set (scale_positions side sm) \<inter> set (scale_positions side sm') = {}"
    using ne scale_position_page by (metis disjoint_iff)
qed

lemma positions_cross: "x \<in> set (data_positions sm') \<Longrightarrow> x \<notin> set (scale_positions side sm)"
  using data_position_page [of x sm'] scale_position_page [of x side sm] by auto

lemma positions_distinct:
  assumes "distinct sms"
  shows "distinct (concat (map data_positions sms) @ concat (map (scale_positions side) sms))"
proof -
  have "distinct (data_positions sm)" "distinct (scale_positions side sm)" for sm
    using scale_offset_row_distinct by (simp_all add: data_positions_def scale_positions_def distinct_map inj_on_def)
  then have "distinct (concat (map data_positions sms))" "distinct (concat (map (scale_positions side) sms))"
    using assms positions_disjoint by (simp_all add: distinct_concat_map)
  then show ?thesis using positions_cross by auto
qed

text \<open>Reading a token of a page whose bytes are those at its positions.\<close>

lemma token_values_at:
  assumes "sm div POOL_BLOCK_SIZE < k" "length flat = k * SLOT_REGION"
    "map ((!) flat) (data_positions sm) = d" "map ((!) flat) (scale_positions side sm) = s"
  shows "token_values side (take SLOT_REGION (drop (sm div POOL_BLOCK_SIZE * SLOT_REGION) flat)) (sm mod POOL_BLOCK_SIZE) =
    scaled_values d s"
proof -
  let ?b = "sm div POOL_BLOCK_SIZE * SLOT_REGION" and ?t = "sm mod POOL_BLOCK_SIZE"
  have fit: "?b + SLOT_REGION \<le> length flat"
  proof -
    have "Suc (sm div POOL_BLOCK_SIZE) * SLOT_REGION \<le> k * SLOT_REGION" using assms(1) by (intro mult_le_mono1) simp
    then show ?thesis using assms(2) by simp
  qed
  let ?page = "take SLOT_REGION (drop ?b flat)"
  have pg: "length ?page = SLOT_REGION" "x < SLOT_REGION \<Longrightarrow> ?page ! x = flat ! (?b + x)" for x using fit by simp_all
  have t: "?t < 128" by (simp add: geometry_defs)
  have "take DATA_BYTES (drop (?t * DATA_BYTES) (take DATA_REGION ?page)) = map ((!) (take DATA_REGION ?page)) [?t * DATA_BYTES..<?t * DATA_BYTES + DATA_BYTES]"
    by (rule slice_nth) (use t pg(1) in \<open>simp add: geometry_defs\<close>)
  also have "\<dots> = map ((!) flat) (data_positions sm)"
  proof (rule nth_equalityI)
    fix i assume "i < length (map ((!) (take DATA_REGION ?page)) [?t * DATA_BYTES..<?t * DATA_BYTES + DATA_BYTES])"
    then have "i < 64" by (simp add: geometry_defs)
    then show "map ((!) (take DATA_REGION ?page)) [?t * DATA_BYTES..<?t * DATA_BYTES + DATA_BYTES] ! i = map ((!) flat) (data_positions sm) ! i"
      using t pg by (simp add: data_positions_def geometry_defs)
  qed (simp add: data_positions_def)
  finally have data: "take DATA_BYTES (drop (?t * DATA_BYTES) (take DATA_REGION ?page)) = d" using assms(3) by simp
  have "map ((!) (drop DATA_REGION ?page)) (scale_offset_row side ?t) = map ((!) flat) (scale_positions side sm)"
    unfolding scale_positions_def map_map
  proof (rule map_cong [OF refl])
    fix o' assume "o' \<in> set (scale_offset_row side ?t)"
    then have "o' < 1024" using scale_offset_bound [OF t] by (auto simp: scale_offset_set)
    then show "drop DATA_REGION ?page ! o' = ((!) flat \<circ> (\<lambda>o'. ?b + (DATA_REGION + o'))) o'"
      using pg by (simp add: geometry_defs)
  qed
  then show ?thesis unfolding token_values_def data using assms(4) by simp
qed

lemma read_positions:
  assumes "distinct (map fst ps)" "set (zip ks vs) \<subseteq> set ps" "length ks = length vs" "\<forall>x \<in> set ks. x < length xs"
  shows "map ((!) (scatter xs ps)) ks = vs"
proof (rule nth_equalityI)
  fix i assume "i < length (map ((!) (scatter xs ps)) ks)"
  then have i: "i < length ks" by simp
  then have "(ks ! i, vs ! i) \<in> set ps" using assms(2,3) by (auto simp: set_zip)
  then show "map ((!) (scatter xs ps)) ks ! i = vs ! i" using i assms by (simp add: scatter_at)
qed (use assms in simp)

lemma map_fst_zips: "\<forall>(k, v) \<in> set xs. length (f k) = length (g v) \<Longrightarrow>
  map fst (concat (map (\<lambda>(k, v). zip (f k) (g v)) xs)) = concat (map (\<lambda>(k, v). f k) xs)"
  by (induction xs) auto

lemma positions_length [simp]: "length (data_positions sm) = DATA_BYTES" "length (scale_positions side sm) = SCALE_BYTES"
  by (simp_all add: data_positions_def scale_positions_def geometry_defs)

lemma positions_bound:
  assumes "sm div POOL_BLOCK_SIZE < k" "x \<in> set (data_positions sm) \<or> x \<in> set (scale_positions side sm)"
  shows "x < k * SLOT_REGION"
proof -
  have "x div SLOT_REGION < k" using assms data_position_page scale_position_page by metis
  then show ?thesis by (simp add: div_less_iff_less_mult geometry_defs)
qed

lemma zero_values: "scaled_values (replicate DATA_BYTES 0) (replicate SCALE_BYTES 0) = replicate HEAD_DIM (Some 0)"
  by code_simp

text \<open>The writes of a list of tokens: their positions, all different, and the values there afterwards.\<close>

definition token_writes :: "int \<Rightarrow> (int \<times> nat list \<times> nat list) list \<Rightarrow> (nat \<times> nat) list" where
  "token_writes side V =
     concat (map (\<lambda>(sm, p). zip (data_positions (nat sm)) (fst p)) V) @
     concat (map (\<lambda>(sm, p). zip (scale_positions side (nat sm)) (snd p)) V)"

definition writable :: "nat \<Rightarrow> (int \<times> nat list \<times> nat list) list \<Rightarrow> bool" where
  "writable num_pages V \<longleftrightarrow> distinct (map fst V) \<and>
     (\<forall>(sm, p) \<in> set V. 0 \<le> sm \<and> sm < int (num_pages * POOL_BLOCK_SIZE) \<and> length (fst p) = DATA_BYTES \<and> length (snd p) = SCALE_BYTES)"

lemma writableD:
  assumes "writable num_pages V" "(sm, p) \<in> set V"
  shows "0 \<le> sm" "nat sm < num_pages * POOL_BLOCK_SIZE" "length (fst p) = DATA_BYTES" "length (snd p) = SCALE_BYTES"
proof -
  have *: "0 \<le> sm \<and> sm < int (num_pages * POOL_BLOCK_SIZE) \<and> length (fst p) = DATA_BYTES \<and> length (snd p) = SCALE_BYTES"
    using assms by (auto simp: writable_def)
  then show "0 \<le> sm" "length (fst p) = DATA_BYTES" "length (snd p) = SCALE_BYTES" by simp_all
  show "nat sm < num_pages * POOL_BLOCK_SIZE" using * by (simp only: nat_less_iff)
qed

lemma token_writes_keys:
  assumes "writable num_pages V"
  shows "map fst (token_writes side V) =
    concat (map data_positions (map (nat \<circ> fst) V)) @ concat (map (scale_positions side) (map (nat \<circ> fst) V))"
proof -
  have "\<forall>(sm, p) \<in> set V. length (data_positions (nat sm)) = length (fst p)"
    "\<forall>(sm, p) \<in> set V. length (scale_positions side (nat sm)) = length (snd p)"
    using assms by (auto simp: writable_def)
  from map_fst_zips [OF this(1)] map_fst_zips [OF this(2)] show ?thesis
    by (simp add: token_writes_def case_prod_unfold comp_def)
qed

lemma token_page: "sm < num_pages * POOL_BLOCK_SIZE \<Longrightarrow> sm div POOL_BLOCK_SIZE < num_pages"
  by (simp add: div_less_iff_less_mult geometry_defs)

lemma token_writes_distinct:
  assumes "writable num_pages V"
  shows "distinct (map fst (token_writes side V))" "\<forall>x \<in> set (map fst (token_writes side V)). x < num_pages * SLOT_REGION"
proof -
  have pos: "\<forall>x \<in> fst ` set V. 0 \<le> x" "distinct (map fst V)" using assms by (auto simp: writable_def)
  have "inj_on nat (fst ` set V)" by (rule inj_onI) (use pos(1) in \<open>simp add: eq_nat_nat_iff\<close>)
  then have "distinct (map nat (map fst V))" using pos(2) unfolding distinct_map set_map by blast
  then have "distinct (map (nat \<circ> fst) V)" by simp
  then show "distinct (map fst (token_writes side V))" unfolding token_writes_keys [OF assms] by (rule positions_distinct)
  have "nat sm div POOL_BLOCK_SIZE < num_pages" if "(sm, p) \<in> set V" for sm p
    using writableD(2) [OF assms that] by (rule token_page)
  then show "\<forall>x \<in> set (map fst (token_writes side V)). x < num_pages * SLOT_REGION"
    unfolding token_writes_keys [OF assms] using positions_bound by fastforce
qed

lemma token_values_written:
  assumes "writable num_pages V" "F = scatter (replicate (num_pages * SLOT_REGION) 0) (token_writes side V)"
    "sm < num_pages * POOL_BLOCK_SIZE"
  shows "(int sm, p) \<in> set V \<Longrightarrow>
      token_values side (chunks_of num_pages SLOT_REGION F ! (sm div POOL_BLOCK_SIZE)) (sm mod POOL_BLOCK_SIZE) =
        scaled_values (fst p) (snd p)"
    "int sm \<notin> fst ` set V \<Longrightarrow>
      token_values side (chunks_of num_pages SLOT_REGION F ! (sm div POOL_BLOCK_SIZE)) (sm mod POOL_BLOCK_SIZE) =
        replicate HEAD_DIM (Some 0)"
proof -
  note page = token_page [OF assms(3)]
  have tok: "token_values side (chunks_of num_pages SLOT_REGION F ! (sm div POOL_BLOCK_SIZE)) (sm mod POOL_BLOCK_SIZE) = scaled_values d s"
    if "map ((!) F) (data_positions sm) = d" "map ((!) F) (scale_positions side sm) = s" for d s
    using token_values_at [OF page _ that] page assms(2) by (simp add: chunks_of_nth)
  {
    assume v: "(int sm, p) \<in> set V"
    let ?d = "\<lambda>(sm, p :: nat list \<times> nat list). zip (data_positions (nat sm)) (fst p)"
    let ?s = "\<lambda>(sm, p :: nat list \<times> nat list). zip (scale_positions side (nat sm)) (snd p)"
    have "set (?d (int sm, p)) \<subseteq> set (token_writes side V)" "set (?s (int sm, p)) \<subseteq> set (token_writes side V)"
      using v unfolding token_writes_def set_append set_concat set_map by blast+
    then have "set (zip (data_positions sm) (fst p)) \<subseteq> set (token_writes side V)" "set (zip (scale_positions side sm) (snd p)) \<subseteq> set (token_writes side V)"
      by simp_all
    moreover have "length (fst p) = DATA_BYTES" "length (snd p) = SCALE_BYTES" using v assms(1) by (auto simp: writable_def)
    ultimately have "map ((!) F) (data_positions sm) = fst p" "map ((!) F) (scale_positions side sm) = snd p"
      unfolding assms(2) using positions_bound [OF page, of _ side]
      by (auto intro!: read_positions [OF token_writes_distinct(1) [OF assms(1)]])
    then show "token_values side (chunks_of num_pages SLOT_REGION F ! (sm div POOL_BLOCK_SIZE)) (sm mod POOL_BLOCK_SIZE) =
        scaled_values (fst p) (snd p)" by (rule tok)
  next
    assume "int sm \<notin> fst ` set V"
    then have other: "nat sm' \<noteq> sm" if "(sm', p) \<in> set V" for sm' p
      using writableD(1) [OF assms(1) that] that \<open>int sm \<notin> fst ` set V\<close> by force
    have "x \<notin> fst ` set (token_writes side V)" if "x \<in> set (data_positions sm) \<or> x \<in> set (scale_positions side sm)" for x
    proof
      assume "x \<in> fst ` set (token_writes side V)"
      then have "x \<in> set (map fst (token_writes side V))" by simp
      then obtain sm' p where "(sm', p) \<in> set V" "x \<in> set (data_positions (nat sm')) \<or> x \<in> set (scale_positions side (nat sm'))"
        unfolding token_writes_keys [OF assms(1)] by auto
      then show False using that other positions_disjoint [of "nat sm'" sm] positions_cross by (metis disjoint_iff)
    qed
    then have z: "F ! x = 0" if "x \<in> set (data_positions sm) \<or> x \<in> set (scale_positions side sm)" for x
      using that positions_bound [OF page] unfolding assms(2) by (simp add: scatter_other)
    have zs: "map ((!) F) xs = replicate (length xs) 0" if "\<forall>x \<in> set xs. F ! x = 0" for xs
      using that by (induction xs) auto
    have "map ((!) F) (data_positions sm) = replicate DATA_BYTES 0" "map ((!) F) (scale_positions side sm) = replicate SCALE_BYTES 0"
      using zs [of "data_positions sm"] zs [of "scale_positions side sm"] z by simp_all
    from tok [OF this] show "token_values side (chunks_of num_pages SLOT_REGION F ! (sm div POOL_BLOCK_SIZE)) (sm mod POOL_BLOCK_SIZE) =
        replicate HEAD_DIM (Some 0)" by (simp add: zero_values)
  }
qed

lemma map_fst_filter_zip:
  "length xs = length ys \<Longrightarrow> map fst (filter (\<lambda>(x, y). P x) (zip xs ys)) = filter P xs"
  by (induction rule: list_induct2) auto

text \<open>The scatter is one of these writes.\<close>

lemma scatter_q4_tokens_writes:
  assumes "\<forall>r \<in> set values. length r = HEAD_DIM" "length slot_mapping = length values"
    "distinct (filter (\<lambda>sm. 0 \<le> sm) slot_mapping)" "\<forall>sm \<in> set slot_mapping. sm < int (num_pages * POOL_BLOCK_SIZE)"
  obtains packed V where "list_all2 (\<lambda>r p. pack_q4_row fo r = Inr p) values packed"
    "V = filter (\<lambda>(sm, p). 0 \<le> sm) (zip slot_mapping packed)" "writable num_pages V"
    "scatter_q4_tokens fo values slot_mapping num_pages slot =
       Inr (chunks_of num_pages SLOT_REGION (scatter (replicate (num_pages * SLOT_REGION) 0) (token_writes (int (slot mod 2)) V)))"
proof -
  let ?side = "int (slot mod 2)"
  define packed where "packed = map (\<lambda>r. projr (pack_q4_row fo r)) values"
  have p: "pack_q4_row fo r = Inr (projr (pack_q4_row fo r)) \<and> length (fst (projr (pack_q4_row fo r))) = DATA_BYTES \<and>
      length (snd (projr (pack_q4_row fo r))) = SCALE_BYTES" if "r \<in> set values" for r
    using pack_q4_row_total [of r fo] assms(1) that by (metis fst_conv snd_conv sum.sel(2))
  then have all: "list_all2 (\<lambda>r p. pack_q4_row fo r = Inr p) values packed"
    by (simp add: packed_def list.rel_map list.rel_refl_strong)
  define V where "V = filter (\<lambda>(sm, p). 0 \<le> sm) (zip slot_mapping packed)"
  have "map fst V = filter (\<lambda>sm. 0 \<le> sm) slot_mapping" using assms(2) by (simp add: V_def packed_def map_fst_filter_zip)
  moreover have "q \<in> set packed \<and> sm \<in> set slot_mapping \<and> 0 \<le> sm" if "(sm, q) \<in> set V" for sm q
    using that set_zip_leftD [of sm q slot_mapping packed] set_zip_rightD [of sm q slot_mapping packed] by (simp add: V_def)
  ultimately have W: "writable num_pages V" using assms(3,4) p by (fastforce simp: writable_def packed_def)
  have "scatter_q4_tokens fo values slot_mapping num_pages slot =
      Inr (chunks_of num_pages SLOT_REGION (scatter (replicate (num_pages * SLOT_REGION) 0) (token_writes ?side V)))"
  proof (cases "list_ex (\<lambda>sm. 0 \<le> sm) slot_mapping")
    case True
    have "\<not> list_ex (\<lambda>(i, v). num_pages * SLOT_REGION \<le> i) (token_writes ?side V)"
      using token_writes_distinct(2) [OF W, of ?side] by (fastforce simp: list_ex_iff)
    then show ?thesis
      using True assms(2) all by (simp add: scatter_q4_tokens_def map_res_Inr_iff [symmetric] Let_def token_writes_def scatter_append flip: V_def)
  next
    case False
    then have "V = []" by (auto simp: V_def filter_empty_conv list_ex_iff dest: set_zip_leftD)
    then show ?thesis using False all by (simp add: scatter_q4_tokens_def map_res_Inr_iff [symmetric] Let_def token_writes_def)
  qed
  then show thesis using that all V_def W by blast
qed

text \<open>C30: what the write path scatters into the pool is what a reader decodes.  For distinct slots inside the
pool, the scatter succeeds, and every token with a slot reads back, at its page and place, as its row
packed and unpacked alone; a place no token was written to reads as zeros.\<close>

theorem scattered_tokens_read_back:
  assumes "\<forall>r \<in> set values. length r = HEAD_DIM" "length slot_mapping = length values"
    "distinct (filter (\<lambda>sm. 0 \<le> sm) slot_mapping)" "\<forall>sm \<in> set slot_mapping. sm < int (num_pages * POOL_BLOCK_SIZE)"
  shows "\<exists>out. scatter_q4_tokens fo values slot_mapping num_pages slot = Inr out \<and> length out = num_pages \<and>
    (\<forall>i < length values. 0 \<le> slot_mapping ! i \<longrightarrow>
       bind_res (pack_q4_row fo (values ! i)) (\<lambda>(d, s). unpack_q4_row d s) =
         Inr (token_values (int (slot mod 2)) (out ! (nat (slot_mapping ! i) div POOL_BLOCK_SIZE)) (nat (slot_mapping ! i) mod POOL_BLOCK_SIZE))) \<and>
    (\<forall>sm < num_pages * POOL_BLOCK_SIZE. int sm \<notin> set slot_mapping \<longrightarrow>
       token_values (int (slot mod 2)) (out ! (sm div POOL_BLOCK_SIZE)) (sm mod POOL_BLOCK_SIZE) = replicate HEAD_DIM (Some 0))"
proof -
  let ?side = "int (slot mod 2)"
  obtain packed V where p: "list_all2 (\<lambda>r p. pack_q4_row fo r = Inr p) values packed"
    "V = filter (\<lambda>(sm, p). 0 \<le> sm) (zip slot_mapping packed)" "writable num_pages V"
    "scatter_q4_tokens fo values slot_mapping num_pages slot =
       Inr (chunks_of num_pages SLOT_REGION (scatter (replicate (num_pages * SLOT_REGION) 0) (token_writes ?side V)))"
    using scatter_q4_tokens_writes [OF assms] .
  define out where "out = chunks_of num_pages SLOT_REGION (scatter (replicate (num_pages * SLOT_REGION) 0) (token_writes ?side V))"
  note tok = token_values_written [where side = ?side, OF p(3) refl, folded out_def]
  show ?thesis
  proof (intro exI [of _ out] conjI allI impI)
    fix i assume i: "i < length values" "0 \<le> slot_mapping ! i"
    let ?sm = "nat (slot_mapping ! i)"
    have pi: "pack_q4_row fo (values ! i) = Inr (packed ! i)" "i < length packed"
      using list_all2_nthD [OF p(1) i(1)] list_all2_lengthD [OF p(1)] i(1) by simp_all
    have "(slot_mapping ! i, packed ! i) \<in> set V"
      unfolding p(2) using i pi(2) assms(2) by (auto simp: set_zip)
    then have v: "(int ?sm, packed ! i) \<in> set V" using i(2) by simp
    from writableD(2-4) [OF p(3) v]
    have "?sm < num_pages * POOL_BLOCK_SIZE" "length (fst (packed ! i)) = DATA_BYTES" "length (snd (packed ! i)) = SCALE_BYTES"
      by (simp_all only: nat_int)
    then show "bind_res (pack_q4_row fo (values ! i)) (\<lambda>(d, s). unpack_q4_row d s) =
        Inr (token_values ?side (out ! (?sm div POOL_BLOCK_SIZE)) (?sm mod POOL_BLOCK_SIZE))"
      using tok(1) [OF _ v] pi(1) by (auto simp: unpack_q4_row_def geometry_defs split: prod.split)
  next
    fix sm assume sm: "sm < num_pages * POOL_BLOCK_SIZE" "int sm \<notin> set slot_mapping"
    have "fst ` set V \<subseteq> set slot_mapping" unfolding p(2) by (auto dest: set_zip_leftD)
    then show "token_values ?side (out ! (sm div POOL_BLOCK_SIZE)) (sm mod POOL_BLOCK_SIZE) = replicate HEAD_DIM (Some 0)"
      using tok(2) [OF sm(1)] sm(2) by blast
  qed (simp_all add: p(4) out_def)
qed

text \<open>One slot pair of constant rows, and the trivial rounding operations.\<close>

definition exact_ops :: f32_ops where
  "exact_ops = \<lparr>fo_bf16 = id, fo_div = \<lambda>a b. a, fo_mul = \<lambda>a b. a, fo_of = \<lambda>r. 0x3F800000\<rparr>"

lemma page_roundtrip_witness:
  "\<exists>page vals. pack_pool_page exact_ops [replicate 128 (replicate 128 0x3F800000)] = Inr page \<and>
     length page = SLOT_REGION \<and> unpack_pool_page page = Inr vals"
  using page_roundtrip [of "[replicate 128 (replicate 128 0x3F800000)]" exact_ops] by (auto simp: geometry_defs)

lemma scattered_tokens_read_back_witness:
  "\<exists>out. scatter_q4_tokens exact_ops [replicate 128 0x3F800000, replicate 128 0x40000000] [130, 5] 2 1 = Inr out \<and> length out = 2"
  using scattered_tokens_read_back [of "[replicate 128 0x3F800000, replicate 128 0x40000000]" "[130, 5]" 2 exact_ops 1]
  by (auto simp: geometry_defs)

end
