(* ===== verification/Q4kv_Plan.thy ===== *)
theory Q4kv_Plan
  imports Prelude
begin

text \<open>
  Planning of the memory-bounded prefill over the 4-bit KV pool
  (\<open>src/vllm_exl3/minimax_q4kv_reference.py\<close>): the bitmap of the pages each request selects, the two
  greedy partitions of its rows under a page cap (the scan with chunks that double, and the one on the
  union curve), the slices of a plan, and the metadata of a slice's kernel call.
\<close>

section \<open>Rows of a selection bitmap\<close>

type_synonym bitmap = "bool list list"

definition or_row :: "bool list \<Rightarrow> bool list \<Rightarrow> bool list" where
  "or_row u r = map2 (\<or>) u r"

definition any_rows :: "nat \<Rightarrow> bitmap \<Rightarrow> bool list" where
  "any_rows nb rs = fold (\<lambda>r u. or_row u r) rs (replicate nb False)"

definition row_sum :: "bool list \<Rightarrow> nat" where
  "row_sum u = length (filter id u)"

section \<open>The scan with doubling chunks\<close>

text \<open>\<open>break_row\<close>: the first row that takes the union over the cap.\<close>

function break_row :: "bitmap \<Rightarrow> nat \<Rightarrow> bool list \<Rightarrow> nat \<Rightarrow> nat \<Rightarrow> nat" where
  "break_row bm cap u lo hi =
     (if lo < hi then
        let u' = or_row u (bm ! lo) in
        if cap < row_sum u' then lo else break_row bm cap u' (Suc lo) hi
      else hi)"
  by pat_completeness auto

termination
  by (relation "measure (\<lambda>(_, _, _, lo, hi). hi - lo)") auto

declare break_row.simps [simp del]

text \<open>
  The inner loop: \<open>Some i\<close> when the range closes before row \<open>i\<close>, \<open>None\<close> when the rows are exhausted.
  The step starts at 8 and never is zero, for which the loop of the code would not end.
\<close>

function grow :: "bitmap \<Rightarrow> nat \<Rightarrow> nat \<Rightarrow> bool list \<Rightarrow> nat \<Rightarrow> nat \<Rightarrow> nat option" where
  "grow bm nb cap u e step =
     (if e < length bm \<and> 0 < step then
        let nxt = min (e + step) (length bm);
            probe = or_row u (any_rows nb (take (nxt - e) (drop e bm))) in
        if row_sum probe \<le> cap then grow bm nb cap probe nxt (min (step * 2) 512)
        else Some (break_row bm cap u e nxt)
      else None)"
  by pat_completeness auto

termination
  by (relation "measure (\<lambda>(bm, _, _, _, e, _). length bm - e)") auto

declare grow.simps [simp del]

lemma break_row_ge: "lo \<le> hi \<Longrightarrow> lo \<le> break_row bm cap u lo hi \<and> break_row bm cap u lo hi \<le> hi"
proof (induction bm cap u lo hi rule: break_row.induct)
  case (1 bm cap u lo hi)
  then show ?case by (subst (1 2) break_row.simps) (auto simp: Let_def)
qed

lemma grow_ge: "grow bm nb cap u e step = Some i \<Longrightarrow> e \<le> i \<and> i \<le> length bm"
proof (induction bm nb cap u e step rule: grow.induct)
  case (1 bm nb cap u e step)
  let ?nxt = "min (e + step) (length bm)"
  let ?probe = "or_row u (any_rows nb (take (?nxt - e) (drop e bm)))"
  have run: "e < length bm \<and> 0 < step"
    using 1(2) by (simp add: grow.simps [of bm nb cap u e step] split: if_splits)
  show ?case
  proof (cases "row_sum ?probe \<le> cap")
    case True
    then have "grow bm nb cap ?probe ?nxt (min (step * 2) 512) = Some i"
      using 1(2) run by (simp add: grow.simps [of bm nb cap u e step] Let_def)
    then show ?thesis using 1(1) [OF run refl refl True] run by (simp add: min_def split: if_splits)
  next
    case False
    then have "i = break_row bm cap u e ?nxt"
      using 1(2) run by (simp add: grow.simps [of bm nb cap u e step] Let_def)
    then show ?thesis using break_row_ge [of e ?nxt bm cap u] run by simp
  qed
qed

function greedy_from :: "bitmap \<Rightarrow> nat \<Rightarrow> nat \<Rightarrow> nat \<Rightarrow> (nat \<times> nat) list" where
  "greedy_from bm nb cap start =
     (if start < length bm then
        if cap < row_sum (bm ! start) then (start, Suc start) # greedy_from bm nb cap (Suc start)
        else (case grow bm nb cap (bm ! start) (Suc start) 8 of
            Some i \<Rightarrow> (start, i) # greedy_from bm nb cap i
          | None \<Rightarrow> [(start, length bm)])
      else [])"
  by pat_completeness auto

termination
  by (relation "measure (\<lambda>(bm, _, _, start). length bm - start)") (auto dest: grow_ge)

declare greedy_from.simps [simp del]

definition greedy_row_slices :: "nat \<Rightarrow> bitmap \<Rightarrow> nat \<Rightarrow> (nat \<times> nat) list" where
  "greedy_row_slices nb bm cap = greedy_from bm nb cap 0"

section \<open>The union curve\<close>

definition first_row_at_or_after :: "bitmap \<Rightarrow> nat \<Rightarrow> nat \<Rightarrow> nat" where
  "first_row_at_or_after bm a p =
     foldr (\<lambda>i acc. min (if bm ! i ! p then i else length bm) acc) [a..<length bm] (length bm)"

text \<open>\<open>torch.searchsorted(ordered, bs, right=False)\<close> on a sorted sequence counts the smaller entries.\<close>

definition searchsorted_left :: "nat list \<Rightarrow> nat \<Rightarrow> nat" where
  "searchsorted_left xs x = length (filter (\<lambda>y. y < x) xs)"

definition union_curve :: "nat \<Rightarrow> bitmap \<Rightarrow> nat \<Rightarrow> nat list" where
  "union_curve nb bm a =
     (let ordered = sort (map (first_row_at_or_after bm a) [0..<nb]) in
      map (searchsorted_left ordered) [a..<Suc (length bm)])"

text \<open>Python's \<open>bisect.bisect_right\<close>.\<close>

function bisect_between :: "nat list \<Rightarrow> nat \<Rightarrow> nat \<Rightarrow> nat \<Rightarrow> nat" where
  "bisect_between xs x lo hi =
     (if lo < hi then
        let mid = (lo + hi) div 2 in
        if x < xs ! mid then bisect_between xs x lo mid else bisect_between xs x (Suc mid) hi
      else lo)"
  by pat_completeness auto

termination
  by (relation "measure (\<lambda>(_, _, lo, hi). hi - lo)") auto

declare bisect_between.simps [simp del]

definition bisect_right :: "nat list \<Rightarrow> nat \<Rightarrow> nat" where
  "bisect_right xs x = bisect_between xs x 0 (length xs)"

definition slice_length :: "nat \<Rightarrow> bitmap \<Rightarrow> nat \<Rightarrow> nat \<Rightarrow> nat" where
  "slice_length nb bm cap start =
     (let k = int (bisect_right (union_curve nb bm start) cap) - 1 in if k \<le> 0 then 1 else nat k)"

function greedy_fast_from :: "bitmap \<Rightarrow> nat \<Rightarrow> nat \<Rightarrow> nat \<Rightarrow> (nat \<times> nat) list" where
  "greedy_fast_from bm nb cap start =
     (if start < length bm then
        let k = slice_length nb bm cap start in (start, start + k) # greedy_fast_from bm nb cap (start + k)
      else [])"
  by pat_completeness auto

termination
  by (relation "measure (\<lambda>(bm, _, _, start). length bm - start)") (auto simp: slice_length_def Let_def)

declare greedy_fast_from.simps [simp del]

definition greedy_row_slices_fast :: "nat \<Rightarrow> bitmap \<Rightarrow> nat \<Rightarrow> (nat \<times> nat) list" where
  "greedy_row_slices_fast nb bm cap = greedy_fast_from bm nb cap 0"

section \<open>What a greedy range is\<close>

text \<open>The pages that some row of \<open>[s, e)\<close> selects.\<close>

definition covered :: "nat \<Rightarrow> bitmap \<Rightarrow> nat \<Rightarrow> nat \<Rightarrow> nat set" where
  "covered nb bm s e = {p. p < nb \<and> (\<exists>i. s \<le> i \<and> i < e \<and> bm ! i ! p)}"

text \<open>
  The range from \<open>s\<close> ends at \<open>i\<close>: its union fits the cap or it is a single row, and one row more would
  not fit.
\<close>

definition range_end :: "nat \<Rightarrow> bitmap \<Rightarrow> nat \<Rightarrow> nat \<Rightarrow> nat \<Rightarrow> bool" where
  "range_end nb bm cap s i \<longleftrightarrow>
     s < i \<and> i \<le> length bm \<and> (i = Suc s \<or> card (covered nb bm s i) \<le> cap) \<and>
     (i < length bm \<longrightarrow> cap < card (covered nb bm s (Suc i)))"

lemma range_end_bounds: "range_end nb bm cap s i \<Longrightarrow> s < i \<and> i \<le> length bm"
  by (simp add: range_end_def)

lemma finite_covered [simp]: "finite (covered nb bm s e)"
  unfolding covered_def by (rule finite_subset [of _ "{..<nb}"]) auto

lemma covered_mono: "e \<le> e' \<Longrightarrow> card (covered nb bm s e) \<le> card (covered nb bm s e')"
  by (rule card_mono) (auto simp: covered_def)

lemma covered_Suc: "s \<le> e \<Longrightarrow> covered nb bm s (Suc e) = covered nb bm s e \<union> {p. p < nb \<and> bm ! e ! p}"
  by (auto simp: covered_def less_Suc_eq)

lemma range_end_unique:
  assumes "range_end nb bm cap s i" "range_end nb bm cap s j"
  shows "i = j"
proof -
  have "\<not> i < j" if "range_end nb bm cap s i" "range_end nb bm cap s j" for i j
  proof
    assume "i < j"
    then have "cap < card (covered nb bm s (Suc i))" "card (covered nb bm s j) \<le> cap"
      using that by (auto simp: range_end_def)
    then show False using covered_mono [of "Suc i" j nb bm s] \<open>i < j\<close> by simp
  qed
  then show ?thesis using assms by (metis linorder_neqE_nat)
qed

text \<open>A row stands for its set of pages.\<close>

definition stands_for :: "nat \<Rightarrow> bool list \<Rightarrow> nat set \<Rightarrow> bool" where
  "stands_for nb u S \<longleftrightarrow> length u = nb \<and> S = {p. p < nb \<and> u ! p}"

lemma row_sum_card: "stands_for nb u S \<Longrightarrow> row_sum u = card S"
  unfolding stands_for_def row_sum_def by (simp add: length_filter_conv_card)

lemma stands_for_or:
  "stands_for nb u S \<Longrightarrow> stands_for nb r T \<Longrightarrow> stands_for nb (or_row u r) (S \<union> T)"
  by (auto simp: stands_for_def or_row_def)

lemma stands_for_any:
  assumes "\<forall>r \<in> set rs. length r = nb"
  shows "stands_for nb (any_rows nb rs) {p. p < nb \<and> (\<exists>r \<in> set rs. r ! p)}"
proof -
  have "stands_for nb (fold (\<lambda>r u. or_row u r) rs u) (S \<union> {p. p < nb \<and> (\<exists>r \<in> set rs. r ! p)})" if "stands_for nb u S" for u S
    using assms that
  proof (induction rs arbitrary: u S)
    case Nil
    then show ?case by (auto simp: stands_for_def)
  next
    case (Cons r rs)
    have "stands_for nb r {p. p < nb \<and> r ! p}" using Cons.prems(1) by (auto simp: stands_for_def)
    then have "stands_for nb (or_row u r) (S \<union> {p. p < nb \<and> r ! p})" using stands_for_or Cons.prems(2) by blast
    then have "stands_for nb (fold (\<lambda>r u. or_row u r) rs (or_row u r))
        (S \<union> {p. p < nb \<and> r ! p} \<union> {p. p < nb \<and> (\<exists>r \<in> set rs. r ! p)})"
      using Cons.IH Cons.prems(1) by simp
    moreover have "S \<union> {p. p < nb \<and> r ! p} \<union> {p. p < nb \<and> (\<exists>r \<in> set rs. r ! p)}
        = S \<union> {p. p < nb \<and> (\<exists>r \<in> set (r # rs). r ! p)}" by auto
    ultimately show ?case by simp
  qed
  moreover have "stands_for nb (replicate nb False) {}" by (auto simp: stands_for_def)
  ultimately show ?thesis unfolding any_rows_def by fastforce
qed

lemma stands_for_rows:
  assumes "\<forall>r \<in> set bm. length r = nb" "b \<le> length bm"
  shows "stands_for nb (any_rows nb (take (b - a) (drop a bm))) (covered nb bm a b)"
proof -
  let ?rs = "take (b - a) (drop a bm)"
  have "\<forall>r \<in> set ?rs. length r = nb" using assms(1) by (auto dest: in_set_takeD in_set_dropD)
  moreover have "(\<exists>r \<in> set ?rs. r ! p) \<longleftrightarrow> (\<exists>i. a \<le> i \<and> i < b \<and> bm ! i ! p)" for p
  proof
    assume "\<exists>r \<in> set ?rs. r ! p"
    then obtain j where "j < length ?rs" "?rs ! j ! p" by (metis in_set_conv_nth)
    then show "\<exists>i. a \<le> i \<and> i < b \<and> bm ! i ! p" using assms(2) by (intro exI [of _ "a + j"]) auto
  next
    assume "\<exists>i. a \<le> i \<and> i < b \<and> bm ! i ! p"
    then obtain i where i: "a \<le> i" "i < b" "bm ! i ! p" by blast
    then have "?rs ! (i - a) = bm ! i" "i - a < length ?rs" using assms(2) by auto
    then show "\<exists>r \<in> set ?rs. r ! p" using i(3) by (metis nth_mem)
  qed
  ultimately show ?thesis using stands_for_any [of ?rs nb] by (simp add: covered_def)
qed

lemma stands_for_row:
  assumes "\<forall>r \<in> set bm. length r = nb" "e < length bm"
  shows "stands_for nb (bm ! e) (covered nb bm e (Suc e))"
  using assms by (auto simp: stands_for_def covered_def less_Suc_eq)

lemma covered_append: "a \<le> b \<Longrightarrow> b \<le> c \<Longrightarrow> covered nb bm a c = covered nb bm a b \<union> covered nb bm b c"
proof -
  assume "a \<le> b" "b \<le> c"
  then have "(\<exists>i. a \<le> i \<and> i < c \<and> bm ! i ! p) \<longleftrightarrow>
      (\<exists>i. a \<le> i \<and> i < b \<and> bm ! i ! p) \<or> (\<exists>i. b \<le> i \<and> i < c \<and> bm ! i ! p)" for p
    by (meson le_trans less_le_trans not_le_imp_less)
  then show ?thesis by (auto simp: covered_def)
qed

lemma break_row_end:
  assumes "\<forall>r \<in> set bm. length r = nb" "stands_for nb u (covered nb bm s lo)" "card (covered nb bm s lo) \<le> cap"
    and "s < lo" "lo \<le> hi" "hi \<le> length bm" "cap < card (covered nb bm s hi)"
  shows "range_end nb bm cap s (break_row bm cap u lo hi)"
  using assms
proof (induction bm cap u lo hi rule: break_row.induct)
  case (1 bm cap u lo hi)
  have lt: "lo < hi" using 1(4,6,8) by (cases "lo = hi") auto
  let ?u = "or_row u (bm ! lo)"
  have row: "stands_for nb (bm ! lo) (covered nb bm lo (Suc lo))"
    using stands_for_row 1(2,7) lt by simp
  have u: "stands_for nb ?u (covered nb bm s (Suc lo))"
    using stands_for_or [OF 1(3) row] covered_append [of s lo "Suc lo" nb bm] 1(5) by simp
  show ?case
  proof (cases "cap < row_sum ?u")
    case True
    then have "cap < card (covered nb bm s (Suc lo))" using row_sum_card [OF u] by simp
    then show ?thesis
      using True lt 1(4,5,7) by (simp add: break_row.simps [of bm cap u lo hi] Let_def range_end_def)
  next
    case False
    then have "card (covered nb bm s (Suc lo)) \<le> cap" using row_sum_card [OF u] by simp
    then have "range_end nb bm cap s (break_row bm cap ?u (Suc lo) hi)"
      using 1(1) [OF lt refl False 1(2) u] 1(5,7,8) lt by simp
    then show ?thesis using False lt by (simp add: break_row.simps [of bm cap u lo hi] Let_def)
  qed
qed

lemma grow_end:
  assumes "\<forall>r \<in> set bm. length r = nb" "stands_for nb u (covered nb bm s e)" "card (covered nb bm s e) \<le> cap"
    and "s < e" "e \<le> length bm" "0 < step"
  shows "range_end nb bm cap s (case grow bm nb cap u e step of Some i \<Rightarrow> i | None \<Rightarrow> length bm)"
  using assms
proof (induction bm nb cap u e step rule: grow.induct)
  case (1 bm nb cap u e step)
  let ?nxt = "min (e + step) (length bm)"
  let ?probe = "or_row u (any_rows nb (take (?nxt - e) (drop e bm)))"
  show ?case
  proof (cases "e < length bm")
    case False
    then have "grow bm nb cap u e step = None" by (simp add: grow.simps [of bm nb cap u e step])
    then show ?thesis using 1 False by (simp add: range_end_def)
  next
    case lt: True
    then have run: "e < length bm \<and> 0 < step" using 1 by simp
    have n: "e < ?nxt" "?nxt \<le> length bm" using run by auto
    have p: "stands_for nb ?probe (covered nb bm s ?nxt)"
      using stands_for_or [OF 1(3) stands_for_rows [OF 1(2) n(2), of e]] covered_append [of s e ?nxt nb bm] 1(5) n by simp
    show ?thesis
    proof (cases "row_sum ?probe \<le> cap")
      case True
      then have "range_end nb bm cap s (case grow bm nb cap ?probe ?nxt (min (step * 2) 512) of Some i \<Rightarrow> i | None \<Rightarrow> length bm)"
        using 1(1) [OF run refl refl True 1(2) p] row_sum_card [OF p] 1(5) n run by simp
      then show ?thesis using True run by (simp add: grow.simps [of bm nb cap u e step] Let_def)
    next
      case False
      then have "range_end nb bm cap s (break_row bm cap u e ?nxt)"
        using break_row_end [OF 1(2,3,4,5)] row_sum_card [OF p] n by simp
      then show ?thesis using False run by (simp add: grow.simps [of bm nb cap u e step] Let_def)
    qed
  qed
qed

section \<open>The greedy partition\<close>

fun greedy_ranges :: "nat \<Rightarrow> bitmap \<Rightarrow> nat \<Rightarrow> nat \<Rightarrow> (nat \<times> nat) list \<Rightarrow> bool" where
  "greedy_ranges nb bm cap s [] \<longleftrightarrow> s = length bm"
| "greedy_ranges nb bm cap s ((a, i) # rs) \<longleftrightarrow> a = s \<and> range_end nb bm cap s i \<and> greedy_ranges nb bm cap i rs"

lemma greedy_ranges_unique:
  "greedy_ranges nb bm cap s xs \<Longrightarrow> greedy_ranges nb bm cap s ys \<Longrightarrow> xs = ys"
proof (induction xs arbitrary: s ys)
  case Nil
  then show ?case by (cases ys) (auto simp: range_end_def)
next
  case (Cons x xs)
  obtain i where x: "x = (s, i)" "range_end nb bm cap s i" "greedy_ranges nb bm cap i xs"
    using Cons.prems(1) by (cases x) auto
  show ?case
  proof (cases ys)
    case Nil
    then show ?thesis using Cons.prems(2) range_end_bounds [OF x(2)] by simp
  next
    case (Cons y zs)
    then obtain j where "y = (s, j)" "range_end nb bm cap s j" "greedy_ranges nb bm cap j zs"
      using Cons.prems(2) by (cases y) auto
    then show ?thesis using Cons x range_end_unique [of nb bm cap s i j] Cons.IH by simp
  qed
qed

lemma greedy_from_ranges:
  assumes "\<forall>r \<in> set bm. length r = nb" "start \<le> length bm"
  shows "greedy_ranges nb bm cap start (greedy_from bm nb cap start)"
  using assms
proof (induction bm nb cap start rule: greedy_from.induct)
  case (1 bm nb cap start)
  show ?case
  proof (cases "start < length bm")
    case False
    then have "greedy_from bm nb cap start = []" by (simp add: greedy_from.simps [of bm nb cap start])
    then show ?thesis using 1(4) False by simp
  next
    case lt: True
    have row: "stands_for nb (bm ! start) (covered nb bm start (Suc start))" using stands_for_row 1(3) lt by simp
    show ?thesis
    proof (cases "cap < row_sum (bm ! start)")
      case True
      then have "cap < card (covered nb bm start (Suc (Suc start)))"
        using row_sum_card [OF row] covered_mono [of "Suc start" "Suc (Suc start)" nb bm start] by simp
      then show ?thesis
        using True lt 1(1) [OF lt True 1(3)]
        by (simp add: greedy_from.simps [of bm nb cap start] range_end_def)
    next
      case False
      then have e: "range_end nb bm cap start (case grow bm nb cap (bm ! start) (Suc start) 8 of Some i \<Rightarrow> i | None \<Rightarrow> length bm)"
        using grow_end [OF 1(3) row] row_sum_card [OF row] lt by simp
      show ?thesis
      proof (cases "grow bm nb cap (bm ! start) (Suc start) 8")
        case None
        then show ?thesis using False lt e by (simp add: greedy_from.simps [of bm nb cap start])
      next
        case (Some i)
        then have "i \<le> length bm" using grow_ge by blast
        then show ?thesis
          using Some False lt e 1(2) [OF lt False _ 1(3), of i] by (simp add: greedy_from.simps [of bm nb cap start])
      qed
    qed
  qed
qed

section \<open>The union curve gives the same partition\<close>

lemma first_row_less:
  assumes "b \<le> length bm"
  shows "first_row_at_or_after bm a p < b \<longleftrightarrow> (\<exists>i. a \<le> i \<and> i < b \<and> bm ! i ! p)"
proof -
  have "foldr (\<lambda>i acc. min (if bm ! i ! p then i else length bm) acc) js (length bm) < b \<longleftrightarrow> (\<exists>i \<in> set js. i < b \<and> bm ! i ! p)"
    for js
    using assms by (induction js) (auto simp: min_less_iff_disj)
  then show ?thesis using assms by (auto simp: first_row_at_or_after_def)
qed

lemma union_curve_covered:
  "union_curve nb bm a = map (\<lambda>e. card (covered nb bm a e)) [a..<Suc (length bm)]"
proof -
  have "searchsorted_left (sort (map (first_row_at_or_after bm a) [0..<nb])) b = card (covered nb bm a b)"
    if b: "b \<le> length bm" for b
  proof -
    have "searchsorted_left (sort xs) b = length (filter (\<lambda>y. y < b) xs)" for xs
      unfolding searchsorted_left_def by (metis mset_filter mset_sort size_mset)
    then have "searchsorted_left (sort (map (first_row_at_or_after bm a) [0..<nb])) b
        = length (filter (\<lambda>p. first_row_at_or_after bm a p < b) [0..<nb])"
      by (simp add: filter_map comp_def)
    also have "\<dots> = card {p. p < nb \<and> first_row_at_or_after bm a p < b}"
      by (simp add: length_filter_conv_card) (rule arg_cong [where f = card], auto)
    finally show ?thesis using first_row_less [OF b] by (simp add: covered_def)
  qed
  then show ?thesis unfolding union_curve_def Let_def by (intro map_cong refl) auto
qed

lemma bisect_between_split:
  assumes "sorted xs" "lo \<le> hi" "hi \<le> length xs" "\<forall>i < lo. xs ! i \<le> x" "\<forall>i. hi \<le> i \<and> i < length xs \<longrightarrow> x < xs ! i"
  shows "bisect_between xs x lo hi \<le> length xs \<and> (\<forall>i < bisect_between xs x lo hi. xs ! i \<le> x) \<and>
    (\<forall>i. bisect_between xs x lo hi \<le> i \<and> i < length xs \<longrightarrow> x < xs ! i)"
  using assms
proof (induction xs x lo hi rule: bisect_between.induct)
  case (1 xs x lo hi)
  let ?mid = "(lo + hi) div 2"
  show ?case
  proof (cases "lo < hi")
    case False
    then have "bisect_between xs x lo hi = lo" by (simp add: bisect_between.simps [of xs x lo hi])
    moreover have "lo = hi" using False 1(4) by simp
    ultimately show ?thesis using 1(5-7) by simp
  next
    case lt: True
    show ?thesis
    proof (cases "x < xs ! ?mid")
      case True
      then have "\<forall>i. ?mid \<le> i \<and> i < length xs \<longrightarrow> x < xs ! i"
        using 1(3) by (meson less_le_trans sorted_nth_mono)
      then show ?thesis
        using True lt 1(1) [OF lt refl True 1(3) _ _ 1(6)] 1(5) by (simp add: bisect_between.simps [of xs x lo hi])
    next
      case False
      have "xs ! i \<le> x" if "i < Suc ?mid" for i
        using sorted_nth_mono [OF 1(3), of i ?mid] that False lt 1(5) by force
      then show ?thesis
        using False lt 1(2) [OF lt refl False 1(3) _ 1(5) _ 1(7)] by (simp add: bisect_between.simps [of xs x lo hi])
    qed
  qed
qed

lemma slice_length_end:
  assumes "s < length bm"
  shows "range_end nb bm cap s (s + slice_length nb bm cap s)"
proof -
  let ?c = "union_curve nb bm s"
  let ?k = "bisect_right ?c cap"
  have len: "length ?c = Suc (length bm - s)" unfolding union_curve_covered using assms by simp
  have at: "?c ! j = card (covered nb bm s (s + j))" if "j \<le> length bm - s" for j
    unfolding union_curve_covered using that assms by (subst nth_map) (auto simp: nth_append le_imp_less_Suc)
  have "sorted ?c"
    unfolding union_curve_covered sorted_map by (rule sorted_wrt_mono_rel [OF _ sorted_wrt_upt]) (simp add: covered_mono)
  then have b: "?k \<le> length ?c" "\<forall>i < ?k. ?c ! i \<le> cap" "\<forall>i. ?k \<le> i \<and> i < length ?c \<longrightarrow> cap < ?c ! i"
    using bisect_between_split [of ?c 0 "length ?c" cap] unfolding bisect_right_def by auto
  have "covered nb bm s s = {}" by (auto simp: covered_def)
  then have "0 < ?k" using b(3) at [of 0] len by (cases ?k) auto
  then obtain k where k: "?k = Suc k" by (cases ?k) auto
  show ?thesis
  proof (cases k)
    case 0
    then have one: "slice_length nb bm cap s = 1" using k by (simp add: slice_length_def)
    have "cap < card (covered nb bm s (Suc s))" using b(3) [rule_format, of "Suc 0"] k 0 at [of "Suc 0"] len assms by simp
    then have "cap < card (covered nb bm s (Suc (Suc s)))"
      using covered_mono [of "Suc s" "Suc (Suc s)" nb bm s] by simp
    then show ?thesis using one assms by (simp add: range_end_def)
  next
    case (Suc j)
    then have l: "slice_length nb bm cap s = k" using k by (simp add: slice_length_def)
    have kb: "k \<le> length bm - s" using b(1) k len by simp
    have "card (covered nb bm s (s + k)) \<le> cap" using b(2) [rule_format, of k] k at [OF kb] by simp
    moreover have "cap < card (covered nb bm s (Suc (s + k)))" if "s + k < length bm"
      using b(3) [rule_format, of "Suc k"] k at [of "Suc k"] that len by simp
    ultimately show ?thesis using l Suc kb assms by (simp add: range_end_def)
  qed
qed

lemma greedy_fast_ranges:
  "start \<le> length bm \<Longrightarrow> greedy_ranges nb bm cap start (greedy_fast_from bm nb cap start)"
proof (induction bm nb cap start rule: greedy_fast_from.induct)
  case (1 bm nb cap start)
  show ?case
  proof (cases "start < length bm")
    case False
    then have "greedy_fast_from bm nb cap start = []" by (simp add: greedy_fast_from.simps [of bm nb cap start])
    then show ?thesis using False 1(2) by simp
  next
    case True
    note e = slice_length_end [OF True, of nb cap]
    have "greedy_ranges nb bm cap (start + slice_length nb bm cap start)
        (greedy_fast_from bm nb cap (start + slice_length nb bm cap start))"
      by (rule 1(1) [OF True refl]) (use range_end_bounds [OF e] in simp)
    then show ?thesis using True e by (simp add: greedy_fast_from.simps [of bm nb cap start] Let_def)
  qed
qed

lemma greedy_fast_same:
  assumes "\<forall>r \<in> set bm. length r = nb"
  shows "greedy_row_slices_fast nb bm cap = greedy_row_slices nb bm cap"
  unfolding greedy_row_slices_fast_def greedy_row_slices_def
  using greedy_ranges_unique greedy_fast_ranges [of 0 bm nb cap] greedy_from_ranges [OF assms, of 0 cap] by blast

section \<open>The plan\<close>

text \<open>
  The tensors of a call: the pool's shape, the block table with its number of columns, the top-k block
  ids per head and query, the number of queries, and the boundaries of the requests.
\<close>

record prefill_call =
  pc_nb :: nat
  pc_slots :: nat
  pc_tokens :: nat
  pc_width :: nat
  pc_table :: "int list list"
  pc_max_blocks :: nat
  pc_topk :: "int list list list"
  pc_total_q :: nat
  pc_cu :: "int list"

record prefill_slice =
  sl_reqs :: "nat list"
  sl_lo :: nat
  sl_hi :: nat
  sl_pages :: "nat list"
  sl_n :: nat

text \<open>\<open>repeat_interleave\<close> with its output size, which torch compares with the sum of the repeats.\<close>

definition req_of_q :: "int list \<Rightarrow> nat \<Rightarrow> nat list res" where
  "req_of_q cu total_q =
     (let n = length cu - 1; ls = map (\<lambda>r. cu ! Suc r - cu ! r) [0..<n] in
      if cu = [] \<or> list_ex (\<lambda>d. d < 0) ls \<or> sum_list ls \<noteq> int total_q then Inl RuntimeError
      else Inr (concat (map (\<lambda>r. replicate (nat (ls ! r)) r) [0..<n])))"

text \<open>
  One entry of \<open>phys\<close>: the lookup in the block table clamps the block from below only, so a block
  beyond the table's columns is an index error, although \<open>valid\<close> excludes it.
\<close>

definition phys_entry :: "prefill_call \<Rightarrow> nat \<Rightarrow> int \<Rightarrow> int res" where
  "phys_entry pc r blk =
     (let col = nat (max blk 0) in
      if length (pc_table pc) \<le> r \<or> pc_max_blocks pc \<le> col then Inl IndexError
      else let p = pc_table pc ! r ! col in
        Inr (if 0 \<le> blk \<and> blk < int (pc_max_blocks pc) \<and> 0 \<le> p \<and> p < int (pc_nb pc) then p else - 1))"

definition req_bitmap :: "nat \<Rightarrow> nat \<Rightarrow> nat list \<Rightarrow> int list list list \<Rightarrow> bitmap" where
  "req_bitmap num_reqs nb roq phys =
     map (\<lambda>r. map (\<lambda>p. list_ex (\<lambda>head. list_ex (\<lambda>(r', ps). r' = r \<and> int p \<in> set ps) (zip roq head)) phys) [0..<nb])
       [0..<num_reqs]"

definition selected_page_bitmap :: "prefill_call \<Rightarrow> (bitmap \<times> int list list list) res" where
  "selected_page_bitmap pc =
     bind_res (req_of_q (pc_cu pc) (pc_total_q pc)) (\<lambda>roq.
       bind_res (map_res (\<lambda>head. map_res (\<lambda>(r, blks). map_res (phys_entry pc r) blks) (zip roq head)) (pc_topk pc)) (\<lambda>phys.
         Inr (req_bitmap (length (pc_cu pc) - 1) (pc_nb pc) roq phys, phys)))"

definition row_union :: "nat \<Rightarrow> bitmap \<Rightarrow> nat \<Rightarrow> nat \<Rightarrow> nat list" where
  "row_union nb bm lo hi = filter (\<lambda>p. list_ex (\<lambda>i. bm ! i ! p) [lo..<hi]) [0..<nb]"

definition query_bitmap :: "nat \<Rightarrow> int list list list \<Rightarrow> nat \<Rightarrow> nat \<Rightarrow> bitmap" where
  "query_bitmap nb phys lo hi =
     map (\<lambda>j. map (\<lambda>p. list_ex (\<lambda>head. int p \<in> set (head ! j)) phys) [0..<nb]) [lo..<hi]"

definition new_slice :: "nat list \<Rightarrow> nat \<Rightarrow> nat \<Rightarrow> nat list \<Rightarrow> prefill_slice" where
  "new_slice reqs lo hi pages = \<lparr>sl_reqs = reqs, sl_lo = lo, sl_hi = hi, sl_pages = pages, sl_n = length pages\<rparr>"

text \<open>The slices of one range of requests; a request that exceeds the cap alone is split by its queries.\<close>

definition request_slices ::
  "(nat \<Rightarrow> bitmap \<Rightarrow> nat \<Rightarrow> (nat \<times> nat) list) \<Rightarrow> nat \<Rightarrow> nat \<Rightarrow> nat list \<Rightarrow> int list list list \<Rightarrow> bitmap \<Rightarrow> nat \<times> nat
    \<Rightarrow> prefill_slice list"
where
  "request_slices greedy nb cap cu phys bm rng =
     (let (rs, re) = rng; pages = row_union nb bm rs re in
      if re - rs = 1 \<and> cap < length pages then
        let lo = cu ! rs; hi = cu ! Suc rs; qbm = query_bitmap nb phys lo hi in
        map (\<lambda>(qs, qe). new_slice [rs] (lo + qs) (lo + qe) (row_union nb qbm qs qe)) (greedy nb qbm cap)
      else [new_slice [rs..<re] (cu ! rs) (cu ! re) pages])"

definition cu_ok :: "int list \<Rightarrow> nat \<Rightarrow> bool" where
  "cu_ok cu total_q \<longleftrightarrow>
     cu ! 0 = 0 \<and> last cu = int total_q \<and> list_all (\<lambda>(a, b). a \<le> b) (zip cu (tl cu))"

definition plan_with ::
  "(nat \<Rightarrow> bitmap \<Rightarrow> nat \<Rightarrow> (nat \<times> nat) list) \<Rightarrow> prefill_call \<Rightarrow> nat \<Rightarrow> int \<Rightarrow> prefill_slice list res"
where
  "plan_with greedy pc num_kv_heads max_pages =
     (if pc_slots pc \<noteq> 2 * num_kv_heads \<or> pc_tokens pc \<noteq> 128 \<or> pc_width pc \<noteq> 72 then Inl ValueError
      else if max_pages < 1 then Inl ValueError
      else bind_res (selected_page_bitmap pc) (\<lambda>(bm, phys).
        if \<not> cu_ok (pc_cu pc) (pc_total_q pc) then Inl ValueError
        else Inr (concat (map (request_slices greedy (pc_nb pc) (nat max_pages) (map nat (pc_cu pc)) phys bm)
          (greedy (pc_nb pc) bm (nat max_pages))))))"

definition plan_prefill_slices :: "prefill_call \<Rightarrow> nat \<Rightarrow> int \<Rightarrow> prefill_slice list res" where
  "plan_prefill_slices pc = plan_with greedy_row_slices pc"

definition plan_prefill_slices_fast :: "prefill_call \<Rightarrow> nat \<Rightarrow> int \<Rightarrow> prefill_slice list res" where
  "plan_prefill_slices_fast pc = plan_with greedy_row_slices_fast pc"

section \<open>The call of a slice\<close>

definition fits_int32 :: "int \<Rightarrow> bool" where
  "fits_int32 x \<longleftrightarrow> - (2 ^ 31) \<le> x \<and> x < 2 ^ 31"

fun accumulate :: "int \<Rightarrow> int list \<Rightarrow> int list" where
  "accumulate a [] = []"
| "accumulate a (x # xs) = (a + x) # accumulate (a + x) xs"

definition prefill_slice_metadata :: "prefill_slice \<Rightarrow> int list \<Rightarrow> int list \<Rightarrow> (int list \<times> int list \<times> int) res" where
  "prefill_slice_metadata sl cu prefix =
     (let members = sl_reqs sl; qs = int (sl_lo sl); qe = int (sl_hi sl) in
      if list_ex (\<lambda>m. length cu \<le> Suc m) members then Inl IndexError
      else let lens = map (\<lambda>m. min (cu ! Suc m) qe - max (cu ! m) qs) members in
        if sum_list lens \<noteq> qe - qs \<or> list_ex (\<lambda>le. le \<le> 0) lens then Inl ValueError
        else let cu_new = [0] @ butlast (accumulate 0 lens) @ [qe - qs] in
          if \<not> list_all fits_int32 cu_new then Inl RuntimeError
          else if list_ex (\<lambda>m. length prefix \<le> m) members then Inl IndexError
          else let prefix_new = map (\<lambda>m. prefix ! m + max (cu ! m) qs - cu ! m) members in
            if \<not> list_all fits_int32 prefix_new then Inl RuntimeError
            else if lens = [] then Inl ValueError
            else Inr (cu_new, prefix_new, Max (set lens)))"

section \<open>Lemmas on the plan\<close>

lemma req_bitmap_rows: "\<forall>r \<in> set (req_bitmap n nb roq phys). length r = nb"
  by (auto simp: req_bitmap_def)

lemma query_bitmap_rows: "\<forall>r \<in> set (query_bitmap nb phys lo hi). length r = nb"
  by (auto simp: query_bitmap_def)

text \<open>Both planners build the same slices.\<close>

lemma plan_fast_same: "plan_prefill_slices_fast pc num_kv_heads max_pages = plan_prefill_slices pc num_kv_heads max_pages"
proof -
  have s: "request_slices greedy_row_slices_fast nb cap cu phys bm rng = request_slices greedy_row_slices nb cap cu phys bm rng"
    for nb cap cu phys bm rng
    unfolding request_slices_def by (cases rng) (simp add: Let_def greedy_fast_same [OF query_bitmap_rows])
  have b: "\<forall>r \<in> set bm. length r = pc_nb pc" if "selected_page_bitmap pc = Inr (bm, phys)" for bm phys
    using that req_bitmap_rows by (auto simp: selected_page_bitmap_def bind_res_Inr)
  show ?thesis
    unfolding plan_prefill_slices_fast_def plan_prefill_slices_def plan_with_def
    by (cases "selected_page_bitmap pc") (auto simp: s [abs_def] greedy_fast_same [OF b])
qed

lemma greedy_ranges_mem:
  "greedy_ranges nb bm cap s xs \<Longrightarrow> (a, i) \<in> set xs \<Longrightarrow> range_end nb bm cap a i \<and> s \<le> a"
proof (induction xs arbitrary: s)
  case (Cons x xs)
  then obtain j where x: "x = (s, j)" "range_end nb bm cap s j" "greedy_ranges nb bm cap j xs"
    by (cases x) auto
  show ?case
  proof (cases "(a, i) \<in> set xs")
    case True
    then show ?thesis using Cons.IH [OF x(3)] range_end_bounds [OF x(2)] by simp
  next
    case False
    then show ?thesis using x(1,2) Cons.prems(2) by simp
  qed
qed simp

lemma greedy_ranges_concat:
  assumes "greedy_ranges nb bm cap s xs" "s \<le> length bm"
    and "\<And>a i. s \<le> a \<Longrightarrow> a < i \<Longrightarrow> i \<le> length bm \<Longrightarrow> f a i = [c a..<c i]"
    and "\<And>a i. s \<le> a \<Longrightarrow> a \<le> i \<Longrightarrow> i \<le> length bm \<Longrightarrow> c a \<le> (c i :: nat)"
  shows "concat (map (\<lambda>(a, i). f a i) xs) = [c s..<c (length bm)]"
  using assms
proof (induction xs arbitrary: s)
  case (Cons x xs)
  obtain i where x: "x = (s, i)" "range_end nb bm cap s i" "greedy_ranges nb bm cap i xs"
    using Cons.prems(1) by (cases x) auto
  have i: "s < i" "i \<le> length bm" using range_end_bounds [OF x(2)] by auto
  have "concat (map (\<lambda>(a, i). f a i) xs) = [c i..<c (length bm)]"
    using i Cons.prems(3,4) by (intro Cons.IH x) auto
  moreover have "f s i = [c s..<c i]" using Cons.prems(3) i by simp
  moreover have "c s \<le> c i" "c i \<le> c (length bm)" using Cons.prems(4) i by auto
  ultimately show ?case by (simp add: x upt_split)
qed simp

lemma card_row_union: "length (row_union nb bm lo hi) = card (covered nb bm lo hi)"
proof -
  have "length (row_union nb bm lo hi) = card (set (row_union nb bm lo hi))"
    by (rule distinct_card [symmetric]) (simp add: row_union_def)
  also have "set (row_union nb bm lo hi) = covered nb bm lo hi"
    by (auto simp: row_union_def covered_def list_ex_iff)
  finally show ?thesis .
qed

lemma set_row_union: "set (row_union nb bm lo hi) = covered nb bm lo hi"
  by (auto simp: row_union_def covered_def list_ex_iff)

lemma sorted_row_union: "sorted (row_union nb bm lo hi) \<and> distinct (row_union nb bm lo hi)"
  by (simp add: row_union_def sorted_filter [where f = id, simplified])

section \<open>Requests and queries\<close>

text \<open>Query \<open>j\<close> selects page \<open>p\<close>.\<close>

definition selects :: "int list list list \<Rightarrow> nat \<Rightarrow> nat \<Rightarrow> bool" where
  "selects phys j p \<longleftrightarrow> list_ex (\<lambda>head. j < length head \<and> int p \<in> set (head ! j)) phys"

text \<open>The boundaries \<open>c\<close> of \<open>n\<close> consecutive blocks.\<close>

definition boundaries :: "(nat \<Rightarrow> nat) \<Rightarrow> nat \<Rightarrow> bool" where
  "boundaries c n \<longleftrightarrow> c 0 = 0 \<and> (\<forall>r < n. c r \<le> c (Suc r))"

lemma boundaries_mono: "boundaries c n \<Longrightarrow> a \<le> b \<Longrightarrow> b \<le> n \<Longrightarrow> c a \<le> c b"
proof (induction b)
  case (Suc b)
  then show ?case by (cases "a = Suc b") (auto simp: boundaries_def intro: order_trans)
qed simp

lemma boundaries_cases:
  assumes "boundaries c n" "rs \<le> re" "re \<le> n"
  shows "(\<exists>r. rs \<le> r \<and> r < re \<and> c r \<le> j \<and> j < c (Suc r)) \<longleftrightarrow> c rs \<le> j \<and> j < c re"
  using assms
proof (induction re)
  case (Suc re)
  show ?case
  proof (cases "rs = Suc re")
    case False
    have le: "rs \<le> re" using False Suc.prems(2) by simp
    have "c rs \<le> c re" "c re \<le> c (Suc re)" using boundaries_mono Suc.prems False by auto
    moreover have "(\<exists>r. rs \<le> r \<and> r < Suc re \<and> c r \<le> j \<and> j < c (Suc r)) \<longleftrightarrow>
        (\<exists>r. rs \<le> r \<and> r < re \<and> c r \<le> j \<and> j < c (Suc r)) \<or> (c re \<le> j \<and> j < c (Suc re))"
      using le by (auto simp: less_Suc_eq)
    ultimately show ?thesis using Suc False by auto
  qed auto
qed auto

lemma block_labels:
  assumes "boundaries c n"
  shows "length (concat (map (\<lambda>r. replicate (c (Suc r) - c r) r) [0..<n])) = c n \<and>
    (\<forall>r < n. \<forall>j. c r \<le> j \<and> j < c (Suc r) \<longrightarrow> concat (map (\<lambda>r. replicate (c (Suc r) - c r) r) [0..<n]) ! j = r)"
  using assms
proof (induction n)
  case (Suc n)
  let ?L = "\<lambda>n. concat (map (\<lambda>r. replicate (c (Suc r) - c r) r) [0..<n])"
  have ih: "length (?L n) = c n" "\<forall>r < n. \<forall>j. c r \<le> j \<and> j < c (Suc r) \<longrightarrow> ?L n ! j = r"
    using Suc by (auto simp: boundaries_def)
  have step: "c n \<le> c (Suc n)" using Suc.prems by (simp add: boundaries_def)
  have L: "?L (Suc n) = ?L n @ replicate (c (Suc n) - c n) n" by simp
  have "?L (Suc n) ! j = r" if r: "r < Suc n" "c r \<le> j \<and> j < c (Suc r)" for r j
  proof (cases "r = n")
    case True
    then have "\<not> j < length (?L n)" "j - c n < c (Suc n) - c n" using r ih(1) by auto
    then show ?thesis using True ih(1) unfolding L nth_append by simp
  next
    case False
    then have "r < n" using r by simp
    then have "j < c n" using boundaries_mono [OF Suc.prems, of "Suc r" n] r by simp
    then show ?thesis using ih \<open>r < n\<close> r unfolding L nth_append by simp
  qed
  then show ?case using ih(1) step unfolding L by auto
qed (auto simp: boundaries_def)

lemma label_iff:
  assumes "boundaries c n" "j < c n" "roq = concat (map (\<lambda>r. replicate (c (Suc r) - c r) r) [0..<n])"
  shows "roq ! j = r \<longleftrightarrow> r < n \<and> c r \<le> j \<and> j < c (Suc r)"
proof -
  obtain r' where r': "r' < n" "c r' \<le> j" "j < c (Suc r')"
    using boundaries_cases [OF assms(1), of 0 n j] assms(1,2) by (auto simp: boundaries_def)
  have "roq ! j = r'" using block_labels [OF assms(1)] r' assms(3) by simp
  then show ?thesis using block_labels [OF assms(1)] r' assms(3) by auto
qed

lemma covered_requests:
  assumes b: "boundaries c n" "rs \<le> re" "re \<le> n"
    and roq: "roq = concat (map (\<lambda>r. replicate (c (Suc r) - c r) r) [0..<n])"
    and len: "\<forall>head \<in> set phys. length head = c n"
  shows "covered nb (req_bitmap n nb roq phys) rs re = {p. p < nb \<and> (\<exists>j. c rs \<le> j \<and> j < c re \<and> selects phys j p)}"
proof -
  have l: "length roq = c n" using block_labels [OF b(1)] roq by simp
  have z: "list_ex (\<lambda>(r', ps). r' = r \<and> int p \<in> set ps) (zip roq head) \<longleftrightarrow>
      (\<exists>j < c n. roq ! j = r \<and> int p \<in> set (head ! j))" if "head \<in> set phys" for head r p
  proof -
    have "length head = c n" using len that by simp
    then show ?thesis unfolding list_ex_iff set_zip using l by auto
  qed
  have at: "req_bitmap n nb roq phys ! r ! p \<longleftrightarrow> (\<exists>j < c n. roq ! j = r \<and> selects phys j p)" if "r < n" "p < nb" for r p
    using that z len by (auto simp: req_bitmap_def selects_def list_ex_iff)
  have "(\<exists>r. rs \<le> r \<and> r < re \<and> req_bitmap n nb roq phys ! r ! p) \<longleftrightarrow> (\<exists>j. c rs \<le> j \<and> j < c re \<and> selects phys j p)"
    if p: "p < nb" for p
  proof -
    have "(\<exists>r. rs \<le> r \<and> r < re \<and> req_bitmap n nb roq phys ! r ! p) \<longleftrightarrow>
        (\<exists>r. rs \<le> r \<and> r < re \<and> (\<exists>j < c n. roq ! j = r \<and> selects phys j p))"
      using at [OF _ p] b(3) by (intro ex_cong1 conj_cong refl) simp
    also have "\<dots> \<longleftrightarrow> (\<exists>j. c rs \<le> j \<and> j < c re \<and> selects phys j p)"
    proof
      assume "\<exists>r. rs \<le> r \<and> r < re \<and> (\<exists>j < c n. roq ! j = r \<and> selects phys j p)"
      then obtain r j where r: "rs \<le> r" "r < re" "j < c n" "roq ! j = r" "selects phys j p" by blast
      then have "c rs \<le> j \<and> j < c re"
        using label_iff [OF b(1) r(3) roq, of r] boundaries_cases [OF b, of j] by blast
      then show "\<exists>j. c rs \<le> j \<and> j < c re \<and> selects phys j p" using r(5) by blast
    next
      assume "\<exists>j. c rs \<le> j \<and> j < c re \<and> selects phys j p"
      then obtain j where j: "c rs \<le> j" "j < c re" "selects phys j p" by blast
      then obtain r where r: "rs \<le> r" "r < re" "c r \<le> j" "j < c (Suc r)" using boundaries_cases [OF b, of j] by blast
      have "j < c n" using j(2) boundaries_mono [OF b(1,3)] by simp
      then have "roq ! j = r" using label_iff [OF b(1) _ roq, of j r] r b(3) by simp
      then show "\<exists>r. rs \<le> r \<and> r < re \<and> (\<exists>j < c n. roq ! j = r \<and> selects phys j p)"
        using r(1,2) j(3) \<open>j < c n\<close> by blast
    qed
    finally show ?thesis .
  qed
  then show ?thesis by (auto simp: covered_def)
qed

lemma covered_queries:
  assumes "qe \<le> hi - lo" "\<forall>head \<in> set phys. hi \<le> length head"
  shows "covered nb (query_bitmap nb phys lo hi) qs qe =
    {p. p < nb \<and> (\<exists>j. lo + qs \<le> j \<and> j < lo + qe \<and> selects phys j p)}"
proof -
  have at: "query_bitmap nb phys lo hi ! i ! p \<longleftrightarrow> selects phys (lo + i) p" if "i < qe" "p < nb" for i p
  proof -
    have "i < hi - lo" "\<forall>head \<in> set phys. lo + i < length head" using that assms by fastforce+
    then show ?thesis using that(2) by (simp add: query_bitmap_def selects_def list_ex_iff)
  qed
  have "(\<exists>i. qs \<le> i \<and> i < qe \<and> query_bitmap nb phys lo hi ! i ! p) \<longleftrightarrow>
      (\<exists>j. lo + qs \<le> j \<and> j < lo + qe \<and> selects phys j p)" if "p < nb" for p
  proof
    assume "\<exists>i. qs \<le> i \<and> i < qe \<and> query_bitmap nb phys lo hi ! i ! p"
    then obtain i where "qs \<le> i" "i < qe" "selects phys (lo + i) p" using at \<open>p < nb\<close> by blast
    then show "\<exists>j. lo + qs \<le> j \<and> j < lo + qe \<and> selects phys j p" by (intro exI [of _ "lo + i"]) simp
  next
    assume "\<exists>j. lo + qs \<le> j \<and> j < lo + qe \<and> selects phys j p"
    then obtain j where "lo + qs \<le> j" "j < lo + qe" "selects phys j p" by blast
    then show "\<exists>i. qs \<le> i \<and> i < qe \<and> query_bitmap nb phys lo hi ! i ! p"
      using at [of "j - lo" p] \<open>p < nb\<close> by (intro exI [of _ "j - lo"]) auto
  qed
  then show ?thesis by (auto simp: covered_def)
qed

text \<open>
  A slice is exact: its requests are consecutive, its queries are all of theirs or a part of a single
  request, its pages are those its queries select, and it fits the cap unless it is one query.
\<close>

definition slice_exact :: "nat \<Rightarrow> nat \<Rightarrow> (nat \<Rightarrow> nat) \<Rightarrow> nat \<Rightarrow> int list list list \<Rightarrow> prefill_slice \<Rightarrow> bool" where
  "slice_exact nb cap c n phys sl \<longleftrightarrow>
     (\<exists>rs re. sl_reqs sl = [rs..<re] \<and> rs < re \<and> re \<le> n \<and> c rs \<le> sl_lo sl \<and> sl_lo sl \<le> sl_hi sl \<and> sl_hi sl \<le> c re \<and>
        (sl_lo sl = c rs \<and> sl_hi sl = c re \<or> re = Suc rs \<and> sl_lo sl < sl_hi sl)) \<and>
     set (sl_pages sl) = {p. p < nb \<and> (\<exists>j. sl_lo sl \<le> j \<and> j < sl_hi sl \<and> selects phys j p)} \<and>
     sorted (sl_pages sl) \<and> distinct (sl_pages sl) \<and> sl_n sl = length (sl_pages sl) \<and>
     (sl_n sl \<le> cap \<or> sl_hi sl = Suc (sl_lo sl))"

definition slice_queries :: "prefill_slice list \<Rightarrow> nat list" where
  "slice_queries sls = concat (map (\<lambda>sl. [sl_lo sl..<sl_hi sl]) sls)"

lemma slice_queries_simps [simp]:
  "slice_queries [] = []"
  "slice_queries (sl # sls) = [sl_lo sl..<sl_hi sl] @ slice_queries sls"
  "slice_queries (xs @ ys) = slice_queries xs @ slice_queries ys"
  by (simp_all add: slice_queries_def)

lemma slice_queries_concat: "slice_queries (concat (map f xs)) = concat (map (\<lambda>x. slice_queries (f x)) xs)"
  by (induction xs) auto

lemma request_slices_exact:
  assumes b: "boundaries c n" and roq: "roq = concat (map (\<lambda>r. replicate (c (Suc r) - c r) r) [0..<n])"
    and len: "\<forall>head \<in> set phys. length head = c n"
    and bm: "bm = req_bitmap n nb roq phys" and rng: "range_end nb bm cap rs re"
    and cu: "\<forall>r \<le> n. cu ! r = c r"
  shows "(\<forall>sl \<in> set (request_slices greedy_row_slices nb cap cu phys bm (rs, re)). slice_exact nb cap c n phys sl) \<and>
    slice_queries (request_slices greedy_row_slices nb cap cu phys bm (rs, re)) = [c rs..<c re]"
proof -
  have r: "rs < re" "re \<le> n" using range_end_bounds [OF rng] bm by (auto simp: req_bitmap_def)
  have mono: "c rs \<le> c re" "c re \<le> c n" using boundaries_mono [OF b] r by auto
  note pages = covered_requests [OF b less_imp_le [OF r(1)] r(2) roq len, of nb, folded bm]
  show ?thesis
  proof (cases "re - rs = 1 \<and> cap < length (row_union nb bm rs re)")
    case False
    then have "request_slices greedy_row_slices nb cap cu phys bm (rs, re) = [new_slice [rs..<re] (c rs) (c re) (row_union nb bm rs re)]"
      using cu r by (auto simp: request_slices_def)
    moreover have "card (covered nb bm rs re) \<le> cap"
      using False rng by (auto simp: range_end_def card_row_union)
    ultimately show ?thesis
      using r mono sorted_row_union [of nb bm rs re]
      by (auto simp: slice_exact_def new_slice_def set_row_union pages card_row_union)
  next
    case True
    then have re: "re = Suc rs" by linarith
    let ?lo = "c rs" and ?hi = "c re"
    let ?q = "query_bitmap nb phys ?lo ?hi"
    have ql: "length ?q = ?hi - ?lo" by (simp add: query_bitmap_def)
    have sl: "request_slices greedy_row_slices nb cap cu phys bm (rs, re) =
        map (\<lambda>(qs, qe). new_slice [rs] (?lo + qs) (?lo + qe) (row_union nb ?q qs qe)) (greedy_row_slices nb ?q cap)"
      using True cu r unfolding re by (simp add: request_slices_def Let_def)
    have g: "greedy_ranges nb ?q cap 0 (greedy_row_slices nb ?q cap)"
      unfolding greedy_row_slices_def using greedy_from_ranges [OF query_bitmap_rows] by simp
    have q: "slice_exact nb cap c n phys (new_slice [rs] (?lo + qs) (?lo + qe) (row_union nb ?q qs qe))"
      if e: "range_end nb ?q cap qs qe" for qs qe
    proof -
      have "qs < qe" "qe \<le> ?hi - ?lo" using range_end_bounds [OF e] ql by auto
      moreover have "card (covered nb ?q qs qe) \<le> cap \<or> qe = Suc qs" using e by (auto simp: range_end_def)
      moreover have "covered nb ?q qs qe = {p. p < nb \<and> (\<exists>j. ?lo + qs \<le> j \<and> j < ?lo + qe \<and> selects phys j p)}"
        using covered_queries [of qe ?hi ?lo phys nb qs] len mono calculation(2) by simp
      ultimately show ?thesis
        using r mono re sorted_row_union [of nb ?q qs qe]
        unfolding slice_exact_def new_slice_def
        by (simp add: set_row_union card_row_union) (intro exI [of _ rs] exI [of _ "Suc rs"], simp)
    qed
    have "slice_queries (map (\<lambda>(qs, qe). new_slice [rs] (?lo + qs) (?lo + qe) (row_union nb ?q qs qe)) xs)
        = concat (map (\<lambda>(a, i). [?lo + a..<?lo + i]) xs)" for xs
      by (induction xs) (auto simp: new_slice_def)
    moreover have "concat (map (\<lambda>(a, i). [?lo + a..<?lo + i]) (greedy_row_slices nb ?q cap)) = [?lo + 0..<?lo + length ?q]"
      by (rule greedy_ranges_concat [OF g]) auto
    ultimately have "slice_queries (request_slices greedy_row_slices nb cap cu phys bm (rs, re)) = [?lo..<?hi]"
      using ql mono by (simp add: sl)
    moreover have "\<forall>s \<in> set (request_slices greedy_row_slices nb cap cu phys bm (rs, re)). slice_exact nb cap c n phys s"
      unfolding sl using q greedy_ranges_mem [OF g] by auto
    ultimately show ?thesis by blast
  qed
qed

lemma cu_boundaries:
  assumes "req_of_q cu total_q = Inr roq" "cu_ok cu total_q"
  defines "c \<equiv> \<lambda>r. nat (cu ! r)" and "n \<equiv> length cu - 1"
  shows "boundaries c n" "c n = total_q" "\<forall>r \<le> n. cu ! r = int (c r)" "length cu = Suc n"
    "roq = concat (map (\<lambda>r. replicate (c (Suc r) - c r) r) [0..<n])"
proof -
  have cu: "cu \<noteq> []" and d: "\<forall>r < n. cu ! r \<le> cu ! Suc r"
    using assms(1) by (auto simp: req_of_q_def Let_def list_ex_iff n_def not_less split: if_splits)
  show len: "length cu = Suc n" using cu by (simp add: n_def)
  have nn: "0 \<le> cu ! r" if "r \<le> n" for r
    using that assms(2) d by (induction r) (auto simp: cu_ok_def intro: order_trans)
  then show int: "\<forall>r \<le> n. cu ! r = int (c r)" by (simp add: c_def)
  show "boundaries c n" using assms(2) d by (auto simp: boundaries_def c_def cu_ok_def nat_mono)
  show "c n = total_q" using assms(2) cu by (simp add: c_def n_def cu_ok_def last_conv_nth)
  have "nat (cu ! Suc r - cu ! r) = c (Suc r) - c r" if "r < n" for r
    using int that d by (simp add: Suc_le_eq nat_diff_distrib' nn c_def)
  then show "roq = concat (map (\<lambda>r. replicate (c (Suc r) - c r) r) [0..<n])"
    using assms(1) by (auto simp: req_of_q_def Let_def n_def split: if_splits intro!: arg_cong [where f = concat] map_cong)
qed

section \<open>Lemmas on a slice's call\<close>

lemma accumulate_nth: "i < length xs \<Longrightarrow> accumulate a xs ! i = a + sum_list (take (Suc i) xs)"
proof (induction xs arbitrary: a i)
  case (Cons x xs)
  then show ?case by (cases i) auto
qed simp

lemma length_accumulate [simp]: "length (accumulate a xs) = length xs"
  by (induction xs arbitrary: a) auto

lemma boundaries_list:
  assumes "xs \<noteq> []" "sum_list xs = b"
  shows "[0] @ butlast (accumulate 0 xs) @ [b] = 0 # accumulate 0 xs"
proof -
  have n: "accumulate 0 xs \<noteq> []" using assms(1) by (metis length_0_conv length_accumulate)
  have "accumulate 0 xs ! (length xs - 1) = b" using assms accumulate_nth [of "length xs - 1" xs 0] by simp
  then have "last (accumulate 0 xs) = b" using n by (simp add: last_conv_nth)
  then show ?thesis using append_butlast_last_id [OF n] by simp
qed

lemma starts_nth: "k \<le> length xs \<Longrightarrow> (0 # accumulate 0 xs) ! k = sum_list (take k xs)"
  using accumulate_nth [of "k - 1" xs 0] by (cases k) auto

lemma telescope:
  fixes c :: "nat \<Rightarrow> nat"
  shows "k \<le> re - rs \<Longrightarrow>
    sum_list (take k (map (\<lambda>m. int (c (Suc m)) - int (c m)) [rs..<re])) = int (c (rs + k)) - int (c rs)"
  by (induction k) (simp_all add: take_Suc_conv_app_nth)

text \<open>
  The lengths of a slice's members: they are positive, and they say which request each query of the
  slice belongs to and how far it is into its request.
\<close>

lemma slice_lengths:
  fixes c :: "nat \<Rightarrow> nat" and lo hi :: nat
  assumes rng: "rs < re" "c rs \<le> lo" "lo \<le> hi" "hi \<le> c re"
      "lo = c rs \<and> hi = c re \<or> re = Suc rs \<and> lo < hi"
    and strict: "\<forall>r. rs \<le> r \<and> r < re \<longrightarrow> c r < c (Suc r)"
  defines "lens \<equiv> map (\<lambda>m. min (int (c (Suc m))) (int hi) - max (int (c m)) (int lo)) [rs..<re]"
  shows "\<forall>x \<in> set lens. 0 < x" and "sum_list lens = int hi - int lo"
    and "\<forall>k < re - rs. int lo + sum_list (take k lens) = max (int (c (rs + k))) (int lo) \<and>
      int lo + sum_list (take (Suc k) lens) \<le> int (c (Suc (rs + k))) \<and>
      int lo + sum_list (take (Suc k) lens) \<le> int hi"
proof -
  have mono: "c a \<le> c b" if "rs \<le> a" "a \<le> b" "b \<le> re" for a b
    using that(2,1,3) by (induction b rule: dec_induct) (use strict in \<open>auto intro: less_imp_le order_trans\<close>)
  consider (whole) "lo = c rs" "hi = c re" | (part) "re = Suc rs" "lo < hi" using rng(5) by blast
  then have "(\<forall>x \<in> set lens. 0 < x) \<and> sum_list lens = int hi - int lo \<and>
      (\<forall>k < re - rs. int lo + sum_list (take k lens) = max (int (c (rs + k))) (int lo) \<and>
        int lo + sum_list (take (Suc k) lens) \<le> int (c (Suc (rs + k))) \<and>
        int lo + sum_list (take (Suc k) lens) \<le> int hi)"
  proof cases
    case whole
    have l: "lens = map (\<lambda>m. int (c (Suc m)) - int (c m)) [rs..<re]"
      unfolding lens_def whole using mono by (intro map_cong refl) (auto simp: Suc_le_eq)
    have t: "sum_list (take k lens) = int (c (rs + k)) - int (c rs)" if "k \<le> re - rs" for k
      unfolding l by (rule telescope) (rule that)
    have "sum_list lens = int hi - int lo" using t [of "re - rs"] rng(1) whole by (simp add: l)
    moreover have "\<forall>x \<in> set lens. 0 < x" unfolding l using strict by auto
    moreover have "int lo + sum_list (take k lens) = max (int (c (rs + k))) (int lo) \<and>
        int lo + sum_list (take (Suc k) lens) \<le> int (c (Suc (rs + k))) \<and>
        int lo + sum_list (take (Suc k) lens) \<le> int hi" if "k < re - rs" for k
      using t [of k] t [of "Suc k"] that mono [of rs "rs + k"] mono [of "Suc (rs + k)" re] whole
      by (simp add: Suc_le_eq)
    ultimately show ?thesis by blast
  next
    case part
    then show ?thesis using rng by (auto simp: lens_def)
  qed
  then show "\<forall>x \<in> set lens. 0 < x" "sum_list lens = int hi - int lo"
    "\<forall>k < re - rs. int lo + sum_list (take k lens) = max (int (c (rs + k))) (int lo) \<and>
      int lo + sum_list (take (Suc k) lens) \<le> int (c (Suc (rs + k))) \<and>
      int lo + sum_list (take (Suc k) lens) \<le> int hi" by blast+
qed

lemma sum_list_pos_bounds: "\<forall>x \<in> set xs. 0 < (x :: int) \<Longrightarrow> 0 \<le> sum_list (take k xs) \<and> sum_list (take k xs) \<le> sum_list xs"
proof (induction xs arbitrary: k)
  case (Cons x xs)
  have ih: "0 \<le> sum_list (take k xs) \<and> sum_list (take k xs) \<le> sum_list xs" for k using Cons by simp
  have "0 \<le> sum_list xs" using ih [of 0] by simp
  then show ?case using ih [of "k - 1"] Cons.prems by (cases k) simp_all
qed simp

lemma starts_bounds:
  assumes "\<forall>x \<in> set xs. 0 < (x :: int)" "y \<in> set (0 # accumulate 0 xs)"
  shows "0 \<le> y \<and> y \<le> sum_list xs"
proof -
  obtain i where "i < length (0 # accumulate 0 xs)" "y = (0 # accumulate 0 xs) ! i" using assms(2) by (metis in_set_conv_nth)
  then have "y = sum_list (take i xs)" using starts_nth [of i xs] by simp
  then show ?thesis using sum_list_pos_bounds [OF assms(1)] by simp
qed

text \<open>The metadata of a slice whose members all have queries in it.\<close>

lemma metadata_value:
  assumes m: "sl_reqs sl = [rs..<re]" "rs < re" "re < length cu" "re \<le> length prefix"
    and lens: "lens = map (\<lambda>m. min (cu ! Suc m) (int (sl_hi sl)) - max (cu ! m) (int (sl_lo sl))) [rs..<re]"
    and pos: "\<forall>x \<in> set lens. 0 < x" and sum: "sum_list lens = int (sl_hi sl) - int (sl_lo sl)"
    and small: "int (sl_hi sl) < 2 ^ 31"
    and fits: "\<forall>r. rs \<le> r \<and> r < re \<longrightarrow> fits_int32 (prefix ! r + max (cu ! r) (int (sl_lo sl)) - cu ! r)"
  shows "prefill_slice_metadata sl cu prefix =
    Inr (0 # accumulate 0 lens, map (\<lambda>m. prefix ! m + max (cu ! m) (int (sl_lo sl)) - cu ! m) [rs..<re], Max (set lens))"
proof -
  have ne: "lens \<noteq> []" using m(2) lens by simp
  have "fits_int32 x" if "x \<in> set (0 # accumulate 0 lens)" for x
    using starts_bounds [OF pos that] sum small unfolding fits_int32_def by linarith
  then have "list_all fits_int32 (0 # accumulate 0 lens)" unfolding list_all_iff by blast
  moreover have "list_all fits_int32 (map (\<lambda>m. prefix ! m + max (cu ! m) (int (sl_lo sl)) - cu ! m) [rs..<re])"
    using fits by (simp add: list_all_iff)
  moreover have "\<not> list_ex (\<lambda>le. le \<le> 0) lens" using pos by (auto simp: list_ex_iff)
  moreover have "\<not> list_ex (\<lambda>r. length cu \<le> Suc r) [rs..<re]" "\<not> list_ex (\<lambda>r. length prefix \<le> r) [rs..<re]"
    using m(3,4) by (auto simp: list_ex_iff)
  ultimately show ?thesis
    unfolding prefill_slice_metadata_def Let_def m(1) lens [symmetric] boundaries_list [OF ne sum]
    using sum ne by simp
qed

text \<open>A member that starts \<open>a\<close> queries into the slice: its queries, and their offsets in the request.\<close>

lemma member_positions:
  fixes a a' cm cs lo :: int
  assumes "a' = a + l" "0 < l" "lo + a = max cm lo" "lo + a' \<le> cs" "pre = p + max cm lo - cm"
  shows "a < a' \<and> (\<forall>j. a \<le> j - lo \<and> j - lo < a' \<longrightarrow> cm \<le> j \<and> j < cs \<and> pre + (j - lo - a) = p + (j - cm))"
proof -
  have "cm \<le> j \<and> j < cs \<and> pre + (j - lo - a) = p + (j - cm)" if "a \<le> j - lo" "j - lo < a'" for j
    using assms that by linarith
  moreover have "a < a'" using assms(1,2) by linarith
  ultimately show ?thesis by blast
qed

section \<open>The parts of a plan\<close>

definition heads_shaped :: "prefill_call \<Rightarrow> bool" where
  "heads_shaped pc \<longleftrightarrow> list_all (\<lambda>head. length head = pc_total_q pc) (pc_topk pc)"

text \<open>The pages the queries of a call select, as \<open>phys\<close> has them.\<close>

definition call_pages :: "prefill_call \<Rightarrow> int list list list" where
  "call_pages pc = (case selected_page_bitmap pc of Inl _ \<Rightarrow> [] | Inr (_, phys) \<Rightarrow> phys)"

lemma phys_lengths:
  assumes "map_res (\<lambda>head. map_res f (zip roq head)) tk = Inr phys" "\<forall>head \<in> set tk. length head = length roq"
  shows "\<forall>head \<in> set phys. length head = length roq"
proof -
  have l: "length ys = length xs" if "map_res f xs = Inr ys" for xs ys
    using that list_all2_lengthD unfolding map_res_Inr_iff by metis
  show ?thesis
    using assms by (induction tk arbitrary: phys) (auto simp: bind_res_Inr dest!: l)
qed

lemma plan_parts:
  assumes "plan_prefill_slices pc num_kv_heads max_pages = Inr sls" "heads_shaped pc"
  defines "c \<equiv> \<lambda>r. nat (pc_cu pc ! r)" and "n \<equiv> length (pc_cu pc) - 1"
  shows "boundaries c n" and "c n = pc_total_q pc" and "\<forall>r \<le> n. pc_cu pc ! r = int (c r)"
    and "length (pc_cu pc) = Suc n" and "slice_queries sls = [0..<pc_total_q pc]"
    and "\<forall>sl \<in> set sls. slice_exact (pc_nb pc) (nat max_pages) c n (call_pages pc) sl"
proof -
  let ?g = "greedy_row_slices" and ?cap = "nat max_pages"
  obtain bm phys where b: "selected_page_bitmap pc = Inr (bm, phys)" "cu_ok (pc_cu pc) (pc_total_q pc)"
      "sls = concat (map (request_slices ?g (pc_nb pc) ?cap (map nat (pc_cu pc)) phys bm) (?g (pc_nb pc) bm ?cap))"
    using assms(1) unfolding plan_prefill_slices_def plan_with_def
    by (auto simp: bind_res_Inr split: if_splits)
  obtain roq where r: "req_of_q (pc_cu pc) (pc_total_q pc) = Inr roq" "bm = req_bitmap n (pc_nb pc) roq phys"
      "map_res (\<lambda>head. map_res (\<lambda>(r, blks). map_res (phys_entry pc r) blks) (zip roq head)) (pc_topk pc) = Inr phys"
    using b(1) unfolding selected_page_bitmap_def n_def by (auto simp: bind_res_Inr)
  have cb: "boundaries c n" "c n = pc_total_q pc" "\<forall>r \<le> n. pc_cu pc ! r = int (c r)" "length (pc_cu pc) = Suc n"
      "roq = concat (map (\<lambda>r. replicate (c (Suc r) - c r) r) [0..<n])"
    unfolding c_def n_def by (rule cu_boundaries [OF r(1) b(2)])+
  show "boundaries c n" "c n = pc_total_q pc" "\<forall>r \<le> n. pc_cu pc ! r = int (c r)" "length (pc_cu pc) = Suc n"
    by (fact cb)+
  have "length roq = c n" using block_labels [OF cb(1)] cb(5) by simp
  then have len: "\<forall>head \<in> set phys. length head = c n"
    using phys_lengths [OF r(3)] assms(2) cb(2) by (simp add: heads_shaped_def list_all_iff)
  have cu: "\<forall>r \<le> n. map nat (pc_cu pc) ! r = c r" using cb(4) by (simp add: c_def)
  have bl: "length bm = n" by (simp add: r(2) req_bitmap_def)
  have rows: "\<forall>row \<in> set bm. length row = pc_nb pc" unfolding r(2) by (rule req_bitmap_rows)
  have g: "greedy_ranges (pc_nb pc) bm ?cap 0 (?g (pc_nb pc) bm ?cap)"
    unfolding greedy_row_slices_def using greedy_from_ranges [OF rows] by simp
  note ex = request_slices_exact [OF cb(1,5) len r(2) _ cu]
  have ph: "call_pages pc = phys" using b(1) by (simp add: call_pages_def)
  show "\<forall>sl \<in> set sls. slice_exact (pc_nb pc) ?cap c n (call_pages pc) sl"
    unfolding b(3) ph using ex greedy_ranges_mem [OF g] by fastforce
  let ?q = "\<lambda>a i. slice_queries (request_slices ?g (pc_nb pc) ?cap (map nat (pc_cu pc)) phys bm (a, i))"
  have each: "map (\<lambda>x. slice_queries (request_slices ?g (pc_nb pc) ?cap (map nat (pc_cu pc)) phys bm x)) (?g (pc_nb pc) bm ?cap)
      = map (\<lambda>(a, i). [c a..<c i]) (?g (pc_nb pc) bm ?cap)"
    using ex greedy_ranges_mem [OF g] by (intro map_cong refl) auto
  have "concat (map (\<lambda>(a, i). [c a..<c i]) (?g (pc_nb pc) bm ?cap)) = [c 0..<c (length bm)]"
    by (rule greedy_ranges_concat [OF g]) (use boundaries_mono [OF cb(1)] bl in auto)
  moreover have "c 0 = 0" using cb(1) by (simp add: boundaries_def)
  ultimately show "slice_queries sls = [0..<pc_total_q pc]"
    unfolding b(3) slice_queries_concat each using bl cb(2) by simp
qed

text \<open>The metadata of a slice, request by request.\<close>

lemma slice_positions:
  assumes "plan_prefill_slices pc num_kv_heads max_pages = Inr sls" and "heads_shaped pc" and "sl \<in> set sls"
    and "\<forall>r. Suc r < length (pc_cu pc) \<longrightarrow> pc_cu pc ! r < pc_cu pc ! Suc r"
    and "length (pc_cu pc) \<le> Suc (length prefix)"
    and "\<forall>p \<in> set prefix. 0 \<le> p \<and> p + int (pc_total_q pc) < 2 ^ 31"
  shows "\<exists>cu' prefix' longest. prefill_slice_metadata sl (pc_cu pc) prefix = Inr (cu', prefix', longest) \<and>
    length cu' = Suc (length (sl_reqs sl)) \<and> cu' ! 0 = 0 \<and> last cu' = int (sl_hi sl) - int (sl_lo sl) \<and>
    (\<forall>k < length (sl_reqs sl). cu' ! k < cu' ! Suc k \<and>
       (\<forall>j. cu' ! k \<le> j - int (sl_lo sl) \<and> j - int (sl_lo sl) < cu' ! Suc k \<longrightarrow>
          pc_cu pc ! (sl_reqs sl ! k) \<le> j \<and> j < pc_cu pc ! Suc (sl_reqs sl ! k) \<and>
          prefix' ! k + (j - int (sl_lo sl) - cu' ! k) = prefix ! (sl_reqs sl ! k) + (j - pc_cu pc ! (sl_reqs sl ! k))))"
proof -
  define c where "c = (\<lambda>r. nat (pc_cu pc ! r))"
  define n where "n = length (pc_cu pc) - 1"
  have pl: "boundaries c n" "c n = pc_total_q pc" "\<forall>r \<le> n. pc_cu pc ! r = int (c r)" "length (pc_cu pc) = Suc n"
      "\<forall>sl \<in> set sls. slice_exact (pc_nb pc) (nat max_pages) c n (call_pages pc) sl"
    unfolding c_def n_def using plan_parts [OF assms(1,2)] by auto
  obtain rs re where m: "sl_reqs sl = [rs..<re]" "rs < re" "re \<le> n" "c rs \<le> sl_lo sl" "sl_lo sl \<le> sl_hi sl"
      "sl_hi sl \<le> c re" "sl_lo sl = c rs \<and> sl_hi sl = c re \<or> re = Suc rs \<and> sl_lo sl < sl_hi sl"
    using pl(5) assms(3) unfolding slice_exact_def by blast
  let ?lens = "map (\<lambda>m. min (int (c (Suc m))) (int (sl_hi sl)) - max (int (c m)) (int (sl_lo sl))) [rs..<re]"
  have st: "\<forall>r. rs \<le> r \<and> r < re \<longrightarrow> c r < c (Suc r)"
  proof (intro allI impI)
    fix r
    assume "rs \<le> r \<and> r < re"
    then have "pc_cu pc ! r < pc_cu pc ! Suc r" "pc_cu pc ! r = int (c r)" "pc_cu pc ! Suc r = int (c (Suc r))"
      using assms(4) pl(3,4) m(3) by simp_all
    then show "c r < c (Suc r)" by linarith
  qed
  note sl = slice_lengths [OF m(2,4-7) st]
  have cu: "pc_cu pc ! r = int (c r)" if "r \<le> re" for r using pl(3) m(3) that by simp
  have lens: "?lens = map (\<lambda>m. min (pc_cu pc ! Suc m) (int (sl_hi sl)) - max (pc_cu pc ! m) (int (sl_lo sl))) [rs..<re]"
    by (intro map_cong refl) (simp add: cu)
  let ?cu = "0 # accumulate 0 ?lens"
  let ?pre = "map (\<lambda>m. prefix ! m + max (pc_cu pc ! m) (int (sl_lo sl)) - pc_cu pc ! m) [rs..<re]"
  have tot: "sl_hi sl \<le> pc_total_q pc" using m(3,6) boundaries_mono [OF pl(1), of re n] pl(2) by simp
  have pre: "0 \<le> prefix ! r \<and> prefix ! r + int (pc_total_q pc) < 2 ^ 31" if "r < re" for r
    using assms(5,6) that m(3) pl(4) by simp
  have fits: "fits_int32 (prefix ! r + max (pc_cu pc ! r) (int (sl_lo sl)) - pc_cu pc ! r)" if "rs \<le> r \<and> r < re" for r
    using pre [of r] cu [of r] that m(5) tot boundaries_mono [OF pl(1), of r n] pl(2) m(3) by (auto simp: fits_int32_def max_def)
  have "prefill_slice_metadata sl (pc_cu pc) prefix = Inr (?cu, ?pre, Max (set ?lens))"
  proof (rule metadata_value [OF m(1,2) _ _ lens sl(1,2)])
    show "re < length (pc_cu pc)" using m(3) pl(4) by simp
    then show "re \<le> length prefix" using assms(5) by simp
    show "int (sl_hi sl) < 2 ^ 31" using pre [OF m(2)] tot by linarith
  qed (rule allI, rule impI, rule fits)
  moreover have "last ?cu = int (sl_hi sl) - int (sl_lo sl)"
  proof -
    have ne: "?lens \<noteq> []" using m(2) by simp
    show ?thesis unfolding boundaries_list [OF ne sl(2), symmetric] by simp
  qed
  moreover have "?cu ! k < ?cu ! Suc k \<and>
       (\<forall>j. ?cu ! k \<le> j - int (sl_lo sl) \<and> j - int (sl_lo sl) < ?cu ! Suc k \<longrightarrow>
          pc_cu pc ! (sl_reqs sl ! k) \<le> j \<and> j < pc_cu pc ! Suc (sl_reqs sl ! k) \<and>
          ?pre ! k + (j - int (sl_lo sl) - ?cu ! k) = prefix ! (sl_reqs sl ! k) + (j - pc_cu pc ! (sl_reqs sl ! k)))"
    if k: "k < length (sl_reqs sl)" for k
  proof -
    have kr: "k < re - rs" using k by (simp add: m(1))
    have at: "?cu ! k = sum_list (take k ?lens)" "?cu ! Suc k = sum_list (take (Suc k) ?lens)"
      using starts_nth [of k ?lens] starts_nth [of "Suc k" ?lens] kr by simp_all
    have "sum_list (take (Suc k) ?lens) = sum_list (take k ?lens) + ?lens ! k"
      using kr by (simp add: take_Suc_conv_app_nth)
    moreover have "0 < ?lens ! k" by (rule sl(1) [rule_format]) (use kr in \<open>simp add: nth_mem\<close>)
    moreover have "sl_reqs sl ! k = rs + k" "pc_cu pc ! (rs + k) = int (c (rs + k))" "pc_cu pc ! Suc (rs + k) = int (c (Suc (rs + k)))"
      "?pre ! k = prefix ! (rs + k) + max (pc_cu pc ! (rs + k)) (int (sl_lo sl)) - pc_cu pc ! (rs + k)"
      using kr cu by (simp_all add: m(1))
    ultimately show ?thesis
      unfolding at using sl(3) [rule_format, OF kr] by (simp only:) (rule member_positions, simp_all)
  qed
  ultimately show ?thesis
    by (intro exI [of _ ?cu] exI [of _ ?pre] exI [of _ "Max (set ?lens)"]) (simp add: m(1))
qed

section \<open>Properties\<close>

text \<open>C10: the planner that reads one union curve per slice returns the plan of the planner that scans rows,
for every pool, selection, request layout and cap, and raises the same exceptions.\<close>

theorem fast_plan_is_the_plan:
  "plan_prefill_slices_fast pc num_kv_heads max_pages = plan_prefill_slices pc num_kv_heads max_pages"
  by (rule plan_fast_same)

text \<open>C27: a plan cuts the query axis into slices, in order and without gap or overlap; the pages of a slice
are exactly the pages its queries select, sorted and without repetition; and a slice exceeds the page cap
only when it is a single query.\<close>

theorem plan_partitions_queries:
  assumes "plan_prefill_slices pc num_kv_heads max_pages = Inr sls" and "heads_shaped pc"
  shows "concat (map (\<lambda>sl. [sl_lo sl..<sl_hi sl]) sls) = [0..<pc_total_q pc] \<and>
    (\<forall>sl \<in> set sls.
       set (sl_pages sl) =
         {p. p < pc_nb pc \<and> (\<exists>j. sl_lo sl \<le> j \<and> j < sl_hi sl \<and> selects (call_pages pc) j p)} \<and>
       sorted (sl_pages sl) \<and> distinct (sl_pages sl) \<and> sl_n sl = length (sl_pages sl) \<and>
       (int (sl_n sl) \<le> max_pages \<or> sl_hi sl = Suc (sl_lo sl)))"
proof -
  have "1 \<le> max_pages" using assms(1) by (simp add: plan_prefill_slices_def plan_with_def split: if_splits)
  then have cap: "int x \<le> max_pages \<longleftrightarrow> x \<le> nat max_pages" for x by linarith
  show ?thesis
    unfolding cap using plan_parts(5,6) [OF assms] unfolding slice_queries_def slice_exact_def by blast
qed

text \<open>Every slice of a plan can be called, and its queries keep their places.  When no request is empty and
the positions fit 32 bits, the metadata of a slice is defined for each of its requests; and query \<open>j\<close> of
the chunk, which the slice's boundaries give to the \<open>k\<close>-th request of the slice, is a query of that
request with the same absolute position, prefix plus offset, as in the unsplit call.\<close>

theorem slice_calls_keep_positions:
  assumes "plan_prefill_slices pc num_kv_heads max_pages = Inr sls" and "heads_shaped pc" and "sl \<in> set sls"
    and "\<forall>r. Suc r < length (pc_cu pc) \<longrightarrow> pc_cu pc ! r < pc_cu pc ! Suc r"
    and "length (pc_cu pc) \<le> Suc (length prefix)"
    and "\<forall>p \<in> set prefix. 0 \<le> p \<and> p + int (pc_total_q pc) < 2 ^ 31"
  shows "\<exists>cu' prefix' longest. prefill_slice_metadata sl (pc_cu pc) prefix = Inr (cu', prefix', longest) \<and>
    length cu' = Suc (length (sl_reqs sl)) \<and> cu' ! 0 = 0 \<and> last cu' = int (sl_hi sl) - int (sl_lo sl) \<and>
    (\<forall>k < length (sl_reqs sl). cu' ! k < cu' ! Suc k \<and>
       (\<forall>j. cu' ! k \<le> j - int (sl_lo sl) \<and> j - int (sl_lo sl) < cu' ! Suc k \<longrightarrow>
          pc_cu pc ! (sl_reqs sl ! k) \<le> j \<and> j < pc_cu pc ! Suc (sl_reqs sl ! k) \<and>
          prefix' ! k + (j - int (sl_lo sl) - cu' ! k) = prefix ! (sl_reqs sl ! k) + (j - pc_cu pc ! (sl_reqs sl ! k))))"
  by (rule slice_positions [OF assms])

text \<open>Two requests of two queries and one over a pool of three pages, with room for one page.\<close>

definition sample_call :: prefill_call where
  "sample_call =
     \<lparr>pc_nb = 3, pc_slots = 2, pc_tokens = 128, pc_width = 72, pc_table = [[0, 1], [2, 2]], pc_max_blocks = 2,
      pc_topk = [[[0, 1], [1, - 1], [0, 1]]], pc_total_q = 3, pc_cu = [0, 2, 3]\<rparr>"

definition sample_slices :: "prefill_slice list" where
  "sample_slices = [new_slice [0] 0 1 [0, 1], new_slice [0] 1 2 [1], new_slice [1] 2 3 [2]]"

lemma sample_plan: "plan_prefill_slices sample_call 1 1 = Inr sample_slices"
  by code_simp

lemma plan_partitions_queries_witness:
  "concat (map (\<lambda>sl. [sl_lo sl..<sl_hi sl]) sample_slices) = [0..<pc_total_q sample_call]"
proof -
  have "heads_shaped sample_call" by (simp add: heads_shaped_def sample_call_def)
  then show ?thesis using plan_partitions_queries [OF sample_plan] by blast
qed

lemma slice_calls_keep_positions_witness:
  "\<exists>cu' prefix' longest.
     prefill_slice_metadata (new_slice [0] 1 2 [1]) (pc_cu sample_call) [100, 40] = Inr (cu', prefix', longest) \<and>
     length cu' = 2 \<and> cu' ! 0 = 0"
proof -
  have s: "heads_shaped sample_call" by (simp add: heads_shaped_def sample_call_def)
  have m: "new_slice [0] 1 2 [1] \<in> set sample_slices" by (simp add: sample_slices_def)
  have inc: "\<forall>r. Suc r < length (pc_cu sample_call) \<longrightarrow> pc_cu sample_call ! r < pc_cu sample_call ! Suc r"
  proof (intro allI impI)
    fix r
    assume "Suc r < length (pc_cu sample_call)"
    then have "r = 0 \<or> r = 1" by (auto simp: sample_call_def)
    then show "pc_cu sample_call ! r < pc_cu sample_call ! Suc r" by (auto simp: sample_call_def)
  qed
  have l: "length (pc_cu sample_call) \<le> Suc (length [100, 40 :: int])" by (simp add: sample_call_def)
  have p: "\<forall>p \<in> set [100, 40 :: int]. 0 \<le> p \<and> p + int (pc_total_q sample_call) < 2 ^ 31" by (simp add: sample_call_def)
  show ?thesis
    using slice_calls_keep_positions [OF sample_plan s m inc l p] by (auto simp: new_slice_def)
qed

end
