(* ===== verification/Q4kv_Staging.thy ===== *)
theory Q4kv_Staging
  imports Q4kv_Page Q4kv_Plan Py_Text
begin

text \<open>
  The staging of the 4-bit KV prefill (\<open>src/vllm_exl3/minimax_q4kv_reference.py\<close>): dequantisation of whole
  pages, the single-pass dequantisation through a byte table, the two fills of the staging buffer, the
  remapped block table of a slice, and the uncapped staging.  Rounding to bf16 is a parameter; a staged
  page is, for every head, the rows of its tokens, key half before value half.
\<close>

section \<open>Dequantisation\<close>

type_synonym number = "rat option"
type_synonym staged_page = "number list list list"

definition dequant_pool_pages :: "nat list list list \<Rightarrow> number list list list list res" where
  "dequant_pool_pages pool =
     (if list_ex (list_ex (\<lambda>region. length region \<noteq> SLOT_REGION)) pool then Inl ValueError
      else Inr (map (\<lambda>page. map (\<lambda>slot. map (token_values (int (slot mod 2)) (page ! slot)) [0..<POOL_BLOCK_SIZE])
        [0..<length page]) pool))"

text \<open>The table of byte values, and one side of a page through it; a bf16 product rounds once.\<close>

definition byte_pair_lut :: "(number \<Rightarrow> number) \<Rightarrow> (number \<times> number) list" where
  "byte_pair_lut bf16 =
     (let ladder = map (\<lambda>code. bf16 (Some (e2m1_decode code))) [0..<16] in
      map (\<lambda>b. (ladder ! (b AND 0xF), ladder ! (drop_bit 4 b AND 0xF))) [0..<256])"

definition number_times :: "number \<Rightarrow> number \<Rightarrow> number" where
  "number_times a b = (case a of None \<Rightarrow> None | Some x \<Rightarrow> map_option ((*) x) b)"

definition token_bf16 :: "(number \<Rightarrow> number) \<Rightarrow> int \<Rightarrow> nat list \<Rightarrow> nat \<Rightarrow> number list" where
  "token_bf16 bf16 side region t =
     (let vals = concat (map (\<lambda>d. let (low, high) = byte_pair_lut bf16 ! d in [low, high])
                   (take DATA_BYTES (drop (t * DATA_BYTES) (take DATA_REGION region))));
          scales = map (\<lambda>o'. bf16 (e4m3_decode (drop DATA_REGION region ! o'))) (scale_offset_row side t) in
      map2 (\<lambda>v s. bf16 (number_times v s)) vals (concat (map (replicate GROUP_SIZE) scales)))"

definition select_pages :: "'a list \<Rightarrow> nat list \<Rightarrow> 'a list res" where
  "select_pages xs ids = map_res (\<lambda>p. if p < length xs then Inr (xs ! p) else Inl IndexError) ids"

definition dequant_side_bf16 ::
  "(number \<Rightarrow> number) \<Rightarrow> nat list list list \<Rightarrow> nat list \<Rightarrow> nat \<Rightarrow> staged_page list res"
where
  "dequant_side_bf16 bf16 flat pages side =
     bind_res (select_pages flat pages) (\<lambda>sel.
       Inr (map (\<lambda>page. map (\<lambda>region. map (token_bf16 bf16 (int side) region) [0..<POOL_BLOCK_SIZE])
         (every_other side page)) sel))"

text \<open>\<open>out[0::2] = k; out[1::2] = v\<close>\<close>

definition interleave :: "'a list \<Rightarrow> 'a list \<Rightarrow> 'a list" where
  "interleave ks vs = concat (map2 (\<lambda>k v. [k, v]) ks vs)"

definition dequant_pool_pages_bf16 :: "(number \<Rightarrow> number) \<Rightarrow> nat list list list \<Rightarrow> staged_page list res" where
  "dequant_pool_pages_bf16 bf16 pool =
     (if list_ex (list_ex (\<lambda>region. length region \<noteq> SLOT_REGION)) pool then Inl ValueError
      else bind_res (dequant_side_bf16 bf16 pool [0..<length pool] 0) (\<lambda>k.
        bind_res (dequant_side_bf16 bf16 pool [0..<length pool] 1) (\<lambda>v.
          Inr (map2 interleave k v))))"

section \<open>The staging buffer\<close>

text \<open>A bound pool: its slots, tokens and width, and the bytes of every slot of every page.\<close>

record q4_pool =
  qp_slots :: nat
  qp_tokens :: nat
  qp_width :: nat
  qp_flat :: "nat list list list"

definition join_halves :: "number list list list \<Rightarrow> number list list list \<Rightarrow> staged_page" where
  "join_halves k v = map2 (map2 (@)) k v"

definition stage_page :: "(number \<Rightarrow> number) \<Rightarrow> number list list list \<Rightarrow> staged_page" where
  "stage_page bf16 values =
     (let (k, v) = split_page_kv values in join_halves (map (map (map bf16)) k) (map (map (map bf16)) v))"

definition zero_page :: "nat \<Rightarrow> staged_page" where
  "zero_page heads = replicate heads (replicate POOL_BLOCK_SIZE (replicate (2 * HEAD_DIM) (Some 0)))"

text \<open>\<open>buffer[lo:lo + len(ps)] = ps\<close>\<close>

definition overwrite :: "'a list \<Rightarrow> nat \<Rightarrow> 'a list \<Rightarrow> 'a list" where
  "overwrite buf lo ps = take lo buf @ ps @ drop (lo + length ps) buf"

definition chunk_starts :: "nat \<Rightarrow> nat \<Rightarrow> nat list" where
  "chunk_starts n step = map (\<lambda>i. i * step) [0..<(n + step - 1) div step]"

definition STAGING_DEQUANT_CHUNK_PAGES :: nat where "STAGING_DEQUANT_CHUNK_PAGES = 2"
definition FAST_STAGING_CHUNK_PAGES :: nat where "FAST_STAGING_CHUNK_PAGES = 32"

text \<open>Both fills, with the staging of a chunk as an argument: the checks, the chunks, the zero page.\<close>

definition fill_with ::
  "(nat list \<Rightarrow> staged_page list res) \<Rightarrow> nat \<Rightarrow> staged_page list \<Rightarrow> q4_pool \<Rightarrow> nat list \<Rightarrow> (nat \<times> staged_page list) res"
where
  "fill_with chunk step buffer pool pages =
     (if qp_slots pool mod 2 \<noteq> 0 \<or> qp_tokens pool \<noteq> POOL_BLOCK_SIZE \<or> qp_width pool \<noteq> ROW_BYTES then Inl ValueError
      else let n = length pages in
        if int n > int (length buffer) - 1 then Inl ValueError
        else if step = 0 then Inl ValueError
        else bind_res
          (fold_res (\<lambda>buf lo. bind_res (chunk (take (min (lo + step) n - lo) (drop lo pages))) (\<lambda>ps. Inr (overwrite buf lo ps)))
            buffer (chunk_starts n step))
          (\<lambda>buf. Inr (n, buf[n := zero_page (qp_slots pool div 2)])))"

definition fill_staging_buffer ::
  "(number \<Rightarrow> number) \<Rightarrow> staged_page list \<Rightarrow> q4_pool \<Rightarrow> nat list \<Rightarrow> (nat \<times> staged_page list) res"
where
  "fill_staging_buffer bf16 buffer pool pages =
     fill_with (\<lambda>ids. bind_res (select_pages (qp_flat pool) ids) (\<lambda>sel.
         bind_res (dequant_pool_pages sel) (\<lambda>values. Inr (map (stage_page bf16) values))))
       STAGING_DEQUANT_CHUNK_PAGES buffer pool pages"

definition fill_staging_buffer_fast ::
  "(number \<Rightarrow> number) \<Rightarrow> nat option \<Rightarrow> staged_page list \<Rightarrow> q4_pool \<Rightarrow> nat list \<Rightarrow> (nat \<times> staged_page list) res"
where
  "fill_staging_buffer_fast bf16 chunk_pages buffer pool pages =
     fill_with (\<lambda>ids. bind_res (dequant_side_bf16 bf16 (qp_flat pool) ids 0) (\<lambda>k.
         bind_res (dequant_side_bf16 bf16 (qp_flat pool) ids 1) (\<lambda>v. Inr (map2 join_halves k v))))
       (case chunk_pages of Some s \<Rightarrow> s | None \<Rightarrow> FAST_STAGING_CHUNK_PAGES) buffer pool pages"

section \<open>Block tables of a slice and of the uncapped staging\<close>

text \<open>
  \<open>lookup\<close> maps a pool page to its staged page, or to the zero page.  A negative table entry is clamped to
  page 0 before the lookup.
\<close>

definition page_lookup :: "nat list \<Rightarrow> nat \<Rightarrow> nat \<Rightarrow> nat list res" where
  "page_lookup pages n num_pages =
     (if 0 < n \<and> (list_ex (\<lambda>p. num_pages \<le> p) pages \<or> length pages \<noteq> n) then Inl IndexError
      else Inr (scatter (replicate num_pages n) (if 0 < n then zip pages [0..<n] else [])))"

definition remap_row :: "nat list \<Rightarrow> int list \<Rightarrow> nat list res" where
  "remap_row lookup row = map_res (\<lambda>e. let p = nat (max e 0) in if p < length lookup then Inr (lookup ! p) else Inl IndexError) row"

definition slice_fake_block_table :: "int list list \<Rightarrow> nat list \<Rightarrow> nat list \<Rightarrow> nat \<Rightarrow> nat \<Rightarrow> nat list list res" where
  "slice_fake_block_table block_table members pages n num_pages =
     bind_res (page_lookup pages n num_pages) (\<lambda>lookup.
       bind_res (select_pages block_table members) (\<lambda>rows. map_res (remap_row lookup) rows))"

text \<open>The uncapped staging; \<open>unique\<close> sorts and drops duplicates.\<close>

definition build_prefill_staging ::
  "(number \<Rightarrow> number) \<Rightarrow> q4_pool \<Rightarrow> int list list \<Rightarrow> nat \<Rightarrow> int list list list \<Rightarrow> nat \<Rightarrow> (staged_page list \<times> nat list list) res"
where
  "build_prefill_staging bf16 pool block_table max_blocks topk num_kv_heads =
     (if qp_slots pool \<noteq> 2 * num_kv_heads \<or> qp_tokens pool \<noteq> POOL_BLOCK_SIZE \<or> qp_width pool \<noteq> ROW_BYTES then Inl ValueError
      else
        let nb = length (qp_flat pool);
            blks = filter (\<lambda>b. 0 \<le> b \<and> b < int max_blocks) (concat (concat topk));
            cand = concat (map (\<lambda>row. map (\<lambda>b. row ! nat b) (sorted_list_of_set (set blks))) block_table);
            selected = sorted_list_of_set (nat ` set (filter (\<lambda>p. 0 \<le> p \<and> p < int nb) cand)) in
        bind_res (select_pages (qp_flat pool) selected) (\<lambda>sel.
          bind_res (dequant_pool_pages sel) (\<lambda>values.
            bind_res (page_lookup selected (length selected) nb) (\<lambda>lookup.
              bind_res (map_res (remap_row lookup) block_table) (\<lambda>fake.
                Inr (map (stage_page bf16) values @ [zero_page num_kv_heads], fake))))))"

section \<open>The page cap\<close>

definition staging_page_bytes :: "nat \<Rightarrow> nat" where
  "staging_page_bytes num_kv_heads = num_kv_heads * POOL_BLOCK_SIZE * 2 * HEAD_DIM * 2"

text \<open>
  \<open>setting\<close> is the environment variable; \<open>parse\<close> is Python's \<open>float\<close>.  A product that leaves the range of
  a double is infinite, which \<open>int\<close> refuses.
\<close>

definition staging_max_pages ::
  "('s \<Rightarrow> pyfloat option) \<Rightarrow> 's option \<Rightarrow> nat \<Rightarrow> pyfloat option \<Rightarrow> nat res"
where
  "staging_max_pages parse setting num_kv_heads max_mb =
     (let mb = (case max_mb of Some f \<Rightarrow> Inr f
                | None \<Rightarrow> (case setting of None \<Rightarrow> Inr (Fin 48)
                    | Some raw \<Rightarrow> (case parse raw of Some f \<Rightarrow> Inr f | None \<Rightarrow> Inl ValueError))) in
      bind_res mb (\<lambda>f. case f of
          Fin x \<Rightarrow>
            (if \<not> 0 < x then Inl ValueError
             else if 2 ^ 1024 \<le> x * 2 ^ 20 then Inl OverflowError
             else if num_kv_heads = 0 then Inl ZeroDivisionError
             else Inr (max 1 (nat \<lfloor>x * 2 ^ 20\<rfloor> div staging_page_bytes num_kv_heads)))
        | _ \<Rightarrow> Inl ValueError))"

section \<open>The two dequantisations agree\<close>

text \<open>
  What bf16 represents: numbers of at most eight significant bits (in a range well inside its exponents),
  and NaN.
\<close>

definition bf16_exact :: "(number \<Rightarrow> number) \<Rightarrow> bool" where
  "bf16_exact bf16 \<longleftrightarrow> bf16 None = None \<and>
     (\<forall>m e k. \<bar>m :: int\<bar> < 2 ^ 8 \<longrightarrow> e \<le> 30 \<longrightarrow> k \<le> 30 \<longrightarrow>
        bf16 (Some (of_int m * 2 ^ e / 2 ^ k)) = Some (of_int m * 2 ^ e / 2 ^ k))"

lemma bf16_exactD: "bf16_exact bf16 \<Longrightarrow> \<bar>m\<bar> < 2 ^ 8 \<Longrightarrow> e \<le> 30 \<Longrightarrow> k \<le> 30 \<Longrightarrow>
  bf16 (Some (of_int m * 2 ^ e / 2 ^ k)) = Some (of_int m * 2 ^ e / 2 ^ k)"
  unfolding bf16_exact_def by blast

lemma e2m1_exact:
  assumes "bf16_exact bf16"
  shows "bf16 (Some (e2m1_decode c)) = Some (e2m1_decode c)"
proof -
  let ?tab = "[0, 1, 2, 3, 4, 6, 8, 12, 0, - 1, - 2, - 3, - 4, - 6, - 8, - 12] :: int list"
  have "list_all (\<lambda>n. e2m1_decode n = of_int (?tab ! n) / 2 \<and> \<bar>?tab ! n\<bar> < 256) [0..<16]" by code_simp
  then have "e2m1_decode (c mod 16) = of_int (?tab ! (c mod 16)) / 2 \<and> \<bar>?tab ! (c mod 16)\<bar> < 256"
    unfolding list_all_iff by (rule bspec) simp
  moreover have "e2m1_decode (c mod 16) = e2m1_decode c" by (simp add: e2m1_decode_def and_masks)
  ultimately have v: "e2m1_decode c = of_int (?tab ! (c mod 16)) * 2 ^ 0 / 2 ^ 1" "\<bar>?tab ! (c mod 16)\<bar> < 2 ^ 8" by simp_all
  show ?thesis unfolding v(1) by (rule bf16_exactD [OF assms v(2)]) simp_all
qed

lemma e4m3_exact:
  assumes "bf16_exact bf16"
  shows "bf16 (e4m3_decode b) = e4m3_decode b"
proof (cases "e4m3_decode b")
  case None
  then show ?thesis using assms by (simp add: bf16_exact_def)
next
  case (Some v)
  let ?b = "b AND 0xFF"
  let ?man = "?b AND 7" and ?ex = "drop_bit 3 ?b AND 0xF"
  have r: "?man < 8" "?ex < 16" by (simp_all add: and_masks)
  define s :: int where "s = (if ?b AND 0x80 \<noteq> 0 then - 1 else 1)"
  have s: "\<bar>s * m\<bar> = \<bar>m\<bar>" for m by (simp add: s_def)
  show ?thesis
  proof (cases "?ex = 0")
    case True
    then have v: "v = of_int (s * int ?man) * 2 ^ 0 / 2 ^ 9"
      using Some by (auto simp: e4m3_decode_def Let_def s_def split: if_splits)
    show ?thesis unfolding Some v by (rule bf16_exactD [OF assms]) (use s r in simp_all)
  next
    case False
    then have v: "v = of_int (s * (int ?man + 8)) * 2 ^ ?ex / 2 ^ 10"
      using Some by (auto simp: e4m3_decode_def Let_def s_def field_simps split: if_splits)
    show ?thesis unfolding Some v by (rule bf16_exactD [OF assms]) (use s [of "int ?man + 8"] r in simp_all)
  qed
qed

lemma byte_pair_lut_at:
  assumes "bf16_exact bf16" "d < 256"
  shows "byte_pair_lut bf16 ! d = (Some (e2m1_decode (d AND 0xF)), Some (e2m1_decode (drop_bit 4 d)))"
proof -
  have "drop_bit 4 d = drop_bit 4 d AND 0xF" "d AND 0xF < 16"
    using assms(2) by (simp_all add: and_masks drop_bit_eq_div)
  moreover have "drop_bit 4 d AND 0xF < 16" by (simp add: and_masks)
  ultimately show ?thesis using assms by (simp add: byte_pair_lut_def Let_def e2m1_exact)
qed

text \<open>A region of the pool: 9216 bytes.\<close>

definition region_ok :: "nat list \<Rightarrow> bool" where
  "region_ok region \<longleftrightarrow> length region = SLOT_REGION \<and> (\<forall>b \<in> set region. b < 256)"

lemma token_bf16_values:
  assumes "bf16_exact bf16" "region_ok region"
  shows "token_bf16 bf16 side region t = map bf16 (token_values side region t)"
proof -
  let ?ds = "take DATA_BYTES (drop (t * DATA_BYTES) (take DATA_REGION region))"
  let ?ss = "map ((!) (drop DATA_REGION region)) (scale_offset_row side t)"
  have "\<forall>d \<in> set ?ds. d < 256"
    using assms(2) by (auto simp: region_ok_def dest!: in_set_takeD in_set_dropD)
  then have v: "concat (map (\<lambda>d. let (low, high) = byte_pair_lut bf16 ! d in [low, high]) ?ds) = map Some (data_values ?ds)"
    unfolding data_values_def map_concat map_map by (intro arg_cong [where f = concat] map_cong refl) (simp add: byte_pair_lut_at [OF assms(1)])
  have s: "map (\<lambda>o'. bf16 (e4m3_decode (drop DATA_REGION region ! o'))) (scale_offset_row side t) = map e4m3_decode ?ss"
    by (simp add: e4m3_exact [OF assms(1)])
  have m: "map2 (\<lambda>v s. bf16 (number_times v s)) (map Some xs) ys = map bf16 (map2 times_scale ys xs)" for xs ys
  proof (induction xs arbitrary: ys)
    case (Cons x xs)
    then show ?case by (cases ys) (auto simp: number_times_def times_scale_def)
  qed simp
  have "token_bf16 bf16 side region t = map2 (\<lambda>v s. bf16 (number_times v s)) (map Some (data_values ?ds)) (concat (map (replicate GROUP_SIZE) (map e4m3_decode ?ss)))"
    unfolding token_bf16_def Let_def v [unfolded Let_def] s ..
  also have "\<dots> = map bf16 (token_values side region t)"
    unfolding m token_values_def scaled_values_def by (simp only: map_map comp_def)
  finally show ?thesis .
qed

section \<open>The two fills agree\<close>

lemma map_res_append: "map_res f (xs @ ys) = bind_res (map_res f xs) (\<lambda>us. bind_res (map_res f ys) (\<lambda>vs. Inr (us @ vs)))"
  by (induction xs) (auto simp: bind_res_def split: sum.splits)

lemma map_res_length: "map_res f xs = Inr ys \<Longrightarrow> length ys = length xs"
  using list_all2_lengthD unfolding map_res_Inr_iff by metis

lemma overwrite_overwrite:
  assumes "length (ps @ qs) \<le> length buf" "length ps = lo"
  shows "overwrite (overwrite buf 0 ps) lo qs = overwrite buf 0 (ps @ qs)"
  using assms by (simp add: overwrite_def add.commute)

text \<open>
  A fill whose chunks are staged page by page does not depend on the chunk size: it is the staging of all
  pages, or the exception of the first page that has one.
\<close>

lemma fill_chunks:
  assumes "0 < step" "length pages \<le> length buffer" "k \<le> (length pages + step - 1) div step"
  shows "fold_res (\<lambda>buf lo. bind_res (map_res f (take (min (lo + step) (length pages) - lo) (drop lo pages))) (\<lambda>ps. Inr (overwrite buf lo ps)))
      buffer (map (\<lambda>i. i * step) [0..<k]) =
    bind_res (map_res f (take (k * step) pages)) (\<lambda>ps. Inr (overwrite buffer 0 ps))"
  using assms(3)
proof (induction k)
  case 0
  then show ?case by (simp add: overwrite_def)
next
  case (Suc k)
  let ?n = "length pages"
  have "Suc k * step \<le> ?n + step - 1"
    using Suc.prems div_times_less_eq_dividend [of "?n + step - 1" step] by (meson le_trans mult_le_mono1)
  then have lt: "k * step < ?n" using assms(1) by simp
  have split: "take (Suc k * step) pages = take (k * step) pages @ take (min (k * step + step) ?n - k * step) (drop (k * step) pages)"
  proof -
    have "take (Suc k * step) pages = take (k * step) pages @ take step (drop (k * step) pages)"
      using take_add [of "k * step" step pages] by (simp add: add.commute)
    also have "take step (drop (k * step) pages) = take (min (k * step + step) ?n - k * step) (drop (k * step) pages)"
      by (rule nth_equalityI) auto
    finally show ?thesis .
  qed
  have ov: "overwrite (overwrite buffer 0 ps) (k * step) qs = overwrite buffer 0 (ps @ qs)"
    if "map_res f (take (k * step) pages) = Inr ps" "map_res f (take (min (k * step + step) ?n - k * step) (drop (k * step) pages)) = Inr qs" for ps qs
    by (rule overwrite_overwrite) (use lt map_res_length [OF that(1)] map_res_length [OF that(2)] assms(2) in auto)
  show ?case
    unfolding split map_res_append using Suc ov by (auto simp: bind_res_def split: sum.splits)
qed

lemma fill_pages:
  assumes "0 < step" "length pages \<le> length buffer"
  shows "fold_res (\<lambda>buf lo. bind_res (map_res f (take (min (lo + step) (length pages) - lo) (drop lo pages))) (\<lambda>ps. Inr (overwrite buf lo ps)))
      buffer (chunk_starts (length pages) step) =
    bind_res (map_res f pages) (\<lambda>ps. Inr (overwrite buffer 0 ps))"
proof -
  let ?k = "(length pages + step - 1) div step"
  have "length pages \<le> ?k * step"
  proof -
    have "length pages + step - 1 = ?k * step + (length pages + step - 1) mod step" by simp
    moreover have "(length pages + step - 1) mod step < step" using assms(1) by simp
    ultimately show ?thesis by linarith
  qed
  then show ?thesis using fill_chunks [OF assms order_refl, of f] by (simp add: chunk_starts_def)
qed

lemma fill_with_pages:
  assumes "\<And>ids. chunk ids = map_res f ids" "0 < step"
  shows "fill_with chunk step buffer pool pages =
    (if qp_slots pool mod 2 \<noteq> 0 \<or> qp_tokens pool \<noteq> POOL_BLOCK_SIZE \<or> qp_width pool \<noteq> ROW_BYTES \<or> length buffer \<le> length pages
     then Inl ValueError
     else bind_res (map_res f pages) (\<lambda>ps. Inr (length pages, ps @ zero_page (qp_slots pool div 2) # drop (Suc (length pages)) buffer)))"
proof (cases "length buffer \<le> length pages")
  case False
  have ov: "(overwrite buffer 0 ps)[length pages := z] = ps @ z # drop (Suc (length pages)) buffer"
    if "map_res f pages = Inr ps" for ps z
    using map_res_length [OF that] False by (simp add: overwrite_def list_update_append Cons_nth_drop_Suc [symmetric])
  show ?thesis
    using False assms(2) ov fill_pages [OF assms(2), of pages buffer f]
    by (auto simp: fill_with_def Let_def assms(1) bind_res_def split: sum.splits)
qed (use assms(2) in \<open>auto simp: fill_with_def Let_def\<close>)

text \<open>A pool as bound: every page has its slots, every slot its bytes.\<close>

definition pool_ok :: "q4_pool \<Rightarrow> bool" where
  "pool_ok pool \<longleftrightarrow> (\<forall>page \<in> set (qp_flat pool). length page = qp_slots pool \<and> (\<forall>region \<in> set page. region_ok region))"

text \<open>The staged form of page \<open>p\<close> of the pool.\<close>

definition page_values :: "nat list list \<Rightarrow> number list list list" where
  "page_values page = map (\<lambda>slot. map (token_values (int (slot mod 2)) (page ! slot)) [0..<POOL_BLOCK_SIZE]) [0..<length page]"

definition staged :: "(number \<Rightarrow> number) \<Rightarrow> q4_pool \<Rightarrow> nat \<Rightarrow> staged_page" where
  "staged bf16 pool p = stage_page bf16 (page_values (qp_flat pool ! p))"

definition stage_one :: "(number \<Rightarrow> number) \<Rightarrow> q4_pool \<Rightarrow> nat \<Rightarrow> staged_page res" where
  "stage_one bf16 pool p = (if p < length (qp_flat pool) then Inr (staged bf16 pool p) else Inl IndexError)"

lemma select_pages_map:
  "bind_res (select_pages xs ids) (\<lambda>sel. Inr (map g sel)) = map_res (\<lambda>p. if p < length xs then Inr (g (xs ! p)) else Inl IndexError) ids"
  by (induction ids) (auto simp: select_pages_def bind_res_def split: sum.splits)

lemma select_pages_Inr: "select_pages xs ids = Inr ys \<Longrightarrow> set ys \<subseteq> set xs"
  by (induction ids arbitrary: ys) (auto simp: select_pages_def bind_res_Inr split: if_splits)

lemma slow_chunk:
  assumes "pool_ok pool"
  shows "bind_res (select_pages (qp_flat pool) ids) (\<lambda>sel. bind_res (dequant_pool_pages sel) (\<lambda>values. Inr (map (stage_page bf16) values))) =
    map_res (stage_one bf16 pool) ids"
proof -
  have "dequant_pool_pages sel = Inr (map page_values sel)" if "set sel \<subseteq> set (qp_flat pool)" for sel
    using that assms by (fastforce simp: dequant_pool_pages_def page_values_def pool_ok_def region_ok_def list_ex_iff)
  then have "bind_res (select_pages (qp_flat pool) ids) (\<lambda>sel. bind_res (dequant_pool_pages sel) (\<lambda>values. Inr (map (stage_page bf16) values))) =
      bind_res (select_pages (qp_flat pool) ids) (\<lambda>sel. Inr (map (\<lambda>page. stage_page bf16 (page_values page)) sel))"
    using select_pages_Inr [of "qp_flat pool" ids] by (intro bind_res_cong refl) (simp add: comp_def)
  also have "\<dots> = map_res (stage_one bf16 pool) ids"
    unfolding select_pages_map stage_one_def [abs_def] staged_def ..
  finally show ?thesis .
qed

lemma every_other_length: "even (length xs) \<Longrightarrow> start < 2 \<Longrightarrow> length (every_other start xs) = length xs div 2"
  by (auto simp: every_other_def less_2_cases_iff)

lemma every_other_map: "start < 2 \<Longrightarrow> every_other start (map f [0..<n]) = map (\<lambda>i. f (2 * i + start)) [0..<(n + 1 - start) div 2]"
  by (auto simp: every_other_def less_2_cases_iff)

lemma side_values:
  assumes "bf16_exact bf16" "\<forall>region \<in> set page. region_ok region" "side < 2"
  shows "map (\<lambda>region. map (token_bf16 bf16 (int side) region) [0..<POOL_BLOCK_SIZE]) (every_other side page) =
    map (map (map bf16)) (every_other side (page_values page))"
proof -
  have "region_ok (page ! (2 * i + side))" if "i < (length page + 1 - side) div 2" for i
    using assms(2,3) that by (auto simp: less_2_cases_iff)
  then show ?thesis
    unfolding page_values_def every_other_map [OF assms(3)]
    using assms(3) by (auto simp: every_other_def token_bf16_values [OF assms(1)] mod_Suc less_2_cases_iff)
qed

lemma fast_chunk:
  assumes "bf16_exact bf16" "pool_ok pool"
  shows "bind_res (dequant_side_bf16 bf16 (qp_flat pool) ids 0) (\<lambda>k.
      bind_res (dequant_side_bf16 bf16 (qp_flat pool) ids 1) (\<lambda>v. Inr (map2 join_halves k v))) =
    map_res (stage_one bf16 pool) ids"
proof -
  let ?side = "\<lambda>side page. map (\<lambda>region. map (token_bf16 bf16 (int side) region) [0..<POOL_BLOCK_SIZE]) (every_other side page)"
  have z: "map2 join_halves (map f sel) (map g sel) = map (\<lambda>page. join_halves (f page) (g page)) sel" for f g and sel :: "nat list list list"
    by (induction sel) auto
  have st: "join_halves (?side 0 page) (?side 1 page) = stage_page bf16 (page_values page)" if "page \<in> set (qp_flat pool)" for page
    using that assms(2) side_values [OF assms(1), of page 0] side_values [OF assms(1), of page 1]
    by (simp add: pool_ok_def stage_page_def split_page_kv_def)
  have "bind_res (dequant_side_bf16 bf16 (qp_flat pool) ids 0) (\<lambda>k.
      bind_res (dequant_side_bf16 bf16 (qp_flat pool) ids 1) (\<lambda>v. Inr (map2 join_halves k v))) =
      bind_res (select_pages (qp_flat pool) ids) (\<lambda>sel. Inr (map (\<lambda>page. join_halves (?side 0 page) (?side 1 page)) sel))"
    by (cases "select_pages (qp_flat pool) ids") (simp_all add: dequant_side_bf16_def z)
  also have "\<dots> = bind_res (select_pages (qp_flat pool) ids) (\<lambda>sel. Inr (map (\<lambda>page. stage_page bf16 (page_values page)) sel))"
    using select_pages_Inr [of "qp_flat pool" ids] st by (intro bind_res_cong refl) auto
  also have "\<dots> = map_res (stage_one bf16 pool) ids"
    unfolding select_pages_map stage_one_def [abs_def] staged_def ..
  finally show ?thesis .
qed

lemma fill_value:
  assumes "pool_ok pool" "qp_slots pool = 2 * heads" "qp_tokens pool = POOL_BLOCK_SIZE" "qp_width pool = ROW_BYTES"
    "\<forall>p \<in> set pages. p < length (qp_flat pool)" "length pages < length buffer"
  shows "fill_staging_buffer bf16 buffer pool pages =
    Inr (length pages, map (staged bf16 pool) pages @ zero_page heads # drop (Suc (length pages)) buffer)"
proof -
  have "map_res (stage_one bf16 pool) pages = Inr (map (staged bf16 pool) pages)"
    unfolding map_res_Inr_iff using assms(5) by (auto simp: stage_one_def list_all2_conv_all_nth)
  then show ?thesis
    unfolding fill_staging_buffer_def using assms(2-4,6)
    by (subst fill_with_pages [OF slow_chunk [OF assms(1)]]) (simp_all add: STAGING_DEQUANT_CHUNK_PAGES_def)
qed

text \<open>C31: the single-pass fill of the staging buffer gives, for every pool, page list, buffer and chunk size,
the buffer and the exceptions of the fill that dequantises in single precision and rounds, provided bf16
represents numbers of eight significant bits exactly.\<close>

theorem fast_fill_is_the_fill:
  assumes "bf16_exact bf16" "pool_ok pool" "chunk_pages \<noteq> Some 0"
  shows "fill_staging_buffer_fast bf16 chunk_pages buffer pool pages = fill_staging_buffer bf16 buffer pool pages"
proof -
  have "0 < (case chunk_pages of Some s \<Rightarrow> s | None \<Rightarrow> FAST_STAGING_CHUNK_PAGES)"
    using assms(3) by (cases chunk_pages) (auto simp: FAST_STAGING_CHUNK_PAGES_def)
  note fast = fill_with_pages [OF fast_chunk [OF assms(1,2)] this]
  note slow = fill_with_pages [OF slow_chunk [OF assms(2)], of STAGING_DEQUANT_CHUNK_PAGES bf16 buffer pool pages]
  show ?thesis
    unfolding fill_staging_buffer_fast_def fill_staging_buffer_def fast by (subst slow) (simp_all add: STAGING_DEQUANT_CHUNK_PAGES_def)
qed

text \<open>A pool of one page with one head, and a bf16 that keeps every number.\<close>

definition sample_pool :: q4_pool where
  "sample_pool = \<lparr>qp_slots = 2, qp_tokens = 128, qp_width = 72, qp_flat = [[replicate SLOT_REGION 7, replicate SLOT_REGION 9]]\<rparr>"

lemma sample_pool_ok: "pool_ok sample_pool"
  by (simp add: pool_ok_def sample_pool_def region_ok_def)

lemma bf16_exact_id: "bf16_exact id"
  by (simp add: bf16_exact_def)

lemma fast_fill_is_the_fill_witness:
  "fill_staging_buffer_fast id (Some 3) (replicate 2 (zero_page 1)) sample_pool [0] =
     fill_staging_buffer id (replicate 2 (zero_page 1)) sample_pool [0]"
  by (rule fast_fill_is_the_fill [OF bf16_exact_id sample_pool_ok]) simp

end
