(* ===== verification/Q4kv_Kernels.thy ===== *)
theory Q4kv_Kernels
  imports Q4kv_Staging
begin

text \<open>
  The Triton staging kernel of the 4-bit KV prefill and its launcher
  (\<open>src/vllm_exl3/minimax_q4kv_kernels.py\<close>).  A program of the grid is the list of its stores; the grid
  runs in an arbitrary order.  The launcher's tensors are a record with what the checks read of them.
\<close>

section \<open>The staging kernel\<close>

definition STAGE_BLOCK_T :: nat where "STAGE_BLOCK_T = 32"

text \<open>The row of \<open>out\<close> for token \<open>n\<close> of a slot that starts at \<open>base\<close>.\<close>

definition kernel_row :: "nat list \<Rightarrow> nat \<Rightarrow> nat \<Rightarrow> nat \<Rightarrow> number list" where
  "kernel_row pool_ptr base side n =
     (let u = map (\<lambda>j. pool_ptr ! (base + (n * 64 + j))) [0..<64];
          sb = (if side = 1
            then map (\<lambda>g. pool_ptr ! (base + 8192 + (n div 4 * 4 + g div 2) * 8 + (g mod 2 * 4 + n mod 4))) [0..<8]
            else map (\<lambda>g. pool_ptr ! (base + 8192 + n * 8 + g)) [0..<8]) in
      scaled_values u sb)"

definition kernel_stores ::
  "(number \<Rightarrow> number) \<Rightarrow> nat list \<Rightarrow> nat list \<Rightarrow> nat \<Rightarrow> nat \<Rightarrow> nat \<times> nat \<times> nat \<Rightarrow> (nat \<times> number) list"
where
  "kernel_stores bf16 pool_ptr pages n_heads block_t pg =
     (let (pid, head, tb) = pg; page_base = pages ! pid * (2 * n_heads) * 9216 in
      concat (map (\<lambda>side.
        let base = page_base + (2 * head + side) * 9216 in
        concat (map (\<lambda>n.
          zip (map (\<lambda>d. pid * (n_heads * 128 * 256) + head * (128 * 256) + n * 256 + side * 128 + d) [0..<128])
            (map bf16 (kernel_row pool_ptr base side n)))
          [tb * block_t..<tb * block_t + block_t]))
        [0..<2]))"

definition stage_grid :: "nat \<Rightarrow> nat \<Rightarrow> nat \<Rightarrow> (nat \<times> nat \<times> nat) list" where
  "stage_grid n num_kv_heads tiles = List.product [0..<n] (List.product [0..<num_kv_heads] [0..<tiles])"

section \<open>The launcher\<close>

text \<open>\<open>dv_type\<close> is the type of a device, \<open>dv_index\<close> its index; a tensor is compared by both.\<close>

record device =
  dv_type :: string
  dv_index :: nat

definition off_device :: "device \<Rightarrow> (string \<times> device option) list \<Rightarrow> (string \<times> device) list" where
  "off_device ref_device named =
     concat (map (\<lambda>(name, t). case t of None \<Rightarrow> [] | Some dv \<Rightarrow> if dv \<noteq> ref_device then [(name, dv)] else []) named)"

definition device_gate :: "string \<Rightarrow> device \<Rightarrow> (string \<times> device option) list \<Rightarrow> unit res" where
  "device_gate required query named =
     (if dv_type query \<noteq> required then Inl ValueError
      else if off_device query named \<noteq> [] then Inl ValueError
      else Inr ())"

record tensor_meta =
  tm_device :: device
  tm_dtype :: string
  tm_shape :: "nat list"
  tm_stride :: "nat list"

definition dim_is :: "tensor_meta \<Rightarrow> nat \<Rightarrow> nat \<Rightarrow> bool" where
  "dim_is tm i k \<longleftrightarrow> i < length (tm_shape tm) \<and> tm_shape tm ! i = k"

definition stride_is :: "tensor_meta \<Rightarrow> nat \<Rightarrow> nat \<Rightarrow> bool" where
  "stride_is tm i k \<longleftrightarrow> i < length (tm_stride tm) \<and> tm_stride tm ! i = k"

definition stage_checks :: "string \<Rightarrow> tensor_meta \<Rightarrow> tensor_meta \<Rightarrow> tensor_meta \<Rightarrow> unit res" where
  "stage_checks required buffer pool pages =
     bind_res (device_gate required (tm_device pool)
         [(''buffer'', Some (tm_device buffer)), (''pages'', Some (tm_device pages))]) (\<lambda>_.
       if tm_dtype pool \<noteq> ''uint8'' then Inl ValueError
       else if length (tm_shape pool) \<noteq> 4 \<or> \<not> dim_is pool 2 128 \<or> \<not> dim_is pool 3 72 then Inl ValueError
       else if \<not> stride_is pool 2 72 \<or> \<not> stride_is pool 1 9216 \<or> \<not> stride_is pool 3 1 then Inl ValueError
       else if tm_dtype buffer \<noteq> ''bfloat16'' then Inl ValueError
       else if tm_dtype pages \<noteq> ''int64'' \<and> tm_dtype pages \<noteq> ''int32'' then Inl ValueError
       else if length (tm_shape buffer) \<noteq> 4 \<or> \<not> dim_is buffer 1 (tm_shape pool ! 1 div 2) \<or> \<not> dim_is buffer 2 128
           \<or> \<not> dim_is buffer 3 256 then Inl ValueError
       else Inr ())"

text \<open>The buffer as flat memory and back.\<close>

definition flat_page :: "staged_page \<Rightarrow> number list" where
  "flat_page page = concat (map concat page)"

definition unflat_page :: "nat \<Rightarrow> number list \<Rightarrow> staged_page" where
  "unflat_page heads xs = map (chunks_of 128 256) (chunks_of heads (128 * 256) xs)"

text \<open>\<open>order\<close> is the order in which the programs of the grid happen to run.\<close>

definition q4_stage_pages ::
  "(number \<Rightarrow> number) \<Rightarrow> ((nat \<times> nat \<times> nat) list \<Rightarrow> (nat \<times> nat \<times> nat) list) \<Rightarrow> staged_page list \<Rightarrow> q4_pool \<Rightarrow> nat list
    \<Rightarrow> (nat \<times> staged_page list) res"
where
  "q4_stage_pages bf16 order buffer pool pages =
     (let num_kv_heads = qp_slots pool div 2; n = length pages in
      if n = 0 then
        (if buffer = [] then Inl IndexError else Inr (0, buffer[0 := zero_page num_kv_heads]))
      else if int n > int (length buffer) - 1 then Inl ValueError
      else
        let programs = order (stage_grid n num_kv_heads (128 div STAGE_BLOCK_T));
            mem = scatter (concat (map flat_page buffer))
              (concat (map (kernel_stores bf16 (concat (concat (qp_flat pool))) pages num_kv_heads STAGE_BLOCK_T) programs));
            buf = map (unflat_page num_kv_heads) (chunks_of (length buffer) (num_kv_heads * 128 * 256) mem) in
        Inr (n, buf[n := zero_page num_kv_heads]))"

section \<open>Memory and pages\<close>

lemma concat_nth:
  assumes "\<forall>x \<in> set xss. length x = k" "i < length xss" "j < k"
  shows "concat xss ! (i * k + j) = xss ! i ! j"
proof -
  have len: "(i + 1) * k \<le> length (concat xss)"
    unfolding concat_blocks_length [OF assms(1)] using assms(2) by (intro mult_le_mono1) simp
  have "xss ! i ! j = take k (drop (i * k) (concat xss)) ! j" by (simp only: concat_block [OF assms(1,2)])
  also have "\<dots> = concat xss ! (i * k + j)" using assms(3) len by simp
  finally show ?thesis by simp
qed

lemma chunks_of_concat: "\<forall>x \<in> set xss. length x = k \<Longrightarrow> chunks_of (length xss) k (concat xss) = xss"
  by (induction xss) auto

text \<open>Stores that agree on the value of each address can run in any order.\<close>

lemma scatter_consistent:
  assumes "\<forall>(i, v) \<in> set ps. v = F i" "i < length xs"
  shows "scatter xs ps ! i = (if i \<in> fst ` set ps then F i else xs ! i)"
  using assms
proof (induction ps arbitrary: xs)
  case (Cons p ps)
  obtain j v where p: "p = (j, v)" by force
  have v: "v = F j" using Cons.prems(1) p by simp
  have "scatter (xs[j := v]) ps ! i = (if i \<in> fst ` set ps then F i else xs[j := v] ! i)"
    by (rule Cons.IH) (use Cons.prems in auto)
  then show ?case using v p Cons.prems(2) by (auto simp: scatter_Cons nth_list_update)
qed simp

definition page_shape :: "nat \<Rightarrow> staged_page \<Rightarrow> bool" where
  "page_shape heads page \<longleftrightarrow> length page = heads \<and> (\<forall>h \<in> set page. length h = 128 \<and> (\<forall>row \<in> set h. length row = 256))"

lemma flat_page_length: "page_shape heads page \<Longrightarrow> length (flat_page page) = heads * (128 * 256)"
proof -
  assume s: "page_shape heads page"
  have "length (concat h) = 128 * 256" if "h \<in> set page" for h
    using s that concat_blocks_length [of h 256] by (simp add: page_shape_def)
  then have "\<forall>x \<in> set (map concat page). length x = 128 * 256" by simp
  from concat_blocks_length [OF this] show ?thesis using s by (simp add: flat_page_def page_shape_def)
qed

lemma unflat_flat_page:
  assumes "page_shape heads page"
  shows "unflat_page heads (flat_page page) = page"
proof -
  have h: "length (concat h) = 128 * 256 \<and> chunks_of 128 256 (concat h) = h" if "h \<in> set page" for h
    using assms that concat_blocks_length [of h 256] chunks_of_concat [of h 256] by (simp add: page_shape_def)
  have "chunks_of heads (128 * 256) (flat_page page) = map concat page"
    using chunks_of_concat [of "map concat page" "128 * 256"] assms h by (simp add: flat_page_def page_shape_def)
  then show ?thesis using h by (simp add: unflat_page_def map_idI)
qed

lemma flat_page_at:
  assumes "page_shape heads page" "head < heads" "n < 128" "c < 256"
  shows "flat_page page ! (head * (128 * 256) + n * 256 + c) = page ! head ! n ! c"
proof -
  have s: "page ! head \<in> set page" "length page = heads" using assms(1,2) by (auto simp: page_shape_def)
  have "length (concat h) = 128 * 256" if "h \<in> set page" for h
    using assms(1) that concat_blocks_length [of h 256] by (simp add: page_shape_def)
  then have b: "\<forall>x \<in> set (map concat page). length x = 128 * 256" by simp
  have "n * 256 + c < 128 * 256" using assms(3,4) by simp
  from concat_nth [OF b _ this, of head] have "flat_page page ! (head * (128 * 256) + (n * 256 + c)) = concat (page ! head) ! (n * 256 + c)"
    using s assms(2) by (simp add: flat_page_def)
  also have "\<dots> = page ! head ! n ! c"
    using s assms by (intro concat_nth) (auto simp: page_shape_def)
  finally show ?thesis by (simp add: add.assoc)
qed

section \<open>What the kernel stores\<close>

lemma token_values_length: "length region = SLOT_REGION \<Longrightarrow> t < 128 \<Longrightarrow> length (token_values side region t) = 128"
proof -
  assume r: "length region = SLOT_REGION" and t: "t < 128"
  have "length (data_values ds) = 2 * length ds" for ds by (induction ds) (auto simp: data_values_def)
  moreover have "length (concat (map (\<lambda>s. replicate GROUP_SIZE (e4m3_decode s)) ss)) = length ss * GROUP_SIZE" for ss
    using concat_blocks_length [of "map (\<lambda>s. replicate GROUP_SIZE (e4m3_decode s)) ss" GROUP_SIZE] by simp
  ultimately show ?thesis using r t by (simp add: token_values_def scaled_values_def geometry_defs del: map_map)
qed

lemma kernel_row_token:
  assumes "take 9216 (drop base pool_ptr) = region" "length region = SLOT_REGION" "n < 128" "side < 2"
  shows "kernel_row pool_ptr base side n = token_values (int side) region n"
proof -
  have at: "region ! x = pool_ptr ! (base + x)" if "x < 9216" for x
  proof -
    have "length (take 9216 (drop base pool_ptr)) = 9216" using assms(1,2) by (simp add: geometry_defs)
    then have "base + x < length pool_ptr" using that by simp
    then show ?thesis using assms(1) that by (metis less_imp_le nth_drop nth_take order_less_le_trans linorder_not_less nat_le_linear add_leD1 trans_less_add1)
  qed
  have "take 64 (drop (n * 64) (take 8192 region)) = map ((!) (take 8192 region)) [n * 64..<n * 64 + 64]"
    by (rule slice_nth) (use assms(2,3) in \<open>simp add: geometry_defs\<close>)
  also have "\<dots> = map (\<lambda>j. pool_ptr ! (base + (n * 64 + j))) [0..<64]"
    by (rule nth_equalityI) (use assms(3) at in \<open>auto\<close>)
  finally have u: "take 64 (drop (n * 64) (take 8192 region)) = map (\<lambda>j. pool_ptr ! (base + (n * 64 + j))) [0..<64]" .
  have o': "drop 8192 region ! o' = pool_ptr ! (base + 8192 + o')" if "o' < 1024" for o'
    using at [of "8192 + o'"] that assms(2) by (simp add: geometry_defs add.assoc)
  have sb: "map ((!) (drop 8192 region)) (scale_offset_row (int side) n) = map (\<lambda>o'. pool_ptr ! (base + 8192 + o')) (scale_offset_row (int side) n)"
    using scale_offset_bound [OF assms(3)] by (intro map_cong refl o') (auto simp: scale_offset_set)
  have "(if side = 1
      then map (\<lambda>g. pool_ptr ! (base + 8192 + (n div 4 * 4 + g div 2) * 8 + (g mod 2 * 4 + n mod 4))) [0..<8]
      else map (\<lambda>g. pool_ptr ! (base + 8192 + n * 8 + g)) [0..<8]) =
    map (\<lambda>o'. pool_ptr ! (base + 8192 + o')) (scale_offset_row (int side) n)"
    using assms(4) by (auto simp: geometry_defs scale_offset_row_def less_2_cases_iff add.assoc comp_def)
  then have "kernel_row pool_ptr base side n =
      scaled_values (map (\<lambda>j. pool_ptr ! (base + (n * 64 + j))) [0..<64]) (map (\<lambda>o'. pool_ptr ! (base + 8192 + o')) (scale_offset_row (int side) n))"
    unfolding kernel_row_def Let_def by (simp only:)
  moreover have "token_values (int side) region n =
      scaled_values (take 64 (drop (n * 64) (take 8192 region))) (map ((!) (drop 8192 region)) (scale_offset_row (int side) n))"
    by (simp add: token_values_def DATA_BYTES_def DATA_REGION_def POOL_BLOCK_SIZE_def)
  ultimately show ?thesis unfolding u sb by (rule trans [OF _ sym])
qed

lemma pool_region:
  assumes "pool_ok pool" "p < length (qp_flat pool)" "s < qp_slots pool"
  shows "take 9216 (drop ((p * qp_slots pool + s) * 9216) (concat (concat (qp_flat pool)))) = qp_flat pool ! p ! s"
    "region_ok (qp_flat pool ! p ! s)"
proof -
  have pg: "\<forall>page \<in> set (qp_flat pool). length page = qp_slots pool" "\<forall>r \<in> set (concat (qp_flat pool)). length r = 9216"
    using assms(1) by (auto simp: pool_ok_def region_ok_def geometry_defs)
  have at: "concat (qp_flat pool) ! (p * qp_slots pool + s) = qp_flat pool ! p ! s" by (rule concat_nth [OF pg(1) assms(2,3)])
  have "p * qp_slots pool + s < length (concat (qp_flat pool))"
  proof -
    have "Suc p * qp_slots pool \<le> length (qp_flat pool) * qp_slots pool" using assms(2) by (intro mult_le_mono1) simp
    then show ?thesis unfolding concat_blocks_length [OF pg(1)] using assms(3) by simp
  qed
  from concat_block [OF pg(2) this] show "take 9216 (drop ((p * qp_slots pool + s) * 9216) (concat (concat (qp_flat pool)))) = qp_flat pool ! p ! s"
    unfolding at .
  have "qp_flat pool ! p \<in> set (qp_flat pool)" using assms(2) by simp
  then show "region_ok (qp_flat pool ! p ! s)" using assms(1,3) by (auto simp: pool_ok_def)
qed

text \<open>The entries of a staged page.\<close>

lemma every_other_nth: "start < 2 \<Longrightarrow> i < (length xs + 1 - start) div 2 \<Longrightarrow> every_other start xs ! i = xs ! (2 * i + start)"
  by (simp add: every_other_def)

lemma staged_map:
  assumes "pool_ok pool" "p < length (qp_flat pool)" "qp_slots pool = 2 * heads"
  shows "staged bf16 pool p = map (\<lambda>i. map (\<lambda>n.
    map bf16 (token_values 0 (qp_flat pool ! p ! (2 * i)) n) @ map bf16 (token_values 1 (qp_flat pool ! p ! (2 * i + 1)) n)) [0..<128]) [0..<heads]"
proof -
  let ?page = "qp_flat pool ! p"
  have l: "length ?page = 2 * heads" using assms by (simp add: pool_ok_def)
  have e: "every_other 0 (page_values ?page) = map (\<lambda>i. map (token_values 0 (?page ! (2 * i))) [0..<128]) [0..<heads]"
    "every_other 1 (page_values ?page) = map (\<lambda>i. map (token_values 1 (?page ! (2 * i + 1))) [0..<128]) [0..<heads]"
    using l unfolding page_values_def by (simp_all add: every_other_map geometry_defs mod_Suc)
  have z: "map2 f (map g [0..<k]) (map h [0..<k]) = map (\<lambda>i. f (g i) (h i)) [0..<k]" for f k and g h :: "nat \<Rightarrow> 'x"
    by (rule nth_equalityI) simp_all
  show ?thesis
    unfolding staged_def stage_page_def split_page_kv_def Let_def prod.case e join_halves_def map_map comp_def z ..
qed

lemma staged_shape:
  assumes "pool_ok pool" "p < length (qp_flat pool)" "qp_slots pool = 2 * heads"
  shows "page_shape heads (staged bf16 pool p)"
proof -
  have "length (token_values side (qp_flat pool ! p ! s) n) = 128" if "s < 2 * heads" "n < 128" for side s n
    using pool_region(2) [OF assms(1,2)] that assms(3) by (simp add: token_values_length region_ok_def)
  then show ?thesis unfolding staged_map [OF assms] by (auto simp: page_shape_def)
qed

text \<open>The memory the kernel is to produce: the staged pages of the slice, one after the other.\<close>

definition staged_memory :: "(number \<Rightarrow> number) \<Rightarrow> q4_pool \<Rightarrow> nat list \<Rightarrow> number list" where
  "staged_memory bf16 pool pages = concat (map (\<lambda>p. flat_page (staged bf16 pool p)) pages)"

definition launch_ok :: "q4_pool \<Rightarrow> nat list \<Rightarrow> nat \<Rightarrow> bool" where
  "launch_ok pool pages heads \<longleftrightarrow> pool_ok pool \<and> qp_slots pool = 2 * heads \<and> (\<forall>p \<in> set pages. p < length (qp_flat pool))"

lemma staged_pages_shape:
  assumes "launch_ok pool pages heads"
  shows "\<forall>x \<in> set (map (\<lambda>p. flat_page (staged bf16 pool p)) pages). length x = heads * (128 * 256)"
proof -
  have "length (flat_page (staged bf16 pool p)) = heads * (128 * 256)" if "p \<in> set pages" for p
    by (rule flat_page_length [OF staged_shape]) (use assms that in \<open>auto simp: launch_ok_def\<close>)
  then show ?thesis by simp
qed

lemma staged_memory_at:
  assumes "launch_ok pool pages heads" "pid < length pages" "head < heads" "n < 128" "side < 2" "d < 128"
  shows "staged_memory bf16 pool pages ! (pid * (heads * (128 * 256)) + (head * (128 * 256) + n * 256 + (side * 128 + d))) =
    bf16 (token_values (int side) (qp_flat pool ! (pages ! pid) ! (2 * head + side)) n ! d)"
proof -
  let ?p = "pages ! pid"
  have l: "pool_ok pool" "?p < length (qp_flat pool)" "qp_slots pool = 2 * heads" using assms(1,2) by (auto simp: launch_ok_def)
  have c: "side * 128 + d < 256" using assms(5,6) by (auto simp: less_2_cases_iff)
  have "head * (128 * 256) + n * 256 + (side * 128 + d) < heads * (128 * 256)"
  proof -
    have "Suc head * (128 * 256) \<le> heads * (128 * 256)" using assms(3) by (intro mult_le_mono1) simp
    then show ?thesis using assms(4) c by simp
  qed
  from concat_nth [OF staged_pages_shape [OF assms(1)] _ this]
  have "staged_memory bf16 pool pages ! (pid * (heads * (128 * 256)) + (head * (128 * 256) + n * 256 + (side * 128 + d))) =
      flat_page (staged bf16 pool ?p) ! (head * (128 * 256) + n * 256 + (side * 128 + d))"
    using assms(2) by (simp add: staged_memory_def)
  also have "\<dots> = staged bf16 pool ?p ! head ! n ! (side * 128 + d)"
    by (rule flat_page_at [OF staged_shape [OF l] assms(3,4) c])
  also have "\<dots> = bf16 (token_values (int side) (qp_flat pool ! ?p ! (2 * head + side)) n ! d)"
  proof -
    have "length (token_values sd (qp_flat pool ! ?p ! (2 * head + i)) n) = 128" if "i < 2" for sd i
      using pool_region(2) [OF l(1,2), of "2 * head + i"] that assms(3,4) l(3) by (simp add: token_values_length region_ok_def)
    from this [of 0] this [of 1] show ?thesis
      unfolding staged_map [OF l] using assms(3-6) by (auto simp: less_2_cases_iff nth_append)
  qed
  finally show ?thesis .
qed

text \<open>The stores of a program, one by one.\<close>

lemma kernel_stores_mem:
  assumes "launch_ok pool pages heads" "pid < length pages" "head < heads" "tb * block_t + block_t \<le> 128"
  shows "set (kernel_stores bf16 (concat (concat (qp_flat pool))) pages heads block_t (pid, head, tb)) =
    {(pid * (heads * (128 * 256)) + (head * (128 * 256) + n * 256 + (side * 128 + d)),
      bf16 (token_values (int side) (qp_flat pool ! (pages ! pid) ! (2 * head + side)) n ! d)) | n side d.
      tb * block_t \<le> n \<and> n < tb * block_t + block_t \<and> side < 2 \<and> d < 128}"
proof -
  let ?p = "pages ! pid" and ?mem = "concat (concat (qp_flat pool))"
  have l: "pool_ok pool" "?p < length (qp_flat pool)" "qp_slots pool = 2 * heads" using assms(1,2) by (auto simp: launch_ok_def)
  have row: "kernel_row ?mem (?p * (2 * heads) * 9216 + (2 * head + side) * 9216) side n = token_values (int side) (qp_flat pool ! ?p ! (2 * head + side)) n \<and>
      length (token_values (int side) (qp_flat pool ! ?p ! (2 * head + side)) n) = 128"
    if "side < 2" "n < tb * block_t + block_t" for side n
  proof -
    have s: "2 * head + side < qp_slots pool" "n < 128" using that assms(3,4) l(3) by auto
    have b: "?p * (2 * heads) * 9216 + (2 * head + side) * 9216 = (?p * qp_slots pool + (2 * head + side)) * 9216"
      unfolding l(3) by (simp only: add_mult_distrib)
    note reg = pool_region [OF l(1,2) s(1)]
    show ?thesis
      unfolding b using kernel_row_token [OF reg(1) _ s(2) that(1)] reg(2) token_values_length s(2) by (simp add: region_ok_def)
  qed
  have z: "set (zip (map f [0..<128]) (map g xs)) = {(f d, g (xs ! d)) | d. d < 128}" if "length xs = 128"
    for f :: "nat \<Rightarrow> nat" and g :: "number \<Rightarrow> number" and xs
    using that by (force simp: set_zip)
  have u: "(\<Union>side \<in> {0..<2}. \<Union>n \<in> {x..<y}. {(f n side d, g n side d) | d. d < 128}) =
      {(f n side d, g n side d) | n side d. x \<le> n \<and> n < y \<and> side < 2 \<and> d < 128}"
    for x y and f :: "nat \<Rightarrow> nat \<Rightarrow> nat \<Rightarrow> nat" and g :: "nat \<Rightarrow> nat \<Rightarrow> nat \<Rightarrow> number"
    using le0 unfolding set_eq_iff UN_iff Bex_def mem_Collect_eq atLeastLessThan_iff by blast
  have "set (kernel_stores bf16 ?mem pages heads block_t (pid, head, tb)) =
      (\<Union>side \<in> {0..<2}. \<Union>n \<in> {tb * block_t..<tb * block_t + block_t}.
        set (zip (map (\<lambda>d. pid * (heads * 128 * 256) + head * (128 * 256) + n * 256 + side * 128 + d) [0..<128])
            (map bf16 (kernel_row ?mem (?p * (2 * heads) * 9216 + (2 * head + side) * 9216) side n))))"
    by (simp only: kernel_stores_def Let_def prod.case set_concat set_map set_upt image_image)
  also have "\<dots> = (\<Union>side \<in> {0..<2}. \<Union>n \<in> {tb * block_t..<tb * block_t + block_t}.
        {(pid * (heads * (128 * 256)) + (head * (128 * 256) + n * 256 + (side * 128 + d)),
          bf16 (token_values (int side) (qp_flat pool ! ?p ! (2 * head + side)) n ! d)) | d. d < 128})"
    by (intro SUP_cong refl, subst z) (use row in \<open>auto simp: add.assoc mult.assoc\<close>)
  finally show ?thesis unfolding u .
qed

lemma address_split:
  fixes a :: nat
  assumes "a < k * (heads * (128 * 256))"
  obtains pid head n side d where "pid < k" "head < heads" "n < 128" "side < 2" "d < 128"
    "a = pid * (heads * (128 * 256)) + (head * (128 * 256) + n * 256 + (side * 128 + d))"
proof -
  let ?b = "a mod (heads * (128 * 256))"
  have h: "0 < heads" using assms by (cases heads) auto
  have "a div (heads * (128 * 256)) < k" using assms by (simp add: div_less_iff_less_mult h)
  moreover have "?b div (128 * 256) < heads" using h by (simp add: div_less_iff_less_mult)
  moreover have "?b mod (128 * 256) div 256 < 128" "?b mod (128 * 256) mod 256 div 128 < 2" "?b mod (128 * 256) mod 256 mod 128 < 128"
    by (simp_all add: div_less_iff_less_mult)
  moreover have "a = a div (heads * (128 * 256)) * (heads * (128 * 256)) +
      (?b div (128 * 256) * (128 * 256) + ?b mod (128 * 256) div 256 * 256 +
        (?b mod (128 * 256) mod 256 div 128 * 128 + ?b mod (128 * 256) mod 256 mod 128))"
    by (simp only: div_mult_mod_eq add.assoc)
  ultimately show thesis using that by blast
qed

text \<open>Run over any order of the grid, the stores put the staged pages in front of the old memory.\<close>

lemma kernel_memory:
  assumes "launch_ok pool pages heads" "mset order = mset (stage_grid (length pages) heads 4)"
    and "length (staged_memory bf16 pool pages) \<le> length mem"
  shows "scatter mem (concat (map (kernel_stores bf16 (concat (concat (qp_flat pool))) pages heads 32) order)) =
    staged_memory bf16 pool pages @ drop (length (staged_memory bf16 pool pages)) mem" (is "scatter mem ?ps = ?T @ _")
proof (rule nth_equalityI)
  have grid: "set order = {0..<length pages} \<times> {0..<heads} \<times> {0..<4}"
    using mset_eq_setD [OF assms(2)] by (simp add: stage_grid_def)
  have T: "length ?T = length pages * (heads * (128 * 256))"
    unfolding staged_memory_def using concat_blocks_length [OF staged_pages_shape [OF assms(1), of bf16]] by simp
  have mem: "set ?ps = {(a, ?T ! a) | a. a < length ?T}"
  proof (intro equalityI subsetI)
    fix av assume "av \<in> set ?ps"
    then obtain pid head tb where g: "pid < length pages" "head < heads" "tb < 4"
      "av \<in> set (kernel_stores bf16 (concat (concat (qp_flat pool))) pages heads 32 (pid, head, tb))"
      using grid by auto
    have "tb * 32 + 32 \<le> 128" using g(3) by simp
    from g(4) obtain n side d where e: "n < 128" "side < 2" "d < 128"
      "av = (pid * (heads * (128 * 256)) + (head * (128 * 256) + n * 256 + (side * 128 + d)),
        bf16 (token_values (int side) (qp_flat pool ! (pages ! pid) ! (2 * head + side)) n ! d))"
      unfolding kernel_stores_mem [OF assms(1) g(1,2) \<open>tb * 32 + 32 \<le> 128\<close>] using \<open>tb * 32 + 32 \<le> 128\<close> by auto
    have "pid * (heads * (128 * 256)) + (head * (128 * 256) + n * 256 + (side * 128 + d)) < length pages * (heads * (128 * 256))"
    proof -
      have "side * 128 + d < 256" using e(2,3) by (auto simp: less_2_cases_iff)
      moreover have "Suc head * (128 * 256) \<le> heads * (128 * 256)" using g(2) by (intro mult_le_mono1) simp
      moreover have "Suc pid * (heads * (128 * 256)) \<le> length pages * (heads * (128 * 256))" using g(1) by (intro mult_le_mono1) simp
      ultimately show ?thesis using e(1) by simp
    qed
    then show "av \<in> {(a, ?T ! a) | a. a < length ?T}"
      unfolding e(4) staged_memory_at [OF assms(1) g(1,2) e(1-3), of bf16, symmetric] T by blast
  next
    fix av assume "av \<in> {(a, ?T ! a) | a. a < length ?T}"
    then obtain a where a: "av = (a, ?T ! a)" "a < length pages * (heads * (128 * 256))" unfolding T by blast
    obtain pid head n side d where s: "pid < length pages" "head < heads" "n < 128" "side < 2" "d < 128"
      "a = pid * (heads * (128 * 256)) + (head * (128 * 256) + n * 256 + (side * 128 + d))" by (rule address_split [OF a(2)])
    have tb: "n div 32 * 32 + 32 \<le> 128" "n div 32 * 32 \<le> n" "n < n div 32 * 32 + 32" "n div 32 < 4" using s(3) by simp_all
    have "av \<in> set (kernel_stores bf16 (concat (concat (qp_flat pool))) pages heads 32 (pid, head, n div 32))"
      unfolding kernel_stores_mem [OF assms(1) s(1,2) tb(1)] a(1) s(6) staged_memory_at [OF assms(1) s(1-5)] using tb(2,3) s(4,5) by blast
    then show "av \<in> set ?ps" using grid s(1,2) tb(4) by force
  qed
  show len: "length (scatter mem ?ps) = length (?T @ drop (length ?T) mem)" using assms(3) by simp
  fix i assume "i < length (scatter mem ?ps)"
  then have i: "i < length mem" by simp
  have "scatter mem ?ps ! i = (if i \<in> fst ` set ?ps then ?T ! i else mem ! i)"
    by (rule scatter_consistent [OF _ i]) (use mem in auto)
  moreover have "i \<in> fst ` set ?ps \<longleftrightarrow> i < length ?T" unfolding mem by force
  ultimately show "scatter mem ?ps ! i = (?T @ drop (length ?T) mem) ! i" using i by (simp add: nth_append)
qed

text \<open>The launch gives what the reference fill gives.\<close>

lemma kernel_fill:
  assumes "pool_ok pool" "qp_slots pool = 2 * heads" "qp_tokens pool = POOL_BLOCK_SIZE" "qp_width pool = ROW_BYTES"
    and "\<forall>p \<in> set pages. p < length (qp_flat pool)" "length pages < length buffer" "\<forall>page \<in> set buffer. page_shape heads page"
    and "\<And>ps. mset (order ps) = mset ps"
  shows "q4_stage_pages bf16 order buffer pool pages = fill_staging_buffer bf16 buffer pool pages"
proof -
  let ?n = "length pages" and ?st = "map (staged bf16 pool) pages"
  have L: "launch_ok pool pages heads" using assms(1,2,5) by (simp add: launch_ok_def)
  have slow: "fill_staging_buffer bf16 buffer pool pages = Inr (?n, ?st @ zero_page heads # drop (Suc ?n) buffer)"
    by (rule fill_value [OF assms(1-6)])
  show ?thesis
  proof (cases "pages = []")
    case True
    then show ?thesis using slow assms(2,6) by (cases buffer) (auto simp: q4_stage_pages_def Let_def)
  next
    case False
    let ?mem = "concat (map flat_page buffer)" and ?all = "?st @ drop ?n buffer"
    have sh: "\<forall>page \<in> set ?all. page_shape heads page"
      using staged_shape [OF assms(1) _ assms(2)] assms(5,7) by (auto dest: in_set_dropD)
    have fl: "length (flat_page page) = heads * (128 * 256)" "unflat_page heads (flat_page page) = page"
      if "page_shape heads page" for page using that by (rule flat_page_length, rule unflat_flat_page)
    have T: "length (staged_memory bf16 pool pages) = ?n * (heads * (128 * 256))"
      unfolding staged_memory_def using concat_blocks_length [OF staged_pages_shape [OF L, of bf16]] by simp
    have bl: "\<forall>x \<in> set (map flat_page buffer). length x = heads * (128 * 256)" using fl(1) assms(7) by simp
    have lm: "length ?mem = length buffer * (heads * (128 * 256))" using concat_blocks_length [OF bl] by simp
    have drop: "drop (?n * (heads * (128 * 256))) ?mem = concat (map flat_page (drop ?n buffer))"
    proof -
      have "?mem = concat (map flat_page (take ?n buffer)) @ concat (map flat_page (drop ?n buffer))"
        by (metis append_take_drop_id concat_append map_append)
      moreover have "length (concat (map flat_page (take ?n buffer))) = ?n * (heads * (128 * 256))"
        using concat_blocks_length [of "map flat_page (take ?n buffer)" "heads * (128 * 256)"] bl assms(6) by (auto dest: in_set_takeD)
      ultimately show ?thesis by simp
    qed
    have "scatter ?mem (concat (map (kernel_stores bf16 (concat (concat (qp_flat pool))) pages heads 32) (order (stage_grid ?n heads 4)))) =
        concat (map flat_page ?all)"
    proof -
      have "?n * (heads * (128 * 256)) \<le> length ?mem" unfolding lm using assms(6) by (intro mult_le_mono1) simp
      then show ?thesis
        using kernel_memory [OF L assms(8), of bf16 ?mem] drop unfolding T by (simp add: staged_memory_def comp_def)
    qed
    moreover have "map (unflat_page heads) (chunks_of (length buffer) (heads * 128 * 256) (concat (map flat_page ?all))) = ?all"
    proof -
      have "chunks_of (length (map flat_page ?all)) (heads * (128 * 256)) (concat (map flat_page ?all)) = map flat_page ?all"
        by (rule chunks_of_concat) (use fl(1) sh in auto)
      moreover have "length (map flat_page ?all) = length buffer" using assms(6) by simp
      ultimately show ?thesis using fl(2) sh by (simp add: mult.assoc map_idI)
    qed
    ultimately have "q4_stage_pages bf16 order buffer pool pages = Inr (?n, ?all[?n := zero_page heads])"
      using False assms(2,6) by (simp add: q4_stage_pages_def Let_def STAGE_BLOCK_T_def)
    moreover have "?all[?n := zero_page heads] = ?st @ zero_page heads # drop (Suc ?n) buffer"
      using assms(6) by (simp add: list_update_append Cons_nth_drop_Suc [symmetric])
    ultimately show ?thesis using slow by simp
  qed
qed



end
