(* ===== verification/Q4kv_Overlay.thy ===== *)
theory Q4kv_Overlay
  imports Py_Text
begin

text \<open>
  The overlay of the 4-bit KV cache (\<open>src/vllm_exl3/minimax_q4kv.py\<close>): the test for its pool, the
  unit-scale gate with its cache of verdicts, the guards of scalar arguments, and \<open>install\<close>, which patches
  the hooks into every module that binds them.  The store of scale tensors and the modules are explicit
  states.
\<close>

section \<open>Tensors as the overlay sees them\<close>

text \<open>
  A tensor object: its identity, device, address, number of elements, data type with its element size,
  shape and strides.  Its storage carries the version counter and the contents.
\<close>

record tref =
  to_id :: nat
  to_device :: string
  to_ptr :: nat
  to_storage :: nat
  to_numel :: nat
  to_dtype :: string
  to_esize :: nat
  to_shape :: "nat list"
  to_stride :: "nat list"

datatype qarg = Plain pyval | Tensor tref

definition Q4_ROW_BYTES :: nat where "Q4_ROW_BYTES = 72"
definition Q4_SLOT_REGION :: nat where "Q4_SLOT_REGION = 9216"
definition SPARSE_BLOCK_SIZE :: nat where "SPARSE_BLOCK_SIZE = 128"

definition is_q4_pool :: "qarg \<Rightarrow> bool" where
  "is_q4_pool t =
     (case t of
        Plain _ \<Rightarrow> False
      | Tensor r \<Rightarrow>
          length (to_shape r) = 4 \<and> to_shape r ! 2 = SPARSE_BLOCK_SIZE \<and> to_shape r ! 3 = Q4_ROW_BYTES \<and>
          to_shape r ! 1 mod 2 = 0 \<and> to_stride r ! 3 = 1 \<and> to_stride r ! 2 = Q4_ROW_BYTES \<and> to_stride r ! 1 = Q4_SLOT_REGION)"

definition q4_pool_bytes :: "tref \<Rightarrow> tref res" where
  "q4_pool_bytes pool =
     (if to_dtype pool = ''uint8'' then Inr pool
      else if to_esize pool \<noteq> 1 then Inl ValueError
      else Inr (pool\<lparr>to_dtype := ''uint8''\<rparr>))"

section \<open>The unit-scale gate\<close>

text \<open>
  The cache maps device, address and version to a weak reference, the identity of an object; \<open>gs_alive\<close> is
  the set of live objects, \<open>gs_syncs\<close> the host reads so far, each with whether a stream was capturing.
\<close>

type_synonym scale_key = "string \<times> nat \<times> nat"

record gate_state =
  gs_cache :: "scale_key \<Rightarrow> nat option"
  gs_syncs :: "(nat \<times> bool) list"

text \<open>\<open>store\<close> gives the version and the contents of a storage.\<close>

definition assert_unit_scale ::
  "(nat \<Rightarrow> bool) \<Rightarrow> (nat \<Rightarrow> nat \<times> pyfloat) \<Rightarrow> bool \<Rightarrow> qarg \<Rightarrow> gate_state \<Rightarrow> unit res \<times> gate_state"
where
  "assert_unit_scale alive store capturing scale st =
     (case scale of
        Plain PNone \<Rightarrow> (Inr (), st)
      | Plain (PBool b) \<Rightarrow> (if b then Inr () else Inl ValueError, st)
      | Plain (PInt i) \<Rightarrow> (if i = 1 then Inr () else Inl ValueError, st)
      | Plain (PFloat f) \<Rightarrow> (if f = Fin 1 then Inr () else Inl ValueError, st)
      | Plain _ \<Rightarrow> (Inl ValueError, st)
      | Tensor r \<Rightarrow>
          if to_numel r \<noteq> 1 then (Inl ValueError, st)
          else
            let key = (to_device r, to_ptr r, fst (store (to_storage r))); entry = gs_cache st key in
            if entry = Some (to_id r) then (Inr (), st)
            else
              let st = (case entry of
                  Some i \<Rightarrow> if \<not> alive i then st\<lparr>gs_cache := (gs_cache st)(key := None)\<rparr> else st
                | None \<Rightarrow> st) in
              if capturing then (Inl RuntimeError, st)
              else
                let st = st\<lparr>gs_syncs := gs_syncs st @ [(to_id r, capturing)]\<rparr> in
                if snd (store (to_storage r)) \<noteq> Fin 1 then (Inl ValueError, st)
                else (Inr (), st\<lparr>gs_cache := (gs_cache st)(key \<mapsto> to_id r)\<rparr>))"

text \<open>
  The world around the gate: live objects, the storages with version and contents, the identities used so
  far.  An in-place write bumps the version of its storage, which all views share.
\<close>

record scale_world =
  sw_objs :: "nat \<Rightarrow> tref option"
  sw_store :: "nat \<Rightarrow> nat \<times> pyfloat"
  sw_used :: "nat set"
  sw_gate :: gate_state

datatype scale_event =
    New_object tref
  | Free_object nat
  | Write_storage nat pyfloat
  | Gate nat bool

definition world_alive :: "scale_world \<Rightarrow> nat \<Rightarrow> bool" where
  "world_alive w i \<longleftrightarrow> sw_objs w i \<noteq> None"

definition world_step :: "scale_world \<Rightarrow> scale_event \<Rightarrow> scale_world \<times> unit res" where
  "world_step w e =
     (case e of
        New_object r \<Rightarrow> (w\<lparr>sw_objs := (sw_objs w)(to_id r \<mapsto> r), sw_used := insert (to_id r) (sw_used w)\<rparr>, Inr ())
      | Free_object i \<Rightarrow> (w\<lparr>sw_objs := (sw_objs w)(i := None)\<rparr>, Inr ())
      | Write_storage s v \<Rightarrow> (w\<lparr>sw_store := (sw_store w)(s := (Suc (fst (sw_store w s)), v))\<rparr>, Inr ())
      | Gate i capturing \<Rightarrow>
          (case sw_objs w i of
             None \<Rightarrow> (w, Inr ())
           | Some r \<Rightarrow>
               let (out, g) = assert_unit_scale (world_alive w) (sw_store w) capturing (Tensor r) (sw_gate w) in
               (w\<lparr>sw_gate := g\<rparr>, out)))"

text \<open>A new object has an identity no object ever had; its storage may be old, new or a view's.\<close>

definition world_enabled :: "scale_world \<Rightarrow> scale_event \<Rightarrow> bool" where
  "world_enabled w e = (case e of New_object r \<Rightarrow> to_id r \<notin> sw_used w | _ \<Rightarrow> True)"

definition world_start :: scale_world where
  "world_start = \<lparr>sw_objs = (\<lambda>_. None), sw_store = (\<lambda>_. (0, Fin 0)), sw_used = {}, sw_gate = \<lparr>gs_cache = (\<lambda>_. None), gs_syncs = []\<rparr>\<rparr>"

section \<open>Scalar arguments\<close>

datatype pytype = T_int | T_float | T_bool

text \<open>\<open>bool\<close> is a subclass of \<open>int\<close>.\<close>

definition isinstance :: "pyval \<Rightarrow> pytype list \<Rightarrow> bool" where
  "isinstance v types =
     (case v of
        PBool _ \<Rightarrow> T_bool \<in> set types \<or> T_int \<in> set types
      | PInt _ \<Rightarrow> T_int \<in> set types
      | PFloat _ \<Rightarrow> T_float \<in> set types
      | _ \<Rightarrow> False)"

definition py_scalar :: "qarg \<Rightarrow> pytype list \<Rightarrow> pyval res" where
  "py_scalar value types =
     (case value of Plain v \<Rightarrow> (if isinstance v types then Inr v else Inl TypeError) | Tensor _ \<Rightarrow> Inl TypeError)"

section \<open>Routing and settings\<close>

record platform =
  pf_rocm :: bool
  pf_cuda :: bool
  pf_sm100 :: bool

definition route_q4 :: "bool \<Rightarrow> platform \<Rightarrow> bool res" where
  "route_q4 is_nvfp4 pf =
     (if \<not> is_nvfp4 then Inr False
      else if pf_rocm pf then Inr False
      else if \<not> pf_cuda pf then Inl ValueError
      else if pf_sm100 pf then Inr False
      else Inr True)"

definition prefill_fast_enabled :: "string option \<Rightarrow> bool res" where
  "prefill_fast_enabled raw =
     (case raw of
        None \<Rightarrow> Inr True
      | Some r \<Rightarrow>
          let val = lower (strip r) in
          if val \<in> set [''1'', ''true'', ''on'', ''yes'', ''''] then Inr True
          else if val \<in> set [''0'', ''false'', ''off'', ''no''] then Inr False
          else Inl ValueError)"

section \<open>Installation\<close>

text \<open>A callable bound in a module: an upstream function, or the overlay's wrapper around one.\<close>

datatype hook = Selector | W1 | Decode | Prefill

datatype callable = Upstream nat | Wrapper hook callable

type_synonym modules = "string \<Rightarrow> (string \<Rightarrow> callable option) option"

type_synonym site = "string \<times> string \<times> hook"

definition REQUIRED_BINDING_SITES :: "site list" where
  "REQUIRED_BINDING_SITES =
    [(''vllm._custom_ops'', ''fused_minimax_m3_qknorm_rope_kv_insert'', W1),
     (''vllm.models.minimax_m3.common.ops.sparse_attn'', ''minimax_m3_sparse_attn'', Prefill),
     (''vllm.models.minimax_m3.common.ops.sparse_attn'', ''minimax_m3_sparse_attn_decode'', Decode),
     (''vllm.models.minimax_m3.common.ops'', ''minimax_m3_sparse_attn'', Prefill),
     (''vllm.models.minimax_m3.common.ops'', ''minimax_m3_sparse_attn_decode'', Decode),
     (''vllm.models.minimax_m3.common.sparse_attention'', ''select_main_backend_and_impl_cls'', Selector),
     (''vllm.models.minimax_m3.common.sparse_attention'', ''minimax_m3_sparse_attn'', Prefill),
     (''vllm.models.minimax_m3.common.sparse_attention'', ''minimax_m3_sparse_attn_decode'', Decode),
     (''vllm.models.minimax_m3.nvidia.model'', ''select_main_backend_and_impl_cls'', Selector)]"

definition OPTIONAL_BINDING_SITES :: "site list" where
  "OPTIONAL_BINDING_SITES =
    [(''vllm.models.minimax_m3.nvidia.sparse_attention_msa'', ''minimax_m3_sparse_attn_decode'', Decode),
     (''vllm.models.minimax_m3.amd.model'', ''select_main_backend_and_impl_cls'', Selector),
     (''vllm.models.minimax_m3.amd.ops.sparse_attn'', ''minimax_m3_sparse_attn'', Prefill),
     (''vllm.models.minimax_m3.amd.ops.sparse_attn'', ''minimax_m3_sparse_attn_decode'', Decode)]"

definition HOOK_DEFINING_SITES :: "(hook \<times> string \<times> string) list" where
  "HOOK_DEFINING_SITES =
    [(Selector, ''vllm.models.minimax_m3.common.sparse_attention'', ''select_main_backend_and_impl_cls''),
     (W1, ''vllm._custom_ops'', ''fused_minimax_m3_qknorm_rope_kv_insert''),
     (Decode, ''vllm.models.minimax_m3.common.ops.sparse_attn'', ''minimax_m3_sparse_attn_decode''),
     (Prefill, ''vllm.models.minimax_m3.common.ops.sparse_attn'', ''minimax_m3_sparse_attn'')]"

fun is_q4kv_wrapper :: "callable option \<Rightarrow> bool" where
  "is_q4kv_wrapper (Some (Wrapper h f)) = True"
| "is_q4kv_wrapper _ = False"

definition getattr :: "modules \<Rightarrow> string \<Rightarrow> string \<Rightarrow> callable option" where
  "getattr mods path name = (case mods path of None \<Rightarrow> None | Some attrs \<Rightarrow> attrs name)"

definition setattr :: "modules \<Rightarrow> string \<Rightarrow> string \<Rightarrow> callable \<Rightarrow> modules" where
  "setattr mods path name f = (case mods path of None \<Rightarrow> mods | Some attrs \<Rightarrow> mods(path \<mapsto> attrs(name \<mapsto> f)))"

text \<open>The import of every binding module: the paths loaded and those that are not available.\<close>

fun import_sites :: "modules \<Rightarrow> site list \<Rightarrow> site list \<Rightarrow> string list \<times> string list \<Rightarrow> (string list \<times> string list) res" where
  "import_sites mods required [] acc = Inr acc"
| "import_sites mods required ((path, name, hook) # sites) (loaded, unavailable) =
     (if path \<in> set loaded \<or> path \<in> set unavailable then import_sites mods required sites (loaded, unavailable)
      else case mods path of
          Some _ \<Rightarrow> import_sites mods required sites (loaded @ [path], unavailable)
        | None \<Rightarrow>
            if (path, name, hook) \<in> set required then Inl RuntimeError
            else import_sites mods required sites (loaded, unavailable @ [path]))"

fun make_wrappers :: "modules \<Rightarrow> string list \<Rightarrow> (hook \<times> string \<times> string) list \<Rightarrow> (hook \<Rightarrow> callable option) \<Rightarrow> (hook \<Rightarrow> callable option) res" where
  "make_wrappers mods loaded [] ws = Inr ws"
| "make_wrappers mods loaded ((hook, path, name) # sites) ws =
     (if path \<notin> set loaded then Inl KeyError
      else case getattr mods path name of
          None \<Rightarrow> Inl RuntimeError
        | Some original \<Rightarrow>
            make_wrappers mods loaded sites
              (ws(hook \<mapsto> (if is_q4kv_wrapper (Some original) then original else Wrapper hook original))))"

text \<open>The patching loop changes the modules one site after the other and stops at a missing binding.\<close>

fun patch_sites :: "(hook \<Rightarrow> callable option) \<Rightarrow> string list \<Rightarrow> site list \<Rightarrow> modules \<Rightarrow> modules \<times> unit res" where
  "patch_sites ws unavailable [] mods = (mods, Inr ())"
| "patch_sites ws unavailable ((path, name, hook) # sites) mods =
     (if path \<in> set unavailable then patch_sites ws unavailable sites mods
      else case getattr mods path name of
          None \<Rightarrow> (mods, Inl RuntimeError)
        | Some _ \<Rightarrow>
            (case ws hook of
               None \<Rightarrow> (mods, Inl KeyError)
             | Some f \<Rightarrow> patch_sites ws unavailable sites (setattr mods path name f)))"

definition self_check :: "string list \<Rightarrow> site list \<Rightarrow> modules \<Rightarrow> bool" where
  "self_check unavailable sites mods \<longleftrightarrow>
     list_all (\<lambda>(path, name, hook). path \<in> set unavailable \<or> is_q4kv_wrapper (getattr mods path name)) sites"

definition install_sites ::
  "site list \<Rightarrow> site list \<Rightarrow> (hook \<times> string \<times> string) list \<Rightarrow> modules \<Rightarrow> modules \<times> unit res"
where
  "install_sites required optional defining mods =
     (case import_sites mods required (required @ optional) ([], []) of
        Inl e \<Rightarrow> (mods, Inl e)
      | Inr (loaded, unavailable) \<Rightarrow>
          (case make_wrappers mods loaded defining (\<lambda>_. None) of
             Inl e \<Rightarrow> (mods, Inl e)
           | Inr ws \<Rightarrow>
               (case patch_sites ws unavailable (required @ optional) mods of
                  (mods', Inl e) \<Rightarrow> (mods', Inl e)
                | (mods', Inr _) \<Rightarrow>
                    if self_check unavailable (required @ optional) mods' then (mods', Inr ()) else (mods', Inl RuntimeError))))"

definition install :: "modules \<Rightarrow> modules \<times> unit res" where
  "install mods = install_sites REQUIRED_BINDING_SITES OPTIONAL_BINDING_SITES HOOK_DEFINING_SITES mods"

section \<open>The gate only approves unit scales\<close>

text \<open>
  Live objects have the identity they are known by; a verdict in the cache belongs to an identity that was
  used, and if that object is alive, to its device and address, and its contents were 1 at that version.
\<close>

definition scale_inv :: "scale_world \<Rightarrow> bool" where
  "scale_inv w \<longleftrightarrow>
     (\<forall>i r. sw_objs w i = Some r \<longrightarrow> to_id r = i \<and> i \<in> sw_used w) \<and>
     (\<forall>dev ptr v i. gs_cache (sw_gate w) (dev, ptr, v) = Some i \<longrightarrow> i \<in> sw_used w \<and>
        (\<forall>r. sw_objs w i = Some r \<longrightarrow> to_device r = dev \<and> to_ptr r = ptr \<and> to_numel r = 1 \<and> v \<le> fst (sw_store w (to_storage r)) \<and>
           (v = fst (sw_store w (to_storage r)) \<longrightarrow> snd (sw_store w (to_storage r)) = Fin 1)))"

lemma scale_inv_objs: "scale_inv w \<Longrightarrow> sw_objs w i = Some r \<Longrightarrow> to_id r = i \<and> i \<in> sw_used w"
  unfolding scale_inv_def by blast

lemma scale_inv_cache:
  assumes "scale_inv w" "gs_cache (sw_gate w) (dev, ptr, v) = Some i"
  shows "i \<in> sw_used w"
    "sw_objs w i = Some r \<Longrightarrow> to_device r = dev \<and> to_ptr r = ptr \<and> to_numel r = 1 \<and> v \<le> fst (sw_store w (to_storage r)) \<and>
       (v = fst (sw_store w (to_storage r)) \<longrightarrow> snd (sw_store w (to_storage r)) = Fin 1)"
  using assms unfolding scale_inv_def by blast+

text \<open>What a gate call does to a tensor, case by case.\<close>

lemma gate_cases:
  assumes "assert_unit_scale alive store capturing (Tensor r) g = (out, g')" "key = (to_device r, to_ptr r, fst (store (to_storage r)))"
  obtains "to_numel r \<noteq> 1" "g' = g" "out \<noteq> Inr ()"
  | "to_numel r = 1" "gs_cache g key = Some (to_id r)" "g' = g" "out = Inr ()"
  | "to_numel r = 1" "out \<noteq> Inr ()" "gs_cache g' = gs_cache g \<or> gs_cache g' = (gs_cache g)(key := None)" "capturing \<longrightarrow> gs_syncs g' = gs_syncs g"
  | "to_numel r = 1" "\<not> capturing" "out = Inr ()" "snd (store (to_storage r)) = Fin 1"
    "gs_cache g' = (gs_cache g)(key \<mapsto> to_id r)"
  using assms unfolding assert_unit_scale_def
  by (auto simp: Let_def split: if_splits option.splits)

lemma scale_inv_gate:
  assumes inv: "scale_inv w" and r: "sw_objs w i = Some r"
    and g: "assert_unit_scale (world_alive w) (sw_store w) capturing (Tensor r) (sw_gate w) = (out, g')"
  shows "scale_inv (w\<lparr>sw_gate := g'\<rparr>)"
    and "out = Inr () \<Longrightarrow> to_numel r = 1 \<and> snd (sw_store w (to_storage r)) = Fin 1"
    and "capturing \<Longrightarrow> gs_syncs g' = gs_syncs (sw_gate w)"
proof -
  let ?key = "(to_device r, to_ptr r, fst (sw_store w (to_storage r)))"
  note cases = gate_cases [OF g refl]
  have sub: "scale_inv (w\<lparr>sw_gate := g'\<rparr>)" if "gs_cache g' = gs_cache (sw_gate w) \<or> gs_cache g' = (gs_cache (sw_gate w))(?key := None)" for g'
  proof -
    have "gs_cache (sw_gate w) k = Some j" if "gs_cache g' k = Some j" for k j
      using that \<open>gs_cache g' = _ \<or> _\<close> by (auto split: if_splits)
    then show ?thesis using inv unfolding scale_inv_def by simp blast
  qed
  show "scale_inv (w\<lparr>sw_gate := g'\<rparr>)"
  proof (cases rule: cases)
    case 4
    have id: "to_id r = i" "i \<in> sw_used w" using scale_inv_objs [OF inv r] by simp_all
    have "j \<in> sw_used w \<and> (\<forall>r'. sw_objs w j = Some r' \<longrightarrow> to_device r' = dev \<and> to_ptr r' = ptr \<and> to_numel r' = 1 \<and>
        v \<le> fst (sw_store w (to_storage r')) \<and> (v = fst (sw_store w (to_storage r')) \<longrightarrow> snd (sw_store w (to_storage r')) = Fin 1))"
      if "gs_cache g' (dev, ptr, v) = Some j" for dev ptr v j
    proof (cases "(dev, ptr, v) = ?key")
      case True
      then show ?thesis using that 4(1,4,5) id r by auto
    next
      case False
      then have "gs_cache (sw_gate w) (dev, ptr, v) = Some j" using that 4(5) by (simp split: if_splits)
      then show ?thesis using scale_inv_cache [OF inv] by blast
    qed
    then show ?thesis using inv unfolding scale_inv_def by simp
  qed (use sub inv in auto)
  show "to_numel r = 1 \<and> snd (sw_store w (to_storage r)) = Fin 1" if "out = Inr ()"
  proof (cases rule: cases)
    case 2
    then show ?thesis using scale_inv_cache(2) [OF inv, of _ _ _ "to_id r" r] scale_inv_objs [OF inv r] r by blast
  qed (use that in auto)
  show "gs_syncs g' = gs_syncs (sw_gate w)" if "capturing"
    by (cases rule: cases) (use that in auto)
qed

lemma scale_inv_step:
  assumes "scale_inv w" "world_enabled w e"
  shows "scale_inv (fst (world_step w e))"
proof (cases e)
  case (New_object r)
  have "to_id r \<notin> sw_used w" using assms(2) by (simp add: world_enabled_def New_object)
  then have "j \<noteq> to_id r" if "gs_cache (sw_gate w) (dev, ptr, v) = Some j" for dev ptr v j
    using scale_inv_cache(1) [OF assms(1) that] by blast
  then show ?thesis using assms(1) unfolding scale_inv_def New_object world_step_def by simp
next
  case (Free_object i)
  then show ?thesis using assms(1) unfolding scale_inv_def world_step_def by simp
next
  case (Write_storage s v)
  have "v' \<le> fst (sw_store (fst (world_step w e)) t) \<and> (v' = fst (sw_store (fst (world_step w e)) t) \<longrightarrow> snd (sw_store (fst (world_step w e)) t) = Fin 1)"
    if "v' \<le> fst (sw_store w t) \<and> (v' = fst (sw_store w t) \<longrightarrow> snd (sw_store w t) = Fin 1)" for v' t
    using that by (auto simp: Write_storage world_step_def)
  moreover have "sw_objs (fst (world_step w e)) = sw_objs w" "sw_used (fst (world_step w e)) = sw_used w" "sw_gate (fst (world_step w e)) = sw_gate w"
    by (simp_all add: Write_storage world_step_def)
  ultimately show ?thesis using assms(1) unfolding scale_inv_def by (simp only:) blast
next
  case (Gate i capturing)
  then show ?thesis
    using assms(1) scale_inv_gate(1) [OF assms(1)] by (auto simp: world_step_def Let_def split: option.split prod.split)
qed

interpretation scale_gate: component world_step scale_inv world_enabled
  by unfold_locales (rule scale_inv_step)

text \<open>C33: in every run of object creations, frees, writes and gate calls, a tensor the unit-scale gate lets
through has one element whose value is 1 at that moment, although the gate may have read nothing; and a
gate call during a graph capture never reads a tensor from the host.\<close>

theorem approved_scale_is_unit:
  assumes "runs_ok world_step world_enabled world_start es" "w = run_ops world_step world_start es" "sw_objs w i = Some r"
  shows "(snd (world_step w (Gate i capturing)) = Inr () \<longrightarrow> to_numel r = 1 \<and> snd (sw_store w (to_storage r)) = Fin 1) \<and>
    gs_syncs (sw_gate (fst (world_step w (Gate i True)))) = gs_syncs (sw_gate w)"
proof -
  have "scale_inv world_start" by (simp add: scale_inv_def world_start_def)
  then have inv: "scale_inv w" unfolding assms(2) using assms(1) by (rule scale_gate.run_inv)
  show ?thesis
    using scale_inv_gate(2,3) [OF inv assms(3)] assms(3)
    by (auto simp: world_step_def Let_def split: prod.split)
qed

text \<open>A unit scale that two tensor objects share.\<close>

definition shared_scale :: "nat \<Rightarrow> tref" where
  "shared_scale i = \<lparr>to_id = i, to_device = ''cuda:0'', to_ptr = 64, to_storage = 5, to_numel = 1, to_dtype = ''float32'', to_esize = 4,
     to_shape = [], to_stride = []\<rparr>"

definition shared_events :: "scale_event list" where
  "shared_events = [Write_storage 5 (Fin 1), New_object (shared_scale 1), New_object (shared_scale 2), Gate 1 False]"

lemma approved_scale_is_unit_witness:
  "snd (world_step (run_ops world_step world_start shared_events) (Gate 1 True)) = Inr () \<and>
     snd (sw_store (run_ops world_step world_start shared_events) 5) = Fin 1"
proof -
  have r: "runs_ok world_step world_enabled world_start shared_events"
    by (simp add: shared_events_def world_enabled_def world_step_def world_start_def shared_scale_def assert_unit_scale_def Let_def)
  have o1: "sw_objs (run_ops world_step world_start shared_events) 1 = Some (shared_scale 1)"
    "snd (world_step (run_ops world_step world_start shared_events) (Gate 1 True)) = Inr ()"
    by (simp_all add: shared_events_def world_step_def world_start_def shared_scale_def assert_unit_scale_def Let_def)
  show ?thesis using approved_scale_is_unit [OF r refl o1(1), of True] o1(2) by (simp add: shared_scale_def)
qed

text \<open>
  The verdict is kept per storage position: when a second object of the same storage is validated, the first
  one, validated before and unchanged, is refused inside a capture.
\<close>

lemma alias_evicts_verdict:
  "snd (world_step (run_ops world_step world_start shared_events) (Gate 1 True)) = Inr ()"
  "snd (world_step (run_ops world_step world_start (shared_events @ [Gate 2 False])) (Gate 1 True)) = Inl RuntimeError"
  by (simp_all add: shared_events_def world_step_def world_start_def shared_scale_def assert_unit_scale_def Let_def world_alive_def)

section \<open>Every binding is patched\<close>

lemma getattr_setattr:
  "mods path \<noteq> None \<Longrightarrow> getattr (setattr mods path name f) p n = (if p = path \<and> n = name then Some f else getattr mods p n)"
  by (auto simp: getattr_def setattr_def split: option.split)

lemma setattr_paths [simp]: "(setattr mods path name f) p = None \<longleftrightarrow> mods p = None"
  by (auto simp: setattr_def split: option.split)

lemma setattr_same: "getattr mods path name = Some f \<Longrightarrow> setattr mods path name f = mods"
  by (auto simp: getattr_def setattr_def fun_upd_idem split: option.splits)

lemma getattr_path: "getattr mods path name = Some f \<Longrightarrow> mods path \<noteq> None"
  by (auto simp: getattr_def split: option.splits)

lemma import_sites_paths:
  assumes "import_sites mods required sites acc = Inr (loaded, unavailable)"
    "\<forall>p \<in> set (fst acc). mods p \<noteq> None" "\<forall>p \<in> set (snd acc). mods p = None"
  shows "(\<forall>p \<in> set loaded. mods p \<noteq> None) \<and> (\<forall>p \<in> set unavailable. mods p = None) \<and>
    set (fst acc) \<subseteq> set loaded \<and> set (snd acc) \<subseteq> set unavailable \<and>
    (\<forall>(p, n, h) \<in> set sites. p \<in> set loaded \<or> p \<in> set unavailable)"
  using assms
proof (induction mods required sites acc rule: import_sites.induct)
  case (2 mods required path name hook sites ld un)
  show ?case
  proof (cases "path \<in> set ld \<or> path \<in> set un")
    case True
    then show ?thesis using 2(1) [OF True] 2(4-6) by auto
  next
    case False
    show ?thesis
    proof (cases "mods path")
      case None
      then show ?thesis using 2(2) [OF False None] 2(4-6) False by (auto split: if_splits)
    next
      case (Some a)
      have run: "import_sites mods required sites (ld @ [path], un) = Inr (loaded, unavailable)" using 2(4) False Some by simp
      have acc: "\<forall>p \<in> set (fst (ld @ [path], un)). mods p \<noteq> None" "\<forall>p \<in> set (snd (ld @ [path], un)). mods p = None"
        using 2(5,6) Some by simp_all
      show ?thesis using 2(3) [OF False Some run acc] by simp
    qed
  qed
qed auto

text \<open>The loop depends on the modules only through which paths exist.\<close>

lemma import_sites_cong:
  "\<forall>p. (mods' p = None) = (mods p = None) \<Longrightarrow> import_sites mods' required sites acc = import_sites mods required sites acc"
proof (induction mods required sites acc rule: import_sites.induct)
  case (2 mods required path name hook sites ld un)
  show ?case
  proof (cases "path \<in> set ld \<or> path \<in> set un")
    case True
    then show ?thesis using 2(1) [OF True 2(4)] by simp
  next
    case False
    show ?thesis
    proof (cases "mods path")
      case None
      then have "mods' path = None" using 2(4) by simp
      then show ?thesis using None False 2(2) [OF False None _ 2(4)] by auto
    next
      case (Some a)
      then obtain b where "mods' path = Some b" using 2(4) by (metis option.exhaust option.distinct(1))
      then show ?thesis using Some False 2(3) [OF False Some 2(4)] by simp
    qed
  qed
qed simp

lemma make_wrappers_spec:
  assumes "make_wrappers mods loaded defining ws = Inr ws'" "distinct (map fst defining)"
  shows "(\<forall>(h, p, n) \<in> set defining. p \<in> set loaded \<and> (\<exists>f. getattr mods p n = Some f \<and>
      ws' h = Some (if is_q4kv_wrapper (Some f) then f else Wrapper h f))) \<and>
    (\<forall>h. h \<notin> fst ` set defining \<longrightarrow> ws' h = ws h)"
  using assms
proof (induction mods loaded defining ws rule: make_wrappers.induct)
  case (2 mods loaded hook path name sites ws)
  obtain f where f: "path \<in> set loaded" "getattr mods path name = Some f"
    using 2(2) by (auto split: if_splits option.splits)
  let ?w = "if is_q4kv_wrapper (Some f) then f else Wrapper hook f"
  have "make_wrappers mods loaded sites (ws(hook \<mapsto> ?w)) = Inr ws'" using 2(2) f by simp
  from 2(1) [OF _ f(2) this] f 2(3) show ?case by fastforce
qed simp

text \<open>Sites that share a binding agree on its hook.\<close>

definition sites_agree :: "site list \<Rightarrow> bool" where
  "sites_agree sites \<longleftrightarrow> (\<forall>(p, n, h) \<in> set sites. \<forall>(p', n', h') \<in> set sites. p = p' \<and> n = n' \<longrightarrow> h = h')"

lemma patch_sites_spec:
  assumes "patch_sites ws unavailable sites mods = (mods', Inr ())" "sites_agree sites" "\<forall>p \<in> set unavailable. mods p = None"
  shows "(\<forall>(p, n, h) \<in> set sites. p \<notin> set unavailable \<longrightarrow> getattr mods' p n = ws h \<and> ws h \<noteq> None) \<and>
    (\<forall>p n. (\<forall>h. (p, n, h) \<notin> set sites) \<longrightarrow> getattr mods' p n = getattr mods p n) \<and>
    (\<forall>p. (mods' p = None) = (mods p = None))"
  using assms
proof (induction ws unavailable sites mods rule: patch_sites.induct)
  case (2 ws unavailable path name hook sites mods)
  have ag: "sites_agree sites" using 2(4) unfolding sites_agree_def by auto
  show ?case
  proof (cases "path \<in> set unavailable")
    case True
    show ?thesis using 2(1) [OF True _ ag 2(5)] 2(3) True by auto
  next
    case False
    obtain g where g: "getattr mods path name = Some g" using 2(3) False by (auto split: option.splits)
    obtain f where f: "ws hook = Some f" using 2(3) False g by (auto split: option.splits)
    have run: "patch_sites ws unavailable sites (setattr mods path name f) = (mods', Inr ())" using 2(3) False g f by simp
    have un: "\<forall>p \<in> set unavailable. setattr mods path name f p = None" using 2(5) by simp
    note ih = 2(2) [OF False g f run ag un]
    have gs: "getattr (setattr mods path name f) p n = (if p = path \<and> n = name then Some f else getattr mods p n)" for p n
      by (rule getattr_setattr) (use g in \<open>auto dest: getattr_path\<close>)
    have here: "getattr mods' path name = ws hook"
    proof (cases "\<exists>h. (path, name, h) \<in> set sites")
      case True
      then obtain h where h: "(path, name, h) \<in> set sites" by blast
      then have "h = hook" using 2(4) unfolding sites_agree_def by fastforce
      then show ?thesis using ih h False by blast
    next
      case no: False
      then show ?thesis using ih gs f by simp
    qed
    show ?thesis
      using ih here f gs by auto
  qed
qed simp

lemma patch_sites_idem:
  assumes "\<forall>(p, n, h) \<in> set sites. p \<notin> set unavailable \<longrightarrow> getattr mods p n = ws h \<and> ws h \<noteq> None"
  shows "patch_sites ws unavailable sites mods = (mods, Inr ())"
  using assms
proof (induction ws unavailable sites mods rule: patch_sites.induct)
  case (2 ws unavailable path name hook sites mods)
  show ?case
  proof (cases "path \<in> set unavailable")
    case True
    then show ?thesis using 2(1) [OF True] 2(3) by simp
  next
    case False
    then obtain f where f: "ws hook = Some f" "getattr mods path name = Some f" using 2(3) by auto
    then show ?thesis using 2(2) [OF False f(2) f(1)] 2(3) False by (simp add: setattr_same)
  qed
qed simp

lemma install_sites_spec:
  assumes ok: "install_sites required optional defining mods = (mods', Inr ())"
    and ag: "sites_agree (required @ optional)" and di: "distinct (map fst defining)"
    and sub: "\<forall>(h, p, n) \<in> set defining. (p, n, h) \<in> set (required @ optional)"
  shows "\<exists>ws. (\<forall>(h, p, n) \<in> set defining. \<exists>f. getattr mods p n = Some f \<and> ws h = Some (if is_q4kv_wrapper (Some f) then f else Wrapper h f)) \<and>
      (\<forall>(p, n, h) \<in> set (required @ optional). mods p \<noteq> None \<longrightarrow> getattr mods' p n = ws h \<and> is_q4kv_wrapper (ws h)) \<and>
      (\<forall>p n. (\<forall>h. (p, n, h) \<notin> set (required @ optional)) \<longrightarrow> getattr mods' p n = getattr mods p n) \<and>
      install_sites required optional defining mods' = (mods', Inr ())"
proof -
  let ?sites = "required @ optional"
  obtain loaded unavailable where im: "import_sites mods required ?sites ([], []) = Inr (loaded, unavailable)"
    using ok by (auto simp: install_sites_def split: sum.splits prod.splits)
  obtain ws where mw: "make_wrappers mods loaded defining (\<lambda>_. None) = Inr ws"
    using ok im by (auto simp: install_sites_def split: sum.splits prod.splits)
  have pa: "patch_sites ws unavailable ?sites mods = (mods', Inr ())" and sc: "self_check unavailable ?sites mods'"
    using ok im mw by (auto simp: install_sites_def split: sum.splits prod.splits if_splits)
  have ip: "\<forall>p \<in> set loaded. mods p \<noteq> None" "\<forall>p \<in> set unavailable. mods p = None"
    using import_sites_paths [OF im] by simp_all
  note w = make_wrappers_spec [OF mw di]
  note ps = patch_sites_spec [OF pa ag ip(2)]
  have each: "getattr mods' p n = ws h \<and> is_q4kv_wrapper (ws h)" if "(p, n, h) \<in> set ?sites" "mods p \<noteq> None" for p n h
  proof -
    have "p \<notin> set unavailable" using ip(2) that(2) by auto
    then show ?thesis using ps sc that(1) unfolding self_check_def list_all_iff by fastforce
  qed
  have "make_wrappers mods' loaded defining (\<lambda>_. None) = Inr ws"
  proof -
    have d: "getattr mods' p n = ws h \<and> is_q4kv_wrapper (ws h) \<and> p \<in> set loaded" if "(h, p, n) \<in> set defining" for h p n
    proof -
      have "p \<in> set loaded" using w that by blast
      then show ?thesis using each [of p n h] sub that ip(1) by blast
    qed
    have "make_wrappers mods' loaded ds vs = Inr (\<lambda>h. if h \<in> fst ` set ds then ws h else vs h)"
      if "set ds \<subseteq> set defining" for ds vs
      using that
    proof (induction ds arbitrary: vs)
      case (Cons x ds)
      obtain h p n where x: "x = (h, p, n)" by (cases x)
      have "(h, p, n) \<in> set defining" using Cons.prems x by simp
      then obtain f where f: "getattr mods' p n = Some f" "ws h = Some f" "is_q4kv_wrapper (Some f)" "p \<in> set loaded"
        using d [of h p n] by (cases "ws h") auto
      show ?case using Cons f x by (auto simp: fun_eq_iff)
    qed simp
    from this [of defining "\<lambda>_. None"] show ?thesis using w by (auto simp: fun_eq_iff)
  qed
  moreover have "import_sites mods' required ?sites ([], []) = Inr (loaded, unavailable)"
    using import_sites_cong [of mods' mods] ps im by metis
  moreover have "patch_sites ws unavailable ?sites mods' = (mods', Inr ())"
    by (rule patch_sites_idem) (use ps in auto)
  ultimately have "install_sites required optional defining mods' = (mods', Inr ())"
    using sc by (simp add: install_sites_def)
  then show ?thesis using w each ps by (intro exI [of _ ws]) blast
qed

text \<open>C34: an installation that succeeds has put one wrapper per hook, built from the upstream function of the
defining module and never from another wrapper, at every binding of that hook in every module that can be
imported; it has changed no other binding; and installing again changes nothing.\<close>

theorem install_binds_every_hook:
  assumes "install mods = (mods', Inr ())"
  shows "\<exists>ws. (\<forall>(h, p, n) \<in> set HOOK_DEFINING_SITES.
        \<exists>f. getattr mods p n = Some f \<and> ws h = Some (if is_q4kv_wrapper (Some f) then f else Wrapper h f)) \<and>
      (\<forall>(p, n, h) \<in> set (REQUIRED_BINDING_SITES @ OPTIONAL_BINDING_SITES).
        mods p \<noteq> None \<longrightarrow> getattr mods' p n = ws h \<and> is_q4kv_wrapper (ws h)) \<and>
      (\<forall>p n. (\<forall>h. (p, n, h) \<notin> set (REQUIRED_BINDING_SITES @ OPTIONAL_BINDING_SITES)) \<longrightarrow> getattr mods' p n = getattr mods p n) \<and>
      install mods' = (mods', Inr ())"
  using assms unfolding install_def
proof (rule install_sites_spec)
  show "sites_agree (REQUIRED_BINDING_SITES @ OPTIONAL_BINDING_SITES)"
    by (simp add: sites_agree_def REQUIRED_BINDING_SITES_def OPTIONAL_BINDING_SITES_def)
  show "distinct (map fst HOOK_DEFINING_SITES)" by (simp add: HOOK_DEFINING_SITES_def)
  show "\<forall>(h, p, n) \<in> set HOOK_DEFINING_SITES. (p, n, h) \<in> set (REQUIRED_BINDING_SITES @ OPTIONAL_BINDING_SITES)"
    by (simp add: HOOK_DEFINING_SITES_def REQUIRED_BINDING_SITES_def OPTIONAL_BINDING_SITES_def)
qed

text \<open>All modules there, with an upstream function under every name.\<close>

definition sample_modules :: modules where
  "sample_modules = (\<lambda>path. if path \<in> fst ` set REQUIRED_BINDING_SITES then Some (\<lambda>name. Some (Upstream (length name))) else None)"

lemma install_binds_every_hook_witness:
  "snd (install sample_modules) = Inr () \<and> install (fst (install sample_modules)) = (fst (install sample_modules), Inr ())"
proof -
  have ok: "snd (install sample_modules) = Inr ()" by code_simp
  then have "install sample_modules = (fst (install sample_modules), Inr ())" by (metis prod.collapse)
  then show ?thesis using install_binds_every_hook [of sample_modules "fst (install sample_modules)"] ok by blast
qed

end
