(* ===== verification/Q4kv_Prefill.thy ===== *)
theory Q4kv_Prefill
  imports Q4kv_Kernels Q4kv_Overlay
begin

text \<open>
  The prefill over the 4-bit KV pool: the attention oracle (\<open>reference_prefill_attention\<close> of
  \<open>src/vllm_exl3/minimax_q4kv_reference.py\<close>) and the prefill wrapper of \<open>src/vllm_exl3/minimax_q4kv.py\<close>,
  which stages the selected pages slice by slice and calls the upstream kernel on them.  Scores, softmax
  and the weighted sum of one head group are the parameter \<open>attend\<close>.
\<close>

section \<open>The attention oracle\<close>

definition query_request :: "int list \<Rightarrow> int \<Rightarrow> nat res" where
  "query_request cu i =
     (case List.find (\<lambda>j. cu ! j \<le> i \<and> i < cu ! Suc j) [0..<length cu - 1] of
        Some r \<Rightarrow> Inr r
      | None \<Rightarrow> Inl StopIteration)"

text \<open>The keys and values a query reads of block \<open>b\<close>: the causal positions of its page.\<close>

definition block_keys ::
  "number list list list list \<Rightarrow> number list list list list \<Rightarrow> int list \<Rightarrow> nat \<Rightarrow> int \<Rightarrow> int \<Rightarrow> int
    \<Rightarrow> (number list \<times> number list) list res"
where
  "block_keys k_pages v_pages row kvh q_abs seq b =
     (if int (length row) \<le> b then Inl IndexError
      else let page = row ! nat b in
        if page < 0 then Inr []
        else if int (length k_pages) \<le> page \<or> int (length v_pages) \<le> page then Inl IndexError
        else Inr (map (\<lambda>t. (k_pages ! nat page ! kvh ! t, v_pages ! nat page ! kvh ! t))
          (filter (\<lambda>t. b * int POOL_BLOCK_SIZE + int t \<le> q_abs \<and> b * int POOL_BLOCK_SIZE + int t < seq) [0..<POOL_BLOCK_SIZE])))"

text \<open>
  The output of one query: per key head the group of query heads attends to the blocks its head selected; a
  group without keys stays zero (as does one whose keys are all masked, where the sum is empty).
\<close>

definition head_output ::
  "('q list \<Rightarrow> (number list \<times> number list) list \<Rightarrow> 'o list) \<Rightarrow> 'o \<Rightarrow> number list list list list \<Rightarrow> number list list list list
    \<Rightarrow> 'q list \<Rightarrow> nat \<Rightarrow> int list \<Rightarrow> int list \<Rightarrow> int \<Rightarrow> int \<Rightarrow> nat \<Rightarrow> 'o list res"
where
  "head_output attend zero k_pages v_pages qrow grp row topk q_abs seq kvh =
     (let real_topk = nat (min (int (length topk)) ((q_abs + int POOL_BLOCK_SIZE) div int POOL_BLOCK_SIZE));
          blocks = filter (\<lambda>b. 0 \<le> b) (take real_topk topk) in
      if real_topk = 0 then Inr (replicate grp zero)
      else bind_res (map_res (block_keys k_pages v_pages row kvh q_abs seq) blocks) (\<lambda>kvs.
        if concat kvs = [] then Inr (replicate grp zero)
        else Inr (attend (take grp (drop (kvh * grp) qrow)) (concat kvs))))"

definition query_output ::
  "('q list \<Rightarrow> (number list \<times> number list) list \<Rightarrow> 'o list) \<Rightarrow> 'o \<Rightarrow> nat \<Rightarrow> number list list list list \<Rightarrow> number list list list list
    \<Rightarrow> nat \<Rightarrow> int list list \<Rightarrow> int list list list \<Rightarrow> int list \<Rightarrow> int list \<Rightarrow> int list \<Rightarrow> 'q list list \<Rightarrow> nat \<Rightarrow> 'o list res"
where
  "query_output attend zero num_heads k_pages v_pages nkv block_table topk cu seq prefix q i =
     bind_res (query_request cu (int i)) (\<lambda>r.
       if length prefix \<le> r \<or> length seq \<le> r \<or> length block_table \<le> r then Inl IndexError
       else
         let q_abs = prefix ! r + (int i - cu ! r); grp = num_heads div nkv in
         bind_res (map_res (\<lambda>kvh.
             if length topk \<le> kvh \<or> length (topk ! kvh) \<le> i then Inl IndexError
             else head_output attend zero k_pages v_pages (q ! i) grp (block_table ! r) (topk ! kvh ! i) q_abs (seq ! r) kvh)
           [0..<nkv])
         (\<lambda>outs. Inr (concat outs @ replicate (num_heads - nkv * grp) zero)))"

definition reference_prefill_attention ::
  "('q list \<Rightarrow> (number list \<times> number list) list \<Rightarrow> 'o list) \<Rightarrow> 'o \<Rightarrow> nat \<Rightarrow> 'q list list \<Rightarrow> number list list list list
    \<Rightarrow> number list list list list \<Rightarrow> nat \<Rightarrow> int list list \<Rightarrow> int list list list \<Rightarrow> int list \<Rightarrow> int list \<Rightarrow> int list
    \<Rightarrow> 'o list list res"
where
  "reference_prefill_attention attend zero num_heads q k_pages v_pages nkv block_table topk cu seq prefix =
     (if nkv = 0 then Inl ZeroDivisionError
      else map_res (query_output attend zero num_heads k_pages v_pages nkv block_table topk cu seq prefix q) [0..<length q])"

section \<open>The wrapper\<close>

text \<open>The tensors of a call and the integer it passes on.\<close>

record 'q chunk =
  ck_q :: "'q list list"
  ck_topk :: "int list list list"
  ck_table :: "int list list"
  ck_max_blocks :: nat
  ck_cu :: "int list"
  ck_seq :: "int list"
  ck_prefix :: "int list"
  ck_max_query_len :: int

text \<open>
  The upstream kernel as the wrapper calls it: queries, page pool, top-k, block table, boundaries, sequence
  and prefix lengths, longest query; it returns the rows it writes.
\<close>

type_synonym ('q, 'o) kernel =
  "'q list list \<Rightarrow> staged_page list \<Rightarrow> int list list list \<Rightarrow> int list list \<Rightarrow> int list \<Rightarrow> int list \<Rightarrow> int list \<Rightarrow> int \<Rightarrow> 'o list res"

type_synonym fill = "staged_page list \<Rightarrow> q4_pool \<Rightarrow> nat list \<Rightarrow> (nat \<times> staged_page list) res"

type_synonym buffers = "(string \<times> nat) \<Rightarrow> staged_page list option"

definition staging_buffer :: "buffers \<Rightarrow> string \<Rightarrow> nat \<Rightarrow> nat \<Rightarrow> staged_page list \<times> buffers" where
  "staging_buffer bufs dev capacity_pages num_kv_heads =
     (let key = (dev, num_kv_heads); fresh = (\<lambda>cap. replicate cap (zero_page num_kv_heads)) in
      case bufs key of
        Some buf \<Rightarrow>
          if capacity_pages + 1 \<le> length buf then (buf, bufs)
          else let buf = fresh (max (capacity_pages + 1) (length buf)) in (buf, bufs(key \<mapsto> buf))
      | None \<Rightarrow> let buf = fresh (capacity_pages + 1) in (buf, bufs(key \<mapsto> buf)))"

definition plan_args :: "q4_pool \<Rightarrow> 'q chunk \<Rightarrow> prefill_call" where
  "plan_args pool ck =
     \<lparr>pc_nb = length (qp_flat pool), pc_slots = qp_slots pool, pc_tokens = qp_tokens pool, pc_width = qp_width pool,
      pc_table = ck_table ck, pc_max_blocks = ck_max_blocks ck, pc_topk = ck_topk ck, pc_total_q = length (ck_q ck), pc_cu = ck_cu ck\<rparr>"

definition slice_rows :: "nat \<Rightarrow> nat \<Rightarrow> 'a list \<Rightarrow> 'a list" where
  "slice_rows lo hi xs = take (hi - lo) (drop lo xs)"

definition int_rows :: "nat list list \<Rightarrow> int list list" where
  "int_rows = map (map int)"

text \<open>One slice: fill, remap, metadata, kernel call; its rows go to the slice's part of the output.\<close>

definition run_slice ::
  "fill \<Rightarrow> ('q, 'o) kernel \<Rightarrow> q4_pool \<Rightarrow> 'q chunk \<Rightarrow> staged_page list \<times> 'o list \<Rightarrow> prefill_slice \<Rightarrow> (staged_page list \<times> 'o list) res"
where
  "run_slice fill original pool ck st sl =
     (let (buffer, out) = st in
      bind_res (fill buffer pool (sl_pages sl)) (\<lambda>(n, buffer).
        bind_res (slice_fake_block_table (ck_table ck) (sl_reqs sl) (sl_pages sl) n (length (qp_flat pool))) (\<lambda>fake.
          bind_res (prefill_slice_metadata sl (ck_cu ck) (ck_prefix ck)) (\<lambda>(cu_new, prefix_new, max_q).
            bind_res (original (slice_rows (sl_lo sl) (sl_hi sl) (ck_q ck)) (take (n + 1) buffer)
                (map (slice_rows (sl_lo sl) (sl_hi sl)) (ck_topk ck)) (int_rows fake) cu_new
                (slice_rows (hd (sl_reqs sl)) (last (sl_reqs sl) + 1) (ck_seq ck)) prefix_new max_q) (\<lambda>rows.
              Inr (buffer, overwrite out (sl_lo sl) rows))))))"

definition full_batch :: "'q chunk \<Rightarrow> prefill_slice list \<Rightarrow> bool" where
  "full_batch ck slices \<longleftrightarrow> length slices = 1 \<and> sl_reqs (hd slices) = [0..<length (ck_cu ck) - 1] \<and>
     sl_lo (hd slices) = 0 \<and> sl_hi (hd slices) = length (ck_q ck)"

definition prefill_body ::
  "(prefill_call \<Rightarrow> nat \<Rightarrow> int \<Rightarrow> prefill_slice list res) \<Rightarrow> fill \<Rightarrow> ('q, 'o) kernel \<Rightarrow> nat res \<Rightarrow> buffers \<Rightarrow> string \<Rightarrow> q4_pool \<Rightarrow> nat
    \<Rightarrow> 'q chunk \<Rightarrow> 'o list \<Rightarrow> ('o list \<times> buffers) res"
where
  "prefill_body plan fill original max_pages bufs dev pool num_kv_heads ck out =
     bind_res max_pages (\<lambda>max_pages.
       bind_res (plan (plan_args pool ck) num_kv_heads (int max_pages)) (\<lambda>slices.
         let needed = Max (insert 0 (sl_n ` set slices));
             (buffer, bufs) = staging_buffer bufs dev (max max_pages needed) num_kv_heads in
         if full_batch ck slices then
           bind_res (fill buffer pool (sl_pages (hd slices))) (\<lambda>(n, buffer).
             bind_res (slice_fake_block_table (ck_table ck) (sl_reqs (hd slices)) (sl_pages (hd slices)) n (length (qp_flat pool))) (\<lambda>fake.
               bind_res (original (ck_q ck) (take (n + 1) buffer) (ck_topk ck) (int_rows fake) (ck_cu ck) (ck_seq ck) (ck_prefix ck)
                   (ck_max_query_len ck)) (\<lambda>rows.
                 Inr (overwrite out 0 rows, bufs((dev, num_kv_heads) \<mapsto> buffer)))))
         else
           bind_res (fold_res (run_slice fill original pool ck) (buffer, out) slices) (\<lambda>(buffer, out).
             Inr (out, bufs((dev, num_kv_heads) \<mapsto> buffer)))))"

text \<open>The guards before the body; the pool, the scales and the scalars are checked in this order.\<close>

record prefill_args =
  pa_pool :: qarg
  pa_k_scale :: qarg
  pa_v_scale :: qarg
  pa_num_kv_heads :: qarg
  pa_sm_scale :: qarg
  pa_max_query_len :: qarg
  pa_devices :: "(string \<times> device option) list"
  pa_device :: device
  pa_fast :: "string option"

definition prefill_guard ::
  "string \<Rightarrow> (nat \<Rightarrow> bool) \<Rightarrow> (nat \<Rightarrow> nat \<times> pyfloat) \<Rightarrow> bool \<Rightarrow> prefill_args \<Rightarrow> gate_state \<Rightarrow> bool res \<times> gate_state"
where
  "prefill_guard required alive store capturing a g =
     (case pa_pool a of
        Plain _ \<Rightarrow> (Inl TypeError, g)
      | Tensor r \<Rightarrow>
         (case q4_pool_bytes r of
            Inl e \<Rightarrow> (Inl e, g)
          | Inr _ \<Rightarrow>
             (case assert_unit_scale alive store capturing (pa_k_scale a) g of
                (Inl e, g) \<Rightarrow> (Inl e, g)
              | (Inr _, g) \<Rightarrow>
                 (case assert_unit_scale alive store capturing (pa_v_scale a) g of
                    (Inl e, g) \<Rightarrow> (Inl e, g)
                  | (Inr _, g) \<Rightarrow>
                      (bind_res (py_scalar (pa_num_kv_heads a) [T_int]) (\<lambda>_.
                        bind_res (py_scalar (pa_sm_scale a) [T_int, T_float]) (\<lambda>_.
                          bind_res (py_scalar (pa_max_query_len a) [T_int]) (\<lambda>_.
                            bind_res (device_gate required (pa_device a) (pa_devices a)) (\<lambda>_.
                              prefill_fast_enabled (pa_fast a))))), g)))))"

text \<open>The wrapper: another pool goes to the upstream function unchanged.\<close>

definition minimax_m3_sparse_attn where
  "minimax_m3_sparse_attn required alive store capturing fills original upstream max_pages bufs dev pool num_kv_heads ck out a g =
     (if \<not> is_q4_pool (pa_pool a) then (upstream, g)
      else case prefill_guard required alive store capturing a g of
          (Inl e, g) \<Rightarrow> (Inl e, g)
        | (Inr fast, g) \<Rightarrow>
            (prefill_body (if fast then plan_prefill_slices_fast else plan_prefill_slices) (fills fast) original max_pages bufs dev pool
               num_kv_heads ck out, g))"

section \<open>Calls the wrapper serves\<close>

text \<open>
  The shape vLLM gives a prefill call: every request has a query, the boundaries cover the queries, the
  top-k names blocks of the table or is negative, the table names pages of the pool, and positions fit 32
  bits.
\<close>

definition chunk_ok :: "q4_pool \<Rightarrow> nat \<Rightarrow> 'q chunk \<Rightarrow> bool" where
  "chunk_ok pool heads ck \<longleftrightarrow>
     pool_ok pool \<and> qp_tokens pool = 128 \<and> qp_width pool = 72 \<and> qp_slots pool = 2 * heads \<and> 0 < heads \<and> 0 < ck_max_blocks ck \<and>
     length (ck_topk ck) = heads \<and> (\<forall>head \<in> set (ck_topk ck). length head = length (ck_q ck)) \<and>
     (\<forall>head \<in> set (ck_topk ck). \<forall>blks \<in> set head. \<forall>b \<in> set blks. b < int (ck_max_blocks ck)) \<and>
     (\<forall>row \<in> set (ck_table ck). length row = ck_max_blocks ck \<and> (\<forall>p \<in> set row. 0 \<le> p \<and> p < int (length (qp_flat pool)))) \<and>
     ck_cu ck \<noteq> [] \<and> length (ck_table ck) = length (ck_cu ck) - 1 \<and> length (ck_seq ck) = length (ck_cu ck) - 1 \<and>
     length (ck_prefix ck) = length (ck_cu ck) - 1 \<and> ck_cu ck ! 0 = 0 \<and> last (ck_cu ck) = int (length (ck_q ck)) \<and>
     (\<forall>r. Suc r < length (ck_cu ck) \<longrightarrow> ck_cu ck ! r < ck_cu ck ! Suc r) \<and>
     (\<forall>p \<in> set (ck_prefix ck). 0 \<le> p \<and> p + int (length (ck_q ck)) < 2 ^ 31)"

lemma sum_list_telescope: "sum_list (map (\<lambda>r. f (Suc r) - f r) [0..<n]) = f n - f 0" for f :: "nat \<Rightarrow> int"
  by (induction n) auto

lemma chunk_requests:
  assumes "chunk_ok pool heads ck"
  obtains roq where "req_of_q (ck_cu ck) (length (ck_q ck)) = Inr roq" "length roq = length (ck_q ck)"
    "cu_ok (ck_cu ck) (length (ck_q ck))" "\<forall>r \<in> set roq. r < length (ck_table ck)"
    "\<And>i r. r < length (ck_cu ck) - 1 \<Longrightarrow> ck_cu ck ! r \<le> int i \<Longrightarrow> int i < ck_cu ck ! Suc r \<Longrightarrow> roq ! i = r"
proof -
  let ?cu = "ck_cu ck" and ?n = "length (ck_cu ck) - 1" and ?t = "length (ck_q ck)"
  have c: "?cu \<noteq> []" "?cu ! 0 = 0" "last ?cu = int ?t" "\<And>r. Suc r < length ?cu \<Longrightarrow> ?cu ! r < ?cu ! Suc r"
    "length (ck_table ck) = ?n"
    using assms by (auto simp: chunk_ok_def)
  have last: "?cu ! ?n = int ?t" using c(1,3) by (simp add: last_conv_nth)
  have "cu_ok ?cu ?t"
  proof -
    have "a \<le> b" if "(a, b) \<in> set (zip ?cu (tl ?cu))" for a b
      using that c(4) by (auto simp: set_zip nth_tl intro: less_imp_le)
    then show ?thesis using c(2,3) by (auto simp: cu_ok_def list_all_iff)
  qed
  moreover have "list_ex (\<lambda>d. d < 0) (map (\<lambda>r. ?cu ! Suc r - ?cu ! r) [0..<?n]) = False"
    unfolding list_ex_iff using c(4) by (auto simp: not_less intro!: less_imp_le)
  then have req: "req_of_q ?cu ?t = Inr (concat (map (\<lambda>r. replicate (nat (map (\<lambda>r. ?cu ! Suc r - ?cu ! r) [0..<?n] ! r)) r) [0..<?n]))"
    using c(1,2) last by (simp add: req_of_q_def Let_def sum_list_telescope)
  moreover have L: "concat (map (\<lambda>r. replicate (nat (map (\<lambda>r. ?cu ! Suc r - ?cu ! r) [0..<?n] ! r)) r) [0..<?n]) =
      concat (map (\<lambda>r. replicate (nat (?cu ! Suc r) - nat (?cu ! r)) r) [0..<?n])"
  proof -
    have nn: "0 \<le> ?cu ! r" if "r \<le> ?n" for r using that
    proof (induction r)
      case (Suc r)
      then show ?case using c(1) c(4) [of r] by fastforce
    qed (simp add: c(2))
    show ?thesis by (intro arg_cong [where f = concat] map_cong refl) (use nn in \<open>simp add: nat_diff_distrib'\<close>)
  qed
  moreover have b: "boundaries (\<lambda>r. nat (?cu ! r)) ?n"
  proof -
    have "nat (?cu ! r) \<le> nat (?cu ! Suc r)" if "r < ?n" for r
      by (intro nat_mono less_imp_le c(4)) (use that in simp)
    then show ?thesis using c(2) by (simp add: boundaries_def)
  qed
  note bl = block_labels [OF b]
  ultimately show thesis
  proof (intro that)
    show "ck_cu ck ! r \<le> int i \<Longrightarrow> int i < ck_cu ck ! Suc r \<Longrightarrow> r < length (ck_cu ck) - 1 \<Longrightarrow>
      concat (map (\<lambda>r. replicate (nat (map (\<lambda>r. ?cu ! Suc r - ?cu ! r) [0..<?n] ! r)) r) [0..<?n]) ! i = r" for i r
      unfolding L using bl by (auto simp: nat_le_iff nat_less_iff zless_nat_eq_int_zless)
  qed (use bl last c(5) in \<open>auto simp: L\<close>)
qed

text \<open>The plan of such a call exists, and every block a query selects leads to a page its query selects.\<close>

lemma chunk_phys:
  assumes ok: "chunk_ok pool heads ck"
  obtains bm phys where "selected_page_bitmap (plan_args pool ck) = Inr (bm, phys)"
    "\<And>h i r b. h < heads \<Longrightarrow> i < length (ck_q ck) \<Longrightarrow> r < length (ck_cu ck) - 1 \<Longrightarrow> ck_cu ck ! r \<le> int i \<Longrightarrow> int i < ck_cu ck ! Suc r \<Longrightarrow>
      b \<in> set (ck_topk ck ! h ! i) \<Longrightarrow> 0 \<le> b \<Longrightarrow> selects phys i (nat (ck_table ck ! r ! nat b))"
proof -
  let ?pc = "plan_args pool ck"
  obtain roq where roq: "req_of_q (ck_cu ck) (length (ck_q ck)) = Inr roq" "length roq = length (ck_q ck)"
    "\<forall>r \<in> set roq. r < length (ck_table ck)"
    "\<And>i r. r < length (ck_cu ck) - 1 \<Longrightarrow> ck_cu ck ! r \<le> int i \<Longrightarrow> int i < ck_cu ck ! Suc r \<Longrightarrow> roq ! i = r"
    using chunk_requests [OF ok] by metis
  have k: "\<And>head blks b. head \<in> set (ck_topk ck) \<Longrightarrow> blks \<in> set head \<Longrightarrow> b \<in> set blks \<Longrightarrow> b < int (ck_max_blocks ck)"
    "\<And>row p. row \<in> set (ck_table ck) \<Longrightarrow> p \<in> set row \<Longrightarrow> 0 \<le> p \<and> p < int (length (qp_flat pool))"
    "\<And>row. row \<in> set (ck_table ck) \<Longrightarrow> length row = ck_max_blocks ck" "0 < ck_max_blocks ck"
    "length (ck_topk ck) = heads" "\<And>head. head \<in> set (ck_topk ck) \<Longrightarrow> length head = length (ck_q ck)"
    using ok by (auto simp: chunk_ok_def)
  define entry where "entry = (\<lambda>r b. if 0 \<le> b then ck_table ck ! r ! nat b else - 1)"
  have pe: "phys_entry ?pc r b = Inr (entry r b)" if "r < length (ck_table ck)" "b < int (ck_max_blocks ck)" for r b
  proof -
    have "nat (max b 0) < ck_max_blocks ck" using that(2) k(4) by auto
    moreover have "0 \<le> ck_table ck ! r ! nat b \<and> ck_table ck ! r ! nat b < int (length (qp_flat pool))" if "0 \<le> b"
      using k(2) [of "ck_table ck ! r" "ck_table ck ! r ! nat b"] k(3) [of "ck_table ck ! r"] \<open>r < _\<close> \<open>b < _\<close> that by simp
    ultimately show ?thesis using that by (auto simp: phys_entry_def plan_args_def entry_def Let_def max_def)
  qed
  define phys where "phys = map (\<lambda>head. map2 (\<lambda>r blks. map (entry r) blks) roq head) (ck_topk ck)"
  have row: "map_res (phys_entry ?pc r) blks = Inr (map (entry r) blks)"
    if "r < length (ck_table ck)" "\<forall>b \<in> set blks. b < int (ck_max_blocks ck)" for r blks
    using that pe by (auto simp: map_res_Inr_iff list_all2_conv_all_nth)
  have "map_res (\<lambda>(r, blks). map_res (phys_entry ?pc r) blks) (zip roq head) = Inr (map2 (\<lambda>r blks. map (entry r) blks) roq head)"
    if "head \<in> set (ck_topk ck)" for head
  proof -
    have "map_res (phys_entry ?pc (roq ! i)) (head ! i) = Inr (map (entry (roq ! i)) (head ! i))" if i: "i < length roq" "i < length head" for i
      by (rule row) (use roq(3) k(1) [OF \<open>head \<in> _\<close> nth_mem [OF i(2)]] i(1) in auto)
    then show ?thesis by (subst map_res_Inr_iff) (auto simp: list_all2_conv_all_nth)
  qed
  then have "map_res (\<lambda>head. map_res (\<lambda>(r, blks). map_res (phys_entry ?pc r) blks) (zip roq head)) (ck_topk ck) = Inr phys"
    unfolding map_res_Inr_iff phys_def by (simp add: list.rel_map list.rel_refl_strong)
  then have "selected_page_bitmap ?pc = Inr (req_bitmap (length (ck_cu ck) - 1) (length (qp_flat pool)) roq phys, phys)"
    using roq(1) by (simp add: selected_page_bitmap_def plan_args_def)
  moreover have "selects phys i (nat (ck_table ck ! r ! nat b))"
    if "h < heads" "i < length (ck_q ck)" "r < length (ck_cu ck) - 1" "ck_cu ck ! r \<le> int i" "int i < ck_cu ck ! Suc r"
      "b \<in> set (ck_topk ck ! h ! i)" "0 \<le> b" for h i r b
  proof -
    have head: "ck_topk ck ! h \<in> set (ck_topk ck)" using that(1) k(5) by simp
    have "roq ! i = r" using roq(4) that by blast
    moreover have "r < length (ck_table ck)" using that(3) ok by (auto simp: chunk_ok_def)
    moreover have "b < int (ck_max_blocks ck)" using k(1) [OF head _ that(6)] k(6) [OF head] that(2) by simp
    ultimately have "0 \<le> ck_table ck ! r ! nat b" "entry r b = ck_table ck ! r ! nat b"
      using k(2) [of "ck_table ck ! r" "ck_table ck ! r ! nat b"] k(3) [of "ck_table ck ! r"] that(7) by (auto simp: entry_def)
    then have "int (nat (ck_table ck ! r ! nat b)) = entry r b" by simp
    moreover have at: "phys ! h ! i = map (entry r) (ck_topk ck ! h ! i)" "phys ! h \<in> set phys" "i < length (phys ! h)"
      using that(1,2) k(5) k(6) [OF head] roq(2) \<open>roq ! i = r\<close> by (simp_all add: phys_def)
    ultimately show ?thesis using at that(6) unfolding selects_def list_ex_iff by (intro bexI [of _ "phys ! h"]) simp_all
  qed
  ultimately show thesis using that by blast
qed

lemma chunk_plan:
  assumes "chunk_ok pool heads ck" "1 \<le> max_pages"
  obtains sls where "plan_prefill_slices (plan_args pool ck) heads max_pages = Inr sls"
proof -
  obtain bm phys where p: "selected_page_bitmap (plan_args pool ck) = Inr (bm, phys)" using chunk_phys [OF assms(1)] by metis
  have c: "cu_ok (ck_cu ck) (length (ck_q ck))" using chunk_requests [OF assms(1)] by metis
  have "\<exists>sls. plan_prefill_slices (plan_args pool ck) heads max_pages = Inr sls"
    using assms p c by (simp add: plan_prefill_slices_def plan_with_def) (simp add: plan_args_def chunk_ok_def)
  then show thesis using that by blast
qed

section \<open>What a slice shows the kernel\<close>

text \<open>The upstream kernel on a pool of staged pages, as the oracle has it; the pool with every page staged.\<close>

definition attn_kernel ::
  "('q list \<Rightarrow> (number list \<times> number list) list \<Rightarrow> 'o list) \<Rightarrow> 'o \<Rightarrow> nat \<Rightarrow> nat \<Rightarrow> ('q, 'o list) kernel"
where
  "attn_kernel attend zero num_heads nkv q pages topk block_table cu seq prefix max_q =
     reference_prefill_attention attend zero num_heads q (map (map (map (take HEAD_DIM))) pages) (map (map (map (drop HEAD_DIM))) pages)
       nkv block_table topk cu seq prefix"

definition pool_pages :: "(number \<Rightarrow> number) \<Rightarrow> q4_pool \<Rightarrow> staged_page list" where
  "pool_pages bf16 pool = map (staged bf16 pool) [0..<length (qp_flat pool)]"

lemma page_lookup_value:
  assumes "distinct pages" "\<forall>p \<in> set pages. p < nb"
  obtains lookup where "page_lookup pages (length pages) nb = Inr lookup" "length lookup = nb"
    "\<And>j. j < length pages \<Longrightarrow> lookup ! (pages ! j) = j"
proof -
  let ?l = "scatter (replicate nb (length pages)) (zip pages [0..<length pages])"
  have "page_lookup pages (length pages) nb = Inr ?l"
    using assms(2) by (auto simp: page_lookup_def list_ex_iff not_le)
  moreover have "?l ! (pages ! j) = j" if "j < length pages" for j
  proof (rule scatter_at)
    show "distinct (map fst (zip pages [0..<length pages]))" using assms(1) by simp
    show "(pages ! j, j) \<in> set (zip pages [0..<length pages])" using that by (force simp: set_zip)
  qed (use assms(2) that in simp)
  ultimately show thesis using that by simp
qed

lemma fake_table_value:
  assumes "distinct pages" "\<forall>p \<in> set pages. p < nb" "\<forall>m \<in> set members. m < length table"
    "\<forall>row \<in> set table. \<forall>p \<in> set row. 0 \<le> p \<and> p < int nb"
  obtains fake where "slice_fake_block_table table members pages (length pages) nb = Inr fake" "length fake = length members"
    "\<And>k. k < length members \<Longrightarrow> length (fake ! k) = length (table ! (members ! k))"
    "\<And>k c j. k < length members \<Longrightarrow> c < length (table ! (members ! k)) \<Longrightarrow> j < length pages \<Longrightarrow>
       table ! (members ! k) ! c = int (pages ! j) \<Longrightarrow> fake ! k ! c = j"
proof -
  obtain lookup where l: "page_lookup pages (length pages) nb = Inr lookup" "length lookup = nb"
    "\<And>j. j < length pages \<Longrightarrow> lookup ! (pages ! j) = j" using page_lookup_value [OF assms(1,2)] by metis
  define fake where "fake = map (\<lambda>m. map (\<lambda>e. lookup ! nat e) (table ! m)) members"
  have "select_pages table members = Inr (map ((!) table) members)"
    using assms(3) by (auto simp: select_pages_def map_res_Inr_iff list_all2_conv_all_nth)
  moreover have "remap_row lookup row = Inr (map (\<lambda>e. lookup ! nat e) row)" if "row \<in> set table" for row
  proof -
    have "0 \<le> e \<and> e < int nb" if "e \<in> set row" for e using assms(4) \<open>row \<in> set table\<close> that by blast
    then have "nat (max e 0) = nat e \<and> nat e < length lookup" if "e \<in> set row" for e
      using that l(2) by (simp add: nat_less_iff)
    then show ?thesis
      unfolding remap_row_def map_res_Inr_iff by (simp add: list_all2_conv_all_nth Let_def)
  qed
  then have "map_res (remap_row lookup) (map ((!) table) members) = Inr fake"
    unfolding map_res_Inr_iff fake_def using assms(3) by (auto simp: list_all2_conv_all_nth)
  ultimately have "slice_fake_block_table table members pages (length pages) nb = Inr fake"
    by (simp add: slice_fake_block_table_def l(1))
  then show thesis using that l(3) by (auto simp: fake_def)
qed

text \<open>A selected page shows the same keys through the staged pages of a slice as through the whole pool.\<close>

lemma block_keys_staged:
  assumes "p < length (qp_flat pool)" "j < length pages" "pages ! j = p" "nat b < length row" "length fake = length row" "0 \<le> b"
    and "row ! nat b = int p" "fake ! nat b = int j"
  shows "block_keys (map f (map (staged bf16 pool) pages @ [z])) (map g (map (staged bf16 pool) pages @ [z])) fake kvh q_abs seq b =
    block_keys (map f (pool_pages bf16 pool)) (map g (pool_pages bf16 pool)) row kvh q_abs seq b"
    "\<exists>kvs. block_keys (map f (pool_pages bf16 pool)) (map g (pool_pages bf16 pool)) row kvh q_abs seq b = Inr kvs"
  using assms by (auto simp: block_keys_def pool_pages_def nth_append Let_def)

lemma discrete_between:
  fixes f :: "nat \<Rightarrow> int"
  shows "f 0 \<le> i \<Longrightarrow> i < f n \<Longrightarrow> \<exists>k < n. f k \<le> i \<and> i < f (Suc k)"
proof (induction n)
  case (Suc n)
  then show ?case by (cases "i < f n") (auto intro: exI [of _ n] less_SucI)
qed simp

lemma query_request_found:
  assumes "cu \<noteq> []" "cu ! 0 \<le> i" "i < last cu"
  obtains k where "query_request cu i = Inr k" "k < length cu - 1" "cu ! k \<le> i" "i < cu ! Suc k"
proof -
  obtain k where "k < length cu - 1" "cu ! k \<le> i" "i < cu ! Suc k"
    using discrete_between [of "(!) cu" i "length cu - 1"] assms by (auto simp: last_conv_nth)
  then obtain r where r: "List.find (\<lambda>j. cu ! j \<le> i \<and> i < cu ! Suc j) [0..<length cu - 1] = Some r"
    by (cases "List.find (\<lambda>j. cu ! j \<le> i \<and> i < cu ! Suc j) [0..<length cu - 1]") (auto simp: find_None_iff)
  then have "query_request cu i = Inr r" by (simp add: query_request_def)
  then show thesis using that r by (auto simp: find_Some_iff)
qed

text \<open>The output of a head depends on the selected blocks only through their keys.\<close>

lemma head_output_cong:
  assumes "\<And>b. b \<in> set topk \<Longrightarrow> 0 \<le> b \<Longrightarrow> block_keys k v row kvh q_abs seq b = block_keys k' v' row' kvh q_abs seq b"
  shows "head_output attend zero k v qrow grp row topk q_abs seq kvh = head_output attend zero k' v' qrow grp row' topk q_abs seq kvh"
proof -
  have "map_res (block_keys k v row kvh q_abs seq) (filter (\<lambda>b. 0 \<le> b) (take n topk)) =
      map_res (block_keys k' v' row' kvh q_abs seq) (filter (\<lambda>b. 0 \<le> b) (take n topk))" for n
    using assms by (intro map_res_cong [OF refl]) (auto dest: in_set_takeD)
  then show ?thesis by (simp add: head_output_def Let_def)
qed

lemma head_output_total:
  assumes "\<And>b. b \<in> set topk \<Longrightarrow> 0 \<le> b \<Longrightarrow> \<exists>kvs. block_keys k v row kvh q_abs seq b = Inr kvs"
  shows "\<exists>out. head_output attend zero k v qrow grp row topk q_abs seq kvh = Inr out"
proof -
  let ?bs = "filter (\<lambda>b. 0 \<le> b) (take (nat (min (int (length topk)) ((q_abs + int POOL_BLOCK_SIZE) div int POOL_BLOCK_SIZE))) topk)"
  obtain kvs where "map_res (block_keys k v row kvh q_abs seq) ?bs = Inr kvs"
    using map_res_total [of ?bs "block_keys k v row kvh q_abs seq"] assms by (auto dest: in_set_takeD)
  then show ?thesis by (simp add: head_output_def Let_def)
qed

section \<open>A query in its slice\<close>

definition oracle_row ::
  "('q list \<Rightarrow> (number list \<times> number list) list \<Rightarrow> 'o list) \<Rightarrow> 'o \<Rightarrow> nat \<Rightarrow> nat \<Rightarrow> (number \<Rightarrow> number) \<Rightarrow> q4_pool \<Rightarrow> 'q chunk \<Rightarrow> nat
    \<Rightarrow> 'o list res"
where
  "oracle_row attend zero num_heads heads bf16 pool ck i =
     query_output attend zero num_heads (map (map (map (take HEAD_DIM))) (pool_pages bf16 pool)) (map (map (map (drop HEAD_DIM))) (pool_pages bf16 pool))
       heads (ck_table ck) (ck_topk ck) (ck_cu ck) (ck_seq ck) (ck_prefix ck) (ck_q ck) i"

lemma chunk_request:
  assumes "chunk_ok pool heads ck" "i < length (ck_q ck)"
  obtains r where "query_request (ck_cu ck) (int i) = Inr r" "r < length (ck_cu ck) - 1" "ck_cu ck ! r \<le> int i" "int i < ck_cu ck ! Suc r"
    "\<And>r'. r' < length (ck_cu ck) - 1 \<Longrightarrow> ck_cu ck ! r' \<le> int i \<Longrightarrow> int i < ck_cu ck ! Suc r' \<Longrightarrow> r' = r"
proof -
  obtain r where "query_request (ck_cu ck) (int i) = Inr r" "r < length (ck_cu ck) - 1" "ck_cu ck ! r \<le> int i" "int i < ck_cu ck ! Suc r"
    using query_request_found [of "ck_cu ck" "int i"] assms by (auto simp: chunk_ok_def)
  moreover obtain roq where "\<And>r. r < length (ck_cu ck) - 1 \<Longrightarrow> ck_cu ck ! r \<le> int i \<Longrightarrow> int i < ck_cu ck ! Suc r \<Longrightarrow> roq ! i = r"
    using chunk_requests [OF assms(1)] by metis
  ultimately show thesis using that by blast
qed

text \<open>The block a head of query \<open>i\<close> selects, in the table row of its request.\<close>

lemma chunk_block:
  assumes "chunk_ok pool heads ck" "r < length (ck_cu ck) - 1" "h < heads" "i < length (ck_q ck)" "b \<in> set (ck_topk ck ! h ! i)" "0 \<le> b"
  shows "nat b < length (ck_table ck ! r)" "0 \<le> ck_table ck ! r ! nat b" "ck_table ck ! r ! nat b < int (length (qp_flat pool))"
proof -
  have c: "length (ck_topk ck) = heads" "\<forall>head \<in> set (ck_topk ck). length head = length (ck_q ck)"
    "\<forall>head \<in> set (ck_topk ck). \<forall>blks \<in> set head. \<forall>b \<in> set blks. b < int (ck_max_blocks ck)"
    "\<forall>row \<in> set (ck_table ck). length row = ck_max_blocks ck \<and> (\<forall>p \<in> set row. 0 \<le> p \<and> p < int (length (qp_flat pool)))"
    "length (ck_table ck) = length (ck_cu ck) - 1"
    using assms(1) unfolding chunk_ok_def by blast+
  have row: "ck_table ck ! r \<in> set (ck_table ck)" using assms(2) c(5) by simp
  have head: "ck_topk ck ! h \<in> set (ck_topk ck)" using assms(3) c(1) by simp
  have "ck_topk ck ! h ! i \<in> set (ck_topk ck ! h)" using assms(4) c(2) head by simp
  then have "b < int (ck_max_blocks ck)" using c(3) head assms(5) by blast
  then show b: "nat b < length (ck_table ck ! r)" using c(4) row assms(6) by (simp add: nat_less_iff)
  show "0 \<le> ck_table ck ! r ! nat b" "ck_table ck ! r ! nat b < int (length (qp_flat pool))"
    using c(4) row nth_mem [OF b] by blast+
qed

lemma pool_block_keys_total:
  assumes "nat b < length row" "0 \<le> b" "0 \<le> row ! nat b" "row ! nat b < int (length (qp_flat pool))"
  shows "\<exists>kvs. block_keys (map f (pool_pages bf16 pool)) (map g (pool_pages bf16 pool)) row kvh q_abs seq b = Inr kvs"
  using assms by (auto simp: block_keys_def pool_pages_def Let_def)

lemma query_output_at:
  assumes "query_request cu (int i) = Inr r" "r < length prefix" "r < length seq" "r < length table"
    "\<And>h. h < nkv \<Longrightarrow> h < length topk \<and> i < length (topk ! h)"
  shows "query_output attend zero num_heads k v nkv table topk cu seq prefix q i =
    bind_res (map_res (\<lambda>h. head_output attend zero k v (q ! i) (num_heads div nkv) (table ! r) (topk ! h ! i)
        (prefix ! r + (int i - cu ! r)) (seq ! r) h) [0..<nkv])
      (\<lambda>outs. Inr (concat outs @ replicate (num_heads - nkv * (num_heads div nkv)) zero))"
proof -
  have "map_res (\<lambda>h. if length topk \<le> h \<or> length (topk ! h) \<le> i then Inl IndexError
        else head_output attend zero k v (q ! i) (num_heads div nkv) (table ! r) (topk ! h ! i) (prefix ! r + (int i - cu ! r)) (seq ! r) h) [0..<nkv] =
      map_res (\<lambda>h. head_output attend zero k v (q ! i) (num_heads div nkv) (table ! r) (topk ! h ! i) (prefix ! r + (int i - cu ! r)) (seq ! r) h) [0..<nkv]"
  proof (rule map_res_cong [OF refl])
    fix h assume "h \<in> set [0..<nkv]"
    then have "h < length topk \<and> i < length (topk ! h)" using assms(5) by simp
    then show "(if length topk \<le> h \<or> length (topk ! h) \<le> i then Inl IndexError
        else head_output attend zero k v (q ! i) (num_heads div nkv) (table ! r) (topk ! h ! i) (prefix ! r + (int i - cu ! r)) (seq ! r) h) =
      head_output attend zero k v (q ! i) (num_heads div nkv) (table ! r) (topk ! h ! i) (prefix ! r + (int i - cu ! r)) (seq ! r) h" by simp
  qed
  then show ?thesis using assms(1-4) by (simp add: query_output_def Let_def)
qed

lemma chunk_heads: "chunk_ok pool heads ck \<Longrightarrow> h < heads \<Longrightarrow> i < length (ck_q ck) \<Longrightarrow> h < length (ck_topk ck) \<and> i < length (ck_topk ck ! h)"
  by (auto simp: chunk_ok_def)

lemma oracle_row_total:
  assumes "chunk_ok pool heads ck" "i < length (ck_q ck)"
  shows "\<exists>out. oracle_row attend zero num_heads heads bf16 pool ck i = Inr out"
proof -
  let ?k = "map (map (map (take HEAD_DIM))) (pool_pages bf16 pool)" and ?v = "map (map (map (drop HEAD_DIM))) (pool_pages bf16 pool)"
  obtain r where r: "query_request (ck_cu ck) (int i) = Inr r" "r < length (ck_cu ck) - 1" using chunk_request [OF assms] by metis
  have l: "length (ck_table ck) = length (ck_cu ck) - 1" "length (ck_seq ck) = length (ck_cu ck) - 1" "length (ck_prefix ck) = length (ck_cu ck) - 1"
    using assms(1) unfolding chunk_ok_def by blast+
  have "\<exists>out. head_output attend zero ?k ?v qr g (ck_table ck ! r) (ck_topk ck ! h ! i) qa s h = Inr out" if "h < heads" for qr g qa s h
    by (rule head_output_total, rule pool_block_keys_total) (use chunk_block [OF assms(1) r(2) that assms(2)] in simp_all)
  then have "\<exists>outs. map_res (\<lambda>h. head_output attend zero ?k ?v qr g (ck_table ck ! r) (ck_topk ck ! h ! i) qa s h) [0..<heads] = Inr outs" for qr g qa s
    by (intro map_res_total) simp
  then show ?thesis
    unfolding oracle_row_def using r l chunk_heads [OF assms(1) _ assms(2)] by (subst query_output_at [of _ _ r]) (auto simp: bind_res_Inr)
qed

text \<open>Query \<open>i\<close> of the chunk, as query \<open>i'\<close> of a call on the staged pages of its slice.\<close>

lemma slice_row:
  assumes ok: "chunk_ok pool heads ck" and i: "i < length (ck_q ck)"
    and pages: "distinct pages" "\<forall>p \<in> set pages. p < length (qp_flat pool)"
    and sel: "\<And>h b r. h < heads \<Longrightarrow> r < length (ck_cu ck) - 1 \<Longrightarrow> ck_cu ck ! r \<le> int i \<Longrightarrow> int i < ck_cu ck ! Suc r \<Longrightarrow>
        b \<in> set (ck_topk ck ! h ! i) \<Longrightarrow> 0 \<le> b \<Longrightarrow> nat (ck_table ck ! r ! nat b) \<in> set pages"
    and members: "\<forall>m \<in> set members. m < length (ck_table ck)"
    and fake: "slice_fake_block_table (ck_table ck) members pages (length pages) (length (qp_flat pool)) = Inr fake"
    and req: "query_request cu' (int i') = Inr k" "k < length members" "members ! k < length (ck_cu ck) - 1"
      "ck_cu ck ! (members ! k) \<le> int i" "int i < ck_cu ck ! Suc (members ! k)"
    and pos: "prefix' ! k + (int i' - cu' ! k) = ck_prefix ck ! (members ! k) + (int i - ck_cu ck ! (members ! k))"
    and sq: "k < length prefix'" "k < length seq'" "seq' ! k = ck_seq ck ! (members ! k)"
    and q: "q' ! i' = ck_q ck ! i" "\<And>h. h < heads \<Longrightarrow> h < length topk' \<and> i' < length (topk' ! h) \<and> topk' ! h ! i' = ck_topk ck ! h ! i"
  shows "query_output attend zero num_heads (map (map (map (take HEAD_DIM))) (map (staged bf16 pool) pages @ [z]))
      (map (map (map (drop HEAD_DIM))) (map (staged bf16 pool) pages @ [z])) heads (int_rows fake) topk' cu' seq' prefix' q' i' =
    oracle_row attend zero num_heads heads bf16 pool ck i"
proof -
  let ?st = "map (staged bf16 pool) pages @ [z]" and ?all = "pool_pages bf16 pool"
  define r where "r = members ! k"
  have tab: "\<forall>row \<in> set (ck_table ck). \<forall>p \<in> set row. 0 \<le> p \<and> p < int (length (qp_flat pool))"
    and l: "length (ck_table ck) = length (ck_cu ck) - 1" "length (ck_seq ck) = length (ck_cu ck) - 1" "length (ck_prefix ck) = length (ck_cu ck) - 1"
    using ok unfolding chunk_ok_def by blast+
  obtain fk where fk: "fk = fake" "length fake = length members" "length (fake ! k) = length (ck_table ck ! r)"
    "\<And>c j. c < length (ck_table ck ! r) \<Longrightarrow> j < length pages \<Longrightarrow> ck_table ck ! r ! c = int (pages ! j) \<Longrightarrow> fake ! k ! c = j"
    using fake_table_value [OF pages members tab] fake req(2) unfolding r_def by (metis (no_types, lifting) Inr_inject)
  obtain r' where r': "query_request (ck_cu ck) (int i) = Inr r'" "r' = r" using chunk_request [OF ok i] req(3-5) unfolding r_def by metis
  have keys: "block_keys (map f ?st) (map g ?st) (int_rows fake ! k) h qa s b = block_keys (map f ?all) (map g ?all) (ck_table ck ! r) h qa s b"
    if "h < heads" "b \<in> set (ck_topk ck ! h ! i)" "0 \<le> b" for f g :: "staged_page \<Rightarrow> staged_page" and h qa s b
  proof -
    note cb = chunk_block [OF ok req(3) that(1) i that(2,3), folded r_def]
    have "nat (ck_table ck ! r ! nat b) \<in> set pages" using sel [OF that(1) req(3-5) that(2,3)] unfolding r_def .
    then obtain j where j: "j < length pages" "pages ! j = nat (ck_table ck ! r ! nat b)" by (auto simp: in_set_conv_nth)
    have "fake ! k ! nat b = j" using fk(4) [OF cb(1) j(1)] j(2) cb(2) by simp
    then show ?thesis
      using cb j fk(2,3) req(2) that(3)
      by (intro block_keys_staged(1) [where p = "nat (ck_table ck ! r ! nat b)" and j = j]) (simp_all add: int_rows_def nat_less_iff)
  qed
  have lhs: "query_output attend zero num_heads (map (map (map (take HEAD_DIM))) ?st) (map (map (map (drop HEAD_DIM))) ?st) heads (int_rows fake) topk' cu' seq' prefix' q' i' =
    bind_res (map_res (\<lambda>h. head_output attend zero (map (map (map (take HEAD_DIM))) ?st) (map (map (map (drop HEAD_DIM))) ?st) (q' ! i') (num_heads div heads)
        (int_rows fake ! k) (topk' ! h ! i') (prefix' ! k + (int i' - cu' ! k)) (seq' ! k) h) [0..<heads])
      (\<lambda>outs. Inr (concat outs @ replicate (num_heads - heads * (num_heads div heads)) zero))"
    by (rule query_output_at [OF req(1) sq(1,2)]) (use fk(2) req(2) q(2) in \<open>auto simp: int_rows_def\<close>)
  have rhs: "oracle_row attend zero num_heads heads bf16 pool ck i =
    bind_res (map_res (\<lambda>h. head_output attend zero (map (map (map (take HEAD_DIM))) ?all) (map (map (map (drop HEAD_DIM))) ?all) (ck_q ck ! i) (num_heads div heads)
        (ck_table ck ! r) (ck_topk ck ! h ! i) (ck_prefix ck ! r + (int i - ck_cu ck ! r)) (ck_seq ck ! r) h) [0..<heads])
      (\<lambda>outs. Inr (concat outs @ replicate (num_heads - heads * (num_heads div heads)) zero))"
    unfolding oracle_row_def by (rule query_output_at [OF r'(1) [unfolded r'(2)]]) (use l req(3) chunk_heads [OF ok _ i] in \<open>auto simp: r_def\<close>)
  have "map_res (\<lambda>h. head_output attend zero (map (map (map (take HEAD_DIM))) ?st) (map (map (map (drop HEAD_DIM))) ?st) (q' ! i') (num_heads div heads)
        (int_rows fake ! k) (topk' ! h ! i') (prefix' ! k + (int i' - cu' ! k)) (seq' ! k) h) [0..<heads] =
      map_res (\<lambda>h. head_output attend zero (map (map (map (take HEAD_DIM))) ?all) (map (map (map (drop HEAD_DIM))) ?all) (ck_q ck ! i) (num_heads div heads)
        (ck_table ck ! r) (ck_topk ck ! h ! i) (ck_prefix ck ! r + (int i - ck_cu ck ! r)) (ck_seq ck ! r) h) [0..<heads]"
  proof (rule map_res_cong [OF refl])
    fix h assume "h \<in> set [0..<heads]"
    then have h: "h < heads" by simp
    have e: "q' ! i' = ck_q ck ! i" "topk' ! h ! i' = ck_topk ck ! h ! i" "prefix' ! k + (int i' - cu' ! k) = ck_prefix ck ! r + (int i - ck_cu ck ! r)"
      "seq' ! k = ck_seq ck ! r" using q h pos sq(3) unfolding r_def by blast+
    show "head_output attend zero (map (map (map (take HEAD_DIM))) ?st) (map (map (map (drop HEAD_DIM))) ?st) (q' ! i') (num_heads div heads)
        (int_rows fake ! k) (topk' ! h ! i') (prefix' ! k + (int i' - cu' ! k)) (seq' ! k) h =
      head_output attend zero (map (map (map (take HEAD_DIM))) ?all) (map (map (map (drop HEAD_DIM))) ?all) (ck_q ck ! i) (num_heads div heads)
        (ck_table ck ! r) (ck_topk ck ! h ! i) (ck_prefix ck ! r + (int i - ck_cu ck ! r)) (ck_seq ck ! r) h"
      unfolding e by (rule head_output_cong) (rule keys [OF h])
  qed
  then show ?thesis unfolding lhs rhs by simp
qed

section \<open>A call on the staged pages of a slice\<close>

lemma chunk_prefill:
  assumes "chunk_ok pool heads ck"
  shows "heads_shaped (plan_args pool ck)" "pc_cu (plan_args pool ck) = ck_cu ck" "pc_total_q (plan_args pool ck) = length (ck_q ck)"
    "pc_nb (plan_args pool ck) = length (qp_flat pool)"
  using assms by (auto simp: heads_shaped_def plan_args_def list_all_iff chunk_ok_def)

lemma chunk_boundary: "chunk_ok pool heads ck \<Longrightarrow> r < length (ck_cu ck) \<Longrightarrow> 0 \<le> ck_cu ck ! r"
proof (induction r)
  case (Suc r)
  then have "0 \<le> ck_cu ck ! r" by simp
  moreover have "ck_cu ck ! r < ck_cu ck ! Suc r" using Suc.prems by (simp add: chunk_ok_def)
  ultimately show ?case by simp
qed (simp add: chunk_ok_def)

text \<open>What the planner says of a slice, in the terms of the chunk.\<close>

lemma slice_facts:
  assumes ok: "chunk_ok pool heads ck" and plan: "plan_prefill_slices (plan_args pool ck) heads max_pages = Inr sls" and sl: "sl \<in> set sls"
  obtains rs re where "sl_reqs sl = [rs..<re]" "rs < re" "re \<le> length (ck_cu ck) - 1" "sl_lo sl < sl_hi sl" "sl_hi sl \<le> length (ck_q ck)"
    "distinct (sl_pages sl)" "\<forall>p \<in> set (sl_pages sl). p < length (qp_flat pool)" "sl_n sl = length (sl_pages sl)"
    "\<And>h b r i. h < heads \<Longrightarrow> sl_lo sl \<le> i \<Longrightarrow> i < sl_hi sl \<Longrightarrow> r < length (ck_cu ck) - 1 \<Longrightarrow> ck_cu ck ! r \<le> int i \<Longrightarrow> int i < ck_cu ck ! Suc r \<Longrightarrow>
        b \<in> set (ck_topk ck ! h ! i) \<Longrightarrow> 0 \<le> b \<Longrightarrow> nat (ck_table ck ! r ! nat b) \<in> set (sl_pages sl)"
proof -
  let ?pc = "plan_args pool ck" and ?n = "length (ck_cu ck) - 1" and ?c = "\<lambda>r. nat (ck_cu ck ! r)"
  note pc = chunk_prefill [OF ok]
  note parts = plan_parts [OF plan pc(1), unfolded pc]
  have ex: "slice_exact (length (qp_flat pool)) (nat max_pages) ?c ?n (call_pages ?pc) sl" using parts(6) sl by blast
  then obtain rs re where r: "sl_reqs sl = [rs..<re]" "rs < re" "re \<le> ?n" "?c rs \<le> sl_lo sl" "sl_lo sl \<le> sl_hi sl" "sl_hi sl \<le> ?c re"
    "sl_lo sl = ?c rs \<and> sl_hi sl = ?c re \<or> re = Suc rs \<and> sl_lo sl < sl_hi sl"
    unfolding slice_exact_def by blast
  have pages: "set (sl_pages sl) = {p. p < length (qp_flat pool) \<and> (\<exists>j. sl_lo sl \<le> j \<and> j < sl_hi sl \<and> selects (call_pages ?pc) j p)}"
    "distinct (sl_pages sl)" "sl_n sl = length (sl_pages sl)" using ex unfolding slice_exact_def by blast+
  have lt: "?c rs < ?c re"
  proof -
    have "ck_cu ck ! rs < ck_cu ck ! Suc rs" using ok r(2,3) by (auto simp: chunk_ok_def)
    moreover have "0 < ck_cu ck ! Suc rs"
      using \<open>ck_cu ck ! rs < ck_cu ck ! Suc rs\<close> chunk_boundary [OF ok, of rs] r(2,3) by linarith
    ultimately have "?c rs < ?c (Suc rs)" by simp
    also have "?c (Suc rs) \<le> ?c re" using boundaries_mono [OF parts(1), of "Suc rs" re] r(2,3) by simp
    finally show ?thesis .
  qed
  have hi: "sl_hi sl \<le> length (ck_q ck)" using r(3,6) boundaries_mono [OF parts(1), of re ?n] parts(2) by simp
  obtain bm phys where ph: "selected_page_bitmap ?pc = Inr (bm, phys)"
    "\<And>h i r b. h < heads \<Longrightarrow> i < length (ck_q ck) \<Longrightarrow> r < ?n \<Longrightarrow> ck_cu ck ! r \<le> int i \<Longrightarrow> int i < ck_cu ck ! Suc r \<Longrightarrow>
      b \<in> set (ck_topk ck ! h ! i) \<Longrightarrow> 0 \<le> b \<Longrightarrow> selects phys i (nat (ck_table ck ! r ! nat b))"
    using chunk_phys [OF ok] by metis
  have "nat (ck_table ck ! r ! nat b) \<in> set (sl_pages sl)"
    if "h < heads" "sl_lo sl \<le> i" "i < sl_hi sl" "r < ?n" "ck_cu ck ! r \<le> int i" "int i < ck_cu ck ! Suc r" "b \<in> set (ck_topk ck ! h ! i)" "0 \<le> b" for h b r i
  proof -
    have i: "i < length (ck_q ck)" using that(3) hi by simp
    have "selects (call_pages ?pc) i (nat (ck_table ck ! r ! nat b))" using ph(2) [OF that(1) i that(4-8)] ph(1) by (simp add: call_pages_def)
    moreover have "nat (ck_table ck ! r ! nat b) < length (qp_flat pool)" using chunk_block(2,3) [OF ok that(4,1) i that(7,8)] by (simp add: nat_less_iff)
    ultimately show ?thesis using that(2,3) unfolding pages(1) by blast
  qed
  moreover have "sl_lo sl < sl_hi sl" using r(7) lt by auto
  ultimately show thesis using that r(1-3) hi pages by auto
qed

lemma metadata_lengths:
  "prefill_slice_metadata sl cu prefix = Inr (cu', prefix', longest) \<Longrightarrow> length prefix' = length (sl_reqs sl)"
  by (auto simp: prefill_slice_metadata_def Let_def split: if_splits)

lemma slice_rows_simps:
  assumes "hi \<le> length xs"
  shows "length (slice_rows lo hi xs) = hi - lo" "i < hi - lo \<Longrightarrow> slice_rows lo hi xs ! i = xs ! (lo + i)"
  using assms by (simp_all add: slice_rows_def)

lemma upt_shift: "lo \<le> hi \<Longrightarrow> [lo..<hi] = map ((+) lo) [0..<hi - lo]"
  by (rule nth_equalityI) simp_all

text \<open>The kernel on a slice's pages computes the oracle's rows of the slice's queries.\<close>

lemma slice_kernel:
  assumes ok: "chunk_ok pool heads ck" and plan: "plan_prefill_slices (plan_args pool ck) heads max_pages = Inr sls" and sl: "sl \<in> set sls"
    and fake: "slice_fake_block_table (ck_table ck) (sl_reqs sl) (sl_pages sl) (length (sl_pages sl)) (length (qp_flat pool)) = Inr fake"
    and meta: "prefill_slice_metadata sl (ck_cu ck) (ck_prefix ck) = Inr (cu', prefix', longest)"
  shows "attn_kernel attend zero num_heads heads (slice_rows (sl_lo sl) (sl_hi sl) (ck_q ck)) (map (staged bf16 pool) (sl_pages sl) @ [z])
      (map (slice_rows (sl_lo sl) (sl_hi sl)) (ck_topk ck)) (int_rows fake) cu' (slice_rows (hd (sl_reqs sl)) (last (sl_reqs sl) + 1) (ck_seq ck)) prefix' mx =
    map_res (oracle_row attend zero num_heads heads bf16 pool ck) [sl_lo sl..<sl_hi sl]"
proof -
  let ?lo = "sl_lo sl" and ?hi = "sl_hi sl" and ?n = "length (ck_cu ck) - 1"
  obtain rs re where r: "sl_reqs sl = [rs..<re]" "rs < re" "re \<le> ?n" "?lo < ?hi" "?hi \<le> length (ck_q ck)"
    "distinct (sl_pages sl)" "\<forall>p \<in> set (sl_pages sl). p < length (qp_flat pool)" "sl_n sl = length (sl_pages sl)"
    and sel: "\<And>h b r i. h < heads \<Longrightarrow> ?lo \<le> i \<Longrightarrow> i < ?hi \<Longrightarrow> r < ?n \<Longrightarrow> ck_cu ck ! r \<le> int i \<Longrightarrow> int i < ck_cu ck ! Suc r \<Longrightarrow>
        b \<in> set (ck_topk ck ! h ! i) \<Longrightarrow> 0 \<le> b \<Longrightarrow> nat (ck_table ck ! r ! nat b) \<in> set (sl_pages sl)"
    by (rule slice_facts [OF ok plan sl]) blast
  have l: "length (ck_table ck) = ?n" "length (ck_seq ck) = ?n" "length (ck_prefix ck) = ?n" "0 < heads" "length (ck_topk ck) = heads"
    "\<forall>head \<in> set (ck_topk ck). length head = length (ck_q ck)" "ck_cu ck \<noteq> []"
    using ok unfolding chunk_ok_def by blast+
  have inc: "\<forall>r. Suc r < length (pc_cu (plan_args pool ck)) \<longrightarrow> pc_cu (plan_args pool ck) ! r < pc_cu (plan_args pool ck) ! Suc r"
    "length (pc_cu (plan_args pool ck)) \<le> Suc (length (ck_prefix ck))"
    "\<forall>p \<in> set (ck_prefix ck). 0 \<le> p \<and> p + int (pc_total_q (plan_args pool ck)) < 2 ^ 31"
    using ok unfolding chunk_ok_def chunk_prefill [OF ok] by auto
  from slice_positions [OF plan chunk_prefill(1) [OF ok] sl inc]
  have pos: "length cu' = Suc (length (sl_reqs sl))" "cu' ! 0 = 0" "last cu' = int ?hi - int ?lo"
    "\<And>k j. k < length (sl_reqs sl) \<Longrightarrow> cu' ! k \<le> j - int ?lo \<Longrightarrow> j - int ?lo < cu' ! Suc k \<Longrightarrow>
        ck_cu ck ! (sl_reqs sl ! k) \<le> j \<and> j < ck_cu ck ! Suc (sl_reqs sl ! k) \<and>
        prefix' ! k + (j - int ?lo - cu' ! k) = ck_prefix ck ! (sl_reqs sl ! k) + (j - ck_cu ck ! (sl_reqs sl ! k))"
    unfolding chunk_prefill [OF ok] meta by auto
  have seq: "hd (sl_reqs sl) = rs" "last (sl_reqs sl) + 1 = re" using r(1,2) by (simp_all add: hd_upt last_upt)
  have row: "query_output attend zero num_heads (map (map (map (take HEAD_DIM))) (map (staged bf16 pool) (sl_pages sl) @ [z]))
      (map (map (map (drop HEAD_DIM))) (map (staged bf16 pool) (sl_pages sl) @ [z])) heads (int_rows fake) (map (slice_rows ?lo ?hi) (ck_topk ck)) cu'
      (slice_rows rs re (ck_seq ck)) prefix' (slice_rows ?lo ?hi (ck_q ck)) i' =
    oracle_row attend zero num_heads heads bf16 pool ck (?lo + i')" if i': "i' < ?hi - ?lo" for i'
  proof -
    have "int i' < last cu'" using pos(3) i' by linarith
    moreover have "cu' \<noteq> []" using pos(1) by auto
    ultimately obtain k where k: "query_request cu' (int i') = Inr k" "k < length cu' - 1" "cu' ! k \<le> int i'" "int i' < cu' ! Suc k"
      using query_request_found [of cu' "int i'"] pos(2) by auto
    have kr: "k < length (sl_reqs sl)" "sl_reqs sl ! k = rs + k" "rs + k < re" using k(2) pos(1) r(1) by simp_all
    have p: "ck_cu ck ! (sl_reqs sl ! k) \<le> int (?lo + i') \<and> int (?lo + i') < ck_cu ck ! Suc (sl_reqs sl ! k) \<and>
        prefix' ! k + (int (?lo + i') - int ?lo - cu' ! k) = ck_prefix ck ! (sl_reqs sl ! k) + (int (?lo + i') - ck_cu ck ! (sl_reqs sl ! k))"
      by (rule pos(4) [OF kr(1)]) (use k(3,4) in simp_all)
    show ?thesis
    proof (rule slice_row [OF ok _ r(6,7) _ _ fake k(1) kr(1)])
      show "?lo + i' < length (ck_q ck)" using i' r(5) by linarith
      show "\<forall>m \<in> set (sl_reqs sl). m < length (ck_table ck)" using r(1,3) l(1) by auto
      show "nat (ck_table ck ! r ! nat b) \<in> set (sl_pages sl)"
        if "h < heads" "r < ?n" "ck_cu ck ! r \<le> int (?lo + i')" "int (?lo + i') < ck_cu ck ! Suc r" "b \<in> set (ck_topk ck ! h ! (?lo + i'))" "0 \<le> b" for h b r
        by (rule sel [OF that(1) _ _ that(2-6)]) (use i' in simp_all)
      show "sl_reqs sl ! k < ?n" using kr(2,3) r(3) by simp
      show "ck_cu ck ! (sl_reqs sl ! k) \<le> int (?lo + i')" "int (?lo + i') < ck_cu ck ! Suc (sl_reqs sl ! k)" using p by blast+
      show "prefix' ! k + (int i' - cu' ! k) = ck_prefix ck ! (sl_reqs sl ! k) + (int (?lo + i') - ck_cu ck ! (sl_reqs sl ! k))" using p by simp
      show "k < length prefix'" using metadata_lengths [OF meta] kr(1) by simp
      show "k < length (slice_rows rs re (ck_seq ck))" "slice_rows rs re (ck_seq ck) ! k = ck_seq ck ! (sl_reqs sl ! k)"
        using slice_rows_simps(1) [of re "ck_seq ck" rs] slice_rows_simps(2) [of re "ck_seq ck" k rs] kr(2,3) r(3) l(2) by simp_all
      show "slice_rows ?lo ?hi (ck_q ck) ! i' = ck_q ck ! (?lo + i')" using slice_rows_simps(2) [OF r(5) i'] .
      show "h < length (map (slice_rows ?lo ?hi) (ck_topk ck)) \<and> i' < length (map (slice_rows ?lo ?hi) (ck_topk ck) ! h) \<and>
          map (slice_rows ?lo ?hi) (ck_topk ck) ! h ! i' = ck_topk ck ! h ! (?lo + i')" if "h < heads" for h
      proof -
        have "ck_topk ck ! h \<in> set (ck_topk ck)" using that l(5) by simp
        then have hi: "?hi \<le> length (ck_topk ck ! h)" using l(6) r(5) by simp
        have h: "h < length (ck_topk ck)" using that l(5) by simp
        show ?thesis unfolding length_map nth_map [OF h] slice_rows_simps(1) [OF hi] slice_rows_simps(2) [OF hi i'] using h i' by blast
      qed
    qed
  qed
  have shift: "[?lo..<?hi] = map ((+) ?lo) [0..<?hi - ?lo]" by (rule upt_shift) (use r(4) in simp)
  have len: "length (slice_rows ?lo ?hi (ck_q ck)) = ?hi - ?lo" by (rule slice_rows_simps(1) [OF r(5)])
  have "heads \<noteq> 0" using l(4) by simp
  then show ?thesis
    unfolding attn_kernel_def reference_prefill_attention_def seq len shift map_res_map
    by (simp only: if_False) (rule map_res_cong [OF refl], rule row, simp)
qed

text \<open>The kernel on the pages of the whole chunk, with the metadata passed on unchanged.\<close>

lemma full_kernel:
  assumes ok: "chunk_ok pool heads ck" and plan: "plan_prefill_slices (plan_args pool ck) heads max_pages = Inr sls" and sl: "sl \<in> set sls"
    and whole: "sl_reqs sl = [0..<length (ck_cu ck) - 1]" "sl_lo sl = 0" "sl_hi sl = length (ck_q ck)"
    and fake: "slice_fake_block_table (ck_table ck) (sl_reqs sl) (sl_pages sl) (length (sl_pages sl)) (length (qp_flat pool)) = Inr fake"
  shows "attn_kernel attend zero num_heads heads (ck_q ck) (map (staged bf16 pool) (sl_pages sl) @ [z]) (ck_topk ck) (int_rows fake)
      (ck_cu ck) (ck_seq ck) (ck_prefix ck) mx =
    map_res (oracle_row attend zero num_heads heads bf16 pool ck) [0..<length (ck_q ck)]"
proof -
  let ?n = "length (ck_cu ck) - 1"
  obtain rs re where r: "distinct (sl_pages sl)" "\<forall>p \<in> set (sl_pages sl). p < length (qp_flat pool)"
    and sel: "\<And>h b r i. h < heads \<Longrightarrow> sl_lo sl \<le> i \<Longrightarrow> i < sl_hi sl \<Longrightarrow> r < ?n \<Longrightarrow> ck_cu ck ! r \<le> int i \<Longrightarrow> int i < ck_cu ck ! Suc r \<Longrightarrow>
        b \<in> set (ck_topk ck ! h ! i) \<Longrightarrow> 0 \<le> b \<Longrightarrow> nat (ck_table ck ! r ! nat b) \<in> set (sl_pages sl)"
    by (rule slice_facts [OF ok plan sl]) blast
  have l: "length (ck_table ck) = ?n" "length (ck_seq ck) = ?n" "length (ck_prefix ck) = ?n" "0 < heads"
    using ok unfolding chunk_ok_def by blast+
  have row: "query_output attend zero num_heads (map (map (map (take HEAD_DIM))) (map (staged bf16 pool) (sl_pages sl) @ [z]))
      (map (map (map (drop HEAD_DIM))) (map (staged bf16 pool) (sl_pages sl) @ [z])) heads (int_rows fake) (ck_topk ck) (ck_cu ck)
      (ck_seq ck) (ck_prefix ck) (ck_q ck) i =
    oracle_row attend zero num_heads heads bf16 pool ck i" if i: "i < length (ck_q ck)" for i
  proof -
    obtain k where k: "query_request (ck_cu ck) (int i) = Inr k" "k < ?n" "ck_cu ck ! k \<le> int i" "int i < ck_cu ck ! Suc k"
      using chunk_request [OF ok i] by metis
    have at: "sl_reqs sl ! k = k" "k < length (sl_reqs sl)" using k(2) whole(1) by simp_all
    show ?thesis
    proof (rule slice_row [OF ok i r _ _ fake k(1) at(2)])
      show "nat (ck_table ck ! r ! nat b) \<in> set (sl_pages sl)"
        if "h < heads" "r < ?n" "ck_cu ck ! r \<le> int i" "int i < ck_cu ck ! Suc r" "b \<in> set (ck_topk ck ! h ! i)" "0 \<le> b" for h b r
        by (rule sel [OF that(1) _ _ that(2-6)]) (use i whole(2,3) in simp_all)
      show "\<forall>m \<in> set (sl_reqs sl). m < length (ck_table ck)" using whole(1) l(1) by auto
      show "h < length (ck_topk ck) \<and> i < length (ck_topk ck ! h) \<and> ck_topk ck ! h ! i = ck_topk ck ! h ! i" if "h < heads" for h
        using chunk_heads [OF ok that i] by blast
    qed (use at k l in simp_all)
  qed
  have "heads \<noteq> 0" using l(4) by simp
  then show ?thesis
    unfolding attn_kernel_def reference_prefill_attention_def by (simp only: if_False) (rule map_res_cong [OF refl], rule row, simp)
qed

section \<open>The fills the wrapper can use\<close>

lemma zero_page_shape: "page_shape heads (zero_page heads)"
  by (simp add: zero_page_def page_shape_def geometry_defs)

text \<open>What the wrapper relies on: the selected pages in front, one zero page, the rest of the buffer as it was.\<close>

locale staging_fill =
  fixes fill :: "staged_page list \<Rightarrow> q4_pool \<Rightarrow> nat list \<Rightarrow> (nat \<times> staged_page list) res" and bf16 :: "number \<Rightarrow> number"
  assumes fill_stages: "pool_ok pool \<Longrightarrow> qp_slots pool = 2 * heads \<Longrightarrow> qp_tokens pool = 128 \<Longrightarrow> qp_width pool = 72 \<Longrightarrow>
    \<forall>p \<in> set pages. p < length (qp_flat pool) \<Longrightarrow> length pages < length buffer \<Longrightarrow> \<forall>page \<in> set buffer. page_shape heads page \<Longrightarrow>
    fill buffer pool pages = Inr (length pages, map (staged bf16 pool) pages @ zero_page heads # drop (Suc (length pages)) buffer)"
begin

text \<open>Filling for a slice of the plan, and remapping its table.\<close>

lemma stage_slice:
  assumes ok: "chunk_ok pool heads ck" and plan: "plan_prefill_slices (plan_args pool ck) heads max_pages = Inr sls" and sl: "sl \<in> set sls"
    and buf: "sl_n sl < length buffer" "\<forall>page \<in> set buffer. page_shape heads page"
  obtains buffer' fake where "fill buffer pool (sl_pages sl) = Inr (length (sl_pages sl), buffer')"
    "take (length (sl_pages sl) + 1) buffer' = map (staged bf16 pool) (sl_pages sl) @ [zero_page heads]"
    "length buffer' = length buffer" "\<forall>page \<in> set buffer'. page_shape heads page"
    "slice_fake_block_table (ck_table ck) (sl_reqs sl) (sl_pages sl) (length (sl_pages sl)) (length (qp_flat pool)) = Inr fake"
proof -
  let ?ps = "sl_pages sl"
  obtain rs re where r: "sl_reqs sl = [rs..<re]" "re \<le> length (ck_cu ck) - 1" "distinct ?ps" "\<forall>p \<in> set ?ps. p < length (qp_flat pool)"
    "sl_n sl = length ?ps" by (rule slice_facts [OF ok plan sl]) blast
  have l: "pool_ok pool" "qp_slots pool = 2 * heads" "qp_tokens pool = 128" "qp_width pool = 72"
    "\<forall>row \<in> set (ck_table ck). \<forall>p \<in> set row. 0 \<le> p \<and> p < int (length (qp_flat pool))" "length (ck_table ck) = length (ck_cu ck) - 1"
    using ok unfolding chunk_ok_def by blast+
  have n: "length ?ps < length buffer" using buf(1) r(5) by simp
  define buffer' where "buffer' = map (staged bf16 pool) ?ps @ zero_page heads # drop (Suc (length ?ps)) buffer"
  have "fill buffer pool ?ps = Inr (length ?ps, buffer')" unfolding buffer'_def by (rule fill_stages [OF l(1-4) r(4) n buf(2)])
  moreover have "page_shape heads page" if "page \<in> set buffer'" for page
    using that staged_shape [OF l(1) _ l(2)] r(4) buf(2) in_set_dropD [of page _ buffer] zero_page_shape [of heads]
    by (auto simp: buffer'_def)
  moreover obtain fake where "slice_fake_block_table (ck_table ck) (sl_reqs sl) ?ps (length ?ps) (length (qp_flat pool)) = Inr fake"
    by (rule fake_table_value [OF r(3,4) _ l(5), of "sl_reqs sl"]) (use r(1,2) l(6) in auto)
  ultimately show thesis using that n by (auto simp: buffer'_def)
qed

end

text \<open>The rows a slice writes.\<close>

lemma map_res_slice:
  assumes "map_res f [0..<n] = Inr ys" "lo \<le> hi" "hi \<le> n"
  shows "map_res f [lo..<hi] = Inr (slice_rows lo hi ys)"
proof -
  have ys: "length ys = n" "\<And>i. i < n \<Longrightarrow> f i = Inr (ys ! i)"
    using assms(1) by (auto simp: map_res_Inr_iff list_all2_conv_all_nth)
  have hi: "hi \<le> length ys" using assms(3) ys(1) by simp
  show ?thesis
    unfolding map_res_Inr_iff list_all2_conv_all_nth using assms(2,3) ys(2) slice_rows_simps [OF hi] by simp
qed

lemma overwrite_rows:
  assumes "length out = n" "length ys = n" "lo \<le> hi" "hi \<le> n"
  shows "length (overwrite out lo (slice_rows lo hi ys)) = n"
    "take hi (overwrite out lo (slice_rows lo hi ys)) @ drop hi ys = take lo out @ drop lo ys"
proof -
  have s: "length (slice_rows lo hi ys) = hi - lo" using assms(2,4) by (simp add: slice_rows_simps)
  show "length (overwrite out lo (slice_rows lo hi ys)) = n" using assms s by (simp add: overwrite_def)
  have "drop lo ys = slice_rows lo hi ys @ drop hi ys"
    using assms(3) append_take_drop_id [of "hi - lo" "drop lo ys"] by (simp add: slice_rows_def)
  then show "take hi (overwrite out lo (slice_rows lo hi ys)) @ drop hi ys = take lo out @ drop lo ys"
    using assms s by (simp add: overwrite_def)
qed

context staging_fill
begin

lemma slice_run:
  assumes ok: "chunk_ok pool heads ck" and plan: "plan_prefill_slices (plan_args pool ck) heads max_pages = Inr sls" and sl: "sl \<in> set sls"
    and buf: "sl_n sl < length buffer" "\<forall>page \<in> set buffer. page_shape heads page"
    and rows: "map_res (oracle_row attend zero num_heads heads bf16 pool ck) [0..<length (ck_q ck)] = Inr ys"
  obtains buffer' where
    "run_slice fill (attn_kernel attend zero num_heads heads) pool ck (buffer, out) sl =
       Inr (buffer', overwrite out (sl_lo sl) (slice_rows (sl_lo sl) (sl_hi sl) ys))"
    "length buffer' = length buffer" "\<forall>page \<in> set buffer'. page_shape heads page"
proof -
  obtain buffer' fake where st: "fill buffer pool (sl_pages sl) = Inr (length (sl_pages sl), buffer')"
    "take (length (sl_pages sl) + 1) buffer' = map (staged bf16 pool) (sl_pages sl) @ [zero_page heads]"
    "length buffer' = length buffer" "\<forall>page \<in> set buffer'. page_shape heads page"
    "slice_fake_block_table (ck_table ck) (sl_reqs sl) (sl_pages sl) (length (sl_pages sl)) (length (qp_flat pool)) = Inr fake"
    using stage_slice [OF ok plan sl buf] by metis
  have inc: "\<forall>r. Suc r < length (pc_cu (plan_args pool ck)) \<longrightarrow> pc_cu (plan_args pool ck) ! r < pc_cu (plan_args pool ck) ! Suc r"
    "length (pc_cu (plan_args pool ck)) \<le> Suc (length (ck_prefix ck))"
    "\<forall>p \<in> set (ck_prefix ck). 0 \<le> p \<and> p + int (pc_total_q (plan_args pool ck)) < 2 ^ 31"
    using ok unfolding chunk_ok_def chunk_prefill [OF ok] by auto
  obtain cu' prefix' longest where meta: "prefill_slice_metadata sl (ck_cu ck) (ck_prefix ck) = Inr (cu', prefix', longest)"
    using slice_positions [OF plan chunk_prefill(1) [OF ok] sl inc] unfolding chunk_prefill [OF ok] by blast
  have b: "sl_lo sl < sl_hi sl" "sl_hi sl \<le> length (ck_q ck)" by (rule slice_facts [OF ok plan sl]; blast)+
  have "attn_kernel attend zero num_heads heads (slice_rows (sl_lo sl) (sl_hi sl) (ck_q ck)) (take (length (sl_pages sl) + 1) buffer')
      (map (slice_rows (sl_lo sl) (sl_hi sl)) (ck_topk ck)) (int_rows fake) cu' (slice_rows (hd (sl_reqs sl)) (last (sl_reqs sl) + 1) (ck_seq ck))
      prefix' longest = Inr (slice_rows (sl_lo sl) (sl_hi sl) ys)"
    unfolding st(2) slice_kernel [OF ok plan sl st(5) meta] by (rule map_res_slice [OF rows]) (use b in simp_all)
  then show thesis
    using that st(1,3,4,5) meta by (simp add: run_slice_def)
qed

text \<open>The slices from row \<open>a\<close> on replace the rows from \<open>a\<close> on.\<close>

lemma slices_run:
  assumes ok: "chunk_ok pool heads ck" and plan: "plan_prefill_slices (plan_args pool ck) heads max_pages = Inr sls"
    and rows: "map_res (oracle_row attend zero num_heads heads bf16 pool ck) [0..<length (ck_q ck)] = Inr ys"
  shows "set rest \<subseteq> set sls \<Longrightarrow> slice_queries rest = [a..<length (ck_q ck)] \<Longrightarrow> a \<le> length (ck_q ck) \<Longrightarrow>
    \<forall>sl \<in> set rest. sl_n sl < length buffer \<Longrightarrow> \<forall>page \<in> set buffer. page_shape heads page \<Longrightarrow> length out = length (ck_q ck) \<Longrightarrow>
    \<exists>buffer'. fold_res (run_slice fill (attn_kernel attend zero num_heads heads) pool ck) (buffer, out) rest = Inr (buffer', take a out @ drop a ys)"
proof (induction rest arbitrary: a buffer out)
  case Nil
  then have "[a..<length (ck_q ck)] = []" by simp
  then have "a = length (ck_q ck)" using Nil.prems(3) by auto
  moreover have "length ys = length (ck_q ck)" using rows by (auto simp: map_res_Inr_iff list_all2_conv_all_nth)
  ultimately show ?case using Nil.prems(6) by simp
next
  case (Cons sl rest)
  have ys: "length ys = length (ck_q ck)" using rows by (auto simp: map_res_Inr_iff list_all2_conv_all_nth)
  have sl: "sl \<in> set sls" "sl_n sl < length buffer" using Cons.prems(1,4) by simp_all
  have b: "sl_lo sl < sl_hi sl" "sl_hi sl \<le> length (ck_q ck)" by (rule slice_facts [OF ok plan sl(1)]; blast)+
  obtain buffer' where run: "run_slice fill (attn_kernel attend zero num_heads heads) pool ck (buffer, out) sl =
       Inr (buffer', overwrite out (sl_lo sl) (slice_rows (sl_lo sl) (sl_hi sl) ys))"
    "length buffer' = length buffer" "\<forall>page \<in> set buffer'. page_shape heads page"
    using slice_run [OF ok plan sl Cons.prems(5) rows] by metis
  have q: "[sl_lo sl..<sl_hi sl] @ slice_queries rest = [a..<length (ck_q ck)]" using Cons.prems(2) by simp
  then have lo: "sl_lo sl = a" using b(1) by (cases "a < length (ck_q ck)") (auto simp: upt_conv_Cons)
  have "[a..<length (ck_q ck)] = [a..<sl_hi sl] @ [sl_hi sl..<length (ck_q ck)]"
    using b lo upt_add_eq_append [of a "sl_hi sl" "length (ck_q ck) - sl_hi sl"] by simp
  then have "slice_queries rest = [sl_hi sl..<length (ck_q ck)]" using q lo by simp
  note ov = overwrite_rows [OF Cons.prems(6) ys, of "sl_lo sl" "sl_hi sl"]
  obtain buffer'' where "fold_res (run_slice fill (attn_kernel attend zero num_heads heads) pool ck)
      (buffer', overwrite out (sl_lo sl) (slice_rows (sl_lo sl) (sl_hi sl) ys)) rest =
      Inr (buffer'', take (sl_hi sl) (overwrite out (sl_lo sl) (slice_rows (sl_lo sl) (sl_hi sl) ys)) @ drop (sl_hi sl) ys)"
    using Cons.IH [OF _ \<open>slice_queries rest = _\<close> b(2), of buffer' "overwrite out (sl_lo sl) (slice_rows (sl_lo sl) (sl_hi sl) ys)"]
      Cons.prems(1,4) run(2,3) ov(1) b by auto
  moreover have "take (sl_hi sl) (overwrite out (sl_lo sl) (slice_rows (sl_lo sl) (sl_hi sl) ys)) @ drop (sl_hi sl) ys = take a out @ drop a ys"
    using ov(2) b lo by simp
  ultimately show ?case using run(1) by simp
qed

end

text \<open>The buffer of the wrapper has room for the plan, and pages of the right shape.\<close>

lemma staging_buffer_shape:
  assumes "\<forall>buf. bufs (dev, heads) = Some buf \<longrightarrow> (\<forall>page \<in> set buf. page_shape heads page)"
    and "staging_buffer bufs dev cap heads = (buffer, bufs')"
  shows "cap < length buffer" "\<forall>page \<in> set buffer. page_shape heads page"
  using assms zero_page_shape [of heads] by (auto simp: staging_buffer_def Let_def split: option.splits if_splits)

context staging_fill
begin

lemma prefill_rows:
  assumes ok: "chunk_ok pool heads ck" and cap: "1 \<le> cap"
    and bufs: "\<forall>buf. bufs (dev, heads) = Some buf \<longrightarrow> (\<forall>page \<in> set buf. page_shape heads page)"
    and out: "length out = length (ck_q ck)"
    and rows: "map_res (oracle_row attend zero num_heads heads bf16 pool ck) [0..<length (ck_q ck)] = Inr ys"
  shows "\<exists>bufs'. prefill_body plan_prefill_slices fill (attn_kernel attend zero num_heads heads) (Inr cap) bufs dev pool heads ck out = Inr (ys, bufs')"
proof -
  obtain sls where plan: "plan_prefill_slices (plan_args pool ck) heads (int cap) = Inr sls" using chunk_plan [OF ok, of "int cap"] cap by auto
  define needed where "needed = Max (insert 0 (sl_n ` set sls))"
  obtain buffer bufs1 where sb: "staging_buffer bufs dev (max cap needed) heads = (buffer, bufs1)" by force
  note shape = staging_buffer_shape [OF bufs sb]
  have room: "\<forall>sl \<in> set sls. sl_n sl < length buffer"
  proof
    fix sl assume "sl \<in> set sls"
    then have "sl_n sl \<le> needed" unfolding needed_def by (intro Max_ge) auto
    then show "sl_n sl < length buffer" using shape(1) by simp
  qed
  have ys: "length ys = length (ck_q ck)" using rows by (auto simp: map_res_Inr_iff list_all2_conv_all_nth)
  show ?thesis
  proof (cases "full_batch ck sls")
    case True
    then obtain sl where sl: "sls = [sl]" "sl_reqs sl = [0..<length (ck_cu ck) - 1]" "sl_lo sl = 0" "sl_hi sl = length (ck_q ck)"
      by (auto simp: full_batch_def length_Suc_conv)
    have mem: "sl \<in> set sls" using sl(1) by simp
    obtain buffer' fake where st: "fill buffer pool (sl_pages sl) = Inr (length (sl_pages sl), buffer')"
      "take (length (sl_pages sl) + 1) buffer' = map (staged bf16 pool) (sl_pages sl) @ [zero_page heads]"
      "slice_fake_block_table (ck_table ck) (sl_reqs sl) (sl_pages sl) (length (sl_pages sl)) (length (qp_flat pool)) = Inr fake"
      using stage_slice [OF ok plan mem _ shape(2)] room mem by metis
    have "attn_kernel attend zero num_heads heads (ck_q ck) (take (length (sl_pages sl) + 1) buffer') (ck_topk ck) (int_rows fake)
        (ck_cu ck) (ck_seq ck) (ck_prefix ck) (ck_max_query_len ck) = Inr ys"
      unfolding st(2) full_kernel [OF ok plan mem sl(2-4) st(3)] by (rule rows)
    moreover have "overwrite out 0 ys = ys" using out ys by (simp add: overwrite_def)
    moreover have "staging_buffer bufs dev (max cap (sl_n sl)) heads = (buffer, bufs1)" using sb by (simp add: needed_def sl(1))
    ultimately show ?thesis
      using True plan st(1,3) sl(1) by (simp add: prefill_body_def Let_def)
  next
    case False
    have "slice_queries sls = [0..<length (ck_q ck)]"
      using plan_parts(5) [OF plan chunk_prefill(1) [OF ok]] by (simp add: chunk_prefill(3) [OF ok])
    then obtain buffer' where "fold_res (run_slice fill (attn_kernel attend zero num_heads heads) pool ck) (buffer, out) sls = Inr (buffer', ys)"
      using slices_run [OF ok plan rows subset_refl _ _ room shape(2) out, of 0] by auto
    then show ?thesis using False plan sb by (simp add: prefill_body_def Let_def needed_def [symmetric])
  qed
qed

end

lemma reference_stages:
  assumes "pool_ok pool" "qp_slots pool = 2 * heads" "qp_tokens pool = 128" "qp_width pool = 72"
    and "\<forall>p \<in> set pages. p < length (qp_flat pool)" "length pages < length buffer" "\<forall>page \<in> set buffer. page_shape heads page"
  shows "fill_staging_buffer bf16 buffer pool pages =
    Inr (length pages, map (staged bf16 pool) pages @ zero_page heads # drop (Suc (length pages)) buffer)"
  by (rule fill_value) (use assms in \<open>simp_all add: geometry_defs\<close>)

interpretation reference_fill: staging_fill "fill_staging_buffer bf16" bf16 for bf16
  by unfold_locales (rule reference_stages)

lemma kernel_stages:
  assumes "\<And>ps. mset (order ps) = mset ps"
  shows "staging_fill (q4_stage_pages bf16 order) bf16"
proof unfold_locales
  fix pool heads pages buffer
  assume a: "pool_ok pool" "qp_slots pool = 2 * heads" "qp_tokens pool = 128" "qp_width pool = 72"
    "\<forall>p \<in> set pages. p < length (qp_flat pool)" "length pages < length buffer" "\<forall>page \<in> set buffer. page_shape heads page"
  have "q4_stage_pages bf16 order buffer pool pages = fill_staging_buffer bf16 buffer pool pages"
    by (rule kernel_fill [OF a(1,2) _ _ a(5-7) assms]) (use a(3,4) in \<open>simp_all add: geometry_defs\<close>)
  then show "q4_stage_pages bf16 order buffer pool pages =
      Inr (length pages, map (staged bf16 pool) pages @ zero_page heads # drop (Suc (length pages)) buffer)"
    using reference_stages [OF a] by simp
qed

text \<open>The grid in program order is one schedule of it.\<close>

interpretation grid_fill: staging_fill "q4_stage_pages bf16 (\<lambda>ps. ps)" bf16 for bf16
  by (rule kernel_stages) simp

section \<open>Slicing changes no row\<close>

text \<open>The rows of the upstream kernel on the whole pool.\<close>

lemma unsliced_rows:
  assumes "chunk_ok pool heads ck"
  obtains ys where "map_res (oracle_row attend zero num_heads heads bf16 pool ck) [0..<length (ck_q ck)] = Inr ys"
    "attn_kernel attend zero num_heads heads (ck_q ck) (pool_pages bf16 pool) (ck_topk ck) (ck_table ck) (ck_cu ck) (ck_seq ck) (ck_prefix ck)
       (ck_max_query_len ck) = Inr ys"
proof -
  have total: "\<exists>y. oracle_row attend zero num_heads heads bf16 pool ck i = Inr y" if "i \<in> set [0..<length (ck_q ck)]" for i
    by (rule oracle_row_total [OF assms]) (use that in simp)
  have "heads \<noteq> 0" using assms by (auto simp: chunk_ok_def)
  moreover obtain ys where "map_res (oracle_row attend zero num_heads heads bf16 pool ck) [0..<length (ck_q ck)] = Inr ys"
    using map_res_total [where f = "oracle_row attend zero num_heads heads bf16 pool ck", OF total] by blast
  ultimately show thesis
    using that by (simp add: attn_kernel_def reference_prefill_attention_def oracle_row_def [abs_def])
qed


text \<open>Two queries of one request over two pages of one head, with room for one page at a time.\<close>

definition sample_chunk :: "nat chunk" where
  "sample_chunk = \<lparr>ck_q = [[7], [8]], ck_topk = [[[0], [0, -1]]], ck_table = [[0]], ck_max_blocks = 1, ck_cu = [0, 2], ck_seq = [2],
     ck_prefix = [0], ck_max_query_len = 2\<rparr>"

lemma sample_chunk_ok: "chunk_ok sample_pool 1 sample_chunk"
  using sample_pool_ok by (auto simp: chunk_ok_def sample_chunk_def sample_pool_def less_Suc_eq)


end
