(* ===== verification/Moe_Experts.thy ===== *)
theory Moe_Experts
  imports Moe_Finish
begin

text \<open>
  The routed experts of a finished layer as a computation (\<open>src/vllm_exl3/exl3.py\<close>): the map from global to
  local expert ids, the linear handles, and \<open>apply_exl3_python_loop\<close>, the loop over experts the fused
  kernels are measured against.  Numbers are exact; rounding to half precision, the sigmoid, the Hadamard
  transforms, the reconstruction of a trellis and the product with its columns are parameters.
\<close>

section \<open>Rows\<close>

type_synonym arow = "rat list"

definition add_row :: "arow \<Rightarrow> arow \<Rightarrow> arow" where
  "add_row xs ys = map2 (+) xs ys"

definition scale_row :: "rat \<Rightarrow> arow \<Rightarrow> arow" where
  "scale_row w r = map ((*) w) r"

text \<open>\<open>out.index_add_(0, tokens, rows)\<close>\<close>

definition index_add :: "arow list \<Rightarrow> (nat \<times> arow) list \<Rightarrow> arow list" where
  "index_add out adds = fold (\<lambda>(t, r) out. out[t := add_row (out ! t) r]) adds out"

definition zero_rows :: "nat \<Rightarrow> nat \<Rightarrow> arow list" where
  "zero_rows tokens hidden = replicate tokens (replicate hidden 0)"

section \<open>Expert ids\<close>

text \<open>
  \<open>pin_exl3_expert_map\<close> keeps the copy it made, keyed by the identity of the tensor it was made from.
\<close>

record pin_state =
  ps_raw :: "nat option"
  ps_pinned :: "(string \<times> int list) option"

definition pin_exl3_expert_map ::
  "(nat \<times> int list) option \<Rightarrow> string \<Rightarrow> pin_state \<Rightarrow> (string \<times> int list) option \<times> pin_state"
where
  "pin_exl3_expert_map emap dev st =
     (case emap of
        None \<Rightarrow> (None, st)
      | Some (raw, entries) \<Rightarrow>
          (case ps_pinned st of
             Some (d, kept) \<Rightarrow>
               if ps_raw st = Some raw \<and> d = dev then (Some (d, kept), st)
               else (Some (dev, entries), \<lparr>ps_raw = Some raw, ps_pinned = Some (dev, entries)\<rparr>)
           | None \<Rightarrow> (Some (dev, entries), \<lparr>ps_raw = Some raw, ps_pinned = Some (dev, entries)\<rparr>)))"

text \<open>One entry of \<open>map_topk_to_local\<close>; \<open>n_local\<close> is the sentinel of the routes that are not local.\<close>

definition local_id :: "nat \<Rightarrow> int list option \<Rightarrow> int \<Rightarrow> nat" where
  "local_id n_local emap i =
     (case emap of
        None \<Rightarrow> if i < 0 \<or> int n_local \<le> i then n_local else nat i
      | Some m \<Rightarrow>
          let n_global = length m;
              safe = min (max i 0) (max (int n_global - 1) 0);
              mapped = (if n_global \<noteq> 0 then m ! nat safe else int n_local) in
          if i < 0 \<or> int n_global \<le> i \<or> mapped < 0 \<or> int n_local \<le> mapped then n_local else nat mapped)"

definition map_topk_to_local :: "string \<Rightarrow> int list list \<Rightarrow> nat \<Rightarrow> (string \<times> int list) option \<Rightarrow> nat list res" where
  "map_topk_to_local dev ids n_local emap =
     (case emap of
        None \<Rightarrow> Inr (map (local_id n_local None) (concat ids))
      | Some (d, m) \<Rightarrow> if d \<noteq> dev then Inl RuntimeError else Inr (map (local_id n_local (Some m)) (concat ids)))"

section \<open>Linear handles\<close>

record ('a, 'c) torch_ops =
  to_half :: "rat \<Rightarrow> rat"
  to_sigmoid :: "rat \<Rightarrow> rat"
  to_argsort :: "nat list \<Rightarrow> nat list"
  to_had_in :: "arow \<Rightarrow> 'a list \<Rightarrow> arow"
  to_had_out :: "arow \<Rightarrow> 'a list \<Rightarrow> arow"
  to_reconstruct :: "'a list list \<Rightarrow> nat \<Rightarrow> bool \<times> bool \<Rightarrow> 'c list"
  to_gemm :: "arow \<Rightarrow> 'c list \<Rightarrow> arow"

text \<open>What the three pointers of a projection lead to.\<close>

record 'a operand =
  op_trellis :: "'a list list"
  op_suh :: "'a list"
  op_svh :: "'a list"

definition operand_of :: "'a linear \<Rightarrow> 'a operand" where
  "operand_of l =
     \<lparr>op_trellis = (case ln_data l of None \<Rightarrow> [] | Some t \<Rightarrow> snd t),
      op_suh = (case ln_suh l of None \<Rightarrow> [] | Some s \<Rightarrow> s), op_svh = (case ln_svh l of None \<Rightarrow> [] | Some s \<Rightarrow> s)\<rparr>"

text \<open>A trellis product: transform and scale the input, multiply by the decoded columns, transform and scale back.\<close>

definition trellis_product :: "('a, 'c) torch_ops \<Rightarrow> nat \<Rightarrow> bool \<times> bool \<Rightarrow> 'a operand \<Rightarrow> arow \<Rightarrow> arow" where
  "trellis_product ops k codebook op x =
     to_had_out ops (to_gemm ops (to_had_in ops x (op_suh op)) (to_reconstruct ops (op_trellis op) k codebook)) (op_svh op)"

section \<open>Activations\<close>

text \<open>The clamp of a limit that is given and positive: gate from above, up on both sides.\<close>

definition clamp_gate :: "rat option \<Rightarrow> arow \<Rightarrow> arow" where
  "clamp_gate limit g = (case limit of Some l \<Rightarrow> if 0 < l then map (\<lambda>v. min v l) g else g | None \<Rightarrow> g)"

definition clamp_up :: "rat option \<Rightarrow> arow \<Rightarrow> arow" where
  "clamp_up limit u = (case limit of Some l \<Rightarrow> if 0 < l then map (\<lambda>v. min (max v (- l)) l) u else u | None \<Rightarrow> u)"

definition relu_square :: "arow \<Rightarrow> arow" where
  "relu_square u = map (\<lambda>v. max v 0 * max v 0) u"

definition silu_mul :: "('a, 'c) torch_ops \<Rightarrow> arow \<Rightarrow> arow \<Rightarrow> arow" where
  "silu_mul ops g u = map2 (\<lambda>g u. g * to_sigmoid ops g * u) g u"

definition swiglu_oai :: "('a, 'c) torch_ops \<Rightarrow> arow \<Rightarrow> arow \<Rightarrow> arow" where
  "swiglu_oai ops g u = map2 (\<lambda>g u. (u + 1) * g * to_sigmoid ops (851 / 500 * g)) g u"

section \<open>The loop over experts\<close>

text \<open>One row of one expert; \<open>fw\<close> is the \<open>forward\<close> of a handle.\<close>

definition expert_output ::
  "('a, 'c) torch_ops \<Rightarrow> ('a linear \<Rightarrow> arow \<Rightarrow> arow) \<Rightarrow> int \<Rightarrow> bool \<Rightarrow> rat option \<Rightarrow> 'a inner_pack \<Rightarrow> arow \<Rightarrow> arow res"
where
  "expert_output ops fw act gateless limit pack h =
     (let h = map (to_half ops) h; down = (\<lambda>a. fw (ip_down pack) (map (to_half ops) a)) in
      if gateless then Inr (down (relu_square (clamp_up limit (fw (ip_up pack) h))))
      else case ip_gate pack of
          None \<Rightarrow> Inl AttributeError
        | Some gate \<Rightarrow>
            let g = clamp_gate limit (fw gate h); u = clamp_up limit (fw (ip_up pack) h) in
            Inr (down (if act = 3 then swiglu_oai ops g u else silu_mul ops g u)))"

text \<open>The routes of a batch, token by token: the token, the local expert and the weight.\<close>

type_synonym moe_route = "nat \<times> nat \<times> rat"

definition flat_token :: "nat \<Rightarrow> nat \<Rightarrow> nat list" where
  "flat_token tokens topk = concat (map (replicate topk) [0..<tokens])"

definition topk_of :: "'b list list \<Rightarrow> nat" where
  "topk_of ids = (case ids of [] \<Rightarrow> 0 | r # _ \<Rightarrow> length r)"

definition loop_expert ::
  "(arow \<Rightarrow> arow res) \<Rightarrow> arow list \<Rightarrow> moe_route list \<Rightarrow> arow list \<Rightarrow> arow list res"
where
  "loop_expert expert x routes out =
     bind_res (map_res (\<lambda>(t, e, w). bind_res (expert (x ! t)) (\<lambda>r. Inr (t, scale_row w r))) routes) (\<lambda>adds.
       Inr (index_add out adds))"

definition apply_exl3_python_loop ::
  "('a, 'c) torch_ops \<Rightarrow> ('a linear \<Rightarrow> arow \<Rightarrow> arow) \<Rightarrow> string \<Rightarrow> nat \<Rightarrow> arow list \<Rightarrow> int list list \<Rightarrow> rat list list \<Rightarrow> 'a inner_pack list
    \<Rightarrow> (string \<times> int list) option \<Rightarrow> rat option \<Rightarrow> nat list option \<Rightarrow> arow list option \<Rightarrow> int \<Rightarrow> arow list res"
where
  "apply_exl3_python_loop ops fw dev hidden x ids weights inners emap limit only_experts out act =
     bind_res (map_topk_to_local dev ids (length inners) emap) (\<lambda>local.
       let tokens = length x;
           out = (case out of None \<Rightarrow> zero_rows tokens hidden | Some out \<Rightarrow> out);
           gateless = (case inners of [] \<Rightarrow> False | pack # _ \<Rightarrow> ip_gate pack = None);
           routes = zip (flat_token tokens (topk_of ids)) (zip local (concat weights)) in
       fold_res (\<lambda>out e.
           if length inners \<le> e then Inr out
           else if (case only_experts of None \<Rightarrow> False | Some only \<Rightarrow> e \<notin> set only) then Inr out
           else loop_expert (expert_output ops fw act gateless limit (inners ! e)) x (filter (\<lambda>(t, l, w). l = e) routes) out)
         out (sort (remdups local)))"

section \<open>Sums over routes\<close>

lemma add_row_left_commute: "add_row (add_row a b) c = add_row (add_row a c) b"
  by (rule nth_equalityI) (auto simp: add_row_def)

text \<open>The order in which the rows of a batch are added does not matter.\<close>

lemma index_add_mset: "mset xs = mset ys \<Longrightarrow> index_add out xs = index_add out ys"
  unfolding index_add_def
proof (rule fun_cong [of _ _ out], rule fold_multiset_equiv)
  fix x y :: "nat \<times> arow"
  obtain t r t' r' where "x = (t, r)" "y = (t', r')" by force
  then show "(\<lambda>(t, r) out. out[t := add_row (out ! t) r]) x \<circ> (\<lambda>(t, r) out. out[t := add_row (out ! t) r]) y =
      (\<lambda>(t, r) out. out[t := add_row (out ! t) r]) y \<circ> (\<lambda>(t, r) out. out[t := add_row (out ! t) r]) x"
  proof (cases "t = t'")
    case True
    have "(out[t := add_row (out ! t) r'])[t := add_row ((out[t := add_row (out ! t) r']) ! t) r] =
        (out[t := add_row (out ! t) r])[t := add_row ((out[t := add_row (out ! t) r]) ! t) r']" for out
      by (cases "t < length out") (simp_all add: add_row_left_commute [of "out ! t"] list_update_beyond)
    then show ?thesis using True \<open>x = _\<close> \<open>y = _\<close> by auto
  next
    case False
    then show ?thesis using \<open>x = _\<close> \<open>y = _\<close> by (auto simp: list_update_swap)
  qed
qed

lemma index_add_append: "index_add out (xs @ ys) = index_add (index_add out xs) ys"
  by (simp add: index_add_def)

lemma index_add_length [simp]: "length (index_add out xs) = length out"
  unfolding index_add_def by (induction xs arbitrary: out) auto

lemma index_add_Nil [simp]: "index_add out [] = out"
  by (simp add: index_add_def)

text \<open>What the loop is to compute: every valid route adds its weight times its expert's row to its token.\<close>

definition route_add :: "(nat \<Rightarrow> arow \<Rightarrow> arow) \<Rightarrow> arow list \<Rightarrow> moe_route \<Rightarrow> nat \<times> arow" where
  "route_add val x r = (case r of (t, e, w) \<Rightarrow> (t, scale_row w (val e (x ! t))))"

definition routed_adds :: "(nat \<Rightarrow> arow \<Rightarrow> arow) \<Rightarrow> nat \<Rightarrow> arow list \<Rightarrow> moe_route list \<Rightarrow> (nat \<times> arow) list" where
  "routed_adds val n x routes = map (route_add val x) (filter (\<lambda>(t, e, w). e < n) routes)"

lemma loop_expert_value:
  assumes "\<And>h. expert h = Inr (val e h)" "\<forall>(t, l, w) \<in> set routes. l = e"
  shows "loop_expert expert x routes out = Inr (index_add out (map (route_add val x) routes))"
proof -
  have "map_res (\<lambda>(t, e, w). bind_res (expert (x ! t)) (\<lambda>r. Inr (t, scale_row w r))) routes = Inr (map (route_add val x) routes)"
    unfolding map_res_Inr_iff using assms by (auto simp: list_all2_conv_all_nth route_add_def split: prod.splits)
      (metis (mono_tags, lifting) case_prodD nth_mem)
  then show ?thesis by (simp add: loop_expert_def)
qed

lemma mset_concat_filter:
  "distinct es \<Longrightarrow> mset (concat (map (\<lambda>e. filter (\<lambda>x. k x = e) xs) es)) = mset (filter (\<lambda>x. k x \<in> set es) xs)"
proof (induction es)
  case (Cons e es)
  have "filter_mset (\<lambda>x. k x = e \<or> k x \<in> set es) (mset xs) = filter_mset (\<lambda>x. k x = e) (mset xs) + filter_mset (\<lambda>x. k x \<in> set es) (mset xs)"
    using Cons.prems by (induction xs) auto
  then show ?case using Cons by simp
qed simp

lemma loop_value:
  assumes loc: "map_topk_to_local dev ids (length inners) emap = Inr local"
    and expert: "\<And>e h. e < length inners \<Longrightarrow>
      expert_output ops fw act (case inners of [] \<Rightarrow> False | pack # _ \<Rightarrow> ip_gate pack = None) limit (inners ! e) h = Inr (val e h)"
    and len: "length local = length (concat weights)" "length (flat_token (length x) (topk_of ids)) = length local"
  shows "apply_exl3_python_loop ops fw dev hidden x ids weights inners emap limit None None act =
    Inr (index_add (zero_rows (length x) hidden)
      (routed_adds val (length inners) x (zip (flat_token (length x) (topk_of ids)) (zip local (concat weights)))))"
proof -
  let ?n = "length inners" and ?gl = "case inners of [] \<Rightarrow> False | pack # _ \<Rightarrow> ip_gate pack = None"
  let ?rs = "zip (flat_token (length x) (topk_of ids)) (zip local (concat weights))" and ?es = "sort (remdups local)"
  let ?step = "\<lambda>out e. if ?n \<le> e then Inr out
      else loop_expert (expert_output ops fw act ?gl limit (inners ! e)) x (filter (\<lambda>(t, l, w). l = e) ?rs) out"
  let ?adds = "\<lambda>e. map (route_add val x) (filter (\<lambda>(t, l, w). l = e) ?rs)"
  have step: "?step out e = Inr (if ?n \<le> e then out else index_add out (?adds e))" for out e
    by (auto simp: loop_expert_value [where val = val and e = e] expert)
  have run: "fold_res ?step out es = Inr (index_add out (concat (map ?adds (filter (\<lambda>e. e < ?n) es))))" for out es
    by (induction es arbitrary: out) (auto simp: step index_add_append)
  have "mset (concat (map ?adds (filter (\<lambda>e. e < ?n) ?es))) = mset (routed_adds val ?n x ?rs)"
  proof -
    have d: "distinct (filter (\<lambda>e. e < ?n) ?es)" by simp
    have k: "filter (\<lambda>(t, l, w). l = e) ?rs = filter (\<lambda>r. fst (snd r) = e) ?rs" for e
      by (intro filter_cong refl) auto
    have "concat (map ?adds es) = map (route_add val x) (concat (map (\<lambda>e. filter (\<lambda>r. fst (snd r) = e) ?rs) es))" for es
      by (simp add: k map_concat comp_def)
    then have "mset (concat (map ?adds (filter (\<lambda>e. e < ?n) ?es))) =
        image_mset (route_add val x) (mset (filter (\<lambda>r. fst (snd r) \<in> set (filter (\<lambda>e. e < ?n) ?es)) ?rs))"
      by (simp only: mset_map mset_concat_filter [OF d, where k = "\<lambda>r. fst (snd r)", symmetric])
    also have "filter (\<lambda>r. fst (snd r) \<in> set (filter (\<lambda>e. e < ?n) ?es)) ?rs = filter (\<lambda>(t, e, w). e < ?n) ?rs"
    proof (intro filter_cong refl)
      fix r assume "r \<in> set ?rs"
      moreover obtain t e w where r: "r = (t, e, w)" by (cases r) auto
      ultimately have "(e, w) \<in> set (zip local (concat weights))" by (blast dest: set_zip_rightD)
      then have "e \<in> set local" by (rule set_zip_leftD)
      then show "fst (snd r) \<in> set (filter (\<lambda>e. e < ?n) ?es) \<longleftrightarrow> (case r of (t, e, w) \<Rightarrow> e < ?n)" by (simp add: r)
    qed
    finally show ?thesis by (simp add: routed_adds_def)
  qed
  note acc = index_add_mset [OF this]
  show ?thesis
    unfolding apply_exl3_python_loop_def loc bind_res_simps Let_def option.case if_False run acc ..
qed

end
