(* ===== verification/Moe_State.thy ===== *)
theory Moe_State
  imports Moe_Experts "HOL-Library.List_Lexorder"
begin

text \<open>
  The launch state of a finished layer (\<open>build_exl3_fused_state\<close> in \<open>src/vllm_exl3/exl3.py\<close>): pointer tables,
  the bit widths of every expert, the groups of experts with one width, the packed numbering, the work order.
  A pointer is modelled by what it leads to.  \<open>physical_k_compat.py\<close> wraps the builder.
\<close>

section \<open>State\<close>

record 'a ptr_table =
  pt_gate :: "'a operand list"
  pt_up :: "'a operand list"
  pt_down :: "'a operand list"

text \<open>What the installed extension answers: the concurrency of \<open>exl3_moe\<close>, if any, and the arity of its binding.\<close>

record ext_info =
  xi_concurrency :: "int option"
  xi_moe_arity :: "nat option"

record 'a fused_state =
  fs_tbl :: "'a ptr_table"
  fs_gateless :: bool
  fs_temps :: bool
  fs_concurrency :: int
  fs_k :: "nat option"
  fs_unified :: bool
  fs_k_tuple :: "(nat \<times> nat \<times> nat) option"
  fs_coop :: bool
  fs_karr :: "nat list \<times> nat list \<times> nat list"
  fs_kmax :: nat
  fs_kdesc :: "nat list option"
  fs_krank :: "nat list"
  fs_groups :: "(nat list \<times> nat list) list option"
  fs_group_index :: "int list"
  fs_packed :: "('a ptr_table \<times> nat list \<times> (nat \<times> nat \<times> nat) list) option"

section \<open>Tables\<close>

definition gate_slot :: "'a inner_pack \<Rightarrow> 'a linear" where
  "gate_slot pack = (case ip_gate pack of None \<Rightarrow> ip_up pack | Some g \<Rightarrow> g)"

definition ptr_table_of :: "'a inner_pack list \<Rightarrow> 'a ptr_table" where
  "ptr_table_of inners =
     \<lparr>pt_gate = map (operand_of \<circ> gate_slot) inners, pt_up = map (operand_of \<circ> ip_up) inners,
      pt_down = map (operand_of \<circ> ip_down) inners\<rparr>"

definition k_arrays :: "'a inner_pack list \<Rightarrow> nat list \<times> nat list \<times> nat list" where
  "k_arrays inners =
     (map (bits_of \<circ> gate_slot) inners, map (bits_of \<circ> ip_up) inners, map (bits_of \<circ> ip_down) inners)"

text \<open>
  The largest width.  A pack always has the key \<open>gate\<close>, so the membership test does not skip the gate of a
  non-gated layer, which is \<open>None\<close> there.
\<close>

definition k_max_launch :: "'a inner_pack list \<Rightarrow> nat res" where
  "k_max_launch inners =
     (if inners = [] then Inl ValueError
      else bind_res (map_res (\<lambda>pack. case ip_gate pack of
             None \<Rightarrow> Inl AttributeError
           | Some g \<Rightarrow> Inr (max (last (ln_shape g)) (max (last (ln_shape (ip_up pack))) (last (ln_shape (ip_down pack)))))) inners)
         (\<lambda>ws. Inr (Max (set ws) div 16)))"

text \<open>Experts by descending width; \<open>k_rank\<close> is the inverse.\<close>

definition k_desc :: "'a inner_pack list \<Rightarrow> nat list" where
  "k_desc inners =
     sort_key (\<lambda>e. - int (max (max (bits_of (gate_slot (inners ! e))) (bits_of (ip_up (inners ! e)))) (bits_of (ip_down (inners ! e)))))
       [0..<length inners]"

definition k_rank :: "nat list \<Rightarrow> nat list" where
  "k_rank desc = scatter (replicate (length desc) 0) (zip desc [0..<length desc])"

text \<open>The groups, sorted by their widths, and the check against the arrays.\<close>

definition k_key :: "'a inner_pack \<Rightarrow> nat list" where
  "k_key pack = [bits_of (gate_slot pack), bits_of (ip_up pack), bits_of (ip_down pack)]"

definition k_groups :: "'a inner_pack list \<Rightarrow> (nat list \<times> nat list) list" where
  "k_groups inners = sort_key fst (by_shape (map (\<lambda>e. (k_key (inners ! e), e)) [0..<length inners]))"

definition assert_mixedk_karrays_match_groups ::
  "nat list \<times> nat list \<times> nat list \<Rightarrow> (nat list \<times> nat list) list \<Rightarrow> nat \<Rightarrow> unit res"
where
  "assert_mixedk_karrays_match_groups arrays groups n_exp =
     (let (k_gate, k_up, k_down) = arrays;
          tbl = fold (\<lambda>(kt, ids) tbl. scatter tbl (map (\<lambda>e. (e, kt)) ids)) groups (replicate n_exp [0, 0, 0]) in
      if n_exp \<noteq> 0 \<and> \<not> (map (\<lambda>kt. kt ! 0) tbl = k_gate \<and> map (\<lambda>kt. kt ! 1) tbl = k_up \<and> map (\<lambda>kt. kt ! 2) tbl = k_down)
      then Inl ValueError else Inr ())"

definition group_index :: "(nat list \<times> nat list) list \<Rightarrow> nat \<Rightarrow> int list" where
  "group_index groups n_exp =
     fold (\<lambda>(gi, kt, ids) idx. scatter idx (map (\<lambda>e. (e, int gi)) ids)) (zip [0..<length groups] groups) (replicate (n_exp + 1) (- 1))"

text \<open>The packed numbering: the experts group by group, and the range of every group.\<close>

fun group_ranges :: "nat \<Rightarrow> nat \<Rightarrow> (nat list \<times> nat list) list \<Rightarrow> (nat \<times> nat \<times> nat) list" where
  "group_ranges gi lo [] = []"
| "group_ranges gi lo ((kt, ids) # groups) = (gi, lo, lo + length ids) # group_ranges (Suc gi) (lo + length ids) groups"

definition EXL3_MOE_ARITY_151 :: nat where "EXL3_MOE_ARITY_151 = 37"

definition permute_table :: "nat list \<Rightarrow> 'a ptr_table \<Rightarrow> 'a ptr_table" where
  "permute_table perm tbl =
     \<lparr>pt_gate = map ((!) (pt_gate tbl)) perm, pt_up = map ((!) (pt_up tbl)) perm, pt_down = map ((!) (pt_down tbl)) perm\<rparr>"

definition packed_dispatch ::
  "environ \<Rightarrow> nat option \<Rightarrow> 'a ptr_table \<Rightarrow> (nat list \<times> nat list) list \<Rightarrow> nat
    \<Rightarrow> ('a ptr_table \<times> nat list \<times> (nat \<times> nat \<times> nat) list) option res"
where
  "packed_dispatch env arity tbl groups n_exp =
     (if env ''VLLM_EXL3_MIXEDK_PACKED'' \<noteq> Some ''1'' then Inr None
      else case arity of
          None \<Rightarrow> Inl RuntimeError
        | Some a \<Rightarrow>
            if a < EXL3_MOE_ARITY_151 then Inl RuntimeError
            else let order = concat (map snd groups) in
              if length order \<noteq> n_exp then Inl RuntimeError
              else Inr (Some (permute_table order tbl,
                     scatter (replicate (n_exp + 1) n_exp) (zip order [0..<n_exp]), group_ranges 0 0 groups)))"

section \<open>The builder\<close>

text \<open>
  \<open>bits\<close> is the configured width; the tuple and the cooperative flag of a finished layer stay when the
  extension has no \<open>exl3_moe\<close>.
\<close>

definition build_exl3_fused_state ::
  "environ \<Rightarrow> ext_info \<Rightarrow> bool \<Rightarrow> bool \<Rightarrow> nat \<Rightarrow> bool \<Rightarrow> (nat \<times> nat \<times> nat) option \<times> bool \<Rightarrow> 'a inner_pack list \<Rightarrow> 'a fused_state res"
where
  "build_exl3_fused_state env xi has_store layer_gateless bits mixed_k finished inners =
     (if has_store \<and> \<not> mixed_k then Inl ValueError
      else let n_exp = length inners; gateless = layer_gateless \<or> list_all (\<lambda>p. ip_gate p = None) inners; tbl = ptr_table_of inners;
             base = \<lparr>fs_tbl = tbl, fs_gateless = gateless, fs_temps = False, fs_concurrency = 0, fs_k = Some bits, fs_unified = False,
               fs_k_tuple = fst finished, fs_coop = snd finished, fs_karr = ([], [], []), fs_kmax = 8, fs_kdesc = None, fs_krank = [],
               fs_groups = None, fs_group_index = [], fs_packed = None\<rparr> in
        if gateless \<and> list_ex (\<lambda>p. ip_gate p \<noteq> None) inners then Inl ValueError
        else if \<not> gateless \<and> list_ex (\<lambda>p. ip_gate p = None) inners then Inl AttributeError
        else case xi_concurrency xi of
            None \<Rightarrow> Inr base
          | Some c \<Rightarrow>
              let base = base\<lparr>fs_temps := True, fs_concurrency := max c 1\<rparr> in
              if \<not> mixed_k then Inr (base\<lparr>fs_k_tuple := Some (bits, bits, bits), fs_coop := \<not> gateless\<rparr>)
              else bind_res (k_max_launch inners) (\<lambda>k_max.
                let groups = k_groups inners; karr = k_arrays inners; desc = k_desc inners in
                bind_res (assert_mixedk_karrays_match_groups karr groups n_exp) (\<lambda>_.
                bind_res (packed_dispatch env (xi_moe_arity xi) tbl groups n_exp) (\<lambda>packed.
                  Inr (base\<lparr>fs_k := None, fs_unified := True, fs_karr := karr, fs_kmax := k_max, fs_kdesc := Some desc, fs_krank := k_rank desc,
                    fs_groups := Some groups, fs_group_index := group_index groups n_exp, fs_packed := packed,
                    fs_k_tuple := (if length groups = 1 then Some (fst (hd groups) ! 0, fst (hd groups) ! 1, fst (hd groups) ! 2) else None),
                    fs_coop := (length groups = 1 \<and> \<not> gateless \<and> fst (hd groups) ! 0 = fst (hd groups) ! 1)\<rparr>)))))"

text \<open>The wrapper of \<open>physical_k_compat.py\<close>: one physical width is required of a uniform layer and becomes its \<open>_exl3_k\<close>.\<close>

definition physical_k_values :: "('a linear \<Rightarrow> nat option) \<Rightarrow> 'a inner_pack list \<Rightarrow> nat list res" where
  "physical_k_values k_attr inners =
     bind_res (map_res (\<lambda>l. case k_attr l of
            Some k \<Rightarrow> Inr k
          | None \<Rightarrow> if last (ln_shape l) = 0 \<or> last (ln_shape l) mod 16 \<noteq> 0 then Inl RuntimeError else Inr (last (ln_shape l) div 16))
        (concat (map (\<lambda>pack. (case ip_gate pack of None \<Rightarrow> [] | Some g \<Rightarrow> [g]) @ [ip_up pack, ip_down pack]) inners)))
       (\<lambda>ks. Inr (remdups ks))"

definition build_physical ::
  "('a linear \<Rightarrow> nat option) \<Rightarrow> environ \<Rightarrow> ext_info \<Rightarrow> bool \<Rightarrow> bool \<Rightarrow> nat \<Rightarrow> bool \<Rightarrow> (nat \<times> nat \<times> nat) option \<times> bool
    \<Rightarrow> 'a inner_pack list \<Rightarrow> 'a fused_state res"
where
  "build_physical k_attr env xi has_store layer_gateless bits mixed_k finished inners =
     (let build = build_exl3_fused_state env xi has_store layer_gateless bits mixed_k finished inners in
      if mixed_k then build
      else bind_res (physical_k_values k_attr inners) (\<lambda>ks.
        if length ks \<noteq> 1 then Inl RuntimeError
        else if hd ks < 1 \<or> 8 < hd ks then Inl RuntimeError
        else bind_res build (\<lambda>st. Inr (st\<lparr>fs_k := Some (hd ks)\<rparr>))))"

section \<open>Groups\<close>

lemma fold_scatter:
  "fold (\<lambda>(v, ids) tbl. scatter tbl (map (\<lambda>e. (e, f v)) ids)) gs tbl = scatter tbl (concat (map (\<lambda>(v, ids). map (\<lambda>e. (e, f v)) ids) gs))"
  by (induction gs arbitrary: tbl) (auto simp: scatter_append)

lemma fst_labels: "map fst (concat (map (\<lambda>(v, ids). map (\<lambda>e. (e, f v)) ids) gs)) = concat (map snd gs)"
  by (induction gs) (auto simp: comp_def)

lemma mset_concat_sort: "mset (concat (map g (sort_key f xs))) = mset (concat (map g xs))"
proof -
  have "mset (concat (map g xs)) = sum_mset (image_mset (\<lambda>x. mset (g x)) (mset xs))" for xs
    by (induction xs) auto
  then show ?thesis by simp
qed

lemma k_groups_props:
  "distinct (map fst (k_groups inners))"
  "mset (concat (map snd (k_groups inners))) = mset [0..<length inners]"
  "distinct (concat (map snd (k_groups inners)))"
  "set (concat (map snd (k_groups inners))) = {..<length inners}"
  "\<And>g e. g \<in> set (k_groups inners) \<Longrightarrow> e \<in> set (snd g) \<Longrightarrow> k_key (inners ! e) = fst g"
  "sorted (map fst (k_groups inners))"
proof -
  let ?items = "map (\<lambda>e. (k_key (inners ! e), e)) [0..<length inners]"
  note b = by_shape_props [of ?items]
  have "mset (map fst (k_groups inners)) = mset (map fst (by_shape ?items))" unfolding k_groups_def by simp
  then show "distinct (map fst (k_groups inners))" using b mset_eq_imp_distinct_iff by blast
  show m: "mset (concat (map snd (k_groups inners))) = mset [0..<length inners]"
    unfolding k_groups_def mset_concat_sort using b by (simp add: comp_def)
  show "distinct (concat (map snd (k_groups inners)))" using mset_eq_imp_distinct_iff [OF m] by simp
  show "set (concat (map snd (k_groups inners))) = {..<length inners}" using mset_eq_setD [OF m] by auto
  show "k_key (inners ! e) = fst g" if "g \<in> set (k_groups inners)" "e \<in> set (snd g)" for g e
  proof -
    have "g \<in> set (by_shape ?items)" using that(1) by (simp add: k_groups_def)
    then have "(fst g, e) \<in> set ?items" using b that(2) by blast
    then show ?thesis by auto
  qed
  show "sorted (map fst (k_groups inners))" unfolding k_groups_def by simp
qed

text \<open>Labelling the members of every group, on a table of the experts.\<close>

lemma group_labels:
  assumes "distinct (concat (map snd gs))" "(v, ids) \<in> set gs" "e \<in> set ids" "e < length tbl"
  shows "fold (\<lambda>(v, ids) tbl. scatter tbl (map (\<lambda>e. (e, f v)) ids)) gs tbl ! e = f v"
  unfolding fold_scatter by (rule scatter_at) (use assms in \<open>auto simp: fst_labels\<close>)

lemma group_of: "e < length inners \<Longrightarrow> \<exists>g \<in> set (k_groups inners). e \<in> set (snd g)"
  using k_groups_props(4) [of inners] by auto

lemma karrays_match: "assert_mixedk_karrays_match_groups (k_arrays inners) (k_groups inners) (length inners) = Inr ()"
proof -
  let ?gs = "k_groups inners" and ?n = "length inners"
  let ?tbl = "fold (\<lambda>(kt, ids) tbl. scatter tbl (map (\<lambda>e. (e, kt)) ids)) ?gs (replicate ?n [0, 0, 0])"
  have "?tbl ! e = k_key (inners ! e)" if e: "e < ?n" for e
  proof -
    obtain g where g: "g \<in> set ?gs" "e \<in> set (snd g)" using group_of [OF e] by auto
    then have "?tbl ! e = fst g"
      using group_labels [OF k_groups_props(3), of "fst g" "snd g" inners e "replicate ?n [0, 0, 0]" "\<lambda>x. x"] e by simp
    then show ?thesis using k_groups_props(5) [OF g] by simp
  qed
  moreover have "length ?tbl = ?n" by (simp add: fold_scatter [where f = "\<lambda>x. x"])
  ultimately have "?tbl = map k_key inners" by (simp add: list_eq_iff_nth_eq)
  then show ?thesis by (simp add: assert_mixedk_karrays_match_groups_def Let_def k_arrays_def k_key_def comp_def)
qed

lemma group_index_scatter:
  "group_index gs n = scatter (replicate (n + 1) (- 1)) (concat (map (\<lambda>(gi, g). map (\<lambda>e. (e, int gi)) (snd g)) (zip [0..<length gs] gs)))"
proof -
  have "fold (\<lambda>(gi, kt, ids) idx. scatter idx (map (\<lambda>e. (e, int gi)) ids)) zs idx =
      scatter idx (concat (map (\<lambda>(gi, g). map (\<lambda>e. (e, int gi)) (snd g)) zs))" for zs :: "(nat \<times> nat list \<times> nat list) list" and idx
    by (induction zs arbitrary: idx) (auto simp: scatter_append)
  then show ?thesis by (simp add: group_index_def)
qed

lemma group_index_keys:
  "map fst (concat (map (\<lambda>(gi, g). map (\<lambda>e. (e, int gi)) (snd g)) (zip [0..<length gs] gs))) = concat (map snd gs)"
proof -
  have "map fst (concat (map (\<lambda>(gi, g). map (\<lambda>e. (e, int gi)) (snd g)) zs)) = concat (map snd (map snd zs))" for zs :: "(nat \<times> 'b \<times> 'a list) list"
    by (induction zs) (auto simp: comp_def)
  from this [of "zip [0..<length gs] gs"] show ?thesis by (simp only: map_snd_zip length_upt diff_zero min.idem)
qed

lemma group_index_at:
  assumes "gi < length (k_groups inners)" "e \<in> set (snd (k_groups inners ! gi))"
  shows "group_index (k_groups inners) (length inners) ! e = int gi"
proof -
  let ?gs = "k_groups inners"
  have "?gs ! gi \<in> set ?gs" using assms(1) by simp
  then have "e < length inners" using assms(2) k_groups_props(4) [of inners] by auto
  moreover have "(gi, ?gs ! gi) \<in> set (zip [0..<length ?gs] ?gs)" using assms(1) by (force simp: set_zip)
  then have "(e, int gi) \<in> set (concat (map (\<lambda>(gi, g). map (\<lambda>e. (e, int gi)) (snd g)) (zip [0..<length ?gs] ?gs)))"
    unfolding set_concat set_map using assms(2) by (intro UnionI [OF imageI]) auto
  ultimately show ?thesis
    unfolding group_index_scatter by (intro scatter_at) (simp_all only: group_index_keys k_groups_props(3), simp_all)
qed

lemma group_index_sentinel: "group_index (k_groups inners) (length inners) ! length inners = - 1"
proof -
  have "length inners \<notin> set (concat (map snd (k_groups inners)))" unfolding k_groups_props(4) by simp
  then have "length inners \<notin> fst ` set (concat (map (\<lambda>(gi, g). map (\<lambda>e. (e, int gi)) (snd g)) (zip [0..<length (k_groups inners)] (k_groups inners))))"
    unfolding group_index_keys [symmetric] set_map .
  from scatter_other [OF this] show ?thesis unfolding group_index_scatter by (simp add: nth_append replicate_append_same [symmetric])
qed

section \<open>The packed numbering and the work order\<close>

lemma group_ranges_nth:
  "j < length gs \<Longrightarrow> group_ranges gi lo gs ! j =
    (gi + j, lo + length (concat (map snd (take j gs))), lo + length (concat (map snd (take (Suc j) gs))))"
proof (induction gs arbitrary: gi lo j)
  case (Cons g gs)
  then show ?case by (cases g; cases j) (auto simp: add.assoc)
qed simp

lemma group_ranges_length [simp]: "length (group_ranges gi lo gs) = length gs"
  by (induction gs arbitrary: gi lo) auto

lemma concat_nth_take:
  "j < length xss \<Longrightarrow> k < length (xss ! j) \<Longrightarrow> concat xss ! (length (concat (take j xss)) + k) = xss ! j ! k"
proof (induction xss arbitrary: j)
  case (Cons xs xss)
  then show ?case by (cases j) (auto simp: nth_append)
qed simp

text \<open>Numbering a permutation and reading the number of a member.\<close>

lemma inverse_permutation:
  assumes "distinct order" "i < length order" "set order \<subseteq> {..<length tbl}"
  shows "scatter tbl (zip order [0..<length order]) ! (order ! i) = i"
proof (rule scatter_at)
  show "(order ! i, i) \<in> set (zip order [0..<length order])" using assms(2) by (force simp: set_zip)
qed (use assms in \<open>auto dest: nth_mem\<close>)

lemma packed_number:
  assumes "j < length (k_groups inners)" "e < length inners"
  defines "order \<equiv> concat (map snd (k_groups inners))"
  defines "pid \<equiv> scatter (replicate (length inners + 1) (length inners)) (zip order [0..<length inners])"
  shows "pid ! e < length inners \<and> order ! (pid ! e) = e"
    "(\<exists>gi lo hi. group_ranges 0 0 (k_groups inners) ! j = (gi, lo, hi) \<and> (lo \<le> pid ! e \<and> pid ! e < hi \<longleftrightarrow> e \<in> set (snd (k_groups inners ! j))))"
proof -
  let ?gs = "k_groups inners"
  have order: "distinct order" "set order = {..<length inners}" "length order = length inners"
    using k_groups_props(3,4) [of inners] mset_eq_length [OF k_groups_props(2) [of inners]] by (simp_all add: order_def)
  have pid: "pid ! (order ! i) = i" if "i < length inners" for i
    unfolding pid_def order(3) [symmetric] by (rule inverse_permutation) (use order that in auto)
  obtain i where i: "i < length inners" "order ! i = e" using assms(2) order(2,3) by (metis in_set_conv_nth lessThan_iff)
  then show "pid ! e < length inners \<and> order ! (pid ! e) = e" using pid by auto
  let ?lo = "length (concat (map snd (take j ?gs)))" and ?ids = "snd (?gs ! j)"
  have seg: "order ! (?lo + k) = ?ids ! k" if "k < length ?ids" for k
    using concat_nth_take [of j "map snd ?gs" k] assms(1) that by (simp add: order_def take_map)
  have hi: "length (concat (map snd (take (Suc j) ?gs))) = ?lo + length ?ids"
    using assms(1) by (simp add: take_Suc_conv_app_nth)
  have "?lo + length ?ids \<le> length inners"
  proof -
    have "length (concat (map snd (take (Suc j) ?gs))) + length (concat (map snd (drop (Suc j) ?gs))) = length order"
      unfolding order_def by (metis append_take_drop_id concat_append length_append map_append)
    then show ?thesis using hi order(3) by simp
  qed
  then have "?lo \<le> i \<and> i < ?lo + length ?ids \<longleftrightarrow> e \<in> set ?ids"
  proof (intro iffI)
    assume "?lo \<le> i \<and> i < ?lo + length ?ids"
    then have "i - ?lo < length ?ids" "?lo + (i - ?lo) = i" by linarith+
    then show "e \<in> set ?ids" using seg [of "i - ?lo"] i(2) nth_mem [of "i - ?lo" ?ids] by simp
  next
    assume "e \<in> set ?ids" and le: "?lo + length ?ids \<le> length inners"
    then obtain k where k: "k < length ?ids" "?ids ! k = e" by (auto simp: in_set_conv_nth)
    then have "order ! (?lo + k) = order ! i" using seg i(2) by simp
    then have "?lo + k = i" using order(1,3) i(1) k(1) le by (simp add: nth_eq_iff_index_eq)
    then show "?lo \<le> i \<and> i < ?lo + length ?ids" using k(1) by simp
  qed
  then show "\<exists>gi lo hi. group_ranges 0 0 ?gs ! j = (gi, lo, hi) \<and> (lo \<le> pid ! e \<and> pid ! e < hi \<longleftrightarrow> e \<in> set ?ids)"
    using pid i by (auto simp: group_ranges_nth [OF assms(1)] hi)
qed

lemma k_desc_perm: "mset (k_desc inners) = mset [0..<length inners]" "distinct (k_desc inners)" "set (k_desc inners) = {..<length inners}"
  "length (k_desc inners) = length inners"
  by (auto simp: k_desc_def)

lemma k_rank_inverse: "i < length inners \<Longrightarrow> k_rank (k_desc inners) ! (k_desc inners ! i) = i"
  unfolding k_rank_def by (rule inverse_permutation) (auto simp: k_desc_perm)

section \<open>What the builder guarantees\<close>

lemma build_mixed:
  assumes "build_exl3_fused_state env xi has_store gl bits True fin inners = Inr st" "xi_concurrency xi \<noteq> None"
  obtains k_max packed where "k_max_launch inners = Inr k_max"
    "packed_dispatch env (xi_moe_arity xi) (ptr_table_of inners) (k_groups inners) (length inners) = Inr packed"
    "fs_tbl st = ptr_table_of inners" "fs_temps st" "fs_unified st" "fs_karr st = k_arrays inners" "fs_kmax st = k_max"
    "fs_kdesc st = Some (k_desc inners)" "fs_krank st = k_rank (k_desc inners)" "fs_groups st = Some (k_groups inners)"
    "fs_group_index st = group_index (k_groups inners) (length inners)" "fs_packed st = packed" "fs_k st = None"
    "fs_k_tuple st = (if length (k_groups inners) = 1
       then Some (fst (hd (k_groups inners)) ! 0, fst (hd (k_groups inners)) ! 1, fst (hd (k_groups inners)) ! 2) else None)"
    "fs_coop st = (length (k_groups inners) = 1 \<and> \<not> fs_gateless st \<and> fst (hd (k_groups inners)) ! 0 = fst (hd (k_groups inners)) ! 1)"
    "fs_gateless st = (gl \<or> list_all (\<lambda>p. ip_gate p = None) inners)"
proof -
  obtain c where c: "xi_concurrency xi = Some c" using assms(2) by auto
  have ok: "\<not> ((gl \<or> list_all (\<lambda>p. ip_gate p = None) inners) \<and> list_ex (\<lambda>p. ip_gate p \<noteq> None) inners)"
    "\<not> (\<not> (gl \<or> list_all (\<lambda>p. ip_gate p = None) inners) \<and> list_ex (\<lambda>p. ip_gate p = None) inners)"
    using assms(1) unfolding build_exl3_fused_state_def Let_def by (auto simp del: list_ex_iff split: if_splits)
  show thesis
    using assms(1) that unfolding build_exl3_fused_state_def Let_def c if_not_P [OF ok(1)] if_not_P [OF ok(2)] option.case karrays_match
      bind_res_simps
    by (auto simp: bind_res_Inr)
qed


text \<open>Two experts of widths 3 and 2, with the packed dispatch on.\<close>

definition sample_linear :: "nat \<Rightarrow> nat linear" where
  "sample_linear k = \<lparr>ln_shape = [1, 1, 16 * k], ln_data = Some ([1, 1, 16 * k], [[k]]), ln_suh = Some [1], ln_svh = Some [2],
     ln_mcg = None, ln_mul1 = None\<rparr>"

definition sample_pack :: "nat \<Rightarrow> nat inner_pack" where
  "sample_pack k = \<lparr>ip_gate = Some (sample_linear k), ip_up = sample_linear k, ip_down = sample_linear k\<rparr>"

definition sample_xi :: ext_info where
  "sample_xi = \<lparr>xi_concurrency = Some 6, xi_moe_arity = Some 37\<rparr>"

lemma sample_build:
  "\<exists>st. build_exl3_fused_state [''VLLM_EXL3_MIXEDK_PACKED'' \<mapsto> ''1''] sample_xi False False 4 True (None, False) [sample_pack 3, sample_pack 2] = Inr st"
proof -
  have "length (concat (map snd (k_groups [sample_pack 3, sample_pack 2]))) = 2"
    using mset_eq_length [OF k_groups_props(2) [of "[sample_pack 3, sample_pack 2]"]] by simp
  then show ?thesis
    using karrays_match [of "[sample_pack 3, sample_pack 2]"]
    by (simp add: build_exl3_fused_state_def k_max_launch_def packed_dispatch_def sample_xi_def sample_pack_def Let_def EXL3_MOE_ARITY_151_def
        bind_res_def)
qed


section \<open>Non-gated layers\<close>

text \<open>A non-gated layer of mixed widths never gets a launch state.  Its packs hold \<open>None\<close> under the key
\<open>gate\<close>, which the search for the largest width does not skip, so the builder raises for every bank of such
experts and every environment, also behind the wrapper that says it lets such layers pass.\<close>

theorem gateless_mixed_never_fuses:
  assumes "inners \<noteq> []" "\<forall>pack \<in> set inners. ip_gate pack = None" "xi_concurrency xi \<noteq> None"
  shows "build_exl3_fused_state env xi has_store gl bits True fin inners = Inl AttributeError \<and>
    build_physical k_attr env xi has_store gl bits True fin inners = Inl AttributeError"
proof -
  obtain pack rest where i: "inners = pack # rest" "ip_gate pack = None" using assms(1,2) by (cases inners) auto
  then have "k_max_launch inners = Inl AttributeError" by (simp add: k_max_launch_def)
  moreover obtain c where "xi_concurrency xi = Some c" using assms(3) by auto
  moreover have "list_all (\<lambda>p. ip_gate p = None) inners" "\<not> list_ex (\<lambda>p. ip_gate p \<noteq> None) inners"
    using assms(2) by (auto simp: list_all_iff list_ex_iff)
  ultimately show ?thesis by (simp add: build_exl3_fused_state_def build_physical_def Let_def)
qed

lemma gateless_mixed_never_fuses_witness:
  "build_exl3_fused_state (\<lambda>_. None) sample_xi False True 4 True (None, False) [(sample_pack 4)\<lparr>ip_gate := None, ip_down := sample_linear 5\<rparr>] =
     Inl AttributeError"
  by (rule gateless_mixed_never_fuses [THEN conjunct1]) (simp_all add: sample_xi_def)

end
