(* ===== verification/Moe_Fused.thy ===== *)
theory Moe_Fused
  imports Moe_State
begin

text \<open>
  The fused dispatch of the routed experts (\<open>apply_exl3_fused_moe\<close> and \<open>apply_exl3_batched_fat\<close> of
  \<open>src/vllm_exl3/exl3.py\<close>): the cooperative kernel for small batches, slices of batches with a crowded expert,
  the batched launches for one bit width, for one width per expert and for one width per group, and the
  experts with many rows, which are decoded and multiplied.  The kernels are parameters.
\<close>

section \<open>Module constants\<close>

definition temp_rows_fused :: "environ \<Rightarrow> nat" where
  "temp_rows_fused env =
     (let rows = (case env ''VLLM_EXL3_MOE_TEMP_ROWS'' of
            None \<Rightarrow> 2048
          | Some raw \<Rightarrow> if raw = '''' then 2048 else (case py_int10 raw of None \<Rightarrow> 2048 | Some i \<Rightarrow> i)) in
      nat (max 256 ((rows + 15) div 16 * 16)))"

definition fat_expert_threshold :: "environ \<Rightarrow> nat" where
  "fat_expert_threshold env =
     (case env ''VLLM_EXL3_FAT_THRESHOLD'' of
        None \<Rightarrow> 256
      | Some raw \<Rightarrow> (case py_int10 raw of None \<Rightarrow> 256 | Some i \<Rightarrow> nat (max 0 i)))"

definition coop_enabled :: "environ \<Rightarrow> bool" where
  "coop_enabled env \<longleftrightarrow> (case env ''VLLM_EXL3_COOP'' of None \<Rightarrow> True | Some s \<Rightarrow> s = ''1'')"

definition COOP_SLOTS_MAX :: nat where "COOP_SLOTS_MAX = 256"

definition moe_lpt_enabled :: "environ \<Rightarrow> bool" where
  "moe_lpt_enabled env \<longleftrightarrow>
     lower (strip (case env ''VLLM_EXL3_MOE_LPT'' of None \<Rightarrow> ''0'' | Some s \<Rightarrow> s)) \<in> {''1'', ''true'', ''yes''}"

section \<open>Launches\<close>

datatype kspec = Scalar "nat \<times> nat \<times> nat" | PerExpert "nat list \<times> nat list \<times> nat list"

datatype targ = TNone | TInt int | TOrder "nat list option"

record 'a launch =
  la_x :: "arow list"
  la_count :: "nat list"
  la_tokens :: "nat list"
  la_weights :: "rat list"
  la_act :: int
  la_k :: kspec
  la_tbl :: "'a ptr_table"
  la_flags :: "(bool \<times> bool) list"
  la_limit :: rat
  la_active :: "int option"
  la_tail :: "targ list"

text \<open>A bound entry point: what it adds to the output, the arity of its binding, whether it takes \<open>num_active\<close>.\<close>

record 'a moe_fn =
  mf_run :: "'a launch \<Rightarrow> arow list \<Rightarrow> arow list"
  mf_arity :: "nat option"
  mf_active :: bool

record 'a coop_call =
  cc_x :: "arow list"
  cc_topk :: nat
  cc_sel :: "nat list"
  cc_weights :: "rat list"
  cc_lo :: nat
  cc_hi :: nat
  cc_hidden :: nat
  cc_k :: "nat \<times> nat \<times> nat"
  cc_codebook :: "bool \<times> bool"
  cc_act :: int
  cc_limit :: rat
  cc_tbl :: "'a ptr_table"

record 'a moe_ext =
  mx_moe :: "'a moe_fn option"
  mx_mixedk :: "'a moe_fn option"
  mx_coop :: "('a coop_call \<Rightarrow> arow list) option"
  mx_fat_gemm :: "(arow \<Rightarrow> 'a list list \<Rightarrow> 'a list \<Rightarrow> nat \<Rightarrow> bool \<times> bool \<Rightarrow> arow) option"
  mx_fat_scatter :: "(arow \<Rightarrow> 'a list list \<Rightarrow> 'a list \<Rightarrow> nat \<Rightarrow> bool \<times> bool \<Rightarrow> arow) option"

definition EXL3_MOE_ARITY_150 :: nat where "EXL3_MOE_ARITY_150 = 35"
definition EXL3_MOE_ARITY_KMAX :: nat where "EXL3_MOE_ARITY_KMAX = 36"
definition EXL3_MOE_ARITY_ORDER :: nat where "EXL3_MOE_ARITY_ORDER = 37"

definition exl3_moe_tail :: "nat option \<Rightarrow> nat \<Rightarrow> nat \<Rightarrow> nat option \<Rightarrow> nat list option \<Rightarrow> targ list" where
  "exl3_moe_tail arity temp_rows n_exp k_max expert_order =
     (let base = [TNone, TNone, TInt 1, TInt (int temp_rows), TInt 16]; at_least = (\<lambda>n. case arity of None \<Rightarrow> False | Some a \<Rightarrow> n \<le> a) in
      case k_max of
        Some k \<Rightarrow>
          if at_least EXL3_MOE_ARITY_ORDER then base @ [TInt (int k), TOrder expert_order]
          else if at_least EXL3_MOE_ARITY_KMAX then base @ [TInt (int k)]
          else if at_least EXL3_MOE_ARITY_150 then base else []
      | None \<Rightarrow>
          if at_least EXL3_MOE_ARITY_151 then base @ [TInt 0, TInt (int n_exp)]
          else if at_least EXL3_MOE_ARITY_150 then base else [])"

text \<open>\<open>scatter_add_\<close> of ones; the last bin is the sentinel.\<close>

definition expert_count :: "nat \<Rightarrow> nat list \<Rightarrow> nat list" where
  "expert_count n_exp local = map (\<lambda>e. length (filter (\<lambda>l. l = e) local)) [0..<Suc n_exp]"

definition limit_arg :: "rat option \<Rightarrow> rat" where
  "limit_arg limit = (case limit of Some l \<Rightarrow> if 0 < l then l else 0 | None \<Rightarrow> 0)"

definition fn_active :: "'a moe_fn \<Rightarrow> targ list \<Rightarrow> int option" where
  "fn_active fn tail = (if mf_active fn \<or> tail \<noteq> [] then Some (- 1) else None)"

section \<open>Experts with many rows\<close>

text \<open>
  One row of \<open>apply_exl3_batched_fat\<close>.  Gate and up go through one product on the joined trellis when their
  shapes and input scales agree.  The activation of the layer is not an argument.
\<close>

definition fat_gate_up ::
  "('a, 'c) torch_ops \<Rightarrow> 'a moe_ext \<Rightarrow> ('a linear \<Rightarrow> bool \<times> bool) \<Rightarrow> 'a linear \<Rightarrow> 'a linear \<Rightarrow> bool \<Rightarrow> arow \<Rightarrow> arow \<times> arow"
where
  "fat_gate_up ops ext flags gate up distinct_pack h =
     (let og = operand_of gate; ou = operand_of up; inter = length (op_svh og) in
      if distinct_pack then
        (to_had_out ops (to_gemm ops (to_had_in ops h (op_suh og)) (to_reconstruct ops (op_trellis og) (bits_of gate) (flags gate))) (op_svh og),
         to_had_out ops (to_gemm ops (to_had_in ops h (op_suh ou)) (to_reconstruct ops (op_trellis ou) (bits_of up) (flags up))) (op_svh ou))
      else
        let h13 = to_had_in ops h (op_suh og); packed13 = map2 (@) (op_trellis og) (op_trellis ou); svh13 = op_svh og @ op_svh ou;
            gate_up = (case mx_fat_gemm ext of
                Some gemm \<Rightarrow> if bits_of up = 4 \<and> flags up = (True, False) then gemm h13 packed13 svh13 (bits_of up) (flags up)
                  else to_had_out ops (to_gemm ops h13 (to_reconstruct ops packed13 (bits_of up) (flags up))) svh13
              | None \<Rightarrow> to_had_out ops (to_gemm ops h13 (to_reconstruct ops packed13 (bits_of up) (flags up))) svh13) in
        (take inter gate_up, drop inter gate_up))"

definition fat_row ::
  "('a, 'c) torch_ops \<Rightarrow> 'a moe_ext \<Rightarrow> ('a linear \<Rightarrow> bool \<times> bool) \<Rightarrow> rat option \<Rightarrow> 'a inner_pack \<Rightarrow> arow \<Rightarrow> arow res"
where
  "fat_row ops ext flags limit pack h =
     (let gateless = (ip_gate pack = None); gate = gate_slot pack; up = ip_up pack; down = ip_down pack; od = operand_of down;
          distinct_gu = (ln_shape gate \<noteq> ln_shape up);
          distinct_suh = (\<not> gateless \<and> ln_suh gate \<noteq> ln_suh up) in
      if \<not> gateless \<and> \<not> distinct_gu \<and> bits_of gate \<noteq> bits_of up then Inl RuntimeError
      else
        let (g, u) = fat_gate_up ops ext flags gate up (distinct_suh \<or> distinct_gu) h;
            g = clamp_gate limit g; u = clamp_up limit u;
            act = (if gateless then map (\<lambda>v. max v 0 * max v 0) u else map2 (\<lambda>g u. to_sigmoid ops g * g * u) g u);
            h2 = to_had_in ops (map (to_half ops) act) (op_suh od) in
        Inr (case mx_fat_scatter ext of
            Some gemm \<Rightarrow> if \<not> distinct_suh \<and> mx_fat_gemm ext \<noteq> None \<and> bits_of down = 4 \<and> flags down = (True, False)
              then gemm h2 (op_trellis od) (op_svh od) (bits_of down) (flags down)
              else to_had_out ops (to_gemm ops h2 (to_reconstruct ops (op_trellis od) (bits_of down) (flags down))) (op_svh od)
          | None \<Rightarrow> to_had_out ops (to_gemm ops h2 (to_reconstruct ops (op_trellis od) (bits_of down) (flags down))) (op_svh od)))"

text \<open>The experts above the cap, each with its segment of the sorted routes.\<close>

fun fat_experts ::
  "(nat \<Rightarrow> arow \<Rightarrow> arow res) \<Rightarrow> nat \<Rightarrow> arow list \<Rightarrow> nat list \<Rightarrow> rat list \<Rightarrow> nat \<Rightarrow> nat \<Rightarrow> nat list \<Rightarrow> arow list \<Rightarrow> arow list res"
where
  "fat_experts row cap xh tokens weights offset e [] out = Inr out"
| "fat_experts row cap xh tokens weights offset e (n_rows # counts) out =
     (if n_rows \<le> cap then fat_experts row cap xh tokens weights (offset + n_rows) (Suc e) counts out
      else bind_res (loop_expert (row e) xh (map (\<lambda>i. (tokens ! i, e, weights ! i)) [offset..<offset + n_rows]) out)
        (fat_experts row cap xh tokens weights (offset + n_rows) (Suc e) counts))"

definition apply_exl3_batched_fat ::
  "('a, 'c) torch_ops \<Rightarrow> 'a moe_ext \<Rightarrow> ('a linear \<Rightarrow> bool \<times> bool) \<Rightarrow> arow list \<Rightarrow> nat list \<Rightarrow> rat list \<Rightarrow> nat list
    \<Rightarrow> 'a inner_pack list \<Rightarrow> rat option \<Rightarrow> nat \<Rightarrow> arow list \<Rightarrow> arow list res"
where
  "apply_exl3_batched_fat ops ext flags xh tokens weights counts inners limit cap out =
     fat_experts (\<lambda>e. fat_row ops ext flags limit (inners ! e)) cap xh tokens weights 0 0 counts out"

section \<open>The layer and its surroundings\<close>

record 'a native_call =
  nc_x :: arow
  nc_tbl :: "'a ptr_table"
  nc_ids :: "nat list"
  nc_weights :: "rat list"
  nc_k :: nat
  nc_extra :: "(nat \<times> rat) option"

text \<open>What a call of the dispatch finds around it: the environment, the extensions and the handles.\<close>

record ('a, 'c) moe_rt =
  rt_env :: environ
  rt_kernels :: kernels
  rt_dev :: string
  rt_cuda :: bool
  rt_capturing :: bool
  rt_ops :: "('a, 'c) torch_ops"
  rt_ext :: "'a moe_ext option"
  rt_native :: "(nat \<times> ('a native_call \<Rightarrow> arow)) option"
  rt_flags :: "'a linear \<Rightarrow> bool \<times> bool"
  rt_forward :: "'a linear \<Rightarrow> arow \<Rightarrow> arow"

text \<open>The attributes of a finished layer the dispatch reads; \<open>rd_hidden\<close> is the width of its rows.\<close>

record 'a moe_ready =
  rd_state :: "'a fused_state option"
  rd_inners :: "'a inner_pack list"
  rd_flags :: "(bool \<times> bool) list"
  rd_act :: int
  rd_bits :: nat
  rd_hidden :: nat
  rd_inter :: nat
  rd_store :: bool
  rd_mixed :: bool

definition rd_unified :: "'a moe_ready \<Rightarrow> bool" where
  "rd_unified ly \<longleftrightarrow> (case rd_state ly of None \<Rightarrow> False | Some st \<Rightarrow> fs_unified st)"

text \<open>The state a layer is left with: a builder that raises leaves none.\<close>

definition finish_state :: "environ \<Rightarrow> kernels \<Rightarrow> bool \<Rightarrow> 'a fused_state res \<Rightarrow> 'a fused_state option" where
  "finish_state env kn mixed_k built =
     (if fused_choice env (kn\<lparr>kn_builds := True\<rparr>) mixed_k then (case built of Inl _ \<Rightarrow> None | Inr st \<Rightarrow> Some st) else None)"

section \<open>The native kernel\<close>

definition native_moe_max_rows :: "environ \<Rightarrow> nat \<Rightarrow> nat" where
  "native_moe_max_rows env bits =
     (let measured = (if env ''VLLM_EXL3_NATIVE_MOE_MEASURED_CAP'' = Some ''1''
            then (if bits = 2 then 8 else if bits = 3 \<or> bits = 4 then 1 else 8) else 8) in
      case env ''VLLM_EXL3_NATIVE_MOE_MAX_ROWS'' of
        None \<Rightarrow> measured
      | Some raw \<Rightarrow> if raw = '''' then measured else (case py_int10 raw of None \<Rightarrow> measured | Some v \<Rightarrow> nat (max 0 v)))"

text \<open>The width of a layer with no state is the configured one; \<open>int(None)\<close> raises.\<close>

definition native_bits :: "'a moe_ready \<Rightarrow> nat res" where
  "native_bits ly =
     (case rd_state ly of None \<Rightarrow> Inr (rd_bits ly) | Some st \<Rightarrow> (case fs_k st of None \<Rightarrow> Inl TypeError | Some k \<Rightarrow> Inr k))"

definition native_moe_dimensions_supported :: "('a, 'c) moe_rt \<Rightarrow> 'a moe_ready \<Rightarrow> nat \<Rightarrow> rat option \<Rightarrow> bool res" where
  "native_moe_dimensions_supported rt ly rows limit =
     (if \<not> rt_cuda rt then Inr False
      else if (case limit of None \<Rightarrow> False | Some l \<Rightarrow> l < 0) then Inr False
      else bind_res (native_bits ly) (\<lambda>bits.
        Inr (1 \<le> rows \<and> rd_hidden ly = 4096 \<and> rd_inter ly \<in> {1024, 2048} \<and> bits \<in> {2, 3, 4} \<and> rd_inners ly \<noteq> [] \<and>
          rows \<le> native_moe_max_rows (rt_env rt) bits)))"

text \<open>One launch per token; a route that is not local reads a valid pointer with weight zero.\<close>

definition native_row ::
  "('a, 'c) moe_rt \<Rightarrow> ('a native_call \<Rightarrow> arow) \<Rightarrow> 'a fused_state \<Rightarrow> nat \<Rightarrow> nat \<Rightarrow> (nat \<times> rat) option \<Rightarrow> arow \<Rightarrow> nat list \<Rightarrow> rat list \<Rightarrow> arow"
where
  "native_row rt run st k n_exp extra h local ws =
     run \<lparr>nc_x = map (to_half (rt_ops rt)) h, nc_tbl = fs_tbl st, nc_ids = map (\<lambda>e. min e (n_exp - 1)) local,
       nc_weights = map2 (\<lambda>e w. to_half (rt_ops rt) w * (if e < n_exp then 1 else 0)) local ws, nc_k = k, nc_extra = extra\<rparr>"

definition apply_native_fused_moe ::
  "('a, 'c) moe_rt \<Rightarrow> 'a moe_ready \<Rightarrow> (string \<times> int list) option \<Rightarrow> rat option \<Rightarrow> arow list \<Rightarrow> int list list \<Rightarrow> rat list list
    \<Rightarrow> arow list option res"
where
  "apply_native_fused_moe rt ly emap limit x ids weights =
     (if rd_store ly then Inr None
      else if rd_flags ly \<noteq> replicate 3 (True, False) then Inr None
      else case rt_native rt of
          None \<Rightarrow> Inr None
        | Some (abi, run) \<Rightarrow>
            bind_res (native_moe_dimensions_supported rt ly (length x) limit) (\<lambda>ok.
              let clamp = (case limit of None \<Rightarrow> 0 | Some l \<Rightarrow> l) in
              if \<not> ok then Inr None
              else if abi < 2 \<and> (rd_inter ly \<noteq> 2048 \<or> 0 < clamp) then Inr None
              else case rd_state ly of
                  None \<Rightarrow> Inr None
                | Some st \<Rightarrow>
                    bind_res (map_res (\<lambda>row. map_topk_to_local (rt_dev rt) [row] (length (rd_inners ly)) emap) ids) (\<lambda>local.
                      if topk_of ids < 1 then Inr None
                      else bind_res (native_bits ly) (\<lambda>k.
                        Inr (Some (map (\<lambda>(h, es, ws). native_row rt run st k (length (rd_inners ly))
                          (if 2 \<le> abi then Some (rd_inter ly, clamp) else None) h es ws) (zip x (zip local weights))))))))"

section \<open>The fused dispatch\<close>

definition coop_wanted :: "('a, 'c) moe_rt \<Rightarrow> 'a moe_ready \<Rightarrow> 'a fused_state \<Rightarrow> nat \<Rightarrow> nat \<Rightarrow> bool" where
  "coop_wanted rt ly st tokens topk \<longleftrightarrow>
     coop_enabled (rt_env rt) \<and> fs_coop st \<and> tokens * topk \<le> COOP_SLOTS_MAX \<and> tokens \<le> fat_expert_threshold (rt_env rt) \<and>
     tokens \<le> temp_rows_fused (rt_env rt) \<and> list_all (\<lambda>f. f = hd (rd_flags ly)) (rd_flags ly) \<and>
     rd_hidden ly mod 128 = 0 \<and> rd_inter ly mod 128 = 0"

definition launch_widths :: "'a fused_state \<Rightarrow> nat \<times> nat \<times> nat" where
  "launch_widths st =
     (case fs_k_tuple st of
        Some kt \<Rightarrow> kt
      | None \<Rightarrow> let k = (case fs_k st of None \<Rightarrow> 4 | Some k \<Rightarrow> if k = 0 then 4 else k) in (k, k, k))"

definition coop_launch :: "('a, 'c) moe_rt \<Rightarrow> 'a moe_ready \<Rightarrow> 'a fused_state \<Rightarrow> rat option \<Rightarrow> arow list \<Rightarrow> nat \<Rightarrow> nat list \<Rightarrow> rat list list \<Rightarrow> 'a coop_call" where
  "coop_launch rt ly st limit x topk local weights =
     \<lparr>cc_x = map (map (to_half (rt_ops rt))) x, cc_topk = topk, cc_sel = local, cc_weights = map (to_half (rt_ops rt)) (concat weights),
      cc_lo = 0, cc_hi = length (rd_inners ly), cc_hidden = rd_hidden ly, cc_k = launch_widths st, cc_codebook = hd (rd_flags ly),
      cc_act = rd_act ly, cc_limit = limit_arg limit, cc_tbl = fs_tbl st\<rparr>"

text \<open>One batched launch; the number of active experts is unknown to the host.\<close>

definition moe_launch ::
  "'a moe_ready \<Rightarrow> rat option \<Rightarrow> arow list \<Rightarrow> kspec \<Rightarrow> 'a ptr_table \<Rightarrow> int option \<Rightarrow> targ list \<Rightarrow> nat list \<Rightarrow> nat list \<Rightarrow> rat list \<Rightarrow> 'a launch"
where
  "moe_launch ly limit xh k tbl active tail counts tokens weights =
     \<lparr>la_x = xh, la_count = counts, la_tokens = tokens, la_weights = weights, la_act = rd_act ly, la_k = k, la_tbl = tbl,
      la_flags = rd_flags ly, la_limit = limit_arg limit, la_active = active, la_tail = tail\<rparr>"

definition run_moe ::
  "'a moe_fn \<Rightarrow> 'a moe_ready \<Rightarrow> rat option \<Rightarrow> arow list \<Rightarrow> kspec \<Rightarrow> 'a ptr_table \<Rightarrow> targ list \<Rightarrow> nat list \<Rightarrow> nat list \<Rightarrow> rat list
    \<Rightarrow> arow list \<Rightarrow> arow list"
where
  "run_moe fn ly limit xh k tbl tail counts tokens weights out =
     mf_run fn (moe_launch ly limit xh k tbl (fn_active fn tail) tail counts tokens weights) out"

text \<open>The routes of a launch: token, local id and rounded weight, in token order.\<close>

definition sorted_by :: "nat list \<Rightarrow> 'b list \<Rightarrow> 'b list" where
  "sorted_by order xs = map ((!) xs) order"

definition mask_routes :: "bool list \<Rightarrow> 'b \<Rightarrow> 'b list \<Rightarrow> 'b list" where
  "mask_routes hide v xs = map2 (\<lambda>m x. if m then v else x) hide xs"

definition fat_mask :: "nat \<Rightarrow> nat list \<Rightarrow> nat \<Rightarrow> nat list \<Rightarrow> bool list" where
  "fat_mask n_exp counts threshold local = map (\<lambda>l. l < n_exp \<and> threshold < counts ! l) local"

text \<open>The order of the rows and of the experts; with the work order, rows follow (rank, id).\<close>

definition launch_order ::
  "('a, 'c) moe_rt \<Rightarrow> 'a fused_state \<Rightarrow> nat \<Rightarrow> nat list \<Rightarrow> nat list \<times> nat list option"
where
  "launch_order rt st n_exp local =
     (case fs_kdesc st of
        Some desc \<Rightarrow>
          if moe_lpt_enabled (rt_env rt) then
            (to_argsort (rt_ops rt) (map (\<lambda>l. (if l < n_exp then fs_krank st ! min l (n_exp - 1) else n_exp) * (n_exp + 1) + l) local), Some desc)
          else (to_argsort (rt_ops rt) local, None)
      | None \<Rightarrow> (to_argsort (rt_ops rt) local, None))"

definition mixedk_mode :: "environ \<Rightarrow> string" where
  "mixedk_mode env = lower (strip (case env ''VLLM_EXL3_MIXEDK_MODE'' of None \<Rightarrow> '''' | Some s \<Rightarrow> s))"

text \<open>The last two of a full tail become the range of a group.\<close>

definition set_band :: "nat \<Rightarrow> nat \<Rightarrow> targ list \<Rightarrow> targ list" where
  "set_band lo hi tail =
     (if 7 \<le> length tail then take (length tail - 2) tail @ [TInt (int lo), TInt (int hi)] else tail)"

text \<open>One launch per group: on the packed numbering, where a group is a range, or on the routes of the group.\<close>

definition packed_groups ::
  "('a, 'c) moe_rt \<Rightarrow> 'a moe_fn \<Rightarrow> 'a moe_ready \<Rightarrow> rat option \<Rightarrow> nat \<Rightarrow> (nat list \<times> nat list) list
    \<Rightarrow> 'a ptr_table \<times> nat list \<times> (nat \<times> nat \<times> nat) list \<Rightarrow> arow list \<Rightarrow> nat list \<Rightarrow> nat list \<Rightarrow> rat list \<Rightarrow> arow list \<Rightarrow> arow list"
where
  "packed_groups rt fn ly limit n_exp groups packed xh flat local weight out =
     (let (tbl, pid, ranges) = packed; p_ids = map ((!) pid) local; p_order = to_argsort (rt_ops rt) p_ids;
          tail = exl3_moe_tail (mf_arity fn) (temp_rows_fused (rt_env rt)) n_exp None None in
      fold (\<lambda>(gi, kt, ids) out.
          run_moe fn ly limit xh (Scalar (kt ! 0, kt ! 1, kt ! 2)) tbl (set_band (fst (snd (ranges ! gi))) (snd (snd (ranges ! gi))) tail)
            (expert_count n_exp p_ids) (sorted_by p_order flat) (sorted_by p_order weight) out)
        (zip [0..<length groups] groups) out)"

definition masked_groups ::
  "('a, 'c) moe_rt \<Rightarrow> 'a moe_fn \<Rightarrow> 'a moe_ready \<Rightarrow> rat option \<Rightarrow> nat \<Rightarrow> 'a fused_state \<Rightarrow> (nat list \<times> nat list) list
    \<Rightarrow> arow list \<Rightarrow> nat list \<Rightarrow> nat list \<Rightarrow> rat list \<Rightarrow> arow list \<Rightarrow> arow list"
where
  "masked_groups rt fn ly limit n_exp st groups xh flat local weight out =
     (let tail = exl3_moe_tail (mf_arity fn) (temp_rows_fused (rt_env rt)) n_exp None None in
      fold (\<lambda>(gi, kt, ids) out.
          let others = map (\<lambda>l. fs_group_index st ! l \<noteq> int gi) local; grp = mask_routes others n_exp local; order = to_argsort (rt_ops rt) grp in
          run_moe fn ly limit xh (Scalar (kt ! 0, kt ! 1, kt ! 2)) (fs_tbl st) (set_band 0 n_exp tail)
            (expert_count n_exp grp) (sorted_by order flat) (sorted_by order (mask_routes others 0 weight)) out)
        (zip [0..<length groups] groups) out)"

text \<open>The routes of experts below the cap: by group, with the widths of every expert, or with one width.\<close>

definition standard_dispatch ::
  "('a, 'c) moe_rt \<Rightarrow> 'a moe_ext \<Rightarrow> 'a moe_fn \<Rightarrow> 'a moe_ready \<Rightarrow> 'a fused_state \<Rightarrow> rat option \<Rightarrow> arow list \<Rightarrow> nat list \<Rightarrow> nat list \<Rightarrow> rat list
    \<Rightarrow> arow list \<Rightarrow> string \<times> arow list"
where
  "standard_dispatch rt ext fn ly st limit xh flat local weight out =
     (let n_exp = length (rd_inners ly); (order, expert_order) = launch_order rt st n_exp local; rows = temp_rows_fused (rt_env rt);
          uniform = (''batched'', run_moe fn ly limit xh (Scalar (launch_widths st)) (fs_tbl st) (exl3_moe_tail (mf_arity fn) rows n_exp None None)
            (expert_count n_exp local) (sorted_by order flat) (sorted_by order weight) out) in
      if \<not> fs_unified st \<or> fs_k_tuple st \<noteq> None then uniform
      else case mx_mixedk ext of
          None \<Rightarrow> uniform
        | Some fn_mk \<Rightarrow>
            let unified = (''mixedk_unified'', run_moe fn_mk ly limit xh (PerExpert (fs_karr st)) (fs_tbl st)
                  (exl3_moe_tail (mf_arity fn_mk) rows n_exp (Some (fs_kmax st)) expert_order)
                  (expert_count n_exp local) (sorted_by order flat) (sorted_by order weight) out) in
            case fs_groups st of
              None \<Rightarrow> unified
            | Some groups \<Rightarrow>
                if mixedk_mode (rt_env rt) \<noteq> ''grouped'' then unified
                else (''mixedk_grouped'', case fs_packed st of
                    Some packed \<Rightarrow> packed_groups rt fn ly limit n_exp groups packed xh flat local weight out
                  | None \<Rightarrow> masked_groups rt fn ly limit n_exp st groups xh flat local weight out))"

text \<open>A batch that is neither cooperative nor sliced.\<close>

definition fused_batch ::
  "('a, 'c) moe_rt \<Rightarrow> 'a moe_ext \<Rightarrow> 'a moe_ready \<Rightarrow> 'a fused_state \<Rightarrow> rat option \<Rightarrow> arow list \<Rightarrow> nat list \<Rightarrow> nat list \<Rightarrow> rat list
    \<Rightarrow> (string option \<times> arow list) res"
where
  "fused_batch rt ext ly st limit x flat local weight =
     (let n_exp = length (rd_inners ly); xh = map (map (to_half (rt_ops rt))) x; threshold = fat_expert_threshold (rt_env rt);
          counts = take n_exp (expert_count n_exp local);
          fat = (\<not> rt_capturing rt \<and> threshold < length x \<and> list_ex (\<lambda>c. threshold < c) counts);
          hide = (if fat then fat_mask n_exp counts threshold local else replicate (length local) False) in
      case mx_moe ext of
        None \<Rightarrow> Inl AttributeError
      | Some fn \<Rightarrow>
          let (label, out) = standard_dispatch rt ext fn ly st limit xh flat (mask_routes hide n_exp local) (mask_routes hide 0 weight)
                (zero_rows (length x) (rd_hidden ly)) in
          if fat then
            let order = to_argsort (rt_ops rt) local in
            bind_res (apply_exl3_batched_fat (rt_ops rt) ext (rt_flags rt) xh (sorted_by order flat) (sorted_by order weight) counts
                (rd_inners ly) limit threshold out) (\<lambda>out.
              Inr (Some (label @ ''+fat''), out))
          else Inr (Some label, out))"

text \<open>The native kernel, if it is the backend; an exception falls through to the other kernels.\<close>

definition try_native ::
  "('a, 'c) moe_rt \<Rightarrow> 'a moe_ready \<Rightarrow> (string \<times> int list) option \<Rightarrow> rat option \<Rightarrow> arow list \<Rightarrow> int list list \<Rightarrow> rat list list
    \<Rightarrow> arow list option"
where
  "try_native rt ly emap limit x ids weights =
     (if get_moe_kernel_backend (rt_env rt) (rt_kernels rt) \<noteq> ''native'' then None
      else case apply_native_fused_moe rt ly emap limit x ids weights of Inl _ \<Rightarrow> None | Inr out \<Rightarrow> out)"

text \<open>The entry point; a long batch with a crowded expert is dispatched in slices.\<close>

definition slice_starts :: "nat \<Rightarrow> nat \<Rightarrow> nat list" where
  "slice_starts step tokens = map ((*) step) [0..<(tokens + step - 1) div step]"

lemma temp_rows_positive: "0 < temp_rows_fused env"
  by (simp add: temp_rows_fused_def Let_def)

function apply_exl3_fused_moe ::
  "('a, 'c) moe_rt \<Rightarrow> 'a moe_ready \<Rightarrow> (string \<times> int list) option \<Rightarrow> rat option \<Rightarrow> arow list \<Rightarrow> int list list \<Rightarrow> rat list list
    \<Rightarrow> (string option \<times> arow list) res"
where
  "apply_exl3_fused_moe rt ly emap limit x ids weights =
     (if rd_store ly \<and> \<not> rd_unified ly then Inl ValueError
      else
        let tokens = length x; topk = topk_of ids; n_exp = length (rd_inners ly); rows = temp_rows_fused (rt_env rt);
            crowd = (\<lambda>local. list_ex (\<lambda>c. rows < c) (take n_exp (expert_count n_exp local))) in
        case try_native rt ly emap limit x ids weights of
          Some out \<Rightarrow> Inr (Some ''native'', out)
        | None \<Rightarrow>
            case rt_ext rt of
              None \<Rightarrow> map_sum id (Pair None) (apply_exl3_python_loop (rt_ops rt) (rt_forward rt) (rt_dev rt) (rd_hidden ly) x ids weights
                (rd_inners ly) emap limit None None (rd_act ly))
            | Some ext \<Rightarrow>
                case rd_state ly of
                  None \<Rightarrow> Inl RuntimeError
                | Some st \<Rightarrow>
                    if \<not> fs_temps st then Inl RuntimeError
                    else bind_res (map_topk_to_local (rt_dev rt) ids n_exp emap) (\<lambda>local.
                      let weight = map (to_half (rt_ops rt)) (concat weights);
                          batched = fused_batch rt ext ly st limit x (flat_token tokens topk) local weight in
                      if coop_wanted rt ly st tokens topk \<and> mx_coop ext \<noteq> None then
                        Inr (Some ''coop'', the (mx_coop ext) (coop_launch rt ly st limit x topk local weights))
                      else if \<not> rt_capturing rt \<and> rows < tokens \<and> crowd local then
                        bind_res (map_res (\<lambda>s. apply_exl3_fused_moe rt ly emap limit (take rows (drop s x)) (take rows (drop s ids))
                            (take rows (drop s weights))) (slice_starts rows tokens)) (\<lambda>parts.
                          Inr (fst (last parts), concat (map snd parts)))
                      else batched))"
  by pat_completeness auto

termination
proof (relation "measure (\<lambda>(rt, ly, emap, limit, x, ids, weights). length x)", goal_cases)
  case (2 rt ly emap limit x ids weights)
  then show ?case using temp_rows_positive [of "rt_env rt"] by (auto simp: min_def)
qed simp

declare apply_exl3_fused_moe.simps [simp del]

section \<open>Routed experts\<close>

text \<open>
  \<open>apply_mixed_reference\<close> takes the store of the opt-in storage; a layer without one has no such attribute.
  \<open>mixed_ok\<close> says that the store is sealed, its expert map unchanged and the arguments fit it.
\<close>

definition apply_mixed_reference ::
  "('a, 'c) moe_rt \<Rightarrow> 'a moe_ready \<Rightarrow> bool \<Rightarrow> (string \<times> int list) option \<Rightarrow> rat option \<Rightarrow> arow list \<Rightarrow> int list list \<Rightarrow> rat list list
    \<Rightarrow> (string \<times> arow list) res"
where
  "apply_mixed_reference rt ly mixed_ok emap limit x ids weights =
     (if rt_capturing rt then Inl ValueError
      else if \<not> rd_store ly then Inl AttributeError
      else if \<not> mixed_ok then Inl ValueError
      else bind_res (apply_exl3_python_loop (rt_ops rt) (rt_forward rt) (rt_dev rt) (rd_hidden ly) x ids weights
            (rd_inners ly) emap limit None None (rd_act ly)) (\<lambda>out.
          Inr (''mixed_k_reference'', out)))"

definition apply_exl3_experts ::
  "('a, 'c) moe_rt \<Rightarrow> 'a moe_ready \<Rightarrow> bool \<Rightarrow> bool option \<Rightarrow> (string \<times> int list) option \<Rightarrow> rat option
    \<Rightarrow> arow list \<Rightarrow> int list list \<Rightarrow> rat list list \<Rightarrow> (string \<times> arow list) res"
where
  "apply_exl3_experts rt ly mixed_ok fused emap limit x ids weights =
     (if (rd_store ly \<or> rd_mixed ly) \<and> \<not> rd_unified ly then
        (if fused = Some True then Inl RuntimeError else apply_mixed_reference rt ly mixed_ok emap limit x ids weights)
      else if rd_inners ly = [] then Inl RuntimeError
      else
        let have_ptrs = (rd_state ly \<noteq> None);
            use_fused = ((case fused of None \<Rightarrow> fused_moe_enabled (rt_env rt) | Some b \<Rightarrow> b) \<and> have_ptrs \<and>
              (case rt_ext rt of None \<Rightarrow> False | Some ext \<Rightarrow> mx_moe ext \<noteq> None)) in
        case (if fused = Some False then None else try_native rt ly emap limit x ids weights) of
          Some out \<Rightarrow> Inr (''native'', out)
        | None \<Rightarrow>
            if fused = Some True \<and> \<not> have_ptrs then Inl RuntimeError
            else if use_fused then
              bind_res (apply_exl3_fused_moe rt ly emap limit x ids weights) (\<lambda>(label, out).
                Inr (case label of None \<Rightarrow> ''fused'' | Some l \<Rightarrow> l, out))
            else
              bind_res (apply_exl3_python_loop (rt_ops rt) (rt_forward rt) (rt_dev rt) (rd_hidden ly) x ids weights
                (rd_inners ly) emap limit None None (rd_act ly)) (\<lambda>out.
                Inr (''loop'', out)))"

end
