(* ===== verification/Moe_Contract.thy ===== *)
theory Moe_Contract
  imports Moe_Fused
begin

text \<open>
  What the dispatch of the routed experts relies on, as contracts of the kernels, and the proof that under them
  the fused dispatch computes the sums of the loop over experts.
\<close>

section \<open>What a batched launch does\<close>

text \<open>
  The kernel walks the experts, in the order of their ids or in the order it is given, and takes the rows of
  each from the running offset.  A band restricts the experts that run.
\<close>

definition launch_experts :: "'a launch \<Rightarrow> nat" where
  "launch_experts la = length (la_count la) - 1"

definition launch_walk :: "'a launch \<Rightarrow> nat list" where
  "launch_walk la = (case drop 6 (la_tail la) of [TOrder (Some order)] \<Rightarrow> order | _ \<Rightarrow> [0..<launch_experts la])"

definition launch_band :: "'a launch \<Rightarrow> nat \<Rightarrow> bool" where
  "launch_band la e \<longleftrightarrow> (case drop 5 (la_tail la) of [TInt lo, TInt hi] \<Rightarrow> lo \<le> int e \<and> int e < hi | _ \<Rightarrow> True)"

definition launch_width :: "'a launch \<Rightarrow> nat \<Rightarrow> nat \<times> nat \<times> nat" where
  "launch_width la e = (case la_k la of Scalar kt \<Rightarrow> kt | PerExpert (g, u, d) \<Rightarrow> (g ! e, u ! e, d ! e))"

text \<open>The largest width the kernel is compiled for, where the binding takes it.\<close>

definition launch_kmax_ok :: "'a launch \<Rightarrow> nat \<Rightarrow> bool" where
  "launch_kmax_ok la e \<longleftrightarrow>
     (case la_k la of
        Scalar _ \<Rightarrow> True
      | PerExpert _ \<Rightarrow> (case drop 5 (la_tail la) of
            TInt k # _ \<Rightarrow> (case launch_width la e of (g, u, d) \<Rightarrow> int g \<le> k \<and> int u \<le> k \<and> int d \<le> k)
          | _ \<Rightarrow> True))"

text \<open>A launch the kernel is specified for; \<open>cap\<close> is the row capacity of its buffers.\<close>

definition launch_specified :: "nat \<Rightarrow> 'a launch \<Rightarrow> bool" where
  "launch_specified cap la \<longleftrightarrow>
     length (la_tokens la) = length (la_weights la) \<and> sum_list (la_count la) = length (la_tokens la) \<and>
     (\<forall>t \<in> set (la_tokens la). t < length (la_x la)) \<and>
     distinct (launch_walk la) \<and> set (launch_walk la) = {..<launch_experts la} \<and>
     (\<forall>e < launch_experts la. launch_band la e \<longrightarrow> la_count la ! e \<le> cap \<and> launch_kmax_ok la e)"

text \<open>The row of one expert: products with its three tensors and the activation in between.\<close>

definition moe_row :: "('a, 'c) torch_ops \<Rightarrow> 'a launch \<Rightarrow> nat \<Rightarrow> arow \<Rightarrow> arow" where
  "moe_row ops la e h =
     (let (kg, ku, kd) = launch_width la e; limit = Some (la_limit la);
          g = clamp_gate limit (trellis_product ops kg (la_flags la ! 0) (pt_gate (la_tbl la) ! e) h);
          u = clamp_up limit (trellis_product ops ku (la_flags la ! 1) (pt_up (la_tbl la) ! e) h);
          a = (if la_act la = 2 then relu_square u else if la_act la = 3 then swiglu_oai ops g u else silu_mul ops g u) in
      trellis_product ops kd (la_flags la ! 2) (pt_down (la_tbl la) ! e) (map (to_half ops) a))"

fun walk_adds :: "(nat \<Rightarrow> bool) \<Rightarrow> (nat \<Rightarrow> arow \<Rightarrow> arow) \<Rightarrow> arow list \<Rightarrow> nat list \<Rightarrow> nat list \<Rightarrow> rat list \<Rightarrow> nat \<Rightarrow> nat list \<Rightarrow> (nat \<times> arow) list" where
  "walk_adds sel row x counts tokens weights start [] = []"
| "walk_adds sel row x counts tokens weights start (e # es) =
     (if sel e then map (\<lambda>i. (tokens ! i, scale_row (weights ! i) (row e (x ! (tokens ! i))))) [start..<start + counts ! e] else []) @
     walk_adds sel row x counts tokens weights (start + counts ! e) es"

definition launch_adds :: "('a, 'c) torch_ops \<Rightarrow> 'a launch \<Rightarrow> (nat \<times> arow) list" where
  "launch_adds ops la =
     walk_adds (launch_band la) (moe_row ops la) (la_x la) (la_count la) (la_tokens la) (la_weights la) 0 (launch_walk la)"

text \<open>The contract of a bound entry point: a specified launch adds the rows of its routes to the output.\<close>

definition moe_contract :: "('a, 'c) torch_ops \<Rightarrow> nat \<Rightarrow> 'a moe_fn \<Rightarrow> bool" where
  "moe_contract ops cap fn \<longleftrightarrow> (\<forall>la out. launch_specified cap la \<longrightarrow> mf_run fn la out = index_add out (launch_adds ops la))"

section \<open>Rows sorted by expert\<close>

lemma count_list_replicate [simp]: "count_list (replicate n x) y = (if x = y then n else 0)"
  by (induction n) auto

lemma sorted_key_unique:
  fixes key :: "'a \<Rightarrow> 'b :: linorder"
  assumes "mset xs = mset ys" "sorted (map key xs)" "sorted (map key ys)" "inj_on key (set xs)"
  shows "xs = ys"
proof -
  have "map key xs = map key ys"
    using assms(1-3) properties_for_sort [of "map key ys" "map key xs"] by (metis mset_map sorted_sort_id)
  then show ?thesis using assms(4) mset_eq_setD [OF assms(1)] by (simp add: map_inj_on)
qed

lemma sorted_blocks:
  fixes key :: "nat \<Rightarrow> 'b :: linorder"
  assumes srt: "sorted (map key ks)" and walk: "sorted_wrt (\<lambda>a b. key a < key b) walk"
    and known: "set ks \<subseteq> insert n (set walk)" and last: "\<forall>e \<in> set walk. key e < key n"
  shows "ks = concat (map (\<lambda>e. replicate (count_list ks e) e) walk) @ replicate (count_list ks n) n"
    (is "_ = ?bs walk @ ?tail")
proof (rule sorted_key_unique [of _ _ key])
  have fresh: "n \<notin> set walk" using last by auto
  have d: "distinct walk" using walk by (induction walk) auto
  have cl: "count_list (concat (map (\<lambda>e. replicate (c e) e) es)) v = (if v \<in> set es then c v else 0)" if "distinct es" for es and c :: "nat \<Rightarrow> nat" and v
    using that by (induction es) (auto simp: count_list_append count_list_0_iff)
  show "mset ks = mset (?bs walk @ ?tail)"
  proof (rule multiset_eqI)
    fix v
    have "count_list (?bs walk) v = (if v \<in> set walk then count_list ks v else 0)" using cl [OF d, of "count_list ks" v] .
    moreover have "count_list ks v = 0" if "v \<notin> set walk" "v \<noteq> n" using that known by (auto simp: count_list_0_iff)
    ultimately have "count_list ks v = count_list (?bs walk @ ?tail) v" using fresh by (auto simp: count_list_append)
    then show "count (mset ks) v = count (mset (?bs walk @ ?tail)) v" unfolding count_mset .
  qed
  have "sorted (map key (concat (map (\<lambda>e. replicate (c e) e) es)))" if "sorted_wrt (\<lambda>a b. key a < key b) es" for es and c :: "nat \<Rightarrow> nat"
    using that by (induction es) (auto simp: sorted_append less_imp_le)
  then show "sorted (map key (?bs walk @ ?tail))" using walk last by (auto simp: sorted_append less_imp_le)
  have "inj_on key (set walk)" using walk by (metis distinct_map sorted_wrt_map strict_sorted_iff)
  then have "inj_on key (insert n (set walk))" using last by (auto simp: inj_on_def dest: less_imp_neq)
  then show "inj_on key (set ks)" using known inj_on_subset by blast
qed (use srt in simp)

lemma walk_adds_blocks:
  "walk_adds sel row x counts tokens weights start es =
     map (\<lambda>(i, e). (tokens ! i, scale_row (weights ! i) (row e (x ! (tokens ! i)))))
       (filter (\<lambda>(i, e). sel e) (enumerate start (concat (map (\<lambda>e. replicate (counts ! e) e) es))))"
proof (induction es arbitrary: start)
  case (Cons e es)
  have "enumerate start (replicate c e) = map (\<lambda>i. (i, e)) [start..<start + c]" for c
    by (rule nth_equalityI) (auto simp: nth_enumerate_eq)
  then show ?case by (simp add: Cons enumerate_append_eq filter_map comp_def)
qed simp

lemma expert_count_nth: "e \<le> n \<Longrightarrow> expert_count n loc ! e = count_list loc e"
  by (simp add: expert_count_def count_list_eq_length_filter eq_commute del: upt_Suc)

lemma count_list_mset: "mset xs = mset ys \<Longrightarrow> count_list xs v = count_list ys v"
  by (metis count_mset)

lemma permuted_mset: "mset p = mset [0..<length xs] \<Longrightarrow> mset (map ((!) xs) p) = mset xs"
  by (metis map_nth mset_map)

text \<open>
  The rows of a walk, when the routes are sorted by a rank that grows along the walk and puts the sentinel last,
  are the routes of the selected experts.
\<close>

lemma sorted_walk_adds:
  fixes key :: "nat \<Rightarrow> 'b :: linorder"
  assumes len: "length flat = length loc" "length ws = length loc"
    and p: "mset p = mset [0..<length loc]" "sorted (map (\<lambda>j. key (loc ! j)) p)"
    and walk: "sorted_wrt (\<lambda>a b. key a < key b) walk" "set walk = {..<n}" "\<forall>e < n. key e < key n"
    and loc: "\<forall>l \<in> set loc. l \<le> n"
  shows "mset (walk_adds sel row x (expert_count n loc) (sorted_by p flat) (sorted_by p ws) 0 walk) =
    mset (map (route_add row x) (filter (\<lambda>(t, e, w). e < n \<and> sel e) (zip flat (zip loc ws))))"
proof -
  let ?ks = "map ((!) loc) p" and ?add = "\<lambda>j. (flat ! j, scale_row (ws ! j) (row (loc ! j) (x ! (flat ! j))))"
  have ks: "mset ?ks = mset loc" using p(1) by (rule permuted_mset)
  have blocks: "?ks = concat (map (\<lambda>e. replicate (count_list ?ks e) e) walk) @ replicate (count_list ?ks n) n"
  proof (rule sorted_blocks [OF _ walk(1)])
    show "sorted (map key ?ks)" using p(2) by (simp add: comp_def)
    have "set ?ks = set loc" using mset_eq_setD [OF ks] .
    then show "set ?ks \<subseteq> insert n (set walk)" using loc walk(2) by (auto simp: le_less)
  qed (use walk in auto)
  have "map (\<lambda>e. replicate (expert_count n loc ! e) e) walk = map (\<lambda>e. replicate (count_list ?ks e) e) walk"
    using walk(2) count_list_mset [OF ks] by (simp add: expert_count_nth)
  then have "walk_adds sel row x (expert_count n loc) (sorted_by p flat) (sorted_by p ws) 0 walk =
      map (\<lambda>(i, e). (sorted_by p flat ! i, scale_row (sorted_by p ws ! i) (row e (x ! (sorted_by p flat ! i)))))
        (filter (\<lambda>(i, e). sel e) (enumerate 0 (concat (map (\<lambda>e. replicate (count_list ?ks e) e) walk))))" (is "_ = map ?f (filter ?P ?B)")
    by (simp only: walk_adds_blocks)
  also have "filter ?P ?B = filter (\<lambda>(i, e). e < n \<and> sel e) (enumerate 0 ?ks)"
  proof -
    have "filter (\<lambda>(i, e). e < n \<and> sel e) (enumerate m (replicate c n)) = []" for m c
      by (auto simp: filter_empty_conv enumerate_eq_zip dest: set_zip_rightD)
    moreover have "e < n" if "(i, e) \<in> set ?B" for i e
    proof -
      have "e \<in> set (concat (map (\<lambda>e. replicate (count_list ?ks e) e) walk))"
        using that unfolding enumerate_eq_zip by (rule set_zip_rightD)
      then show ?thesis using walk(2) by (auto simp: set_replicate_conv_if split: if_splits)
    qed
    then have "filter ?P ?B = filter (\<lambda>(i, e). e < n \<and> sel e) ?B" by (intro filter_cong refl) blast
    ultimately show ?thesis by (subst (2) blocks) (simp add: enumerate_append_eq)
  qed
  also have "map ?f (filter (\<lambda>(i, e). e < n \<and> sel e) (enumerate 0 ?ks)) = map ?add (filter (\<lambda>j. loc ! j < n \<and> sel (loc ! j)) p)"
  proof -
    have "enumerate 0 ?ks = map (\<lambda>i. (i, loc ! (p ! i))) [0..<length p]"
      by (rule nth_equalityI) (auto simp: nth_enumerate_eq)
    then have "map ?f (filter (\<lambda>(i, e). e < n \<and> sel e) (enumerate 0 ?ks)) =
        map (\<lambda>i. ?add (p ! i)) (filter (\<lambda>i. loc ! (p ! i) < n \<and> sel (loc ! (p ! i))) [0..<length p])"
      by (simp add: filter_map comp_def sorted_by_def)
    also have "\<dots> = map ?add (filter (\<lambda>j. loc ! j < n \<and> sel (loc ! j)) (map ((!) p) [0..<length p]))"
      by (simp only: filter_map map_map comp_def)
    finally show ?thesis by (simp only: map_nth)
  qed
  also have "mset \<dots> = image_mset ?add (filter_mset (\<lambda>j. loc ! j < n \<and> sel (loc ! j)) (mset [0..<length loc]))"
    using p(1) by simp
  also have "\<dots> = mset (map ?add (filter (\<lambda>j. loc ! j < n \<and> sel (loc ! j)) [0..<length loc]))" by simp
  also have "map ?add (filter (\<lambda>j. loc ! j < n \<and> sel (loc ! j)) [0..<length loc]) =
      map (route_add row x) (filter (\<lambda>(t, e, w). e < n \<and> sel e) (zip flat (zip loc ws)))"
  proof -
    have "zip flat (zip loc ws) = map (\<lambda>j. (flat ! j, loc ! j, ws ! j)) [0..<length loc]"
      using len by (auto intro: nth_equalityI)
    then show ?thesis by (simp add: filter_map comp_def route_add_def)
  qed
  finally show ?thesis .
qed

section \<open>The other kernels and the handles\<close>

text \<open>The value of a row of one expert: \<open>h\<close> is in half precision.\<close>

definition expert_val ::
  "('a, 'c) torch_ops \<Rightarrow> ('a linear \<Rightarrow> bool \<times> bool) \<Rightarrow> int \<Rightarrow> rat option \<Rightarrow> 'a inner_pack \<Rightarrow> arow \<Rightarrow> arow"
where
  "expert_val ops flags act limit pack h =
     (let product = (\<lambda>l. trellis_product ops (bits_of l) (flags l) (operand_of l));
          g = clamp_gate limit (product (gate_slot pack) h); u = clamp_up limit (product (ip_up pack) h) in
      product (ip_down pack)
        (map (to_half ops) (if act = 2 then relu_square u else if act = 3 then swiglu_oai ops g u else silu_mul ops g u)))"

text \<open>Sorting, and the \<open>forward\<close> of a handle.\<close>

definition argsort_contract :: "('a, 'c) torch_ops \<Rightarrow> bool" where
  "argsort_contract ops \<longleftrightarrow>
     (\<forall>ks. mset (to_argsort ops ks) = mset [0..<length ks] \<and> sorted (map ((!) ks) (to_argsort ops ks)))"

definition forward_contract :: "('a, 'c) moe_rt \<Rightarrow> bool" where
  "forward_contract rt \<longleftrightarrow>
     (\<forall>l h. rt_forward rt l h = trellis_product (rt_ops rt) (bits_of l) (rt_flags rt l) (operand_of l) h)"

text \<open>The cooperative kernel, for the batches its scratch holds; experts outside the range add nothing.\<close>

definition coop_row :: "('a, 'c) torch_ops \<Rightarrow> 'a coop_call \<Rightarrow> nat \<Rightarrow> arow \<Rightarrow> arow" where
  "coop_row ops cc e h =
     (let (kg, ku, kd) = cc_k cc; limit = Some (cc_limit cc);
          g = clamp_gate limit (trellis_product ops kg (cc_codebook cc) (pt_gate (cc_tbl cc) ! e) h);
          u = clamp_up limit (trellis_product ops ku (cc_codebook cc) (pt_up (cc_tbl cc) ! e) h);
          a = (if cc_act cc = 2 then relu_square u else if cc_act cc = 3 then swiglu_oai ops g u else silu_mul ops g u) in
      trellis_product ops kd (cc_codebook cc) (pt_down (cc_tbl cc) ! e) (map (to_half ops) a))"

definition coop_contract :: "('a, 'c) torch_ops \<Rightarrow> ('a coop_call \<Rightarrow> arow list) \<Rightarrow> bool" where
  "coop_contract ops run \<longleftrightarrow>
     (\<forall>cc. length (cc_sel cc) = length (cc_x cc) * cc_topk cc \<and> length (cc_sel cc) \<le> COOP_SLOTS_MAX \<and> cc_hidden cc mod 128 = 0 \<longrightarrow>
        run cc = index_add (zero_rows (length (cc_x cc)) (cc_hidden cc))
          (map (route_add (coop_row ops cc) (cc_x cc)) (filter (\<lambda>(t, e, w). cc_lo cc \<le> e \<and> e < cc_hi cc)
            (zip (flat_token (length (cc_x cc)) (cc_topk cc)) (zip (cc_sel cc) (cc_weights cc))))))"

text \<open>Decoding and multiplying: columns of joined trellises, transforms in blocks of 128, the fused product.\<close>

definition columns_contract :: "('a, 'c) torch_ops \<Rightarrow> bool" where
  "columns_contract ops \<longleftrightarrow>
     (\<forall>t t' k cb. length t = length t' \<longrightarrow> to_reconstruct ops (map2 (@) t t') k cb = to_reconstruct ops t k cb @ to_reconstruct ops t' k cb) \<and>
     (\<forall>h c c'. to_gemm ops h (c @ c') = to_gemm ops h c @ to_gemm ops h c' \<and> length (to_gemm ops h c) = length c) \<and>
     (\<forall>y s. length y = length s \<longrightarrow> length (to_had_out ops y s) = length s) \<and>
     (\<forall>y y' s s'. length y = length s \<and> length s mod 128 = 0 \<longrightarrow>
        to_had_out ops (y @ y') (s @ s') = to_had_out ops y s @ to_had_out ops y' s')"

definition fat_contract :: "('a, 'c) torch_ops \<Rightarrow> (arow \<Rightarrow> 'a list list \<Rightarrow> 'a list \<Rightarrow> nat \<Rightarrow> bool \<times> bool \<Rightarrow> arow) \<Rightarrow> bool" where
  "fat_contract ops gemm \<longleftrightarrow> (\<forall>h t s k cb. gemm h t s k cb = to_had_out ops (to_gemm ops h (to_reconstruct ops t k cb)) s)"

definition kernels_ok :: "('a, 'c) moe_rt \<Rightarrow> 'a moe_ext \<Rightarrow> bool" where
  "kernels_ok rt ext \<longleftrightarrow>
     argsort_contract (rt_ops rt) \<and> forward_contract rt \<and> columns_contract (rt_ops rt) \<and>
     (\<forall>fn. mx_moe ext = Some fn \<or> mx_mixedk ext = Some fn \<longrightarrow> moe_contract (rt_ops rt) (temp_rows_fused (rt_env rt)) fn) \<and>
     (\<forall>run. mx_coop ext = Some run \<longrightarrow> coop_contract (rt_ops rt) run) \<and>
     (\<forall>gemm. mx_fat_gemm ext = Some gemm \<or> mx_fat_scatter ext = Some gemm \<longrightarrow> fat_contract (rt_ops rt) gemm)"

text \<open>What loading leaves: handles with their tensors, one codebook, an activation that fits the packs.\<close>

definition handle_ok :: "('a, 'c) torch_ops \<Rightarrow> ('a linear \<Rightarrow> bool \<times> bool) \<Rightarrow> 'a linear \<Rightarrow> bool" where
  "handle_ok ops flags l \<longleftrightarrow>
     ln_data l \<noteq> None \<and> length (op_trellis (operand_of l)) = hd (ln_shape l) \<and>
     length (op_svh (operand_of l)) mod 128 = 0 \<and>
     length (to_reconstruct ops (op_trellis (operand_of l)) (bits_of l) (flags l)) = length (op_svh (operand_of l))"

definition layer_ok :: "('a, 'c) moe_rt \<Rightarrow> 'a moe_ready \<Rightarrow> bool" where
  "layer_ok rt ly \<longleftrightarrow>
     (\<forall>pack \<in> set (rd_inners ly).
        flag_pack (rt_flags rt) pack = rd_flags ly \<and> (rd_act ly = 2 \<longleftrightarrow> ip_gate pack = None) \<and>
        handle_ok (rt_ops rt) (rt_flags rt) (gate_slot pack) \<and> handle_ok (rt_ops rt) (rt_flags rt) (ip_up pack))"

text \<open>
  The experts with many rows are decoded without regard to the activation of the layer, and a joined gate and up
  with the codebook of up.
\<close>

definition fat_safe :: "('a, 'c) moe_rt \<Rightarrow> 'a moe_ready \<Rightarrow> nat \<Rightarrow> bool" where
  "fat_safe rt ly tokens \<longleftrightarrow>
     rt_capturing rt \<or> tokens \<le> fat_expert_threshold (rt_env rt) \<or> (rd_act ly \<noteq> 3 \<and> rd_flags ly ! 0 = rd_flags ly ! 1)"

section \<open>Rows\<close>

lemma clamp_limit_arg [simp]:
  "clamp_gate (Some (limit_arg limit)) g = clamp_gate limit g" "clamp_up (Some (limit_arg limit)) u = clamp_up limit u"
  by (auto simp: clamp_gate_def clamp_up_def limit_arg_def split: option.splits)

lemma clamp_length [simp]: "length (clamp_gate limit g) = length g" "length (clamp_up limit u) = length u"
  by (auto simp: clamp_gate_def clamp_up_def split: option.splits)

lemma layer_flags:
  assumes "layer_ok rt ly" "e < length (rd_inners ly)"
  shows "rd_flags ly = [rt_flags rt (gate_slot (rd_inners ly ! e)), rt_flags rt (ip_up (rd_inners ly ! e)), rt_flags rt (ip_down (rd_inners ly ! e))]"
  using assms unfolding layer_ok_def by (metis (no_types, lifting) flag_pack_def gate_slot_def nth_mem)

lemma table_at:
  assumes "e < length inners"
  shows "pt_gate (ptr_table_of inners) ! e = operand_of (gate_slot (inners ! e))" "pt_up (ptr_table_of inners) ! e = operand_of (ip_up (inners ! e))"
    "pt_down (ptr_table_of inners) ! e = operand_of (ip_down (inners ! e))"
  using assms by (simp_all add: ptr_table_of_def)

text \<open>A batched launch with the right widths and tables computes the value of an expert.\<close>

lemma moe_row_value:
  assumes ok: "layer_ok rt ly" and e: "e < length (rd_inners ly)"
    and tbl: "pt_gate tbl ! i = operand_of (gate_slot (rd_inners ly ! e))" "pt_up tbl ! i = operand_of (ip_up (rd_inners ly ! e))"
      "pt_down tbl ! i = operand_of (ip_down (rd_inners ly ! e))"
    and width: "launch_width (moe_launch ly limit xh k tbl active tail counts tokens weights) i =
      (bits_of (gate_slot (rd_inners ly ! e)), bits_of (ip_up (rd_inners ly ! e)), bits_of (ip_down (rd_inners ly ! e)))"
  shows "moe_row (rt_ops rt) (moe_launch ly limit xh k tbl active tail counts tokens weights) i h =
    expert_val (rt_ops rt) (rt_flags rt) (rd_act ly) limit (rd_inners ly ! e) h"
  using layer_flags [OF ok e] tbl unfolding moe_row_def width
  by (simp add: expert_val_def Let_def moe_launch_def)

lemma table_row_value:
  assumes ok: "layer_ok rt ly" and e: "e < length (rd_inners ly)"
    and width: "launch_width (moe_launch ly limit xh k (ptr_table_of (rd_inners ly)) active tail counts tokens weights) e =
      (bits_of (gate_slot (rd_inners ly ! e)), bits_of (ip_up (rd_inners ly ! e)), bits_of (ip_down (rd_inners ly ! e)))"
  shows "moe_row (rt_ops rt) (moe_launch ly limit xh k (ptr_table_of (rd_inners ly)) active tail counts tokens weights) e h =
    expert_val (rt_ops rt) (rt_flags rt) (rd_act ly) limit (rd_inners ly ! e) h"
  by (rule moe_row_value [OF ok e table_at [OF e] width])

lemma coop_row_value:
  assumes ok: "layer_ok rt ly" and e: "e < length (rd_inners ly)" and tbl: "fs_tbl st = ptr_table_of (rd_inners ly)"
    and width: "launch_widths st = (bits_of (gate_slot (rd_inners ly ! e)), bits_of (ip_up (rd_inners ly ! e)), bits_of (ip_down (rd_inners ly ! e)))"
    and one: "list_all (\<lambda>f. f = hd (rd_flags ly)) (rd_flags ly)"
  shows "coop_row (rt_ops rt) (coop_launch rt ly st limit x topk local weights) e h =
    expert_val (rt_ops rt) (rt_flags rt) (rd_act ly) limit (rd_inners ly ! e) h"
  using layer_flags [OF ok e] one table_at [OF e] unfolding coop_row_def
  by (simp add: expert_val_def Let_def coop_launch_def tbl width)

lemma layer_gate:
  assumes "layer_ok rt ly" "e < length (rd_inners ly)"
  shows "rd_act ly = 2 \<longleftrightarrow> ip_gate (rd_inners ly ! e) = None"
  using assms unfolding layer_ok_def by (metis nth_mem)

lemma loop_row_value:
  assumes ok: "layer_ok rt ly" "forward_contract rt" and e: "e < length (rd_inners ly)"
  shows "expert_output (rt_ops rt) (rt_forward rt) (rd_act ly) (case rd_inners ly of [] \<Rightarrow> False | pack # _ \<Rightarrow> ip_gate pack = None) limit
      (rd_inners ly ! e) h =
    Inr (expert_val (rt_ops rt) (rt_flags rt) (rd_act ly) limit (rd_inners ly ! e) (map (to_half (rt_ops rt)) h))"
proof -
  have "(case rd_inners ly of [] \<Rightarrow> False | pack # _ \<Rightarrow> ip_gate pack = None) \<longleftrightarrow> rd_act ly = 2"
    using layer_gate [OF ok(1), of 0] e by (auto split: list.splits)
  then show ?thesis
    using layer_gate [OF ok(1) e] ok(2)
    by (auto simp: expert_output_def expert_val_def gate_slot_def forward_contract_def Let_def split: option.splits)
qed

text \<open>A row of an expert with many rows, joined or apart.\<close>

lemma columns_contractD:
  assumes "columns_contract ops"
  shows "length t = length t' \<Longrightarrow> to_reconstruct ops (map2 (@) t t') k cb = to_reconstruct ops t k cb @ to_reconstruct ops t' k cb"
    "to_gemm ops h (c @ c') = to_gemm ops h c @ to_gemm ops h c'" "length (to_gemm ops h c) = length c"
    "length y = length s \<Longrightarrow> length (to_had_out ops y s) = length s"
    "length y = length s \<Longrightarrow> length s mod 128 = 0 \<Longrightarrow> to_had_out ops (y @ y') (s @ s') = to_had_out ops y s @ to_had_out ops y' s'"
  using assms unfolding columns_contract_def by (blast, blast, blast, blast, metis)

lemma fat_contractD:
  "fat_contract ops gemm \<Longrightarrow> gemm h t s k cb = to_had_out ops (to_gemm ops h (to_reconstruct ops t k cb)) s"
  unfolding fat_contract_def by blast

lemma joined_product:
  assumes "columns_contract ops" "handle_ok ops flags gate" "handle_ok ops flags up" "ln_shape gate = ln_shape up" "flags gate = flags up"
    "op_suh (operand_of gate) = op_suh (operand_of up)"
  shows "to_had_out ops (to_gemm ops (to_had_in ops h (op_suh (operand_of gate)))
      (to_reconstruct ops (map2 (@) (op_trellis (operand_of gate)) (op_trellis (operand_of up))) (bits_of up) (flags up)))
      (op_svh (operand_of gate) @ op_svh (operand_of up)) =
    trellis_product ops (bits_of gate) (flags gate) (operand_of gate) h @ trellis_product ops (bits_of up) (flags up) (operand_of up) h"
    "length (trellis_product ops (bits_of gate) (flags gate) (operand_of gate) h) = length (op_svh (operand_of gate))"
proof -
  note c = columns_contractD [OF assms(1)] and hg = assms(2) [unfolded handle_ok_def] and hu = assms(3) [unfolded handle_ok_def]
  have bits: "bits_of gate = bits_of up" using assms(4) by (simp add: bits_of_def)
  have "length (op_trellis (operand_of gate)) = length (op_trellis (operand_of up))" using hg hu assms(4) by simp
  then have "to_reconstruct ops (map2 (@) (op_trellis (operand_of gate)) (op_trellis (operand_of up))) (bits_of up) (flags up) =
      to_reconstruct ops (op_trellis (operand_of gate)) (bits_of gate) (flags gate) @
      to_reconstruct ops (op_trellis (operand_of up)) (bits_of up) (flags up)"
    using c by (simp add: bits assms(5))
  then show "to_had_out ops (to_gemm ops (to_had_in ops h (op_suh (operand_of gate)))
      (to_reconstruct ops (map2 (@) (op_trellis (operand_of gate)) (op_trellis (operand_of up))) (bits_of up) (flags up)))
      (op_svh (operand_of gate) @ op_svh (operand_of up)) =
    trellis_product ops (bits_of gate) (flags gate) (operand_of gate) h @ trellis_product ops (bits_of up) (flags up) (operand_of up) h"
    using c hg by (simp add: trellis_product_def assms(6))
  show "length (trellis_product ops (bits_of gate) (flags gate) (operand_of gate) h) = length (op_svh (operand_of gate))"
    using c hg by (simp add: trellis_product_def)
qed

lemma fat_kernel_value:
  assumes "\<forall>gemm. mx_fat_gemm ext = Some gemm \<longrightarrow> fat_contract ops gemm"
  shows "(case mx_fat_gemm ext of
      Some gemm \<Rightarrow> if b then gemm h t s k cb else to_had_out ops (to_gemm ops h (to_reconstruct ops t k cb)) s
    | None \<Rightarrow> to_had_out ops (to_gemm ops h (to_reconstruct ops t k cb)) s) = to_had_out ops (to_gemm ops h (to_reconstruct ops t k cb)) s"
  using assms by (auto dest: fat_contractD split: option.splits)

lemma fat_gate_up_value:
  assumes k: "kernels_ok rt ext" and h: "handle_ok (rt_ops rt) (rt_flags rt) gate" "handle_ok (rt_ops rt) (rt_flags rt) up"
    and same: "\<not> apart \<Longrightarrow> ln_shape gate = ln_shape up \<and> rt_flags rt gate = rt_flags rt up \<and> op_suh (operand_of gate) = op_suh (operand_of up)"
  shows "fat_gate_up (rt_ops rt) ext (rt_flags rt) gate up apart h =
    (trellis_product (rt_ops rt) (bits_of gate) (rt_flags rt gate) (operand_of gate) h,
     trellis_product (rt_ops rt) (bits_of up) (rt_flags rt up) (operand_of up) h)"
proof (cases apart)
  case True
  then show ?thesis by (simp add: fat_gate_up_def trellis_product_def Let_def)
next
  case False
  have c: "columns_contract (rt_ops rt)" and f: "\<forall>gemm. mx_fat_gemm ext = Some gemm \<longrightarrow> fat_contract (rt_ops rt) gemm"
    using k by (auto simp: kernels_ok_def)
  note j = joined_product [OF c h] same [OF False]
  show ?thesis using False j by (simp add: fat_gate_up_def fat_kernel_value [OF f] Let_def)
qed

lemma fat_row_act:
  assumes k: "kernels_ok rt ext"
    and hd: "handle_ok (rt_ops rt) (rt_flags rt) (gate_slot pack)" "handle_ok (rt_ops rt) (rt_flags rt) (ip_up pack)"
    and fl: "rt_flags rt (gate_slot pack) = rt_flags rt (ip_up pack)" and act: "act = 2 \<longleftrightarrow> ip_gate pack = None" "act \<noteq> 3"
  shows "fat_row (rt_ops rt) ext (rt_flags rt) limit pack h = Inr (expert_val (rt_ops rt) (rt_flags rt) act limit pack h)"
proof -
  have bits: "ln_shape (gate_slot pack) = ln_shape (ip_up pack) \<Longrightarrow> bits_of (gate_slot pack) = bits_of (ip_up pack)"
    by (simp add: bits_of_def)
  have silu: "map2 (\<lambda>g u. to_sigmoid (rt_ops rt) g * g * u) g u = silu_mul (rt_ops rt) g u" for g u
    by (simp add: silu_mul_def mult.commute)
  have sc: "gemm h t s k cb = to_had_out (rt_ops rt) (to_gemm (rt_ops rt) h (to_reconstruct (rt_ops rt) t k cb)) s"
    if "mx_fat_scatter ext = Some gemm" for gemm h t s k cb
    using k that by (auto simp: kernels_ok_def intro: fat_contractD)
  have gu: "fat_gate_up (rt_ops rt) ext (rt_flags rt) (gate_slot pack) (ip_up pack)
      (ip_gate pack \<noteq> None \<and> ln_suh (gate_slot pack) \<noteq> ln_suh (ip_up pack) \<or> ln_shape (gate_slot pack) \<noteq> ln_shape (ip_up pack)) h =
    (trellis_product (rt_ops rt) (bits_of (gate_slot pack)) (rt_flags rt (gate_slot pack)) (operand_of (gate_slot pack)) h,
     trellis_product (rt_ops rt) (bits_of (ip_up pack)) (rt_flags rt (ip_up pack)) (operand_of (ip_up pack)) h)"
    by (rule fat_gate_up_value [OF k hd]) (use fl in \<open>auto simp: operand_of_def gate_slot_def\<close>)
  show ?thesis
    using bits act unfolding fat_row_def Let_def gu prod.case silu expert_val_def
    by (auto simp: relu_square_def trellis_product_def sc split: option.splits)
qed

lemma fat_row_value:
  assumes k: "kernels_ok rt ext" and ok: "layer_ok rt ly" and e: "e < length (rd_inners ly)"
    and safe: "rd_act ly \<noteq> 3" "rd_flags ly ! 0 = rd_flags ly ! 1"
  shows "fat_row (rt_ops rt) ext (rt_flags rt) limit (rd_inners ly ! e) h =
    Inr (expert_val (rt_ops rt) (rt_flags rt) (rd_act ly) limit (rd_inners ly ! e) h)"
proof (rule fat_row_act [OF k])
  show "handle_ok (rt_ops rt) (rt_flags rt) (gate_slot (rd_inners ly ! e))" "handle_ok (rt_ops rt) (rt_flags rt) (ip_up (rd_inners ly ! e))"
    using ok e by (auto simp: layer_ok_def)
qed (use layer_flags [OF ok e] layer_gate [OF ok e] safe in auto)

section \<open>Launches\<close>

lemma moe_launch_simps [simp]:
  "la_x (moe_launch ly limit xh k tbl active tail counts tokens weights) = xh"
  "la_count (moe_launch ly limit xh k tbl active tail counts tokens weights) = counts"
  "la_tokens (moe_launch ly limit xh k tbl active tail counts tokens weights) = tokens"
  "la_weights (moe_launch ly limit xh k tbl active tail counts tokens weights) = weights"
  "la_k (moe_launch ly limit xh k tbl active tail counts tokens weights) = k"
  "la_tail (moe_launch ly limit xh k tbl active tail counts tokens weights) = tail"
  by (simp_all add: moe_launch_def)

lemma expert_count_length [simp]: "length (expert_count n loc) = Suc n"
  by (simp add: expert_count_def)

lemma expert_count_sum: "\<forall>l \<in> set loc. l \<le> n \<Longrightarrow> sum_list (expert_count n loc) = length loc"
proof (induction loc)
  case Nil
  have "expert_count n [] = map (\<lambda>_. 0) [0..<Suc n]" by (simp add: expert_count_def del: upt_Suc)
  then show ?case by (simp del: upt_Suc)
next
  case (Cons l loc)
  have "expert_count n (l # loc) = map (\<lambda>e. (if e = l then 1 else 0) + length (filter (\<lambda>l. l = e) loc)) [0..<Suc n]"
    by (auto simp: expert_count_def simp del: upt_Suc)
  then have "sum_list (expert_count n (l # loc)) = sum_list (map (\<lambda>e. if e = l then 1 else 0) [0..<Suc n]) + sum_list (expert_count n loc)"
    by (simp only: sum_list_addf expert_count_def)
  also have "sum_list (map (\<lambda>e. if e = l then 1 else (0 :: nat)) [0..<Suc n]) = 1"
    using Cons.prems by (simp add: interv_sum_list_conv_sum_set_nat del: upt_Suc)
  finally show ?case using Cons by simp
qed

lemma zip_routeD: "(t, e, w) \<in> set (zip flat (zip loc ws)) \<Longrightarrow> t \<in> set flat \<and> e \<in> set loc"
  by (metis set_zip_leftD set_zip_rightD)

lemma argsortD:
  assumes "argsort_contract ops"
  shows "mset (to_argsort ops ks) = mset [0..<length ks]" "sorted (map ((!) ks) (to_argsort ops ks))"
    "length (to_argsort ops ks) = length ks" "set (to_argsort ops ks) = {..<length ks}"
proof -
  show m: "mset (to_argsort ops ks) = mset [0..<length ks]" "sorted (map ((!) ks) (to_argsort ops ks))"
    using assms by (simp_all add: argsort_contract_def)
  show "length (to_argsort ops ks) = length ks" using mset_eq_length [OF m(1)] by simp
  show "set (to_argsort ops ks) = {..<length ks}" using mset_eq_setD [OF m(1)] by (simp only: set_upt lessThan_atLeast0)
qed

text \<open>A specified launch on rows sorted for its walk adds the routes of the experts in its band.\<close>

lemma launch_value:
  fixes key :: "nat \<Rightarrow> nat"
  assumes fn: "moe_contract ops cap fn"
    and len: "length flat = length loc" "length ws = length loc" and loc: "\<forall>l \<in> set loc. l \<le> n" and flat: "\<forall>t \<in> set flat. t < length xh"
    and p: "mset p = mset [0..<length loc]" "sorted (map (\<lambda>j. key (loc ! j)) p)"
    and walk: "sorted_wrt (\<lambda>a b. key a < key b) walk" "set walk = {..<n}" "\<forall>e < n. key e < key n"
    and la: "la = moe_launch ly limit xh k tbl (fn_active fn tail) tail (expert_count n loc) (sorted_by p flat) (sorted_by p ws)"
    and walked: "launch_walk la = walk"
    and fits: "\<And>e. e < n \<Longrightarrow> launch_band la e \<Longrightarrow> count_list loc e \<le> cap \<and> launch_kmax_ok la e"
    and rows: "\<And>e h. e < n \<Longrightarrow> launch_band la e \<Longrightarrow> e \<in> set loc \<Longrightarrow> moe_row ops la e h = val e h"
  shows "run_moe fn ly limit xh k tbl tail (expert_count n loc) (sorted_by p flat) (sorted_by p ws) out =
    index_add out (map (route_add val xh) (filter (\<lambda>(t, e, w). e < n \<and> launch_band la e) (zip flat (zip loc ws))))"
proof -
  have lp: "length p = length loc" "set p = {..<length loc}" using mset_eq_length [OF p(1)] mset_eq_setD [OF p(1)] by (simp_all only: length_upt diff_zero set_upt lessThan_atLeast0)
  have d: "distinct walk" using walk(1) by (metis distinct_map sorted_wrt_map strict_sorted_iff)
  have ne: "launch_experts la = n" by (simp add: la launch_experts_def)
  have "launch_specified cap la"
    unfolding launch_specified_def ne walked
  proof (intro conjI ballI allI impI)
    show "sum_list (la_count la) = length (la_tokens la)" using expert_count_sum [OF loc] lp by (simp add: la sorted_by_def)
    show "t < length (la_x la)" if "t \<in> set (la_tokens la)" for t using that flat lp len by (auto simp: la sorted_by_def)
    show "la_count la ! e \<le> cap" if "e < n" "launch_band la e" for e
      using fits [OF that] that(1) by (simp add: la expert_count_nth)
  qed (use d walk fits in \<open>auto simp: la sorted_by_def\<close>)
  then have "run_moe fn ly limit xh k tbl tail (expert_count n loc) (sorted_by p flat) (sorted_by p ws) out = index_add out (launch_adds ops la)"
    using fn by (simp add: moe_contract_def run_moe_def la)
  also have "\<dots> = index_add out (map (route_add (moe_row ops la) xh) (filter (\<lambda>(t, e, w). e < n \<and> launch_band la e) (zip flat (zip loc ws))))"
  proof (rule index_add_mset)
    show "mset (launch_adds ops la) =
        mset (map (route_add (moe_row ops la) xh) (filter (\<lambda>(t, e, w). e < n \<and> launch_band la e) (zip flat (zip loc ws))))"
      unfolding launch_adds_def walked using sorted_walk_adds [OF len p walk loc, of "launch_band la" "moe_row ops la" xh]
      by (simp add: la)
  qed
  also have "map (route_add (moe_row ops la) xh) (filter (\<lambda>(t, e, w). e < n \<and> launch_band la e) (zip flat (zip loc ws))) =
      map (route_add val xh) (filter (\<lambda>(t, e, w). e < n \<and> launch_band la e) (zip flat (zip loc ws)))"
    using rows zip_routeD [of _ _ _ flat loc ws] by (fastforce simp: route_add_def)
  finally show ?thesis .
qed

text \<open>The end of the argument list, for every arity of the binding.\<close>

lemma uniform_tail:
  "drop 5 (exl3_moe_tail arity rows n None eo) = [] \<or> drop 5 (exl3_moe_tail arity rows n None eo) = [TInt 0, TInt (int n)]"
  "drop 6 (exl3_moe_tail arity rows n None eo) = [] \<or> drop 6 (exl3_moe_tail arity rows n None eo) = [TInt (int n)]"
  by (auto simp: exl3_moe_tail_def Let_def)

lemma banded_tail:
  assumes "arity = Some a" "EXL3_MOE_ARITY_151 \<le> a"
  shows "drop 5 (set_band lo hi (exl3_moe_tail arity rows n None eo)) = [TInt (int lo), TInt (int hi)]"
    "drop 6 (set_band lo hi (exl3_moe_tail arity rows n None eo)) = [TInt (int hi)]"
  using assms by (auto simp: exl3_moe_tail_def set_band_def Let_def)

lemma whole_band_tail: "set_band 0 n (exl3_moe_tail arity rows n None eo) = exl3_moe_tail arity rows n None eo"
  by (auto simp: exl3_moe_tail_def set_band_def Let_def)

lemma mixedk_tail:
  "drop 5 (exl3_moe_tail arity rows n (Some k) eo) =
     (case arity of None \<Rightarrow> [] | Some a \<Rightarrow> if 37 \<le> a then [TInt (int k), TOrder eo] else if a = 36 then [TInt (int k)] else [])"
  "drop 6 (exl3_moe_tail arity rows n (Some k) eo) = (case arity of None \<Rightarrow> [] | Some a \<Rightarrow> if 37 \<le> a then [TOrder eo] else [])"
  by (auto simp: exl3_moe_tail_def Let_def EXL3_MOE_ARITY_ORDER_def EXL3_MOE_ARITY_KMAX_def EXL3_MOE_ARITY_150_def split: option.splits)

section \<open>The standard routes\<close>

text \<open>The routes of a batch: as many tokens and weights as local ids, and no expert above the buffers' capacity.\<close>

definition batch_ok :: "('a, 'c) moe_rt \<Rightarrow> 'a moe_ready \<Rightarrow> arow list \<Rightarrow> nat list \<Rightarrow> nat list \<Rightarrow> rat list \<Rightarrow> bool" where
  "batch_ok rt ly xh flat loc ws \<longleftrightarrow>
     length flat = length loc \<and> length ws = length loc \<and> (\<forall>l \<in> set loc. l \<le> length (rd_inners ly)) \<and> (\<forall>t \<in> set flat. t < length xh) \<and>
     (\<forall>e < length (rd_inners ly). count_list loc e \<le> temp_rows_fused (rt_env rt))"

abbreviation layer_val :: "('a, 'c) moe_rt \<Rightarrow> 'a moe_ready \<Rightarrow> rat option \<Rightarrow> nat \<Rightarrow> arow \<Rightarrow> arow" where
  "layer_val rt ly limit e h \<equiv> expert_val (rt_ops rt) (rt_flags rt) (rd_act ly) limit (rd_inners ly ! e) h"

lemma routed_adds_band:
  "(\<And>e. e < n \<Longrightarrow> band e) \<Longrightarrow> map (route_add val x) (filter (\<lambda>(t, e, w). e < n \<and> band e) rs) = routed_adds val n x rs"
  unfolding routed_adds_def by (rule arg_cong [where f = "map _"]) (auto intro!: filter_cong)

lemma uniform_value:
  fixes key :: "nat \<Rightarrow> nat"
  assumes k: "kernels_ok rt ext" "mx_moe ext = Some fn" and ok: "layer_ok rt ly" and batch: "batch_ok rt ly xh flat loc ws"
    and n: "n = length (rd_inners ly)"
    and widths: "\<And>e. e < n \<Longrightarrow> e \<in> set loc \<Longrightarrow>
      kt = (bits_of (gate_slot (rd_inners ly ! e)), bits_of (ip_up (rd_inners ly ! e)), bits_of (ip_down (rd_inners ly ! e)))"
    and p: "mset p = mset [0..<length loc]" "sorted (map (\<lambda>j. key (loc ! j)) p)"
    and key: "\<And>a b. a < b \<Longrightarrow> b \<le> n \<Longrightarrow> key a < key b"
  shows "run_moe fn ly limit xh (Scalar kt) (ptr_table_of (rd_inners ly)) (exl3_moe_tail (mf_arity fn) rows n None None)
      (expert_count n loc) (sorted_by p flat) (sorted_by p ws) out =
    index_add out (routed_adds (layer_val rt ly limit) n xh (zip flat (zip loc ws)))"
proof -
  let ?tail = "exl3_moe_tail (mf_arity fn) rows n None None"
  let ?la = "moe_launch ly limit xh (Scalar kt) (ptr_table_of (rd_inners ly)) (fn_active fn ?tail) ?tail (expert_count n loc)
    (sorted_by p flat) (sorted_by p ws)"
  have band: "launch_band ?la e" if "e < n" for e using that uniform_tail(1) [of "mf_arity fn" rows n None] by (auto simp: launch_band_def)
  have "run_moe fn ly limit xh (Scalar kt) (ptr_table_of (rd_inners ly)) ?tail (expert_count n loc) (sorted_by p flat) (sorted_by p ws) out =
      index_add out (map (route_add (layer_val rt ly limit) xh) (filter (\<lambda>(t, e, w). e < n \<and> launch_band ?la e) (zip flat (zip loc ws))))"
  proof (rule launch_value [where walk = "[0..<n]" and key = key])
    show "moe_contract (rt_ops rt) (temp_rows_fused (rt_env rt)) fn" using k by (simp add: kernels_ok_def)
    show "launch_walk ?la = [0..<n]"
      using uniform_tail(2) [of "mf_arity fn" rows n None] by (auto simp: launch_walk_def launch_experts_def)
    show "count_list loc e \<le> temp_rows_fused (rt_env rt) \<and> launch_kmax_ok ?la e" if "e < n" "launch_band ?la e" for e
      using that batch n by (auto simp: batch_ok_def launch_kmax_ok_def)
    show "moe_row (rt_ops rt) ?la e h = layer_val rt ly limit e h" if "e < n" "launch_band ?la e" "e \<in> set loc" for e h
      by (rule table_row_value [OF ok]) (use that widths in \<open>auto simp: n launch_width_def\<close>)
    show "sorted_wrt (\<lambda>a b. key a < key b) [0..<n]" by (rule sorted_wrt_mono_rel [OF _ sorted_wrt_upt]) (use key in auto)
  qed (use batch p key n in \<open>auto simp: batch_ok_def\<close>)
  then show ?thesis by (simp only: routed_adds_band [OF band])
qed

lemma k_max_bound:
  assumes "k_max_launch inners = Inr k" "e < length inners"
  shows "bits_of (gate_slot (inners ! e)) \<le> k \<and> bits_of (ip_up (inners ! e)) \<le> k \<and> bits_of (ip_down (inners ! e)) \<le> k"
proof -
  let ?w = "\<lambda>pack. case ip_gate pack of None \<Rightarrow> Inl AttributeError
    | Some g \<Rightarrow> Inr (max (last (ln_shape g)) (max (last (ln_shape (ip_up pack))) (last (ln_shape (ip_down pack)))))"
  obtain ws where ws: "map_res ?w inners = Inr ws" "k = Max (set ws) div 16"
    using assms(1) by (auto simp: k_max_launch_def res_simps split: if_splits)
  then have "?w (inners ! e) = Inr (ws ! e)" "ws ! e \<in> set ws"
    using assms(2) by (auto simp: map_res_Inr_iff list_all2_conv_all_nth)
  moreover from this have "ws ! e div 16 \<le> k" unfolding ws(2) by (intro div_le_mono) simp
  ultimately obtain g where g: "ip_gate (inners ! e) = Some g"
      "max (last (ln_shape g)) (max (last (ln_shape (ip_up (inners ! e)))) (last (ln_shape (ip_down (inners ! e))))) div 16 \<le> k"
    by (auto split: option.splits)
  have "w div 16 \<le> k" if "w \<le> max (last (ln_shape g)) (max (last (ln_shape (ip_up (inners ! e)))) (last (ln_shape (ip_down (inners ! e)))))" for w
    using div_le_mono [OF that, of 16] g(2) by linarith
  then show ?thesis by (simp add: bits_of_def gate_slot_def g(1))
qed

text \<open>The key of the work order grows along it, and the sentinel comes last.\<close>

definition rank_key :: "nat list \<Rightarrow> nat \<Rightarrow> nat \<Rightarrow> nat" where
  "rank_key ranks n l = (if l < n then ranks ! min l (n - 1) else n) * (n + 1) + l"

lemma rank_key_below: "e < n \<Longrightarrow> rank_key ranks n e = ranks ! e * (n + 1) + e"
proof -
  assume "e < n"
  then have "min e (n - 1) = e" by simp
  then show ?thesis using \<open>e < n\<close> by (simp add: rank_key_def)
qed

lemma rank_key_less:
  assumes "ranks ! a < ranks ! b" "a < n" "b < n"
  shows "rank_key ranks n a < rank_key ranks n b"
proof -
  have "rank_key ranks n a < (ranks ! a + 1) * (n + 1)" using assms by (simp add: rank_key_below)
  also have "\<dots> \<le> ranks ! b * (n + 1)" using assms(1) by (intro mult_right_mono) auto
  also have "\<dots> \<le> rank_key ranks n b" using assms by (simp add: rank_key_below)
  finally show ?thesis .
qed

lemma rank_key_last: "ranks ! e < n \<Longrightarrow> e < n \<Longrightarrow> rank_key ranks n e < rank_key ranks n n"
proof -
  assume a: "ranks ! e < n" "e < n"
  have "rank_key ranks n e < (ranks ! e + 1) * (n + 1)" using a by (simp add: rank_key_below)
  also have "\<dots> \<le> n * (n + 1)" using a(1) by (intro mult_right_mono) auto
  also have "\<dots> \<le> rank_key ranks n n" by (simp add: rank_key_def)
  finally show ?thesis .
qed

lemma work_order:
  fixes inners :: "'a inner_pack list"
  defines "n \<equiv> length inners"
  shows "sorted_wrt (\<lambda>a b. rank_key (k_rank (k_desc inners)) n a < rank_key (k_rank (k_desc inners)) n b) (k_desc inners)"
    "\<forall>e < n. rank_key (k_rank (k_desc inners)) n e < rank_key (k_rank (k_desc inners)) n n"
proof -
  have at: "k_rank (k_desc inners) ! (k_desc inners ! i) = i" "k_desc inners ! i < n" if "i < n" for i
    using that k_rank_inverse [of i inners] k_desc_perm(3,4) [of inners] nth_mem [of i "k_desc inners"] by (auto simp: n_def)
  show "sorted_wrt (\<lambda>a b. rank_key (k_rank (k_desc inners)) n a < rank_key (k_rank (k_desc inners)) n b) (k_desc inners)"
    unfolding sorted_wrt_iff_nth_less using at k_desc_perm(4) [of inners] by (auto simp: n_def intro!: rank_key_less)
  have "k_rank (k_desc inners) ! e < n" if "e < n" for e
  proof -
    have "e \<in> set (k_desc inners)" using that k_desc_perm(3) [of inners] by (simp add: n_def)
    then obtain i where "i < n" "k_desc inners ! i = e" using k_desc_perm(4) [of inners] by (auto simp: in_set_conv_nth n_def)
    then show ?thesis using at by auto
  qed
  then show "\<forall>e < n. rank_key (k_rank (k_desc inners)) n e < rank_key (k_rank (k_desc inners)) n n"
    by (blast intro: rank_key_last)
qed

lemma unified_value:
  fixes key :: "nat \<Rightarrow> nat"
  assumes k: "kernels_ok rt ext" "mx_mixedk ext = Some fn" and ok: "layer_ok rt ly" and batch: "batch_ok rt ly xh flat loc ws"
    and n: "n = length (rd_inners ly)" and kmax: "k_max_launch (rd_inners ly) = Inr kmax"
    and p: "mset p = mset [0..<length loc]" "sorted (map (\<lambda>j. key (loc ! j)) p)"
    and walk: "walk = (case eo of None \<Rightarrow> [0..<n] | Some order \<Rightarrow> order)" "sorted_wrt (\<lambda>a b. key a < key b) walk" "set walk = {..<n}"
      "\<forall>e < n. key e < key n"
    and arity: "eo \<noteq> None \<Longrightarrow> \<exists>a. mf_arity fn = Some a \<and> 37 \<le> a"
  shows "run_moe fn ly limit xh (PerExpert (k_arrays (rd_inners ly))) (ptr_table_of (rd_inners ly))
      (exl3_moe_tail (mf_arity fn) rows n (Some kmax) eo) (expert_count n loc) (sorted_by p flat) (sorted_by p ws) out =
    index_add out (routed_adds (layer_val rt ly limit) n xh (zip flat (zip loc ws)))"
proof -
  let ?tail = "exl3_moe_tail (mf_arity fn) rows n (Some kmax) eo"
  let ?la = "moe_launch ly limit xh (PerExpert (k_arrays (rd_inners ly))) (ptr_table_of (rd_inners ly)) (fn_active fn ?tail) ?tail
    (expert_count n loc) (sorted_by p flat) (sorted_by p ws)"
  have width: "launch_width ?la e =
      (bits_of (gate_slot (rd_inners ly ! e)), bits_of (ip_up (rd_inners ly ! e)), bits_of (ip_down (rd_inners ly ! e)))"
    if "e < n" for e using that by (simp add: launch_width_def k_arrays_def n)
  have band: "launch_band ?la e" if "e < n" for e by (simp add: launch_band_def mixedk_tail split: option.splits)
  have "run_moe fn ly limit xh (PerExpert (k_arrays (rd_inners ly))) (ptr_table_of (rd_inners ly)) ?tail (expert_count n loc)
      (sorted_by p flat) (sorted_by p ws) out =
      index_add out (map (route_add (layer_val rt ly limit) xh) (filter (\<lambda>(t, e, w). e < n \<and> launch_band ?la e) (zip flat (zip loc ws))))"
  proof (rule launch_value [where walk = walk and key = key])
    show "moe_contract (rt_ops rt) (temp_rows_fused (rt_env rt)) fn" using k by (simp add: kernels_ok_def)
    show "launch_walk ?la = walk"
      using arity by (cases eo) (auto simp: walk(1) launch_walk_def launch_experts_def mixedk_tail split: option.splits)
    show "moe_row (rt_ops rt) ?la e h = layer_val rt ly limit e h" if "e < n" for e h
      by (rule table_row_value [OF ok]) (use that width in \<open>auto simp: n\<close>)
    show "count_list loc e \<le> temp_rows_fused (rt_env rt) \<and> launch_kmax_ok ?la e" if e: "e < n" "launch_band ?la e" for e
    proof
      show "launch_kmax_ok ?la e"
        using k_max_bound [OF kmax, of e] e(1) unfolding launch_kmax_ok_def width [OF e(1)]
        by (auto simp: mixedk_tail n split: option.splits)
    qed (use e batch n in \<open>auto simp: batch_ok_def\<close>)
  qed (use batch p walk n in \<open>auto simp: batch_ok_def\<close>)
  then show ?thesis by (simp only: routed_adds_band [OF band])
qed

section \<open>Groups\<close>

lemma mask_routes_map: "mask_routes (map P xs) v ys = map2 (\<lambda>x y. if P x then v else y) xs ys"
  by (simp add: mask_routes_def zip_map1 comp_def case_prod_unfold)

text \<open>Hiding routes under the sentinel with weight zero leaves the others.\<close>

lemma masked_adds:
  "length flat = length loc \<Longrightarrow> length ws = length loc \<Longrightarrow>
    routed_adds val n x (zip flat (zip (mask_routes (map P loc) n loc) (mask_routes (map P loc) 0 ws))) =
    routed_adds val n x (filter (\<lambda>(t, e, w). \<not> P e) (zip flat (zip loc ws)))"
  unfolding mask_routes_map
proof (induction loc arbitrary: flat ws)
  case (Cons l loc)
  then obtain t flat' w ws' where "flat = t # flat'" "ws = w # ws'" by (metis length_0_conv neq_Nil_conv list.size(3) nat.distinct(1) length_Cons)
  then show ?case using Cons by (simp add: routed_adds_def route_add_def)
qed (simp add: routed_adds_def)

lemma unmasked_routes: "length xs = n \<Longrightarrow> mask_routes (replicate n False) v xs = xs"
  by (auto simp: mask_routes_def intro: nth_equalityI)

lemma masked_locals: "mask_routes (map P loc) n loc = map (\<lambda>l. if P l then n else l) loc"
  unfolding mask_routes_map by (induction loc) auto

lemma masked_count: "e \<noteq> n \<Longrightarrow> count_list (map (\<lambda>l. if P l then n else l) loc) e = (if P e then 0 else count_list loc e)"
  by (induction loc) auto

lemma masked_batch:
  assumes "batch_ok rt ly xh flat loc ws"
  shows "batch_ok rt ly xh flat (mask_routes (map P loc) (length (rd_inners ly)) loc) (mask_routes (map P loc) 0 ws)"
  using assms by (auto simp: batch_ok_def masked_locals masked_count mask_routes_map)

lemma routed_adds_filter:
  "(\<And>e. e < n \<Longrightarrow> P e = Q e) \<Longrightarrow>
    routed_adds val n x (filter (\<lambda>(t, e, w). P e) rs) = routed_adds val n x (filter (\<lambda>(t, e, w). Q e) rs)"
  unfolding routed_adds_def filter_filter by (rule arg_cong [where f = "map _"]) (auto intro!: filter_cong)

text \<open>The launches of the groups together add every route.\<close>

lemma disjoint_adds:
  "(\<And>e. \<not> (A e \<and> B e)) \<Longrightarrow>
    mset (routed_adds val n x (filter (\<lambda>(t, e, w). A e) rs)) + mset (routed_adds val n x (filter (\<lambda>(t, e, w). B e) rs)) =
    mset (routed_adds val n x (filter (\<lambda>(t, e, w). A e \<or> B e) rs))"
  by (induction rs) (auto simp: routed_adds_def simp del: mset_map mset_filter filter_filter)

lemma grouped_adds:
  assumes "distinct (concat (map snd gs))"
  shows "mset (concat (map (\<lambda>g. routed_adds val n x (filter (\<lambda>(t, e, w). e \<in> set (snd g)) rs)) gs)) =
    mset (routed_adds val n x (filter (\<lambda>(t, e, w). e \<in> set (concat (map snd gs))) rs))"
  using assms
proof (induction gs)
  case (Cons g gs)
  have "mset (routed_adds val n x (filter (\<lambda>(t, e, w). e \<in> set (snd g)) rs)) + mset (routed_adds val n x (filter (\<lambda>(t, e, w). e \<in> set (concat (map snd gs))) rs)) =
      mset (routed_adds val n x (filter (\<lambda>(t, e, w). e \<in> set (snd g) \<or> e \<in> set (concat (map snd gs))) rs))"
    by (rule disjoint_adds) (use Cons.prems in auto)
  moreover have "e \<in> set (concat (map snd (g # gs))) \<longleftrightarrow> e \<in> set (snd g) \<or> e \<in> set (concat (map snd gs))" for e by simp
  ultimately show ?case using Cons.IH Cons.prems by (simp only: list.map concat.simps mset_append distinct_append)
qed (simp add: routed_adds_def)

lemma fold_index_add: "(\<And>g out. g \<in> set gs \<Longrightarrow> f g out = index_add out (A g)) \<Longrightarrow> fold f gs out = index_add out (concat (map A gs))"
  by (induction gs arbitrary: out) (auto simp: index_add_append)

lemma fold_groups:
  assumes step: "\<And>gi kt ids out. gi < length gs \<Longrightarrow> gs ! gi = (kt, ids) \<Longrightarrow>
      f (gi, kt, ids) out = index_add out (routed_adds val n x (filter (\<lambda>(t, e, w). e \<in> set ids) rs))"
    and gs: "distinct (concat (map snd gs))" "set (concat (map snd gs)) = {..<n}"
  shows "fold f (zip [0..<length gs] gs) out = index_add out (routed_adds val n x rs)"
proof -
  have "fold f (zip [0..<length gs] gs) out =
      index_add out (concat (map (\<lambda>g. routed_adds val n x (filter (\<lambda>(t, e, w). e \<in> set (snd (snd g))) rs)) (zip [0..<length gs] gs)))"
  proof (rule fold_index_add)
    fix g out assume "g \<in> set (zip [0..<length gs] gs)"
    then obtain i where "i < length gs" "g = (i, fst (gs ! i), snd (gs ! i))" by (auto simp: set_zip)
    then show "f g out = index_add out (routed_adds val n x (filter (\<lambda>(t, e, w). e \<in> set (snd (snd g))) rs))"
      using step [of i "fst (gs ! i)" "snd (gs ! i)" out] by simp
  qed
  also have "map (\<lambda>g. routed_adds val n x (filter (\<lambda>(t, e, w). e \<in> set (snd (snd g))) rs)) (zip [0..<length gs] gs) =
      map (\<lambda>g. routed_adds val n x (filter (\<lambda>(t, e, w). e \<in> set (snd g)) rs)) gs"
    by (rule nth_equalityI) auto
  also have "index_add out (concat \<dots>) = index_add out (routed_adds val n x (filter (\<lambda>(t, e, w). e \<in> set (concat (map snd gs))) rs))"
    by (rule index_add_mset [OF grouped_adds [OF gs(1)]])
  also have "routed_adds val n x (filter (\<lambda>(t, e, w). e \<in> set (concat (map snd gs))) rs) = routed_adds val n x rs"
    unfolding routed_adds_def gs(2) by (auto intro!: arg_cong [where f = "map _"] filter_cong)
  finally show ?thesis .
qed

lemma masked_groups_value:
  assumes k: "kernels_ok rt ext" "mx_moe ext = Some fn" and ok: "layer_ok rt ly" and batch: "batch_ok rt ly xh flat loc ws"
    and n: "n = length (rd_inners ly)" and st: "fs_tbl st = ptr_table_of (rd_inners ly)" "fs_group_index st = group_index (k_groups (rd_inners ly)) n"
  shows "masked_groups rt fn ly limit n st (k_groups (rd_inners ly)) xh flat loc ws out =
    index_add out (routed_adds (layer_val rt ly limit) n xh (zip flat (zip loc ws)))"
  unfolding masked_groups_def Let_def
proof (rule fold_groups)
  fix gi kt ids out
  assume gi: "gi < length (k_groups (rd_inners ly))" "k_groups (rd_inners ly) ! gi = (kt, ids)"
  let ?P = "\<lambda>l. fs_group_index st ! l \<noteq> int gi" and ?grp = "mask_routes (map (\<lambda>l. fs_group_index st ! l \<noteq> int gi) loc) n loc"
  have mem: "e \<in> set ids \<longleftrightarrow> \<not> ?P e" if e: "e < n" for e
  proof -
    obtain g where g: "g \<in> set (k_groups (rd_inners ly))" "e \<in> set (snd g)" using group_of e n by blast
    then obtain j where j: "j < length (k_groups (rd_inners ly))" "k_groups (rd_inners ly) ! j = g" by (auto simp: in_set_conv_nth)
    then have "fs_group_index st ! e = int j" using group_index_at [OF j(1)] g(2) st(2) n by simp
    moreover have "e \<in> set ids \<longleftrightarrow> j = gi"
    proof
      assume "e \<in> set ids"
      then have "fs_group_index st ! e = int gi" using group_index_at [OF gi(1)] gi(2) st(2) n by simp
      then show "j = gi" using \<open>fs_group_index st ! e = int j\<close> by simp
    qed (use j g gi in auto)
    ultimately show ?thesis by auto
  qed
  have width: "k_key (rd_inners ly ! e) = kt" if "e \<in> set ids" for e
    using that k_groups_props(5) [of "(kt, ids)" "rd_inners ly" e] gi nth_mem by fastforce
  have "run_moe fn ly limit xh (Scalar (kt ! 0, kt ! 1, kt ! 2)) (ptr_table_of (rd_inners ly))
      (exl3_moe_tail (mf_arity fn) (temp_rows_fused (rt_env rt)) n None None) (expert_count n ?grp) (sorted_by (to_argsort (rt_ops rt) ?grp) flat)
      (sorted_by (to_argsort (rt_ops rt) ?grp) (mask_routes (map ?P loc) 0 ws)) out =
    index_add out (routed_adds (layer_val rt ly limit) n xh (zip flat (zip ?grp (mask_routes (map ?P loc) 0 ws))))"
  proof (rule uniform_value [OF k ok _ n, where key = "\<lambda>l. l"])
    show "batch_ok rt ly xh flat ?grp (mask_routes (map ?P loc) 0 ws)" using masked_batch [OF batch] n by simp
    show "(kt ! 0, kt ! 1, kt ! 2) = (bits_of (gate_slot (rd_inners ly ! e)), bits_of (ip_up (rd_inners ly ! e)), bits_of (ip_down (rd_inners ly ! e)))"
      if "e < n" "e \<in> set ?grp" for e
    proof -
      have "e \<in> set ids" using that mem by (auto simp: masked_locals split: if_splits)
      then show ?thesis by (simp add: width [symmetric] k_key_def)
    qed
    show "mset (to_argsort (rt_ops rt) ?grp) = mset [0..<length ?grp]" "sorted (map (\<lambda>j. ?grp ! j) (to_argsort (rt_ops rt) ?grp))"
      using argsortD(1,2) k(1) by (auto simp: kernels_ok_def)
  qed simp
  also have "routed_adds (layer_val rt ly limit) n xh (zip flat (zip ?grp (mask_routes (map ?P loc) 0 ws))) =
      routed_adds (layer_val rt ly limit) n xh (filter (\<lambda>(t, e, w). e \<in> set ids) (zip flat (zip loc ws)))"
    using batch mem by (subst masked_adds) (auto simp: batch_ok_def intro: routed_adds_filter)
  finally show "(case (gi, kt, ids) of (gi, kt, ids) \<Rightarrow> \<lambda>out.
      run_moe fn ly limit xh (Scalar (kt ! 0, kt ! 1, kt ! 2)) (fs_tbl st)
        (set_band 0 n (exl3_moe_tail (mf_arity fn) (temp_rows_fused (rt_env rt)) n None None))
        (expert_count n (mask_routes (map (\<lambda>l. fs_group_index st ! l \<noteq> int gi) loc) n loc))
        (sorted_by (to_argsort (rt_ops rt) (mask_routes (map (\<lambda>l. fs_group_index st ! l \<noteq> int gi) loc) n loc)) flat)
        (sorted_by (to_argsort (rt_ops rt) (mask_routes (map (\<lambda>l. fs_group_index st ! l \<noteq> int gi) loc) n loc))
          (mask_routes (map (\<lambda>l. fs_group_index st ! l \<noteq> int gi) loc) 0 ws)) out) out =
    index_add out (routed_adds (layer_val rt ly limit) n xh (filter (\<lambda>(t, e, w). e \<in> set ids) (zip flat (zip loc ws))))"
    by (simp add: st(1) whole_band_tail)
qed (use k_groups_props(3,4) n in auto)

text \<open>On the packed numbering.\<close>

lemma renumbered_adds:
  assumes "\<And>e. e < n \<Longrightarrow> pid e < n \<and> (sel (pid e) \<longleftrightarrow> P e) \<and> (\<forall>h. val' (pid e) h = val e h)" "pid n = n" "\<forall>l \<in> set loc. l \<le> n"
  shows "map (route_add val' x) (filter (\<lambda>(t, e, w). e < n \<and> sel e) (zip flat (zip (map pid loc) ws))) =
    routed_adds val n x (filter (\<lambda>(t, e, w). P e) (zip flat (zip loc ws)))"
  using assms(3)
proof (induction loc arbitrary: flat ws)
  case (Cons l loc)
  show ?case
  proof (cases "flat = [] \<or> ws = []")
    case False
    then obtain t flat' w ws' where f: "flat = t # flat'" "ws = w # ws'" by (meson neq_Nil_conv)
    have "l < n \<or> l = n" using Cons.prems by auto
    then show ?thesis
      using Cons.IH [of flat' ws'] Cons.prems assms(1) [of l] assms(2) by (auto simp: f routed_adds_def route_add_def)
  qed (auto simp: routed_adds_def)
qed (simp add: routed_adds_def)

lemma renumbered_count:
  fixes pid :: "nat \<Rightarrow> nat" and n :: nat
  assumes "\<And>e. e < n \<Longrightarrow> pid e < n \<and> order (pid e) = e" "pid n = n" "\<forall>l \<in> set loc. l \<le> n" "i < n"
  shows "count_list (map pid loc) i \<le> count_list loc (order i)"
  using assms(3)
proof (induction loc)
  case (Cons l loc)
  have "l < n \<or> l = n" using Cons.prems by auto
  then have "pid l \<noteq> i \<or> order i = l" using assms(1) [of l] assms(2,4) by auto
  moreover have "count_list (map pid loc) i \<le> count_list loc (order i)" using Cons by simp
  ultimately show ?case by (elim disjE) (simp_all only: list.map count_list.simps if_False, auto)
qed simp

lemma packed_groups_value:
  assumes k: "kernels_ok rt ext" "mx_moe ext = Some fn" and ok: "layer_ok rt ly" and batch: "batch_ok rt ly xh flat loc ws"
    and n: "n = length (rd_inners ly)"
    and packed: "packed_dispatch env (mf_arity fn) (ptr_table_of (rd_inners ly)) (k_groups (rd_inners ly)) n = Inr (Some packed)"
  shows "packed_groups rt fn ly limit n (k_groups (rd_inners ly)) packed xh flat loc ws out =
    index_add out (routed_adds (layer_val rt ly limit) n xh (zip flat (zip loc ws)))"
proof -
  let ?gs = "k_groups (rd_inners ly)" and ?inners = "rd_inners ly"
  define order where "order = concat (map snd ?gs)"
  define pid where "pid = scatter (replicate (n + 1) n) (zip order [0..<n])"
  define p_ids where "p_ids = map ((!) pid) loc"
  have pk: "packed = (permute_table order (ptr_table_of ?inners), pid, group_ranges 0 0 ?gs)" "\<exists>a. mf_arity fn = Some a \<and> EXL3_MOE_ARITY_151 \<le> a"
    using packed by (auto simp: packed_dispatch_def order_def pid_def Let_def split: if_splits option.splits)
  obtain a where a: "mf_arity fn = Some a" "EXL3_MOE_ARITY_151 \<le> a" using pk(2) by blast
  have lo: "length order = n" "distinct order" "set order = {..<n}"
    using k_groups_props(3,4) [of ?inners] mset_eq_length [OF k_groups_props(2) [of ?inners]] n by (simp_all add: order_def)
  have num: "pid ! e < n \<and> order ! (pid ! e) = e" if e: "e < n" for e
  proof -
    obtain g where "g \<in> set ?gs" using group_of [of e ?inners] e n by auto
    then obtain j where "j < length ?gs" by (auto simp: in_set_conv_nth)
    from packed_number(1) [OF this] e n show ?thesis by (simp add: order_def pid_def)
  qed
  have "fst ` set (zip order [0..<n]) = {..<n}" using lo by (simp only: set_map [symmetric] map_fst_zip length_upt diff_zero)
  then have sent: "pid ! n = n" unfolding pid_def by (simp add: scatter_other del: replicate_Suc replicate.simps)
  have cover: "\<exists>e < n. pid ! e = i" if "i < n" for i
  proof (intro exI conjI)
    show "order ! i < n" using that lo nth_mem by fastforce
    then have "order ! (pid ! (order ! i)) = order ! i" "pid ! (order ! i) < n" using num by auto
    then show "pid ! (order ! i) = i" using that lo by (simp add: nth_eq_iff_index_eq)
  qed
  have loc: "\<forall>l \<in> set loc. l \<le> n" using batch n by (auto simp: batch_ok_def)
  have pl: "\<forall>l \<in> set p_ids. l \<le> n" using loc num sent by (auto simp: p_ids_def le_less)
  have run: "packed_groups rt fn ly limit n ?gs packed xh flat loc ws out = fold (\<lambda>(gi, kt, ids) out.
      run_moe fn ly limit xh (Scalar (kt ! 0, kt ! 1, kt ! 2)) (permute_table order (ptr_table_of ?inners))
        (set_band (fst (snd (group_ranges 0 0 ?gs ! gi))) (snd (snd (group_ranges 0 0 ?gs ! gi)))
          (exl3_moe_tail (mf_arity fn) (temp_rows_fused (rt_env rt)) n None None))
        (expert_count n p_ids) (sorted_by (to_argsort (rt_ops rt) p_ids) flat) (sorted_by (to_argsort (rt_ops rt) p_ids) ws) out)
      (zip [0..<length ?gs] ?gs) out"
    by (simp add: packed_groups_def pk(1) p_ids_def Let_def)
  show ?thesis
    unfolding run
  proof (rule fold_groups)
    fix gi kt ids out
    assume gi: "gi < length ?gs" "?gs ! gi = (kt, ids)"
    obtain lo hi where r: "group_ranges 0 0 ?gs ! gi = (gi, lo, hi)" by (simp add: group_ranges_nth [OF gi(1)])
    have sel: "lo \<le> pid ! e \<and> pid ! e < hi \<longleftrightarrow> e \<in> set ids" if "e < n" for e
      using packed_number(2) [OF gi(1)] that r gi(2) n by (auto simp: order_def pid_def)
    let ?tail = "set_band lo hi (exl3_moe_tail (mf_arity fn) (temp_rows_fused (rt_env rt)) n None None)" and ?p = "to_argsort (rt_ops rt) p_ids"
    let ?tbl = "permute_table order (ptr_table_of ?inners)"
    let ?la = "moe_launch ly limit xh (Scalar (kt ! 0, kt ! 1, kt ! 2)) ?tbl (fn_active fn ?tail) ?tail (expert_count n p_ids)
      (sorted_by ?p flat) (sorted_by ?p ws)"
    have tails: "drop 5 ?tail = [TInt (int lo), TInt (int hi)]" "drop 6 ?tail = [TInt (int hi)]" using banded_tail [OF a] by auto
    then have band: "launch_band ?la i \<longleftrightarrow> lo \<le> i \<and> i < hi" for i by (simp add: launch_band_def)
    have "run_moe fn ly limit xh (Scalar (kt ! 0, kt ! 1, kt ! 2)) ?tbl ?tail (expert_count n p_ids) (sorted_by ?p flat) (sorted_by ?p ws) out =
        index_add out (map (route_add (\<lambda>i. layer_val rt ly limit (order ! i)) xh) (filter (\<lambda>(t, e, w). e < n \<and> launch_band ?la e) (zip flat (zip p_ids ws))))"
    proof (rule launch_value [where walk = "[0..<n]" and key = "\<lambda>l. l"])
      show "moe_contract (rt_ops rt) (temp_rows_fused (rt_env rt)) fn" using k by (simp add: kernels_ok_def)
      show "mset ?p = mset [0..<length p_ids]" "sorted (map (\<lambda>j. p_ids ! j) ?p)" using argsortD(1,2) k(1) by (auto simp: kernels_ok_def)
      show "launch_walk ?la = [0..<n]" using tails by (simp add: launch_walk_def launch_experts_def)
      show "count_list p_ids i \<le> temp_rows_fused (rt_env rt) \<and> launch_kmax_ok ?la i" if "i < n" for i
      proof -
        have "order ! i < n" using that lo nth_mem by fastforce
        moreover have "count_list p_ids i \<le> count_list loc (order ! i)"
          unfolding p_ids_def by (rule renumbered_count [OF num sent loc that])
        ultimately show ?thesis using batch n by (auto simp: batch_ok_def launch_kmax_ok_def intro: order_trans)
      qed
      show "moe_row (rt_ops rt) ?la i h = layer_val rt ly limit (order ! i) h" if i: "i < n" "launch_band ?la i" for i h
      proof -
        obtain e where e: "e < n" "pid ! e = i" using cover [OF i(1)] by blast
        then have oi: "order ! i = e" "e \<in> set ids" using num sel i(2) band by auto
        have "k_key (?inners ! e) = kt" using k_groups_props(5) [of "(kt, ids)" ?inners e] gi nth_mem oi(2) by fastforce
        then have w: "launch_width ?la i = (bits_of (gate_slot (?inners ! e)), bits_of (ip_up (?inners ! e)), bits_of (ip_down (?inners ! e)))"
          by (auto simp: launch_width_def k_key_def)
        have "moe_row (rt_ops rt) ?la i h = layer_val rt ly limit e h"
          by (rule moe_row_value [OF ok]) (use e(1) n oi i(1) lo(1) w in \<open>auto simp: permute_table_def table_at\<close>)
        then show ?thesis using oi by simp
      qed
    qed (use batch n pl in \<open>auto simp: batch_ok_def p_ids_def\<close>)
    also have "map (route_add (\<lambda>i. layer_val rt ly limit (order ! i)) xh) (filter (\<lambda>(t, e, w). e < n \<and> launch_band ?la e) (zip flat (zip p_ids ws))) =
        routed_adds (layer_val rt ly limit) n xh (filter (\<lambda>(t, e, w). e \<in> set ids) (zip flat (zip loc ws)))"
      unfolding band unfolding p_ids_def by (rule renumbered_adds) (use num sel sent loc in auto)
    finally show "(case (gi, kt, ids) of (gi, kt, ids) \<Rightarrow> \<lambda>out.
        run_moe fn ly limit xh (Scalar (kt ! 0, kt ! 1, kt ! 2)) ?tbl
          (set_band (fst (snd (group_ranges 0 0 ?gs ! gi))) (snd (snd (group_ranges 0 0 ?gs ! gi)))
            (exl3_moe_tail (mf_arity fn) (temp_rows_fused (rt_env rt)) n None None))
          (expert_count n p_ids) (sorted_by ?p flat) (sorted_by ?p ws) out) out =
      index_add out (routed_adds (layer_val rt ly limit) n xh (filter (\<lambda>(t, e, w). e \<in> set ids) (zip flat (zip loc ws))))"
      by (simp add: r)
  qed (use k_groups_props(3,4) n in auto)
qed

section \<open>Any way the standard routes are launched\<close>

text \<open>
  The launch state of a loaded layer: built for its packs, with the arity of the installed binding.  A layer of
  one width has the configured one; a layer of several has the kernel for them, which takes the work order when
  the work order is on.
\<close>

definition state_ok :: "('a, 'c) moe_rt \<Rightarrow> 'a moe_ext \<Rightarrow> 'a moe_fn \<Rightarrow> 'a moe_ready \<Rightarrow> 'a fused_state \<Rightarrow> bool" where
  "state_ok rt ext fn ly st \<longleftrightarrow>
     (\<exists>xi gl fin. build_exl3_fused_state (rt_env rt) xi (rd_store ly) gl (rd_bits ly) (rd_mixed ly) fin (rd_inners ly) = Inr st \<and>
        xi_concurrency xi \<noteq> None \<and> xi_moe_arity xi = mf_arity fn) \<and>
     (\<not> rd_mixed ly \<longrightarrow> (\<forall>pack \<in> set (rd_inners ly). k_key pack = [rd_bits ly, rd_bits ly, rd_bits ly])) \<and>
     (rd_mixed ly \<longrightarrow> (\<exists>mk. mx_mixedk ext = Some mk \<and> (moe_lpt_enabled (rt_env rt) \<longrightarrow> (\<exists>a. mf_arity mk = Some a \<and> 37 \<le> a))))"

lemma build_uniform:
  assumes "build_exl3_fused_state env xi has_store gl bits False fin inners = Inr st" "xi_concurrency xi \<noteq> None"
  shows "fs_tbl st = ptr_table_of inners" "fs_temps st" "\<not> fs_unified st" "fs_kdesc st = None" "fs_k_tuple st = Some (bits, bits, bits)"
  using assms unfolding build_exl3_fused_state_def Let_def by (auto split: if_splits)

lemma one_group_key: "k_groups inners = [g] \<Longrightarrow> e < length inners \<Longrightarrow> k_key (inners ! e) = fst g"
  using group_of [of e inners] k_groups_props(5) [of g inners e] by auto

lemma k_desc_one_width:
  assumes "length (k_groups inners) = 1"
  shows "k_desc inners = [0..<length inners]"
proof -
  obtain g where g: "k_groups inners = [g]" using assms by (metis One_nat_def length_0_conv length_Suc_conv)
  note key = one_group_key [OF g]
  let ?f = "\<lambda>e. - int (max (max (bits_of (gate_slot (inners ! e))) (bits_of (ip_up (inners ! e)))) (bits_of (ip_down (inners ! e))))"
  have f: "?f e = - int (max (max (fst g ! 0) (fst g ! 1)) (fst g ! 2))" if "e < length inners" for e
    by (simp add: key [OF that, symmetric] k_key_def)
  have "sort_key ?f [0..<length inners] = [0..<length inners]"
  proof (rule properties_for_sort_key)
    have "map ?f [0..<length inners] = map (\<lambda>_. - int (max (max (fst g ! 0) (fst g ! 1)) (fst g ! 2))) [0..<length inners]"
      using f by (intro map_cong refl) auto
    then show "sorted (map ?f [0..<length inners])" by (simp add: map_replicate_const)
  qed simp_all
  then show ?thesis by (simp add: k_desc_def)
qed

text \<open>The rows of a launch are sorted by a key that the experts follow in their order.\<close>

definition launch_key :: "('a, 'c) moe_rt \<Rightarrow> 'a fused_state \<Rightarrow> nat \<Rightarrow> nat \<Rightarrow> nat" where
  "launch_key rt st n l = (if fs_kdesc st \<noteq> None \<and> moe_lpt_enabled (rt_env rt) then rank_key (fs_krank st) n l else l)"

lemma launch_order_sorted:
  assumes "argsort_contract (rt_ops rt)" "launch_order rt st n loc = (order, eo)"
  shows "mset order = mset [0..<length loc]" "sorted (map (\<lambda>j. launch_key rt st n (loc ! j)) order)"
    "eo = (if fs_kdesc st \<noteq> None \<and> moe_lpt_enabled (rt_env rt) then fs_kdesc st else None)"
proof -
  have o: "order = to_argsort (rt_ops rt) (map (launch_key rt st n) loc)"
    using assms(2) unfolding launch_order_def launch_key_def rank_key_def
    by (cases "fs_kdesc st") (auto split: if_splits cong: if_cong)
  show "mset order = mset [0..<length loc]" unfolding o using argsortD(1) [OF assms(1), of "map (launch_key rt st n) loc"] by simp
  have keys: "map (\<lambda>j. launch_key rt st n (loc ! j)) order = map ((!) (map (launch_key rt st n) loc)) order"
    using argsortD(4) [OF assms(1), of "map (launch_key rt st n) loc"] by (simp add: o)
  show "sorted (map (\<lambda>j. launch_key rt st n (loc ! j)) order)"
    unfolding keys unfolding o by (rule argsortD(2) [OF assms(1)])
  show "eo = (if fs_kdesc st \<noteq> None \<and> moe_lpt_enabled (rt_env rt) then fs_kdesc st else None)"
    using assms(2) by (auto simp: launch_order_def split: option.splits if_splits)
qed

lemma standard_value:
  assumes k: "kernels_ok rt ext" "mx_moe ext = Some fn" and ok: "layer_ok rt ly" and st: "state_ok rt ext fn ly st"
    and batch: "batch_ok rt ly xh flat loc ws"
  shows "\<exists>label. standard_dispatch rt ext fn ly st limit xh flat loc ws out =
    (label, index_add out (routed_adds (layer_val rt ly limit) (length (rd_inners ly)) xh (zip flat (zip loc ws))))"
proof -
  let ?n = "length (rd_inners ly)"
  obtain order eo where lo: "launch_order rt st ?n loc = (order, eo)" by force
  have as: "argsort_contract (rt_ops rt)" using k by (simp add: kernels_ok_def)
  note o = launch_order_sorted [OF as lo]
  obtain xi gl fin where b: "build_exl3_fused_state (rt_env rt) xi (rd_store ly) gl (rd_bits ly) (rd_mixed ly) fin (rd_inners ly) = Inr st"
    "xi_concurrency xi \<noteq> None" "xi_moe_arity xi = mf_arity fn"
    using st unfolding state_ok_def by blast
  have uniform: "run_moe fn ly limit xh (Scalar (launch_widths st)) (ptr_table_of (rd_inners ly))
      (exl3_moe_tail (mf_arity fn) (temp_rows_fused (rt_env rt)) ?n None None) (expert_count ?n loc) (sorted_by order flat) (sorted_by order ws) out =
    index_add out (routed_adds (layer_val rt ly limit) ?n xh (zip flat (zip loc ws)))"
    if "\<And>e. e < ?n \<Longrightarrow> launch_widths st = (bits_of (gate_slot (rd_inners ly ! e)), bits_of (ip_up (rd_inners ly ! e)), bits_of (ip_down (rd_inners ly ! e)))"
      "\<And>a b. a < b \<Longrightarrow> b \<le> ?n \<Longrightarrow> launch_key rt st ?n a < launch_key rt st ?n b"
    by (rule uniform_value [OF k ok batch refl _ o(1,2)]) (use that in auto)
  show ?thesis
  proof (cases "rd_mixed ly")
    case False
    have "build_exl3_fused_state (rt_env rt) xi (rd_store ly) gl (rd_bits ly) False fin (rd_inners ly) = Inr st" using b(1) False by simp
    note u = build_uniform [OF this b(2)]
    have "k_key (rd_inners ly ! e) = [rd_bits ly, rd_bits ly, rd_bits ly]" if "e < ?n" for e
      using st False that by (auto simp: state_ok_def)
    then show ?thesis
      using uniform u by (auto simp: standard_dispatch_def lo Let_def launch_widths_def launch_key_def k_key_def)
  next
    case True
    obtain mk where mk: "mx_mixedk ext = Some mk" "moe_lpt_enabled (rt_env rt) \<Longrightarrow> \<exists>a. mf_arity mk = Some a \<and> 37 \<le> a"
      using st True by (auto simp: state_ok_def)
    obtain k_max packed where m: "k_max_launch (rd_inners ly) = Inr k_max"
      "packed_dispatch (rt_env rt) (xi_moe_arity xi) (ptr_table_of (rd_inners ly)) (k_groups (rd_inners ly)) ?n = Inr packed"
      "fs_tbl st = ptr_table_of (rd_inners ly)" "fs_unified st" "fs_karr st = k_arrays (rd_inners ly)" "fs_kmax st = k_max"
      "fs_kdesc st = Some (k_desc (rd_inners ly))" "fs_krank st = k_rank (k_desc (rd_inners ly))" "fs_groups st = Some (k_groups (rd_inners ly))"
      "fs_group_index st = group_index (k_groups (rd_inners ly)) ?n" "fs_packed st = packed"
      "fs_k_tuple st = (if length (k_groups (rd_inners ly)) = 1
         then Some (fst (hd (k_groups (rd_inners ly))) ! 0, fst (hd (k_groups (rd_inners ly))) ! 1, fst (hd (k_groups (rd_inners ly))) ! 2) else None)"
    proof -
      have "build_exl3_fused_state (rt_env rt) xi (rd_store ly) gl (rd_bits ly) True fin (rd_inners ly) = Inr st" using b(1) True by simp
      from build_mixed [OF this b(2)] that show ?thesis by metis
    qed
    show ?thesis
    proof (cases "length (k_groups (rd_inners ly)) = 1")
      case one: True
      obtain g where g: "k_groups (rd_inners ly) = [g]" using one by (metis One_nat_def length_0_conv length_Suc_conv)
      note key = one_group_key [OF g]
      have rank: "k_rank (k_desc (rd_inners ly)) ! e = e" if "e < ?n" for e
        using k_rank_inverse [OF that] k_desc_one_width [OF one] that by simp
      have w: "launch_widths st = (bits_of (gate_slot (rd_inners ly ! e)), bits_of (ip_up (rd_inners ly ! e)), bits_of (ip_down (rd_inners ly ! e)))"
        if "e < ?n" for e by (simp add: launch_widths_def m g key [OF that, symmetric] k_key_def)
      have "launch_key rt st ?n a < launch_key rt st ?n b" if "a < b" "b \<le> ?n" for a b
      proof (cases "b = ?n")
        case True
        then show ?thesis using that rank by (auto simp: launch_key_def m(8) intro: rank_key_last)
      next
        case False
        then show ?thesis using that rank by (auto simp: launch_key_def m(8) intro!: rank_key_less)
      qed
      from uniform [OF w this] show ?thesis by (simp add: standard_dispatch_def lo Let_def m g)
    next
      case False
      have packed: "packed_groups rt fn ly limit ?n (k_groups (rd_inners ly)) pk xh flat loc ws out =
          index_add out (routed_adds (layer_val rt ly limit) ?n xh (zip flat (zip loc ws)))" if "packed = Some pk" for pk
        by (rule packed_groups_value [OF k ok batch refl, of "rt_env rt"]) (use m(2) that b(3) in simp)
      note masked = masked_groups_value [OF k ok batch refl m(3,10), of limit out]
      have unified: "run_moe mk ly limit xh (PerExpert (k_arrays (rd_inners ly))) (ptr_table_of (rd_inners ly))
          (exl3_moe_tail (mf_arity mk) (temp_rows_fused (rt_env rt)) ?n (Some k_max) eo) (expert_count ?n loc) (sorted_by order flat) (sorted_by order ws) out =
        index_add out (routed_adds (layer_val rt ly limit) ?n xh (zip flat (zip loc ws)))"
      proof (rule unified_value [OF k(1) mk(1) ok batch refl m(1) o(1,2) refl])
        show "sorted_wrt (\<lambda>a b. launch_key rt st ?n a < launch_key rt st ?n b) (case eo of None \<Rightarrow> [0..<?n] | Some order \<Rightarrow> order)"
          using work_order(1) [of "rd_inners ly"] by (simp add: o(3) m(7,8) launch_key_def)
        show "set (case eo of None \<Rightarrow> [0..<?n] | Some order \<Rightarrow> order) = {..<?n}"
          using k_desc_perm(3) [of "rd_inners ly"] by (simp add: o(3) m(7) lessThan_atLeast0)
        show "\<forall>e < ?n. launch_key rt st ?n e < launch_key rt st ?n ?n"
          using work_order(2) [of "rd_inners ly"] by (simp add: m(8) launch_key_def)
        show "\<exists>a. mf_arity mk = Some a \<and> 37 \<le> a" if "eo \<noteq> None"
          using that mk(2) by (auto simp: o(3) split: if_splits)
      qed
      show ?thesis
        using False unified packed masked
        by (cases packed) (auto simp: standard_dispatch_def lo Let_def m(3-7,9,11,12) mk(1))
    qed
  qed
qed

section \<open>Experts with many rows\<close>

lemma walk_adds_cong:
  "(\<And>e. e \<in> set es \<Longrightarrow> counts ! e = counts' ! e \<and> (sel e \<longleftrightarrow> sel' e)) \<Longrightarrow>
    walk_adds sel row x counts tokens weights start es = walk_adds sel' row x counts' tokens weights start es"
  by (induction es arbitrary: start) simp_all

lemma fat_experts_value:
  assumes row: "\<And>e h. e < length all \<Longrightarrow> row e h = Inr (val e h)"
  shows "drop e all = counts \<Longrightarrow> e \<le> length all \<Longrightarrow>
    fat_experts row cap xh tokens weights offset e counts out =
      Inr (index_add out (walk_adds (\<lambda>e. cap < all ! e) val xh all tokens weights offset [e..<length all]))"
proof (induction counts arbitrary: offset e out)
  case (Cons c counts)
  have e: "e < length all" using Cons.prems by (metis drop_all linorder_not_less list.distinct(1))
  then have a: "all ! e = c" "drop (Suc e) all = counts"
    using Cons.prems(1) by (metis nth_via_drop) (use Cons.prems(1) in \<open>simp add: drop_Suc tl_drop [symmetric]\<close>)
  note IH = Cons.IH [OF a(2), of "offset + c"]
  have seg: "loop_expert (row e) xh (map (\<lambda>i. (tokens ! i, e, weights ! i)) [offset..<offset + c]) out =
      Inr (index_add out (map (\<lambda>i. (tokens ! i, scale_row (weights ! i) (val e (xh ! (tokens ! i))))) [offset..<offset + c]))"
    by (subst loop_expert_value [where val = val and e = e]) (auto simp: row e route_add_def comp_def)
  have "[e..<length all] = e # [Suc e..<length all]" using e by (rule upt_conv_Cons)
  then show ?case using e IH by (simp add: a seg index_add_append)
qed simp

lemma fused_batch_value:
  assumes k: "kernels_ok rt ext" "mx_moe ext = Some fn" and ok: "layer_ok rt ly" and st: "state_ok rt ext fn ly st"
    and batch: "batch_ok rt ly x flat loc ws" and safe: "fat_safe rt ly (length x)"
  shows "\<exists>label. fused_batch rt ext ly st limit x flat loc ws = Inr (Some label,
    index_add (zero_rows (length x) (rd_hidden ly))
      (routed_adds (layer_val rt ly limit) (length (rd_inners ly)) (map (map (to_half (rt_ops rt))) x) (zip flat (zip loc ws))))"
proof -
  let ?n = "length (rd_inners ly)" and ?xh = "map (map (to_half (rt_ops rt))) x" and ?thr = "fat_expert_threshold (rt_env rt)"
  let ?counts = "take ?n (expert_count ?n loc)" and ?rs = "zip flat (zip loc ws)" and ?zero = "zero_rows (length x) (rd_hidden ly)"
  let ?fat = "\<not> rt_capturing rt \<and> ?thr < length x \<and> list_ex (\<lambda>c. ?thr < c) ?counts" and ?P = "\<lambda>l. l < ?n \<and> ?thr < count_list loc l"
  let ?V = "layer_val rt ly limit"
  have bh: "batch_ok rt ly ?xh flat loc ws" using batch by (simp add: batch_ok_def)
  have len: "length flat = length loc" "length ws = length loc" using batch by (auto simp: batch_ok_def)
  show ?thesis
  proof (cases ?fat)
    case False
    have "mask_routes (replicate (length loc) False) ?n loc = loc" "mask_routes (replicate (length loc) False) 0 ws = ws"
      using len by (simp_all add: unmasked_routes)
    then show ?thesis
      using standard_value [OF k ok st bh, of limit ?zero] k(2) unfolding fused_batch_def Let_def if_not_P [OF False] by auto
  next
    case True
    have cn: "?counts ! e = count_list loc e" if "e < ?n" for e using that by (simp add: expert_count_nth)
    have mask: "fat_mask ?n ?counts ?thr loc = map ?P loc" unfolding fat_mask_def using cn by auto
    obtain label where std: "standard_dispatch rt ext fn ly st limit ?xh flat (mask_routes (map ?P loc) ?n loc) (mask_routes (map ?P loc) 0 ws) ?zero =
        (label, index_add ?zero (routed_adds ?V ?n ?xh (filter (\<lambda>(t, e, w). \<not> ?P e) ?rs)))"
      using standard_value [OF k ok st masked_batch [OF bh, of ?P], of limit ?zero] masked_adds [OF len, of ?V ?n ?xh ?P] by auto
    have srt: "argsort_contract (rt_ops rt)" using k by (simp add: kernels_ok_def)
    let ?p = "to_argsort (rt_ops rt) loc"
    have safe': "rd_act ly \<noteq> 3" "rd_flags ly ! 0 = rd_flags ly ! 1" using safe True by (auto simp: fat_safe_def)
    have row: "fat_row (rt_ops rt) ext (rt_flags rt) limit (rd_inners ly ! e) h = Inr (?V e h)" if "e < length ?counts" for e h
      using fat_row_value [OF k(1) ok _ safe'] that by simp
    have "apply_exl3_batched_fat (rt_ops rt) ext (rt_flags rt) ?xh (sorted_by ?p flat) (sorted_by ?p ws) ?counts (rd_inners ly) limit ?thr out =
        Inr (index_add out (routed_adds ?V ?n ?xh (filter (\<lambda>(t, e, w). ?P e) ?rs)))" for out
    proof -
      have w1: "walk_adds (\<lambda>e. ?thr < ?counts ! e) ?V ?xh ?counts (sorted_by ?p flat) (sorted_by ?p ws) 0 [0..<?n] =
          walk_adds ?P ?V ?xh (expert_count ?n loc) (sorted_by ?p flat) (sorted_by ?p ws) 0 [0..<?n]"
        by (rule walk_adds_cong) (use cn in auto)
      have w2: "mset (walk_adds ?P ?V ?xh (expert_count ?n loc) (sorted_by ?p flat) (sorted_by ?p ws) 0 [0..<?n]) =
          mset (map (route_add ?V ?xh) (filter (\<lambda>(t, e, w). e < ?n \<and> ?P e) ?rs))"
        by (rule sorted_walk_adds [OF len, where key = "\<lambda>l. l"]) (use argsortD(1,2) [OF srt] batch in \<open>auto simp: batch_ok_def\<close>)
      have w3: "map (route_add ?V ?xh) (filter (\<lambda>(t, e, w). e < ?n \<and> ?P e) ?rs) = routed_adds ?V ?n ?xh (filter (\<lambda>(t, e, w). ?P e) ?rs)"
        unfolding routed_adds_def by (auto intro!: arg_cong [where f = "map _"] filter_cong)
      have w4: "fat_experts (\<lambda>e. fat_row (rt_ops rt) ext (rt_flags rt) limit (rd_inners ly ! e)) ?thr ?xh (sorted_by ?p flat) (sorted_by ?p ws) 0 0
          ?counts out = Inr (index_add out (walk_adds (\<lambda>e. ?thr < ?counts ! e) ?V ?xh ?counts (sorted_by ?p flat) (sorted_by ?p ws) 0 [0..<length ?counts]))"
        by (rule fat_experts_value [OF row]) simp_all
      have w5: "[0..<length ?counts] = [0..<?n]" by simp
      show ?thesis unfolding apply_exl3_batched_fat_def w4 w5 w1 index_add_mset [OF w2] w3 ..
    qed
    moreover have "index_add (index_add ?zero (routed_adds ?V ?n ?xh (filter (\<lambda>(t, e, w). \<not> ?P e) ?rs)))
        (routed_adds ?V ?n ?xh (filter (\<lambda>(t, e, w). ?P e) ?rs)) = index_add ?zero (routed_adds ?V ?n ?xh ?rs)"
    proof -
      have d: "mset (routed_adds ?V ?n ?xh (filter (\<lambda>(t, e, w). \<not> ?P e) ?rs)) + mset (routed_adds ?V ?n ?xh (filter (\<lambda>(t, e, w). ?P e) ?rs)) =
          mset (routed_adds ?V ?n ?xh (filter (\<lambda>(t, e, w). \<not> ?P e \<or> ?P e) ?rs))"
        by (rule disjoint_adds) blast
      have whole: "filter (\<lambda>(t, e, w). \<not> ?P e \<or> ?P e) ?rs = ?rs" by (rule filter_True) auto
      show ?thesis unfolding index_add_append [symmetric] by (rule index_add_mset) (simp only: mset_append d whole)
    qed
    ultimately show ?thesis
      unfolding fused_batch_def Let_def if_P [OF True] mask k(2) option.case std prod.case by (simp only: bind_res_simps) blast
  qed
qed

section \<open>Token by token\<close>

text \<open>The output row of a token: the weighted rows of its local experts, added up.\<close>

definition token_val :: "(nat \<Rightarrow> arow \<Rightarrow> arow) \<Rightarrow> nat \<Rightarrow> nat \<Rightarrow> arow \<Rightarrow> (nat \<times> rat) list \<Rightarrow> arow" where
  "token_val val n hidden h routes =
     fold (\<lambda>(e, w) acc. if e < n then add_row acc (scale_row w (val e h)) else acc) routes (replicate hidden 0)"

lemma one_token:
  assumes "s < length out"
  shows "index_add out (routed_adds val n x (zip (replicate (length rs) s) rs)) =
    out[s := fold (\<lambda>(e, w) acc. if e < n then add_row acc (scale_row w (val e (x ! s))) else acc) rs (out ! s)]"
  using assms
proof (induction rs arbitrary: out)
  case (Cons r rs)
  obtain e w where r: "r = (e, w)" by force
  have step: "index_add out ((s, v) # adds) = index_add (out[s := add_row (out ! s) v]) adds" for out v adds by (simp add: index_add_def)
  show ?case
    using Cons by (simp add: r routed_adds_def route_add_def step)
qed (simp add: routed_adds_def)

lemma index_add_tokens:
  assumes "length es = length x" "length ws = length x" "\<forall>r \<in> set es. length r = k" "\<forall>r \<in> set ws. length r = k" "length pre = length px"
  shows "index_add (pre @ zero_rows (length x) hidden)
      (routed_adds val n (px @ x) (zip (concat (map (replicate k) [length px..<length px + length x])) (zip (concat es) (concat ws)))) =
    pre @ map (\<lambda>(h, e, w). token_val val n hidden h (zip e w)) (zip x (zip es ws))"
  using assms
proof (induction x arbitrary: es ws pre px)
  case (Cons h x)
  obtain e es' where es: "es = e # es'" using Cons.prems(1) by (cases es) auto
  obtain w ws' where ws: "ws = w # ws'" using Cons.prems(2) by (cases ws) auto
  let ?s = "length px" and ?zs = "\<lambda>a b. zip (concat (map (replicate k) [a..<b])) (zip (concat es') (concat ws'))"
  have up: "[?s..<?s + length (h # x)] = ?s # [Suc ?s..<Suc ?s + length x]"
    using upt_conv_Cons [of ?s "?s + length (h # x)"] by (simp del: upt_Suc)
  have ek: "length e = k" "length w = k" using Cons.prems es ws by auto
  have split: "zip (concat (map (replicate k) [?s..<?s + length (h # x)])) (zip (concat es) (concat ws)) =
      zip (replicate (length (zip e w)) ?s) (zip e w) @ ?zs (Suc ?s) (Suc ?s + length x)"
    unfolding up by (simp add: es ws ek)
  have adds: "routed_adds val n X (as @ bs) = routed_adds val n X as @ routed_adds val n X bs" for X as bs by (simp add: routed_adds_def)
  have z: "zero_rows (length (h # x)) hidden = replicate hidden 0 # zero_rows (length x) hidden" by (simp add: zero_rows_def)
  let ?v = "token_val val n hidden h (zip e w)"
  have "index_add (pre @ zero_rows (length (h # x)) hidden) (routed_adds val n (px @ h # x) (zip (replicate (length (zip e w)) ?s) (zip e w))) =
      pre @ ?v # zero_rows (length x) hidden"
  proof -
    have here: "(px @ h # x) ! ?s = h" "(pre @ replicate hidden 0 # zero_rows (length x) hidden) ! ?s = replicate hidden 0"
      using Cons.prems(5) by (metis nth_append_length)+
    show ?thesis
      using one_token [of ?s "pre @ zero_rows (length (h # x)) hidden" val n "px @ h # x" "zip e w"] Cons.prems(5)
      unfolding z here by (simp add: token_val_def list_update_append)
  qed
  moreover have "index_add ((pre @ [?v]) @ zero_rows (length x) hidden) (routed_adds val n ((px @ [h]) @ x) (?zs (Suc ?s) (Suc ?s + length x))) =
      (pre @ [?v]) @ map (\<lambda>(h, e, w). token_val val n hidden h (zip e w)) (zip x (zip es' ws'))"
    using Cons.IH [of es' ws' "pre @ [?v]" "px @ [h]"] Cons.prems es ws by simp
  ultimately show ?case unfolding split adds index_add_append by (simp add: es ws)
qed (simp add: routed_adds_def zero_rows_def)

lemma index_add_rows:
  assumes "length es = length x" "length ws = length x" "\<forall>r \<in> set es. length r = k" "\<forall>r \<in> set ws. length r = k"
  shows "index_add (zero_rows (length x) hidden) (routed_adds val n x (zip (flat_token (length x) k) (zip (concat es) (concat ws)))) =
    map (\<lambda>(h, e, w). token_val val n hidden h (zip e w)) (zip x (zip es ws))"
  using index_add_tokens [OF assms, of "[]" "[]"] by (simp add: flat_token_def)

text \<open>The output of a batch with ids in local numbering by \<open>loc\<close> and weights in half precision.\<close>

definition batch_val :: "('a, 'c) moe_rt \<Rightarrow> 'a moe_ready \<Rightarrow> (string \<times> int list) option \<Rightarrow> rat option \<Rightarrow> arow list \<Rightarrow> int list list \<Rightarrow> rat list list \<Rightarrow> arow list" where
  "batch_val rt ly emap limit x ids weights =
     map (\<lambda>(h, is, ws). token_val (layer_val rt ly limit) (length (rd_inners ly)) (rd_hidden ly) (map (to_half (rt_ops rt)) h)
         (zip (map (local_id (length (rd_inners ly)) (map_option snd emap)) is) (map (to_half (rt_ops rt)) ws)))
       (zip x (zip ids weights))"

text \<open>A batch as the router hands it over: equal lengths, and no token routed twice to one local expert.\<close>

definition routing_ok :: "('a, 'c) moe_rt \<Rightarrow> 'a moe_ready \<Rightarrow> (string \<times> int list) option \<Rightarrow> nat \<Rightarrow> arow list \<Rightarrow> int list list \<Rightarrow> rat list list \<Rightarrow> bool" where
  "routing_ok rt ly emap k x ids weights \<longleftrightarrow>
     length ids = length x \<and> length weights = length x \<and> (\<forall>r \<in> set ids. length r = k) \<and> (\<forall>r \<in> set weights. length r = k) \<and>
     (\<forall>d m. emap = Some (d, m) \<longrightarrow> d = rt_dev rt) \<and>
     (\<forall>r \<in> set ids. distinct (filter (\<lambda>e. e < length (rd_inners ly)) (map (local_id (length (rd_inners ly)) (map_option snd emap)) r)))"

lemma local_ids:
  assumes "routing_ok rt ly emap k x ids weights"
  shows "map_topk_to_local (rt_dev rt) ids (length (rd_inners ly)) emap =
    Inr (concat (map (map (local_id (length (rd_inners ly)) (map_option snd emap))) ids))"
  using assms by (cases emap) (auto simp: map_topk_to_local_def map_concat routing_ok_def)

lemma local_id_le: "local_id n emap i \<le> n"
  by (auto simp: local_id_def Let_def split: option.splits)

lemma routing_topk: "routing_ok rt ly emap k x ids weights \<Longrightarrow> flat_token (length x) (topk_of ids) = flat_token (length x) k"
  by (cases ids) (auto simp: routing_ok_def topk_of_def flat_token_def)

lemma count_list_concat: "count_list (concat xss) e = sum_list (map (\<lambda>xs. count_list xs e) xss)"
  by (induction xss) (simp_all add: count_list_append)

lemma rows_length: "\<forall>r \<in> set xss. length r = k \<Longrightarrow> length (concat xss) = length xss * k"
  by (induction xss) auto

lemma flat_token_length: "length (flat_token tokens k) = tokens * k"
  by (simp add: flat_token_def length_concat comp_def sum_list_triv)

text \<open>An expert has at most one row per token.\<close>

lemma routed_once:
  assumes "routing_ok rt ly emap k x ids weights" "e < length (rd_inners ly)"
  shows "count_list (concat (map (map (local_id (length (rd_inners ly)) (map_option snd emap))) ids)) e \<le> length x"
proof -
  let ?n = "length (rd_inners ly)" and ?L = "local_id (length (rd_inners ly)) (map_option snd emap)"
  have "count_list (map ?L r) e \<le> 1" if "r \<in> set ids" for r
  proof -
    have "distinct (filter (\<lambda>e. e < ?n) (map ?L r))" using assms(1) that by (auto simp: routing_ok_def)
    moreover have "count_list (map ?L r) e = count_list (filter (\<lambda>e. e < ?n) (map ?L r)) e" using assms(2) by (induction r) auto
    ultimately show ?thesis by (metis count_mset distinct_count_atmost_1 le_zero_eq nle_le zero_le)
  qed
  then have "sum_list (map (\<lambda>r. count_list (map ?L r) e) ids) \<le> length ids" by (induction ids) fastforce+
  then show ?thesis using assms(1) by (simp add: count_list_concat comp_def routing_ok_def)
qed

lemma loop_is_batch_val:
  assumes ok: "layer_ok rt ly" "forward_contract rt" and r: "routing_ok rt ly emap k x ids weights"
  shows "apply_exl3_python_loop (rt_ops rt) (rt_forward rt) (rt_dev rt) (rd_hidden ly) x ids (map (map (to_half (rt_ops rt))) weights)
      (rd_inners ly) emap limit None None (rd_act ly) = Inr (batch_val rt ly emap limit x ids weights)"
proof -
  let ?n = "length (rd_inners ly)" and ?L = "local_id (length (rd_inners ly)) (map_option snd emap)" and ?H = "map (to_half (rt_ops rt))"
  let ?es = "map (map ?L) ids" and ?ws = "map ?H weights" and ?val = "\<lambda>e h. layer_val rt ly limit e (map (to_half (rt_ops rt)) h)"
  have len: "length ?es = length x" "length ?ws = length x" "\<forall>r \<in> set ?es. length r = k" "\<forall>r \<in> set ?ws. length r = k"
    using r by (auto simp: routing_ok_def)
  have map_zip: "map (\<lambda>(h, e, w). token_val ?val ?n (rd_hidden ly) h (zip e w)) (zip x (zip ?es ?ws)) = batch_val rt ly emap limit x ids weights"
    by (rule nth_equalityI) (use len in \<open>auto simp: batch_val_def token_val_def\<close>)
  have "apply_exl3_python_loop (rt_ops rt) (rt_forward rt) (rt_dev rt) (rd_hidden ly) x ids ?ws (rd_inners ly) emap limit None None (rd_act ly) =
      Inr (index_add (zero_rows (length x) (rd_hidden ly)) (routed_adds ?val ?n x (zip (flat_token (length x) (topk_of ids)) (zip (concat ?es) (concat ?ws)))))"
  proof (rule loop_value [OF local_ids [OF r]])
    show "length (concat ?es) = length (concat ?ws)" "length (flat_token (length x) (topk_of ids)) = length (concat ?es)"
      unfolding routing_topk [OF r] using len rows_length [OF len(3)] rows_length [OF len(4)] by (simp_all only: flat_token_length)
  qed (rule loop_row_value [OF ok])
  then show ?thesis unfolding routing_topk [OF r] index_add_rows [OF len] map_zip .
qed

section \<open>The entry point\<close>

lemma slice_starts_concat:
  assumes "0 < step"
  shows "concat (map (\<lambda>s. take step (drop s xs)) (slice_starts step (length xs))) = xs"
proof -
  have "concat (map (\<lambda>i. take step (drop (step * i) xs)) [0..<m]) = take (step * m) xs" for m
    by (induction m) (simp_all add: add.commute [of step] take_add)
  moreover have "length xs \<le> step * ((length xs + step - 1) div step)"
  proof -
    have "(length xs + step - 1) mod step < step" using assms by simp
    moreover have "length xs + step - 1 = step * ((length xs + step - 1) div step) + (length xs + step - 1) mod step" by simp
    ultimately show ?thesis using assms by linarith
  qed
  ultimately show ?thesis by (simp add: slice_starts_def comp_def)
qed

lemma batch_val_slice:
  "batch_val rt ly emap limit (take r (drop s x)) (take r (drop s ids)) (take r (drop s ws)) = take r (drop s (batch_val rt ly emap limit x ids ws))"
  by (simp add: batch_val_def take_map drop_map take_zip drop_zip)

lemma routing_slice:
  "routing_ok rt ly emap k x ids ws \<Longrightarrow> routing_ok rt ly emap k (take r (drop s x)) (take r (drop s ids)) (take r (drop s ws))"
  unfolding routing_ok_def by (auto dest!: in_set_takeD in_set_dropD)

lemma coop_widths:
  assumes "state_ok rt ext fn ly st" "fs_coop st" "e < length (rd_inners ly)"
  shows "launch_widths st = (bits_of (gate_slot (rd_inners ly ! e)), bits_of (ip_up (rd_inners ly ! e)), bits_of (ip_down (rd_inners ly ! e)))"
proof -
  obtain xi gl fin where b: "build_exl3_fused_state (rt_env rt) xi (rd_store ly) gl (rd_bits ly) (rd_mixed ly) fin (rd_inners ly) = Inr st"
    "xi_concurrency xi \<noteq> None"
    using assms(1) unfolding state_ok_def by blast
  show ?thesis
  proof (cases "rd_mixed ly")
    case False
    then have "build_exl3_fused_state (rt_env rt) xi (rd_store ly) gl (rd_bits ly) False fin (rd_inners ly) = Inr st" using b(1) by simp
    note tuple = build_uniform(5) [OF this b(2)]
    have "k_key (rd_inners ly ! e) = [rd_bits ly, rd_bits ly, rd_bits ly]" using assms False by (auto simp: state_ok_def)
    then show ?thesis by (simp add: launch_widths_def tuple k_key_def)
  next
    case True
    then have bt: "build_exl3_fused_state (rt_env rt) xi (rd_store ly) gl (rd_bits ly) True fin (rd_inners ly) = Inr st" using b(1) by simp
    have "length (k_groups (rd_inners ly)) = 1" and kt: "fs_k_tuple st = Some (fst (hd (k_groups (rd_inners ly))) ! 0,
        fst (hd (k_groups (rd_inners ly))) ! 1, fst (hd (k_groups (rd_inners ly))) ! 2)"
      using assms(2) build_mixed [OF bt b(2)] by metis+
    then obtain g where g: "k_groups (rd_inners ly) = [g]" by (metis One_nat_def length_0_conv length_Suc_conv)
    show ?thesis by (simp add: launch_widths_def kt g one_group_key [OF g assms(3), symmetric] k_key_def)
  qed
qed

lemma state_tables:
  assumes "state_ok rt ext fn ly st"
  shows "fs_tbl st = ptr_table_of (rd_inners ly)" "fs_temps st" "rd_store ly \<or> rd_mixed ly \<Longrightarrow> fs_unified st"
proof -
  obtain xi gl fin where b: "build_exl3_fused_state (rt_env rt) xi (rd_store ly) gl (rd_bits ly) (rd_mixed ly) fin (rd_inners ly) = Inr st"
    "xi_concurrency xi \<noteq> None"
    using assms unfolding state_ok_def by blast
  have "fs_tbl st = ptr_table_of (rd_inners ly) \<and> fs_temps st \<and> (rd_store ly \<or> rd_mixed ly \<longrightarrow> fs_unified st)"
  proof (cases "rd_mixed ly")
    case False
    then have "\<not> rd_store ly" using b(1) by (auto simp: build_exl3_fused_state_def)
    moreover have "build_exl3_fused_state (rt_env rt) xi (rd_store ly) gl (rd_bits ly) False fin (rd_inners ly) = Inr st" using b(1) False by simp
    ultimately show ?thesis using build_uniform(1,2) b(2) False by metis
  next
    case True
    then have bt: "build_exl3_fused_state (rt_env rt) xi (rd_store ly) gl (rd_bits ly) True fin (rd_inners ly) = Inr st" using b(1) by simp
    show ?thesis by (rule build_mixed [OF bt b(2)]) simp
  qed
  then show "fs_tbl st = ptr_table_of (rd_inners ly)" "fs_temps st" "rd_store ly \<or> rd_mixed ly \<Longrightarrow> fs_unified st" by simp_all
qed

lemma routed_batch:
  assumes "routing_ok rt ly emap k x ids weights"
  defines "loc \<equiv> concat (map (map (local_id (length (rd_inners ly)) (map_option snd emap))) ids)"
    and "ws \<equiv> map (to_half (rt_ops rt)) (concat weights)"
  shows "length loc = length x * k" "length ws = length x * k" "\<forall>l \<in> set loc. l \<le> length (rd_inners ly)"
    "index_add (zero_rows (length x) (rd_hidden ly)) (routed_adds (layer_val rt ly limit) (length (rd_inners ly)) (map (map (to_half (rt_ops rt))) x)
       (zip (flat_token (length x) (topk_of ids)) (zip loc ws))) = batch_val rt ly emap limit x ids weights"
proof -
  let ?n = "length (rd_inners ly)" and ?L = "local_id (length (rd_inners ly)) (map_option snd emap)" and ?H = "map (to_half (rt_ops rt))"
  have len: "length (map (map ?L) ids) = length (map ?H x)" "length (map ?H weights) = length (map ?H x)"
    "\<forall>r \<in> set (map (map ?L) ids). length r = k" "\<forall>r \<in> set (map ?H weights). length r = k"
    using assms(1) by (auto simp: routing_ok_def)
  show "length loc = length x * k" "length ws = length x * k"
    using rows_length [OF len(3)] rows_length [OF len(4)] len(1,2) by (simp_all add: loc_def ws_def map_concat)
  show "\<forall>l \<in> set loc. l \<le> ?n" by (auto simp: loc_def local_id_le)
  have "map (\<lambda>(h, e, w). token_val (layer_val rt ly limit) ?n (rd_hidden ly) h (zip e w)) (zip (map ?H x) (zip (map (map ?L) ids) (map ?H weights))) =
      batch_val rt ly emap limit x ids weights"
    by (rule nth_equalityI) (use len in \<open>auto simp: batch_val_def\<close>)
  then show "index_add (zero_rows (length x) (rd_hidden ly)) (routed_adds (layer_val rt ly limit) ?n (map ?H x)
      (zip (flat_token (length x) (topk_of ids)) (zip loc ws))) = batch_val rt ly emap limit x ids weights"
    using index_add_rows [OF len, of "rd_hidden ly" "layer_val rt ly limit" ?n]
    by (simp add: routing_topk [OF assms(1)] loc_def ws_def map_concat)
qed

lemma coop_launch_simps:
  "cc_x (coop_launch rt ly st limit x topk loc weights) = map (map (to_half (rt_ops rt))) x"
  "cc_topk (coop_launch rt ly st limit x topk loc weights) = topk" "cc_sel (coop_launch rt ly st limit x topk loc weights) = loc"
  "cc_weights (coop_launch rt ly st limit x topk loc weights) = map (to_half (rt_ops rt)) (concat weights)"
  "cc_lo (coop_launch rt ly st limit x topk loc weights) = 0" "cc_hi (coop_launch rt ly st limit x topk loc weights) = length (rd_inners ly)"
  "cc_hidden (coop_launch rt ly st limit x topk loc weights) = rd_hidden ly"
  by (simp_all add: coop_launch_def)

lemma coop_value:
  assumes k: "kernels_ok rt ext" "mx_coop ext = Some run" and ok: "layer_ok rt ly" and st: "state_ok rt ext fn ly st"
    and r: "routing_ok rt ly emap k x ids weights" and want: "coop_wanted rt ly st (length x) (topk_of ids)"
  shows "run (coop_launch rt ly st limit x (topk_of ids) (concat (map (map (local_id (length (rd_inners ly)) (map_option snd emap))) ids)) weights) =
    batch_val rt ly emap limit x ids weights"
proof -
  let ?n = "length (rd_inners ly)" and ?loc = "concat (map (map (local_id (length (rd_inners ly)) (map_option snd emap))) ids)"
  let ?cc = "coop_launch rt ly st limit x (topk_of ids) ?loc weights"
  let ?rs = "zip (flat_token (length x) (topk_of ids)) (zip ?loc (map (to_half (rt_ops rt)) (concat weights)))"
  have tk: "length x * topk_of ids = length x * k"
    using routing_topk [OF r] by (metis flat_token_length)
  have w: "length x * topk_of ids \<le> COOP_SLOTS_MAX" "rd_hidden ly mod 128 = 0" "fs_coop st" "list_all (\<lambda>f. f = hd (rd_flags ly)) (rd_flags ly)"
    using want by (simp_all add: coop_wanted_def)
  have cond: "length (cc_sel ?cc) = length (cc_x ?cc) * cc_topk ?cc \<and> length (cc_sel ?cc) \<le> COOP_SLOTS_MAX \<and> cc_hidden ?cc mod 128 = 0"
    using w(1,2) routed_batch(1) [OF r] tk unfolding coop_launch_simps by auto
  have "coop_contract (rt_ops rt) run" using k by (simp add: kernels_ok_def)
  from mp [OF spec [OF this [unfolded coop_contract_def], of ?cc] cond] have "run ?cc = index_add (zero_rows (length (cc_x ?cc)) (cc_hidden ?cc))
      (map (route_add (coop_row (rt_ops rt) ?cc) (cc_x ?cc)) (filter (\<lambda>(t, e, w). cc_lo ?cc \<le> e \<and> e < cc_hi ?cc)
        (zip (flat_token (length (cc_x ?cc)) (cc_topk ?cc)) (zip (cc_sel ?cc) (cc_weights ?cc)))))" .
  then have "run ?cc = index_add (zero_rows (length x) (rd_hidden ly))
      (map (route_add (coop_row (rt_ops rt) ?cc) (map (map (to_half (rt_ops rt))) x)) (filter (\<lambda>(t, e, w). 0 \<le> e \<and> e < ?n) ?rs))"
    unfolding coop_launch_simps length_map .
  also have "map (route_add (coop_row (rt_ops rt) ?cc) (map (map (to_half (rt_ops rt))) x)) (filter (\<lambda>(t, e, w). 0 \<le> e \<and> e < ?n) ?rs) =
      routed_adds (layer_val rt ly limit) ?n (map (map (to_half (rt_ops rt))) x) ?rs"
    unfolding routed_adds_def
    by (rule map_cong) (auto simp: route_add_def coop_row_value [OF ok _ state_tables(1) [OF st] coop_widths [OF st w(3)] w(4)])
  finally show ?thesis using routed_batch(4) [OF r] by simp
qed

lemma fused_value:
  assumes k: "kernels_ok rt ext" "rt_ext rt = Some ext" "mx_moe ext = Some fn" and ok: "layer_ok rt ly"
    and st: "state_ok rt ext fn ly st" "rd_state ly = Some st" and backend: "get_moe_kernel_backend (rt_env rt) (rt_kernels rt) \<noteq> ''native''"
    and routed: "routing_ok rt ly emap k x ids weights" "fat_safe rt ly (length x)" "\<not> rt_capturing rt \<or> length x \<le> temp_rows_fused (rt_env rt)"
  shows "\<exists>label. apply_exl3_fused_moe rt ly emap limit x ids weights = Inr (Some label, batch_val rt ly emap limit x ids weights)"
  using routed
proof (induction "length x" arbitrary: x ids weights rule: less_induct)
  case less
  let ?n = "length (rd_inners ly)" and ?rows = "temp_rows_fused (rt_env rt)"
  let ?loc = "concat (map (map (local_id ?n (map_option snd emap))) ids)" and ?ws = "map (to_half (rt_ops rt)) (concat weights)"
  let ?crowd = "list_ex (\<lambda>c. ?rows < c) (take ?n (expert_count ?n ?loc))"
  have native: "try_native rt ly emap limit x ids weights = None" using backend by (simp add: try_native_def)
  have store: "\<not> (rd_store ly \<and> \<not> rd_unified ly)" using state_tables(3) [OF st(1)] st(2) by (auto simp: rd_unified_def)
  note start = apply_exl3_fused_moe.simps [of rt ly emap limit x ids weights, unfolded if_not_P [OF store] Let_def native k(2) st(2) option.case
    local_ids [OF less.prems(1)] bind_res_simps, simplified state_tables(2) [OF st(1)] not_True_eq_False if_False]
  note rb = routed_batch [OF less.prems(1)]
  show ?case
  proof (cases "coop_wanted rt ly st (length x) (topk_of ids) \<and> mx_coop ext \<noteq> None")
    case True
    then obtain run where "mx_coop ext = Some run" by auto
    from coop_value [OF k(1) this ok st(1) less.prems(1)] show ?thesis using start True \<open>mx_coop ext = Some run\<close> by simp
  next
    case coop: False
    show ?thesis
    proof (cases "\<not> rt_capturing rt \<and> ?rows < length x \<and> ?crowd")
      case True
      let ?sl = "\<lambda>s. (take ?rows (drop s x), take ?rows (drop s ids), take ?rows (drop s weights))"
      have "\<exists>label. apply_exl3_fused_moe rt ly emap limit (take ?rows (drop s x)) (take ?rows (drop s ids)) (take ?rows (drop s weights)) =
          Inr (Some label, take ?rows (drop s (batch_val rt ly emap limit x ids weights)))" for s
        unfolding batch_val_slice [symmetric]
        by (rule less.hyps) (use True less.prems(2) routing_slice [OF less.prems(1)] in \<open>auto simp: fat_safe_def min_def\<close>)
      then obtain label where slice: "\<And>s. apply_exl3_fused_moe rt ly emap limit (take ?rows (drop s x)) (take ?rows (drop s ids)) (take ?rows (drop s weights)) =
          Inr (Some (label s), take ?rows (drop s (batch_val rt ly emap limit x ids weights)))" by metis
      have bl: "length (batch_val rt ly emap limit x ids weights) = length x"
        using less.prems(1) by (simp add: batch_val_def routing_ok_def)
      have "slice_starts ?rows (length x) \<noteq> []" using True temp_rows_positive [of "rt_env rt"] by (auto simp: slice_starts_def div_greater_zero_iff)
      moreover have "map_res (\<lambda>s. Inr (f s)) ss = Inr (map f ss)" for f :: "nat \<Rightarrow> string option \<times> arow list" and ss by (induction ss) auto
      ultimately show ?thesis
        using start coop True slice_starts_concat [OF temp_rows_positive, of "rt_env rt" "batch_val rt ly emap limit x ids weights"]
        by (auto simp: slice last_map comp_def bl)
    next
      case False
      have "count_list ?loc e \<le> ?rows" if e: "e < ?n" for e
      proof (cases "length x \<le> ?rows")
        case True
        then show ?thesis using routed_once [OF less.prems(1) e] by linarith
      next
        case long: False
        then have "\<not> ?crowd" using False less.prems(3) by auto
        moreover have "take ?n (expert_count ?n ?loc) ! e \<in> set (take ?n (expert_count ?n ?loc))" using e by (intro nth_mem) simp
        ultimately show ?thesis using e by (auto simp: list_ex_iff expert_count_nth not_less)
      qed
      then have "batch_ok rt ly x (flat_token (length x) (topk_of ids)) ?loc ?ws"
        using rb by (auto simp: batch_ok_def routing_topk [OF less.prems(1)] flat_token_length) (auto simp: flat_token_def)
      from fused_batch_value [OF k(1,3) ok st(1) this less.prems(2), of limit] show ?thesis
        using start coop False rb(4) by auto
    qed
  qed
qed

end
