(* ===== verification/Moe_Dispatch.thy ===== *)
theory Moe_Dispatch
  imports Moe_Contract
begin

text \<open>
  What the dispatch of the routed experts guarantees (\<open>apply_exl3_fused_moe\<close>, \<open>apply_exl3_experts\<close> and
  \<open>_apply_native_fused_moe\<close> of \<open>src/vllm_exl3/exl3.py\<close>), and where it departs from the loop over experts.
\<close>

section \<open>A sample layer\<close>

definition sample_torch :: "(nat, nat) torch_ops" where
  "sample_torch = \<lparr>to_half = (\<lambda>r. r), to_sigmoid = (\<lambda>_. 1 / 2), to_argsort = (\<lambda>ks. sort_key ((!) ks) [0..<length ks]),
     to_had_in = (\<lambda>x s. x), to_had_out = (\<lambda>y s. y), to_reconstruct = (\<lambda>t k cb. case t of [] \<Rightarrow> [] | r # _ \<Rightarrow> r),
     to_gemm = (\<lambda>x cols. map (\<lambda>c. sum_list x * of_nat c) cols)\<rparr>"

definition sample_moe :: "nat option \<Rightarrow> nat moe_fn" where
  "sample_moe arity = \<lparr>mf_run = (\<lambda>la out. index_add out (launch_adds sample_torch la)), mf_arity = arity, mf_active = True\<rparr>"

definition sample_moe_ext :: "nat moe_ext" where
  "sample_moe_ext = \<lparr>mx_moe = Some (sample_moe (Some 37)), mx_mixedk = Some (sample_moe (Some 37)), mx_coop = None,
     mx_fat_gemm = None, mx_fat_scatter = None\<rparr>"

definition sample_env :: environ where
  "sample_env = [''VLLM_EXL3_MIXEDK_MODE'' \<mapsto> ''grouped'', ''VLLM_EXL3_MIXEDK_PACKED'' \<mapsto> ''1'']"

definition sample_rt :: "(nat, nat) moe_rt" where
  "sample_rt = \<lparr>rt_env = sample_env, rt_kernels = \<lparr>kn_native = False, kn_exllamav3 = True, kn_mixedk = True, kn_builds = True\<rparr>,
     rt_dev = ''cuda'', rt_cuda = True, rt_capturing = False, rt_ops = sample_torch, rt_ext = Some sample_moe_ext, rt_native = None,
     rt_flags = (\<lambda>_. (True, False)),
     rt_forward = (\<lambda>l h. trellis_product sample_torch (bits_of l) (True, False) (operand_of l) h)\<rparr>"

definition wide_linear :: "nat \<Rightarrow> nat linear" where
  "wide_linear k = \<lparr>ln_shape = [1, 1, 16 * k], ln_data = Some ([1, 1, 16 * k], [replicate 128 k]), ln_suh = Some [1],
     ln_svh = Some (replicate 128 2), ln_mcg = None, ln_mul1 = None\<rparr>"

definition wide_pack :: "nat \<Rightarrow> nat inner_pack" where
  "wide_pack k = \<lparr>ip_gate = Some (wide_linear k), ip_up = wide_linear k, ip_down = wide_linear k\<rparr>"

definition bare_ready :: "nat moe_ready" where
  "bare_ready = \<lparr>rd_state = None, rd_inners = [wide_pack 3, wide_pack 2], rd_flags = replicate 3 (True, False), rd_act = 0,
     rd_bits = 4, rd_hidden = 128, rd_inter = 128, rd_store = False, rd_mixed = True\<rparr>"

definition sample_ready :: "nat fused_state \<Rightarrow> nat moe_ready" where
  "sample_ready st = bare_ready\<lparr>rd_state := Some st\<rparr>"

definition sample_ids :: "int list list" where "sample_ids = [[0, 1]]"

lemma sample_state:
  "\<exists>st. build_exl3_fused_state sample_env sample_xi False False 4 True (None, False) [wide_pack 3, wide_pack 2] = Inr st"
proof -
  have "length (concat (map snd (k_groups [wide_pack 3, wide_pack 2]))) = 2"
    using mset_eq_length [OF k_groups_props(2) [of "[wide_pack 3, wide_pack 2]"]] by simp
  then show ?thesis
    using karrays_match [of "[wide_pack 3, wide_pack 2]"]
    by (simp add: build_exl3_fused_state_def k_max_launch_def packed_dispatch_def sample_xi_def wide_pack_def Let_def EXL3_MOE_ARITY_151_def
        bind_res_def sample_env_def)
qed

lemma sample_argsort: "argsort_contract sample_torch"
  unfolding argsort_contract_def sample_torch_def by simp

lemma sample_columns: "columns_contract sample_torch"
proof -
  have "(case map2 (@) t t' of [] \<Rightarrow> [] | r # _ \<Rightarrow> r) = (case t of [] \<Rightarrow> [] | r # _ \<Rightarrow> r) @ (case t' of [] \<Rightarrow> [] | r # _ \<Rightarrow> r)"
    if "length t = length t'" for t t' :: "nat list list"
    using that by (cases t; cases t') auto
  then show ?thesis unfolding columns_contract_def sample_torch_def by simp
qed

lemma sample_kernels: "kernels_ok sample_rt sample_moe_ext"
  using sample_argsort sample_columns
  by (simp add: kernels_ok_def sample_rt_def forward_contract_def sample_moe_ext_def moe_contract_def sample_moe_def)

lemma sample_handles: "0 < k \<Longrightarrow> handle_ok sample_torch flags (wide_linear k)"
  by (simp add: handle_ok_def wide_linear_def operand_of_def sample_torch_def)

lemma sample_layer: "layer_ok sample_rt (sample_ready st)"
  by (simp add: layer_ok_def sample_ready_def bare_ready_def flag_pack_def wide_pack_def gate_slot_def sample_rt_def sample_handles numeral_3_eq_3)

lemma sample_routing: "routing_ok sample_rt (sample_ready st) None 2 [[1]] sample_ids [[1 / 2, 1 / 2]]"
  by (simp add: routing_ok_def sample_ids_def sample_ready_def bare_ready_def local_id_def)

lemma sample_state_ok:
  "build_exl3_fused_state sample_env sample_xi False False 4 True (None, False) [wide_pack 3, wide_pack 2] = Inr st \<Longrightarrow>
    state_ok sample_rt sample_moe_ext (sample_moe (Some 37)) (sample_ready st) st"
  unfolding state_ok_def
  by (intro conjI exI [of _ sample_xi] exI [of _ False] exI [of _ "(None, False)"])
    (auto simp: sample_rt_def sample_ready_def bare_ready_def sample_xi_def sample_moe_def sample_moe_ext_def)

section \<open>The fused dispatch computes the loop\<close>



section \<open>The public entry\<close>



section \<open>The native kernel\<close>


definition native_ready :: "nat fused_state \<Rightarrow> nat moe_ready" where
  "native_ready st = \<lparr>rd_state = Some st, rd_inners = [wide_pack 4], rd_flags = replicate 3 (True, False), rd_act = 0,
     rd_bits = 4, rd_hidden = 4096, rd_inter = 2048, rd_store = False, rd_mixed = False\<rparr>"

definition native_rt :: "(nat, nat) moe_rt" where
  "native_rt = sample_rt\<lparr>rt_env := (\<lambda>_. None), rt_native := Some (2, \<lambda>nc. nc_weights nc)\<rparr>"


section \<open>Where the paths differ\<close>


definition oai_ready :: "nat moe_ready" where
  "oai_ready = bare_ready\<lparr>rd_act := 3\<rparr>"


text \<open>C38: a non-gated layer of mixed widths loads and then fails on every call.  Its launch state never builds, so
the layer is finished without one, and the call falls to the reference of the opt-in storage, which the layer does
not have: an attribute error, also where the documentation promises the loop over handles.\<close>

theorem gateless_mixed_layer_unusable:
  assumes "rd_inners ly \<noteq> []" "\<forall>pack \<in> set (rd_inners ly). ip_gate pack = None" "rd_mixed ly" "\<not> rd_store ly" "\<not> rt_capturing rt"
    and "xi_concurrency xi \<noteq> None"
    and "rd_state ly = finish_state (rt_env rt) (rt_kernels rt) True (build_physical k_attr (rt_env rt) xi False gl bits True fin (rd_inners ly))"
  shows "apply_exl3_experts rt ly mixed_ok fused emap limit x ids weights =
    Inl (if fused = Some True then RuntimeError else AttributeError)"
proof -
  have "build_physical k_attr (rt_env rt) xi False gl bits True fin (rd_inners ly) = Inl AttributeError"
    using gateless_mixed_never_fuses [OF assms(1,2,6)] by blast
  then have "rd_state ly = None" using assms(7) by (simp add: finish_state_def)
  then show ?thesis using assms(3-5) by (simp add: apply_exl3_experts_def apply_mixed_reference_def rd_unified_def)
qed

lemma gateless_mixed_layer_unusable_witness:
  "apply_exl3_experts sample_rt (bare_ready\<lparr>rd_inners := [(wide_pack 4)\<lparr>ip_gate := None, ip_down := wide_linear 5\<rparr>]\<rparr>)
    True None None None [[1]] sample_ids [[1 / 2, 1 / 2]] = Inl AttributeError"
proof -
  let ?inners = "[(wide_pack 4)\<lparr>ip_gate := None, ip_down := wide_linear 5\<rparr>]"
  let ?ly = "bare_ready\<lparr>rd_inners := ?inners\<rparr>"
  have x: "xi_concurrency sample_xi \<noteq> None" by (simp add: sample_xi_def)
  have "build_physical (\<lambda>_. None) sample_env sample_xi False True 4 True (None, False) ?inners = Inl AttributeError"
    by (rule gateless_mixed_never_fuses [THEN conjunct2]) (simp_all add: x)
  then have "rd_state ?ly = finish_state (rt_env sample_rt) (rt_kernels sample_rt) True
      (build_physical (\<lambda>_. None) (rt_env sample_rt) sample_xi False True 4 True (None, False) (rd_inners ?ly))"
    by (simp add: finish_state_def sample_rt_def bare_ready_def)
  from gateless_mixed_layer_unusable [OF _ _ _ _ _ x this, of True None None None "[[1]]" sample_ids "[[1 / 2, 1 / 2]]"]
  show ?thesis by (simp add: sample_ready_def bare_ready_def sample_rt_def)
qed

text \<open>The physical width of a uniform layer never reaches the launch.  The wrapper of the builder finds the one
width all tensors have and stores it, but the launches read the tuple of the configured width.\<close>

theorem physical_width_not_launched:
  assumes "build_physical k_attr env xi has_store gl bits False fin inners = Inr st" "xi_concurrency xi \<noteq> None"
  shows "\<exists>k. physical_k_values k_attr inners = Inr [k] \<and> fs_k st = Some k \<and> launch_widths st = (bits, bits, bits)"
proof -
  obtain ks where ks: "physical_k_values k_attr inners = Inr ks" "length ks = 1"
    using assms(1) by (auto simp: build_physical_def Let_def res_simps split: if_splits)
  obtain st' where st': "build_exl3_fused_state env xi has_store gl bits False fin inners = Inr st'" "st = st'\<lparr>fs_k := Some (hd ks)\<rparr>"
    using assms(1) ks by (auto simp: build_physical_def Let_def res_simps split: if_splits)
  have "ks = [hd ks]" using ks(2) by (cases ks) auto
  moreover have "launch_widths st = (bits, bits, bits)"
    using build_uniform(5) [OF st'(1) assms(2)] by (simp add: launch_widths_def st'(2))
  ultimately show ?thesis using ks(1) st'(2) by auto
qed

lemma physical_width_not_launched_witness:
  "\<exists>st. build_physical (\<lambda>_. None) (\<lambda>_. None) sample_xi False False 4 False (None, False) [sample_pack 3] = Inr st \<and>
    fs_k st = Some 3 \<and> launch_widths st = (4, 4, 4)"
proof -
  obtain st where st: "build_physical (\<lambda>_. None) (\<lambda>_. None) sample_xi False False 4 False (None, False) [sample_pack 3] = Inr st"
    by (auto simp: build_physical_def physical_k_values_def build_exl3_fused_state_def sample_xi_def sample_pack_def sample_linear_def Let_def)
  have "xi_concurrency sample_xi \<noteq> None" by (simp add: sample_xi_def)
  from physical_width_not_launched [OF st this] st show ?thesis
    by (auto simp: physical_k_values_def sample_pack_def sample_linear_def)
qed

end
