(* ===== verification/Dense_Load.thy ===== *)
theory Dense_Load
  imports Exl3_Config Moe_Finish
begin

text \<open>
  The dense (non-routed) linear layers of one rank (\<open>Exl3LinearMethod\<close> in \<open>src/vllm_exl3/exl3.py\<close>), up to the
  last checkpoint tensor: \<open>create_weights\<close> allocates one layer of one or more output shards, and the two weight
  loaders store what the checkpoint delivers.  Shards may differ in width, so every shard has a trellis of its own;
  the input scales are per shard, the output scales of all shards lie end to end, and the shards that stay bfloat16
  share one staging matrix.  The two indexer shards of MiniMax-M3 are set aside as they come.  Fresh memory has
  contents, an argument of the model; shard numbers are not negative.
\<close>

section \<open>What is delivered\<close>

datatype shard_id = NoShard | ShardName string | ShardIdx nat | ShardSpan "nat list"

text \<open>
  A checkpoint tensor with the parameter it is delivered to: a trellis (rows and columns of tiles, words of a tile),
  the two scale vectors, the two markers, or a plain weight (its columns and rows).
\<close>

datatype ('a, 'w) ctensor =
    CTrellis nat nat nat "'a list list"
  | CSuh "'a list"
  | CSvh "'a list"
  | CMcg "int list"
  | CMul1 "int list"
  | CWeight nat "'w list list"

definition per_input :: "('a, 'w) ctensor \<Rightarrow> bool" where
  "per_input t = (case t of CSuh _ \<Rightarrow> True | CMcg _ \<Rightarrow> True | CMul1 _ \<Rightarrow> True | _ \<Rightarrow> False)"

text \<open>The outputs a tensor covers.\<close>

definition loaded_out :: "('a, 'w) ctensor \<Rightarrow> nat" where
  "loaded_out t =
     (case t of
        CTrellis rows cols k tiles \<Rightarrow> cols * 16 | CSuh xs \<Rightarrow> length xs | CSvh xs \<Rightarrow> length xs
      | CMcg xs \<Rightarrow> length xs | CMul1 xs \<Rightarrow> length xs | CWeight cols rows \<Rightarrow> length rows)"

definition part :: "nat \<Rightarrow> nat \<Rightarrow> 'b list \<Rightarrow> 'b list" where
  "part start len xs = take len (drop start xs)"

definition ct_piece :: "nat \<Rightarrow> nat \<Rightarrow> ('a, 'w) ctensor \<Rightarrow> ('a, 'w) ctensor" where
  "ct_piece start len t =
     (case t of
        CTrellis rows cols k tiles \<Rightarrow>
          (let a = start div 16; b = (start + len) div 16 in
           CTrellis rows (min b cols - min a cols) k (map (part a (b - a)) tiles))
      | CSvh xs \<Rightarrow> CSvh (part start len xs)
      | CWeight cols rows \<Rightarrow> CWeight cols (part start len rows)
      | t \<Rightarrow> t)"

section \<open>State\<close>

record ('a, 'v) dense_ctx =
  dc_env :: environ
  dc_cfg :: exl3_config
  dc_prefix :: string
  dc_class :: string
  dc_row :: bool
  dc_qkv :: bool
  dc_process :: "int \<times> int"
  dc_owner :: owner
  dc_param :: owner
  dc_memory :: "nat \<Rightarrow> 'a"
  dc_wmemory :: "nat \<Rightarrow> 'v"

text \<open>A stashed scale block: whether its type is \<open>uint8\<close>, its columns, its rows.\<close>

type_synonym scale_block = "bool \<times> nat \<times> int list list"

record ('a, 'w, 'v) dense_layer =
  dl_sizes :: "nat list"
  dl_in :: nat
  dl_true_in :: nat
  dl_true_out :: "nat list"
  dl_padded :: bool
  dl_bf16 :: "nat list"
  dl_trellis :: "'a list list tensor list"
  dl_suh :: "'a list list"
  dl_svh :: "'a list"
  dl_mcg :: "int list"
  dl_mul1 :: "int list"
  dl_weight :: "'v list list"
  dl_indexer :: "nat list"
  dl_payloads :: "(nat \<times> 'w list list) option list"
  dl_scales :: "scale_block option list"

definition dense_geometry :: "('a, 'v) dense_ctx \<Rightarrow> owner option list \<Rightarrow> (nat \<times> nat) res" where
  "dense_geometry cx owners = map_ok (\<lambda>(r, n). (nat r, nat n)) (resolve_tp_geometry (dc_process cx) owners)"

section \<open>Creating the layer\<close>

definition MINIMAX_INDEXER_SHARDS :: "string list" where
  "MINIMAX_INDEXER_SHARDS = [''index_q'', ''index_k'']"

definition indexer_shards_of :: "string \<Rightarrow> nat \<Rightarrow> nat list" where
  "indexer_shards_of cls n =
     (if n \<noteq> length MINIMAX_INDEXER_SHARDS + 3 \<or> cls \<noteq> ''MinimaxM3QKVParallelLinearWithIndexer'' then []
      else [n - length MINIMAX_INDEXER_SHARDS, n - 1])"

definition indexer_mxfp8_enabled :: "environ \<Rightarrow> bool" where
  "indexer_mxfp8_enabled env \<longleftrightarrow>
     (case env ''VLLM_EXL3_INDEXER_MXFP8'' of None \<Rightarrow> False | Some s \<Rightarrow> strip s \<in> {''1'', ''true'', ''yes''})"

definition when_res :: "bool \<Rightarrow> unit res \<Rightarrow> unit res" where
  "when_res b r = (if b then r else Inr ())"

definition one_rank :: "('a, 'v) dense_ctx \<Rightarrow> exn \<Rightarrow> unit res" where
  "one_rank cx e = bind_res (dense_geometry cx [Some (dc_owner cx)]) (\<lambda>g. when_res (1 < snd g) (Inl e))"

text \<open>The shards of the staging matrix.\<close>

definition staged_shards :: "('a, 'v) dense_ctx \<Rightarrow> nat \<Rightarrow> nat list" where
  "staged_shards cx n =
     (let bf16 = bf16_shards_for (dc_cfg cx) (dc_prefix cx); ix = indexer_shards_of (dc_class cx) n in
      if ix \<noteq> [] \<and> \<not> indexer_mxfp8_enabled (dc_env cx) then sort (remdups (bf16 @ ix)) else bf16)"

definition shard_rows :: "nat list \<Rightarrow> nat list \<Rightarrow> nat" where
  "shard_rows sizes shards = sum_list (map ((!) sizes) shards)"

definition fresh_layer :: "('a, 'v) dense_ctx \<Rightarrow> nat \<Rightarrow> nat list \<Rightarrow> ('a, 'w, 'v) dense_layer" where
  "fresh_layer cx true_in true_out =
     (let n = length true_out; ni = exl3_pad128 true_in; sizes = map exl3_pad128 true_out;
          bf16 = staged_shards cx n; ix = indexer_shards_of (dc_class cx) n in
      \<lparr>dl_sizes = sizes, dl_in = ni, dl_true_in = true_in, dl_true_out = true_out,
       dl_padded = (ni \<noteq> true_in \<or> sizes \<noteq> true_out), dl_bf16 = bf16,
       dl_trellis = replicate n ([0], []),
       dl_suh = map (\<lambda>i. map (\<lambda>j. dc_memory cx (i * ni + j)) [0..<ni]) [0..<n],
       dl_svh = map (dc_memory cx) [0..<sum_list sizes],
       dl_mcg = replicate n 0, dl_mul1 = replicate n 0,
       dl_weight = map (\<lambda>i. map (\<lambda>j. dc_wmemory cx (i * ni + j)) [0..<ni]) [0..<shard_rows sizes bf16],
       dl_indexer = ix, dl_payloads = map (\<lambda>_. None) ix, dl_scales = map (\<lambda>_. None) ix\<rparr>)"

definition linear_create_weights :: "('a, 'v) dense_ctx \<Rightarrow> nat \<Rightarrow> nat list \<Rightarrow> ('a, 'w, 'v) dense_layer res" where
  "linear_create_weights cx true_in true_out =
     (let n = length true_out; ly = fresh_layer cx true_in true_out in
      bind_res (when_res (bf16_shards_for (dc_cfg cx) (dc_prefix cx) \<noteq> []) (one_rank cx RuntimeError)) (\<lambda>_.
      bind_res (when_res (dl_indexer ly \<noteq> []) (one_rank cx RuntimeError)) (\<lambda>_.
        if dl_padded ly \<and> (dl_bf16 ly \<noteq> [] \<or> 1 < n) then Inl NotImplementedError
        else bind_res (when_res (dl_padded ly) (one_rank cx NotImplementedError)) (\<lambda>_.
          if list_ex (\<lambda>s. dl_in ly mod 16 \<noteq> 0 \<or> s mod 16 \<noteq> 0) (dl_sizes ly) then Inl ValueError
          else if list_ex (\<lambda>i. n \<le> i) (dl_bf16 ly) then Inl IndexError
          else Inr ly))))"

text \<open>The loader put in front of the layer's own for a padded layer: a padded bias is trimmed.\<close>

definition bias_trim :: "nat \<Rightarrow> 'b list \<Rightarrow> 'b list" where
  "bias_trim param_len loaded = (if param_len < length loaded then take param_len loaded else loaded)"

section \<open>Loading one shard\<close>

text \<open>The rank and size of the split of one tensor: the heads of a QKV layer may be on several ranks.\<close>

definition shard_geometry :: "('a, 'v) dense_ctx \<Rightarrow> nat \<times> nat \<Rightarrow> nat \<Rightarrow> nat \<Rightarrow> (nat \<times> nat) res" where
  "shard_geometry cx g covered expected =
     (if dc_qkv cx \<and> \<not> dc_row cx then
        if expected = 0 then Inl ZeroDivisionError
        else let n = max 1 (covered div expected) in Inr (fst g div max 1 (snd g div n), n)
      else Inr g)"

definition put_at :: "nat \<Rightarrow> 'b list \<Rightarrow> 'b list \<Rightarrow> 'b list" where
  "put_at start ys xs = take start xs @ ys @ drop (start + length ys) xs"

definition slot_of :: "nat list \<Rightarrow> nat \<Rightarrow> nat" where
  "slot_of xs i = length (takeWhile (\<lambda>j. j \<noteq> i) xs)"

text \<open>\<open>narrow\<close> refuses a range that ends behind the dimension; only a rank outside the split asks for one.\<close>

definition outside :: "nat \<times> nat \<Rightarrow> nat \<Rightarrow> bool" where
  "outside g extent \<longleftrightarrow> 1 < snd g \<and> snd g \<le> fst g \<and> 0 < extent"

definition narrow_matrix :: "environ \<Rightarrow> bool \<Rightarrow> nat \<times> nat \<Rightarrow> nat \<Rightarrow> 'b list list \<Rightarrow> (nat \<times> 'b list list) res" where
  "narrow_matrix env dim1 g cols rows =
     (let extent = (if dim1 then cols else length rows) in
      bind_res (narrow_range env extent (fst g) (snd g) 1 False) (\<lambda>rng.
        if outside g extent then Inl RuntimeError
        else Inr (if dim1 then (range_len rng cols, map (narrow rng) rows) else (cols, narrow rng rows))))"

definition load_weight ::
  "('a, 'v) dense_ctx \<Rightarrow> ('w \<Rightarrow> 'v) \<Rightarrow> nat \<times> nat \<Rightarrow> ('a, 'w, 'v) dense_layer \<Rightarrow> nat \<Rightarrow> nat \<Rightarrow> 'w list list
    \<Rightarrow> ('a, 'w, 'v) dense_layer res"
where
  "load_weight cx conv g ly i cols rows =
     (let expected_out = dl_sizes ly ! i; expected_in = dl_in ly in
      bind_res (shard_geometry cx g (length rows) expected_out) (\<lambda>g'.
      bind_res (if (length rows, cols) = (expected_out, expected_in) then Inr (cols, rows)
                else narrow_matrix (dc_env cx) (dc_row cx) g' cols rows) (\<lambda>(cols', rows').
        if (length rows', cols') \<noteq> (expected_out, expected_in) then Inl RuntimeError
        else if i \<in> set (dl_bf16 ly) then
          let start = shard_rows (dl_sizes ly) (take (slot_of (dl_bf16 ly) i) (dl_bf16 ly)) in
          Inr (ly\<lparr>dl_weight := put_at start (map (map conv) rows') (dl_weight ly)\<rparr>)
        else Inr ly)))"

definition marker_value :: "int list \<Rightarrow> int res" where
  "marker_value xs = (case xs of [] \<Rightarrow> Inr 0 | [x] \<Rightarrow> Inr x | _ \<Rightarrow> Inl RuntimeError)"

definition cut_extent :: "bool \<Rightarrow> 'a exl3_tensor \<Rightarrow> suffix \<Rightarrow> nat" where
  "cut_extent row t s =
     (case t of
        Trellis rows cols tiles \<Rightarrow> if row then rows else cols
      | Vector xs \<Rightarrow> if row \<longleftrightarrow> s = Suh then length xs else 0)"

definition tp_sharded :: "('a, 'v) dense_ctx \<Rightarrow> nat \<times> nat \<Rightarrow> 'a exl3_tensor \<Rightarrow> suffix \<Rightarrow> 'a exl3_tensor res" where
  "tp_sharded cx g t s =
     bind_res (if dc_row cx then shard_exl3_row (dc_env cx) t s (fst g) (snd g) False
               else shard_exl3_col (dc_env cx) t s (fst g) (snd g) False) (\<lambda>t'.
       if outside g (cut_extent (dc_row cx) t s) then Inl RuntimeError else Inr t')"

text \<open>The first trellis of a shard is adopted with the shape it has; a second one must have that shape.\<close>

definition store_slot :: "'a list list tensor \<Rightarrow> 'a list list tensor \<Rightarrow> 'a list list tensor res" where
  "store_slot dest new = (if numel dest = 0 \<or> fst dest = fst new then Inr new else Inl RuntimeError)"

definition load_shard ::
  "('a, 'v) dense_ctx \<Rightarrow> ('w \<Rightarrow> 'v) \<Rightarrow> nat \<times> nat \<Rightarrow> ('a, 'w, 'v) dense_layer \<Rightarrow> nat \<Rightarrow> ('a, 'w) ctensor
    \<Rightarrow> ('a, 'w, 'v) dense_layer res"
where
  "load_shard cx conv g ly i t =
     (if length (dl_sizes ly) \<le> i then Inl ValueError
      else if i \<in> set (dl_indexer ly) then
        (case t of
           CWeight cols rows \<Rightarrow>
             let slot = slot_of (dl_indexer ly) i in
             if dl_payloads ly ! slot \<noteq> None then Inl RuntimeError
             else Inr (ly\<lparr>dl_payloads := (dl_payloads ly)[slot := Some (cols, rows)]\<rparr>)
         | _ \<Rightarrow> Inl ValueError)
      else case t of
        CWeight cols rows \<Rightarrow> load_weight cx conv g ly i cols rows
      | CMcg xs \<Rightarrow> map_ok (\<lambda>v. ly\<lparr>dl_mcg := (dl_mcg ly)[i := v]\<rparr>) (marker_value xs)
      | CMul1 xs \<Rightarrow> map_ok (\<lambda>v. ly\<lparr>dl_mul1 := (dl_mul1 ly)[i := v]\<rparr>) (marker_value xs)
      | CTrellis rows cols k tiles \<Rightarrow>
          bind_res (shard_geometry cx g (cols * 16) (dl_sizes ly ! i)) (\<lambda>g'.
          bind_res (tp_sharded cx g' (Trellis rows cols tiles) Trellis_s) (\<lambda>t'.
            (case t' of
               Trellis rows' cols' tiles' \<Rightarrow>
                 map_ok (\<lambda>d. ly\<lparr>dl_trellis := (dl_trellis ly)[i := d]\<rparr>)
                   (store_slot (dl_trellis ly ! i) ([rows', cols', k], tiles'))
             | Vector _ \<Rightarrow> Inl RuntimeError)))
      | CSuh xs \<Rightarrow>
          bind_res (shard_geometry cx g (length xs) (dl_sizes ly ! i)) (\<lambda>g'.
          bind_res (tp_sharded cx g' (Vector xs) Suh) (\<lambda>t'.
            (case t' of
               Vector ys \<Rightarrow> if length ys \<noteq> dl_in ly then Inl RuntimeError else Inr (ly\<lparr>dl_suh := (dl_suh ly)[i := ys]\<rparr>)
             | Trellis _ _ _ \<Rightarrow> Inl RuntimeError)))
      | CSvh xs \<Rightarrow>
          bind_res (shard_geometry cx g (length xs) (dl_sizes ly ! i)) (\<lambda>g'.
          bind_res (tp_sharded cx g' (Vector xs) Svh) (\<lambda>t'.
            (case t' of
               Vector ys \<Rightarrow>
                 if length ys \<noteq> dl_sizes ly ! i then Inl RuntimeError
                 else Inr (ly\<lparr>dl_svh := put_at (offset_of (dl_sizes ly) i) ys (dl_svh ly)\<rparr>)
             | Trellis _ _ _ \<Rightarrow> Inl RuntimeError))))"

section \<open>The weight loader\<close>

definition shard_index :: "nat \<Rightarrow> shard_id \<Rightarrow> nat res" where
  "shard_index n sid =
     (case sid of
        ShardName s \<Rightarrow>
          (case map_of ([(''q'', 0), (''k'', 1), (''v'', 2)] @
                 (if n = length MINIMAX_INDEXER_SHARDS + 3 then zip MINIMAX_INDEXER_SHARDS [3, 4] else [])) s of
             None \<Rightarrow> Inl ValueError | Some i \<Rightarrow> Inr i)
      | ShardIdx i \<Rightarrow> Inr i
      | _ \<Rightarrow> Inr 0)"

text \<open>The consecutive shards a tensor is split over.\<close>

definition span_ids :: "nat list \<Rightarrow> shard_id \<Rightarrow> ('a, 'w) ctensor \<Rightarrow> nat list option" where
  "span_ids sizes sid t =
     (let n = length sizes in
      case sid of
        ShardSpan ids \<Rightarrow> Some ids
      | NoShard \<Rightarrow>
          if n \<le> 1 then None
          else if per_input t \<or> (loaded_out t = sum_list sizes \<and> loaded_out t \<noteq> sizes ! 0) then Some [0..<n]
          else None
      | _ \<Rightarrow> None)"

fun load_pieces ::
  "('a, 'v) dense_ctx \<Rightarrow> ('w \<Rightarrow> 'v) \<Rightarrow> nat \<times> nat \<Rightarrow> ('a, 'w, 'v) dense_layer \<Rightarrow> nat \<Rightarrow> nat list \<Rightarrow> ('a, 'w) ctensor
    \<Rightarrow> ('a, 'w, 'v) dense_layer res"
where
  "load_pieces cx conv g ly start [] t = Inr ly"
| "load_pieces cx conv g ly start (i # ids) t =
     (let len = dl_sizes ly ! i in
      bind_res (load_shard cx conv g ly i (ct_piece start len t)) (\<lambda>ly'.
        load_pieces cx conv g ly' (start + len) ids t))"

definition load_span ::
  "('a, 'v) dense_ctx \<Rightarrow> ('w \<Rightarrow> 'v) \<Rightarrow> nat \<times> nat \<Rightarrow> ('a, 'w, 'v) dense_layer \<Rightarrow> nat list \<Rightarrow> ('a, 'w) ctensor
    \<Rightarrow> ('a, 'w, 'v) dense_layer res"
where
  "load_span cx conv g ly ids t =
     (if ids = [] \<or> ids \<noteq> [hd ids..<hd ids + length ids] \<or> length (dl_sizes ly) \<le> last ids then Inl ValueError
      else if per_input t then fold_res (\<lambda>ly i. load_shard cx conv g ly i t) ly ids
      else if loaded_out t \<noteq> shard_rows (dl_sizes ly) ids then Inl RuntimeError
      else load_pieces cx conv g ly 0 ids t)"

definition linear_weight_loader ::
  "('a, 'v) dense_ctx \<Rightarrow> ('w \<Rightarrow> 'v) \<Rightarrow> ('a, 'w, 'v) dense_layer \<Rightarrow> shard_id \<Rightarrow> ('a, 'w) ctensor
    \<Rightarrow> ('a, 'w, 'v) dense_layer res"
where
  "linear_weight_loader cx conv ly sid t =
     bind_res (dense_geometry cx [Some (dc_owner cx), Some (dc_param cx)]) (\<lambda>g.
       case span_ids (dl_sizes ly) sid t of
         Some ids \<Rightarrow> load_span cx conv g ly ids t
       | None \<Rightarrow> bind_res (shard_index (length (dl_sizes ly)) sid) (\<lambda>i. load_shard cx conv g ly i t))"

text \<open>The scale blocks of the indexer shards.\<close>

definition indexer_scale_loader :: "('a, 'w, 'v) dense_layer \<Rightarrow> shard_id \<Rightarrow> scale_block \<Rightarrow> ('a, 'w, 'v) dense_layer res" where
  "indexer_scale_loader ly sid block =
     (case (case sid of
              ShardName s \<Rightarrow> map_of (zip MINIMAX_INDEXER_SHARDS [3, 4]) s | ShardIdx i \<Rightarrow> Some i | _ \<Rightarrow> None) of
        None \<Rightarrow> Inl ValueError
      | Some i \<Rightarrow>
          if i \<notin> set (dl_indexer ly) then Inl ValueError
          else let slot = slot_of (dl_indexer ly) i in
            if dl_scales ly ! slot \<noteq> None then Inl RuntimeError
            else Inr (ly\<lparr>dl_scales := (dl_scales ly)[slot := Some block]\<rparr>))"

end
