(* ===== verification/Dense_Finish.thy ===== *)
theory Dense_Finish
  imports Dense_Load Moe_Experts Q4kv_Codec
begin

text \<open>
  Dense linear layers after loading (\<open>Exl3LinearMethod\<close> in \<open>src/vllm_exl3/exl3.py\<close>): the linear handles, one per
  shard or one per run of shards that agree, the indexer shards of MiniMax-M3 dequantized or kept in MXFP8, the
  forward pass over the shards, and the process-wide registry the opaque operator looks layers up in.
\<close>

unbundle bit_operations_syntax

section \<open>MXFP8 indexer weights\<close>

definition MINIMAX_MXFP8_BLOCK :: nat where "MINIMAX_MXFP8_BLOCK = 32"

definition e4m3_bits_to_float :: "nat \<Rightarrow> pyfloat" where
  "e4m3_bits_to_float byte =
     (let bits = byte AND 0xFF; ex = drop_bit 3 bits AND 0xF; man = bits AND 7;
          v = (if ex = 0 then of_nat man * (1 / 2 ^ 9) else (of_nat man + 8) * (2 ^ ex / 2 ^ 10)) in
      if bits AND 0x7F = 0x7F then NaN else Fin (if bits AND 0x80 \<noteq> 0 then - v else v))"

text \<open>
  The product with the scale in single precision: the last exponent is an infinity, and a product that reaches
  \<open>2 ^ 128\<close> overflows; every other product has at most four significant bits and is exact.
\<close>

definition times_descale :: "pyfloat \<Rightarrow> int \<Rightarrow> pyfloat" where
  "times_descale p byte0 =
     (let byte = nat (byte0 mod 256) in
      case p of
        Fin v \<Rightarrow>
          let w = v * 2 ^ byte / 2 ^ 127 in
          if byte = 255 \<and> v = 0 then NaN
          else if 2 ^ 128 \<le> w \<or> (byte = 255 \<and> 0 < v) then PosInf
          else if w \<le> - (2 ^ 128) \<or> (byte = 255 \<and> v < 0) then NegInf
          else Fin w
      | _ \<Rightarrow> NaN)"

definition dequant_minimax_indexer ::
  "(pyfloat \<Rightarrow> 'v) \<Rightarrow> nat \<times> nat list list \<Rightarrow> scale_block \<Rightarrow> (nat \<times> 'v list list) res"
where
  "dequant_minimax_indexer to_bf16 packed scales =
     (let (in_cols, rows) = packed; (u8, sc_cols, sc_rows) = scales in
      if in_cols mod MINIMAX_MXFP8_BLOCK \<noteq> 0 then Inl ValueError
      else if (length sc_rows, sc_cols) \<noteq> (length rows, in_cols div MINIMAX_MXFP8_BLOCK) then Inl ValueError
      else Inr (in_cols, map2 (\<lambda>row sc. map (\<lambda>j. to_bf16 (times_descale (e4m3_bits_to_float (row ! j)) (sc ! (j div MINIMAX_MXFP8_BLOCK)))) [0..<in_cols]) rows sc_rows))"

text \<open>Keeping a shard in MXFP8: the checks, and the payload read as bytes.\<close>

definition indexer_mxfp8_retain :: "nat \<times> nat list list \<Rightarrow> scale_block \<Rightarrow> nat \<Rightarrow> ((nat \<times> nat list list) \<times> scale_block) res" where
  "indexer_mxfp8_retain payload scales in_width =
     (let (in_cols, rows) = payload; (u8, sc_cols, sc_rows) = scales in
      if in_width mod MINIMAX_MXFP8_BLOCK \<noteq> 0 then Inl ValueError
      else if (length sc_rows, sc_cols) \<noteq> (length rows, in_width div MINIMAX_MXFP8_BLOCK) then Inl ValueError
      else if \<not> u8 then Inl ValueError
      else Inr (payload, scales))"

text \<open>vLLM's kernel: whether it can be imported, runs on the platform, and takes a shape.\<close>

record 'k marlin =
  ma_importable :: bool
  ma_supported :: bool
  ma_can :: "nat \<times> nat \<Rightarrow> bool"
  ma_build :: "nat \<times> nat list list \<Rightarrow> scale_block \<Rightarrow> 'k"

definition indexer_mxfp8_kernel :: "'k marlin \<Rightarrow> nat \<times> nat \<Rightarrow> (nat \<times> nat list list \<Rightarrow> scale_block \<Rightarrow> 'k) res" where
  "indexer_mxfp8_kernel ma weight_shape =
     (if \<not> ma_importable ma \<or> \<not> ma_supported ma \<or> \<not> ma_can ma weight_shape then Inl RuntimeError
      else Inr (ma_build ma))"

text \<open>Devices are names; the parameters are \<open>weight\<close>, \<open>trellis\<close>, \<open>suh\<close> and \<open>svh\<close>, where present.\<close>

definition is_cuda :: "string \<Rightarrow> bool" where
  "is_cuda d \<longleftrightarrow> takeWhile (\<lambda>c. c \<noteq> CHR '':'') d = ''cuda''"

definition indexer_mxfp8_target_device :: "string option list \<Rightarrow> string res" where
  "indexer_mxfp8_target_device devs =
     (case remdups (List.map_filter id devs) of
        [d] \<Rightarrow> if is_cuda d then Inr d else Inl RuntimeError
      | _ \<Rightarrow> Inl RuntimeError)"

text \<open>\<open>lands\<close> is the device \<open>to\<close> brings a tensor to; the result is where payload and scales are.\<close>

definition indexer_mxfp8_move_to_device :: "(string \<Rightarrow> string \<Rightarrow> string) \<Rightarrow> string \<times> string \<Rightarrow> string \<Rightarrow> (string \<times> string) res" where
  "indexer_mxfp8_move_to_device lands src dev =
     (if fst src = dev \<and> snd src = dev then Inr src
      else if fst src \<noteq> snd src then Inl RuntimeError
      else let moved = (lands (fst src) dev, lands (snd src) dev) in
        if fst moved \<noteq> dev \<or> snd moved \<noteq> dev then Inl RuntimeError else Inr moved)"

section \<open>After loading\<close>

text \<open>What the surroundings answer at the end of loading.\<close>

record ('w, 'v, 'k) finish_ext =
  fx_bytes :: "'w \<Rightarrow> nat list"
  fx_bf16 :: "pyfloat \<Rightarrow> 'v"
  fx_devices :: "string option list"
  fx_stashed :: "nat \<Rightarrow> string \<times> string"
  fx_lands :: "string \<Rightarrow> string \<Rightarrow> string"
  fx_marlin :: "'k marlin"

record ('a, 'v, 'k) dense_ready =
  dr_linears :: "'a linear option list"
  dr_sizes :: "nat list"
  dr_in :: nat
  dr_true_out :: "nat list"
  dr_padded :: bool
  dr_bf16 :: "nat list"
  dr_bf16_weight :: "'v list list option"
  dr_indexer :: "nat list"
  dr_mxfp8 :: "'k list option"

definition check_shard_marker :: "int \<Rightarrow> int \<Rightarrow> unit res" where
  "check_shard_marker mcg mul1 =
     (if mcg \<noteq> 0 \<and> mul1 \<noteq> 0 then Inl RuntimeError
      else if mcg = 0 \<and> mul1 = 0 then Inl RuntimeError
      else if mcg \<noteq> 0 \<and> mcg \<noteq> MCG_MARKER_SIGNED_INT32 then Inl RuntimeError
      else if mul1 \<noteq> 0 \<and> mul1 \<noteq> MUL1_MARKER_SIGNED_INT32 then Inl RuntimeError
      else Inr ())"

text \<open>The tensors of the shards from \<open>i\<close> up to \<open>j\<close>, joined along the outputs.\<close>

definition joined_slots :: "('a, 'w, 'v) dense_layer \<Rightarrow> nat \<Rightarrow> nat \<Rightarrow> 'a list list tensor res" where
  "joined_slots ly i j =
     (let slots = part i (j - i) (dl_trellis ly) in
      if list_ex (\<lambda>t. hd (fst t) \<noteq> hd (fst (hd slots))) slots then Inl RuntimeError
      else Inr ((fst (hd slots))[1 := sum_list (map (\<lambda>t. fst t ! 1) slots)],
                map (\<lambda>r. concat (map (\<lambda>t. snd t ! r) slots)) [0..<hd (fst (hd slots))]))"

definition shard_svh :: "('a, 'w, 'v) dense_layer \<Rightarrow> nat \<Rightarrow> nat \<Rightarrow> 'a list" where
  "shard_svh ly i j = part (offset_of (dl_sizes ly) i) (offset_of (dl_sizes ly) j - offset_of (dl_sizes ly) i) (dl_svh ly)"

definition make_linear_exl3 :: "'a list list tensor \<Rightarrow> 'a list \<Rightarrow> 'a list \<Rightarrow> int \<Rightarrow> int \<Rightarrow> 'a linear" where
  "make_linear_exl3 t suh svh mcg mul1 =
     \<lparr>ln_shape = fst t, ln_data = Some t, ln_suh = Some suh, ln_svh = Some svh,
      ln_mcg = marker_or_none mcg, ln_mul1 = marker_or_none mul1\<rparr>"

definition shard_linear :: "('a, 'w, 'v) dense_layer \<Rightarrow> nat \<Rightarrow> 'a linear res" where
  "shard_linear ly i =
     (if numel (dl_trellis ly ! i) = 0 then Inl RuntimeError
      else Inr (make_linear_exl3 (dl_trellis ly ! i) (dl_suh ly ! i) (shard_svh ly i (Suc i)) (dl_mcg ly ! i) (dl_mul1 ly ! i)))"

text \<open>Shards that may share a handle: width, markers and input scales agree.\<close>

definition same_kind :: "('a, 'w, 'v) dense_layer \<Rightarrow> nat \<Rightarrow> nat \<Rightarrow> bool" where
  "same_kind ly i j \<longleftrightarrow>
     last (fst (dl_trellis ly ! j)) = last (fst (dl_trellis ly ! i)) \<and> dl_mcg ly ! j = dl_mcg ly ! i \<and>
     dl_mul1 ly ! j = dl_mul1 ly ! i \<and> dl_suh ly ! i = dl_suh ly ! j"

function run_end :: "('a, 'w, 'v) dense_layer \<Rightarrow> nat \<Rightarrow> nat \<Rightarrow> nat res" where
  "run_end ly i j =
     (if length (dl_sizes ly) \<le> j then Inr j
      else if numel (dl_trellis ly ! j) = 0 then Inl RuntimeError
      else if same_kind ly i j then run_end ly i (Suc j)
      else Inr j)"
  by pat_completeness auto

termination by (relation "measure (\<lambda>(ly, i, j). length (dl_sizes ly) - j)") auto

declare run_end.simps [simp del]

lemma run_end_ge: "run_end ly i j = Inr k \<Longrightarrow> j \<le> k"
proof (induction ly i j rule: run_end.induct)
  case (1 ly i j)
  show ?case
  proof (cases "length (dl_sizes ly) \<le> j \<or> numel (dl_trellis ly ! j) = 0 \<or> \<not> same_kind ly i j")
    case True
    then show ?thesis using "1.prems" by (subst (asm) run_end.simps) (auto split: if_splits)
  next
    case False
    then have "run_end ly i (Suc j) = Inr k" using "1.prems" by (subst (asm) run_end.simps) auto
    then show ?thesis using "1.IH" False by fastforce
  qed
qed

definition run_linear :: "('a, 'w, 'v) dense_layer \<Rightarrow> nat \<Rightarrow> nat \<Rightarrow> 'a linear res" where
  "run_linear ly i j =
     map_ok (\<lambda>t. make_linear_exl3 t (dl_suh ly ! i) (shard_svh ly i j) (dl_mcg ly ! i) (dl_mul1 ly ! i))
       (if j = Suc i then Inr (dl_trellis ly ! i) else joined_slots ly i j)"

function coalesced_linears :: "('a, 'w, 'v) dense_layer \<Rightarrow> nat \<Rightarrow> 'a linear list res" where
  "coalesced_linears ly i =
     (if length (dl_sizes ly) \<le> i then Inr []
      else if numel (dl_trellis ly ! i) = 0 then Inl RuntimeError
      else bind_res (run_end ly i (Suc i)) (\<lambda>j.
        bind_res (run_linear ly i j) (\<lambda>l. map_ok (Cons l) (coalesced_linears ly j))))"
  by pat_completeness auto

termination
  by (relation "measure (\<lambda>(ly, i). length (dl_sizes ly) - i)") (auto dest: run_end_ge)

declare coalesced_linears.simps [simp del]

definition separate_linears :: "('a, 'w, 'v) dense_layer \<Rightarrow> (nat \<Rightarrow> bool) \<Rightarrow> 'a linear option list res" where
  "separate_linears ly other =
     map_res (\<lambda>i. if other i then Inr None else map_ok Some (shard_linear ly i)) [0..<length (dl_sizes ly)]"

text \<open>The indexer shards: \<open>bytes\<close> reads the elements of a payload as bytes.\<close>

definition stash_of :: "('a, 'w, 'v) dense_layer \<Rightarrow> nat \<Rightarrow> ((nat \<times> 'w list list) \<times> scale_block) res" where
  "stash_of ly slot =
     (case (dl_payloads ly ! slot, dl_scales ly ! slot) of
        (Some p, Some s) \<Rightarrow> Inr (p, s) | _ \<Rightarrow> Inl RuntimeError)"

definition view_bytes :: "('w \<Rightarrow> nat list) \<Rightarrow> nat \<times> 'w list list \<Rightarrow> nat \<times> nat list list" where
  "view_bytes bytes p =
     (let rows = map (\<lambda>r. concat (map bytes r)) (snd p) in
      (case rows of [] \<Rightarrow> fst p | r # _ \<Rightarrow> length r, rows))"

definition dequantize_shard ::
  "('w, 'v, 'k) finish_ext \<Rightarrow> ('a, 'w, 'v) dense_layer \<Rightarrow> nat \<times> nat \<Rightarrow> ('a, 'w, 'v) dense_layer res"
where
  "dequantize_shard fx ly slot_shard =
     (let (slot, i) = slot_shard in
      bind_res (stash_of ly slot) (\<lambda>(payload, scales).
      bind_res (dequant_minimax_indexer (fx_bf16 fx) (view_bytes (fx_bytes fx) payload) scales) (\<lambda>(cols, rows).
        let start = shard_rows (dl_sizes ly) (take (slot_of (dl_bf16 ly) i) (dl_bf16 ly)) in
        if (length rows, cols) \<noteq> (dl_sizes ly ! i, dl_in ly) then Inl RuntimeError
        else Inr (ly\<lparr>dl_weight := put_at start rows (dl_weight ly), dl_payloads := (dl_payloads ly)[slot := None],
                     dl_scales := (dl_scales ly)[slot := None]\<rparr>))))"

definition retain_shard :: "('w, 'v, 'k) finish_ext \<Rightarrow> ('a, 'w, 'v) dense_layer \<Rightarrow> string \<Rightarrow> nat \<Rightarrow> 'k res" where
  "retain_shard fx ly dev slot =
     bind_res (stash_of ly slot) (\<lambda>(payload, scales).
     bind_res (indexer_mxfp8_move_to_device (fx_lands fx) (fx_stashed fx slot) dev) (\<lambda>_.
     bind_res (indexer_mxfp8_retain (view_bytes (fx_bytes fx) payload) scales (fst payload)) (\<lambda>(p, s).
     bind_res (indexer_mxfp8_kernel (fx_marlin fx) (length (snd p), fst p)) (\<lambda>build. Inr (build p s)))))"

definition process_indexer_shards ::
  "('w, 'v, 'k) finish_ext \<Rightarrow> bool \<Rightarrow> ('a, 'w, 'v) dense_layer \<Rightarrow> (('a, 'w, 'v) dense_layer \<times> 'k list option) res"
where
  "process_indexer_shards fx mxfp8 ly =
     (if mxfp8 then
        bind_res (indexer_mxfp8_target_device (fx_devices fx)) (\<lambda>dev.
          map_ok (\<lambda>ks. (ly\<lparr>dl_payloads := map (\<lambda>_. None) (dl_payloads ly), dl_scales := map (\<lambda>_. None) (dl_scales ly)\<rparr>, Some ks))
            (map_res (retain_shard fx ly dev) [0..<length (dl_indexer ly)]))
      else map_ok (\<lambda>ly. (ly, None)) (fold_res (dequantize_shard fx) ly (enumerate 0 (dl_indexer ly))))"

definition linear_process_weights ::
  "environ \<Rightarrow> ('w, 'v, 'k) finish_ext \<Rightarrow> ('a, 'w, 'v) dense_layer \<Rightarrow> ('a, 'v, 'k) dense_ready res"
where
  "linear_process_weights env fx ly =
     (let n = length (dl_sizes ly); mxfp8 = (dl_indexer ly \<noteq> [] \<and> indexer_mxfp8_enabled env);
          other = (\<lambda>i. i \<in> set (dl_bf16 ly) \<or> (mxfp8 \<and> i \<in> set (dl_indexer ly)));
          coalesce = (1 < n \<and> dl_bf16 ly = [] \<and> \<not> dl_padded ly \<and> \<not> mxfp8 \<and> env ''VLLM_EXL3_COALESCE_SHARDS'' \<noteq> Some ''0'') in
      bind_res (fold_res (\<lambda>_ i. if other i then Inr () else check_shard_marker (dl_mcg ly ! i) (dl_mul1 ly ! i)) () [0..<n]) (\<lambda>_.
      bind_res (if coalesce then map_ok (map Some) (coalesced_linears ly 0) else separate_linears ly other) (\<lambda>linears.
      bind_res (if dl_indexer ly = [] then Inr (ly, None) else process_indexer_shards fx mxfp8 ly) (\<lambda>(ly', shims).
        Inr \<lparr>dr_linears = linears, dr_sizes = dl_sizes ly, dr_in = dl_in ly, dr_true_out = dl_true_out ly,
             dr_padded = dl_padded ly, dr_bf16 = dl_bf16 ly,
             dr_bf16_weight = (if dl_bf16 ly \<noteq> [] \<and> 0 < shard_rows (dl_sizes ly) (dl_bf16 ly) then Some (dl_weight ly') else None),
             dr_indexer = dl_indexer ly, dr_mxfp8 = shims\<rparr>))))"

section \<open>The forward pass\<close>

text \<open>
  Handles, the dense product, the kernel of a retained shard, and the conversion of the result: \<open>True\<close> asks a
  handle to decode its weight first.
\<close>

record ('a, 'v, 'k) linear_rt =
  lr_half :: "rat \<Rightarrow> rat"
  lr_forward :: "'a linear \<Rightarrow> bool \<Rightarrow> arow list \<Rightarrow> arow list"
  lr_dense :: "'v list list \<Rightarrow> arow \<Rightarrow> arow"
  lr_mxfp8 :: "'k \<Rightarrow> arow \<Rightarrow> arow"
  lr_cast :: "rat \<Rightarrow> rat"

definition EXL3_RECONSTRUCT_THRESHOLD :: int where "EXL3_RECONSTRUCT_THRESHOLD = 144"

definition env_int :: "environ \<Rightarrow> string \<Rightarrow> int \<Rightarrow> int" where
  "env_int env name dflt =
     (case env name of
        None \<Rightarrow> dflt
      | Some raw \<Rightarrow> if strip raw = [] then dflt else (case py_int10 (strip raw) of None \<Rightarrow> dflt | Some n \<Rightarrow> n))"

definition env_prefill_sync_rows :: "environ \<Rightarrow> int" where
  "env_prefill_sync_rows env =
     (case env ''VLLM_EXL3_PREFILL_SYNC'' of
        None \<Rightarrow> 0
      | Some raw \<Rightarrow> if strip raw = [] then 0 else (case py_int10 (strip raw) of None \<Rightarrow> 256 | Some n \<Rightarrow> max 0 n))"

text \<open>Whether the CPU waits for the device before a forward pass.\<close>

definition prefill_sync :: "environ \<Rightarrow> bool \<Rightarrow> nat \<Rightarrow> bool" where
  "prefill_sync env capturing rows \<longleftrightarrow>
     env_prefill_sync_rows env \<noteq> 0 \<and> 1 < rows \<and> int rows \<le> env_prefill_sync_rows env \<and> \<not> capturing"

definition exl3_recon_min_rows :: "environ \<Rightarrow> int" where
  "exl3_recon_min_rows env = env_int env ''VLLM_EXL3_RECONSTRUCT_MIN_ROWS'' 17"

definition exl3_coop_gemm :: "environ \<Rightarrow> bool" where
  "exl3_coop_gemm env \<longleftrightarrow> (case env ''VLLM_EXL3_COOP_GEMM'' of None \<Rightarrow> False | Some s \<Rightarrow> strip s \<in> {''1'', ''true'', ''yes''})"

definition dense_forward :: "environ \<Rightarrow> ('a, 'v, 'k) linear_rt \<Rightarrow> 'a linear \<Rightarrow> arow list \<Rightarrow> arow list" where
  "dense_forward env rt l xs =
     lr_forward rt l (\<not> exl3_coop_gemm env \<and> exl3_recon_min_rows env \<le> int (length xs) \<and>
       int (length xs) \<le> EXL3_RECONSTRUCT_THRESHOLD) xs"

definition shard_output ::
  "environ \<Rightarrow> ('a, 'v, 'k) linear_rt \<Rightarrow> ('a, 'v, 'k) dense_ready \<Rightarrow> arow list \<Rightarrow> arow list \<Rightarrow> nat \<Rightarrow> arow list res"
where
  "shard_output env rt ly x x16 i =
     (if dr_mxfp8 ly \<noteq> None \<and> i \<in> set (dr_indexer ly) then
        Inr (map (lr_mxfp8 rt (the (dr_mxfp8 ly) ! slot_of (dr_indexer ly) i)) x)
      else if i \<in> set (dr_bf16 ly) then
        (case dr_bf16_weight ly of
           None \<Rightarrow> Inl RuntimeError
         | Some w \<Rightarrow>
             let start = shard_rows (dr_sizes ly) (take (slot_of (dr_bf16 ly) i) (dr_bf16 ly)) in
             Inr (map (lr_dense rt (part start (dr_sizes ly ! i) w)) x))
      else (case dr_linears ly ! i of
              None \<Rightarrow> Inl RuntimeError | Some l \<Rightarrow> Inr (dense_forward env rt l x16)))"

text \<open>The rows of \<open>x\<close> are its last dimension; the other dimensions are put back on the result.\<close>

definition linear_apply_impl ::
  "environ \<Rightarrow> ('a, 'v, 'k) linear_rt \<Rightarrow> ('a, 'v, 'k) dense_ready \<Rightarrow> arow list \<Rightarrow> arow list res"
where
  "linear_apply_impl env rt ly x =
     (if dr_linears ly = [] then Inl RuntimeError
      else let x16 = map (map (lr_half rt)) x;
               x16 = (if dr_padded ly then map (\<lambda>r. r @ replicate (dr_in ly - length r) 0) x16 else x16) in
        bind_res (map_res (shard_output env rt ly x x16) [0..<length (dr_linears ly)]) (\<lambda>outs.
          let y = map (\<lambda>r. concat (map (\<lambda>rows. rows ! r) outs)) [0..<length x];
              y = (if dr_padded ly then map (take (sum_list (dr_true_out ly))) y else y) in
          Inr (map (map (lr_cast rt)) y)))"

section \<open>The registry of the opaque operators\<close>

text \<open>
  Layers and methods are registered under a name made of the kind and the first non-empty of the layer's prefix,
  its \<open>prefix\<close> and its \<open>layer_name\<close>; otherwise of its identity.
\<close>

record ('l, 'm) opaque_registry =
  or_layers :: "string \<Rightarrow> 'l option"
  or_methods :: "string \<Rightarrow> 'm option"

definition stable_name :: "string option list \<Rightarrow> string \<Rightarrow> string" where
  "stable_name names ident =
     (case filter (\<lambda>s. s \<noteq> None \<and> s \<noteq> Some []) names of Some s # _ \<Rightarrow> s | _ \<Rightarrow> ''id'' @ ident)"

definition exl3_register_opaque_layer ::
  "string \<Rightarrow> string option list \<Rightarrow> string \<Rightarrow> 'l \<Rightarrow> 'm option \<Rightarrow> ('l \<Rightarrow> 'm option) \<Rightarrow> ('l, 'm) opaque_registry
    \<Rightarrow> string \<times> ('l, 'm) opaque_registry"
where
  "exl3_register_opaque_layer kind names ident layer m own reg =
     (let name = ''exl3_'' @ kind @ '':'' @ stable_name names ident;
          chosen = (case m of None \<Rightarrow> own layer | Some q \<Rightarrow> Some q) in
      (name, \<lparr>or_layers = (or_layers reg)(name \<mapsto> layer),
              or_methods = (case chosen of None \<Rightarrow> or_methods reg | Some q \<Rightarrow> (or_methods reg)(name \<mapsto> q))\<rparr>))"

text \<open>The operator; \<open>run\<close> is the method's \<open>_apply_impl\<close>.\<close>

definition exl3_linear_forward_op ::
  "('l \<Rightarrow> 'm option) \<Rightarrow> ('m \<Rightarrow> 'l \<Rightarrow> 'x \<Rightarrow> 'y res) \<Rightarrow> ('l, 'm) opaque_registry \<Rightarrow> string \<Rightarrow> 'x \<Rightarrow> 'y res"
where
  "exl3_linear_forward_op own run reg name x =
     (case or_layers reg name of
        None \<Rightarrow> Inl KeyError
      | Some layer \<Rightarrow>
          (case (case or_methods reg name of None \<Rightarrow> own layer | Some m \<Rightarrow> Some m) of
             None \<Rightarrow> Inl AttributeError
           | Some m \<Rightarrow> run m layer x))"

definition linear_apply ::
  "bool \<Rightarrow> ('l \<Rightarrow> 'm option) \<Rightarrow> ('m \<Rightarrow> 'l \<Rightarrow> arow list \<Rightarrow> arow list res) \<Rightarrow> ('l, 'm) opaque_registry
    \<Rightarrow> string option \<Rightarrow> 'm \<Rightarrow> 'l \<Rightarrow> arow list \<Rightarrow> arow option \<Rightarrow> arow list res"
where
  "linear_apply ops_ready own run reg name self layer x bias =
     bind_res (case name of
                 Some nm \<Rightarrow> if ops_ready then exl3_linear_forward_op own run reg nm x else run self layer x
               | None \<Rightarrow> run self layer x) (\<lambda>y.
       Inr (case bias of None \<Rightarrow> y | Some b \<Rightarrow> map (\<lambda>r. add_row r b) y))"

end
