(* ===== verification/Dense_Contract.thy ===== *)
theory Dense_Contract
  imports Dense_Finish Moe_Contract
begin

text \<open>
  What the dense linear layers rely on in the trellis kernels, and the rows they compute under it: handles that lie
  side by side compute the row of the joined tensor, as long as no block of 128 outputs is cut.
\<close>

section \<open>Contracts\<close>

text \<open>The codebook of a handle comes from its markers; decoding the weight first does not change the product.\<close>

definition handle_row :: "('a, 'c) torch_ops \<Rightarrow> (int option \<Rightarrow> int option \<Rightarrow> bool \<times> bool) \<Rightarrow> 'a linear \<Rightarrow> arow \<Rightarrow> arow" where
  "handle_row ops cb l h = trellis_product ops (bits_of l) (cb (ln_mcg l) (ln_mul1 l)) (operand_of l) h"

definition linear_contract ::
  "('a, 'c) torch_ops \<Rightarrow> (int option \<Rightarrow> int option \<Rightarrow> bool \<times> bool) \<Rightarrow> ('a, 'v, 'k) linear_rt \<Rightarrow> bool"
where
  "linear_contract ops cb rt \<longleftrightarrow> (\<forall>l decode xs. lr_forward rt l decode xs = map (handle_row ops cb l) xs)"

text \<open>A tile decodes to sixteen columns.\<close>

definition decode_contract :: "('a, 'c) torch_ops \<Rightarrow> bool" where
  "decode_contract ops \<longleftrightarrow>
     columns_contract ops \<and>
     (\<forall>t k cb c. t \<noteq> [] \<and> (\<forall>row \<in> set t. length row = c) \<longrightarrow> length (to_reconstruct ops t k cb) = 16 * c)"

section \<open>Joined tensors\<close>

definition tile_join :: "nat \<Rightarrow> 'a list list list \<Rightarrow> 'a list list" where
  "tile_join rows ts = map (\<lambda>r. concat (map (\<lambda>t. t ! r) ts)) [0..<rows]"

text \<open>Tiles and output scales of one shard that fit each other and cover whole blocks of 128 outputs.\<close>

definition block_ok :: "nat \<Rightarrow> 'a list list \<times> 'a list \<Rightarrow> bool" where
  "block_ok rows b \<longleftrightarrow>
     length (fst b) = rows \<and> (\<forall>row \<in> set (fst b). 16 * length row = length (snd b)) \<and> length (snd b) mod 128 = 0"

lemma tile_join_one: "length t = rows \<Longrightarrow> tile_join rows [t] = t"
  by (auto simp: tile_join_def intro: nth_equalityI)

lemma tile_join_Cons: "length t = rows \<Longrightarrow> tile_join rows (t # ts) = map2 (@) t (tile_join rows ts)"
  by (auto simp: tile_join_def intro: nth_equalityI)

lemma tile_join_length [simp]: "length (tile_join rows ts) = rows"
  by (simp add: tile_join_def)

lemma product_parts:
  assumes c: "decode_contract ops" and b: "block_ok rows (t, s)" and rows: "0 < rows"
  shows "length (to_reconstruct ops t k cb) = length s"
proof -
  have ne: "t \<noteq> []" using b rows by (auto simp: block_ok_def)
  have "length s = 16 * length (hd t)" using b ne by (auto simp: block_ok_def)
  moreover have "\<forall>row \<in> set t. length row = length (hd t)" using b ne by (fastforce simp: block_ok_def)
  ultimately show ?thesis using c ne unfolding decode_contract_def by metis
qed

lemma product_append:
  assumes c: "decode_contract ops" and b: "block_ok rows (t, s)" and rows: "0 < rows" "length t' = rows"
  shows "trellis_product ops k cb \<lparr>op_trellis = map2 (@) t t', op_suh = u, op_svh = s @ s'\<rparr> h =
    trellis_product ops k cb \<lparr>op_trellis = t, op_suh = u, op_svh = s\<rparr> h @
    trellis_product ops k cb \<lparr>op_trellis = t', op_suh = u, op_svh = s'\<rparr> h"
proof -
  have col: "columns_contract ops" using c by (simp add: decode_contract_def)
  note cd = columns_contractD [OF col]
  have len: "length t = length t'" using b rows by (simp add: block_ok_def)
  show ?thesis
    using cd len product_parts [OF c b rows(1), of k cb] b
    by (simp add: trellis_product_def block_ok_def)
qed

lemma product_join:
  assumes c: "decode_contract ops" and rows: "0 < rows"
  shows "bs \<noteq> [] \<Longrightarrow> list_all (block_ok rows) bs \<Longrightarrow>
    trellis_product ops k cb \<lparr>op_trellis = tile_join rows (map fst bs), op_suh = u, op_svh = concat (map snd bs)\<rparr> h =
    concat (map (\<lambda>b. trellis_product ops k cb \<lparr>op_trellis = fst b, op_suh = u, op_svh = snd b\<rparr> h) bs)"
proof (induction bs rule: list_nonempty_induct)
  case (single b)
  then show ?case by (simp add: tile_join_one block_ok_def)
next
  case (cons b bs)
  have b: "block_ok rows (fst b, snd b)" using cons.prems by simp
  have "length (fst b) = rows" using b by (simp add: block_ok_def)
  then show ?case using cons product_append [OF c b rows, of "tile_join rows (map fst bs)"] by (simp add: tile_join_Cons)
qed

section \<open>The rows of a finished layer\<close>

definition handles_row :: "('a, 'c) torch_ops \<Rightarrow> (int option \<Rightarrow> int option \<Rightarrow> bool \<times> bool) \<Rightarrow> 'a linear list \<Rightarrow> arow \<Rightarrow> arow" where
  "handles_row ops cb ls h = concat (map (\<lambda>l. handle_row ops cb l h) ls)"

lemma forward_contract_dense: "linear_contract ops cb rt \<Longrightarrow> dense_forward env rt l xs = map (handle_row ops cb l) xs"
  by (simp add: linear_contract_def dense_forward_def)

lemma shard_output_handle:
  assumes "linear_contract ops cb rt" "dr_linears ly = map Some ls" "dr_bf16 ly = []" "dr_mxfp8 ly = None" "i < length ls"
  shows "shard_output env rt ly x x16 i = Inr (map (handle_row ops cb (ls ! i)) x16)"
  using assms by (simp add: shard_output_def forward_contract_dense)

lemma map_res_Inr: "(\<And>x. x \<in> set xs \<Longrightarrow> f x = Inr (g x)) \<Longrightarrow> map_res f xs = Inr (map g xs)"
  by (induction xs) auto

lemma apply_handles:
  assumes c: "linear_contract ops cb rt" and ls: "dr_linears ly = map Some ls" "ls \<noteq> []"
    and plain: "dr_bf16 ly = []" "dr_mxfp8 ly = None" "\<not> dr_padded ly"
  shows "linear_apply_impl env rt ly x = Inr (map (\<lambda>r. map (lr_cast rt) (handles_row ops cb ls (map (lr_half rt) r))) x)"
proof -
  have outs: "map_res (shard_output env rt ly x (map (map (lr_half rt)) x)) [0..<length ls] =
      Inr (map (\<lambda>i. map (handle_row ops cb (ls ! i)) (map (map (lr_half rt)) x)) [0..<length ls])"
    by (rule map_res_Inr) (simp add: shard_output_handle [OF c ls(1) plain(1,2)])
  have "concat (map (\<lambda>i. handle_row ops cb (ls ! i) h) [0..<length ls]) = handles_row ops cb ls h" for h
  proof -
    have "map (\<lambda>i. handle_row ops cb (ls ! i) h) [0..<length ls] = map (\<lambda>l. handle_row ops cb l h) ls"
      by (rule nth_equalityI) auto
    then show ?thesis by (simp add: handles_row_def)
  qed
  then show ?thesis
    using ls plain(3) unfolding linear_apply_impl_def
    by (auto simp: outs comp_def intro!: nth_equalityI)
qed

section \<open>Coalesced handles\<close>

text \<open>A layer whose loaded trellises have the tiles its sizes ask for; a shard may still be empty.\<close>

definition slot_fits :: "nat \<Rightarrow> nat \<Rightarrow> 'a list list tensor \<Rightarrow> bool" where
  "slot_fits rows len t \<longleftrightarrow>
     length (fst t) = 3 \<and> fst t ! 0 = rows \<and> 16 * fst t ! 1 = len \<and> length (snd t) = rows \<and>
     (\<forall>row \<in> set (snd t). length row = fst t ! 1)"

definition layer_fits :: "nat \<Rightarrow> ('a, 'w, 'v) dense_layer \<Rightarrow> bool" where
  "layer_fits rows ly \<longleftrightarrow>
     length (dl_trellis ly) = length (dl_sizes ly) \<and> length (dl_svh ly) = sum_list (dl_sizes ly) \<and>
     (\<forall>i < length (dl_sizes ly). dl_sizes ly ! i mod 128 = 0 \<and>
        (numel (dl_trellis ly ! i) = 0 \<or> slot_fits rows (dl_sizes ly ! i) (dl_trellis ly ! i)))"

definition shard_block :: "('a, 'w, 'v) dense_layer \<Rightarrow> nat \<Rightarrow> 'a list list \<times> 'a list" where
  "shard_block ly i = (snd (dl_trellis ly ! i), shard_svh ly i (Suc i))"

definition shard_handle :: "('a, 'w, 'v) dense_layer \<Rightarrow> nat \<Rightarrow> 'a linear" where
  "shard_handle ly i =
     make_linear_exl3 (dl_trellis ly ! i) (dl_suh ly ! i) (shard_svh ly i (Suc i)) (dl_mcg ly ! i) (dl_mul1 ly ! i)"

lemma shard_linear_eq: "shard_linear ly i = (if numel (dl_trellis ly ! i) = 0 then Inl RuntimeError else Inr (shard_handle ly i))"
  by (simp add: shard_linear_def shard_handle_def)

lemma operand_make: "operand_of (make_linear_exl3 t u s a b) = \<lparr>op_trellis = snd t, op_suh = u, op_svh = s\<rparr>"
  by (simp add: operand_of_def make_linear_exl3_def)

lemma shard_svh_length:
  assumes "layer_fits rows ly" "i < length (dl_sizes ly)"
  shows "length (shard_svh ly i (Suc i)) = dl_sizes ly ! i"
  using assms offset_of_bound [of i "dl_sizes ly"] by (simp add: shard_svh_def part_def offset_of_Suc layer_fits_def)

lemma shard_svh_append:
  assumes "i \<le> j" "j \<le> k"
  shows "shard_svh ly i k = shard_svh ly i j @ shard_svh ly j k"
proof -
  have le: "offset_of (dl_sizes ly) i \<le> offset_of (dl_sizes ly) j" "offset_of (dl_sizes ly) j \<le> offset_of (dl_sizes ly) k"
    using assms by (simp_all add: offset_of_mono)
  have "take (c - a) (drop a xs) = take (b - a) (drop a xs) @ take (c - b) (drop b xs)" if "a \<le> b" "b \<le> c" for a b c and xs :: "'a list"
    using that take_add [of "b - a" "c - b" "drop a xs"] by simp
  then show ?thesis using le unfolding shard_svh_def part_def by blast
qed

lemma shard_svh_concat: "i \<le> j \<Longrightarrow> shard_svh ly i j = concat (map (\<lambda>m. shard_svh ly m (Suc m)) [i..<j])"
proof (induction j)
  case (Suc j)
  show ?case
  proof (cases "i = Suc j")
    case False
    then have "i \<le> j" using Suc.prems by simp
    then show ?thesis using Suc shard_svh_append [of i j "Suc j" ly] by simp
  qed (simp add: shard_svh_def part_def)
qed (simp add: shard_svh_def part_def)

lemma fitting_slot:
  assumes "layer_fits rows ly" "i < length (dl_sizes ly)" "numel (dl_trellis ly ! i) \<noteq> 0"
  shows "slot_fits rows (dl_sizes ly ! i) (dl_trellis ly ! i)" "0 < rows" "block_ok rows (shard_block ly i)"
proof -
  show f: "slot_fits rows (dl_sizes ly ! i) (dl_trellis ly ! i)" using assms by (auto simp: layer_fits_def)
  then obtain a b c where sh: "fst (dl_trellis ly ! i) = [a, b, c]"
    by (auto simp: slot_fits_def numeral_3_eq_3 length_Suc_conv)
  show "0 < rows" using assms(3) f by (auto simp: numel_def sh slot_fits_def)
  show "block_ok rows (shard_block ly i)"
    using f assms shard_svh_length [OF assms(1,2)] by (auto simp: block_ok_def shard_block_def slot_fits_def layer_fits_def)
qed

text \<open>A run holds loaded shards of one kind.\<close>

lemma run_end_Inr:
  "run_end ly i j = Inr k \<Longrightarrow> j \<le> length (dl_sizes ly) \<Longrightarrow>
    k \<le> length (dl_sizes ly) \<and> (\<forall>m \<in> {j..<k}. numel (dl_trellis ly ! m) \<noteq> 0 \<and> same_kind ly i m)"
proof (induction ly i j rule: run_end.induct)
  case (1 ly i j)
  show ?case
  proof (cases "length (dl_sizes ly) \<le> j \<or> numel (dl_trellis ly ! j) = 0 \<or> \<not> same_kind ly i j")
    case True
    then show ?thesis using "1.prems" by (subst (asm) run_end.simps) (auto split: if_splits)
  next
    case False
    then have "run_end ly i (Suc j) = Inr k" using "1.prems" by (subst (asm) run_end.simps) auto
    then have "k \<le> length (dl_sizes ly) \<and> (\<forall>m \<in> {Suc j..<k}. numel (dl_trellis ly ! m) \<noteq> 0 \<and> same_kind ly i m)"
      using "1.IH" False by simp
    then show ?thesis using False by (metis atLeastLessThan_iff le_eq_less_or_eq Suc_le_eq)
  qed
qed

lemma run_end_Inl:
  "run_end ly i j = Inl e \<Longrightarrow> e = RuntimeError \<and> (\<exists>m. j \<le> m \<and> m < length (dl_sizes ly) \<and> numel (dl_trellis ly ! m) = 0)"
proof (induction ly i j rule: run_end.induct)
  case (1 ly i j)
  show ?case
  proof (cases "length (dl_sizes ly) \<le> j \<or> numel (dl_trellis ly ! j) = 0 \<or> \<not> same_kind ly i j")
    case True
    then show ?thesis using "1.prems" by (subst (asm) run_end.simps) (auto split: if_splits)
  next
    case False
    then have "run_end ly i (Suc j) = Inl e" using "1.prems" by (subst (asm) run_end.simps) auto
    then show ?thesis using "1.IH" False by (meson Suc_leD not_le)
  qed
qed

lemma same_handle:
  assumes "same_kind ly i m"
  shows "handle_row ops cb (shard_handle ly m) h =
    trellis_product ops (last (fst (dl_trellis ly ! i)) div 16) (cb (marker_or_none (dl_mcg ly ! i)) (marker_or_none (dl_mul1 ly ! i)))
      \<lparr>op_trellis = fst (shard_block ly m), op_suh = dl_suh ly ! i, op_svh = snd (shard_block ly m)\<rparr> h"
  using assms
  by (simp add: handle_row_def shard_handle_def operand_make same_kind_def bits_of_def shard_block_def)
    (simp add: make_linear_exl3_def)

text \<open>The handle of a run computes the rows of its shards.\<close>

lemma run_linear_row:
  assumes fit: "layer_fits rows ly" and c: "decode_contract ops" and i: "i < j" "j \<le> length (dl_sizes ly)"
    and run: "\<forall>m \<in> {i..<j}. numel (dl_trellis ly ! m) \<noteq> 0 \<and> same_kind ly i m"
  shows "\<exists>l. run_linear ly i j = Inr l \<and> (\<forall>h. handle_row ops cb l h = handles_row ops cb (map (shard_handle ly) [i..<j]) h)"
proof (cases "j = Suc i")
  case True
  then show ?thesis by (simp add: run_linear_def map_ok_def handles_row_def shard_handle_def)
next
  case False
  let ?slots = "part i (j - i) (dl_trellis ly)"
  have slots: "?slots = map ((!) (dl_trellis ly)) [i..<j]"
    using i fit by (intro nth_equalityI) (auto simp: part_def layer_fits_def)
  have f: "slot_fits rows (dl_sizes ly ! m) (dl_trellis ly ! m)" "block_ok rows (shard_block ly m)" if "m \<in> {i..<j}" for m
    using fitting_slot [OF fit, of m] run that i by auto
  have rows: "0 < rows" using fitting_slot(2) [OF fit, of i] run i by auto
  have ne: "[i..<j] \<noteq> []" using i by simp
  have hd: "hd ?slots = dl_trellis ly ! i" using i by (simp add: slots hd_map)
  have heads: "hd (fst (dl_trellis ly ! m)) = rows" if "m \<in> {i..<j}" for m
  proof -
    have l3: "length (fst (dl_trellis ly ! m)) = 3" "fst (dl_trellis ly ! m) ! 0 = rows"
      using f(1) [OF that] by (simp_all add: slot_fits_def)
    then have "fst (dl_trellis ly ! m) \<noteq> []" by auto
    then show ?thesis using l3 by (simp add: hd_conv_nth)
  qed
  have l3: "length (fst (dl_trellis ly ! i)) = 3" using f(1) [of i] i by (simp add: slot_fits_def)
  have js: "joined_slots ly i j =
      Inr ((fst (dl_trellis ly ! i))[1 := sum_list (map (\<lambda>t. fst t ! 1) ?slots)], tile_join rows (map (\<lambda>m. fst (shard_block ly m)) [i..<j]))"
    using heads i unfolding joined_slots_def Let_def hd
    by (auto simp: slots list_ex_iff tile_join_def shard_block_def comp_def)
  let ?l = "make_linear_exl3 ((fst (dl_trellis ly ! i))[1 := sum_list (map (\<lambda>t. fst t ! 1) ?slots)],
      tile_join rows (map (\<lambda>m. fst (shard_block ly m)) [i..<j])) (dl_suh ly ! i) (shard_svh ly i j) (dl_mcg ly ! i) (dl_mul1 ly ! i)"
  have last: "last ((fst (dl_trellis ly ! i))[1 := v]) = last (fst (dl_trellis ly ! i))" for v
    using l3 by (auto simp: numeral_3_eq_3 length_Suc_conv)
  have "handle_row ops cb ?l h = handles_row ops cb (map (shard_handle ly) [i..<j]) h" for h
  proof -
    let ?k = "last (fst (dl_trellis ly ! i)) div 16" and ?cb = "cb (marker_or_none (dl_mcg ly ! i)) (marker_or_none (dl_mul1 ly ! i))"
    have "handle_row ops cb ?l h = trellis_product ops ?k ?cb
        \<lparr>op_trellis = tile_join rows (map fst (map (shard_block ly) [i..<j])), op_suh = dl_suh ly ! i,
         op_svh = concat (map snd (map (shard_block ly) [i..<j]))\<rparr> h"
    proof -
      have "bits_of ?l = ?k" "ln_mcg ?l = marker_or_none (dl_mcg ly ! i)" "ln_mul1 ?l = marker_or_none (dl_mul1 ly ! i)"
        by (simp_all add: bits_of_def make_linear_exl3_def last [simplified])
      moreover have "shard_svh ly i j = concat (map snd (map (shard_block ly) [i..<j]))"
        using i(1) by (subst shard_svh_concat) (simp_all add: shard_block_def comp_def)
      ultimately show ?thesis by (simp only: handle_row_def operand_make fst_conv snd_conv map_map comp_def)
    qed
    also have "\<dots> = concat (map (\<lambda>m. handle_row ops cb (shard_handle ly m) h) [i..<j])"
    proof (subst product_join [OF c rows])
      show "map (shard_block ly) [i..<j] \<noteq> []" using ne by simp
      show "list_all (block_ok rows) (map (shard_block ly) [i..<j])" using f(2) by (auto simp: list_all_iff)
      show "concat (map (\<lambda>b. trellis_product ops ?k ?cb \<lparr>op_trellis = fst b, op_suh = dl_suh ly ! i, op_svh = snd b\<rparr> h) (map (shard_block ly) [i..<j])) =
          concat (map (\<lambda>m. handle_row ops cb (shard_handle ly m) h) [i..<j])"
        unfolding map_map comp_def
        by (rule arg_cong [where f = concat], rule map_cong [OF refl], rule same_handle [symmetric]) (use run in simp)
    qed
    finally show ?thesis by (simp add: handles_row_def comp_def)
  qed
  then show ?thesis using False js by (simp add: run_linear_def map_ok_def)
qed

text \<open>Coalescing fails where separate handles fail, and otherwise computes the same rows.\<close>

lemma coalesced_rows:
  assumes fit: "layer_fits rows ly" and c: "decode_contract ops"
  shows "i \<le> length (dl_sizes ly) \<Longrightarrow>
    (if \<exists>m. i \<le> m \<and> m < length (dl_sizes ly) \<and> numel (dl_trellis ly ! m) = 0 then coalesced_linears ly i = Inl RuntimeError
     else \<exists>cs. coalesced_linears ly i = Inr cs \<and> (cs = [] \<longleftrightarrow> i = length (dl_sizes ly)) \<and>
       (\<forall>h. handles_row ops cb cs h = handles_row ops cb (map (shard_handle ly) [i..<length (dl_sizes ly)]) h))"
proof (induction "length (dl_sizes ly) - i" arbitrary: i rule: less_induct)
  case less
  let ?n = "length (dl_sizes ly)"
  let ?gap = "\<lambda>i. \<exists>m. i \<le> m \<and> m < ?n \<and> numel (dl_trellis ly ! m) = 0"
  consider "i = ?n" | "i < ?n" "numel (dl_trellis ly ! i) = 0" | "i < ?n" "numel (dl_trellis ly ! i) \<noteq> 0" using less.prems by linarith
  then show ?case
  proof cases
    case 1
    then show ?thesis by (subst (1 2) coalesced_linears.simps) (auto simp: handles_row_def)
  next
    case 2
    then have "coalesced_linears ly i = Inl RuntimeError" by (subst coalesced_linears.simps) simp
    then show ?thesis using 2 by auto
  next
    case 3
    have unfold: "coalesced_linears ly i = bind_res (run_end ly i (Suc i)) (\<lambda>j.
        bind_res (run_linear ly i j) (\<lambda>l. map_ok (Cons l) (coalesced_linears ly j)))"
      using 3 by (subst coalesced_linears.simps) simp
    show ?thesis
    proof (cases "run_end ly i (Suc i)")
      case (Inl e)
      then have "e = RuntimeError \<and> ?gap i" using run_end_Inl [OF Inl] Suc_leD by blast
      then show ?thesis using unfold Inl by simp
    next
      case (Inr j)
      have j: "Suc i \<le> j" "j \<le> ?n" "\<forall>m \<in> {Suc i..<j}. numel (dl_trellis ly ! m) \<noteq> 0 \<and> same_kind ly i m"
        using run_end_ge [OF Inr] run_end_Inr [OF Inr] 3 by auto
      have run: "\<forall>m \<in> {i..<j}. numel (dl_trellis ly ! m) \<noteq> 0 \<and> same_kind ly i m"
      proof
        fix m assume "m \<in> {i..<j}"
        then show "numel (dl_trellis ly ! m) \<noteq> 0 \<and> same_kind ly i m"
          using j(3) 3(2) by (cases "m = i") (auto simp: same_kind_def)
      qed
      have ij: "i < j" using j(1) by simp
      obtain l where l: "run_linear ly i j = Inr l"
        "\<forall>h. handle_row ops cb l h = handles_row ops cb (map (shard_handle ly) [i..<j]) h"
        using run_linear_row [OF fit c ij j(2) run] by blast
      have gap: "?gap i \<longleftrightarrow> ?gap j" using run ij by (meson atLeastLessThan_iff less_imp_le le_trans not_le)
      note IH = less.hyps [of j, OF _ j(2)]
      have upt: "[i..<?n] = [i..<j] @ [j..<?n]" using ij j(2) by (simp add: upt_split less_imp_le)
      have step: "coalesced_linears ly i = bind_res (coalesced_linears ly j) (\<lambda>cs. Inr (l # cs))"
        using unfold Inr l(1) by (simp add: map_ok_def)
      show ?thesis
      proof (cases "?gap j")
        case True
        then show ?thesis using IH step gap 3(1) ij by simp
      next
        case False
        then obtain cs where "coalesced_linears ly j = Inr cs"
          "\<forall>h. handles_row ops cb cs h = handles_row ops cb (map (shard_handle ly) [j..<?n]) h"
          using IH [unfolded if_not_P [OF False]] diff_less_mono2 [OF ij 3(1)] by blast
        then have "coalesced_linears ly i = Inr (l # cs) \<and>
            (\<forall>h. handles_row ops cb (l # cs) h = handles_row ops cb (map (shard_handle ly) [i..<?n]) h)"
          using step l(2) by (simp add: handles_row_def upt)
        then show ?thesis using False gap 3(1) by auto
      qed
    qed
  qed
qed

end
