(* ===== verification/Dense_Linear.thy ===== *)
theory Dense_Linear
  imports Dense_Contract
begin

text \<open>
  Properties of the dense linear layers: coalesced handles compute what separate handles compute, a checkpoint that
  stores a merged projection as one tensor gives the product with that tensor, the ranks of a column-parallel layer
  together compute the product with the whole tensor, the indexer shards are dequantized exactly; and the places
  where the loader is more lenient than its checks elsewhere.
\<close>

lemma pad128_ge: "n \<le> exl3_pad128 n" and pad128_mod: "exl3_pad128 n mod 128 = 0"
  by (simp_all add: exl3_pad128_def)

lemma fresh_simps [simp]:
  "dl_sizes (fresh_layer cx ni no) = map exl3_pad128 no" "dl_in (fresh_layer cx ni no) = exl3_pad128 ni"
  "dl_trellis (fresh_layer cx ni no) = replicate (length no) ([0], [])" "length (dl_suh (fresh_layer cx ni no)) = length no"
  "length (dl_svh (fresh_layer cx ni no)) = sum_list (map exl3_pad128 no)" "dl_mcg (fresh_layer cx ni no) = replicate (length no) 0"
  "dl_mul1 (fresh_layer cx ni no) = replicate (length no) 0"
  "dl_padded (fresh_layer cx ni no) \<longleftrightarrow> exl3_pad128 ni \<noteq> ni \<or> map exl3_pad128 no \<noteq> no"
  by (simp_all add: fresh_layer_def Let_def)

section \<open>A sample layer\<close>

text \<open>Kernels on exact numbers that keep the contracts: tile values are the columns, output scales multiply.\<close>

definition tile_torch :: "(nat, nat) torch_ops" where
  "tile_torch = \<lparr>to_half = (\<lambda>r. r), to_sigmoid = (\<lambda>_. 1 / 2), to_argsort = (\<lambda>ks. sort_key ((!) ks) [0..<length ks]),
     to_had_in = (\<lambda>x s. x), to_had_out = (\<lambda>y s. map2 (\<lambda>v a. v * of_nat a) y s),
     to_reconstruct = (\<lambda>t k cb. case t of [] \<Rightarrow> [] | r # _ \<Rightarrow> concat (map (replicate 16) r)),
     to_gemm = (\<lambda>x cols. map (\<lambda>c. sum_list x * of_nat c) cols)\<rparr>"

definition marker_flags :: "int option \<Rightarrow> int option \<Rightarrow> bool \<times> bool" where
  "marker_flags mcg mul1 = (mcg \<noteq> None, mul1 \<noteq> None)"

definition tile_rt :: "(nat, rat, unit) linear_rt" where
  "tile_rt = \<lparr>lr_half = (\<lambda>r. r), lr_forward = (\<lambda>l decode xs. map (handle_row tile_torch marker_flags l) xs),
     lr_dense = (\<lambda>w h. map (\<lambda>row. sum_list (map2 (*) row h)) w), lr_mxfp8 = (\<lambda>_ h. h), lr_cast = (\<lambda>r. r)\<rparr>"

definition tile_fx :: "(nat, rat, unit) finish_ext" where
  "tile_fx = \<lparr>fx_bytes = (\<lambda>w. [w]), fx_bf16 = (\<lambda>p. case p of Fin r \<Rightarrow> r | _ \<Rightarrow> 0), fx_devices = [Some ''cuda:0''],
     fx_stashed = (\<lambda>_. (''cpu'', ''cpu'')), fx_lands = (\<lambda>_ d. d),
     fx_marlin = \<lparr>ma_importable = True, ma_supported = True, ma_can = (\<lambda>_. True), ma_build = (\<lambda>_ _. ())\<rparr>\<rparr>"

definition dense_cx :: "nat \<Rightarrow> nat \<Rightarrow> bool \<Rightarrow> (nat, rat) dense_ctx" where
  "dense_cx r tp qkv = \<lparr>dc_env = Map.empty,
     dc_cfg = \<lparr>ec_bits = 4, ec_codebook = ''mcg'', ec_layer_bits = [], ec_non_routed = None, ec_ngram = None,
       ec_dtype_policy = ''bf16'', ec_mtp_experts = ''auto'', ec_mtp_start = None\<rparr>,
     dc_prefix = ''model.layers.0.mlp.gate_up_proj'', dc_class = ''MergedColumnParallelLinear'', dc_row = False, dc_qkv = qkv,
     dc_process = (int r, int tp), dc_owner = bare_owner, dc_param = bare_owner, dc_memory = (\<lambda>_. 0), dc_wmemory = (\<lambda>_. 0)\<rparr>"

lemma tile_contracts: "linear_contract tile_torch marker_flags tile_rt" "decode_contract tile_torch"
proof -
  show "linear_contract tile_torch marker_flags tile_rt" by (simp add: linear_contract_def tile_rt_def)
  let ?f = "\<lambda>t :: nat list list. case t of [] \<Rightarrow> [] | r # _ \<Rightarrow> concat (map (replicate 16) r)"
  have "?f (map2 (@) t t') = ?f t @ ?f t'" if "length t = length t'" for t t' using that by (cases t; cases t') auto
  moreover have "length (?f t) = 16 * c" if "t \<noteq> []" "\<forall>row \<in> set t. length row = c" for t c
    using that by (cases t) (auto simp: length_concat sum_list_replicate map_replicate_const comp_def)
  ultimately show "decode_contract tile_torch" by (simp add: decode_contract_def columns_contract_def tile_torch_def)
qed

lemma dense_cx_geometry [simp]:
  "dense_geometry (dense_cx r tp qkv) [Some (dc_owner (dense_cx r tp qkv))] = Inr (r, tp)"
  "dense_geometry (dense_cx r tp qkv) [Some (dc_owner (dense_cx r tp qkv)), Some (dc_param (dense_cx r tp qkv))] = Inr (r, tp)"
  by (simp_all add: dense_geometry_def dense_cx_def bare_owner_def resolve_tp_geometry_def map_ok_def)

lemma dense_cx_none:
  "bf16_shards_for (dc_cfg (dense_cx r tp qkv)) (dc_prefix (dense_cx r tp qkv)) = []" "indexer_shards_of (dc_class (dense_cx r tp qkv)) n = []"
  by (simp_all add: dense_cx_def bf16_shards_for_def indexer_shards_of_def)

lemma dense_cx_plain [simp]:
  "dl_bf16 (fresh_layer (dense_cx r tp qkv) ni sizes) = []" "dl_indexer (fresh_layer (dense_cx r tp qkv) ni sizes) = []"
  by (simp_all add: fresh_layer_def Let_def staged_shards_def dense_cx_none)

lemma dense_cx_created:
  assumes "exl3_pad128 ni = ni" "map exl3_pad128 sizes = sizes"
  shows "linear_create_weights (dense_cx r tp qkv) ni sizes = Inr (fresh_layer (dense_cx r tp qkv) ni sizes)"
proof -
  have "exl3_pad128 n mod 16 = 0" for n
    using pad128_mod [of n] by (auto simp: mod_eq_0_iff_dvd intro: dvd_trans [of 16 128])
  note p16 = this
  have "ni mod 16 = 0" using p16 [of ni] assms(1) by simp
  moreover have "\<forall>s \<in> set (map exl3_pad128 sizes). s mod 16 = 0" using p16 by simp
  ultimately have "ni mod 16 = 0" "\<forall>s \<in> set sizes. s mod 16 = 0" unfolding assms(2) by blast+
  then show ?thesis using assms by (auto simp: linear_create_weights_def Let_def when_res_def list_ex_iff dense_cx_none)
qed

definition two_shards :: "(nat, nat, rat) dense_layer" where
  "two_shards = (fresh_layer (dense_cx 0 1 False) 128 [128, 128])\<lparr>
     dl_trellis := [([8, 8, 32], replicate 8 (replicate 8 3)), ([8, 8, 32], replicate 8 (replicate 8 5))],
     dl_suh := [replicate 128 1, replicate 128 1], dl_svh := replicate 256 2,
     dl_mcg := [MCG_MARKER_SIGNED_INT32, MCG_MARKER_SIGNED_INT32]\<rparr>"

section \<open>Finished layers\<close>

lemma map_res_None: "map_res (\<lambda>i. if P i then Inl e else Inr (f i)) xs = (if list_ex P xs then Inl e else Inr (map f xs))"
  by (induction xs) auto

lemma separate_plain:
  assumes "\<And>i. \<not> other i"
  shows "separate_linears ly other =
    (if \<exists>m < length (dl_sizes ly). numel (dl_trellis ly ! m) = 0 then Inl RuntimeError
     else Inr (map Some (map (shard_handle ly) [0..<length (dl_sizes ly)])))"
proof -
  have "(\<lambda>i. if other i then Inr None else map_ok Some (shard_linear ly i)) =
      (\<lambda>i. if numel (dl_trellis ly ! i) = 0 then Inl RuntimeError else Inr (Some (shard_handle ly i)))"
    using assms by (auto simp: shard_linear_eq map_ok_def fun_eq_iff)
  then show ?thesis by (auto simp: separate_linears_def map_res_None list_ex_iff comp_def)
qed

text \<open>What a layer's handles compute, with the switch for coalescing or without.\<close>

definition coalescing :: "environ \<Rightarrow> ('a, 'w, 'v) dense_layer \<Rightarrow> bool" where
  "coalescing env ly \<longleftrightarrow>
     1 < length (dl_sizes ly) \<and> dl_bf16 ly = [] \<and> \<not> dl_padded ly \<and>
     \<not> (dl_indexer ly \<noteq> [] \<and> indexer_mxfp8_enabled env) \<and> env ''VLLM_EXL3_COALESCE_SHARDS'' \<noteq> Some ''0''"

lemma env_switch [simp]:
  "indexer_mxfp8_enabled (env(''VLLM_EXL3_COALESCE_SHARDS'' := v)) = indexer_mxfp8_enabled env"
  by (simp add: indexer_mxfp8_enabled_def)

definition finish_with ::
  "environ \<Rightarrow> ('w, 'v, 'k) finish_ext \<Rightarrow> ('a, 'w, 'v) dense_layer \<Rightarrow> 'a linear option list res \<Rightarrow> ('a, 'v, 'k) dense_ready res"
where
  "finish_with env fx ly made =
     (let mxfp8 = (dl_indexer ly \<noteq> [] \<and> indexer_mxfp8_enabled env);
          other = (\<lambda>i. i \<in> set (dl_bf16 ly) \<or> (mxfp8 \<and> i \<in> set (dl_indexer ly))) in
      bind_res (fold_res (\<lambda>_ i. if other i then Inr () else check_shard_marker (dl_mcg ly ! i) (dl_mul1 ly ! i)) () [0..<length (dl_sizes ly)]) (\<lambda>_.
      bind_res made (\<lambda>linears.
      bind_res (if dl_indexer ly = [] then Inr (ly, None) else process_indexer_shards fx mxfp8 ly) (\<lambda>(ly', shims).
        Inr \<lparr>dr_linears = linears, dr_sizes = dl_sizes ly, dr_in = dl_in ly, dr_true_out = dl_true_out ly,
             dr_padded = dl_padded ly, dr_bf16 = dl_bf16 ly,
             dr_bf16_weight = (if dl_bf16 ly \<noteq> [] \<and> 0 < shard_rows (dl_sizes ly) (dl_bf16 ly) then Some (dl_weight ly') else None),
             dr_indexer = dl_indexer ly, dr_mxfp8 = shims\<rparr>))))"

lemma process_finish:
  "linear_process_weights env fx ly =
    finish_with env fx ly (if coalescing env ly then map_ok (map Some) (coalesced_linears ly 0)
      else separate_linears ly (\<lambda>i. i \<in> set (dl_bf16 ly) \<or> (dl_indexer ly \<noteq> [] \<and> indexer_mxfp8_enabled env) \<and> i \<in> set (dl_indexer ly)))"
  by (simp add: linear_process_weights_def finish_with_def coalescing_def Let_def)

lemma finish_with_Inl: "finish_with env fx ly (Inl e) = Inr a \<Longrightarrow> False"
  by (auto simp: finish_with_def Let_def bind_res_Inr)

text \<open>Two lists of handles of a plain layer with the same rows finish alike.\<close>

lemma finish_with_rows:
  assumes c: "linear_contract ops cb rt" and plain: "dl_bf16 ly = []" "\<not> dl_padded ly" "\<not> (dl_indexer ly \<noteq> [] \<and> indexer_mxfp8_enabled env)"
    and ne: "as \<noteq> []" "bs \<noteq> []" and rows: "\<forall>h. handles_row ops cb as h = handles_row ops cb bs h"
  shows "case (finish_with env fx ly (Inr (map Some as)), finish_with env fx ly (Inr (map Some bs))) of
    (Inl e, Inl e') \<Rightarrow> e = e'
  | (Inr a, Inr b) \<Rightarrow> \<forall>x. linear_apply_impl env rt a x = linear_apply_impl env rt b x
  | _ \<Rightarrow> False"
proof -
  have none: "(if dl_indexer ly = [] then Inr (ly, None) else process_indexer_shards fx False ly) = Inr (l, sh) \<Longrightarrow> sh = None" for l sh
    by (auto simp: process_indexer_shards_def map_ok_def bind_res_Inr split: if_splits)
  have mx: "(dl_indexer ly \<noteq> [] \<and> indexer_mxfp8_enabled env) = False" using plain(3) by blast
  show ?thesis
  proof (cases "if dl_indexer ly = [] then Inr (ly, None) else process_indexer_shards fx False ly")
    case (Inl e)
    then show ?thesis unfolding finish_with_def Let_def mx by (simp add: bind_res_def split: sum.splits)
  next
    case (Inr q)
    then obtain l where "(if dl_indexer ly = [] then Inr (ly, None) else process_indexer_shards fx False ly) = Inr (l, None)"
      using none by (cases q) blast
    note made = this
    show ?thesis
      using plain(1,2) ne rows
      unfolding finish_with_def Let_def mx made
      by (simp add: bind_res_def apply_handles [OF c] split: sum.splits)
  qed
qed



section \<open>Loading tensors of several shards\<close>

lemma tp_sharded_one: "snd g \<le> 1 \<Longrightarrow> tp_sharded cx g t s = Inr t"
  by (cases t; cases s)
    (auto simp: tp_sharded_def shard_exl3_row_def shard_exl3_col_def narrow_range_def map_ok_def outside_def range_len_def narrow_def map_idI)

lemma tp_sharded_suh: "\<not> dc_row cx \<Longrightarrow> tp_sharded cx g (Vector xs) Suh = Inr (Vector xs)"
  by (simp add: tp_sharded_def shard_exl3_col_def outside_def cut_extent_def)

lemma narrow_None [simp]: "narrow None xs = xs" "range_len None n = n"
  by (simp_all add: narrow_def range_len_def)

lemma shard_geometry_whole: "0 < len \<Longrightarrow> \<exists>r. shard_geometry cx (0, 1) len len = Inr (r, 1)"
  by (simp add: shard_geometry_def)

lemma geometry_suh:
  assumes "0 < len"
  shows "bind_res (shard_geometry cx (0, Suc 0) n len) (\<lambda>g. bind_res (tp_sharded cx g (Vector xs) Suh) f) = f (Vector xs)"
  using assms by (cases "dc_row cx") (simp_all add: shard_geometry_def tp_sharded_one tp_sharded_suh)

text \<open>One shard at one rank.\<close>

lemma load_shard_one:
  assumes i: "i < length (dl_sizes ly)" "dl_indexer ly = []" "0 < dl_sizes ly ! i"
  shows "numel (dl_trellis ly ! i) = 0 \<Longrightarrow> cols * 16 = dl_sizes ly ! i \<Longrightarrow>
      load_shard cx conv (0, 1) ly i (CTrellis rows cols k tiles) = Inr (ly\<lparr>dl_trellis := (dl_trellis ly)[i := ([rows, cols, k], tiles)]\<rparr>)"
    "length xs = dl_sizes ly ! i \<Longrightarrow>
      load_shard cx conv (0, 1) ly i (CSvh xs) = Inr (ly\<lparr>dl_svh := put_at (offset_of (dl_sizes ly) i) xs (dl_svh ly)\<rparr>)"
    "length xs = dl_in ly \<Longrightarrow>
      load_shard cx conv (0, 1) ly i (CSuh xs) = Inr (ly\<lparr>dl_suh := (dl_suh ly)[i := xs]\<rparr>)"
proof -
  obtain r where r: "shard_geometry cx (0, 1) (dl_sizes ly ! i) (dl_sizes ly ! i) = Inr (r, 1)"
    using shard_geometry_whole [OF i(3)] by blast
  show "numel (dl_trellis ly ! i) = 0 \<Longrightarrow> cols * 16 = dl_sizes ly ! i \<Longrightarrow>
      load_shard cx conv (0, 1) ly i (CTrellis rows cols k tiles) = Inr (ly\<lparr>dl_trellis := (dl_trellis ly)[i := ([rows, cols, k], tiles)]\<rparr>)"
    using i r by (simp add: load_shard_def tp_sharded_one store_slot_def map_ok_def)
  show "length xs = dl_sizes ly ! i \<Longrightarrow>
      load_shard cx conv (0, 1) ly i (CSvh xs) = Inr (ly\<lparr>dl_svh := put_at (offset_of (dl_sizes ly) i) xs (dl_svh ly)\<rparr>)"
    using i r by (simp add: load_shard_def tp_sharded_one)
  show "length xs = dl_in ly \<Longrightarrow> load_shard cx conv (0, 1) ly i (CSuh xs) = Inr (ly\<lparr>dl_suh := (dl_suh ly)[i := xs]\<rparr>)"
    using i by (simp add: load_shard_def geometry_suh)
qed

definition trellis_piece :: "nat list \<Rightarrow> nat \<Rightarrow> nat \<Rightarrow> 'a list list \<Rightarrow> nat \<Rightarrow> 'a list list tensor" where
  "trellis_piece sizes rows k tiles m =
     ([rows, sizes ! m div 16, k], map (part (offset_of sizes m div 16) (sizes ! m div 16)) tiles)"

lemma offset_of_16: "\<forall>s \<in> set sizes. s mod 16 = 0 \<Longrightarrow> offset_of sizes i mod 16 = (0 :: nat)"
proof -
  assume "\<forall>s \<in> set sizes. s mod 16 = 0"
  then have "\<forall>s \<in> set (take i sizes). 16 dvd s" by (auto dest: in_set_takeD)
  moreover have "\<forall>s \<in> set xs. 16 dvd s \<Longrightarrow> 16 dvd sum_list xs" for xs :: "nat list" by (induction xs) auto
  ultimately have "16 dvd sum_list (take i sizes)" by blast
  then show ?thesis by (simp add: offset_of_def)
qed

lemma take_upd_map: "i < n \<Longrightarrow> length xs = n \<Longrightarrow> take (Suc i) (xs[i := f i]) @ map f [Suc i..<n] = take i xs @ map f [i..<n]"
  by (simp add: take_Suc_conv_app_nth upt_conv_Cons)

lemma pieces_trellis:
  assumes sizes: "\<forall>s \<in> set (dl_sizes ly). 0 < s \<and> s mod 16 = 0" and cols: "cols * 16 = sum_list (dl_sizes ly)"
    and ix: "dl_indexer ly = []" and len: "length (dl_trellis ly) = length (dl_sizes ly)"
  shows "i \<le> length (dl_sizes ly) \<Longrightarrow> \<forall>m \<in> {i..<length (dl_sizes ly)}. numel (dl_trellis ly ! m) = 0 \<Longrightarrow>
    load_pieces cx conv (0, 1) ly (offset_of (dl_sizes ly) i) [i..<length (dl_sizes ly)] (CTrellis rows cols k tiles) =
      Inr (ly\<lparr>dl_trellis := take i (dl_trellis ly) @ map (trellis_piece (dl_sizes ly) rows k tiles) [i..<length (dl_sizes ly)]\<rparr>)"
  using sizes cols ix len
proof (induction "length (dl_sizes ly) - i" arbitrary: i ly)
  case 0
  then show ?case by simp
next
  case (Suc d)
  let ?n = "length (dl_sizes ly)" and ?off = "offset_of (dl_sizes ly)" and ?p = "trellis_piece (dl_sizes ly) rows k tiles"
  have i: "i < ?n" using Suc.hyps(2) by simp
  have s: "0 < dl_sizes ly ! i" "dl_sizes ly ! i mod 16 = 0" "?off i mod 16 = 0"
    using Suc.prems(3) i offset_of_16 [of "dl_sizes ly"] by auto
  have bound: "?off i + dl_sizes ly ! i \<le> cols * 16" using offset_of_bound [OF i] Suc.prems(4) by simp
  have d16: "(?off i + dl_sizes ly ! i) div 16 = ?off i div 16 + dl_sizes ly ! i div 16" using s by (auto simp: div_add)
  then have "?off i div 16 + dl_sizes ly ! i div 16 \<le> cols" using bound div_le_mono [OF bound, of 16] by simp
  then have piece: "ct_piece (?off i) (dl_sizes ly ! i) (CTrellis rows cols k tiles :: ('a, 'b) ctensor) =
      CTrellis rows (dl_sizes ly ! i div 16) k (snd (?p i))"
    by (simp add: ct_piece_def d16 Let_def min_absorb1 trellis_piece_def)
  have "dl_sizes ly ! i div 16 * 16 = dl_sizes ly ! i" using s by auto
  then have one: "load_shard cx conv (0, 1) ly i (CTrellis rows (dl_sizes ly ! i div 16) k (snd (?p i))) =
      Inr (ly\<lparr>dl_trellis := (dl_trellis ly)[i := ?p i]\<rparr>)"
    using load_shard_one(1) [OF i Suc.prems(5) s(1)] Suc.prems(2) i by (simp add: trellis_piece_def)
  let ?ly' = "ly\<lparr>dl_trellis := (dl_trellis ly)[i := ?p i]\<rparr>"
  have "load_pieces cx conv (0, 1) ?ly' (?off (Suc i)) [Suc i..<?n] (CTrellis rows cols k tiles) =
      Inr (?ly'\<lparr>dl_trellis := take (Suc i) ((dl_trellis ly)[i := ?p i]) @ map ?p [Suc i..<?n]\<rparr>)"
    using Suc.hyps(1) [of ?ly' "Suc i"] Suc.hyps(2) Suc.prems i by simp
  then show ?case
    using i one piece Suc.prems(6) take_upd_map [of i ?n "dl_trellis ly" ?p]
    by (simp add: upt_conv_Cons Let_def offset_of_Suc)
qed

lemma put_at_next:
  assumes "a + b \<le> length xs" "length ys = length xs"
  shows "take (a + b) (put_at a (part a b xs) ys) @ drop (a + b) xs = take a ys @ drop a xs"
    "length (put_at a (part a b xs) ys) = length xs"
proof -
  have "drop a xs = take b (drop a xs) @ drop (a + b) xs" by (metis append_take_drop_id drop_drop add.commute)
  then show "take (a + b) (put_at a (part a b xs) ys) @ drop (a + b) xs = take a ys @ drop a xs"
    using assms by (simp add: put_at_def part_def min_def)
  show "length (put_at a (part a b xs) ys) = length xs" using assms by (simp add: put_at_def part_def)
qed

lemma pieces_svh:
  assumes sizes: "\<forall>s \<in> set (dl_sizes ly). 0 < s" and len: "length xs = sum_list (dl_sizes ly)" "length (dl_svh ly) = length xs"
    and ix: "dl_indexer ly = []"
  shows "i \<le> length (dl_sizes ly) \<Longrightarrow>
    load_pieces cx conv (0, 1) ly (offset_of (dl_sizes ly) i) [i..<length (dl_sizes ly)] (CSvh xs) =
      Inr (ly\<lparr>dl_svh := take (offset_of (dl_sizes ly) i) (dl_svh ly) @ drop (offset_of (dl_sizes ly) i) xs\<rparr>)"
  using sizes len ix
proof (induction "length (dl_sizes ly) - i" arbitrary: i ly)
  case 0
  then have "i = length (dl_sizes ly)" by simp
  then show ?case using 0 by (simp add: offset_of_def)
next
  case (Suc d)
  let ?n = "length (dl_sizes ly)" and ?off = "offset_of (dl_sizes ly)"
  have i: "i < ?n" using Suc.hyps(2) by simp
  have bound: "?off i + dl_sizes ly ! i \<le> length xs" using offset_of_bound [OF i] Suc.prems(3) by simp
  let ?v = "put_at (?off i) (part (?off i) (dl_sizes ly ! i) xs) (dl_svh ly)"
  have one: "load_shard cx conv (0, 1) ly i (CSvh (part (?off i) (dl_sizes ly ! i) xs)) = Inr (ly\<lparr>dl_svh := ?v\<rparr>)"
    using load_shard_one(2) [OF i Suc.prems(5)] Suc.prems(2) i bound by (simp add: part_def)
  have v: "length ?v = length xs" using put_at_next(2) [OF bound Suc.prems(4)] .
  have "load_pieces cx conv (0, 1) (ly\<lparr>dl_svh := ?v\<rparr>) (?off (Suc i)) [Suc i..<?n] (CSvh xs) =
      Inr (ly\<lparr>dl_svh := take (?off (Suc i)) ?v @ drop (?off (Suc i)) xs\<rparr>)"
    using Suc.hyps(1) [of "ly\<lparr>dl_svh := ?v\<rparr>" "Suc i"] Suc.hyps(2) Suc.prems i v by simp
  then show ?case
    using i one put_at_next(1) [OF bound Suc.prems(4)]
    by (simp add: upt_conv_Cons Let_def ct_piece_def offset_of_Suc)
qed

text \<open>Tensors that every shard gets.\<close>

lemma every_suh:
  assumes sizes: "\<forall>s \<in> set (dl_sizes ly). 0 < s" and len: "length xs = dl_in ly" "length (dl_suh ly) = length (dl_sizes ly)"
    and ix: "dl_indexer ly = []"
  shows "i \<le> length (dl_sizes ly) \<Longrightarrow>
    fold_res (\<lambda>ly i. load_shard cx conv (0, 1) ly i (CSuh xs)) ly [i..<length (dl_sizes ly)] =
      Inr (ly\<lparr>dl_suh := take i (dl_suh ly) @ map (\<lambda>_. xs) [i..<length (dl_sizes ly)]\<rparr>)"
  using sizes len ix
proof (induction "length (dl_sizes ly) - i" arbitrary: i ly)
  case (Suc d)
  have i: "i < length (dl_sizes ly)" using Suc.hyps(2) by simp
  have one: "load_shard cx conv (0, 1) ly i (CSuh xs) = Inr (ly\<lparr>dl_suh := (dl_suh ly)[i := xs]\<rparr>)"
    using load_shard_one(3) [OF i Suc.prems(5)] Suc.prems(2,3) i by simp
  show ?case
    using Suc.hyps(1) [of "ly\<lparr>dl_suh := (dl_suh ly)[i := xs]\<rparr>" "Suc i"] Suc.hyps(2) Suc.prems i one
      take_upd_map [of i "length (dl_sizes ly)" "dl_suh ly" "\<lambda>_. xs"]
    by (simp add: upt_conv_Cons)
qed simp

lemma every_mcg:
  assumes ix: "dl_indexer ly = []" and len: "length (dl_mcg ly) = length (dl_sizes ly)"
  shows "i \<le> length (dl_sizes ly) \<Longrightarrow>
    fold_res (\<lambda>ly i. load_shard cx conv g ly i (CMcg [v])) ly [i..<length (dl_sizes ly)] =
      Inr (ly\<lparr>dl_mcg := take i (dl_mcg ly) @ map (\<lambda>_. v) [i..<length (dl_sizes ly)]\<rparr>)"
  using ix len
proof (induction "length (dl_sizes ly) - i" arbitrary: i ly)
  case (Suc d)
  have i: "i < length (dl_sizes ly)" using Suc.hyps(2) by simp
  have one: "load_shard cx conv g ly i (CMcg [v]) = Inr (ly\<lparr>dl_mcg := (dl_mcg ly)[i := v]\<rparr>)"
    using i Suc.prems(2) by (simp add: load_shard_def marker_value_def map_ok_def)
  show ?case
    using Suc.hyps(1) [of "ly\<lparr>dl_mcg := (dl_mcg ly)[i := v]\<rparr>" "Suc i"] Suc.hyps(2) Suc.prems i one
      take_upd_map [of i "length (dl_sizes ly)" "dl_mcg ly" "\<lambda>_. v"]
    by (simp add: upt_conv_Cons)
qed simp

section \<open>A merged projection stored as one tensor\<close>

definition marked :: "('a, 'w, 'v) dense_layer \<Rightarrow> bool" where
  "marked ly \<longleftrightarrow> (\<forall>i < length (dl_sizes ly). check_shard_marker (dl_mcg ly ! i) (dl_mul1 ly ! i) = Inr ())"

lemma fold_res_unit: "(\<And>i. i \<in> set is \<Longrightarrow> f i = Inr ()) \<Longrightarrow> fold_res (\<lambda>_ i. f i) () is = Inr ()"
  by (induction "is") auto

text \<open>A loaded plain layer is finished, and computes the rows of its shards in their order.\<close>

lemma finished_rows:
  assumes c: "linear_contract ops cb rt" "decode_contract ops" and fit: "layer_fits rows ly"
    and full: "\<forall>i < length (dl_sizes ly). numel (dl_trellis ly ! i) \<noteq> 0" and ne: "dl_sizes ly \<noteq> []" and mk: "marked ly"
    and plain: "dl_bf16 ly = []" "\<not> dl_padded ly" "dl_indexer ly = []"
  shows "\<exists>rd. linear_process_weights env fx ly = Inr rd \<and> (\<forall>x. linear_apply_impl env' rt rd x =
    Inr (map (\<lambda>r. map (lr_cast rt) (handles_row ops cb (map (shard_handle ly) [0..<length (dl_sizes ly)]) (map (lr_half rt) r))) x))"
proof -
  let ?hs = "map (shard_handle ly) [0..<length (dl_sizes ly)]"
  have fin: "\<exists>rd. finish_with env fx ly (Inr (map Some ls)) = Inr rd \<and> (\<forall>x. linear_apply_impl env' rt rd x =
      Inr (map (\<lambda>r. map (lr_cast rt) (handles_row ops cb ls (map (lr_half rt) r))) x))" if "ls \<noteq> []" for ls
  proof -
    have "fold_res (\<lambda>_ i. check_shard_marker (dl_mcg ly ! i) (dl_mul1 ly ! i)) () [0..<length (dl_sizes ly)] = Inr ()"
      by (rule fold_res_unit) (use mk in \<open>simp add: marked_def\<close>)
    then show ?thesis using plain that by (simp add: finish_with_def Let_def apply_handles [OF c(1)])
  qed
  have hs: "?hs \<noteq> []" using ne by simp
  show ?thesis
  proof (cases "coalescing env ly")
    case False
    then have "linear_process_weights env fx ly = finish_with env fx ly (Inr (map Some ?hs))"
      using plain full by (auto simp: process_finish separate_plain)
    then show ?thesis using fin [OF hs] by simp
  next
    case True
    have no: "\<not> (\<exists>m \<ge> 0. m < length (dl_sizes ly) \<and> numel (dl_trellis ly ! m) = 0)" using full by auto
    obtain cs where cs: "coalesced_linears ly 0 = Inr cs" "cs = [] \<longleftrightarrow> 0 = length (dl_sizes ly)" "\<forall>h. handles_row ops cb cs h = handles_row ops cb ?hs h"
      using coalesced_rows [OF fit c(2) le0, of cb] unfolding if_not_P [OF no] by blast
    then have "linear_process_weights env fx ly = finish_with env fx ly (Inr (map Some cs))"
      using True by (simp add: process_finish map_ok_def)
    then show ?thesis using fin [of cs] cs(2,3) ne by simp
  qed
qed

lemma created:
  assumes "linear_create_weights cx true_in true_out = Inr ly"
  shows "ly = fresh_layer cx true_in true_out" "dl_padded ly \<Longrightarrow> length true_out \<le> 1 \<and> dl_bf16 ly = [] \<and> one_rank cx NotImplementedError = Inr ()"
  using assms by (auto simp: linear_create_weights_def Let_def when_res_def bind_res_Inr split: if_splits)

lemma concat_parts: "concat (map (\<lambda>m. part (offset_of ls m) (ls ! m) xs) [0..<k]) = take (offset_of ls k) xs" if "k \<le> length ls"
  using that
proof (induction k)
  case (Suc k)
  then show ?case by (simp add: offset_of_Suc part_def take_add)
qed (simp add: offset_of_def)

lemma offset_of_whole: "length xs = sum_list ls \<Longrightarrow> take (offset_of ls (length ls)) xs = xs"
  by (simp add: offset_of_def)

lemma div16_sum: "\<forall>s \<in> set xs. s mod 16 = (0 :: nat) \<Longrightarrow> sum_list (map (\<lambda>s. s div 16) xs) = sum_list xs div 16"
  by (induction xs) (auto simp: div_add)

lemma piece_bounds:
  assumes s16: "\<forall>s \<in> set sizes. s mod 16 = (0 :: nat)" and m: "m < length sizes"
  shows "16 * (sizes ! m div 16) = sizes ! m" "offset_of sizes m + sizes ! m \<le> sum_list sizes"
    "offset_of sizes m div 16 + sizes ! m div 16 \<le> sum_list sizes div 16"
proof -
  have d: "16 dvd sizes ! m" using s16 m by (simp add: mod_eq_0_iff_dvd)
  then show "16 * (sizes ! m div 16) = sizes ! m" by simp
  show b: "offset_of sizes m + sizes ! m \<le> sum_list sizes" using offset_of_bound [OF m] .
  have "offset_of sizes m div 16 + sizes ! m div 16 = (offset_of sizes m + sizes ! m) div 16" using d by (simp add: div_plus_div_distrib_dvd_right)
  then show "offset_of sizes m div 16 + sizes ! m div 16 \<le> sum_list sizes div 16" using div_le_mono [OF b, of 16] by simp
qed

text \<open>The handles of pieces of one tensor compute the product with the tensor.\<close>

lemma pieces_product:
  assumes c: "decode_contract ops" and rows: "0 < rows" and sizes: "sizes \<noteq> []" "\<forall>s \<in> set sizes. s mod 128 = 0"
    and t: "length tiles = rows" "\<forall>row \<in> set tiles. 16 * length row = sum_list sizes" "length svh = sum_list sizes"
  shows "concat (map (\<lambda>m. trellis_product ops k cb \<lparr>op_trellis = snd (trellis_piece sizes rows k' tiles m), op_suh = u,
      op_svh = part (offset_of sizes m) (sizes ! m) svh\<rparr> h) [0..<length sizes]) =
    trellis_product ops k cb \<lparr>op_trellis = tiles, op_suh = u, op_svh = svh\<rparr> h"
proof -
  let ?n = "length sizes" and ?b = "\<lambda>m. (snd (trellis_piece sizes rows k' tiles m), part (offset_of sizes m) (sizes ! m) svh)"
  let ?ts = "map (\<lambda>s. s div 16) sizes"
  have s16: "\<forall>s \<in> set sizes. s mod 16 = 0" using sizes(2) by (auto simp: mod_eq_0_iff_dvd intro: dvd_trans [of 16 128])
  have off: "offset_of ?ts m = offset_of sizes m div 16" if "m \<le> ?n" for m
    using div16_sum [of "take m sizes"] s16 by (auto simp: offset_of_def take_map dest: in_set_takeD)
  note bound = piece_bounds [OF s16]
  have rowlen: "length row = sum_list sizes div 16" if "row \<in> set tiles" for row using t(2) that by fastforce
  have "concat (map (\<lambda>m. part (offset_of sizes m div 16) (sizes ! m div 16) row) [0..<?n]) = row" if "row \<in> set tiles" for row
  proof -
    have "concat (map (\<lambda>m. part (offset_of ?ts m) (?ts ! m) row) [0..<length ?ts]) = row"
      using rowlen [OF that] div16_sum [OF s16] offset_of_whole [of row ?ts] by (simp add: concat_parts [where ls = ?ts, simplified])
    moreover have "map (\<lambda>m. part (offset_of ?ts m) (?ts ! m) row) [0..<length ?ts] =
        map (\<lambda>m. part (offset_of sizes m div 16) (sizes ! m div 16) row) [0..<?n]"
      using off by (intro nth_equalityI) auto
    ultimately show ?thesis by (simp only: length_map)
  qed
  then have join: "tile_join rows (map fst (map ?b [0..<?n])) = tiles"
    using t(1) by (intro nth_equalityI) (auto simp: tile_join_def trellis_piece_def comp_def cong: map_cong)
  have svh: "concat (map snd (map ?b [0..<?n])) = svh"
    using concat_parts [of ?n sizes svh] offset_of_whole [OF t(3)] by (simp add: comp_def)
  have "list_all (block_ok rows) (map ?b [0..<?n])"
  proof -
    have "block_ok rows (?b m)" if m: "m < ?n" for m
    proof -
      have "length (part (offset_of sizes m) (sizes ! m) svh) = sizes ! m"
        using bound(2) [OF m] t(3) by (simp add: part_def)
      moreover have "length (part (offset_of sizes m div 16) (sizes ! m div 16) row) = sizes ! m div 16" if "row \<in> set tiles" for row
        using bound(3) [OF m] rowlen [OF that] by (simp add: part_def)
      moreover have "16 * (sizes ! m div 16) = sizes ! m" "sizes ! m mod 128 = 0" using bound(1) [OF m] sizes(2) m by auto
      ultimately show ?thesis using t(1) by (simp add: block_ok_def trellis_piece_def)
    qed
    then show ?thesis by (simp add: list_all_iff)
  qed
  then have "trellis_product ops k cb \<lparr>op_trellis = tile_join rows (map fst (map ?b [0..<?n])), op_suh = u,
        op_svh = concat (map snd (map ?b [0..<?n]))\<rparr> h =
      concat (map (\<lambda>b. trellis_product ops k cb \<lparr>op_trellis = fst b, op_suh = u, op_svh = snd b\<rparr> h) (map ?b [0..<?n]))"
    using sizes(1) by (intro product_join [OF c rows]) auto
  then show ?thesis unfolding join svh by (simp add: comp_def)
qed

lemma fused_is_spanned:
  assumes "1 < length sizes" "\<forall>s \<in> set sizes. (0::nat) < s" "per_input t \<or> loaded_out t = sum_list sizes"
  shows "span_ids sizes NoShard t = Some [0..<length sizes]"
proof -
  obtain a b cs where "sizes = a # b # cs" using assms(1) by (cases sizes; cases "tl sizes") auto
  then show ?thesis using assms by (auto simp: span_ids_def)
qed

text \<open>Loading the four fused tensors of a merged layer on one rank.\<close>

lemma load_fused:
  fixes ly :: "('a, 'w, 'v) dense_layer"
  assumes g: "dense_geometry cx [Some (dc_owner cx), Some (dc_param cx)] = Inr (0, 1)"
    and sizes: "1 < length (dl_sizes ly)" "\<forall>s \<in> set (dl_sizes ly). 0 < s \<and> s mod 16 = 0"
    and ix: "dl_indexer ly = []" and empty: "dl_trellis ly = replicate (length (dl_sizes ly)) ([0], [])"
    and lens: "length (dl_suh ly) = length (dl_sizes ly)" "length (dl_mcg ly) = length (dl_sizes ly)" "length (dl_svh ly) = sum_list (dl_sizes ly)"
    and t: "cols * 16 = sum_list (dl_sizes ly)" "length svh = sum_list (dl_sizes ly)" "length suh = dl_in ly"
  shows "fold_res (\<lambda>ly t. linear_weight_loader cx conv ly NoShard t) ly [CTrellis rows cols k tiles, CSuh suh, CSvh svh, CMcg [v]] =
    Inr (ly\<lparr>dl_trellis := map (trellis_piece (dl_sizes ly) rows k tiles) [0..<length (dl_sizes ly)],
      dl_suh := map (\<lambda>_. suh) [0..<length (dl_sizes ly)], dl_svh := svh, dl_mcg := map (\<lambda>_. v) [0..<length (dl_sizes ly)]\<rparr>)"
proof -
  let ?n = "length (dl_sizes ly)"
  have pos: "\<forall>s \<in> set (dl_sizes ly). 0 < s" and n0: "[0..<?n] \<noteq> []" using sizes by auto
  have ids: "hd [0..<?n] = 0" "last [0..<?n] = ?n - 1" using n0 by (auto simp: hd_upt last_upt)
  have rows: "shard_rows (dl_sizes ly) [0..<?n] = sum_list (dl_sizes ly)" by (simp add: shard_rows_def map_nth)
  have span: "linear_weight_loader cx conv l NoShard t =
      (if per_input t then fold_res (\<lambda>ly i. load_shard cx conv (0, 1) ly i t) l [0..<?n] else load_pieces cx conv (0, 1) l 0 [0..<?n] t)"
    if "dl_sizes l = dl_sizes ly" "per_input t \<or> loaded_out t = sum_list (dl_sizes ly)" for l :: "('a, 'w, 'v) dense_layer" and t
    using that sizes(1) n0 ids fused_is_spanned [OF sizes(1) pos that(2)] rows
    by (auto simp: linear_weight_loader_def g load_span_def)
  have zero: "offset_of (dl_sizes ly) 0 = 0" by (simp add: offset_of_def)
  let ?l1 = "ly\<lparr>dl_trellis := map (trellis_piece (dl_sizes ly) rows k tiles) [0..<?n]\<rparr>"
  have 1: "linear_weight_loader cx conv ly NoShard (CTrellis rows cols k tiles) = Inr ?l1"
    using pieces_trellis [OF sizes(2) t(1) ix, of 0] t(1) span [of ly "CTrellis rows cols k tiles"]
    by (simp add: empty zero numel_def per_input_def loaded_out_def)
  let ?l2 = "?l1\<lparr>dl_suh := map (\<lambda>_. suh) [0..<?n]\<rparr>"
  have 2: "linear_weight_loader cx conv ?l1 NoShard (CSuh suh) = Inr ?l2"
    using every_suh [of ?l1 suh 0] pos t(3) lens(1) ix span [of ?l1 "CSuh suh"] by (simp add: per_input_def)
  let ?l3 = "?l2\<lparr>dl_svh := svh\<rparr>"
  have 3: "linear_weight_loader cx conv ?l2 NoShard (CSvh svh) = Inr ?l3"
    using pieces_svh [of ?l2 svh 0] pos t(2) lens(3) ix span [of ?l2 "CSvh svh"] by (simp add: per_input_def loaded_out_def zero)
  have 4: "linear_weight_loader cx conv ?l3 NoShard (CMcg [v]) = Inr (?l3\<lparr>dl_mcg := map (\<lambda>_. v) [0..<?n]\<rparr>)"
    using every_mcg [of ?l3 0] lens(2) ix span [of ?l3 "CMcg [v]"] by (simp add: per_input_def)
  show ?thesis using 1 2 3 4 by simp
qed

text \<open>C8: A merged projection stored as one tensor.  Take a layer of two or more output shards that create_weights accepts on one rank, and the four tensors of an already fused checkpoint (one trellis, one pair of scale vectors, one marker), delivered without a shard id.  The loader splits them over the shards, the layer is finished, with coalescing or without, and its forward pass returns, for every batch and in every dispatch of the row count, exactly the rows of the product with the whole fused tensor.\<close>

theorem fused_checkpoint_product:
  fixes cx :: "('a, 'v) dense_ctx" and ly :: "('a, 'w, 'v) dense_layer"
  assumes c: "linear_contract ops cb rt" "decode_contract ops"
    and g: "dense_geometry cx [Some (dc_owner cx), Some (dc_param cx)] = Inr (0, 1)"
    and create: "linear_create_weights cx ni sizes = Inr ly" "1 < length sizes" "\<forall>s \<in> set sizes. 0 < s"
    and plain: "dl_bf16 ly = []" "dl_indexer ly = []"
    and t: "length tiles = rows" "0 < rows" "\<forall>row \<in> set tiles. length row = cols" "cols * 16 = sum_list sizes" "0 < k"
    and v: "length suh = ni" "length svh = sum_list sizes"
  shows "\<exists>ly' rd. fold_res (\<lambda>ly t. linear_weight_loader cx conv ly NoShard t) ly
      [CTrellis rows cols k tiles, CSuh suh, CSvh svh, CMcg [MCG_MARKER_SIGNED_INT32]] = Inr ly' \<and>
    linear_process_weights env fx ly' = Inr rd \<and>
    (\<forall>x. linear_apply_impl env rt rd x = Inr (map (\<lambda>r. map (lr_cast rt)
      (trellis_product ops (k div 16) (cb (Some MCG_MARKER_SIGNED_INT32) None)
        \<lparr>op_trellis = tiles, op_suh = suh, op_svh = svh\<rparr> (map (lr_half rt) r))) x))"
proof -
  have ly: "ly = fresh_layer cx ni sizes" and pad: "\<not> dl_padded ly" using created [OF create(1)] create(2) by auto
  then have sz: "map exl3_pad128 sizes = sizes" "exl3_pad128 ni = ni" by auto
  have m128: "\<forall>s \<in> set sizes. s mod 128 = 0" using pad128_mod sz(1) by (metis imageE list.set_map)
  then have m16: "\<forall>s \<in> set sizes. s mod 16 = 0" by (auto simp: mod_eq_0_iff_dvd intro: dvd_trans [of 16 128])
  have ds: "dl_sizes ly = sizes" "dl_in ly = ni" and mul1: "dl_mul1 ly = replicate (length sizes) 0" using ly sz by simp_all
  let ?n = "length sizes"
  let ?ly = "ly\<lparr>dl_trellis := map (trellis_piece sizes rows k tiles) [0..<?n], dl_suh := map (\<lambda>_. suh) [0..<?n], dl_svh := svh,
    dl_mcg := map (\<lambda>_. MCG_MARKER_SIGNED_INT32) [0..<?n]\<rparr>"
  have load: "fold_res (\<lambda>ly t. linear_weight_loader cx conv ly NoShard t) ly
      [CTrellis rows cols k tiles, CSuh suh, CSvh svh, CMcg [MCG_MARKER_SIGNED_INT32]] = Inr ?ly"
    using load_fused [OF g, of ly cols svh suh conv rows k tiles MCG_MARKER_SIGNED_INT32] create(2,3) m16 plain(2) t v ly sz ds by simp
  have piece: "slot_fits rows (sizes ! m) (trellis_piece sizes rows k tiles m)" "numel (trellis_piece sizes rows k tiles m) \<noteq> 0"
    if m: "m < ?n" for m
  proof -
    have "16 * (sizes ! m div 16) = sizes ! m" "0 < sizes ! m div 16" "offset_of sizes m div 16 + sizes ! m div 16 \<le> cols"
    proof -
      note b = piece_bounds [OF m16 m]
      have "0 < sizes ! m" using create(3) m by simp
      then show "0 < sizes ! m div 16" using b(1) by (cases "sizes ! m div 16 = 0") auto
      show "16 * (sizes ! m div 16) = sizes ! m" "offset_of sizes m div 16 + sizes ! m div 16 \<le> cols" using b t(4) by auto
    qed
    then show "slot_fits rows (sizes ! m) (trellis_piece sizes rows k tiles m)" "numel (trellis_piece sizes rows k tiles m) \<noteq> 0"
      using t by (auto simp: slot_fits_def trellis_piece_def part_def numel_def)
  qed
  have fits: "layer_fits rows ?ly"
    using piece m128 v(2) by (simp add: layer_fits_def ds)
  have mk: "marked ?ly" using ly by (simp add: marked_def check_shard_marker_def MCG_MARKER_SIGNED_INT32_def)
  obtain rd where rd: "linear_process_weights env fx ?ly = Inr rd" "\<forall>x. linear_apply_impl env rt rd x =
      Inr (map (\<lambda>r. map (lr_cast rt) (handles_row ops cb (map (shard_handle ?ly) [0..<?n]) (map (lr_half rt) r))) x)"
  proof -
    have "\<forall>m < length (dl_sizes ?ly). numel (dl_trellis ?ly ! m) \<noteq> 0" "dl_sizes ?ly \<noteq> []" "dl_bf16 ?ly = []" "\<not> dl_padded ?ly" "dl_indexer ?ly = []"
      using piece(2) create(2) plain pad by (auto simp: ds)
    from finished_rows [OF c fits this(1,2) mk this(3-5), of env fx env] show ?thesis using that by (auto simp: ds)
  qed
  have "handles_row ops cb (map (shard_handle ?ly) [0..<?n]) h =
      trellis_product ops (k div 16) (cb (Some MCG_MARKER_SIGNED_INT32) None) \<lparr>op_trellis = tiles, op_suh = suh, op_svh = svh\<rparr> h" for h
  proof -
    have "handle_row ops cb (shard_handle ?ly m) h = trellis_product ops (k div 16) (cb (Some MCG_MARKER_SIGNED_INT32) None)
        \<lparr>op_trellis = snd (trellis_piece sizes rows k tiles m), op_suh = suh, op_svh = part (offset_of sizes m) (sizes ! m) svh\<rparr> h"
      if m: "m < ?n" for m
      using m mul1 by (simp add: handle_row_def shard_handle_def operand_make bits_of_def shard_svh_def offset_of_Suc ds)
        (simp add: make_linear_exl3_def marker_or_none_def MCG_MARKER_SIGNED_INT32_def trellis_piece_def)
    then have "handles_row ops cb (map (shard_handle ?ly) [0..<?n]) h = concat (map (\<lambda>m. trellis_product ops (k div 16) (cb (Some MCG_MARKER_SIGNED_INT32) None)
        \<lparr>op_trellis = snd (trellis_piece sizes rows k tiles m), op_suh = suh, op_svh = part (offset_of sizes m) (sizes ! m) svh\<rparr> h) [0..<?n])"
      unfolding handles_row_def map_map comp_def by (intro arg_cong [where f = concat] map_cong refl) simp
    also have "\<dots> = trellis_product ops (k div 16) (cb (Some MCG_MARKER_SIGNED_INT32) None) \<lparr>op_trellis = tiles, op_suh = suh, op_svh = svh\<rparr> h"
      using create(2) t v m128 by (intro pieces_product [OF c(2) t(2)]) auto
    finally show ?thesis .
  qed
  then show ?thesis using load rd by auto
qed

lemma fused_checkpoint_product_witness:
  "\<exists>ly' rd. fold_res (\<lambda>ly t. linear_weight_loader (dense_cx 0 1 True) of_nat ly NoShard t) (fresh_layer (dense_cx 0 1 True) 128 [256, 128])
      [CTrellis 8 24 32 (replicate 8 (replicate 24 3)), CSuh (replicate 128 1), CSvh (replicate 384 2), CMcg [MCG_MARKER_SIGNED_INT32]] = Inr ly' \<and>
    linear_process_weights Map.empty tile_fx ly' = Inr rd \<and>
    (\<forall>x. linear_apply_impl Map.empty tile_rt rd x = Inr (map (\<lambda>r. map (lr_cast tile_rt)
      (trellis_product tile_torch 2 (marker_flags (Some MCG_MARKER_SIGNED_INT32) None)
        \<lparr>op_trellis = replicate 8 (replicate 24 3), op_suh = replicate 128 1, op_svh = replicate 384 2\<rparr> (map (lr_half tile_rt) r))) x))"
proof -
  have sizes: "exl3_pad128 128 = 128" "map exl3_pad128 [256, 128] = [256, 128]" by (simp_all add: exl3_pad128_def)
  have g: "dense_geometry (dense_cx 0 1 True) [Some (dc_owner (dense_cx 0 1 True)), Some (dc_param (dense_cx 0 1 True))] = Inr (0, 1)" by simp
  from fused_checkpoint_product [OF tile_contracts g dense_cx_created [OF sizes], of "replicate 8 (replicate 24 3)" 8 24 32 "replicate 128 1" "replicate 384 2" of_nat Map.empty tile_fx]
  show ?thesis by simp
qed

end
