(* ===== verification/Dense_Ranks.thy ===== *)
theory Dense_Ranks
  imports Dense_Linear
begin

text \<open>
  Dense linear layers over tensor-parallel ranks (\<open>Exl3LinearMethod\<close> in \<open>src/vllm_exl3/exl3.py\<close>): the ranks of a
  column-parallel layer compute the columns of the whole tensor; a QKV layer takes tensors with more heads than it
  has; the indexer shards of MiniMax-M3 are dequantized to the values of the e4m3 decoder, scaled per block; and the
  operator registry serves the layer last registered under a name.
\<close>

section \<open>Column-parallel ranks\<close>

lemma offset_of_replicate: "r \<le> n \<Longrightarrow> offset_of (replicate n s) r = s * r"
  by (simp add: offset_of_def sum_list_replicate)

lemma equal_range:
  assumes "0 < tp" "n = tp * c"
  shows "narrow_range env n r tp u False = Inr (if tp = 1 then None else Some (c * r, c))"
  using assms by (cases "tp = 1") (auto simp: narrow_range_def)

text \<open>What one rank keeps of the four tensors of a layer with one shard.\<close>

lemma load_rank:
  assumes g: "dense_geometry cx [Some (dc_owner cx), Some (dc_param cx)] = Inr (r, tp)" "1 < tp" "r < tp" "\<not> dc_row cx" "\<not> dc_qkv cx"
    and ly: "dl_sizes ly = [s]" "s mod 16 = 0" "dl_indexer ly = []" "dl_trellis ly = [([0], [])]" "length (dl_suh ly) = 1" "length (dl_mcg ly) = 1"
      "length (dl_svh ly) = s"
    and t: "cols * 16 = tp * s" "length svh = tp * s" "length suh = dl_in ly"
  shows "fold_res (\<lambda>ly t. linear_weight_loader cx conv ly NoShard t) ly [CTrellis rows cols k tiles, CSuh suh, CSvh svh, CMcg [v]] =
    Inr (ly\<lparr>dl_trellis := [([rows, s div 16, k], map (part (s div 16 * r) (s div 16)) tiles)], dl_suh := [suh],
      dl_svh := part (s * r) s svh, dl_mcg := [v]\<rparr>)"
proof -
  have c: "cols = tp * (s div 16)" using t(1) ly(2) by auto
  have loader: "linear_weight_loader cx conv l NoShard t = load_shard cx conv (r, tp) l 0 t" if "dl_sizes l = [s]"
    for l :: "('a, 'c, 'b) dense_layer" and t
    using that by (simp add: linear_weight_loader_def g span_ids_def shard_index_def)
  have geo: "shard_geometry cx (r, tp) n e = Inr (r, tp)" for n e using g by (simp add: shard_geometry_def)
  have svh: "(r + 1) * s \<le> tp * s" using g(3) by (intro mult_right_mono) auto
  have tr: "tp_sharded cx (r, tp) (Trellis rows cols tiles) Trellis_s =
      Inr (Trellis rows (s div 16) (map (part (s div 16 * r) (s div 16)) tiles))"
    using g equal_range [of tp cols "s div 16" "dc_env cx" r 16] c
    by (simp add: tp_sharded_def shard_exl3_col_def outside_def map_ok_def range_len_def narrow_def part_def fun_eq_iff)
  have sv: "tp_sharded cx (r, tp) (Vector svh) Svh = Inr (Vector (part (s * r) s svh))"
    using g equal_range [of tp "length svh" s "dc_env cx" r 1] t(2)
    by (simp add: tp_sharded_def shard_exl3_col_def outside_def map_ok_def narrow_def part_def)
  have len: "length (part (s * r) s svh) = s" using t(2) svh by (simp add: part_def algebra_simps)
  show ?thesis
    using ly t(3) g
    by (simp add: loader load_shard_def geo tr sv tp_sharded_suh len store_slot_def numel_def map_ok_def marker_value_def put_at_def
        offset_of_def length_Suc_conv) auto
qed

text \<open>The part of one rank, finished.\<close>

definition rank_row ::
  "('a, 'c) torch_ops \<Rightarrow> nat \<Rightarrow> bool \<times> bool \<Rightarrow> nat \<Rightarrow> 'a list list \<Rightarrow> 'a list \<Rightarrow> 'a list \<Rightarrow> nat \<Rightarrow> arow \<Rightarrow> arow"
where
  "rank_row ops k codebook s tiles suh svh r h = trellis_product ops k codebook
     \<lparr>op_trellis = map (part (s div 16 * r) (s div 16)) tiles, op_suh = suh, op_svh = part (s * r) s svh\<rparr> h"

lemma created_rank:
  assumes "linear_create_weights cx ni [s] = Inr ly" "dense_geometry cx [Some (dc_owner cx)] = Inr (r, tp)" "1 < tp"
  shows "ly = fresh_layer cx ni [s]" "exl3_pad128 s = s" "exl3_pad128 ni = ni" "dl_indexer ly = []" "s mod 128 = 0" "16 * (s div 16) = s"
proof -
  have "one_rank cx NotImplementedError = Inl NotImplementedError" using assms by (simp add: one_rank_def when_res_def)
  then have "\<not> dl_padded ly" using created(2) [OF assms(1)] by auto
  moreover show "ly = fresh_layer cx ni [s]" using created(1) [OF assms(1)] .
  ultimately show p: "exl3_pad128 s = s" "exl3_pad128 ni = ni" "dl_indexer ly = []"
    by (simp_all add: fresh_layer_def Let_def indexer_shards_of_def)
  show m: "s mod 128 = 0" using pad128_mod [of s] p(1) by simp
  then have "16 dvd s" by (auto simp: mod_eq_0_iff_dvd intro: dvd_trans [of 16 128])
  then show "16 * (s div 16) = s" by simp
qed

lemma rank_bounds:
  fixes r tp s cols :: nat
  assumes "r < tp" "cols * 16 = tp * s" "16 * (s div 16) = s"
  shows "s * r + s \<le> tp * s" "s div 16 * r + s div 16 \<le> cols"
proof -
  have m: "(r + 1) * a \<le> tp * a" for a using assms(1) by (intro mult_right_mono) auto
  have "16 * cols = 16 * (tp * (s div 16))" using assms(2,3) by (metis mult.assoc mult.commute)
  then have "cols = tp * (s div 16)" by simp
  then show "s * r + s \<le> tp * s" "s div 16 * r + s div 16 \<le> cols" using m [of s] m [of "s div 16"] by (simp_all add: algebra_simps)
qed

lemma rank_rows:
  fixes cx :: "('a, 'v) dense_ctx" and ly :: "('a, 'w, 'v) dense_layer"
  assumes c: "linear_contract ops cb rt" "decode_contract ops" and tp: "1 < tp" "r < tp"
    and g: "dense_geometry cx [Some (dc_owner cx)] = Inr (r, tp)" "dense_geometry cx [Some (dc_owner cx), Some (dc_param cx)] = Inr (r, tp)"
      "\<not> dc_row cx" "\<not> dc_qkv cx"
    and create: "linear_create_weights cx ni [s] = Inr ly" "dl_bf16 ly = []" "0 < s"
    and t: "length tiles = rows" "0 < rows" "\<forall>row \<in> set tiles. length row = cols" "cols * 16 = tp * s" "0 < k"
    and v: "length suh = ni" "length svh = tp * s"
  shows "\<exists>rd. bind_res (fold_res (\<lambda>ly t. linear_weight_loader cx conv ly NoShard t) ly
        [CTrellis rows cols k tiles, CSuh suh, CSvh svh, CMcg [MCG_MARKER_SIGNED_INT32]]) (linear_process_weights env fx) = Inr rd \<and>
      (\<forall>x. linear_apply_impl env rt rd x =
        Inr (map (\<lambda>h. map (lr_cast rt) (rank_row ops (k div 16) (cb (Some MCG_MARKER_SIGNED_INT32) None) s tiles suh svh r (map (lr_half rt) h))) x))"
proof -
  note l = created_rank [OF create(1) g(1) tp(1)] and le = rank_bounds [OF tp(2) t(4)]
  have ds: "dl_sizes ly = [s]" "dl_in ly = ni" "dl_mul1 ly = [0]" "dl_trellis ly = [([0], [])]" "length (dl_suh ly) = 1"
    "length (dl_mcg ly) = 1" "length (dl_svh ly) = s" "\<not> dl_padded ly"
    using l(1-3) by simp_all
  let ?ly = "ly\<lparr>dl_trellis := [([rows, s div 16, k], map (part (s div 16 * r) (s div 16)) tiles)], dl_suh := [suh],
    dl_svh := part (s * r) s svh, dl_mcg := [MCG_MARKER_SIGNED_INT32]\<rparr>"
  have load: "fold_res (\<lambda>ly t. linear_weight_loader cx conv ly NoShard t) ly
      [CTrellis rows cols k tiles, CSuh suh, CSvh svh, CMcg [MCG_MARKER_SIGNED_INT32]] = Inr ?ly"
    by (rule load_rank [where r = r and tp = tp and cols = cols]) (use g tp l(4) ds t v l(6) mod_mult_self1_is_0 [of 16 "s div 16"] in \<open>simp_all add: mult.commute\<close>)
  have "slot_fits rows s (dl_trellis ?ly ! 0)" using t le [OF l(6)] l(6) by (auto simp: slot_fits_def part_def)
  then have fits: "layer_fits rows ?ly" using v le [OF l(6)] l(5) by (simp add: layer_fits_def ds part_def)
  have mk: "marked ?ly" by (simp add: marked_def ds check_shard_marker_def MCG_MARKER_SIGNED_INT32_def)
  have "0 < s div 16" using create(3) l(6) by (cases "s div 16 = 0") auto
  then have plain: "dl_bf16 ?ly = []" "\<not> dl_padded ?ly" "dl_indexer ?ly = []" "dl_sizes ?ly \<noteq> []" "\<forall>i < length (dl_sizes ?ly). numel (dl_trellis ?ly ! i) \<noteq> 0"
    using create ds l(4) t(2,5) by (auto simp: numel_def)
  obtain rd where rd: "linear_process_weights env fx ?ly = Inr rd" "\<forall>x. linear_apply_impl env rt rd x =
      Inr (map (\<lambda>h. map (lr_cast rt) (handles_row ops cb (map (shard_handle ?ly) [0..<length (dl_sizes ?ly)]) (map (lr_half rt) h))) x)"
    using finished_rows [OF c fits plain(5,4) mk plain(1-3), of env fx env] by blast
  have "handles_row ops cb (map (shard_handle ?ly) [0..<length (dl_sizes ?ly)]) h =
      rank_row ops (k div 16) (cb (Some MCG_MARKER_SIGNED_INT32) None) s tiles suh svh r h" for h
    using v le [OF l(6)] by (simp add: handles_row_def handle_row_def shard_handle_def operand_make bits_of_def shard_svh_def ds offset_of_def part_def rank_row_def)
      (simp add: make_linear_exl3_def marker_or_none_def MCG_MARKER_SIGNED_INT32_def)
  then show ?thesis using load rd by simp
qed

lemma ranks_whole:
  assumes c: "decode_contract ops" and s: "s mod 128 = 0" "0 < tp"
    and t: "length tiles = rows" "0 < rows" "\<forall>row \<in> set tiles. length row = cols" "cols * 16 = tp * s" "length svh = tp * s"
  shows "concat (map (\<lambda>r. rank_row ops k codebook s tiles suh svh r h) [0..<tp]) =
    trellis_product ops k codebook \<lparr>op_trellis = tiles, op_suh = suh, op_svh = svh\<rparr> h"
proof -
  let ?sizes = "replicate tp s"
  have "concat (map (\<lambda>m. trellis_product ops k codebook \<lparr>op_trellis = snd (trellis_piece ?sizes rows k tiles m), op_suh = suh,
      op_svh = part (offset_of ?sizes m) (?sizes ! m) svh\<rparr> h) [0..<length ?sizes]) =
    trellis_product ops k codebook \<lparr>op_trellis = tiles, op_suh = suh, op_svh = svh\<rparr> h"
    using s t by (intro pieces_product [OF c t(2)]) (auto simp: sum_list_replicate)
  moreover have "rank_row ops k codebook s tiles suh svh m h = trellis_product ops k codebook
      \<lparr>op_trellis = snd (trellis_piece ?sizes rows k tiles m), op_suh = suh, op_svh = part (offset_of ?sizes m) (?sizes ! m) svh\<rparr> h" if "m < tp" for m
  proof -
    have "16 dvd s" using s(1) by (auto simp: mod_eq_0_iff_dvd intro: dvd_trans [of 16 128])
    then have "s * m div 16 = s div 16 * m" by auto
    then show ?thesis using that by (simp add: trellis_piece_def offset_of_replicate rank_row_def)
  qed
  then have "map (\<lambda>r. rank_row ops k codebook s tiles suh svh r h) [0..<tp] = map (\<lambda>m. trellis_product ops k codebook
      \<lparr>op_trellis = snd (trellis_piece ?sizes rows k tiles m), op_suh = suh, op_svh = part (offset_of ?sizes m) (?sizes ! m) svh\<rparr> h) [0..<length ?sizes]"
    by (intro map_cong) auto
  ultimately show ?thesis by (simp only:)
qed

text \<open>C12: Tensor parallelism cuts no block.  On every rank of a column-parallel layer of one shard that create_weights accepts (the refusal of padded sizes on more than one rank is what keeps the cut on blocks of 128 outputs), the loader takes the rank's part of the checkpoint's four tensors, the layer is finished, and the rows of all ranks side by side are exactly the rows of the product with the whole tensor, whatever dispatch each rank uses.\<close>

theorem ranks_concatenate:
  fixes cx :: "nat \<Rightarrow> ('a, 'v) dense_ctx" and ly :: "nat \<Rightarrow> ('a, 'w, 'v) dense_layer"
  assumes c: "linear_contract ops cb rt" "decode_contract ops" and tp: "1 < tp"
    and g: "\<forall>r < tp. dense_geometry (cx r) [Some (dc_owner (cx r))] = Inr (r, tp) \<and>
      dense_geometry (cx r) [Some (dc_owner (cx r)), Some (dc_param (cx r))] = Inr (r, tp) \<and> \<not> dc_row (cx r) \<and> \<not> dc_qkv (cx r)"
    and create: "\<forall>r < tp. linear_create_weights (cx r) ni [s] = Inr (ly r) \<and> dl_bf16 (ly r) = []" "0 < s"
    and t: "length tiles = rows" "0 < rows" "\<forall>row \<in> set tiles. length row = cols" "cols * 16 = tp * s" "0 < k"
    and v: "length suh = ni" "length svh = tp * s"
  shows "\<exists>rd. (\<forall>r < tp. bind_res (fold_res (\<lambda>ly t. linear_weight_loader (cx r) conv ly NoShard t) (ly r)
        [CTrellis rows cols k tiles, CSuh suh, CSvh svh, CMcg [MCG_MARKER_SIGNED_INT32]]) (linear_process_weights (env r) (fx r)) = Inr (rd r)) \<and>
    (\<forall>x. \<exists>out. (\<forall>r < tp. linear_apply_impl (env r) rt (rd r) x = Inr (out r)) \<and>
      map (\<lambda>j. concat (map (\<lambda>r. out r ! j) [0..<tp])) [0..<length x] =
        map (\<lambda>h. map (lr_cast rt) (trellis_product ops (k div 16) (cb (Some MCG_MARKER_SIGNED_INT32) None)
          \<lparr>op_trellis = tiles, op_suh = suh, op_svh = svh\<rparr> (map (lr_half rt) h))) x)"
proof -
  let ?cb = "cb (Some MCG_MARKER_SIGNED_INT32) None" and ?ts = "[CTrellis rows cols k tiles, CSuh suh, CSvh svh, CMcg [MCG_MARKER_SIGNED_INT32]]"
  let ?out = "\<lambda>x r. map (\<lambda>h. map (lr_cast rt) (rank_row ops (k div 16) ?cb s tiles suh svh r (map (lr_half rt) h))) x"
  have "\<exists>rd. bind_res (fold_res (\<lambda>ly t. linear_weight_loader (cx r) conv ly NoShard t) (ly r) ?ts) (linear_process_weights (env r) (fx r)) = Inr rd \<and>
      (\<forall>x. linear_apply_impl (env r) rt rd x = Inr (?out x r))" if r: "r < tp" for r
    using g create(1) r by (intro rank_rows [OF c tp r _ _ _ _ _ _ create(2) t v]) auto
  then obtain rd where rd: "\<forall>r < tp. bind_res (fold_res (\<lambda>ly t. linear_weight_loader (cx r) conv ly NoShard t) (ly r) ?ts)
      (linear_process_weights (env r) (fx r)) = Inr (rd r) \<and> (\<forall>x. linear_apply_impl (env r) rt (rd r) x = Inr (?out x r))" by metis
  have s: "s mod 128 = 0" using created_rank(5) [of "cx 0" ni s "ly 0" 0 tp] create(1) g tp by simp
  have "concat (map (\<lambda>r. map (lr_cast rt) (rank_row ops (k div 16) ?cb s tiles suh svh r h)) [0..<tp]) =
      map (lr_cast rt) (trellis_product ops (k div 16) ?cb \<lparr>op_trellis = tiles, op_suh = suh, op_svh = svh\<rparr> h)" for h
  proof -
    have "concat (map (\<lambda>r. map f (w r)) rs) = map f (concat (map w rs))" for f :: "rat \<Rightarrow> rat" and w :: "nat \<Rightarrow> arow" and rs
      by (simp add: map_concat comp_def)
    then show ?thesis using ranks_whole [OF c(2) s _ t(1-4) v(2), of "k div 16" ?cb suh h] tp by simp
  qed
  then have "map (\<lambda>j. concat (map (\<lambda>r. ?out x r ! j) [0..<tp])) [0..<length x] =
      map (\<lambda>h. map (lr_cast rt) (trellis_product ops (k div 16) ?cb \<lparr>op_trellis = tiles, op_suh = suh, op_svh = svh\<rparr> (map (lr_half rt) h))) x" for x
    by (intro nth_equalityI) simp_all
  then have "\<exists>out. (\<forall>r < tp. linear_apply_impl (env r) rt (rd r) x = Inr (out r)) \<and>
      map (\<lambda>j. concat (map (\<lambda>r. out r ! j) [0..<tp])) [0..<length x] = map (\<lambda>h. map (lr_cast rt) (trellis_product ops (k div 16) ?cb
        \<lparr>op_trellis = tiles, op_suh = suh, op_svh = svh\<rparr> (map (lr_half rt) h))) x" for x
    using rd by (intro exI [of _ "?out x"]) simp
  then show ?thesis using rd by blast
qed

lemma ranks_concatenate_witness:
  "\<exists>rd. (\<forall>r < 2. bind_res (fold_res (\<lambda>ly t. linear_weight_loader (dense_cx r 2 False) of_nat ly NoShard t) (fresh_layer (dense_cx r 2 False) 128 [128])
        [CTrellis 8 16 32 (replicate 8 (replicate 16 3)), CSuh (replicate 128 1), CSvh (replicate 256 2), CMcg [MCG_MARKER_SIGNED_INT32]])
        (linear_process_weights Map.empty tile_fx) = Inr (rd r)) \<and>
    (\<forall>x. \<exists>out. (\<forall>r < 2. linear_apply_impl Map.empty tile_rt (rd r) x = Inr (out r)) \<and>
      map (\<lambda>j. concat (map (\<lambda>r. out r ! j) [0..<2])) [0..<length x] =
        map (\<lambda>h. map (lr_cast tile_rt) (trellis_product tile_torch 2 (marker_flags (Some MCG_MARKER_SIGNED_INT32) None)
          \<lparr>op_trellis = replicate 8 (replicate 16 3), op_suh = replicate 128 1, op_svh = replicate 256 2\<rparr> (map (lr_half tile_rt) h))) x)"
proof -
  have sizes: "exl3_pad128 128 = 128" "map exl3_pad128 [128] = [128]" by (simp_all add: exl3_pad128_def)
  have flat: "\<not> dc_row (dense_cx r 2 False)" "\<not> dc_qkv (dense_cx r 2 False)" for r by (simp_all add: dense_cx_def)
  show ?thesis
    using ranks_concatenate [OF tile_contracts, of 2 "\<lambda>r. dense_cx r 2 False" 128 128 "\<lambda>r. fresh_layer (dense_cx r 2 False) 128 [128]"
        "replicate 8 (replicate 16 3)" 8 16 32 "replicate 128 1" "replicate 256 2" of_nat "\<lambda>_. Map.empty" "\<lambda>_. tile_fx"]
      flat by (simp add: dense_cx_created [OF sizes])
qed

section \<open>Tensors with more heads than the layer\<close>

text \<open>C39: A QKV layer takes surplus heads silently.  On one rank, a shard of a QKV layer that receives an output scale vector of a whole multiple of its outputs keeps the first part and drops the rest, and likewise for the columns of its trellis, because the number of ranks of the split is taken from the tensor; any other layer refuses the same scale vector.\<close>

theorem qkv_surplus_dropped:
  assumes g: "dense_geometry cx [Some (dc_owner cx), Some (dc_param cx)] = Inr (0, 1)" "\<not> dc_row cx"
    and i: "i < length (dl_sizes ly)" "i \<notin> set (dl_indexer ly)" "0 < c" "dl_sizes ly ! i = 16 * c" and m: "2 \<le> m"
    and xs: "length xs = m * dl_sizes ly ! i" and slot: "numel (dl_trellis ly ! i) = 0"
  shows "(dc_qkv cx \<longrightarrow>
      linear_weight_loader cx conv ly (ShardIdx i) (CSvh xs) =
        Inr (ly\<lparr>dl_svh := put_at (offset_of (dl_sizes ly) i) (take (dl_sizes ly ! i) xs) (dl_svh ly)\<rparr>) \<and>
      linear_weight_loader cx conv ly (ShardIdx i) (CTrellis rows (m * c) k tiles) =
        Inr (ly\<lparr>dl_trellis := (dl_trellis ly)[i := ([rows, c, k], map (take c) tiles)]\<rparr>)) \<and>
    (\<not> dc_qkv cx \<longrightarrow> linear_weight_loader cx conv ly (ShardIdx i) (CSvh xs) = Inl RuntimeError)"
proof -
  have loader: "linear_weight_loader cx conv ly (ShardIdx i) t = load_shard cx conv (0, 1) ly i t" for t
    by (simp add: linear_weight_loader_def g span_ids_def shard_index_def)
  have geo: "shard_geometry cx (0, 1) (m * dl_sizes ly ! i) (dl_sizes ly ! i) = Inr (0, m)" if "dc_qkv cx"
    using that g i m by (simp add: shard_geometry_def)
  have rng: "narrow_range (dc_env cx) (m * e) 0 m u False = Inr (Some (0, e))" for e u
    using m by (simp add: narrow_range_def)
  have tr: "tp_sharded cx (0, m) (Trellis rows (m * c) tiles) Trellis_s = Inr (Trellis rows c (map (take c) tiles))"
    using g m by (simp add: tp_sharded_def shard_exl3_col_def outside_def map_ok_def rng range_len_def narrow_def fun_eq_iff)
  have sv: "tp_sharded cx (0, m) (Vector xs) Svh = Inr (Vector (take (dl_sizes ly ! i) xs))"
    using g m by (simp add: tp_sharded_def shard_exl3_col_def outside_def map_ok_def rng xs narrow_def)
  have geo16: "shard_geometry cx (0, 1) (m * c * 16) (dl_sizes ly ! i) = Inr (0, m)" if "dc_qkv cx"
    using geo [OF that] by (simp add: i(4) mult.assoc mult.commute [of c 16])
  have "load_shard cx conv (0, 1) ly i (CTrellis rows (m * c) k tiles) =
      Inr (ly\<lparr>dl_trellis := (dl_trellis ly)[i := ([rows, c, k], map (take c) tiles)]\<rparr>)" if "dc_qkv cx"
    using geo16 [OF that] i slot by (simp add: load_shard_def tr store_slot_def map_ok_def)
  moreover have "load_shard cx conv (0, 1) ly i (CSvh xs) =
      Inr (ly\<lparr>dl_svh := put_at (offset_of (dl_sizes ly) i) (take (dl_sizes ly ! i) xs) (dl_svh ly)\<rparr>)" if "dc_qkv cx"
    using geo [OF that] i m xs by (simp add: load_shard_def sv)
  moreover have "load_shard cx conv (0, 1) ly i (CSvh xs) = Inl RuntimeError" if "\<not> dc_qkv cx"
    using that i m xs by (simp add: load_shard_def shard_geometry_def tp_sharded_one)
  ultimately show ?thesis by (simp add: loader)
qed

lemma qkv_surplus_dropped_witness:
  "\<exists>ly' :: (nat, nat, rat) dense_layer.
    linear_weight_loader (dense_cx 0 1 True) of_nat (fresh_layer (dense_cx 0 1 True) 128 [128, 128, 128]) (ShardIdx 1)
      (CSvh (replicate 128 7 @ replicate 128 9)) = Inr ly' \<and>
    dl_svh ly' = replicate 128 0 @ replicate 128 7 @ replicate 128 0"
proof -
  have sizes: "map exl3_pad128 [128, 128, 128] = [128, 128, 128]" by (simp add: exl3_pad128_def)
  have memory: "dl_svh (fresh_layer (dense_cx 0 1 True) 128 [128, 128, 128] :: (nat, nat, rat) dense_layer) = replicate 384 0"
    by (simp add: fresh_layer_def Let_def exl3_pad128_def dense_cx_def map_replicate_const)
  have flags: "\<not> dc_row (dense_cx 0 1 True)" "dc_qkv (dense_cx 0 1 True)" by (simp_all add: dense_cx_def)
  show ?thesis
    using qkv_surplus_dropped [OF dense_cx_geometry(2) flags(1), of 1 "fresh_layer (dense_cx 0 1 True) 128 [128, 128, 128]" 8 2
        "replicate 128 7 @ replicate 128 9" of_nat 8 32 "[]"] flags(2) sizes memory
    by (simp add: offset_of_def numel_def put_at_def)
qed

section \<open>Dequantized indexer weights\<close>

lemma bits_to_float_decode: "e4m3_bits_to_float b = (case e4m3_decode b of None \<Rightarrow> NaN | Some v \<Rightarrow> Fin v)"
  by (simp add: e4m3_bits_to_float_def e4m3_decode_def Let_def)

lemma e4m3_mag_bound: "c \<le> 126 \<Longrightarrow> 0 \<le> e4m3_mag c \<and> e4m3_mag c \<le> 448"
proof -
  assume "c \<le> 126"
  have "e4m3_mag c \<le> e4m3_mag 126" using lift_Suc_mono_le [of e4m3_mag, OF _ \<open>c \<le> 126\<close>] e4m3_mag_step less_imp_le by blast
  then show ?thesis by (simp add: e4m3_mag_def)
qed

lemma e4m3_decode_bound: "e4m3_decode b = Some v \<Longrightarrow> \<bar>v\<bar> \<le> 448"
proof -
  assume a: "e4m3_decode b = Some v"
  define c where "c = b mod 128"
  have same: "e4m3_decode (b mod 256) = e4m3_decode b" by (simp add: e4m3_decode_def and_masks)
  have "b mod 256 = c \<or> b mod 256 = c + 128" using mod_mult2_eq [of b 128 2] by (auto simp: c_def)
  moreover have "c \<noteq> 127" using a by (auto simp: e4m3_decode_def and_masks c_def mod_mod_cancel split: if_splits)
  then have "c \<le> 126" by (simp add: c_def)
  ultimately show ?thesis using e4m3_decode_code [of c] e4m3_mag_bound [of c] a same by auto
qed

text \<open>C40: The dequantized indexer weights are the exact products.  Where the dequantization accepts a payload and a scale block, the weight has the payload's shape, and every weight whose code is a number and whose scale byte is at most 246 is the bfloat16 conversion of exactly the value the codec of the KV cache decodes from that byte, times two to the scale byte of its block of 32 inputs minus 127.\<close>

theorem indexer_dequant_exact:
  assumes d: "dequant_minimax_indexer conv (cols, codes) (u8, sc_cols, sc) = Inr (cols', w)"
    and rj: "r < length codes" "j < cols" and v: "e4m3_decode (codes ! r ! j) = Some v"
    and b: "sc ! r ! (j div 32) = int e" "e \<le> 246"
  shows "cols' = cols \<and> length w = length codes \<and> length (w ! r) = cols \<and> w ! r ! j = conv (Fin (v * 2 ^ e / 2 ^ 127))"
proof -
  have len: "length sc = length codes" and w: "cols' = cols"
    "w = map2 (\<lambda>row s. map (\<lambda>j. conv (times_descale (e4m3_bits_to_float (row ! j)) (s ! (j div MINIMAX_MXFP8_BLOCK)))) [0..<cols]) codes sc"
    using d by (auto simp: dequant_minimax_indexer_def Let_def split: if_splits)
  have "(2 :: rat) ^ e \<le> 2 ^ 246" using b(2) by (intro power_increasing) auto
  then have "\<bar>v\<bar> * 2 ^ e \<le> 448 * 2 ^ 246" using e4m3_decode_bound [OF v] by (intro mult_mono) auto
  then have lt: "\<bar>v * 2 ^ e / 2 ^ 127\<bar> < 2 ^ 128" by (simp add: abs_mult)
  have "times_descale (Fin v) (int e) = Fin (v * 2 ^ e / 2 ^ 127)"
    using lt b(2) by (auto simp: times_descale_def Let_def abs_less_iff)
  then show ?thesis
    using rj len v b(1) by (simp add: w bits_to_float_decode MINIMAX_MXFP8_BLOCK_def)
qed

lemma indexer_dequant_exact_witness:
  "\<exists>w. dequant_minimax_indexer id (32, [replicate 32 56]) (True, 1, [[130]]) = Inr (32, w) \<and> w ! 0 ! 5 = Fin 8"
proof -
  obtain w where w: "dequant_minimax_indexer id (32, [replicate 32 56]) (True, 1, [[130]]) = Inr (32, w)"
    by (simp add: dequant_minimax_indexer_def MINIMAX_MXFP8_BLOCK_def)
  have "e4m3_decode 56 = Some 1" by code_simp
  then have "w ! 0 ! 5 = id (Fin (1 * 2 ^ 130 / 2 ^ 127))"
    using indexer_dequant_exact [OF w, of 0 5 1 130] by simp
  then show ?thesis using w by simp
qed

section \<open>The operator registry\<close>

text \<open>The operator serves the layer and the method it was registered with, until the name is registered again.\<close>

lemma opaque_serves_last:
  assumes "exl3_register_opaque_layer kind names ident layer (Some m) own reg = (name, reg')"
  shows "exl3_linear_forward_op own run reg' name x = run m layer x"
  using assms by (auto simp: exl3_register_opaque_layer_def exl3_linear_forward_op_def Let_def)

lemma opaque_keeps_others:
  assumes "exl3_register_opaque_layer kind names ident layer m own reg = (name, reg')" "name' \<noteq> name"
  shows "exl3_linear_forward_op own run reg' name' x = exl3_linear_forward_op own run reg name' x"
  using assms by (auto simp: exl3_register_opaque_layer_def exl3_linear_forward_op_def Let_def split: option.splits)

text \<open>Layers of one kind with the same prefix share a name, whatever their identity.\<close>

lemma opaque_names_collide:
  assumes "stable_name names ident = stable_name names' ident'"
    and "exl3_register_opaque_layer kind names ident first (Some m) own reg = (name, reg1)"
    and "exl3_register_opaque_layer kind names' ident' second (Some m') own reg1 = (name', reg2)"
  shows "exl3_linear_forward_op own run reg2 name x = run m' second x"
  using assms by (auto simp: exl3_register_opaque_layer_def exl3_linear_forward_op_def Let_def)

end
