(* ===== verification/Spec2Isabelle.thy ===== *)
theory Spec2Isabelle
  imports Expert_Bank Expert_Cache Sched_Policy Weight_Routing Moe_Finish Host_Copy Exl3_Config Ngram_Table
  Q4kv_Prefill Moe_Dispatch Dense_Ranks
begin

text \<open>
  A verification development for vllm-exl3, a vLLM plugin that serves EXL3 trellis-quantized models
  (\<open>src/vllm_exl3/\<close>), and for its NVMe expert-streaming experiment (\<open>experiments/dsv41_nvme/\<close>).

  \<^bold>\<open>The program.\<close>  vLLM builds a model and asks the plugin's config for a quantization method per layer
  (\<open>Exl3Config.get_quant_method\<close>).  A routed-expert layer allocates its parameters, optionally plans one
  arena per trellis shape from the checkpoint headers, receives the checkpoint tensors by name, cuts out its
  tensor-parallel shard, and after the last tensor is stitched into per-expert handles for the kernels.  An
  n-gram embedding layer keeps its table packed and decodes the rows of a lookup.  The scheduler reads the
  speculative draft policy.  The streaming experiment packs experts into a bank file, reads records with
  bounded direct reads and keeps them in a cache of arena regions with leases.

  \<^bold>\<open>The theories and the code.\<close>
  \<^item> \<open>Prelude\<close>: exceptions as values (\<open>exn\<close>, \<open>res\<close>), loops that stop at an exception, components with
    invariants, intervals.  \<open>Ordered_Dict\<close>: Python dictionaries and \<open>OrderedDict\<close> as association lists in
    insertion order.  \<open>Py_Text\<close>: the string operations and number parsing of Python that the code uses.
  \<^item> \<open>Expert_Store\<close>, \<open>Expert_Bank\<close>, \<open>Arena_Regions\<close>, \<open>Expert_Cache\<close>: \<open>expert_store.py\<close> and
    \<open>expert_cache.py\<close>.  The store is the record \<open>estore\<close>, the cache the record \<open>cache\<close> with a trace of the
    device events it settles; the bank builder is shown to produce what the store accepts and reads back.
  \<^item> \<open>Sched_Policy\<close>: speculative schedules, candidate filtering and context scaling of \<open>exl3.py\<close>.
  \<^item> \<open>TP_Geometry\<close>: block splitting, rotation and shard slices of \<open>exl3.py\<close>, \<open>tp_geometry_compat.py\<close> and
    \<open>mixed_k_guard.py\<close>.  \<open>Trellis_Arena\<close>: planning, direct fill and load-end packing of the arenas.
    \<open>Trellis_Prescan\<close>: the header scan that feeds the plan.  \<open>Moe_Names\<close>, \<open>Weight_Routing\<close>: names.
  \<^item> \<open>Moe_Loader\<close>: \<open>create_weights\<close>, \<open>_load_exl3\<close> and the routed-experts loader; \<open>Moe_Finish\<close>:
    \<open>process_weights_after_loading\<close>.  \<open>Host_Copy\<close>: the bounce copy as a step relation of the program and
    the device queue, and the address ranges given to the kernel.
  \<^item> \<open>Moe_Experts\<close>: local expert ids and the loop over experts; \<open>Moe_State\<close>: the launch state of the fused
    kernels, with the groups of one bit width and their packed numbering.  \<open>Moe_Fused\<close>: the dispatch itself, from
    \<open>apply_exl3_experts\<close> to the arguments of every launch (native, cooperative, batched, per group, experts with
    many rows).  \<open>Moe_Contract\<close>: what the dispatch relies on in the kernels, and the sums it then computes;
    \<open>Moe_Dispatch\<close>: the properties of the dispatch and the places where its paths differ.
  \<^item> \<open>Dense_Load\<close>, \<open>Dense_Finish\<close>: \<open>Exl3LinearMethod\<close>, from \<open>create_weights\<close> and the weight loaders to the
    handles, the MXFP8 indexer shards of MiniMax-M3, the forward pass and the registry of the opaque operator.
    \<open>Dense_Contract\<close>: what it relies on in the kernels, and the rows of joined handles; \<open>Dense_Linear\<close>,
    \<open>Dense_Ranks\<close>: its properties on one rank and on several.
  \<^item> \<open>Exl3_Config\<close>: \<open>Exl3Config\<close>, from the parsed JSON to the method of each layer.
  \<^item> \<open>Ngram_Codec\<close>, \<open>Ngram_Table\<close>: the row codec on 16-bit words and \<open>Exl3EmbeddingMethod\<close>.
  \<^item> \<open>Q4kv_Codec\<close>, \<open>Q4kv_Page\<close>, \<open>Q4kv_Staging\<close>, \<open>Q4kv_Plan\<close>: the codec of the 4-bit KV cache, its
    pages, the staging of selected pages and the planner of the prefill (\<open>minimax_q4kv_reference.py\<close>).
    \<open>Q4kv_Kernels\<close>: the staging kernel as the stores of its programs, and its launcher
    (\<open>minimax_q4kv_kernels.py\<close>).  \<open>Q4kv_Overlay\<close>: the guards of the hooks and their installation;
    \<open>Q4kv_Prefill\<close>: the attention oracle and the prefill wrapper (\<open>minimax_q4kv.py\<close>).

  \<^bold>\<open>What the lemmas show.\<close>  The bank round-trips and satisfies the store's own checks; reads terminate; an
  arena slot of the cache is reused only after the events of its last use; tensor-parallel shards tile the
  dimension; a layer filled through planned arenas equals one that is staged and packed; a well-formed
  checkpoint always loads and each tensor changes one cell; a finished layer is complete and marked; the bounce
  buffer is never overwritten while the device reads it and the copy always finishes; an accepted config only
  has supported widths, and derived coverage is the ledger's; trellis states shift around the ring; disk mode
  of the n-gram table gives the resident mode's rows; the e4m3 encoder rounds every pattern correctly; the two
  prefill planners agree, and their slices cover the queries, stage what they select and keep positions; pages
  round-trip, and the two fills and the kernel, in any order of its programs, stage the same; the sliced
  prefill computes the rows of one call on the whole staged pool; whichever kernels the
  routed experts are dispatched to, the rows are those of the loop over experts, as long as no expert with many
  rows needs the clamped activation; a scale is
  approved only when it is 1, and an installation that returns has replaced every binding.

  \<^bold>\<open>Interfaces.\<close>  The locales \<open>component\<close> (operations that keep an invariant), \<open>row_decoder\<close> (decoders that
  work row by row), \<open>staging_fill\<close> (the fills a prefill slice can use) and those of the arena, shard and copy theories state what a client relies on; each is
  interpreted on the model of the code that provides it.

  \<^bold>\<open>Bounds and fuel.\<close>  \<open>replace_upto\<close> takes the length of the text as fuel, which is enough
  (\<open>replace_upto_fuel\<close>).  The read loop of the store runs over the answers of the operating system and is
  \<open>None\<close> when they run out; \<open>store_read_returns\<close> says which answers are enough.  The copy is a step relation
  with progress proved.  The fused dispatch calls itself on slices of a batch, with the number of tokens as
  measure.  The other loops are structural or have a measure.

  \<^bold>\<open>Parameters.\<close>  Code outside \<open>src/\<close> is an argument: SHA-256, JSON parsing, answers of \<open>preadv\<close> and of
  \<open>madvise\<close>, the process group, the quantization methods vLLM delegates to, torch's floating point, the row
  decoder of the ExLlamaV3 extension, the conversion to bfloat16, the attention of one head group and the order
  in which the programs of a kernel run.  The expert kernels are arguments too, with contracts as named
  predicates (\<open>moe_contract\<close>, \<open>coop_contract\<close>, \<open>fat_contract\<close>, \<open>columns_contract\<close>, \<open>argsort_contract\<close>,
  \<open>forward_contract\<close>, and \<open>linear_contract\<close> and \<open>decode_contract\<close> for the dense layers): a specified launch adds, for the experts it walks, the weighted rows of their segments,
  computed with the roundings of the reference.  Sums of rows are exact, so their order is immaterial in the
  model; the device adds in single precision.

  \<^bold>\<open>Not modelled.\<close>  The C++ and CUDA kernels, the insert and decode hooks of the 4-bit KV cache, memory-placement patches and the tools; logging,
  statistics, scratch buffers and memory snapshots of the modelled functions.
\<close>

end
